(* ===== verification/Prelude.thy ===== *)
theory Prelude
  imports Complex_Main "HOL-Library.AList" "HOL-Library.List_Lexorder"
    "HOL-Library.Char_ord" "HOL-Library.Multiset" "HOL-Library.Product_Lexorder" "HOL-Library.Option_ord"
begin

text \<open>
  Shared vocabulary of the development: the Python string and dictionary operations the
  modelled modules use, the error type of raised exceptions, and the generic list lemmas
  the component theories rely on.

  A Python \<open>str\<close> is a \<^typ>\<open>string\<close> and its character classes are those of the ASCII
  range, which is the alphabet of the identifiers, verbs and query texts handled here. A
  Python \<open>dict\<close> is an association list kept in insertion order: \<^const>\<open>AList.update\<close>
  overwrites a present key in place and appends a new one, as \<open>d[k] = v\<close> does.
\<close>

named_theorems frame_simps \<open>what an operation leaves unchanged\<close>
named_theorems py_simps \<open>evaluation of the Python helpers\<close>

section \<open>Errors as values\<close>

datatype error =
    ValueError string
  | KeyError string
  | IndexError
  | TypeErr string
  | RuntimeErr string

type_synonym 'a result = "error + 'a"

definition bind_r :: "'a result \<Rightarrow> ('a \<Rightarrow> 'b result) \<Rightarrow> 'b result" where
  "bind_r r f = (case r of Inl e \<Rightarrow> Inl e | Inr a \<Rightarrow> f a)"

lemma bind_r_simps [simp]:
  "bind_r (Inl e) f = Inl e"
  "bind_r (Inr a) f = f a"
  by (simp_all add: bind_r_def)

lemma bind_r_Inr: "bind_r r f = Inr b \<longleftrightarrow> (\<exists>a. r = Inr a \<and> f a = Inr b)"
  by (cases r) auto

section \<open>Characters\<close>

definition is_space :: "char \<Rightarrow> bool" where
  "is_space c = (let n = (of_char c :: nat) in (9 \<le> n \<and> n \<le> 13) \<or> (28 \<le> n \<and> n \<le> 32))"

definition is_upper :: "char \<Rightarrow> bool" where
  "is_upper c = (let n = (of_char c :: nat) in 65 \<le> n \<and> n \<le> 90)"

definition is_lower :: "char \<Rightarrow> bool" where
  "is_lower c = (let n = (of_char c :: nat) in 97 \<le> n \<and> n \<le> 122)"

definition is_digit :: "char \<Rightarrow> bool" where
  "is_digit c = (let n = (of_char c :: nat) in 48 \<le> n \<and> n \<le> 57)"

definition is_alpha :: "char \<Rightarrow> bool" where
  "is_alpha c = (is_upper c \<or> is_lower c)"

definition is_alnum :: "char \<Rightarrow> bool" where
  "is_alnum c = (is_alpha c \<or> is_digit c)"

text \<open>The regular-expression class \<open>\w\<close>.\<close>

definition is_word :: "char \<Rightarrow> bool" where
  "is_word c = (is_alnum c \<or> c = CHR ''_'')"

definition lower_char :: "char \<Rightarrow> char" where
  "lower_char c = (if is_upper c then char_of ((of_char c :: nat) + 32) else c)"

lemmas char_class_defs =
  is_space_def is_upper_def is_lower_def is_digit_def is_alpha_def is_alnum_def is_word_def Let_def

lemma char_classes_disjoint:
  "is_upper c \<Longrightarrow> \<not> is_lower c" "is_upper c \<Longrightarrow> \<not> is_digit c" "is_lower c \<Longrightarrow> \<not> is_digit c"
  "is_space c \<Longrightarrow> \<not> is_word c" "is_upper c \<Longrightarrow> \<not> is_space c" "is_lower c \<Longrightarrow> \<not> is_space c"
  "is_digit c \<Longrightarrow> \<not> is_space c"
  by (auto simp: char_class_defs)

lemma lower_char_class:
  "is_upper c \<Longrightarrow> is_lower (lower_char c)"
  "\<not> is_upper c \<Longrightarrow> lower_char c = c"
  by (auto simp: lower_char_def char_class_defs)

lemma not_upper_lower_char [simp]: "\<not> is_upper (lower_char c)"
  using lower_char_class char_classes_disjoint by metis

lemma lower_char_idem [simp]: "lower_char (lower_char c) = lower_char c"
  by (rule lower_char_class) simp

lemma is_space_lower_char [simp]: "is_space (lower_char c) = is_space c"
  using lower_char_class char_classes_disjoint by metis

section \<open>Strings\<close>

definition str_lower :: "string \<Rightarrow> string" where
  "str_lower s = map lower_char s"

definition lstrip :: "string \<Rightarrow> string" where
  "lstrip s = dropWhile is_space s"

definition rstrip :: "string \<Rightarrow> string" where
  "rstrip s = rev (dropWhile is_space (rev s))"

definition strip :: "string \<Rightarrow> string" where
  "strip s = rstrip (lstrip s)"

fun join :: "string \<Rightarrow> string list \<Rightarrow> string" where
  "join sep [] = []"
| "join sep [w] = w"
| "join sep (w # ws) = w @ sep @ join sep ws"

text \<open>\<open>re.split(r"[...]+", s)\<close>: the fields between maximal runs of separator characters;
  a leading or trailing run leaves an empty field.\<close>

function split_runs :: "('a \<Rightarrow> bool) \<Rightarrow> 'a list \<Rightarrow> 'a list list" where
  "split_runs p s =
     takeWhile (\<lambda>c. \<not> p c) s #
     (case dropWhile (\<lambda>c. \<not> p c) s of [] \<Rightarrow> [] | _ # r \<Rightarrow> split_runs p (dropWhile p r))"
  by pat_completeness auto
termination
proof (relation "measure (\<lambda>(p, s). length s)", goal_cases)
  case (2 p s c r)
  have "length (dropWhile p r) \<le> length r" by (rule length_dropWhile_le)
  moreover have "length (c # r) \<le> length s"
    using 2 length_dropWhile_le [of "\<lambda>c. \<not> p c" s] by simp
  ultimately show ?case by simp
qed simp

declare split_runs.simps [simp del]

text \<open>The non-empty fields.\<close>

definition split_words :: "('a \<Rightarrow> bool) \<Rightarrow> 'a list \<Rightarrow> 'a list list" where
  "split_words p s = filter (\<lambda>w. w \<noteq> []) (split_runs p s)"

text \<open>\<open>s.split(sep, 1)\<close> for a one-character separator: \<open>None\<close> when it does not occur.\<close>

definition split_once :: "char \<Rightarrow> string \<Rightarrow> (string \<times> string) option" where
  "split_once c s =
     (case dropWhile (\<lambda>x. x \<noteq> c) s of [] \<Rightarrow> None
      | _ # r \<Rightarrow> Some (takeWhile (\<lambda>x. x \<noteq> c) s, r))"

definition starts_with :: "string \<Rightarrow> string \<Rightarrow> bool" where
  "starts_with p s = (take (length p) s = p)"

text \<open>\<open>s.find(t)\<close>: the least index at which \<open>t\<close> occurs (\<open>None\<close> for the code's -1).\<close>

fun str_find :: "string \<Rightarrow> string \<Rightarrow> nat option" where
  "str_find t [] = (if t = [] then Some 0 else None)"
| "str_find t (c # s) =
     (if starts_with t (c # s) then Some 0 else map_option Suc (str_find t s))"

lemma length_str_lower [simp]: "length (str_lower s) = length s"
  by (simp add: str_lower_def)

lemma str_lower_idem [simp]: "str_lower (str_lower s) = str_lower s"
  by (simp add: str_lower_def comp_def)

lemma str_lower_append [simp]: "str_lower (a @ b) = str_lower a @ str_lower b"
  by (simp add: str_lower_def)

lemma lstrip_lower: "lstrip (str_lower s) = str_lower (lstrip s)"
  by (simp add: lstrip_def str_lower_def dropWhile_map comp_def)

lemma rstrip_lower: "rstrip (str_lower s) = str_lower (rstrip s)"
  by (simp add: rstrip_def str_lower_def rev_map [symmetric] dropWhile_map comp_def) (simp add: rev_map dropWhile_map comp_def)

lemma strip_lower: "strip (str_lower s) = str_lower (strip s)"
  by (simp add: strip_def lstrip_lower rstrip_lower)

lemma rstrip_unchanged: "s = [] \<or> \<not> is_space (last s) \<Longrightarrow> rstrip s = s"
  by (cases s rule: rev_cases) (auto simp: rstrip_def)

lemma lstrip_unchanged: "s = [] \<or> \<not> is_space (hd s) \<Longrightarrow> lstrip s = s"
  by (cases s) (auto simp: lstrip_def)

lemma rstrip_prefix: "\<exists>t. s = rstrip s @ t \<and> (\<forall>c\<in>set t. is_space c)"
proof -
  have "rev s = takeWhile is_space (rev s) @ dropWhile is_space (rev s)" by simp
  then have "s = rstrip s @ rev (takeWhile is_space (rev s))"
    unfolding rstrip_def by (metis rev_append rev_rev_ident)
  then show ?thesis by (metis set_rev set_takeWhileD)
qed

lemma last_rstrip: "rstrip s \<noteq> [] \<Longrightarrow> \<not> is_space (last (rstrip s))"
  unfolding rstrip_def using hd_dropWhile [of is_space "rev s"] by (simp add: last_rev)

lemma hd_lstrip: "lstrip s \<noteq> [] \<Longrightarrow> \<not> is_space (hd (lstrip s))"
  unfolding lstrip_def using hd_dropWhile [of is_space s] by simp

lemma strip_idem [simp]: "strip (strip s) = strip s"
proof (cases "strip s = []")
  case True
  moreover have "strip [] = []" by (simp add: strip_def lstrip_def rstrip_def)
  ultimately show ?thesis by simp
next
  case False
  obtain t where t: "lstrip s = strip s @ t"
    using rstrip_prefix [of "lstrip s"] by (auto simp: strip_def)
  with False have "\<not> is_space (hd (strip s))"
    using hd_lstrip [of s] by (cases "strip s") auto
  then have "lstrip (strip s) = strip s" by (rule lstrip_unchanged [OF disjI2])
  moreover have "rstrip (strip s) = strip s"
    by (rule rstrip_unchanged, cases "strip s = []") (simp_all add: strip_def last_rstrip)
  ultimately show ?thesis unfolding strip_def [of "strip s"] by simp
qed

lemma set_strip: "set (strip s) \<subseteq> set s"
proof -
  have "set (rstrip t) \<subseteq> set t" for t
    using set_dropWhileD [of _ is_space "rev t"] by (auto simp: rstrip_def)
  moreover have "set (lstrip t) \<subseteq> set t" for t
    using set_dropWhileD [of _ is_space t] by (auto simp: lstrip_def)
  ultimately show ?thesis unfolding strip_def by blast
qed

section \<open>Splitting and joining\<close>

lemma split_words_Nil [simp]: "split_words p [] = []"
  by (simp add: split_words_def split_runs.simps [of p "[]"])

lemma split_words_step: "p c \<Longrightarrow> split_words p (c # s) = split_words p (dropWhile p s)"
  by (simp add: split_words_def split_runs.simps [of p "c # s"])

lemma split_words_dropWhile: "split_words p (dropWhile p s) = split_words p s"
proof (cases s)
  case (Cons c r)
  show ?thesis
  proof (cases "p c")
    case True
    then have "split_words p s = split_words p (dropWhile p r)"
      unfolding Cons by (rule split_words_step)
    moreover have "dropWhile p s = dropWhile p r" using True Cons by simp
    ultimately show ?thesis by simp
  qed (simp add: Cons)
qed simp

lemma split_words_sep [simp]: "p c \<Longrightarrow> split_words p (c # s) = split_words p s"
  by (rule trans [OF split_words_step split_words_dropWhile])

lemma split_words_word:
  assumes "w \<noteq> []" "\<forall>c\<in>set w. \<not> p c"
  shows "split_words p w = [w]"
proof -
  have "takeWhile (\<lambda>c. \<not> p c) w = w" "dropWhile (\<lambda>c. \<not> p c) w = []"
    using assms by (simp_all add: takeWhile_eq_all_conv)
  then have "split_runs p w = [w]" by (simp only: split_runs.simps [of p w] list.case)
  with assms show ?thesis by (simp add: split_words_def)
qed

lemma split_words_word_sep:
  assumes "w \<noteq> []" "\<forall>c\<in>set w. \<not> p c" "p d"
  shows "split_words p (w @ d # s) = w # split_words p s"
proof -
  have "takeWhile (\<lambda>c. \<not> p c) (w @ d # s) = w" "dropWhile (\<lambda>c. \<not> p c) (w @ d # s) = d # s"
    using assms by (induction w) auto
  then have "split_words p (w @ d # s) = w # split_words p (dropWhile p s)"
    using assms by (simp add: split_words_def split_runs.simps [of p "w @ d # s"])
  then show ?thesis by (simp add: split_words_dropWhile)
qed

lemma split_words_join:
  assumes "\<forall>w\<in>set ws. w \<noteq> [] \<and> (\<forall>c\<in>set w. \<not> p c)" "p d"
  shows "split_words p (join [d] ws) = ws"
  using assms
  by (induction "[d]" ws rule: join.induct) (auto simp: split_words_word split_words_word_sep)

lemma split_words_props:
  "w \<in> set (split_words p s) \<Longrightarrow> w \<noteq> [] \<and> (\<forall>c\<in>set w. \<not> p c) \<and> set w \<subseteq> set s"
proof (induction s rule: length_induct)
  case (1 s)
  let ?t = "takeWhile (\<lambda>c. \<not> p c) s" and ?d = "dropWhile (\<lambda>c. \<not> p c) s"
  show ?case
  proof (cases ?d)
    case Nil
    then have "split_runs p s = [?t]" by (simp only: split_runs.simps [of p s] list.case)
    with "1.prems" show ?thesis
      by (auto simp: split_words_def split: if_splits dest: set_takeWhileD)
  next
    case (Cons c r)
    have r: "split_runs p s = ?t # split_runs p (dropWhile p r)"
      using Cons by (simp add: split_runs.simps [of p s])
    have len: "length (dropWhile p r) < length s"
      using Cons length_dropWhile_le [of p r] length_dropWhile_le [of "\<lambda>c. \<not> p c" s] by simp
    have sub: "set (dropWhile p r) \<subseteq> set s"
    proof -
      have "set (dropWhile p r) \<subseteq> set ?d" using Cons by (auto dest: set_dropWhileD)
      then show ?thesis by (auto dest: set_dropWhileD)
    qed
    from "1.prems" r have "w = ?t \<and> w \<noteq> [] \<or> w \<in> set (split_words p (dropWhile p r))"
      by (auto simp: split_words_def split: if_splits)
    then show ?thesis
    proof
      assume "w = ?t \<and> w \<noteq> []"
      then show ?thesis by (auto dest: set_takeWhileD)
    next
      assume "w \<in> set (split_words p (dropWhile p r))"
      with "1.IH" len have "w \<noteq> [] \<and> (\<forall>c\<in>set w. \<not> p c) \<and> set w \<subseteq> set (dropWhile p r)" by blast
      with sub show ?thesis by blast
    qed
  qed
qed

lemma split_words_cover:
  "c \<in> set s \<Longrightarrow> \<not> p c \<Longrightarrow> \<exists>w\<in>set (split_words p s). c \<in> set w"
proof (induction s rule: length_induct)
  case (1 s)
  let ?t = "takeWhile (\<lambda>c. \<not> p c) s" and ?d = "dropWhile (\<lambda>c. \<not> p c) s"
  have "c \<in> set ?t \<or> c \<in> set ?d"
    using "1.prems"(1) by (metis Un_iff set_append takeWhile_dropWhile_id)
  then show ?case
  proof
    assume "c \<in> set ?t"
    then have "?t \<noteq> []" "c \<in> set ?t" by auto
    then show ?thesis by (auto simp: split_words_def split_runs.simps [of p s])
  next
    assume c: "c \<in> set ?d"
    then obtain e r where d: "?d = e # r" by (cases ?d) auto
    have "p e" using d by (metis hd_dropWhile list.distinct(1) list.sel(1))
    with c d "1.prems"(2) have "c \<in> set r" by auto
    moreover have "c \<in> set (takeWhile p r) \<Longrightarrow> p c" by (auto dest: set_takeWhileD)
    ultimately have "c \<in> set (dropWhile p r)"
      using "1.prems"(2) by (metis Un_iff set_append takeWhile_dropWhile_id)
    moreover have "length (dropWhile p r) < length s"
      using d length_dropWhile_le [of p r] length_dropWhile_le [of "\<lambda>c. \<not> p c" s] by simp
    ultimately obtain w where "w \<in> set (split_words p (dropWhile p r))" "c \<in> set w"
      using "1.IH" "1.prems"(2) by blast
    then show ?thesis using d by (auto simp: split_words_def split_runs.simps [of p s])
  qed
qed

lemma split_words_append_sep:
  "p d \<Longrightarrow> split_words p (s @ d # t) = split_words p s @ split_words p t"
proof (induction s rule: length_induct)
  case (1 s)
  let ?t = "takeWhile (\<lambda>c. \<not> p c) s"
  show ?case
  proof (cases "dropWhile (\<lambda>c. \<not> p c) s")
    case Nil
    then have "\<forall>c\<in>set s. \<not> p c" by (simp add: dropWhile_eq_Nil_conv)
    then show ?thesis
      using "1.prems" by (cases "s = []") (auto simp: split_words_word split_words_word_sep)
  next
    case (Cons e r)
    have pe: "p e" using Cons by (metis hd_dropWhile list.distinct(1) list.sel(1))
    have s: "s = ?t @ e # r" using Cons by (metis takeWhile_dropWhile_id)
    have tn: "\<forall>c\<in>set ?t. \<not> p c" by (auto dest: set_takeWhileD)
    have len: "length r < length s" by (subst s) simp
    have ih: "split_words p (r @ d # t) = split_words p r @ split_words p t"
      using "1.IH" len "1.prems" by blast
    have gen: "split_words p (?t @ e # x) = (if ?t = [] then [] else [?t]) @ split_words p x" for x
      using pe tn by (auto simp: split_words_word_sep)
    have "split_words p (s @ d # t) = split_words p (?t @ e # (r @ d # t))"
      by (subst (1) s) simp
    also have "\<dots> = ((if ?t = [] then [] else [?t]) @ split_words p r) @ split_words p t"
      by (simp only: gen ih append_assoc)
    also have "(if ?t = [] then [] else [?t]) @ split_words p r = split_words p (?t @ e # r)"
      by (simp only: gen)
    also have "split_words p (?t @ e # r) = split_words p s"
      using s by simp
    finally show ?thesis .
  qed
qed

lemma split_words_append_seps:
  "\<forall>c\<in>set t. p c \<Longrightarrow> split_words p (s @ t) = split_words p s"
proof (induction t arbitrary: s rule: rev_induct)
  case Nil
  then show ?case by simp
next
  case (snoc c t)
  have "split_words p (s @ t @ [c]) = split_words p (s @ t) @ split_words p []"
    using split_words_append_sep [of p c "s @ t" "[]"] snoc.prems by simp
  with snoc show ?case by simp
qed

lemma split_words_strip:
  assumes "\<And>c. is_space c \<Longrightarrow> p c"
  shows "split_words p (strip s) = split_words p s"
proof -
  have l: "split_words p (lstrip t) = split_words p t" for t
    unfolding lstrip_def using assms by (induction t) auto
  obtain t where "lstrip s = strip s @ t" "\<forall>c\<in>set t. is_space c"
    using rstrip_prefix [of "lstrip s"] by (auto simp: strip_def)
  then show ?thesis using split_words_append_seps [of t p "strip s"] assms l by metis
qed

text \<open>SQL's \<open>s LIKE p\<close>: \<open>%\<close> stands for any string and \<open>_\<close> for any character.\<close>

function like_match :: "string \<Rightarrow> string \<Rightarrow> bool" where
  "like_match [] s = (s = [])"
| "like_match (p # ps) s =
     (if p = CHR ''%'' then like_match ps s \<or> (case s of [] \<Rightarrow> False | _ # t \<Rightarrow> like_match (p # ps) t)
      else case s of [] \<Rightarrow> False | c # t \<Rightarrow> (p = CHR ''_'' \<or> p = c) \<and> like_match ps t)"
  by pat_completeness auto
termination by (relation "measure (\<lambda>(p, s). length p + length s)") auto

lemma like_any: "like_match ''%'' s"
  by (induction s) auto

lemma like_prefix:
  "CHR ''%'' \<notin> set p \<Longrightarrow> CHR ''_'' \<notin> set p \<Longrightarrow> like_match (p @ ''%'') s = starts_with p s"
proof (induction p arbitrary: s)
  case Nil
  show ?case using like_any [of s] by (simp only: append_Nil starts_with_def) simp
next
  case (Cons c p)
  then show ?case by (cases s) (auto simp: starts_with_def)
qed

section \<open>Dictionaries and ordered results\<close>

text \<open>\<open>d.get(k)\<close>, \<open>d.setdefault(k, v)\<close> and \<open>k in d\<close> on a dictionary in insertion order.\<close>

definition dict_setdefault :: "'k \<Rightarrow> 'v \<Rightarrow> ('k \<times> 'v) list \<Rightarrow> ('k \<times> 'v) list" where
  "dict_setdefault k v d = (if map_of d k = None then d @ [(k, v)] else d)"

text \<open>\<open>list(dict.fromkeys(xs))\<close>: first occurrences, in order.\<close>

fun dedup_acc :: "'a list \<Rightarrow> 'a list \<Rightarrow> 'a list" where
  "dedup_acc seen [] = []"
| "dedup_acc seen (x # xs) =
     (if x \<in> set seen then dedup_acc seen xs else x # dedup_acc (x # seen) xs)"

definition dedup :: "'a list \<Rightarrow> 'a list" where
  "dedup xs = dedup_acc [] xs"

lemma dedup_acc_props:
  "distinct (dedup_acc seen xs) \<and> set (dedup_acc seen xs) = set xs - set seen"
  by (induction seen xs rule: dedup_acc.induct) auto

lemma distinct_dedup [simp]: "distinct (dedup xs)" and set_dedup [simp]: "set (dedup xs) = set xs"
  using dedup_acc_props [of "[]" xs] by (simp_all add: dedup_def)

lemma map_of_update [simp]: "map_of (AList.update k v d) = (map_of d)(k \<mapsto> v)"
  by (rule update_conv')

lemma map_of_setdefault:
  "map_of (dict_setdefault k v d) = (if map_of d k = None then (map_of d)(k \<mapsto> v) else map_of d)"
  by (auto simp: dict_setdefault_def map_add_def fun_eq_iff split: option.splits)

text \<open>Sorting by a key is stable, and two lists of the same elements with pairwise
  different keys sort to the same list.\<close>

lemma sort_key_unique:
  assumes "mset xs = mset ys" "inj_on f (set xs)"
  shows "sort_key f xs = sort_key f ys"
proof (rule properties_for_sort_key)
  show "mset (sort_key f ys) = mset xs" using assms(1) by simp
  show "sorted (map f (sort_key f ys))" by (rule sorted_sort_key)
  fix k assume k: "k \<in> set (sort_key f ys)"
  have set: "set xs = set ys" using assms(1) by (metis set_mset_mset)
  have flt: "filter (\<lambda>x. f k = f x) zs = filter ((=) k) zs" if "set zs = set xs" for zs
    using that k set assms(2) by (intro filter_cong) (auto dest: inj_onD)
  have "filter ((=) k) (sort_key f ys) = filter ((=) k) xs"
    using assms(1) by (metis mset_sort replicate_count_mset_eq_filter_eq)
  then show "filter (\<lambda>x. f k = f x) (sort_key f ys) = filter (\<lambda>x. f k = f x) xs"
    using set by (simp add: flt)
qed

section \<open>Slices and optional arguments\<close>

text \<open>\<open>xs[:n]\<close>.\<close>

definition py_take :: "int \<Rightarrow> 'a list \<Rightarrow> 'a list" where
  "py_take n xs = (if 0 \<le> n then take (nat n) xs else take (length xs - nat (- n)) xs)"

text \<open>A restriction by an optional argument: an absent or empty one does not restrict.\<close>

definition given :: "string option \<Rightarrow> (string \<Rightarrow> bool) \<Rightarrow> bool" where
  "given x p = (case x of None \<Rightarrow> True | Some [] \<Rightarrow> True | Some y \<Rightarrow> p y)"

section \<open>Refinement of operations with results\<close>

text \<open>\<open>cexec\<close> is a component's operation on its state, \<open>aexec\<close> what its contract says of the
  abstract state. When every operation simulates, every run answers as the contract does.\<close>

fun run_ops :: "('op \<Rightarrow> 's \<Rightarrow> 'r \<times> 's) \<Rightarrow> 'op list \<Rightarrow> 's \<Rightarrow> 'r list" where
  "run_ops f [] s = []"
| "run_ops f (x # xs) s = (case f x s of (r, s') \<Rightarrow> r # run_ops f xs s')"

locale refines =
  fixes cexec :: "'op \<Rightarrow> 's \<Rightarrow> 'r \<times> 's"
    and aexec :: "'op \<Rightarrow> 'a \<Rightarrow> 'r \<times> 'a"
    and abs :: "'s \<Rightarrow> 'a"
    and inv :: "'s \<Rightarrow> bool"
    and ok :: "'op \<Rightarrow> bool"
  assumes exec_inv: "inv s \<Longrightarrow> ok x \<Longrightarrow> inv (snd (cexec x s))"
    and exec_abs: "inv s \<Longrightarrow> ok x \<Longrightarrow> aexec x (abs s) = (fst (cexec x s), abs (snd (cexec x s)))"
begin

lemma run_refines: "inv s \<Longrightarrow> \<forall>x\<in>set xs. ok x \<Longrightarrow> run_ops cexec xs s = run_ops aexec xs (abs s)"
  by (induction xs arbitrary: s) (auto simp: split_beta exec_abs exec_inv)

end

end
