(* ===== verification/Identifier.thy ===== *)
theory Identifier
  imports Prelude
begin

text \<open>
  Identifier splitting and name variants (\<open>src/src/refmatrix/identifier.py\<close>) and the concept
  alias forms of the store (\<open>_concept_variants\<close>, \<open>_canonical_for_kind\<close>,
  \<open>_canonical_verb\<close> in \<open>store.py\<close>).

  \<open>part_len\<close> spells out the four alternatives of the module's regular expression in the order
  the engine tries them; \<open>part_findall\<close> is \<open>findall\<close>: it takes the match where one
  starts and otherwise moves on by one character.
\<close>

section \<open>Splitting an identifier into parts\<close>

definition is_sep :: "char \<Rightarrow> bool" where
  "is_sep c = (is_space c \<or> c = CHR ''_'' \<or> c = CHR ''-'')"

lemma is_sep_chars [simp]: "is_sep (CHR ''_'')" "is_sep (CHR ''-'')" "is_sep (CHR '' '')"
  by (simp_all add: is_sep_def char_class_defs)

text \<open>\<open>[A-Z]+(?=[A-Z][a-z])\<close>: the longest run of capitals that a capital and a small letter follow.\<close>

definition acronym_len :: "string \<Rightarrow> nat" where
  "acronym_len s =
     (case find (\<lambda>k. case drop k s of a # b # _ \<Rightarrow> is_upper a \<and> is_lower b | _ \<Rightarrow> False)
             (rev [1..<Suc (length (takeWhile is_upper s))]) of
        Some k \<Rightarrow> k | None \<Rightarrow> 0)"

text \<open>\<open>[A-Z]?[a-z]+\<close>\<close>

definition word_len :: "string \<Rightarrow> nat" where
  "word_len s =
     (case s of [] \<Rightarrow> 0
      | c # r \<Rightarrow>
         if is_upper c \<and> takeWhile is_lower r \<noteq> [] then Suc (length (takeWhile is_lower r))
         else length (takeWhile is_lower s))"

definition part_len :: "string \<Rightarrow> nat" where
  "part_len s =
     (if 0 < acronym_len s then acronym_len s
      else if 0 < word_len s then word_len s
      else if takeWhile is_upper s \<noteq> [] then length (takeWhile is_upper s)
      else length (takeWhile is_digit s))"

function part_findall :: "string \<Rightarrow> string list" where
  "part_findall s =
     (case s of [] \<Rightarrow> []
      | _ # r \<Rightarrow>
         if part_len s = 0 then part_findall r
         else take (part_len s) s # part_findall (drop (part_len s) s))"
  by pat_completeness auto
termination
  by (relation "measure length") auto

declare part_findall.simps [simp del]

lemma part_findall_Nil [simp, code]: "part_findall [] = []"
  by (subst part_findall.simps) simp

lemma part_findall_Cons [code]:
  "part_findall (c # r) =
     (if part_len (c # r) = 0 then part_findall r
      else take (part_len (c # r)) (c # r) # part_findall (drop (part_len (c # r)) (c # r)))"
  by (subst part_findall.simps) simp

definition concept_parts :: "string \<Rightarrow> string list" where
  "concept_parts name =
     concat (map (\<lambda>chunk. map str_lower (part_findall chunk)) (split_words is_sep (strip name)))"

definition canonicalize_name :: "string \<Rightarrow> string" where
  "canonicalize_name name =
     (let parts = concept_parts name in
      if parts = [] then str_lower (strip name) else join ''_'' parts)"

text \<open>The loop \<open>for variant in ...: if variant not in out: out.append(variant)\<close>.\<close>

definition append_new :: "'a list \<Rightarrow> 'a list \<Rightarrow> 'a list" where
  "append_new out vs = foldl (\<lambda>acc v. if v \<in> set acc then acc else acc @ [v]) out vs"

definition expand_name_variants :: "string \<Rightarrow> string list" where
  "expand_name_variants name =
     (let stripped = strip name; parts = concept_parts stripped in
      if 2 \<le> length parts then
        append_new [stripped] [join ''_'' parts, join ''-'' parts, join '' '' parts]
      else if length parts = 1 then
        (if hd parts \<noteq> stripped then [stripped, hd parts] else [stripped])
      else [stripped])"

section \<open>Concept alias forms and verbs of the store\<close>

definition concept_variants :: "string \<Rightarrow> string \<times> string list" where
  "concept_variants name =
     (let stripped = strip name in
      if starts_with ''phrase/'' stripped then (stripped, [])
      else let parts = split_words is_sep stripped in
        if length parts < 2 then (stripped, [])
        else let canonical = join ''_'' parts in
          (canonical,
           foldl (\<lambda>vs v. if v \<noteq> canonical \<and> v \<notin> set vs then vs @ [v] else vs) []
             [join '' '' parts, join ''-'' parts]))"

definition canonical_for_kind :: "string \<Rightarrow> string \<Rightarrow> string option" where
  "canonical_for_kind kind name =
     (if kind \<noteq> ''concept'' then None else Some (canonicalize_name name))"

definition verb_aliases :: "(string \<times> string) list" where
  "verb_aliases = [(''related_to'', ''related-to'')]"

definition canonical_verb :: "string \<Rightarrow> string" where
  "canonical_verb name = (case map_of verb_aliases name of Some v \<Rightarrow> v | None \<Rightarrow> name)"

lemma canonical_verb_idem [simp]: "canonical_verb (canonical_verb v) = canonical_verb v"
  by (simp add: canonical_verb_def verb_aliases_def)

section \<open>The shape of parts\<close>

text \<open>A part is a non-empty run of small letters or a non-empty run of digits.\<close>

definition good_part :: "string \<Rightarrow> bool" where
  "good_part w = (w \<noteq> [] \<and> ((\<forall>c\<in>set w. is_lower c) \<or> (\<forall>c\<in>set w. is_digit c)))"

lemma takeWhile_all: "\<forall>c\<in>set w. p c \<Longrightarrow> takeWhile p w = w"
  by (simp add: takeWhile_eq_all_conv)

lemma takeWhile_none: "w \<noteq> [] \<Longrightarrow> \<not> p (hd w) \<Longrightarrow> takeWhile p w = []"
  by (cases w) auto

lemma acronym_len_le: "acronym_len s \<le> length (takeWhile is_upper s)"
proof -
  have found: "find P xs = Some k \<Longrightarrow> k \<in> set xs" for P and xs :: "nat list" and k
    by (auto simp: find_Some_iff)
  show ?thesis
    unfolding acronym_len_def
    by (auto split: option.split dest!: found simp del: upt_Suc)
qed

lemma acronym_len_no_upper: "s = [] \<or> \<not> is_upper (hd s) \<Longrightarrow> acronym_len s = 0"
  using acronym_len_le [of s] by (cases s) auto

lemma part_findall_word:
  assumes "good_part w"
  shows "part_findall w = [w]"
proof -
  obtain c r where w: "w = c # r" using assms by (cases w) (auto simp: good_part_def)
  from assms have cls: "(\<forall>c\<in>set w. is_lower c) \<or> (\<forall>c\<in>set w. is_digit c)"
    by (simp add: good_part_def)
  have nu: "\<not> is_upper c" using cls w char_classes_disjoint by auto
  have ac: "acronym_len w = 0" using nu w by (simp add: acronym_len_no_upper)
  have tu: "takeWhile is_upper w = []" using nu w by simp
  have pl: "part_len w = length w"
  proof (cases "\<forall>c\<in>set w. is_lower c")
    case True
    then have "length (takeWhile is_lower w) = length w" using takeWhile_all by metis
    then have "word_len w = length w" using nu w by (simp add: word_len_def)
    with ac w show ?thesis by (simp add: part_len_def)
  next
    case False
    with cls have dig: "\<forall>c\<in>set w. is_digit c" by blast
    then have "\<not> is_lower c" using w char_classes_disjoint by auto
    then have "word_len w = 0" using nu w by (simp add: word_len_def)
    moreover have "length (takeWhile is_digit w) = length w" using takeWhile_all dig by metis
    ultimately show ?thesis using ac tu by (simp add: part_len_def)
  qed
  show ?thesis using pl by (simp add: w part_findall_Cons)
qed

lemma str_lower_all:
  "\<forall>c\<in>set w. is_upper c \<or> is_lower c \<Longrightarrow> \<forall>c\<in>set (str_lower w). is_lower c"
  by (auto simp: str_lower_def) (metis lower_char_class)

lemma str_lower_digits: "\<forall>c\<in>set w. is_digit c \<Longrightarrow> str_lower w = w"
  using lower_char_class(2) char_classes_disjoint(2) by (auto simp: str_lower_def intro!: map_idI)

lemma part_len_take:
  assumes "0 < part_len s"
  shows "good_part (str_lower (take (part_len s) s))"
proof -
  have ne: "take (part_len s) s \<noteq> []" if "s \<noteq> []" using assms that by simp
  have s: "s \<noteq> []"
  proof
    assume "s = []"
    then have "part_len s = 0"
      by (simp add: part_len_def word_len_def acronym_len_no_upper)
    with assms show False by simp
  qed
  have upper: "c \<in> set (take n s) \<Longrightarrow> is_upper c" if "n \<le> length (takeWhile is_upper s)" for n c
  proof -
    assume "c \<in> set (take n s)"
    moreover have "take n s = take n (takeWhile is_upper s)"
      using that by (metis append_take_drop_id takeWhile_eq_take take_take min.absorb1)
    ultimately show "is_upper c" using in_set_takeD set_takeWhileD by metis
  qed
  have mixed: "good_part (str_lower w)" if "w \<noteq> []" "\<forall>c\<in>set w. is_upper c \<or> is_lower c" for w
    using that str_lower_all [of w] by (auto simp: good_part_def str_lower_def)
  consider (ac) "0 < acronym_len s" "part_len s = acronym_len s"
    | (wd) "0 < word_len s" "part_len s = word_len s"
    | (up) "part_len s = length (takeWhile is_upper s)"
    | (dg) "part_len s = length (takeWhile is_digit s)"
    by (cases "0 < acronym_len s"; cases "0 < word_len s"; cases "takeWhile is_upper s \<noteq> []")
      (auto simp: part_len_def)
  then show ?thesis
  proof cases
    case ac
    then show ?thesis using upper acronym_len_le [of s] ne s by (intro mixed) auto
  next
    case wd
    obtain c r where cr: "s = c # r" using s by (cases s) auto
    have tl: "take (length (takeWhile is_lower t)) t = takeWhile is_lower t" for t
      by (metis takeWhile_eq_take)
    have "\<forall>x\<in>set (take (word_len s) s). is_upper x \<or> is_lower x"
    proof (cases "is_upper c \<and> takeWhile is_lower r \<noteq> []")
      case True
      then have "take (word_len s) s = c # takeWhile is_lower r"
        using cr tl by (simp add: word_len_def)
      with True show ?thesis by (auto dest: set_takeWhileD)
    next
      case False
      then have "take (word_len s) s = takeWhile is_lower s"
        using cr tl [of s] by (auto simp: word_len_def)
      then show ?thesis by (auto dest: set_takeWhileD)
    qed
    with wd ne s show ?thesis by (intro mixed) auto
  next
    case up
    then show ?thesis using upper ne s by (intro mixed) auto
  next
    case dg
    then have "take (part_len s) s = takeWhile is_digit s" by (metis takeWhile_eq_take)
    moreover have "\<forall>c\<in>set (takeWhile is_digit s). is_digit c" by (auto dest: set_takeWhileD)
    ultimately show ?thesis using ne s by (simp add: str_lower_digits good_part_def)
  qed
qed

lemma part_findall_good: "w \<in> set (part_findall s) \<Longrightarrow> good_part (str_lower w)"
proof (induction s rule: part_findall.induct)
  case (1 s)
  show ?case
  proof (cases s)
    case Nil
    with "1.prems" show ?thesis by simp
  next
    case (Cons c r)
    with "1.prems" "1.IH" [OF Cons] show ?thesis
      using part_len_take [of s] by (auto simp: part_findall_Cons split: if_splits)
  qed
qed

lemma concept_parts_good: "w \<in> set (concept_parts s) \<Longrightarrow> good_part w"
  by (auto simp: concept_parts_def part_findall_good)

lemma good_part_no_sep: "good_part w \<Longrightarrow> w \<noteq> [] \<and> (\<forall>c\<in>set w. \<not> is_sep c)"
  by (auto simp: good_part_def is_sep_def char_class_defs)

lemma str_lower_good [simp]: "good_part w \<Longrightarrow> str_lower w = w"
  using lower_char_class(2) char_classes_disjoint(1,2)
  by (auto simp: good_part_def str_lower_def intro!: map_idI)

lemma is_space_is_sep: "is_space c \<Longrightarrow> is_sep c"
  by (simp add: is_sep_def)

lemma concept_parts_words:
  "concept_parts s = concat (map (\<lambda>w. map str_lower (part_findall w)) (split_words is_sep s))"
  by (simp add: concept_parts_def split_words_strip is_space_is_sep)

lemma concept_parts_strip [simp]: "concept_parts (strip s) = concept_parts s"
  by (simp add: concept_parts_words split_words_strip is_space_is_sep)

lemma concept_parts_join:
  assumes "\<forall>w\<in>set ws. good_part w" "is_sep d"
  shows "concept_parts (join [d] ws) = ws"
proof -
  have "split_words is_sep (join [d] ws) = ws"
    using assms good_part_no_sep by (intro split_words_join) auto
  moreover have "concat (map (\<lambda>w. map str_lower (part_findall w)) ws) = ws"
    using assms(1) by (induction ws) (auto simp: part_findall_word)
  ultimately show ?thesis by (simp add: concept_parts_words)
qed

text \<open>A name without letters or digits has no parts, and lowering leaves it alone.\<close>

lemma part_len_pos: "is_alnum c \<Longrightarrow> 0 < part_len (c # s)"
  by (auto simp: part_len_def word_len_def is_alnum_def is_alpha_def)

lemma part_findall_Nil_iff: "part_findall s = [] \<longleftrightarrow> (\<forall>c\<in>set s. \<not> is_alnum c)"
proof (induction s rule: part_findall.induct)
  case (1 s)
  show ?case
  proof (cases s)
    case Nil
    then show ?thesis by simp
  next
    case (Cons c r)
    show ?thesis
    proof (cases "is_alnum c")
      case True
      then show ?thesis using part_len_pos [of c r] Cons by (auto simp: part_findall_Cons)
    next
      case False
      have "part_len s = 0"
        using False Cons
        by (auto simp: part_len_def word_len_def acronym_len_no_upper is_alnum_def is_alpha_def)
      with False Cons "1.IH"(1) [OF Cons] show ?thesis by (auto simp: part_findall_Cons)
    qed
  qed
qed

lemma concept_parts_Nil_iff: "concept_parts s = [] \<longleftrightarrow> (\<forall>c\<in>set s. \<not> is_alnum c)"
proof
  assume "concept_parts s = []"
  then have no: "\<forall>w\<in>set (split_words is_sep s). \<forall>c\<in>set w. \<not> is_alnum c"
    by (auto simp: concept_parts_words part_findall_Nil_iff)
  show "\<forall>c\<in>set s. \<not> is_alnum c"
  proof
    fix c assume c: "c \<in> set s"
    show "\<not> is_alnum c"
    proof (cases "is_sep c")
      case True
      then show ?thesis by (auto simp: is_sep_def char_class_defs)
    next
      case False
      then show ?thesis using split_words_cover [OF c] no by blast
    qed
  qed
next
  assume "\<forall>c\<in>set s. \<not> is_alnum c"
  then show "concept_parts s = []"
    using split_words_props [of _ is_sep s] part_findall_Nil_iff
    by (auto simp: concept_parts_words)
qed

lemma str_lower_no_alnum: "\<forall>c\<in>set s. \<not> is_alnum c \<Longrightarrow> str_lower s = s"
  using lower_char_class(2)
  by (auto simp: str_lower_def is_alnum_def is_alpha_def intro!: map_idI)

lemma canonicalize_no_parts:
  assumes "concept_parts s = []"
  shows "canonicalize_name s = strip s"
proof -
  have "\<forall>c\<in>set (strip s). \<not> is_alnum c"
    using assms set_strip [of s] concept_parts_Nil_iff by blast
  with assms show ?thesis by (simp add: canonicalize_name_def str_lower_no_alnum)
qed

lemma canonicalize_cong:
  "concept_parts a = concept_parts b \<Longrightarrow> concept_parts a \<noteq> [] \<Longrightarrow>
     canonicalize_name a = canonicalize_name b"
  by (simp add: canonicalize_name_def)

lemma canonicalize_strip [simp]: "canonicalize_name (strip s) = canonicalize_name s"
  by (simp add: canonicalize_name_def Let_def)

lemma concept_parts_canonicalize: "concept_parts (canonicalize_name s) = concept_parts s"
proof (cases "concept_parts s = []")
  case True
  then show ?thesis by (simp add: canonicalize_no_parts)
next
  case False
  then show ?thesis
    using concept_parts_join [of "concept_parts s" "CHR ''_''"] concept_parts_good
    by (simp add: canonicalize_name_def is_sep_def)
qed

section \<open>Properties\<close>

text \<open>Canonicalising a name is idempotent: the value stored in \<open>canonical_name\<close> is its own
  canonical form, so looking a canonical name up finds what the original name finds.\<close>

theorem canonicalize_idempotent: "canonicalize_name (canonicalize_name s) = canonicalize_name s"
proof (cases "concept_parts s = []")
  case True
  then show ?thesis by (simp add: canonicalize_no_parts)
next
  case False
  then show ?thesis by (intro canonicalize_cong) (simp_all add: concept_parts_canonicalize)
qed

lemma set_append_new: "set (append_new out vs) = set out \<union> set vs"
proof (induction vs arbitrary: out)
  case (Cons v vs)
  then show ?case by (auto simp: append_new_def insert_absorb)
qed (simp add: append_new_def)

text \<open>Every surface form that \<open>expand_name_variants\<close> offers for a name has the name's
  canonical form, so an exact lookup of any of them by \<open>canonical_name\<close> reaches the same rows.\<close>

theorem variants_same_canonical:
  assumes "v \<in> set (expand_name_variants s)"
  shows "canonicalize_name v = canonicalize_name s"
proof -
  let ?ps = "concept_parts s"
  have joins: "concept_parts (join [d] ?ps) = ?ps" if "is_sep d" for d
    using that concept_parts_good by (intro concept_parts_join) auto
  have "v = strip s \<or> 2 \<le> length ?ps \<and> v \<in> (\<lambda>d. join [d] ?ps) ` {CHR ''_'', CHR ''-'', CHR '' ''} \<or>
      length ?ps = 1 \<and> v = hd ?ps"
    using assms
    by (auto simp: expand_name_variants_def Let_def set_append_new split: if_splits)
  then show ?thesis
  proof (elim disjE conjE)
    assume long: "2 \<le> length ?ps"
    assume "v \<in> (\<lambda>d. join [d] ?ps) ` {CHR ''_'', CHR ''-'', CHR '' ''}"
    then obtain d where "d \<in> {CHR ''_'', CHR ''-'', CHR '' ''}" and v: "v = join [d] ?ps"
      by (elim imageE)
    then have "concept_parts v = ?ps" using joins [of d] by auto
    with long show ?thesis by (intro canonicalize_cong) auto
  next
    assume "length ?ps = 1" and v: "v = hd ?ps"
    then obtain p where p: "?ps = [p]" by (cases ?ps) auto
    then have "concept_parts v = ?ps" using v joins [OF is_sep_chars(1)] by simp
    with p show ?thesis by (intro canonicalize_cong) auto
  qed simp
qed

theorem variants_same_canonical_witness:
  "''parse-42-things'' \<in> set (expand_name_variants ''parse42Things'') \<and>
   canonicalize_name ''parse-42-things'' = canonicalize_name ''parse42Things''"
proof -
  have "concept_parts ''parse42Things'' = [''parse'', ''42'', ''things'']"
    "strip ''parse42Things'' = ''parse42Things''" by code_simp+
  then have h: "''parse-42-things'' \<in> set (expand_name_variants ''parse42Things'')"
    by (simp add: expand_name_variants_def set_append_new)
  show ?thesis using h variants_same_canonical [OF h] by simp
qed

lemma concept_variants_words:
  assumes "v \<in> set (fst (concept_variants s) # snd (concept_variants s))"
    "snd (concept_variants s) \<noteq> []"
  shows "split_words is_sep v = split_words is_sep s"
proof -
  let ?ws = "split_words is_sep (strip s)"
  have ws: "?ws = split_words is_sep s"
    by (rule split_words_strip) (rule is_space_is_sep)
  have joins: "split_words is_sep (join [d] ?ws) = ?ws" if "is_sep d" for d
    using that split_words_props [of _ is_sep "strip s"] by (intro split_words_join) auto
  have "v \<in> {join ''_'' ?ws, join '' '' ?ws, join ''-'' ?ws}"
    using assms by (auto simp: concept_variants_def Let_def split: if_splits)
  then show ?thesis using joins [OF is_sep_chars(1)] joins [OF is_sep_chars(2)]
      joins [OF is_sep_chars(3)] ws by (elim insertE emptyE) simp_all
qed

text \<open>The alias rows that \<open>add_concept\<close> writes beside a multi-word concept carry the
  canonical name of the concept itself whenever the name has a letter or a digit: a
  non-strict lookup returns the concept and its aliases together.\<close>

theorem concept_alias_same_canonical:
  assumes "v \<in> set (snd (concept_variants s))" "concept_parts s \<noteq> []"
  shows "canonicalize_name v = canonicalize_name (fst (concept_variants s))"
proof -
  have ne: "snd (concept_variants s) \<noteq> []" using assms(1) by auto
  have parts: "concept_parts x = concept_parts s"
    if "x \<in> set (fst (concept_variants s) # snd (concept_variants s))" for x
    using concept_variants_words [OF that ne] by (simp add: concept_parts_words)
  show ?thesis using assms parts [of v] parts [of "fst (concept_variants s)"]
    by (intro canonicalize_cong) auto
qed

theorem concept_alias_same_canonical_witness:
  "''roaring bitmap'' \<in> set (snd (concept_variants ''roaring bitmap'')) \<and>
   canonicalize_name ''roaring bitmap'' = canonicalize_name (fst (concept_variants ''roaring bitmap''))"
proof -
  have "concept_variants ''roaring bitmap'' =
      (''roaring_bitmap'', [''roaring bitmap'', ''roaring-bitmap''])" by code_simp
  then have h: "''roaring bitmap'' \<in> set (snd (concept_variants ''roaring bitmap''))" by simp
  have "concept_parts ''roaring bitmap'' \<noteq> []" by code_simp
  with h show ?thesis using concept_alias_same_canonical by blast
qed

end
