(* ===== verification/Catalog.thy ===== *)
theory Catalog
  imports Identifier
begin

text \<open>
  The catalog of a store (\<open>src/src/refmatrix/store.py\<close>): its tables as lists of rows in
  insertion order, the partition binding, the fact log, and the operations on entities,
  partitions, linkage types and tracked files.

  A table of the DDL is a list of records, a SQL statement is the list function it denotes
  (\<open>SELECT\<close> a filter, \<open>UPDATE\<close> a map, \<open>INSERT ... ON CONFLICT\<close> an update of the row with the
  key or an append). Times and tracked modification times are only compared and copied, so
  \<^typ>\<open>int\<close> stands for them; link weights are rationals. The JSON column \<open>meta\<close> is the
  dictionary it encodes, in key order, \<open>None\<close> for SQL NULL. Commits are not modelled: a
  definition is the effect of a call that runs to its end.
\<close>

type_synonym time = int
type_synonym weight = rat
type_synonym meta = "(string \<times> string) list"
type_synonym binding = "nat \<times> string"
type_synonym bitmap = "nat set"

record partition =
  p_id :: nat
  p_name :: string
  p_kind :: string

record entity =
  e_id :: nat
  e_pid :: nat
  e_kind :: string
  e_path :: "string option"
  e_name :: string
  e_tldr :: "string option"
  e_meta :: "meta option"
  e_created :: time
  e_updated :: time
  e_protected :: bool
  e_noise :: bool
  e_canonical :: "string option"

record mem_row =
  m_entity :: nat
  m_content :: string
  m_mtype :: string
  m_tags :: "string list option"
  m_metadata :: "meta option"
  m_created :: time
  m_updated :: time

record lk_row =
  l_id :: nat
  l_name :: string
  l_directed :: bool
  l_description :: "string option"

record link_row =
  k_entity :: nat
  k_linkage :: nat
  k_concept :: nat
  k_weight :: "weight option"

record ev_row =
  v_entity :: nat
  v_linkage :: nat
  v_concept :: nat
  v_file :: "string option"
  v_line :: "nat option"
  v_span_end :: "nat option"
  v_detail :: "string option"

record track_row =
  t_pid :: nat
  t_path :: string
  t_mtime :: time
  t_synced :: time

text \<open>The ends of an edge event: kind and name of the concept end and of the entity end.
  A legacy event has no kind for its concept end.\<close>

record edge_ends =
  x_linkage :: string
  x_ckind :: "string option"
  x_c :: string
  x_ekind :: string
  x_e :: string

datatype event =
    EvEntity string string "string option" "string option" "meta option"
  | EvProtect string string bool
  | EvNoise string string bool
  | EvTombstone string string
  | EvLinkageType string bool string
  | EvLink edge_ends "weight option"
  | EvUnlink edge_ends
  | EvEvidence edge_ends "string option" "nat option" "nat option" "string option"
  | EvMemory string string string "string list option" "meta option"
  | EvTrack string "time option"
  | EvUntrack string

record log_rec =
  g_ts :: time
  g_partition :: "string option"
  g_event :: event

type_synonym link_item = "string \<times> nat \<times> nat \<times> weight option"

record store =
  partitions :: "partition list"
  entities :: "entity list"
  concepts :: "(nat \<times> string option) list"
  memory_content :: "mem_row list"
  linkage_types :: "lk_row list"
  entity_links :: "link_row list"
  linkage_evidence :: "ev_row list"
  tracked_files :: "track_row list"
  next_pid :: nat
  next_eid :: nat
  next_lid :: nat
  bound :: binding
  cache :: "((binding \<times> string) \<times> bitmap) list"
  dirty :: "(binding \<times> string) list"
  disk :: "((nat \<times> string) \<times> bitmap) list"
  link_buffer :: "link_item list option"
  protect_buffer :: "(nat \<times> nat) list"
  facts_log :: "log_rec list"
  log_enabled :: bool
  replay_mode :: bool

section \<open>The fact log\<close>

text \<open>No caller passes a partition, so an appended record has none.\<close>

definition log_event :: "time \<Rightarrow> event \<Rightarrow> store \<Rightarrow> store" where
  "log_event now ev s =
     (if replay_mode s \<or> \<not> log_enabled s then s
      else s\<lparr>facts_log := facts_log s @ [\<lparr>g_ts = now, g_partition = None, g_event = ev\<rparr>]\<rparr>)"

definition log_events :: "time \<Rightarrow> event list \<Rightarrow> store \<Rightarrow> store" where
  "log_events now evs s =
     (if replay_mode s \<or> \<not> log_enabled s \<or> evs = [] then s
      else s\<lparr>facts_log := facts_log s @
               map (\<lambda>ev. \<lparr>g_ts = now, g_partition = None, g_event = ev\<rparr>) evs\<rparr>)"

definition name_of :: "nat \<Rightarrow> store \<Rightarrow> (string \<times> string) option" where
  "name_of i s = map_option (\<lambda>e. (e_kind e, e_name e)) (find (\<lambda>e. e_id e = i) (entities s))"

text \<open>The batch form: every asked id that has a row.\<close>

definition names_of :: "nat list \<Rightarrow> store \<Rightarrow> (nat \<times> string \<times> string) list" where
  "names_of ids s =
     map (\<lambda>e. (e_id e, e_kind e, e_name e)) (filter (\<lambda>e. e_id e \<in> set ids) (entities s))"

section \<open>Partitions\<close>

definition insert_partition :: "string \<Rightarrow> store \<Rightarrow> store" where
  "insert_partition name s =
     (if name \<in> p_name ` set (partitions s) then s
      else s\<lparr>partitions := partitions s @ [\<lparr>p_id = next_pid s, p_name = name, p_kind = ''repo''\<rparr>],
             next_pid := Suc (next_pid s)\<rparr>)"

definition partition_id_of :: "string \<Rightarrow> store \<Rightarrow> nat option" where
  "partition_id_of name s = map_option p_id (find (\<lambda>p. p_name p = name) (partitions s))"

text \<open>\<open>_ensure_partition\<close>: the row of the configured name is created and its id bound; a
  catalog in which the row just inserted cannot be read back is an error.\<close>

definition ensure_partition :: "string \<Rightarrow> store \<Rightarrow> store result" where
  "ensure_partition name s =
     (let s1 = insert_partition name s in
      case partition_id_of name s1 of
        None \<Rightarrow> Inl (RuntimeErr ''partition is missing after an INSERT'')
      | Some i \<Rightarrow> Inr (s1\<lparr>bound := (i, name)\<rparr>))"

text \<open>\<open>with_partition\<close>: run the block under another partition and restore the binding. A
  block under the bound name runs as it is.\<close>

definition enter_partition :: "string \<Rightarrow> store \<Rightarrow> store" where
  "enter_partition name s =
     (if name = snd (bound s) then s
      else let s1 = insert_partition name s in
        case partition_id_of name s1 of
          None \<Rightarrow> s1
        | Some i \<Rightarrow> s1\<lparr>bound := (i, name)\<rparr>)"

definition with_partition :: "string \<Rightarrow> (store \<Rightarrow> 'a \<times> store) \<Rightarrow> store \<Rightarrow> 'a \<times> store" where
  "with_partition name body s =
     (case body (enter_partition name s) of (r, s2) \<Rightarrow> (r, s2\<lparr>bound := bound s\<rparr>))"

text \<open>A new catalog, and a store opened on it under a configured partition name.\<close>

definition fresh_store :: store where
  "fresh_store =
     \<lparr>partitions = [], entities = [], concepts = [], memory_content = [], linkage_types = [],
      entity_links = [], linkage_evidence = [], tracked_files = [], next_pid = 1, next_eid = 1,
      next_lid = 1, bound = (0, []), cache = [], dirty = [], disk = [], link_buffer = None,
      protect_buffer = [], facts_log = [], log_enabled = True, replay_mode = False\<rparr>"

definition open_store :: "string \<Rightarrow> store" where
  "open_store name = (case ensure_partition name fresh_store of Inl _ \<Rightarrow> fresh_store | Inr s \<Rightarrow> s)"

section \<open>Entities\<close>

definition kinds :: "string list" where
  "kinds = [''doc'', ''code'', ''concept'', ''memory'']"

definition entity_key :: "entity \<Rightarrow> nat \<times> string \<times> string" where
  "entity_key e = (e_pid e, e_kind e, e_name e)"

definition find_entity :: "nat \<Rightarrow> string \<Rightarrow> string \<Rightarrow> store \<Rightarrow> entity option" where
  "find_entity pid kind name s = find (\<lambda>e. entity_key e = (pid, kind, name)) (entities s)"

text \<open>\<open>COALESCE(a, b)\<close>, and whether a non-NULL new value differs from the stored one.\<close>

definition coalesce :: "'a option \<Rightarrow> 'a option \<Rightarrow> 'a option" where
  "coalesce a b = (case a of None \<Rightarrow> b | Some x \<Rightarrow> Some x)"

definition col_changes :: "'a option \<Rightarrow> 'a option \<Rightarrow> bool" where
  "col_changes new old =
     (case new of None \<Rightarrow> False | Some x \<Rightarrow> (case old of None \<Rightarrow> True | Some y \<Rightarrow> y \<noteq> x))"

text \<open>The \<open>DO UPDATE SET\<close> clause: stored values survive a NULL, \<open>protected\<close> only rises, and
  \<open>updated_at\<close> moves only when a content column changes.\<close>

definition merge_entity ::
  "time \<Rightarrow> string option \<Rightarrow> string option \<Rightarrow> meta option \<Rightarrow> bool \<Rightarrow> string option \<Rightarrow> entity \<Rightarrow> entity" where
  "merge_entity now path tldr meta prot canon e =
     e\<lparr>e_path := coalesce path (e_path e),
       e_tldr := coalesce tldr (e_tldr e),
       e_meta := coalesce meta (e_meta e),
       e_updated :=
         (if col_changes path (e_path e) \<or> col_changes tldr (e_tldr e) \<or> col_changes meta (e_meta e)
             \<or> (e_canonical e = None \<and> canon \<noteq> None)
          then now else e_updated e),
       e_protected := (e_protected e \<or> prot),
       e_canonical := coalesce (e_canonical e) canon\<rparr>"

text \<open>\<open>json.dumps(meta) if meta else None\<close>: an empty dictionary is stored as NULL.\<close>

definition meta_column :: "meta option \<Rightarrow> meta option" where
  "meta_column m = (case m of None \<Rightarrow> None | Some [] \<Rightarrow> None | Some kv \<Rightarrow> Some kv)"

definition upsert_row ::
  "time \<Rightarrow> string \<Rightarrow> string \<Rightarrow> string option \<Rightarrow> string option \<Rightarrow> meta option \<Rightarrow> bool \<Rightarrow> store \<Rightarrow> nat \<times> store" where
  "upsert_row now kind name path tldr meta prot s =
     (let pid = fst (bound s); canon = canonical_for_kind kind name in
      case find_entity pid kind name s of
        Some old \<Rightarrow>
          (e_id old,
           s\<lparr>entities := map (\<lambda>e. if entity_key e = (pid, kind, name)
                                   then merge_entity now path tldr meta prot canon e else e) (entities s)\<rparr>)
      | None \<Rightarrow>
          (next_eid s,
           s\<lparr>entities := entities s @
               [\<lparr>e_id = next_eid s, e_pid = pid, e_kind = kind, e_path = path, e_name = name,
                 e_tldr = tldr, e_meta = meta, e_created = now, e_updated = now,
                 e_protected = prot, e_noise = False, e_canonical = canon\<rparr>],
             next_eid := Suc (next_eid s)\<rparr>))"

definition insert_concept_row :: "nat \<Rightarrow> string option \<Rightarrow> store \<Rightarrow> store" where
  "insert_concept_row i descr s =
     (if i \<in> fst ` set (concepts s) then s else s\<lparr>concepts := concepts s @ [(i, descr)]\<rparr>)"

definition meta_description :: "meta option \<Rightarrow> string option" where
  "meta_description m = (case m of None \<Rightarrow> None | Some kv \<Rightarrow> map_of kv ''description'')"

definition upsert_entity ::
  "time \<Rightarrow> string \<Rightarrow> string \<Rightarrow> string option \<Rightarrow> string option \<Rightarrow> meta option \<Rightarrow> bool \<Rightarrow> store \<Rightarrow>
     (nat \<times> store) result" where
  "upsert_entity now kind name path tldr meta prot s =
     (if kind \<notin> set kinds then Inl (ValueError (''unknown kind: '' @ kind))
      else case upsert_row now kind name path tldr (meta_column meta) prot s of
        (eid, s1) \<Rightarrow>
          let s2 = (if kind = ''concept'' then insert_concept_row eid (meta_description meta) s1 else s1);
              s3 = log_event now (EvEntity kind name path tldr meta) s2;
              s4 = (if prot then log_event now (EvProtect kind name True) s3 else s3)
          in Inr (eid, s4))"

text \<open>\<open>bulk_upsert_entity\<close>: one prepared upsert per row, then one id lookup per key, then the
  missing concept rows, then one event per row. Kinds are not checked in Python here: the
  CHECK constraint of the table is what refuses a bad one.\<close>

type_synonym entity_item = "string \<times> string \<times> string option \<times> string option \<times> meta option"

fun bulk_upsert_rows :: "time \<Rightarrow> entity_item list \<Rightarrow> store \<Rightarrow> store" where
  "bulk_upsert_rows now [] s = s"
| "bulk_upsert_rows now ((kind, name, path, tldr, meta) # rows) s =
     bulk_upsert_rows now rows (snd (upsert_row now kind name path tldr (meta_column meta) False s))"

fun lookup_ids :: "entity_item list \<Rightarrow> store \<Rightarrow> nat list result" where
  "lookup_ids [] s = Inr []"
| "lookup_ids ((kind, name, _) # rows) s =
     (case find_entity (fst (bound s)) kind name s of
        None \<Rightarrow> Inl (KeyError name)
      | Some e \<Rightarrow> bind_r (lookup_ids rows s) (\<lambda>ids. Inr (e_id e # ids)))"

fun bulk_concept_rows :: "entity_item list \<Rightarrow> nat list \<Rightarrow> store \<Rightarrow> store" where
  "bulk_concept_rows ((kind, _, _, _, meta) # rows) (i # ids) s =
     bulk_concept_rows rows ids
       (if kind = ''concept'' then insert_concept_row i (meta_description meta) s else s)"
| "bulk_concept_rows _ _ s = s"

fun bulk_log_rows :: "time \<Rightarrow> entity_item list \<Rightarrow> store \<Rightarrow> store" where
  "bulk_log_rows now [] s = s"
| "bulk_log_rows now ((kind, name, path, tldr, meta) # rows) s =
     bulk_log_rows now rows (log_event now (EvEntity kind name path tldr meta) s)"

definition bulk_upsert_entity :: "time \<Rightarrow> entity_item list \<Rightarrow> store \<Rightarrow> (nat list \<times> store) result" where
  "bulk_upsert_entity now rows s =
     (if rows = [] then Inr ([], s)
      else if \<not> (\<forall>r\<in>set rows. fst r \<in> set kinds) then Inl (ValueError ''CHECK constraint failed'')
      else let s1 = bulk_upsert_rows now rows s in
           bind_r (lookup_ids rows s1) (\<lambda>ids.
             Inr (ids, bulk_log_rows now rows (bulk_concept_rows rows ids s1))))"

section \<open>Lookups\<close>

definition get_entity :: "string \<Rightarrow> string \<Rightarrow> store \<Rightarrow> entity option" where
  "get_entity kind name s = find_entity (fst (bound s)) kind name s"

definition get_entity_by_id :: "nat \<Rightarrow> store \<Rightarrow> entity option" where
  "get_entity_by_id i s = find (\<lambda>e. e_id e = i) (entities s)"

fun first_some :: "('a \<Rightarrow> 'b option) \<Rightarrow> 'a list \<Rightarrow> 'b option" where
  "first_some f [] = None"
| "first_some f (x # xs) = (case f x of Some y \<Rightarrow> Some y | None \<Rightarrow> first_some f xs)"

definition resolve_entity :: "string \<Rightarrow> store \<Rightarrow> entity option" where
  "resolve_entity ref s =
     (case split_once (CHR '':'') ref of
        Some (kind, name) \<Rightarrow> get_entity kind name s
      | None \<Rightarrow> first_some (\<lambda>k. get_entity k ref s) [''concept'', ''code'', ''doc'', ''memory''])"

definition canonical_rows :: "string \<Rightarrow> store \<Rightarrow> entity list" where
  "canonical_rows canon s =
     filter (\<lambda>e. e_pid e = fst (bound s) \<and> e_kind e = ''concept'' \<and> e_canonical e = Some canon)
       (entities s)"

text \<open>The exact-name rows first, the others by id.\<close>

definition exact_first :: "string \<Rightarrow> entity list \<Rightarrow> nat list" where
  "exact_first name rows =
     map e_id (filter (\<lambda>e. e_name e = name) rows) @
     sort (map e_id (filter (\<lambda>e. e_name e \<noteq> name) rows))"

definition resolve_concept_ids :: "string \<Rightarrow> bool \<Rightarrow> store \<Rightarrow> nat list" where
  "resolve_concept_ids name strict s =
     (if strict then (case get_entity ''concept'' name s of Some e \<Rightarrow> [e_id e] | None \<Rightarrow> [])
      else exact_first name (canonical_rows (canonicalize_name name) s))"

text \<open>The batched form: one SELECT over the wanted canonical names, grouped by canonical name.
  Empty names are dropped; a later duplicate of a name overwrites with the same value.\<close>

definition rows_by_canon :: "string list \<Rightarrow> store \<Rightarrow> entity list" where
  "rows_by_canon wanted s =
     filter (\<lambda>e. e_pid e = fst (bound s) \<and> e_kind e = ''concept'' \<and>
                 (case e_canonical e of Some c \<Rightarrow> c \<in> set wanted | None \<Rightarrow> False)) (entities s)"

definition resolve_concept_ids_many :: "string list \<Rightarrow> store \<Rightarrow> (string \<times> nat list) list" where
  "resolve_concept_ids_many names s =
     (let ns = filter (\<lambda>n. n \<noteq> []) names;
          wanted = sort (dedup (filter (\<lambda>c. c \<noteq> []) (map canonicalize_name ns)));
          rows = rows_by_canon wanted s
      in foldl (\<lambda>out n. AList.update n
                  (exact_first n (filter (\<lambda>e. e_canonical e = Some (canonicalize_name n)) rows)) out)
           [] ns)"

section \<open>Linkage types\<close>

definition lk_find :: "string \<Rightarrow> store \<Rightarrow> nat option" where
  "lk_find name s = map_option l_id (find (\<lambda>r. l_name r = name) (linkage_types s))"

definition add_linkage_type ::
  "time \<Rightarrow> string \<Rightarrow> bool \<Rightarrow> string option \<Rightarrow> store \<Rightarrow> nat \<times> store" where
  "add_linkage_type now raw directed descr s =
     (let name = canonical_verb raw;
          ev = EvLinkageType name directed (case descr of None \<Rightarrow> [] | Some d \<Rightarrow> d)
      in case lk_find name s of
           Some i \<Rightarrow> (i, log_event now ev s)
         | None \<Rightarrow>
             (next_lid s,
              log_event now ev
                (s\<lparr>linkage_types := linkage_types s @
                     [\<lparr>l_id = next_lid s, l_name = name, l_directed = directed, l_description = descr\<rparr>],
                   next_lid := Suc (next_lid s)\<rparr>)))"

definition get_linkage_id :: "string \<Rightarrow> store \<Rightarrow> nat result" where
  "get_linkage_id raw s =
     (case lk_find (canonical_verb raw) s of
        Some i \<Rightarrow> Inr i
      | None \<Rightarrow> Inl (KeyError (''unknown linkage type: '' @ canonical_verb raw)))"

definition list_linkages :: "store \<Rightarrow> string list" where
  "list_linkages s = sort (map l_name (linkage_types s))"

section \<open>Tracked files\<close>

definition mark_row :: "nat \<Rightarrow> string \<Rightarrow> time \<Rightarrow> time \<Rightarrow> track_row list \<Rightarrow> track_row list" where
  "mark_row pid path mtime now rows =
     (if \<exists>r\<in>set rows. t_pid r = pid \<and> t_path r = path then
        map (\<lambda>r. if t_pid r = pid \<and> t_path r = path
                 then r\<lparr>t_mtime := mtime, t_synced := now\<rparr> else r) rows
      else rows @ [\<lparr>t_pid = pid, t_path = path, t_mtime = mtime, t_synced = now\<rparr>])"

definition mark_tracked :: "time \<Rightarrow> string \<Rightarrow> time \<Rightarrow> store \<Rightarrow> store" where
  "mark_tracked now path mtime s =
     log_event now (EvTrack path (Some mtime))
       (s\<lparr>tracked_files := mark_row (fst (bound s)) path mtime now (tracked_files s)\<rparr>)"

definition bulk_mark_tracked :: "time \<Rightarrow> (string \<times> time) list \<Rightarrow> store \<Rightarrow> store" where
  "bulk_mark_tracked now rows s =
     s\<lparr>tracked_files :=
         foldl (\<lambda>ts r. mark_row (fst (bound s)) (fst r) (snd r) now ts) (tracked_files s) rows\<rparr>"

definition get_tracked_mtime :: "string \<Rightarrow> store \<Rightarrow> time option" where
  "get_tracked_mtime path s =
     map_option t_mtime
       (find (\<lambda>r. t_pid r = fst (bound s) \<and> t_path r = path) (tracked_files s))"

definition list_tracked :: "store \<Rightarrow> (string \<times> time) list" where
  "list_tracked s =
     map (\<lambda>r. (t_path r, t_mtime r)) (filter (\<lambda>r. t_pid r = fst (bound s)) (tracked_files s))"

definition untrack_row :: "nat \<Rightarrow> string \<Rightarrow> store \<Rightarrow> store" where
  "untrack_row pid path s =
     s\<lparr>tracked_files := filter (\<lambda>r. \<not> (t_pid r = pid \<and> t_path r = path)) (tracked_files s)\<rparr>"

section \<open>Memory bodies\<close>

text \<open>\<open>add_memory\<close>: the entity row, then the sidecar row; the entity clock moves when an
  embedded field of the body changes.\<close>

definition memory_row :: "nat \<Rightarrow> store \<Rightarrow> mem_row option" where
  "memory_row i s = find (\<lambda>m. m_entity m = i) (memory_content s)"

definition put_memory ::
  "time \<Rightarrow> nat \<Rightarrow> string \<Rightarrow> string \<Rightarrow> string list option \<Rightarrow> meta option \<Rightarrow> store \<Rightarrow> store" where
  "put_memory now i content mtype tags metadata s =
     (case memory_row i s of
        None \<Rightarrow> s\<lparr>memory_content := memory_content s @
                  [\<lparr>m_entity = i, m_content = content, m_mtype = mtype, m_tags = tags,
                    m_metadata = metadata, m_created = now, m_updated = now\<rparr>]\<rparr>
      | Some _ \<Rightarrow> s\<lparr>memory_content :=
                  map (\<lambda>m. if m_entity m = i
                           then m\<lparr>m_content := content, m_mtype := mtype, m_tags := tags,
                                  m_metadata := metadata, m_updated := now\<rparr> else m) (memory_content s)\<rparr>)"

definition tags_column :: "string list option \<Rightarrow> string list option" where
  "tags_column t = (case t of None \<Rightarrow> None | Some [] \<Rightarrow> None | Some ts \<Rightarrow> Some ts)"

definition touch_entity :: "time \<Rightarrow> nat \<Rightarrow> store \<Rightarrow> store" where
  "touch_entity now i s =
     s\<lparr>entities := map (\<lambda>e. if e_id e = i then e\<lparr>e_updated := now\<rparr> else e) (entities s)\<rparr>"

definition embed_changed :: "nat \<Rightarrow> string \<Rightarrow> string \<Rightarrow> string list option \<Rightarrow> store \<Rightarrow> bool" where
  "embed_changed i content mtype tags s =
     (case memory_row i s of
        None \<Rightarrow> True
      | Some m \<Rightarrow> m_content m \<noteq> content \<or> m_mtype m \<noteq> mtype \<or> m_tags m \<noteq> tags)"

definition add_memory ::
  "time \<Rightarrow> string \<Rightarrow> string \<Rightarrow> string \<Rightarrow> string list option \<Rightarrow> meta option \<Rightarrow> bool \<Rightarrow> store \<Rightarrow>
     (nat \<times> store) result" where
  "add_memory now name content mtype tags metadata prot s =
     bind_r (upsert_entity now ''memory'' name None None None prot s) (\<lambda>(eid, s1).
       let changed = embed_changed eid content mtype (tags_column tags) s1;
           s2 = put_memory now eid content mtype (tags_column tags) (meta_column metadata) s1;
           s3 = (if changed then touch_entity now eid s2 else s2)
       in Inr (eid, log_event now (EvMemory name content mtype tags metadata) s3))"


section \<open>Frame lemmas\<close>

lemma log_event_frame [frame_simps, simp]:
  "partitions (log_event t ev s) = partitions s" "entities (log_event t ev s) = entities s"
  "concepts (log_event t ev s) = concepts s" "memory_content (log_event t ev s) = memory_content s"
  "linkage_types (log_event t ev s) = linkage_types s" "entity_links (log_event t ev s) = entity_links s"
  "linkage_evidence (log_event t ev s) = linkage_evidence s"
  "tracked_files (log_event t ev s) = tracked_files s" "next_pid (log_event t ev s) = next_pid s"
  "next_eid (log_event t ev s) = next_eid s" "next_lid (log_event t ev s) = next_lid s"
  "bound (log_event t ev s) = bound s" "cache (log_event t ev s) = cache s"
  "dirty (log_event t ev s) = dirty s" "disk (log_event t ev s) = disk s"
  "link_buffer (log_event t ev s) = link_buffer s" "protect_buffer (log_event t ev s) = protect_buffer s"
  "log_enabled (log_event t ev s) = log_enabled s" "replay_mode (log_event t ev s) = replay_mode s"
  by (simp_all add: log_event_def)

lemma log_events_frame [frame_simps, simp]:
  "partitions (log_events t evs s) = partitions s" "entities (log_events t evs s) = entities s"
  "concepts (log_events t evs s) = concepts s" "memory_content (log_events t evs s) = memory_content s"
  "linkage_types (log_events t evs s) = linkage_types s" "entity_links (log_events t evs s) = entity_links s"
  "linkage_evidence (log_events t evs s) = linkage_evidence s"
  "tracked_files (log_events t evs s) = tracked_files s" "next_pid (log_events t evs s) = next_pid s"
  "next_eid (log_events t evs s) = next_eid s" "next_lid (log_events t evs s) = next_lid s"
  "bound (log_events t evs s) = bound s" "cache (log_events t evs s) = cache s"
  "dirty (log_events t evs s) = dirty s" "disk (log_events t evs s) = disk s"
  "link_buffer (log_events t evs s) = link_buffer s" "protect_buffer (log_events t evs s) = protect_buffer s"
  "log_enabled (log_events t evs s) = log_enabled s" "replay_mode (log_events t evs s) = replay_mode s"
  by (simp_all add: log_events_def)

lemma insert_concept_row_frame [frame_simps, simp]:
  "partitions (insert_concept_row i d s) = partitions s" "entities (insert_concept_row i d s) = entities s"
  "linkage_types (insert_concept_row i d s) = linkage_types s"
  "entity_links (insert_concept_row i d s) = entity_links s"
  "tracked_files (insert_concept_row i d s) = tracked_files s"
  "memory_content (insert_concept_row i d s) = memory_content s"
  "next_pid (insert_concept_row i d s) = next_pid s" "next_eid (insert_concept_row i d s) = next_eid s"
  "next_lid (insert_concept_row i d s) = next_lid s" "bound (insert_concept_row i d s) = bound s"
  "cache (insert_concept_row i d s) = cache s" "dirty (insert_concept_row i d s) = dirty s"
  "disk (insert_concept_row i d s) = disk s" "facts_log (insert_concept_row i d s) = facts_log s"
  "log_enabled (insert_concept_row i d s) = log_enabled s"
  "replay_mode (insert_concept_row i d s) = replay_mode s"
  by (simp_all add: insert_concept_row_def)

lemma upsert_row_frame [frame_simps, simp]:
  "partitions (snd (upsert_row t k n p td m pr s)) = partitions s"
  "concepts (snd (upsert_row t k n p td m pr s)) = concepts s"
  "memory_content (snd (upsert_row t k n p td m pr s)) = memory_content s"
  "linkage_types (snd (upsert_row t k n p td m pr s)) = linkage_types s"
  "entity_links (snd (upsert_row t k n p td m pr s)) = entity_links s"
  "tracked_files (snd (upsert_row t k n p td m pr s)) = tracked_files s"
  "next_pid (snd (upsert_row t k n p td m pr s)) = next_pid s"
  "next_lid (snd (upsert_row t k n p td m pr s)) = next_lid s"
  "bound (snd (upsert_row t k n p td m pr s)) = bound s"
  "cache (snd (upsert_row t k n p td m pr s)) = cache s"
  "dirty (snd (upsert_row t k n p td m pr s)) = dirty s"
  "disk (snd (upsert_row t k n p td m pr s)) = disk s"
  "facts_log (snd (upsert_row t k n p td m pr s)) = facts_log s"
  "log_enabled (snd (upsert_row t k n p td m pr s)) = log_enabled s"
  "replay_mode (snd (upsert_row t k n p td m pr s)) = replay_mode s"
  by (simp_all add: upsert_row_def Let_def split: option.split)

lemma find_entity_cong [frame_simps]:
  "entities s = entities t \<Longrightarrow> find_entity p k n s = find_entity p k n t"
  by (simp add: find_entity_def)

lemma find_entity_frame [simp]:
  "find_entity p k n (log_event t ev s) = find_entity p k n s"
  "find_entity p k n (insert_concept_row i d s) = find_entity p k n s"
  by (simp_all add: find_entity_def)

section \<open>The catalog invariant\<close>

definition entity_ok :: "entity \<Rightarrow> bool" where
  "entity_ok e = (e_kind e \<in> set kinds \<and> e_canonical e = canonical_for_kind (e_kind e) (e_name e))"

definition wf_entities :: "store \<Rightarrow> bool" where
  "wf_entities s =
     (distinct (map e_id (entities s)) \<and> (\<forall>e\<in>set (entities s). e_id e < next_eid s) \<and>
      distinct (map entity_key (entities s)) \<and> (\<forall>e\<in>set (entities s). entity_ok e))"

definition wf_partitions :: "store \<Rightarrow> bool" where
  "wf_partitions s =
     (distinct (map p_id (partitions s)) \<and> distinct (map p_name (partitions s)) \<and>
      (\<forall>p\<in>set (partitions s). p_id p < next_pid s) \<and>
      partition_id_of (snd (bound s)) s = Some (fst (bound s)))"

definition wf_linkages :: "store \<Rightarrow> bool" where
  "wf_linkages s =
     (distinct (map l_id (linkage_types s)) \<and> distinct (map l_name (linkage_types s)) \<and>
      (\<forall>r\<in>set (linkage_types s). l_id r < next_lid s \<and> canonical_verb (l_name r) = l_name r))"

definition wf_catalog :: "store \<Rightarrow> bool" where
  "wf_catalog s = (wf_entities s \<and> wf_partitions s \<and> wf_linkages s)"

lemma wf_frame:
  "entities s = entities t \<Longrightarrow> next_eid s = next_eid t \<Longrightarrow> wf_entities s = wf_entities t"
  "partitions s = partitions t \<Longrightarrow> next_pid s = next_pid t \<Longrightarrow> bound s = bound t \<Longrightarrow>
     wf_partitions s = wf_partitions t"
  "linkage_types s = linkage_types t \<Longrightarrow> next_lid s = next_lid t \<Longrightarrow> wf_linkages s = wf_linkages t"
  by (simp_all add: wf_entities_def wf_partitions_def wf_linkages_def partition_id_of_def)

lemma entity_key_merge [simp]:
  "entity_key (merge_entity t p td m pr c e) = entity_key e"
  "e_id (merge_entity t p td m pr c e) = e_id e" "e_kind (merge_entity t p td m pr c e) = e_kind e"
  "e_name (merge_entity t p td m pr c e) = e_name e" "e_pid (merge_entity t p td m pr c e) = e_pid e"
  by (simp_all add: merge_entity_def entity_key_def)

lemma entity_ok_merge:
  "entity_ok e \<Longrightarrow> c = canonical_for_kind (e_kind e) (e_name e) \<Longrightarrow>
     entity_ok (merge_entity t p td m pr c e)"
  by (auto simp: entity_ok_def merge_entity_def coalesce_def split: option.split)

lemma find_key_map:
  "(\<And>x. key (f x) = key x) \<Longrightarrow>
     find (\<lambda>x. key x = k) (map f xs) = map_option f (find (\<lambda>x. key x = k) xs)"
  by (induction xs) auto

lemma find_key_append:
  "find p (xs @ ys) = (case find p xs of Some x \<Rightarrow> Some x | None \<Rightarrow> find p ys)"
  by (induction xs) auto

lemma find_SomeD: "find p xs = Some x \<Longrightarrow> x \<in> set xs \<and> p x"
  by (auto simp: find_Some_iff)

lemma find_NoneD: "find p xs = None \<Longrightarrow> x \<in> set xs \<Longrightarrow> \<not> p x"
  by (auto simp: find_None_iff)

lemma find_key_unique:
  "distinct (map key xs) \<Longrightarrow> x \<in> set xs \<Longrightarrow> find (\<lambda>y. key y = key x) xs = Some x"
  by (induction xs) (auto simp: rev_image_eqI)

text \<open>The row an upsert leaves under its key.\<close>

definition upserted ::
  "time \<Rightarrow> string \<Rightarrow> string \<Rightarrow> string option \<Rightarrow> string option \<Rightarrow> meta option \<Rightarrow> bool \<Rightarrow> store \<Rightarrow> entity" where
  "upserted now kind name path tldr meta prot s =
     (case find_entity (fst (bound s)) kind name s of
        Some old \<Rightarrow> merge_entity now path tldr meta prot (canonical_for_kind kind name) old
      | None \<Rightarrow> \<lparr>e_id = next_eid s, e_pid = fst (bound s), e_kind = kind, e_path = path, e_name = name,
                 e_tldr = tldr, e_meta = meta, e_created = now, e_updated = now,
                 e_protected = prot, e_noise = False, e_canonical = canonical_for_kind kind name\<rparr>)"

lemma find_entity_upsert:
  "find_entity p k n (snd (upsert_row now kind name path tldr meta prot s)) =
     (if (p, k, n) = (fst (bound s), kind, name) then Some (upserted now kind name path tldr meta prot s)
      else find_entity p k n s)"
proof (cases "find_entity (fst (bound s)) kind name s")
  case None
  then show ?thesis
    by (auto simp: upsert_row_def upserted_def Let_def find_entity_def find_key_append entity_key_def
        split: option.split)
next
  case (Some old)
  let ?f = "\<lambda>e. if entity_key e = (fst (bound s), kind, name)
              then merge_entity now path tldr meta prot (canonical_for_kind kind name) e else e"
  have upd: "find_entity p k n (snd (upsert_row now kind name path tldr meta prot s)) =
      map_option ?f (find_entity p k n s)"
    using Some by (simp add: upsert_row_def Let_def find_entity_def find_key_map)
  show ?thesis
  proof (cases "(p, k, n) = (fst (bound s), kind, name)")
    case True
    then show ?thesis using upd Some
      by (auto simp: upserted_def find_entity_def dest: find_SomeD)
  next
    case False
    then show ?thesis using upd
      by (cases "find_entity p k n s") (auto simp: find_entity_def dest: find_SomeD)
  qed
qed

lemma fst_upsert_row: "fst (upsert_row now kind name path tldr meta prot s) =
    e_id (upserted now kind name path tldr meta prot s)"
  by (simp add: upsert_row_def upserted_def Let_def split: option.split)

lemma upsert_row_wf:
  assumes "wf_entities s" "kind \<in> set kinds"
  shows "wf_entities (snd (upsert_row now kind name path tldr meta prot s))"
proof (cases "find_entity (fst (bound s)) kind name s")
  case None
  then have "(fst (bound s), kind, name) \<notin> entity_key ` set (entities s)"
    by (auto simp: find_entity_def find_None_iff)
  with None assms show ?thesis
    by (auto simp: upsert_row_def Let_def wf_entities_def entity_ok_def entity_key_def)
next
  case (Some old)
  let ?f = "\<lambda>e. if entity_key e = (fst (bound s), kind, name)
              then merge_entity now path tldr meta prot (canonical_for_kind kind name) e else e"
  have keys: "map entity_key (map ?f es) = map entity_key es" "map e_id (map ?f es) = map e_id es" for es
    by (induction es) auto
  have "\<forall>e\<in>set (map ?f (entities s)). entity_ok e \<and> e_id e < next_eid s"
    using assms by (auto simp: wf_entities_def entity_key_def intro: entity_ok_merge)
  with Some assms keys [of "entities s"] show ?thesis
    by (simp add: upsert_row_def Let_def wf_entities_def del: map_map)
qed

end
