(* ===== verification/Entities.thy ===== *)
theory Entities
  imports Catalog
begin

text \<open>
  The contract of the id-allocating tables of the catalog (entities, linkage types) and what
  it gives: writing a key always leaves the key mapped to the id the write returned, an id
  never moves and is never shared, and a batch that writes all its rows first and reads the
  ids back afterwards returns what the row-by-row form returns. The batch upsert, the
  non-strict concept lookup and its batched form, and the memory body are verified on top of
  it.
\<close>

section \<open>Tables that allocate ids\<close>

locale id_table =
  fixes put :: "'a \<Rightarrow> 's \<Rightarrow> nat \<times> 's"
    and key :: "'a \<Rightarrow> 'k"
    and get :: "'k \<Rightarrow> 's \<Rightarrow> nat option"
    and ok :: "'a \<Rightarrow> bool"
    and inv :: "'s \<Rightarrow> bool"
  assumes put_inv: "inv s \<Longrightarrow> ok a \<Longrightarrow> inv (snd (put a s))"
    and get_put: "inv s \<Longrightarrow> ok a \<Longrightarrow>
      get k (snd (put a s)) = (if k = key a then Some (fst (put a s)) else get k s)"
    and put_old: "inv s \<Longrightarrow> ok a \<Longrightarrow> get (key a) s = Some i \<Longrightarrow> fst (put a s) = i"
    and get_inj: "inv s \<Longrightarrow> get k s = Some i \<Longrightarrow> get k' s = Some i \<Longrightarrow> k = k'"
begin

fun put_all :: "'a list \<Rightarrow> 's \<Rightarrow> nat list \<times> 's" where
  "put_all [] s = ([], s)"
| "put_all (a # as) s =
     (case put a s of (i, s1) \<Rightarrow> case put_all as s1 of (is, s2) \<Rightarrow> (i # is, s2))"

lemma put_keeps: "inv s \<Longrightarrow> ok a \<Longrightarrow> get k s = Some i \<Longrightarrow> get k (snd (put a s)) = Some i"
  using put_old by (auto simp: get_put)

lemma put_all_inv: "inv s \<Longrightarrow> \<forall>a\<in>set as. ok a \<Longrightarrow> inv (snd (put_all as s))"
  by (induction as arbitrary: s) (auto simp: split_beta put_inv)

lemma put_all_keeps:
  "inv s \<Longrightarrow> \<forall>a\<in>set as. ok a \<Longrightarrow> get k s = Some i \<Longrightarrow> get k (snd (put_all as s)) = Some i"
  by (induction as arbitrary: s) (auto simp: split_beta put_inv put_keeps)

lemma get_put_all:
  "inv s \<Longrightarrow> \<forall>a\<in>set as. ok a \<Longrightarrow>
     map (\<lambda>a. get (key a) (snd (put_all as s))) as = map Some (fst (put_all as s))"
proof (induction as arbitrary: s)
  case (Cons a as)
  then have "get (key a) (snd (put_all as (snd (put a s)))) = Some (fst (put a s))"
    by (intro put_all_keeps) (auto simp: put_inv get_put)
  with Cons show ?case by (auto simp: split_beta put_inv)
qed simp

lemma put_ids_eq:
  assumes "inv s" "ok a" "ok b"
  shows "fst (put b (snd (put a s))) = fst (put a s) \<longleftrightarrow> key a = key b"
proof -
  let ?s1 = "snd (put a s)" and ?s2 = "snd (put b (snd (put a s)))"
  have i: "inv ?s1" "inv ?s2" using assms by (simp_all add: put_inv)
  have a: "get (key a) ?s2 = Some (fst (put a s))"
    using assms i by (simp add: put_keeps get_put)
  have b: "get (key b) ?s2 = Some (fst (put b ?s1))" using assms i by (simp add: get_put)
  show ?thesis using a b get_inj [OF i(2)] by auto
qed

end

text \<open>The entities of the bound partition, keyed by kind and name.\<close>

type_synonym upsert_args = "string \<times> string \<times> string option \<times> string option \<times> meta option \<times> bool"

fun put_entity :: "time \<Rightarrow> upsert_args \<Rightarrow> store \<Rightarrow> nat \<times> store" where
  "put_entity now (kind, name, path, tldr, meta, prot) s = upsert_row now kind name path tldr meta prot s"

definition args_key :: "upsert_args \<Rightarrow> string \<times> string" where
  "args_key a = (fst a, fst (snd a))"

definition args_ok :: "upsert_args \<Rightarrow> bool" where
  "args_ok a = (fst a \<in> set kinds)"

definition entity_id_of :: "string \<times> string \<Rightarrow> store \<Rightarrow> nat option" where
  "entity_id_of k s = map_option e_id (find_entity (fst (bound s)) (fst k) (snd k) s)"

lemma entity_id_inj:
  assumes "wf_entities s" "find_entity p k n s = Some e" "find_entity p' k' n' s = Some e'" "e_id e = e_id e'"
  shows "e = e' \<and> (p, k, n) = (p', k', n')"
proof -
  have m: "e \<in> set (entities s)" "e' \<in> set (entities s)" "entity_key e = (p, k, n)"
    "entity_key e' = (p', k', n')"
    using assms by (auto simp: find_entity_def dest: find_SomeD)
  have "inj_on e_id (set (entities s))" using assms(1) by (simp add: wf_entities_def distinct_map)
  with m assms(4) have "e = e'" by (blast dest: inj_onD)
  with m show ?thesis by simp
qed

interpretation ent: id_table "put_entity now" args_key entity_id_of args_ok wf_entities for now
proof (unfold_locales, goal_cases)
  case (1 s a)
  then show ?case by (cases a) (simp add: upsert_row_wf args_ok_def)
next
  case (2 s a k)
  then show ?case
    by (cases a, cases k)
      (auto simp: entity_id_of_def find_entity_upsert fst_upsert_row args_key_def)
next
  case (3 s a i)
  then show ?case
    by (cases a) (auto simp: entity_id_of_def fst_upsert_row upserted_def args_key_def)
next
  case (4 s k i k')
  then show ?case by (cases k, cases k') (auto simp: entity_id_of_def dest: entity_id_inj)
qed

text \<open>The linkage types, keyed by canonical verb.\<close>

type_synonym linkage_args = "string \<times> bool \<times> string option"

fun put_linkage :: "time \<Rightarrow> linkage_args \<Rightarrow> store \<Rightarrow> nat \<times> store" where
  "put_linkage now (name, directed, descr) s = add_linkage_type now name directed descr s"

definition linkage_key :: "linkage_args \<Rightarrow> string" where
  "linkage_key a = canonical_verb (fst a)"

lemma lk_find_Some: "lk_find n s = Some i \<Longrightarrow> \<exists>r\<in>set (linkage_types s). l_name r = n \<and> l_id r = i"
  by (auto simp: lk_find_def dest: find_SomeD)

lemma lk_find_None: "lk_find n s = None \<longleftrightarrow> n \<notin> l_name ` set (linkage_types s)"
  by (auto simp: lk_find_def find_None_iff)

lemma lk_find_cong: "linkage_types s = linkage_types t \<Longrightarrow> lk_find n s = lk_find n t"
  by (simp add: lk_find_def)

lemma lk_find_log [simp]: "lk_find n (log_event t ev s) = lk_find n s"
  by (simp add: lk_find_def)

lemma lk_find_inj: "wf_linkages s \<Longrightarrow> lk_find n s = Some i \<Longrightarrow> lk_find n' s = Some i \<Longrightarrow> n = n'"
  by (auto simp: wf_linkages_def distinct_map dest!: lk_find_Some dest: inj_onD)

lemma lk_find_add:
  "lk_find n (snd (add_linkage_type now raw d descr s)) =
     (if n = canonical_verb raw then Some (fst (add_linkage_type now raw d descr s)) else lk_find n s)"
  by (auto simp: add_linkage_type_def Let_def lk_find_def find_key_append split: option.split)

lemma add_linkage_wf: "wf_linkages s \<Longrightarrow> wf_linkages (snd (add_linkage_type now raw d descr s))"
proof (cases "lk_find (canonical_verb raw) s")
  case None
  moreover assume "wf_linkages s"
  moreover note None [unfolded lk_find_None]
  ultimately show ?thesis
    by (auto simp: add_linkage_type_def Let_def wf_linkages_def)
next
  case (Some i)
  moreover assume "wf_linkages s"
  ultimately show ?thesis by (simp add: add_linkage_type_def Let_def wf_linkages_def)
qed

lemma add_linkage_frame [frame_simps, simp]:
  "partitions (snd (add_linkage_type now raw d descr s)) = partitions s"
  "entities (snd (add_linkage_type now raw d descr s)) = entities s"
  "concepts (snd (add_linkage_type now raw d descr s)) = concepts s"
  "entity_links (snd (add_linkage_type now raw d descr s)) = entity_links s"
  "next_eid (snd (add_linkage_type now raw d descr s)) = next_eid s"
  "next_pid (snd (add_linkage_type now raw d descr s)) = next_pid s"
  "bound (snd (add_linkage_type now raw d descr s)) = bound s"
  "cache (snd (add_linkage_type now raw d descr s)) = cache s"
  "dirty (snd (add_linkage_type now raw d descr s)) = dirty s"
  "disk (snd (add_linkage_type now raw d descr s)) = disk s"
  "link_buffer (snd (add_linkage_type now raw d descr s)) = link_buffer s"
  by (simp_all add: add_linkage_type_def Let_def split: option.split)

interpretation lkt: id_table "put_linkage now" linkage_key lk_find "\<lambda>_. True" wf_linkages for now
proof (unfold_locales, goal_cases)
  case (1 s a)
  then show ?case by (cases a) (simp add: add_linkage_wf)
next
  case (2 s a k)
  then show ?case by (cases a) (simp add: lk_find_add linkage_key_def)
next
  case (3 s a i)
  then show ?case by (cases a) (simp add: add_linkage_type_def Let_def linkage_key_def)
next
  case (4 s k i k')
  then show ?case by (rule lk_find_inj)
qed

section \<open>Upserts\<close>

lemma upsert_entity_Inr:
  "kind \<in> set kinds \<Longrightarrow>
     upsert_entity now kind name path tldr meta prot s =
       Inr (e_id (upserted now kind name path tldr (meta_column meta) prot s),
         (let s1 = snd (upsert_row now kind name path tldr (meta_column meta) prot s);
              i = e_id (upserted now kind name path tldr (meta_column meta) prot s);
              s2 = (if kind = ''concept'' then insert_concept_row i (meta_description meta) s1 else s1);
              s3 = log_event now (EvEntity kind name path tldr meta) s2
          in if prot then log_event now (EvProtect kind name True) s3 else s3))"
  by (simp add: upsert_entity_def split_beta fst_upsert_row Let_def)

lemma upsert_entity_entities:
  "upsert_entity now kind name path tldr meta prot s = Inr (i, s') \<Longrightarrow>
     kind \<in> set kinds \<and> i = e_id (upserted now kind name path tldr (meta_column meta) prot s) \<and>
     entities s' = entities (snd (upsert_row now kind name path tldr (meta_column meta) prot s)) \<and>
     next_eid s' = next_eid (snd (upsert_row now kind name path tldr (meta_column meta) prot s)) \<and>
     bound s' = bound s \<and> memory_content s' = memory_content s \<and> partitions s' = partitions s \<and>
     next_pid s' = next_pid s \<and> linkage_types s' = linkage_types s \<and> next_lid s' = next_lid s"
  by (cases "kind \<in> set kinds")
    (auto simp: upsert_entity_Inr Let_def, auto simp: upsert_entity_def)

lemma upsert_entity_wf_lemma:
  assumes "wf_catalog s" "upsert_entity now kind name path tldr meta prot s = Inr (i, s')"
  shows "wf_catalog s'"
proof -
  note u = upsert_entity_entities [OF assms(2)]
  have "wf_entities s'"
    using u assms(1) upsert_row_wf [of s kind now name path tldr "meta_column meta" prot] wf_frame(1)
    by (metis wf_catalog_def)
  moreover have "wf_partitions s' = wf_partitions s" "wf_linkages s' = wf_linkages s"
    using u by (simp_all add: wf_partitions_def wf_linkages_def partition_id_of_def)
  ultimately show ?thesis using assms(1) by (simp add: wf_catalog_def)
qed

lemma find_entity_by_id:
  "wf_entities s \<Longrightarrow> find_entity p k n s = Some e \<Longrightarrow> get_entity_by_id (e_id e) s = Some e"
  unfolding wf_entities_def find_entity_def get_entity_by_id_def
  by (auto dest!: find_SomeD intro: find_key_unique)

text \<open>C10. \<open>upsert_entity\<close> keeps the catalog well formed and has the effect of its SQL. Under a new key it
  stores a new row with a fresh id. An existing row keeps its id, its creation time and its noise flag;
  a column that is not given (an empty \<open>meta\<close> counts as not given) keeps its value, a given one is
  replaced; protection is never taken away; the update time moves exactly when the path, the summary
  or the metadata changes. A concept has its row in \<open>concepts\<close>, the write is logged, nothing else of the
  store changes, and an unknown kind is refused.\<close>

theorem upsert_entity_correct:
  assumes "wf_catalog s"
  shows "case upsert_entity now kind name path tldr meta prot s of
      Inl err \<Rightarrow> kind \<notin> set kinds \<and> err = ValueError (''unknown kind: '' @ kind)
    | Inr (i, s') \<Rightarrow> kind \<in> set kinds \<and> wf_catalog s' \<and>
        (\<exists>e. get_entity kind name s' = Some e \<and> get_entity_by_id i s' = Some e \<and>
          e_id e = i \<and> e_pid e = fst (bound s) \<and> e_kind e = kind \<and> e_name e = name \<and>
          e_canonical e = (if kind = ''concept'' then Some (canonicalize_name name) else None) \<and>
          (case get_entity kind name s of
             None \<Rightarrow> get_entity_by_id i s = None \<and> e_path e = path \<and> e_tldr e = tldr \<and>
               e_meta e = (if meta = Some [] then None else meta) \<and> e_created e = now \<and> e_updated e = now \<and>
               e_protected e = prot \<and> \<not> e_noise e
           | Some old \<Rightarrow> i = e_id old \<and>
               e_path e = (if path = None then e_path old else path) \<and>
               e_tldr e = (if tldr = None then e_tldr old else tldr) \<and>
               e_meta e = (if meta \<in> {None, Some []} then e_meta old else meta) \<and>
               e_created e = e_created old \<and> e_noise e = e_noise old \<and>
               e_protected e = (e_protected old \<or> prot) \<and>
               e_updated e = (if e_path e = e_path old \<and> e_tldr e = e_tldr old \<and> e_meta e = e_meta old
                              then e_updated old else now))) \<and>
        (\<forall>p k n. (p, k, n) \<noteq> (fst (bound s), kind, name) \<longrightarrow> find_entity p k n s' = find_entity p k n s) \<and>
        concepts s' = (if kind = ''concept'' \<and> i \<notin> fst ` set (concepts s)
                       then concepts s @ [(i, meta_description meta)] else concepts s) \<and>
        facts_log s' = facts_log (log_events now
          (EvEntity kind name path tldr meta # (if prot then [EvProtect kind name True] else [])) s) \<and>
        s'\<lparr>entities := entities s, next_eid := next_eid s, concepts := concepts s, facts_log := facts_log s\<rparr> = s"
proof (cases "upsert_entity now kind name path tldr meta prot s")
  case (Inl err)
  then show ?thesis by (auto simp: upsert_entity_def Let_def split: if_splits prod.splits)
next
  case (Inr r)
  obtain i s' where r: "r = (i, s')" by force
  note u = upsert_entity_entities [OF Inr [unfolded r]]
  let ?e = "upserted now kind name path tldr (meta_column meta) prot s"
  have wf: "wf_catalog s'" using assms Inr r by (blast intro: upsert_entity_wf_lemma)
  have fe: "find_entity p k n s' =
      (if (p, k, n) = (fst (bound s), kind, name) then Some ?e else find_entity p k n s)" for p k n
    using u find_entity_cong [of s' "snd (upsert_row now kind name path tldr (meta_column meta) prot s)"]
    by (simp only: find_entity_upsert)
  have "get_entity_by_id (e_id ?e) s' = Some ?e"
    using fe wf by (intro find_entity_by_id [where p = "fst (bound s)" and k = kind and n = name])
      (simp_all add: wf_catalog_def)
  then have id: "get_entity_by_id i s' = Some ?e" using u by simp
  have row: "?e \<in> set (entities s')" "e_pid ?e = fst (bound s)" "e_kind ?e = kind" "e_name ?e = name"
    using fe [of "fst (bound s)" kind name] by (auto simp: find_entity_def entity_key_def dest: find_SomeD)
  have canon: "e_canonical ?e = (if kind = ''concept'' then Some (canonicalize_name name) else None)"
    using wf row by (auto simp: wf_catalog_def wf_entities_def entity_ok_def canonical_for_kind_def)
  have fresh: "get_entity kind name s = None \<longrightarrow> get_entity_by_id i s = None"
    using u assms by (auto simp: upserted_def get_entity_def get_entity_by_id_def find_None_iff
        wf_catalog_def wf_entities_def)
  have mc: "meta_column meta = (if meta \<in> {None, Some []} then None else meta)"
    by (auto simp: meta_column_def split: option.split list.split)
  have cols: "case get_entity kind name s of
             None \<Rightarrow> get_entity_by_id i s = None \<and> e_path ?e = path \<and> e_tldr ?e = tldr \<and>
               e_meta ?e = (if meta = Some [] then None else meta) \<and> e_created ?e = now \<and> e_updated ?e = now \<and>
               e_protected ?e = prot \<and> \<not> e_noise ?e
           | Some old \<Rightarrow> i = e_id old \<and>
               e_path ?e = (if path = None then e_path old else path) \<and>
               e_tldr ?e = (if tldr = None then e_tldr old else tldr) \<and>
               e_meta ?e = (if meta \<in> {None, Some []} then e_meta old else meta) \<and>
               e_created ?e = e_created old \<and> e_noise ?e = e_noise old \<and>
               e_protected ?e = (e_protected old \<or> prot) \<and>
               e_updated ?e = (if e_path ?e = e_path old \<and> e_tldr ?e = e_tldr old \<and> e_meta ?e = e_meta old
                              then e_updated old else now)"
  proof (cases "get_entity kind name s")
    case None
    then show ?thesis using fresh mc by (simp add: upserted_def get_entity_def)
  next
    case (Some old)
    then have f: "find_entity (fst (bound s)) kind name s = Some old" by (simp add: get_entity_def)
    then have "old \<in> set (entities s)" "e_kind old = kind" "e_name old = name"
      by (auto simp: find_entity_def entity_key_def dest: find_SomeD)
    then have "e_canonical old = canonical_for_kind kind name"
      using assms by (auto simp: wf_catalog_def wf_entities_def entity_ok_def)
    then have c: "\<not> (e_canonical old = None \<and> canonical_for_kind kind name \<noteq> None)" by auto
    have cc: "col_changes x y \<longleftrightarrow> coalesce x y \<noteq> y" for x y :: "'z option"
      by (auto simp: col_changes_def coalesce_def split: option.splits)
    have co: "coalesce x y = (if x = None then y else x)" for x y :: "'z option"
      by (simp add: coalesce_def split: option.split)
    have e: "?e = merge_entity now path tldr (meta_column meta) prot (canonical_for_kind kind name) old"
      using f by (simp add: upserted_def)
    have "i = e_id old" using u f by (simp add: upserted_def)
    moreover have "e_updated ?e = (if e_path ?e = e_path old \<and> e_tldr ?e = e_tldr old \<and> e_meta ?e = e_meta old
        then e_updated old else now)"
      unfolding e using c by (auto simp: merge_entity_def cc)
    moreover have "e_path ?e = (if path = None then e_path old else path)" "e_tldr ?e = (if tldr = None then e_tldr old else tldr)"
      "e_meta ?e = (if meta \<in> {None, Some []} then e_meta old else meta)" "e_created ?e = e_created old"
      "e_noise ?e = e_noise old" "e_protected ?e = (e_protected old \<or> prot)"
      unfolding e by (simp_all add: merge_entity_def co mc)
    ultimately show ?thesis unfolding Some option.case by (intro conjI)
  qed
  have frame: "concepts s' = (if kind = ''concept'' \<and> i \<notin> fst ` set (concepts s)
                       then concepts s @ [(i, meta_description meta)] else concepts s) \<and>
        facts_log s' = facts_log (log_events now
          (EvEntity kind name path tldr meta # (if prot then [EvProtect kind name True] else [])) s) \<and>
        s'\<lparr>entities := entities s, next_eid := next_eid s, concepts := concepts s, facts_log := facts_log s\<rparr> = s"
    using Inr unfolding r
    by (auto simp: upsert_entity_def upsert_row_def insert_concept_row_def log_event_def log_events_def Let_def
        split: if_splits option.splits)
  show ?thesis unfolding Inr r sum.case prod.case
    using u fe id wf canon cols row frame by (intro conjI exI [of _ ?e]) (simp_all add: get_entity_def)
qed

lemma open_store_wf [simp]: "wf_catalog (open_store n)"
  by (simp add: open_store_def ensure_partition_def insert_partition_def partition_id_of_def
      fresh_store_def wf_catalog_def wf_entities_def wf_partitions_def wf_linkages_def)

lemma open_store_simps [simp]:
  "entities (open_store n) = []" "bound (open_store n) = (1, n)" "next_eid (open_store n) = 1"
  "linkage_types (open_store n) = []" "facts_log (open_store n) = []" "memory_content (open_store n) = []"
  "concepts (open_store n) = []" "cache (open_store n) = []" "disk (open_store n) = []"
  "dirty (open_store n) = []" "entity_links (open_store n) = []" "link_buffer (open_store n) = None"
  "next_lid (open_store n) = 1" "tracked_files (open_store n) = []"
  "replay_mode (open_store n) = False" "log_enabled (open_store n) = True"
  "linkage_evidence (open_store n) = []" "protect_buffer (open_store n) = []"
  by (simp_all add: open_store_def ensure_partition_def insert_partition_def partition_id_of_def
      fresh_store_def)

theorem upsert_entity_correct_witness:
  "case upsert_entity 5 ''doc'' ''a.md'' None (Some ''t'') None False (open_store ''main'') of
     Inl err \<Rightarrow> False
   | Inr (i, s') \<Rightarrow> wf_catalog s' \<and> map_option e_tldr (get_entity ''doc'' ''a.md'' s') = Some (Some ''t'')"
  using upsert_entity_correct [OF open_store_wf [of "''main''"], where now = 5 and kind = "''doc''"
      and name = "''a.md''" and path = None and tldr = "Some ''t''" and meta = None and prot = False]
  by (auto simp: kinds_def get_entity_def find_entity_def split: sum.splits)

section \<open>The batch upsert\<close>

text \<open>The reference: one \<open>upsert_entity\<close> call per row.\<close>

fun upsert_seq :: "time \<Rightarrow> entity_item list \<Rightarrow> store \<Rightarrow> (nat list \<times> store) result" where
  "upsert_seq now [] s = Inr ([], s)"
| "upsert_seq now ((kind, name, path, tldr, meta) # rows) s =
     bind_r (upsert_entity now kind name path tldr meta False s) (\<lambda>(i, s1).
       bind_r (upsert_seq now rows s1) (\<lambda>(is, s2). Inr (i # is, s2)))"

fun item_args :: "entity_item \<Rightarrow> upsert_args" where
  "item_args (kind, name, path, tldr, meta) = (kind, name, path, tldr, meta_column meta, False)"

lemma upsert_row_log:
  "upsert_row now k n p td m pr (log_event t ev s) =
     (fst (upsert_row now k n p td m pr s), log_event t ev (snd (upsert_row now k n p td m pr s)))"
  by (auto simp: upsert_row_def Let_def log_event_def find_entity_def split: option.split)

lemma upsert_row_concept:
  "upsert_row now k n p td m pr (insert_concept_row i d s) =
     (fst (upsert_row now k n p td m pr s), insert_concept_row i d (snd (upsert_row now k n p td m pr s)))"
  by (auto simp: upsert_row_def Let_def insert_concept_row_def find_entity_def split: option.split)

lemma insert_concept_log: "insert_concept_row i d (log_event t ev s) = log_event t ev (insert_concept_row i d s)"
  by (simp add: insert_concept_row_def log_event_def)

lemma bulk_upsert_rows_commute:
  "bulk_upsert_rows now rows (log_event t ev s) = log_event t ev (bulk_upsert_rows now rows s)"
  "bulk_upsert_rows now rows (insert_concept_row i d s) = insert_concept_row i d (bulk_upsert_rows now rows s)"
  by (induction now rows s rule: bulk_upsert_rows.induct) (simp_all add: upsert_row_log upsert_row_concept)

lemma bulk_concept_rows_log:
  "bulk_concept_rows rows is (log_event t ev s) = log_event t ev (bulk_concept_rows rows is s)"
proof (induction rows "is" s rule: bulk_concept_rows.induct)
  case (1 kind x y z meta rows i ids s)
  then show ?case by (cases "kind = ''concept''") (simp_all add: insert_concept_log)
qed simp_all

lemma put_all_rows:
  "bulk_upsert_rows now rows s = snd (ent.put_all now (map item_args rows) s)"
  by (induction now rows s rule: bulk_upsert_rows.induct) (simp_all add: split_beta)

lemma lookup_ids_some:
  "map (\<lambda>a. entity_id_of (args_key a) s) (map item_args rows) = map Some is \<Longrightarrow> lookup_ids rows s = Inr is"
  by (induction rows s arbitrary: "is" rule: lookup_ids.induct)
    (auto simp: entity_id_of_def args_key_def)

lemma upsert_seq_phases:
  "\<forall>r\<in>set rows. fst r \<in> set kinds \<Longrightarrow>
     upsert_seq now rows s =
       (let (is, s1) = ent.put_all now (map item_args rows) s
        in Inr (is, bulk_log_rows now rows (bulk_concept_rows rows is s1)))"
proof (induction now rows s rule: upsert_seq.induct)
  case (2 now kind name path tldr meta rows s)
  let ?s1 = "snd (upsert_row now kind name path tldr (meta_column meta) False s)"
  let ?i = "fst (upsert_row now kind name path tldr (meta_column meta) False s)"
  let ?s2 = "if kind = ''concept'' then insert_concept_row ?i (meta_description meta) ?s1 else ?s1"
  let ?s3 = "log_event now (EvEntity kind name path tldr meta) ?s2"
  have one: "upsert_entity now kind name path tldr meta False s = Inr (?i, ?s3)"
    using 2(2) by (simp add: upsert_entity_def split_beta Let_def)
  have rest: "ent.put_all now (map item_args rows) ?s3 =
      (fst (ent.put_all now (map item_args rows) ?s1),
       log_event now (EvEntity kind name path tldr meta)
         (if kind = ''concept'' then insert_concept_row ?i (meta_description meta)
            (snd (ent.put_all now (map item_args rows) ?s1))
          else snd (ent.put_all now (map item_args rows) ?s1)))"
  proof -
    have "ent.put_all now (map item_args rows) (log_event t ev x) =
        (fst (ent.put_all now (map item_args rows) x), log_event t ev (snd (ent.put_all now (map item_args rows) x)))"
      "ent.put_all now (map item_args rows) (insert_concept_row j d x) =
        (fst (ent.put_all now (map item_args rows) x),
         insert_concept_row j d (snd (ent.put_all now (map item_args rows) x)))"
      for t ev x j d
      by (induction rows arbitrary: x)
        (auto simp: split_beta upsert_row_log upsert_row_concept)
    then show ?thesis by simp
  qed
  show ?case
    using 2 one rest by (simp add: split_beta Let_def bulk_concept_rows_log)
qed simp

text \<open>\<open>bulk_upsert_entity\<close> writes every row first and reads the ids back in one query, yet
  it returns the ids and leaves the whole state (rows, concept rows and logged events) that one
  \<open>upsert_entity\<close> call per row would, repeated keys included.\<close>

theorem bulk_upsert_as_sequence:
  assumes "wf_entities s" "\<forall>r\<in>set rows. fst r \<in> set kinds"
  shows "bulk_upsert_entity now rows s = upsert_seq now rows s"
proof (cases "rows = []")
  case False
  let ?as = "map item_args rows"
  have ok: "\<forall>a\<in>set ?as. args_ok a" using assms(2) by (auto simp: args_ok_def)
  have "lookup_ids rows (snd (ent.put_all now ?as s)) = Inr (fst (ent.put_all now ?as s))"
    using ent.get_put_all [OF assms(1) ok] by (intro lookup_ids_some)
  with False assms(2) show ?thesis
    by (simp add: bulk_upsert_entity_def upsert_seq_phases put_all_rows split_beta Let_def)
qed (simp add: bulk_upsert_entity_def)

theorem bulk_upsert_as_sequence_witness:
  "bulk_upsert_entity 5 [(''concept'', ''b'', None, None, None), (''concept'', ''b'', None, Some ''t'', None)]
     (open_store ''main'')
   = upsert_seq 5 [(''concept'', ''b'', None, None, None), (''concept'', ''b'', None, Some ''t'', None)]
     (open_store ''main'')"
  by (rule bulk_upsert_as_sequence, insert open_store_wf [of "''main''"])
    (simp_all add: wf_catalog_def kinds_def)

section \<open>Concept lookup\<close>

lemma concept_canonical:
  "wf_entities s \<Longrightarrow> e \<in> set (entities s) \<Longrightarrow> e_kind e = ''concept'' \<Longrightarrow>
     e_canonical e = Some (canonicalize_name (e_name e))"
  by (simp add: wf_entities_def entity_ok_def canonical_for_kind_def)

lemma mset_exact_first: "mset (exact_first n rows) = mset (map e_id rows)"
  unfolding exact_first_def by (induction rows) auto

lemma exact_first_props:
  "distinct (map e_id rows) \<Longrightarrow> distinct (exact_first n rows)"
  "set (exact_first n rows) = e_id ` set rows"
  using mset_exact_first [of n rows] by (metis mset_eq_imp_distinct_iff) (metis mset_exact_first list.set_map set_mset_mset)

lemma distinct_ids_filter: "wf_entities s \<Longrightarrow> distinct (map e_id (filter p (entities s)))"
  by (simp add: wf_entities_def distinct_map_filter)

text \<open>The non-strict concept lookup returns, without repetition, exactly the concepts of the
  bound partition whose name canonicalises like the query; the concept that carries the query
  itself as its name comes first; and the strict lookup returns that one alone.\<close>

theorem resolve_concept_ids_exact:
  assumes "wf_catalog s"
  shows "distinct (resolve_concept_ids name False s) \<and>
    set (resolve_concept_ids name False s) =
      e_id ` {e. e \<in> set (entities s) \<and> e_pid e = fst (bound s) \<and> e_kind e = ''concept'' \<and>
                 canonicalize_name (e_name e) = canonicalize_name name} \<and>
    (case get_entity ''concept'' name s of
       None \<Rightarrow> resolve_concept_ids name True s = []
     | Some e \<Rightarrow> resolve_concept_ids name True s = [e_id e] \<and>
                 (\<exists>rest. resolve_concept_ids name False s = e_id e # rest))"
proof -
  have wf: "wf_entities s" using assms by (simp add: wf_catalog_def)
  let ?rows = "canonical_rows (canonicalize_name name) s"
  have r: "resolve_concept_ids name False s = exact_first name ?rows"
    by (simp add: resolve_concept_ids_def)
  have d: "distinct (map e_id ?rows)" unfolding canonical_rows_def using wf by (rule distinct_ids_filter)
  have rows: "set ?rows = {e. e \<in> set (entities s) \<and> e_pid e = fst (bound s) \<and> e_kind e = ''concept'' \<and>
      canonicalize_name (e_name e) = canonicalize_name name}"
    using concept_canonical [OF wf] by (auto simp: canonical_rows_def)
  have hd: "\<exists>rest. resolve_concept_ids name False s = e_id e # rest"
    if e: "get_entity ''concept'' name s = Some e" for e
  proof -
    have e': "e \<in> set (entities s)" "entity_key e = (fst (bound s), ''concept'', name)"
      using e by (auto simp: get_entity_def find_entity_def dest: find_SomeD)
    have "inj_on entity_key (set (entities s))" using wf by (simp add: wf_entities_def distinct_map)
    then have "x = e" if "x \<in> set (filter (\<lambda>e. e_name e = name) ?rows)" for x
      using that e' rows by (auto elim!: inj_onD simp: entity_key_def)
    moreover have "e \<in> set (filter (\<lambda>e. e_name e = name) ?rows)"
      using e' rows by (simp add: entity_key_def)
    ultimately obtain ys where "filter (\<lambda>e. e_name e = name) ?rows = e # ys"
      by (metis list.exhaust list.set_intros(1) empty_iff list.set(1))
    then show ?thesis unfolding r exact_first_def by simp
  qed
  show ?thesis
    unfolding rows [symmetric] using exact_first_props(1) [OF d] hd
    by (simp add: r exact_first_props(2) resolve_concept_ids_def [of _ True] split: option.split)
qed

theorem resolve_concept_ids_exact_witness:
  "distinct (resolve_concept_ids ''x y'' False (open_store ''main'')) \<and>
   resolve_concept_ids ''x y'' True (open_store ''main'') = []"
  using resolve_concept_ids_exact [OF open_store_wf [of "''main''"], where name = "''x y''"]
  by (simp add: get_entity_def find_entity_def)

text \<open>The batched lookup answers for every non-empty name what the single lookup answers;
  names that are empty, or that canonicalise to nothing, get no id.\<close>

theorem resolve_many_agrees:
  "map_of (resolve_concept_ids_many names s) n =
     (if n \<in> set names \<and> n \<noteq> [] then
        Some (if canonicalize_name n = [] then [] else resolve_concept_ids n False s)
      else None)"
proof -
  let ?ns = "filter (\<lambda>n. n \<noteq> []) names"
  let ?w = "sort (dedup (filter (\<lambda>c. c \<noteq> []) (map canonicalize_name ?ns)))"
  let ?f = "\<lambda>n. exact_first n (filter (\<lambda>e. e_canonical e = Some (canonicalize_name n)) (rows_by_canon ?w s))"
  have fold: "map_of (foldl (\<lambda>out n. AList.update n (f n) out) d xs) n =
      (if n \<in> set xs then Some (f n) else map_of d n)" for f :: "string \<Rightarrow> nat list" and d xs
    by (induction xs arbitrary: d) auto
  have "?f n = (if canonicalize_name n = [] then [] else resolve_concept_ids n False s)" if "n \<in> set ?ns"
  proof (cases "canonicalize_name n = []")
    case True
    then have "filter (\<lambda>e. e_canonical e = Some (canonicalize_name n)) (rows_by_canon ?w s) = []"
      by (auto simp: rows_by_canon_def filter_empty_conv)
    with True show ?thesis by (simp add: exact_first_def)
  next
    case False
    then have "canonicalize_name n \<in> set ?w" using that by auto
    then have "filter (\<lambda>e. e_canonical e = Some (canonicalize_name n)) (rows_by_canon ?w s) =
        canonical_rows (canonicalize_name n) s"
      unfolding rows_by_canon_def canonical_rows_def filter_filter by (intro filter_cong) auto
    with False show ?thesis by (simp add: resolve_concept_ids_def)
  qed
  then show ?thesis unfolding resolve_concept_ids_many_def Let_def fold by simp
qed

section \<open>Memory bodies\<close>

lemma memory_row_put:
  "memory_row j (put_memory now i c mt tg md s) =
     (if j = i then Some \<lparr>m_entity = i, m_content = c, m_mtype = mt, m_tags = tg, m_metadata = md,
         m_created = (case memory_row i s of None \<Rightarrow> now | Some m \<Rightarrow> m_created m), m_updated = now\<rparr>
      else memory_row j s)"
proof (cases "memory_row i s")
  case None
  then show ?thesis
    by (auto simp: memory_row_def put_memory_def find_key_append split: option.split)
next
  case (Some m)
  have upd: "i = m_entity m \<Longrightarrow> m\<lparr>m_content := c, m_mtype := mt, m_tags := tg, m_metadata := md, m_updated := now\<rparr> =
      \<lparr>m_entity = i, m_content = c, m_mtype = mt, m_tags = tg, m_metadata = md,
       m_created = m_created m, m_updated = now\<rparr>" for m :: mem_row by (cases m) simp
  let ?f = "\<lambda>m. if m_entity m = i then m\<lparr>m_content := c, m_mtype := mt, m_tags := tg,
      m_metadata := md, m_updated := now\<rparr> else m"
  have "memory_row j (put_memory now i c mt tg md s) = map_option ?f (memory_row j s)"
    using Some by (simp add: memory_row_def put_memory_def find_key_map)
  moreover have "m_entity m = i" "\<And>m'. memory_row j s = Some m' \<Longrightarrow> m_entity m' = j"
    using Some by (auto simp: memory_row_def dest: find_SomeD)
  ultimately show ?thesis
    using Some upd [of m] by (cases "j = i"; cases "memory_row j s") auto
qed

lemma put_memory_frame [frame_simps, simp]:
  "entities (put_memory now i c mt tg md s) = entities s"
  "bound (put_memory now i c mt tg md s) = bound s"
  "memory_row j (touch_entity now i s) = memory_row j s"
  "bound (touch_entity now i s) = bound s"
  "memory_row j (log_event now ev s) = memory_row j s"
  by (simp_all add: put_memory_def touch_entity_def memory_row_def split: option.split)

lemma find_entity_touch:
  "find_entity p k n (touch_entity now i s) =
     map_option (\<lambda>e. if e_id e = i then e\<lparr>e_updated := now\<rparr> else e) (find_entity p k n s)"
proof -
  have "entity_key (e\<lparr>e_updated := t\<rparr>) = entity_key e" for e t by (simp add: entity_key_def)
  then show ?thesis unfolding touch_entity_def find_entity_def by (simp add: find_key_map)
qed

lemma upsert_memory:
  "upsert_entity now ''memory'' name None None None prot s =
     (let s1 = snd (upsert_row now ''memory'' name None None None prot s);
          s2 = log_event now (EvEntity ''memory'' name None None None) s1
      in Inr (e_id (upserted now ''memory'' name None None None prot s),
              if prot then log_event now (EvProtect ''memory'' name True) s2 else s2))"
  by (simp add: upsert_entity_Inr kinds_def meta_column_def Let_def)

lemma upserted_again:
  assumes "find_entity (fst (bound s)) ''memory'' name s = Some e"
  shows "upserted now ''memory'' name None None None False s = e"
  using assms
  by (cases e) (auto simp: upserted_def merge_entity_def coalesce_def col_changes_def canonical_for_kind_def
      split: option.split)

lemma add_memory_Inr:
  "\<exists>s1. add_memory now name c mt tg md prot s =
       Inr (e_id (upserted now ''memory'' name None None None prot s), s1) \<and> bound s1 = bound s \<and>
     (let e = upserted now ''memory'' name None None None prot s;
          same = (\<exists>m. memory_row (e_id e) s = Some m \<and> m_content m = c \<and> m_mtype m = mt \<and>
                      m_tags m = tags_column tg)
      in find_entity (fst (bound s)) ''memory'' name s1 = Some (if same then e else e\<lparr>e_updated := now\<rparr>) \<and>
         memory_row (e_id e) s1 =
           Some \<lparr>m_entity = e_id e, m_content = c, m_mtype = mt, m_tags = tags_column tg,
             m_metadata = meta_column md,
             m_created = (case memory_row (e_id e) s of None \<Rightarrow> now | Some m \<Rightarrow> m_created m),
             m_updated = now\<rparr>)"
proof -
  have mr: "memory_row j (snd (upsert_row now k n p td m pr s)) = memory_row j s" for j k n p td m pr
    by (simp add: memory_row_def)
  have fe: "find_entity q k n (put_memory now i c mt tg' md' s') = find_entity q k n s'" for q k n i tg' md' s'
    by (simp add: find_entity_def)
  show ?thesis
    by (cases "memory_row (e_id (upserted now ''memory'' name None None None prot s)) s")
      (auto simp: add_memory_def upsert_memory Let_def embed_changed_def mr memory_row_put find_entity_touch
        fe find_entity_upsert)
qed

text \<open>Writing a memory body again keeps the entity id, the creation time and the row; the
  entity clock that queues it for embedding moves exactly when content, type or tags differ,
  never for a change of metadata alone.\<close>

theorem memory_rewrite_clock:
  assumes "add_memory now name c mt tg md prot s = Inr (i, s1)"
  shows "\<exists>e s2. get_entity ''memory'' name s1 = Some e \<and> e_id e = i \<and>
     add_memory now2 name c2 mt2 tg2 md2 False s1 = Inr (i, s2) \<and>
     get_entity ''memory'' name s2 =
       Some (if c2 = c \<and> mt2 = mt \<and> tags_column tg2 = tags_column tg then e else e\<lparr>e_updated := now2\<rparr>) \<and>
     map_option m_created (memory_row i s2) = map_option m_created (memory_row i s1) \<and>
     map_option m_content (memory_row i s2) = Some c2 \<and>
     map_option m_metadata (memory_row i s2) = Some (meta_column md2)"
proof -
  obtain e where e: "find_entity (fst (bound s)) ''memory'' name s1 = Some e" "e_id e = i" "bound s1 = bound s"
    and m: "\<exists>m. memory_row i s1 = Some m \<and> m_content m = c \<and> m_mtype m = mt \<and> m_tags m = tags_column tg"
    using assms add_memory_Inr [of now name c mt tg md prot s] by (auto simp: Let_def split: if_splits)
  have "upserted now2 ''memory'' name None None None False s1 = e" using e by (simp add: upserted_again)
  then show ?thesis
    using e m add_memory_Inr [of now2 name c2 mt2 tg2 md2 False s1]
    by (auto simp: Let_def get_entity_def split: if_splits)
qed

theorem memory_rewrite_clock_witness:
  "\<exists>i s1 e s2. add_memory 1 ''m'' ''body'' ''note'' None None False (open_store ''main'') = Inr (i, s1) \<and>
     get_entity ''memory'' ''m'' s1 = Some e \<and>
     add_memory 2 ''m'' ''body'' ''note'' None (Some [(''k'', ''v'')]) False s1 = Inr (i, s2) \<and>
     get_entity ''memory'' ''m'' s2 = Some e"
proof -
  obtain i s1 where "add_memory 1 ''m'' ''body'' ''note'' None None False (open_store ''main'') = Inr (i, s1)"
    using add_memory_Inr by blast
  then show ?thesis
    using memory_rewrite_clock [of 1 "''m''" "''body''" "''note''" None None False "open_store ''main''" i s1 2 "''body''" "''note''" None
        "Some [(''k'', ''v'')]"] by auto
qed

end
