(* ===== verification/Fragments.thy ===== *)
theory Fragments
  imports Entities
begin

text \<open>
  The bitmap fragments of a store: one bitmap per partition and linkage whose bits are packed
  pairs of a concept id (high) and an entity id (low 32 bits). \<open>cache\<close> holds the fragments a
  partition binding has loaded, \<open>dirty\<close> the linkages it has changed, \<open>disk\<close> the rows of the
  table \<open>bitmap_fragments\<close> of the default backend (DuckDB), keyed by partition id and linkage.
  A loaded Python bitmap is mutated in place: changing the cache entry is that mutation.

  \<open>frag_value\<close> is the abstraction: what a partition's fragment currently holds. The lemmas show
  that loading does not change it, that a row is a slice of it, that changes under one binding
  never reach another, and that a flush makes the persisted rows equal to it.
\<close>

unbundle bit_operations_syntax

section \<open>Packed pairs\<close>

definition concept_shift :: nat where "concept_shift = 32"

definition entity_mask :: nat where "entity_mask = 2 ^ concept_shift - 1"

definition pack :: "nat \<Rightarrow> nat \<Rightarrow> nat" where
  "pack c e = push_bit concept_shift c OR e"

definition bit_concept :: "nat \<Rightarrow> nat" where "bit_concept v = drop_bit concept_shift v"

definition bit_entity :: "nat \<Rightarrow> nat" where "bit_entity v = v AND entity_mask"

lemma bit_entity_mod: "bit_entity v = v mod 2 ^ 32"
proof -
  have "entity_mask = mask 32" by (simp add: entity_mask_def concept_shift_def mask_eq_exp_minus_1)
  then have "bit_entity v = take_bit 32 v" by (simp only: bit_entity_def take_bit_eq_mask)
  then show ?thesis by (simp only: take_bit_eq_mod)
qed

lemma bit_concept_div: "bit_concept v = v div 2 ^ 32"
  by (simp add: bit_concept_def concept_shift_def drop_bit_eq_div)

lemma pack_sum:
  assumes "e < 2 ^ 32"
  shows "pack c e = c * 2 ^ 32 + e"
proof -
  have "take_bit 32 e = e" using assms by (simp add: take_bit_nat_eq_self_iff)
  then have "bit e n \<Longrightarrow> n < 32" for n by (metis bit_take_bit_iff)
  then have "push_bit 32 c AND e = 0" by (intro bit_eqI) (force simp: bit_and_iff bit_push_bit_iff)
  then have "push_bit 32 c OR e = push_bit 32 c + e" by (simp add: disjunctive_add_eq_or)
  then show ?thesis by (simp add: pack_def concept_shift_def push_bit_eq_mult mult.commute)
qed

lemma unpack_pack [simp]:
  assumes "e < 2 ^ 32"
  shows "bit_concept (pack c e) = c" "bit_entity (pack c e) = e"
  using assms by (simp_all add: pack_sum bit_concept_div bit_entity_mod)

lemma bit_entity_less [simp]: "bit_entity v < 2 ^ 32" "bit_entity v < 4294967296"
  by (simp_all add: bit_entity_mod)

lemma pack_unpack [simp]: "pack (bit_concept v) (bit_entity v) = v"
  by (subst pack_sum) (simp_all add: bit_concept_div bit_entity_mod div_mult_mod_eq)

lemma pack_inj: "e < 2 ^ 32 \<Longrightarrow> e' < 2 ^ 32 \<Longrightarrow> pack c e = pack c' e' \<longleftrightarrow> c = c' \<and> e = e'"
  by (metis unpack_pack)

text \<open>The bits of row \<open>c\<close> are the values from \<open>c << 32\<close> up to \<open>(c + 1) << 32\<close>.\<close>

definition row_start :: "nat \<Rightarrow> nat" where "row_start c = push_bit concept_shift c"

lemma in_row_iff: "row_start c \<le> v \<and> v < row_start (c + 1) \<longleftrightarrow> bit_concept v = c"
proof -
  have "row_start c = c * 2 ^ 32" for c
    by (simp add: row_start_def concept_shift_def push_bit_eq_mult mult.commute)
  moreover have "v div k = c \<longleftrightarrow> c * k \<le> v \<and> v < (c + 1) * k" if "0 < k" for k :: nat
    using that by (auto simp: mult.commute dividend_less_times_div intro!: div_nat_eqI)
  ultimately show ?thesis by (simp add: bit_concept_div)
qed

section \<open>Loading and changing a fragment\<close>

definition disk_value :: "nat \<Rightarrow> string \<Rightarrow> store \<Rightarrow> bitmap" where
  "disk_value pid l s = (case map_of (disk s) (pid, l) of None \<Rightarrow> {} | Some f \<Rightarrow> f)"

text \<open>\<open>_load_fragment\<close>: the cached bitmap, or the persisted one, which is cached.\<close>

definition load_fragment :: "string \<Rightarrow> store \<Rightarrow> bitmap \<times> store" where
  "load_fragment linkage s =
     (let l = canonical_verb linkage in
      case map_of (cache s) (bound s, l) of
        Some f \<Rightarrow> (f, s)
      | None \<Rightarrow>
          (let f = disk_value (fst (bound s)) l s
           in (f, s\<lparr>cache := AList.update (bound s, l) f (cache s)\<rparr>)))"

text \<open>In-place mutation of the loaded bitmap, and \<open>_dirty_fragments.add(linkage)\<close>.\<close>

definition mutate_fragment :: "string \<Rightarrow> (bitmap \<Rightarrow> bitmap) \<Rightarrow> store \<Rightarrow> store" where
  "mutate_fragment linkage g s =
     (case load_fragment linkage s of
        (f, s1) \<Rightarrow> s1\<lparr>cache := AList.update (bound s, canonical_verb linkage) (g f) (cache s1)\<rparr>)"

definition mark_dirty :: "string \<Rightarrow> store \<Rightarrow> store" where
  "mark_dirty linkage s =
     (if (bound s, linkage) \<in> set (dirty s) then s
      else s\<lparr>dirty := dirty s @ [(bound s, linkage)]\<rparr>)"

definition load_bitmap :: "string \<Rightarrow> nat \<Rightarrow> store \<Rightarrow> nat set \<times> store" where
  "load_bitmap linkage c s =
     (case load_fragment linkage s of
        (f, s1) \<Rightarrow>
          if f = {} then ({}, s1)
          else (bit_entity ` {v \<in> f. row_start c \<le> v \<and> v < row_start (c + 1)}, s1))"

definition save_bitmap :: "string \<Rightarrow> nat \<Rightarrow> nat set \<Rightarrow> store \<Rightarrow> store" where
  "save_bitmap linkage c bm s =
     mark_dirty linkage
       (mutate_fragment linkage
          (\<lambda>f. {v \<in> f. \<not> (row_start c \<le> v \<and> v < row_start (c + 1))} \<union> (\<lambda>e. row_start c OR e) ` bm) s)"

section \<open>Flushing\<close>

text \<open>One dirty entry under its own binding: an empty fragment deletes its row.\<close>

definition flush_entry :: "binding \<times> string \<Rightarrow> store \<Rightarrow> store" where
  "flush_entry br s =
     (let b = fst br; l = canonical_verb (snd br) in
      case map_of (cache s) (b, l) of
        None \<Rightarrow> s
      | Some f \<Rightarrow>
          if f = {} then s\<lparr>disk := AList.delete (fst b, l) (disk s)\<rparr>
          else s\<lparr>disk := AList.update (fst b, l) f (disk s)\<rparr>)"

definition flush_fragments :: "store \<Rightarrow> store" where
  "flush_fragments s = (fold flush_entry (dirty s) s)\<lparr>dirty := []\<rparr>"

definition clear_caches :: "store \<Rightarrow> store" where
  "clear_caches s = s\<lparr>cache := [], dirty := []\<rparr>"

definition has_dirty_fragments :: "store \<Rightarrow> bool" where
  "has_dirty_fragments s = (dirty s \<noteq> [])"

section \<open>The value of a fragment\<close>

definition frag_value :: "binding \<Rightarrow> string \<Rightarrow> store \<Rightarrow> bitmap" where
  "frag_value b l s =
     (case map_of (cache s) (b, l) of Some f \<Rightarrow> f | None \<Rightarrow> disk_value (fst b) l s)"

lemma load_fragment_value:
  "fst (load_fragment l s) = frag_value (bound s) (canonical_verb l) s"
  "frag_value b k (snd (load_fragment l s)) = frag_value b k s"
  "bound (snd (load_fragment l s)) = bound s" "dirty (snd (load_fragment l s)) = dirty s"
  "disk (snd (load_fragment l s)) = disk s" "entities (snd (load_fragment l s)) = entities s"
  by (auto simp: load_fragment_def frag_value_def Let_def disk_value_def split: option.split)

lemma frag_value_mutate:
  "frag_value b k (mutate_fragment l g s) =
     (if b = bound s \<and> k = canonical_verb l then g (frag_value b k s) else frag_value b k s)"
  by (auto simp: mutate_fragment_def split_beta frag_value_def disk_value_def load_fragment_def Let_def
      split: option.split)

lemma frag_value_mark [simp]: "frag_value b k (mark_dirty l s) = frag_value b k s"
  by (auto simp: mark_dirty_def frag_value_def disk_value_def split: option.split)

lemma fragment_frame [frame_simps, simp]:
  "partitions (snd (load_fragment l s)) = partitions s" "partitions (mutate_fragment l g s) = partitions s"
  "partitions (mark_dirty l s) = partitions s" "next_pid (snd (load_fragment l s)) = next_pid s"
  "next_pid (mutate_fragment l g s) = next_pid s" "next_pid (mark_dirty l s) = next_pid s"
  "bound (mutate_fragment l g s) = bound s" "bound (mark_dirty l s) = bound s"
  "bound (snd (load_fragment l s)) = bound s"
  "dirty (mutate_fragment l g s) = dirty s" "disk (mutate_fragment l g s) = disk s"
  "disk (mark_dirty l s) = disk s" "cache (mark_dirty l s) = cache s"
  "entities (mutate_fragment l g s) = entities s" "entities (mark_dirty l s) = entities s"
  "entity_links (mutate_fragment l g s) = entity_links s" "entity_links (mark_dirty l s) = entity_links s"
  "entity_links (snd (load_fragment l s)) = entity_links s"
  "linkage_types (mutate_fragment l g s) = linkage_types s"
  "linkage_types (mark_dirty l s) = linkage_types s"
  "linkage_types (snd (load_fragment l s)) = linkage_types s"
  "concepts (mutate_fragment l g s) = concepts s" "concepts (mark_dirty l s) = concepts s"
  by (simp_all add: mutate_fragment_def mark_dirty_def load_fragment_def Let_def split_beta split: option.split)

lemma set_dirty_mark [simp]: "set (dirty (mark_dirty l s)) = insert (bound s, l) (set (dirty s))"
  by (auto simp: mark_dirty_def)

text \<open>The row of a concept in a fragment, and its three readings.\<close>

definition row_of :: "nat \<Rightarrow> bitmap \<Rightarrow> nat set" where
  "row_of c f = {e. e < 2 ^ 32 \<and> pack c e \<in> f}"

lemma row_of_slice: "bit_entity ` {v \<in> f. row_start c \<le> v \<and> v < row_start (c + 1)} = row_of c f"
proof -
  have "e \<in> bit_entity ` {v \<in> f. bit_concept v = c}" if "e < 2 ^ 32" "pack c e \<in> f" for e
    using that by (intro rev_image_eqI [of "pack c e"]) auto
  moreover have "pack (bit_concept v) (bit_entity v) = v" for v by simp
  ultimately show ?thesis unfolding in_row_iff row_of_def by auto
qed

lemma load_bitmap_value:
  "fst (load_bitmap l c s) = row_of c (frag_value (bound s) (canonical_verb l) s)"
  "frag_value b k (snd (load_bitmap l c s)) = frag_value b k s"
  "bound (snd (load_bitmap l c s)) = bound s" "dirty (snd (load_bitmap l c s)) = dirty s"
  using load_fragment_value(1) [of l s] load_fragment_value(2) [of b k l s]
    load_fragment_value(3,4) [of l s] row_of_slice [of "fst (load_fragment l s)" c]
  by (auto simp: load_bitmap_def split_beta row_of_def split: if_splits)

lemma save_bitmap_value:
  assumes "bm \<subseteq> {..<2 ^ 32}"
  shows "row_of d (frag_value b k (save_bitmap l c bm s)) =
    (if b = bound s \<and> k = canonical_verb l \<and> d = c then bm else row_of d (frag_value b k s))"
proof -
  have "(\<lambda>e. row_start c OR e) ` bm = pack c ` bm" by (simp add: row_start_def pack_def)
  moreover have "row_of d ({v \<in> f. \<not> (row_start c \<le> v \<and> v < row_start (c + 1))} \<union> pack c ` bm) = (if d = c then bm else row_of d f)" for f
    unfolding in_row_iff using assms by (auto simp: row_of_def pack_inj subset_iff)
  ultimately show ?thesis
    by (simp only: save_bitmap_def frag_value_mutate frag_value_mark) auto
qed

section \<open>Flushing makes the value durable\<close>

definition bindings :: "store \<Rightarrow> binding set" where
  "bindings s = (\<lambda>p. (p_id p, p_name p)) ` set (partitions s)"

text \<open>Bindings come from the partitions table; a cached fragment that no dirty entry covers is
  the persisted one; the ids of persisted rows are ids of partitions.\<close>

definition frag_ok :: "store \<Rightarrow> bool" where
  "frag_ok s =
     ((\<forall>b l f. map_of (cache s) (b, l) = Some f \<longrightarrow> b \<in> bindings s) \<and>
      (\<forall>b r. (b, r) \<in> set (dirty s) \<longrightarrow> b \<in> bindings s) \<and>
      (\<forall>b l f. map_of (cache s) (b, l) = Some f \<longrightarrow>
         (\<exists>r. (b, r) \<in> set (dirty s) \<and> canonical_verb r = l) \<or> f = disk_value (fst b) l s) \<and>
      (\<forall>pid l. disk_value pid l s \<noteq> {} \<longrightarrow> pid \<in> p_id ` set (partitions s)))"

lemma frag_okD:
  assumes "frag_ok s"
  shows "map_of (cache s) (b, l) = Some f \<Longrightarrow> b \<in> bindings s"
    and "(b, r) \<in> set (dirty s) \<Longrightarrow> b \<in> bindings s"
    and "map_of (cache s) (b, l) = Some f \<Longrightarrow>
      \<not> (\<exists>r. (b, r) \<in> set (dirty s) \<and> canonical_verb r = l) \<Longrightarrow> f = disk_value (fst b) l s"
    and "disk_value pid l s \<noteq> {} \<Longrightarrow> pid \<in> p_id ` set (partitions s)"
proof -
  note ok = assms [unfolded frag_ok_def]
  show "map_of (cache s) (b, l) = Some f \<Longrightarrow> b \<in> bindings s"
    using conjunct1 [OF ok] by iprover
  show "(b, r) \<in> set (dirty s) \<Longrightarrow> b \<in> bindings s"
    using conjunct1 [OF conjunct2 [OF ok]] by iprover
  show "map_of (cache s) (b, l) = Some f \<Longrightarrow>
      \<not> (\<exists>r. (b, r) \<in> set (dirty s) \<and> canonical_verb r = l) \<Longrightarrow> f = disk_value (fst b) l s"
    using conjunct1 [OF conjunct2 [OF conjunct2 [OF ok]]] by iprover
  show "disk_value pid l s \<noteq> {} \<Longrightarrow> pid \<in> p_id ` set (partitions s)"
    using conjunct2 [OF conjunct2 [OF conjunct2 [OF ok]]] by iprover
qed

lemma frag_okI:
  assumes "\<And>b l f. map_of (cache s) (b, l) = Some f \<Longrightarrow> b \<in> bindings s"
    "\<And>b r. (b, r) \<in> set (dirty s) \<Longrightarrow> b \<in> bindings s"
    "\<And>b l f. map_of (cache s) (b, l) = Some f \<Longrightarrow>
     \<not> (\<exists>r. (b, r) \<in> set (dirty s) \<and> canonical_verb r = l) \<Longrightarrow> f = disk_value (fst b) l s"
    "\<And>pid l. disk_value pid l s \<noteq> {} \<Longrightarrow> pid \<in> p_id ` set (partitions s)"
  shows "frag_ok s"
  unfolding frag_ok_def
proof (intro conjI allI impI)
  fix b l f assume m: "map_of (cache s) (b, l) = Some f"
  then show "b \<in> bindings s" by (rule assms(1))
  show "(\<exists>r. (b, r) \<in> set (dirty s) \<and> canonical_verb r = l) \<or> f = disk_value (fst b) l s"
    using assms(3) [OF m] by (cases "\<exists>r. (b, r) \<in> set (dirty s) \<and> canonical_verb r = l") simp_all
next
  fix b r assume "(b, r) \<in> set (dirty s)"
  then show "b \<in> bindings s" by (rule assms(2))
next
  fix pid l assume "disk_value pid l s \<noteq> {}"
  then show "pid \<in> p_id ` set (partitions s)" by (rule assms(4))
qed

lemma bindings_inj: "wf_partitions s \<Longrightarrow> b \<in> bindings s \<Longrightarrow> b' \<in> bindings s \<Longrightarrow> fst b = fst b' \<Longrightarrow> b = b'"
  by (auto simp: wf_partitions_def bindings_def distinct_map dest: inj_onD)

lemma flush_entry_disk:
  "disk_value pid k (flush_entry (b, r) s) =
     (if pid = fst b \<and> k = canonical_verb r then frag_value b k s else disk_value pid k s)"
  by (auto simp: flush_entry_def Let_def disk_value_def frag_value_def AList.delete_conv' split: option.split)

lemma flush_entry_frame [simp]:
  "cache (flush_entry e s) = cache s" "partitions (flush_entry e s) = partitions s"
  "bound (flush_entry e s) = bound s" "next_pid (flush_entry e s) = next_pid s"
  "entities (flush_entry e s) = entities s" "entity_links (flush_entry e s) = entity_links s"
  "linkage_types (flush_entry e s) = linkage_types s" "concepts (flush_entry e s) = concepts s"
  by (auto simp: flush_entry_def Let_def split: option.split)

lemma flush_entry_value:
  assumes "fst b = fst b' \<longrightarrow> b = b'"
  shows "frag_value b k (flush_entry (b', r) s) = frag_value b k s"
  using assms flush_entry_disk [of "fst b" k b' r s]
  by (auto simp: frag_value_def split: option.split)

lemma fold_flush_frame [simp]:
  "cache (fold flush_entry D s) = cache s" "partitions (fold flush_entry D s) = partitions s"
  "bound (fold flush_entry D s) = bound s" "next_pid (fold flush_entry D s) = next_pid s"
  "entities (fold flush_entry D s) = entities s" "entity_links (fold flush_entry D s) = entity_links s"
  "linkage_types (fold flush_entry D s) = linkage_types s" "concepts (fold flush_entry D s) = concepts s"
  by (induction D arbitrary: s) auto

lemma fold_flush:
  assumes "\<forall>(b', r)\<in>set D. fst b = fst b' \<longrightarrow> b = b'"
  shows "frag_value b k (fold flush_entry D s) = frag_value b k s \<and>
    disk_value (fst b) k (fold flush_entry D s) =
      (if \<exists>r. (b, r) \<in> set D \<and> canonical_verb r = k then frag_value b k s else disk_value (fst b) k s)"
  using assms
proof (induction D arbitrary: s)
  case (Cons e D)
  obtain b' r where e: "e = (b', r)" by (cases e) blast
  with Cons.prems have inj: "fst b = fst b' \<longrightarrow> b = b'" by simp
  have "frag_value b k (flush_entry (b', r) s) = frag_value b k s" using inj by (rule flush_entry_value)
  with Cons e inj show ?case by (auto simp: flush_entry_disk)
qed simp

lemma flush_frame [simp]:
  "cache (flush_fragments s) = cache s" "partitions (flush_fragments s) = partitions s"
  "bound (flush_fragments s) = bound s" "next_pid (flush_fragments s) = next_pid s"
  "entities (flush_fragments s) = entities s" "entity_links (flush_fragments s) = entity_links s"
  "linkage_types (flush_fragments s) = linkage_types s" "concepts (flush_fragments s) = concepts s"
  "dirty (flush_fragments s) = []"
  by (simp_all add: flush_fragments_def)

lemma frag_value_dirty_irrelevant [simp]:
  "frag_value b k (s\<lparr>dirty := d\<rparr>) = frag_value b k s" "disk_value pid k (s\<lparr>dirty := d\<rparr>) = disk_value pid k s"
  "disk_value pid k (s\<lparr>cache := c\<rparr>) = disk_value pid k s"
  by (simp_all add: frag_value_def disk_value_def split: option.split)

lemma flush_lemma:
  assumes "wf_partitions s" "frag_ok s" "b \<in> bindings s"
  shows "frag_value b k (flush_fragments s) = frag_value b k s"
    "disk_value (fst b) k (flush_fragments s) = frag_value b k s"
    "frag_value b k (clear_caches (flush_fragments s)) = frag_value b k s"
proof -
  have inj: "\<forall>(b', r)\<in>set (dirty s). fst b = fst b' \<longrightarrow> b = b'"
    using bindings_inj [OF assms(1,3) frag_okD(2) [OF assms(2)]] by blast
  show v: "frag_value b k (flush_fragments s) = frag_value b k s"
    using fold_flush [OF inj] by (simp add: flush_fragments_def)
  have "disk_value (fst b) k s = frag_value b k s" if "\<not> (\<exists>r. (b, r) \<in> set (dirty s) \<and> canonical_verb r = k)"
    using frag_okD(3) [OF assms(2) _ that] by (simp add: frag_value_def split: option.split)
  then show d: "disk_value (fst b) k (flush_fragments s) = frag_value b k s"
    using fold_flush [OF inj] by (simp add: flush_fragments_def)
  then show "frag_value b k (clear_caches (flush_fragments s)) = frag_value b k s"
    by (simp add: frag_value_def clear_caches_def)
qed

lemma bindings_frame [simp]:
  "bindings (snd (load_fragment l s)) = bindings s" "bindings (mutate_fragment l g s) = bindings s"
  "bindings (mark_dirty l s) = bindings s" "bindings (flush_fragments s) = bindings s"
  "bindings (clear_caches s) = bindings s" "bindings (s\<lparr>cache := c\<rparr>) = bindings s"
  "bindings (s\<lparr>dirty := d\<rparr>) = bindings s" "bindings (s\<lparr>bound := x\<rparr>) = bindings s"
  by (simp_all add: bindings_def clear_caches_def)

lemma bound_in_bindings: "wf_partitions s \<Longrightarrow> bound s \<in> bindings s"
proof -
  assume "wf_partitions s"
  then obtain p where "find (\<lambda>p. p_name p = snd (bound s)) (partitions s) = Some p" "p_id p = fst (bound s)"
    by (auto simp: wf_partitions_def partition_id_of_def)
  then have "p \<in> set (partitions s)" "bound s = (p_id p, p_name p)" by (auto dest: find_SomeD)
  then show ?thesis by (simp add: bindings_def)
qed

lemma frag_ok_load:
  assumes "wf_partitions s" "frag_ok s"
  shows "frag_ok (snd (load_fragment l s))"
proof (cases "map_of (cache s) (bound s, canonical_verb l)")
  case None
  let ?s = "snd (load_fragment l s)"
  have c: "map_of (cache ?s) = (map_of (cache s))((bound s, canonical_verb l) \<mapsto>
      disk_value (fst (bound s)) (canonical_verb l) s)" "disk ?s = disk s" "dirty ?s = dirty s"
    using None by (simp_all add: load_fragment_def Let_def)
  have d: "disk_value p k ?s = disk_value p k s" for p k using c by (simp add: disk_value_def)
  show ?thesis
    using frag_okD [OF assms(2)] bound_in_bindings [OF assms(1)]
    by (intro frag_okI; simp only: c d bindings_frame fragment_frame(1) fun_upd_apply split: if_splits)
      blast+
qed (use assms in \<open>simp add: load_fragment_def Let_def\<close>)

lemma frag_ok_change:
  assumes "wf_partitions s" "frag_ok s"
  shows "frag_ok (mark_dirty l (mutate_fragment l g s))"
proof -
  let ?s1 = "snd (load_fragment l s)" and ?s = "mark_dirty l (mutate_fragment l g s)"
  have ok: "frag_ok ?s1" using assms by (rule frag_ok_load)
  have c: "map_of (cache ?s) = (map_of (cache ?s1))((bound s, canonical_verb l) \<mapsto> g (fst (load_fragment l s)))"
    "disk ?s = disk ?s1" "set (dirty ?s) = insert (bound s, l) (set (dirty ?s1))" "partitions ?s1 = partitions s"
    by (simp_all add: mutate_fragment_def split_beta load_fragment_value)
  have d: "disk_value p k ?s = disk_value p k ?s1" for p k using c by (simp add: disk_value_def)
  show ?thesis
    using frag_okD [OF ok] bound_in_bindings [OF assms(1)]
    by (intro frag_okI; simp only: c d bindings_frame fragment_frame(1-3) fun_upd_apply insert_iff split: if_splits)
      blast+
qed

lemma frag_ok_flush:
  assumes "wf_partitions s" "frag_ok s"
  shows "frag_ok (flush_fragments s)"
proof (rule frag_okI)
  fix b l f assume "map_of (cache (flush_fragments s)) (b, l) = Some f"
  then have f: "map_of (cache s) (b, l) = Some f" by simp
  with frag_okD(1) [OF assms(2)] have b: "b \<in> bindings s" by blast
  then show "b \<in> bindings (flush_fragments s)" by simp
  show "f = disk_value (fst b) l (flush_fragments s)"
    using flush_lemma(2) [OF assms b] f by (simp add: frag_value_def)
next
  fix pid l assume ne: "disk_value pid l (flush_fragments s) \<noteq> {}"
  have "disk_value pid l (fold flush_entry D s') \<noteq> {} \<Longrightarrow>
      disk_value pid l s' \<noteq> {} \<or> (\<exists>e\<in>set D. pid = fst (fst e))" for D s'
  proof (induction D arbitrary: s')
    case (Cons e D)
    have "disk_value pid l (flush_entry e s') \<noteq> {} \<Longrightarrow> disk_value pid l s' \<noteq> {} \<or> pid = fst (fst e)"
      using flush_entry_disk [of pid l "fst e" "snd e" s'] by (simp split: if_splits)
    with Cons.IH [of "flush_entry e s'"] Cons.prems show ?case by (simp only: fold_simps o_apply) auto
  qed simp
  from this [of "dirty s" s] ne consider "disk_value pid l s \<noteq> {}" | e where "e \<in> set (dirty s)" "pid = fst (fst e)"
    by (auto simp: flush_fragments_def)
  then show "pid \<in> p_id ` set (partitions (flush_fragments s))"
  proof cases
    case 1
    then show ?thesis using frag_okD(4) [OF assms(2)] by simp
  next
    case 2
    then have "fst e \<in> bindings s" using frag_okD(2) [OF assms(2), of "fst e" "snd e"] by simp
    then show ?thesis using 2 by (auto simp: bindings_def)
  qed
qed simp_all

section \<open>A store of rows per partition\<close>

text \<open>The contract: a map from partition name, linkage and concept to a set of entities, and
  the name of the bound partition. Loading, flushing and reopening (a flush, then a process with
  empty caches) do not change it, rebinding changes the name alone.\<close>

datatype frag_op = ReadRow string nat | WriteRow string nat "nat set" | Rebind string | Flush | Reopen

type_synonym rows = "string \<Rightarrow> string \<Rightarrow> nat \<Rightarrow> nat set"

fun rows_exec :: "frag_op \<Rightarrow> string \<times> rows \<Rightarrow> nat set \<times> string \<times> rows" where
  "rows_exec (ReadRow l c) (n, m) = (m n (canonical_verb l) c, n, m)"
| "rows_exec (WriteRow l c bm) (n, m) =
     ({}, n, \<lambda>n' l' c'. if (n', l', c') = (n, canonical_verb l, c) then bm else m n' l' c')"
| "rows_exec (Rebind n') (n, m) = ({}, n', m)"
| "rows_exec Flush nm = ({}, nm)"
| "rows_exec Reopen nm = ({}, nm)"

fun frag_exec :: "frag_op \<Rightarrow> store \<Rightarrow> nat set \<times> store" where
  "frag_exec (ReadRow l c) s = load_bitmap l c s"
| "frag_exec (WriteRow l c bm) s = ({}, save_bitmap l c bm s)"
| "frag_exec (Rebind n) s = ({}, enter_partition n s)"
| "frag_exec Flush s = ({}, flush_fragments s)"
| "frag_exec Reopen s = ({}, clear_caches (flush_fragments s))"

fun frag_op_ok :: "frag_op \<Rightarrow> bool" where
  "frag_op_ok (WriteRow l c bm) = (bm \<subseteq> {..<2 ^ 32})"
| "frag_op_ok _ = True"

definition rows_of_store :: "store \<Rightarrow> rows" where
  "rows_of_store s n l c =
     (case partition_id_of n s of None \<Rightarrow> {} | Some pid \<Rightarrow> row_of c (frag_value (pid, n) l s))"

definition frag_inv :: "store \<Rightarrow> bool" where
  "frag_inv s = (wf_partitions s \<and> frag_ok s)"

lemma partition_id_in: "partition_id_of n s = Some pid \<Longrightarrow> (pid, n) \<in> bindings s"
  by (auto simp: partition_id_of_def bindings_def dest!: find_SomeD)

lemma partition_id_cong: "partitions s = partitions t \<Longrightarrow> partition_id_of n s = partition_id_of n t"
  by (simp add: partition_id_of_def)

lemma rows_cong:
  assumes "partitions s = partitions t" "\<And>b k. b \<in> bindings t \<Longrightarrow> frag_value b k s = frag_value b k t"
  shows "rows_of_store s = rows_of_store t"
  using assms partition_id_in [of _ t] partition_id_cong [OF assms(1)]
  by (auto simp: rows_of_store_def fun_eq_iff split: option.split)

lemma row_of_empty [simp]: "row_of c {} = {}"
  by (simp add: row_of_def)

lemma enter_partition_new:
  assumes "frag_inv s" "n \<notin> p_name ` set (partitions s)"
  shows "frag_inv (enter_partition n s) \<and> rows_of_store (enter_partition n s) = rows_of_store s \<and>
    snd (bound (enter_partition n s)) = n"
proof -
  let ?p = "\<lparr>p_id = next_pid s, p_name = n, p_kind = ''repo''\<rparr>"
  have wf: "wf_partitions s" and ok: "frag_ok s" using assms(1) by (simp_all add: frag_inv_def)
  have "snd (bound s) \<in> p_name ` set (partitions s)"
    using bound_in_bindings [OF wf] by (auto simp: bindings_def)
  then have ne: "n \<noteq> snd (bound s)" using assms(2) by auto
  have pid: "partition_id_of n' (s\<lparr>partitions := partitions s @ [?p], next_pid := Suc (next_pid s)\<rparr>) =
      (if n' = n then Some (next_pid s) else partition_id_of n' s)" for n'
  proof -
    have "find (\<lambda>p. p_name p = n) (partitions s) = None" using assms(2) by (auto simp: find_None_iff)
    then show ?thesis by (auto simp: partition_id_of_def find_key_append split: option.split)
  qed
  let ?t = "enter_partition n s"
  have t: "?t = s\<lparr>partitions := partitions s @ [?p], next_pid := Suc (next_pid s), bound := (next_pid s, n)\<rparr>"
    using assms(2) ne pid [of n] by (simp add: enter_partition_def insert_partition_def)
  have pt: "partition_id_of n' ?t = (if n' = n then Some (next_pid s) else partition_id_of n' s)" for n'
    using pid [of n'] by (simp add: t partition_id_of_def)
  have dv: "disk_value p k ?t = disk_value p k s" for p k by (simp add: t disk_value_def)
  have fv: "frag_value b k ?t = frag_value b k s" for b k
    by (simp add: t frag_value_def disk_value_def split: option.split)
  have fresh: "next_pid s \<notin> p_id ` set (partitions s)" using wf by (auto simp: wf_partitions_def)
  then have "(next_pid s, n) \<notin> bindings s" by (auto simp: bindings_def)
  then have empty: "frag_value (next_pid s, n) k s = {}" for k
    using frag_okD(1) [OF ok, of "(next_pid s, n)" k] frag_okD(4) [OF ok, of "next_pid s" k] fresh
    by (cases "map_of (cache s) ((next_pid s, n), k)") (auto simp: frag_value_def)
  have bs: "bindings s \<subseteq> bindings ?t" by (auto simp: bindings_def t)
  have ok': "frag_ok ?t"
  proof (rule frag_okI)
    fix b l f assume m: "map_of (cache ?t) (b, l) = Some f"
    then have m: "map_of (cache s) (b, l) = Some f" by (simp add: t)
    then show "b \<in> bindings ?t" using frag_okD(1) [OF ok] bs by blast
    assume "\<not> (\<exists>r. (b, r) \<in> set (dirty ?t) \<and> canonical_verb r = l)"
    then show "f = disk_value (fst b) l ?t" using frag_okD(3) [OF ok m] by (simp add: t disk_value_def)
  next
    fix b r assume "(b, r) \<in> set (dirty ?t)"
    then show "b \<in> bindings ?t" using frag_okD(2) [OF ok] bs by (simp add: t) blast
  next
    fix p l assume "disk_value p l ?t \<noteq> {}"
    then show "p \<in> p_id ` set (partitions ?t)" using frag_okD(4) [OF ok] unfolding dv by (auto simp: t)
  qed
  have "wf_partitions ?t"
    using wf assms(2) fresh pt [of n] by (auto simp: wf_partitions_def t)
  moreover have "rows_of_store ?t = rows_of_store s"
  proof -
    have "partition_id_of n s = None" using assms(2) by (auto simp: partition_id_of_def find_None_iff)
    then show ?thesis by (simp add: rows_of_store_def fun_eq_iff pt fv empty split: option.split)
  qed
  ultimately show ?thesis using ok' by (simp add: frag_inv_def t)
qed

lemma enter_partition_old:
  assumes "frag_inv s" "n \<in> p_name ` set (partitions s)"
  shows "frag_inv (enter_partition n s) \<and> rows_of_store (enter_partition n s) = rows_of_store s \<and>
    snd (bound (enter_partition n s)) = n"
proof (cases "n = snd (bound s)")
  case True
  then show ?thesis using assms by (simp add: enter_partition_def)
next
  case False
  have wf: "wf_partitions s" and ok: "frag_ok s" using assms(1) by (simp_all add: frag_inv_def)
  obtain i where i: "partition_id_of n s = Some i"
    using assms(2) by (cases "partition_id_of n s") (auto simp: partition_id_of_def find_None_iff)
  then have t: "enter_partition n s = s\<lparr>bound := (i, n)\<rparr>"
    using assms(2) False by (simp add: enter_partition_def insert_partition_def)
  have fv: "frag_value b k (s\<lparr>bound := x\<rparr>) = frag_value b k s" for b k x
    by (simp add: frag_value_def disk_value_def split: option.split)
  have "rows_of_store (s\<lparr>bound := (i, n)\<rparr>) = rows_of_store s" by (rule rows_cong) (simp_all add: fv)
  moreover have "wf_partitions (s\<lparr>bound := (i, n)\<rparr>)" using wf i by (simp add: wf_partitions_def partition_id_of_def)
  moreover have "frag_ok (s\<lparr>bound := (i, n)\<rparr>)"
    using ok by (simp add: frag_ok_def disk_value_def)
  ultimately show ?thesis by (simp add: t frag_inv_def)
qed

lemma enter_partition_ok:
  "frag_inv s \<Longrightarrow> frag_inv (enter_partition n s) \<and> rows_of_store (enter_partition n s) = rows_of_store s \<and>
    snd (bound (enter_partition n s)) = n"
  by (cases "n \<in> p_name ` set (partitions s)") (rule enter_partition_old enter_partition_new; assumption)+

lemma bound_row:
  "wf_partitions s \<Longrightarrow> rows_of_store s (snd (bound s)) l c = row_of c (frag_value (bound s) l s)"
  by (simp add: rows_of_store_def wf_partitions_def)

interpretation fragments: refines frag_exec rows_exec "\<lambda>s. (snd (bound s), rows_of_store s)" frag_inv frag_op_ok
proof (unfold_locales, goal_cases)
  case (1 s x)
  then have i: "wf_partitions s" "frag_ok s" by (simp_all add: frag_inv_def)
  show ?case
  proof (cases x)
    case (ReadRow l c)
    have "snd (load_bitmap l c s) = snd (load_fragment l s)" by (simp add: load_bitmap_def split_beta)
    then show ?thesis using i frag_ok_load [OF i] ReadRow
      by (simp add: frag_inv_def wf_frame(2) [of "snd (load_fragment l s)" s])
  next
    case (WriteRow l c bm)
    then show ?thesis using i frag_ok_change [OF i]
      by (simp add: frag_inv_def save_bitmap_def wf_partitions_def partition_id_of_def)
  next
    case (Rebind n)
    then show ?thesis using enter_partition_ok [OF 1(1)] by simp
  next
    case Flush
    then show ?thesis using i frag_ok_flush [OF i]
      by (simp add: frag_inv_def wf_partitions_def partition_id_of_def)
  next
    case Reopen
    let ?t = "flush_fragments s"
    have ok: "frag_ok ?t" using i by (rule frag_ok_flush)
    have "frag_ok (clear_caches ?t)"
      using frag_okD(4) [OF ok] by (intro frag_okI) (simp_all add: clear_caches_def disk_value_def)
    with Reopen i show ?thesis
      by (simp add: frag_inv_def wf_partitions_def partition_id_of_def clear_caches_def)
  qed
next
  case (2 s x)
  then have i: "wf_partitions s" "frag_ok s" by (simp_all add: frag_inv_def)
  show ?case
  proof (cases x)
    case (ReadRow l c)
    have "partitions (snd (load_bitmap l c s)) = partitions s" by (simp add: load_bitmap_def split_beta)
    then have "rows_of_store (snd (load_bitmap l c s)) = rows_of_store s"
      by (rule rows_cong) (simp add: load_bitmap_value)
    with ReadRow i show ?thesis
      by (simp add: load_bitmap_value bound_row prod_eq_iff)
  next
    case (WriteRow l c bm)
    let ?t = "save_bitmap l c bm s"
    have p: "partitions ?t = partitions s" and b: "bound ?t = bound s" by (simp_all add: save_bitmap_def)
    have bm: "bm \<subseteq> {..<2 ^ 32}" using 2 WriteRow by simp
    have inj: "(pid, n') = bound s \<longleftrightarrow> n' = snd (bound s)" if "partition_id_of n' s = Some pid" for n' pid
      using that i(1) by (auto simp: wf_partitions_def prod_eq_iff)
    have "rows_of_store ?t n' l' c' =
        (if (n', l', c') = (snd (bound s), canonical_verb l, c) then bm else rows_of_store s n' l' c')" for n' l' c'
      using i(1) inj [of n'] partition_id_cong [OF p, of n']
      by (auto simp: rows_of_store_def save_bitmap_value [OF bm] wf_partitions_def split: option.split)
    with WriteRow b show ?thesis by (simp add: fun_eq_iff)
  next
    case (Rebind n)
    then show ?thesis using enter_partition_ok [OF 2(1)] by simp
  next
    case Flush
    have "rows_of_store (flush_fragments s) = rows_of_store s"
      using flush_lemma(1) [OF i] by (intro rows_cong) simp_all
    with Flush show ?thesis by simp
  next
    case Reopen
    have "rows_of_store (clear_caches (flush_fragments s)) = rows_of_store s"
      using flush_lemma(3) [OF i] by (intro rows_cong) (simp_all add: clear_caches_def)
    with Reopen show ?thesis by (simp add: clear_caches_def)
  qed
qed

text \<open>C2. Over any sequence of row reads, row writes, rebindings to another partition, flushes and
  reopenings, every read returns exactly what a map from partition name, linkage and concept to
  entity sets would hold: rows never leak between concepts, linkages or partitions through the
  shared fragment cache, nothing is lost by a flush under another binding, and what was flushed
  survives the process.\<close>

theorem fragments_refine_rows:
  assumes "wf_partitions s" "frag_ok s" "\<forall>x\<in>set xs. frag_op_ok x"
  shows "run_ops frag_exec xs s = run_ops rows_exec xs (snd (bound s), rows_of_store s)"
  using assms by (intro fragments.run_refines) (simp_all add: frag_inv_def)

lemma open_store_frag_ok [simp]: "wf_partitions (open_store n)" "frag_ok (open_store n)"
proof -
  show "wf_partitions (open_store n)" using open_store_wf [of n] by (simp only: wf_catalog_def)
  show "frag_ok (open_store n)" by (rule frag_okI) (simp_all add: disk_value_def)
qed

theorem fragments_refine_rows_witness:
  "run_ops frag_exec [WriteRow ''mentions'' 7 {1, 2}, Rebind ''b'', WriteRow ''mentions'' 7 {3}, Flush,
      Rebind ''a'', Reopen, ReadRow ''mentions'' 7] (open_store ''a'')
    = [{}, {}, {}, {}, {}, {}, {1, 2}]"
proof -
  have "run_ops frag_exec [WriteRow ''mentions'' 7 {1, 2}, Rebind ''b'', WriteRow ''mentions'' 7 {3}, Flush,
      Rebind ''a'', Reopen, ReadRow ''mentions'' 7] (open_store ''a'') =
    run_ops rows_exec [WriteRow ''mentions'' 7 {1, 2}, Rebind ''b'', WriteRow ''mentions'' 7 {3}, Flush,
      Rebind ''a'', Reopen, ReadRow ''mentions'' 7]
      (snd (bound (open_store ''a'')), rows_of_store (open_store ''a''))"
    by (rule fragments_refine_rows) simp_all
  then show ?thesis by (simp add: canonical_verb_def verb_aliases_def)
qed

end
