(* ===== verification/Repair.thy ===== *)
theory Repair
  imports Fragments
begin

text \<open>
  Repairs of the fragments: \<open>repair_fragments\<close>, which rebuilds every persisted fragment so that
  each v sits in the partition of its entity, and \<open>merge_verb_alias\<close>, which folds a legacy
  linkage verb into its canonical twin in the rows and in every partition's fragment. The
  persisted rows are those of the default backend; the JSONL manifest of the dropped bits is
  the report's field \<open>rp_dropped\<close>.
\<close>

type_synonym frag_rows = "((nat \<times> string) \<times> bitmap) list"

definition row_bits :: "frag_rows \<Rightarrow> nat \<times> string \<Rightarrow> bitmap" where
  "row_bits rows k = (case map_of rows k of None \<Rightarrow> {} | Some f \<Rightarrow> f)"

text \<open>\<open>rows.setdefault(key, BitMap64()).add(bit)\<close>\<close>

definition add_bit :: "nat \<times> string \<Rightarrow> nat \<Rightarrow> frag_rows \<Rightarrow> frag_rows" where
  "add_bit k v rows = AList.update k (insert v (row_bits rows k)) rows"

definition ent_part :: "store \<Rightarrow> nat \<Rightarrow> nat option" where
  "ent_part s i = map_of (map (\<lambda>e. (e_id e, e_pid e)) (entities s)) i"

definition live_concepts :: "store \<Rightarrow> nat list" where
  "live_concepts s = map fst (concepts s) @ map e_id (entities s)"

definition linkage_name :: "store \<Rightarrow> nat \<Rightarrow> string option" where
  "linkage_name s i = map_of (map (\<lambda>r. (l_id r, canonical_verb (l_name r))) (linkage_types s)) i"

section \<open>Scanning the forward index\<close>

record link_scan =
  ls_new :: frag_rows
  ls_skipped :: nat
  ls_dead_entity :: nat
  ls_dead_concept :: nat

definition scan_link :: "store \<Rightarrow> link_row \<Rightarrow> link_scan \<Rightarrow> link_scan" where
  "scan_link s r a =
     (case (ent_part s (k_entity r), linkage_name s (k_linkage r)) of
        (Some pid, Some l) \<Rightarrow>
          if k_concept r \<in> set (live_concepts s)
          then a\<lparr>ls_new := add_bit (pid, l) (pack (k_concept r) (k_entity r)) (ls_new a)\<rparr>
          else a\<lparr>ls_dead_concept := Suc (ls_dead_concept a)\<rparr>
      | (p, _) \<Rightarrow>
          a\<lparr>ls_skipped := Suc (ls_skipped a),
            ls_dead_entity := (if p = None then Suc (ls_dead_entity a) else ls_dead_entity a)\<rparr>)"

definition scan_links :: "store \<Rightarrow> link_scan" where
  "scan_links s = fold (scan_link s) (entity_links s)
     \<lparr>ls_new = [], ls_skipped = 0, ls_dead_entity = 0, ls_dead_concept = 0\<rparr>"

section \<open>Classifying the persisted bits\<close>

text \<open>A dry run sees what the next flush would persist.\<close>

definition overlay_dirty :: "store \<Rightarrow> frag_rows \<Rightarrow> frag_rows" where
  "overlay_dirty s rows =
     fold (\<lambda>(b, raw) old.
         case map_of (cache s) (b, canonical_verb raw) of
           None \<Rightarrow> old
         | Some f \<Rightarrow> AList.update (fst b, canonical_verb raw) f old) (dirty s) rows"

definition remap_bit :: "(nat \<times> nat) list \<Rightarrow> nat \<Rightarrow> nat" where
  "remap_bit m v =
     (let f = (\<lambda>i. case map_of m i of None \<Rightarrow> i | Some j \<Rightarrow> j)
      in pack (f (bit_concept v)) (f (bit_entity v)))"

definition remap_rows :: "(nat \<times> nat) list \<Rightarrow> frag_rows \<Rightarrow> frag_rows" where
  "remap_rows m rows = (if m = [] then rows else map (\<lambda>(k, f). (k, remap_bit m ` f)) rows)"

definition remapped_count :: "(nat \<times> nat) list \<Rightarrow> frag_rows \<Rightarrow> nat" where
  "remapped_count m rows =
     (if m = [] then 0 else sum_list (map (\<lambda>(k, f). card {b \<in> f. remap_bit m b \<noteq> b}) rows))"

record repair_acc =
  ra_new :: frag_rows
  ra_dropped :: frag_rows
  ra_kept :: nat
  ra_moved :: nat
  ra_dead :: nat
  ra_dead_concept :: nat

definition classify_bit :: "store \<Rightarrow> nat \<times> string \<Rightarrow> nat \<Rightarrow> repair_acc \<Rightarrow> repair_acc" where
  "classify_bit s key v a =
     (case ent_part s (bit_entity v) of
        None \<Rightarrow> a\<lparr>ra_dropped := add_bit key v (ra_dropped a), ra_dead := Suc (ra_dead a)\<rparr>
      | Some tp \<Rightarrow>
          if bit_concept v \<notin> set (live_concepts s) then
            a\<lparr>ra_dropped := add_bit key v (ra_dropped a), ra_dead_concept := Suc (ra_dead_concept a)\<rparr>
          else
            (if tp \<noteq> fst key \<or> canonical_verb (snd key) \<noteq> snd key then a\<lparr>ra_moved := Suc (ra_moved a)\<rparr>
             else a\<lparr>ra_kept := Suc (ra_kept a)\<rparr>)
            \<lparr>ra_new := add_bit (tp, canonical_verb (snd key)) v (ra_new a)\<rparr>)"

definition classify_row :: "store \<Rightarrow> (nat \<times> string) \<times> bitmap \<Rightarrow> repair_acc \<Rightarrow> repair_acc" where
  "classify_row s kf a = fold (classify_bit s (fst kf)) (sorted_list_of_set (snd kf)) a"

definition classify_rows :: "store \<Rightarrow> frag_rows \<Rightarrow> frag_rows \<Rightarrow> repair_acc" where
  "classify_rows s old new = fold (classify_row s) old
     \<lparr>ra_new = new, ra_dropped = [], ra_kept = 0, ra_moved = 0, ra_dead = 0, ra_dead_concept = 0\<rparr>"

definition changed_keys :: "frag_rows \<Rightarrow> frag_rows \<Rightarrow> (nat \<times> string) list" where
  "changed_keys old new =
     filter (\<lambda>k. row_bits old k \<noteq> row_bits new k) (dedup (map fst old @ map fst new))"

definition write_all_rows :: "frag_rows \<Rightarrow> store \<Rightarrow> store" where
  "write_all_rows rows s = s\<lparr>disk := sort_key fst (filter (\<lambda>kf. snd kf \<noteq> {}) rows)\<rparr>"

record repair_report =
  rp_rows_before :: nat
  rp_rows_after :: nat
  rp_rows_changed :: nat
  rp_kept :: nat
  rp_moved :: nat
  rp_added :: nat
  rp_dead :: nat
  rp_dead_concept :: nat
  rp_links_skipped :: nat
  rp_links_dead_concept :: nat
  rp_links_dead_entity :: nat
  rp_remapped :: nat
  rp_dropped :: frag_rows

definition repair_fragments :: "bool \<Rightarrow> (nat \<times> nat) list \<Rightarrow> store \<Rightarrow> repair_report \<times> store" where
  "repair_fragments dry id_map s0 =
     (let s = (if dry then s0 else flush_fragments s0);
          ls = scan_links s;
          old0 = (if dry then overlay_dirty s (disk s) else disk s);
          old = remap_rows id_map old0;
          ra = classify_rows s old (ls_new ls);
          new = ra_new ra;
          old_all = \<Union> (snd ` set old);
          changed = changed_keys old0 new;
          s' = (if \<not> dry \<and> changed \<noteq> [] then clear_caches (write_all_rows new s) else s)
      in (\<lparr>rp_rows_before = length old,
           rp_rows_after = length (filter (\<lambda>kf. snd kf \<noteq> {}) new),
           rp_rows_changed = length changed, rp_kept = ra_kept ra, rp_moved = ra_moved ra,
           rp_added = sum_list (map (\<lambda>kf. card (snd kf - old_all)) new),
           rp_dead = ra_dead ra, rp_dead_concept = ra_dead_concept ra,
           rp_links_skipped = ls_skipped ls, rp_links_dead_concept = ls_dead_concept ls,
           rp_links_dead_entity = ls_dead_entity ls, rp_remapped = remapped_count id_map old0,
           rp_dropped = ra_dropped ra\<rparr>, s'))"

section \<open>What the scan and the classification compute\<close>

lemma row_bits_add: "row_bits (add_bit k b rows) k' = (if k' = k then insert b (row_bits rows k) else row_bits rows k')"
  by (simp add: add_bit_def row_bits_def)

lemma keys_add: "distinct (map fst rows) \<Longrightarrow> distinct (map fst (add_bit k b rows))"
  by (simp add: add_bit_def distinct_update)

definition link_bit :: "store \<Rightarrow> link_row \<Rightarrow> ((nat \<times> string) \<times> nat) option" where
  "link_bit s r =
     (case (ent_part s (k_entity r), linkage_name s (k_linkage r)) of
        (Some pid, Some l) \<Rightarrow>
          if k_concept r \<in> set (live_concepts s) then Some ((pid, l), pack (k_concept r) (k_entity r)) else None
      | _ \<Rightarrow> None)"

definition link_bits :: "store \<Rightarrow> nat \<times> string \<Rightarrow> bitmap" where
  "link_bits s k = {b. \<exists>r\<in>set (entity_links s). link_bit s r = Some (k, b)}"

lemma scan_fold:
  "distinct (map fst (ls_new a)) \<Longrightarrow>
     row_bits (ls_new (fold (scan_link s) rs a)) k = row_bits (ls_new a) k \<union> {b. \<exists>r\<in>set rs. link_bit s r = Some (k, b)} \<and>
     distinct (map fst (ls_new (fold (scan_link s) rs a)))"
proof (induction rs arbitrary: a)
  case (Cons r rs)
  have "row_bits (ls_new (scan_link s r a)) k = row_bits (ls_new a) k \<union> {b. link_bit s r = Some (k, b)}"
    "distinct (map fst (ls_new (scan_link s r a)))"
    using Cons.prems by (auto simp: scan_link_def link_bit_def row_bits_add keys_add split: option.split)
  with Cons.IH [of "scan_link s r a"] show ?case by auto
qed simp

lemma scan_links_bits: "row_bits (ls_new (scan_links s)) k = link_bits s k"
  and scan_links_distinct: "distinct (map fst (ls_new (scan_links s)))"
  using scan_fold [of "\<lparr>ls_new = [], ls_skipped = 0, ls_dead_entity = 0, ls_dead_concept = 0\<rparr>" s "entity_links s" k]
  by (auto simp: scan_links_def link_bits_def row_bits_def)

definition live_bit :: "store \<Rightarrow> nat \<Rightarrow> bool" where
  "live_bit s b = (ent_part s (bit_entity b) \<noteq> None \<and> bit_concept b \<in> set (live_concepts s))"

definition bit_home :: "store \<Rightarrow> string \<Rightarrow> nat \<Rightarrow> (nat \<times> string) option" where
  "bit_home s l b = (if live_bit s b then map_option (\<lambda>p. (p, canonical_verb l)) (ent_part s (bit_entity b)) else None)"

definition acc_total :: "repair_acc \<Rightarrow> nat" where
  "acc_total a = ra_kept a + ra_moved a + ra_dead a + ra_dead_concept a"

lemma classify_bit_step:
  assumes "distinct (map fst (ra_new a))"
  shows "row_bits (ra_new (classify_bit s key b a)) k =
      row_bits (ra_new a) k \<union> (if bit_home s (snd key) b = Some k then {b} else {})"
    "distinct (map fst (ra_new (classify_bit s key b a)))"
    "row_bits (ra_dropped (classify_bit s key b a)) k =
      row_bits (ra_dropped a) k \<union> (if k = key \<and> \<not> live_bit s b then {b} else {})"
    "acc_total (classify_bit s key b a) = Suc (acc_total a)"
    "bit_home s (snd key) b = Some key \<Longrightarrow>
      (ra_kept (classify_bit s key b a), ra_moved (classify_bit s key b a)) = (Suc (ra_kept a), ra_moved a)"
  using assms
  by (cases key; auto simp: classify_bit_def bit_home_def live_bit_def row_bits_add keys_add acc_total_def
      split: option.splits if_splits)+

lemma classify_bits_fold:
  assumes "distinct (map fst (ra_new a))"
  shows "row_bits (ra_new (fold (classify_bit s key) bs a)) k =
      row_bits (ra_new a) k \<union> {b \<in> set bs. bit_home s (snd key) b = Some k} \<and>
    distinct (map fst (ra_new (fold (classify_bit s key) bs a))) \<and>
    row_bits (ra_dropped (fold (classify_bit s key) bs a)) k =
      row_bits (ra_dropped a) k \<union> {b \<in> set bs. k = key \<and> \<not> live_bit s b} \<and>
    acc_total (fold (classify_bit s key) bs a) = acc_total a + length bs"
  using assms
proof (induction bs arbitrary: a)
  case (Cons b bs)
  note step = classify_bit_step [OF Cons.prems, of s key b]
  show ?case using Cons.IH [OF step(2)] step(1,3,4) by auto
qed simp

lemma classify_rows_fold:
  assumes "distinct (map fst (ra_new a))" "\<forall>kf\<in>set old. finite (snd kf)"
  shows "row_bits (ra_new (fold (classify_row s) old a)) k =
      row_bits (ra_new a) k \<union> {b. \<exists>(key, f)\<in>set old. b \<in> f \<and> bit_home s (snd key) b = Some k} \<and>
    distinct (map fst (ra_new (fold (classify_row s) old a))) \<and>
    row_bits (ra_dropped (fold (classify_row s) old a)) k =
      row_bits (ra_dropped a) k \<union> {b. \<exists>f. (k, f) \<in> set old \<and> b \<in> f \<and> \<not> live_bit s b} \<and>
    acc_total (fold (classify_row s) old a) = acc_total a + sum_list (map (\<lambda>kf. card (snd kf)) old)"
  using assms
proof (induction old arbitrary: a)
  case (Cons kf old)
  obtain key f where kf: "kf = (key, f)" by (cases kf)
  let ?a = "classify_row s kf a"
  have step: "row_bits (ra_new ?a) k = row_bits (ra_new a) k \<union> {b \<in> f. bit_home s (snd key) b = Some k}"
    "distinct (map fst (ra_new ?a))"
    "row_bits (ra_dropped ?a) k = row_bits (ra_dropped a) k \<union> {b \<in> f. k = key \<and> \<not> live_bit s b}"
    "acc_total ?a = acc_total a + card f"
    using classify_bits_fold [OF Cons.prems(1), of s key "sorted_list_of_set f" k] Cons.prems(2) kf
    by (simp_all add: classify_row_def)
  show ?case using Cons.IH [OF step(2)] step(1,3,4) Cons.prems(2) kf by auto
qed simp

lemma classify_rows_props:
  assumes "distinct (map fst new)" "\<forall>kf\<in>set old. finite (snd kf)"
  shows "row_bits (ra_new (classify_rows s old new)) k =
      row_bits new k \<union> {b. \<exists>(key, f)\<in>set old. b \<in> f \<and> bit_home s (snd key) b = Some k}"
    "distinct (map fst (ra_new (classify_rows s old new)))"
    "row_bits (ra_dropped (classify_rows s old new)) k = {b. \<exists>f. (k, f) \<in> set old \<and> b \<in> f \<and> \<not> live_bit s b}"
    "acc_total (classify_rows s old new) = sum_list (map (\<lambda>kf. card (snd kf)) old)"
  using classify_rows_fold [OF _ assms(2), of "\<lparr>ra_new = new, ra_dropped = [], ra_kept = 0, ra_moved = 0, ra_dead = 0, ra_dead_concept = 0\<rparr>" s k]
    assms(1)
  by (auto simp: classify_rows_def acc_total_def row_bits_def)

lemma row_bits_sorted:
  assumes "distinct (map fst rows)"
  shows "row_bits (sort_key fst (filter (\<lambda>kf. snd kf \<noteq> {}) rows)) k = row_bits rows k"
proof -
  let ?r = "sort_key fst (filter (\<lambda>kf. snd kf \<noteq> {}) rows)"
  have m: "mset (map fst ?r) = mset (map fst (filter (\<lambda>kf. snd kf \<noteq> {}) rows))"
    by (simp only: mset_map mset_sort)
  have d: "distinct (map fst ?r)"
    using mset_eq_imp_distinct_iff [OF m] distinct_map_filter [OF assms] by blast
  show ?thesis
  proof (cases "map_of rows k")
    case None
    then have "map_of ?r k = None" by (auto simp: map_of_eq_None_iff)
    with None show ?thesis by (simp add: row_bits_def)
  next
    case (Some f)
    then have kf: "(k, f) \<in> set rows" by (rule map_of_SomeD)
    show ?thesis
    proof (cases "f = {}")
      case True
      have "f' = {}" if "(k, f') \<in> set rows" for f'
        using that Some True assms by (metis map_of_eq_Some_iff option.inject)
      then have "k \<notin> fst ` set ?r" by force
      then have "map_of ?r k = None" by (simp only: map_of_eq_None_iff) simp
      with Some True show ?thesis by (simp add: row_bits_def)
    next
      case False
      then have "map_of ?r k = Some f" using kf d by (simp add: map_of_eq_Some_iff)
      with Some show ?thesis by (simp add: row_bits_def)
    qed
  qed
qed

lemma disk_value_row_bits: "disk_value p l s = row_bits (disk s) (p, l)"
  by (simp add: disk_value_def row_bits_def)

lemma changed_keys_iff: "changed_keys old new = [] \<longleftrightarrow> (\<forall>k. row_bits old k = row_bits new k)"
proof
  assume "changed_keys old new = []"
  then have c: "row_bits old k = row_bits new k" if "k \<in> fst ` set old \<union> fst ` set new" for k
    using that by (auto simp: changed_keys_def filter_empty_conv)
  have "row_bits old k = {} \<and> row_bits new k = {}" if "k \<notin> fst ` set old \<union> fst ` set new" for k
    using that by (simp add: row_bits_def map_of_eq_None_iff [THEN iffD2])
  with c show "\<forall>k. row_bits old k = row_bits new k" by metis
qed (auto simp: changed_keys_def filter_empty_conv)

text \<open>The bitmaps a process can hold and read back.\<close>

definition finite_frags :: "store \<Rightarrow> bool" where
  "finite_frags s = ((\<forall>kf\<in>set (disk s). finite (snd kf)) \<and> (\<forall>kf\<in>set (cache s). finite (snd kf)))"

definition distinct_disk :: "store \<Rightarrow> bool" where
  "distinct_disk s = distinct (map fst (disk s))"

lemma set_update_sub: "kf \<in> set (AList.update k v xs) \<Longrightarrow> kf = (k, v) \<or> kf \<in> set xs"
  by (induction xs) (auto split: if_splits)

lemma flush_entry_finite: "finite_frags s \<Longrightarrow> finite_frags (flush_entry e s)"
  by (fastforce simp: finite_frags_def flush_entry_def Let_def AList.delete_eq split: option.split
      dest: map_of_SomeD set_update_sub)

lemma flush_entry_distinct: "distinct_disk s \<Longrightarrow> distinct_disk (flush_entry e s)"
  by (simp add: distinct_disk_def flush_entry_def Let_def distinct_update distinct_delete split: option.split)

lemma flush_props: "finite_frags s \<Longrightarrow> finite_frags (flush_fragments s)"
  "distinct_disk s \<Longrightarrow> distinct_disk (flush_fragments s)"
proof -
  have "finite_frags s \<Longrightarrow> finite_frags (fold flush_entry D s)" for D s
    by (induction D arbitrary: s) (simp_all add: flush_entry_finite)
  then show "finite_frags s \<Longrightarrow> finite_frags (flush_fragments s)"
    by (simp add: flush_fragments_def finite_frags_def)
  have "distinct_disk s \<Longrightarrow> distinct_disk (fold flush_entry D s)" for D s
    by (induction D arbitrary: s) (simp_all add: flush_entry_distinct)
  then show "distinct_disk s \<Longrightarrow> distinct_disk (flush_fragments s)"
    by (simp add: flush_fragments_def distinct_disk_def)
qed

text \<open>What the repaired row of a partition and a linkage holds.\<close>

definition repaired :: "store \<Rightarrow> nat \<Rightarrow> string \<Rightarrow> bitmap" where
  "repaired s p l =
     link_bits s (p, l) \<union> {b. \<exists>p' l'. b \<in> disk_value p' l' s \<and> bit_home s l' b = Some (p, l)}"

lemma part_cong:
  "entities s = entities t \<Longrightarrow> ent_part s = ent_part t"
  "entities s = entities t \<Longrightarrow> concepts s = concepts t \<Longrightarrow> live_concepts s = live_concepts t"
  "linkage_types s = linkage_types t \<Longrightarrow> linkage_name s = linkage_name t"
  by (simp_all add: fun_eq_iff ent_part_def live_concepts_def linkage_name_def)

lemma home_cong:
  assumes "entities s = entities t" "concepts s = concepts t"
  shows "bit_home s = bit_home t" "live_bit s = live_bit t"
  unfolding fun_eq_iff bit_home_def live_bit_def part_cong(1) [OF assms(1)] part_cong(2) [OF assms]
  by simp_all

lemma link_bits_cong:
  assumes "entities s = entities t" "concepts s = concepts t" "linkage_types s = linkage_types t"
    "entity_links s = entity_links t"
  shows "link_bits s = link_bits t"
  unfolding fun_eq_iff link_bits_def link_bit_def part_cong(1) [OF assms(1)] part_cong(2) [OF assms(1,2)]
    part_cong(3) [OF assms(3)] assms(4)
  by simp

lemma disk_rows_ex:
  assumes "distinct_disk s"
  shows "(\<exists>(key, f)\<in>set (disk s). b \<in> f \<and> P key) \<longleftrightarrow> (\<exists>p l. b \<in> disk_value p l s \<and> P (p, l))"
proof
  assume "\<exists>(key, f)\<in>set (disk s). b \<in> f \<and> P key"
  then obtain p l f where kf: "((p, l), f) \<in> set (disk s)" "b \<in> f" "P (p, l)" by auto
  then have "map_of (disk s) (p, l) = Some f"
    using assms by (simp add: distinct_disk_def map_of_eq_Some_iff)
  with kf show "\<exists>p l. b \<in> disk_value p l s \<and> P (p, l)" by (force simp: disk_value_def)
next
  assume "\<exists>p l. b \<in> disk_value p l s \<and> P (p, l)"
  then show "\<exists>(key, f)\<in>set (disk s). b \<in> f \<and> P key"
    by (force simp: disk_value_def dest: map_of_SomeD split: option.splits)
qed

definition repair_rows :: "store \<Rightarrow> frag_rows" where
  "repair_rows s = ra_new (classify_rows s (disk s) (ls_new (scan_links s)))"

lemma repair_rows_bits:
  assumes "finite_frags s" "distinct_disk s"
  shows "row_bits (repair_rows s) (p, l) = repaired s p l" "distinct (map fst (repair_rows s))"
proof -
  have fin: "\<forall>kf\<in>set (disk s). finite (snd kf)" using assms(1) by (simp add: finite_frags_def)
  show "row_bits (repair_rows s) (p, l) = repaired s p l"
    using disk_rows_ex [OF assms(2), where P = "\<lambda>key. bit_home s (snd key) _ = Some (p, l)"]
    by (simp add: repair_rows_def classify_rows_props(1) [OF scan_links_distinct fin] scan_links_bits repaired_def)
  show "distinct (map fst (repair_rows s))"
    by (simp add: repair_rows_def classify_rows_props(2) [OF scan_links_distinct fin])
qed

lemma repair_rows_finite:
  assumes "finite_frags s" "distinct_disk s" "kf \<in> set (repair_rows s)"
  shows "finite (snd kf)"
proof -
  obtain p l f where kf: "kf = ((p, l), f)" by (metis prod.collapse)
  have "map_of (repair_rows s) (p, l) = Some f"
    using kf assms(3) repair_rows_bits(2) [OF assms(1,2)] by (simp add: map_of_eq_Some_iff)
  then have "f = repaired s p l" using repair_rows_bits(1) [OF assms(1,2), of p l] by (simp add: row_bits_def)
  moreover have "repaired s p l \<subseteq> (\<lambda>r. pack (k_concept r) (k_entity r)) ` set (entity_links s) \<union>
      \<Union> (snd ` set (disk s))"
    by (auto simp: repaired_def link_bits_def link_bit_def disk_value_def image_iff
        split: option.splits if_splits dest: map_of_SomeD)
  moreover have "finite \<dots>" using assms(1) by (auto simp: finite_frags_def)
  ultimately show ?thesis using kf finite_subset by fastforce
qed

lemma repair_state:
  "snd (repair_fragments False [] s0) =
     (let s = flush_fragments s0 in
      if changed_keys (disk s) (repair_rows s) \<noteq> [] then clear_caches (write_all_rows (repair_rows s) s) else s)"
  by (simp add: repair_fragments_def repair_rows_def remap_rows_def Let_def)

lemma repair_frame [simp]:
  "entities (snd (repair_fragments False [] s)) = entities s"
  "concepts (snd (repair_fragments False [] s)) = concepts s"
  "linkage_types (snd (repair_fragments False [] s)) = linkage_types s"
  "entity_links (snd (repair_fragments False [] s)) = entity_links s"
  "partitions (snd (repair_fragments False [] s)) = partitions s"
  "bound (snd (repair_fragments False [] s)) = bound s"
  "next_pid (snd (repair_fragments False [] s)) = next_pid s"
  "dirty (snd (repair_fragments False [] s)) = []"
  by (simp_all add: repair_state Let_def clear_caches_def write_all_rows_def)

lemma repair_disk:
  assumes "finite_frags s0" "distinct_disk s0"
  shows "disk_value p l (snd (repair_fragments False [] s0)) = repaired (flush_fragments s0) p l"
    "finite_frags (snd (repair_fragments False [] s0))" "distinct_disk (snd (repair_fragments False [] s0))"
proof -
  let ?s = "flush_fragments s0"
  have ok: "finite_frags ?s" "distinct_disk ?s" using assms by (simp_all add: flush_props)
  let ?w = "clear_caches (write_all_rows (repair_rows ?s) ?s)"
  have w: "disk_value p l ?w = repaired ?s p l"
    using repair_rows_bits [OF ok] row_bits_sorted [of "repair_rows ?s"]
    by (simp add: disk_value_row_bits write_all_rows_def clear_caches_def)
  show "disk_value p l (snd (repair_fragments False [] s0)) = repaired ?s p l"
    using w repair_rows_bits(1) [OF ok, of p l]
    by (auto simp: repair_state Let_def changed_keys_iff disk_value_row_bits)
  have "finite_frags ?w"
    using repair_rows_finite [OF ok] by (simp add: finite_frags_def write_all_rows_def clear_caches_def)
  then show "finite_frags (snd (repair_fragments False [] s0))" using ok by (simp add: repair_state Let_def)
  have "distinct (map fst (sort_key fst (filter (\<lambda>kf. snd kf \<noteq> {}) (repair_rows ?s))))"
  proof -
    have "mset (map fst (sort_key fst (filter (\<lambda>kf. snd kf \<noteq> {}) (repair_rows ?s)))) =
        mset (map fst (filter (\<lambda>kf. snd kf \<noteq> {}) (repair_rows ?s)))" by (simp only: mset_map mset_sort)
    from mset_eq_imp_distinct_iff [OF this] show ?thesis
      using distinct_map_filter [OF repair_rows_bits(2) [OF ok]] by blast
  qed
  then have "distinct_disk ?w" by (simp add: distinct_disk_def write_all_rows_def clear_caches_def)
  then show "distinct_disk (snd (repair_fragments False [] s0))" using ok by (simp add: repair_state Let_def)
qed

lemma repaired_frag_value:
  assumes "wf_partitions s0" "frag_ok s0" "finite_frags s0" "distinct_disk s0" "b \<in> bindings s0"
  shows "frag_value b l (snd (repair_fragments False [] s0)) = repaired (flush_fragments s0) (fst b) l"
proof (cases "changed_keys (disk (flush_fragments s0)) (repair_rows (flush_fragments s0)) = []")
  case True
  then have "snd (repair_fragments False [] s0) = flush_fragments s0" by (simp add: repair_state Let_def)
  then show ?thesis
    using flush_lemma(1,2) [OF assms(1,2,5)] repair_disk(1) [OF assms(3,4), of "fst b" l] by simp
next
  case False
  then have "cache (snd (repair_fragments False [] s0)) = []" by (simp add: repair_state Let_def clear_caches_def)
  then show ?thesis using repair_disk(1) [OF assms(3,4), of "fst b" l] by (simp add: frag_value_def)
qed

text \<open>C6. \<open>repair_fragments\<close> leaves in the fragment of partition \<open>p\<close> and linkage \<open>l\<close> exactly the bits
  of the \<open>entity_links\<close> rows whose entity lives in \<open>p\<close> and, from whatever partition's fragment
  they were found in, the bits whose entity lives in \<open>p\<close> and whose concept still exists; and
  every bit it read is counted as kept, moved or dropped: none disappears silently.\<close>

theorem repair_fragments_correct:
  assumes "wf_partitions s" "frag_ok s" "finite_frags s" "distinct_disk s" "b \<in> bindings s"
  shows "frag_value b l (snd (repair_fragments False [] s)) =
      {v. \<exists>r\<in>set (entity_links s). link_bit s r = Some ((fst b, l), v)} \<union>
      {v. \<exists>b'\<in>bindings s. \<exists>l'. v \<in> frag_value b' l' s \<and> bit_home s l' v = Some (fst b, l)} \<and>
    (let rep = fst (repair_fragments False [] s) in
      rp_kept rep + rp_moved rep + rp_dead rep + rp_dead_concept rep =
      sum_list (map (\<lambda>kf. card (snd kf)) (disk (flush_fragments s))))"
proof
  let ?s = "flush_fragments s"
  have fs: "finite_frags ?s" "distinct_disk ?s" using assms by (simp_all add: flush_props)
  have home: "bit_home ?s = bit_home s" by (rule home_cong) simp_all
  have lb: "link_bits ?s = link_bits s" by (rule link_bits_cong) simp_all
  have dv: "(\<exists>p' l'. v \<in> disk_value p' l' ?s \<and> P l') \<longleftrightarrow> (\<exists>b'\<in>bindings s. \<exists>l'. v \<in> frag_value b' l' s \<and> P l')" for v P
  proof
    assume "\<exists>p' l'. v \<in> disk_value p' l' ?s \<and> P l'"
    then obtain p' l' where v: "v \<in> disk_value p' l' ?s" "P l'" by blast
    then have "p' \<in> p_id ` set (partitions s)"
      using frag_okD(4) [OF frag_ok_flush [OF assms(1,2)], of p' l'] by auto
    then obtain b' where "b' \<in> bindings s" "fst b' = p'" by (force simp: bindings_def)
    then show "\<exists>b'\<in>bindings s. \<exists>l'. v \<in> frag_value b' l' s \<and> P l'"
      using v flush_lemma(2) [OF assms(1,2)] by metis
  next
    assume "\<exists>b'\<in>bindings s. \<exists>l'. v \<in> frag_value b' l' s \<and> P l'"
    then show "\<exists>p' l'. v \<in> disk_value p' l' ?s \<and> P l'"
      using flush_lemma(2) [OF assms(1,2)] by metis
  qed
  show "frag_value b l (snd (repair_fragments False [] s)) =
      {v. \<exists>r\<in>set (entity_links s). link_bit s r = Some ((fst b, l), v)} \<union>
      {v. \<exists>b'\<in>bindings s. \<exists>l'. v \<in> frag_value b' l' s \<and> bit_home s l' v = Some (fst b, l)}"
    unfolding repaired_frag_value [OF assms] repaired_def home lb dv link_bits_def by simp
  have fin: "\<forall>kf\<in>set (disk ?s). finite (snd kf)" using fs by (simp add: finite_frags_def)
  show "let rep = fst (repair_fragments False [] s) in
      rp_kept rep + rp_moved rep + rp_dead rep + rp_dead_concept rep =
      sum_list (map (\<lambda>kf. card (snd kf)) (disk ?s))"
    using classify_rows_props(4) [OF scan_links_distinct fin, of ?s]
    by (simp add: repair_fragments_def remap_rows_def Let_def acc_total_def)
qed

text \<open>A store whose only persisted bit belongs to an entity that is gone.\<close>

definition dead_bit_store :: store where
  "dead_bit_store = (open_store ''a'')\<lparr>disk := [((1, ''mentions''), {pack 5 9})]\<rparr>"

lemma dead_bit_store_ok:
  "wf_partitions dead_bit_store" "frag_ok dead_bit_store" "finite_frags dead_bit_store"
  "distinct_disk dead_bit_store" "(1, ''a'') \<in> bindings dead_bit_store"
proof -
  have p: "partitions dead_bit_store = [\<lparr>p_id = 1, p_name = ''a'', p_kind = ''repo''\<rparr>]"
    by (simp add: dead_bit_store_def open_store_def ensure_partition_def insert_partition_def
        partition_id_of_def fresh_store_def)
  show "wf_partitions dead_bit_store"
    using open_store_frag_ok(1) [of "''a''"]
    by (simp add: wf_partitions_def dead_bit_store_def partition_id_of_def)
  show "frag_ok dead_bit_store"
    by (rule frag_okI)
      (simp_all add: p, simp_all add: dead_bit_store_def disk_value_def split: if_splits option.splits)
  show "finite_frags dead_bit_store" "distinct_disk dead_bit_store"
    by (simp_all add: dead_bit_store_def finite_frags_def distinct_disk_def)
  show "(1, ''a'') \<in> bindings dead_bit_store" by (simp add: bindings_def p)
qed

theorem repair_fragments_correct_witness:
  "frag_value (1, ''a'') ''mentions'' (snd (repair_fragments False [] dead_bit_store)) = {}"
  using repair_fragments_correct [OF dead_bit_store_ok, of "''mentions''"]
  by (simp add: bit_home_def live_bit_def ent_part_def link_bit_def dead_bit_store_def)

section \<open>A repaired store needs no repair\<close>

lemma classify_home_fold:
  "\<forall>b\<in>set bs. bit_home s (snd key) b = Some key \<Longrightarrow>
     (\<lambda>a. (ra_moved a, ra_dead a, ra_dead_concept a, ra_dropped a)) (fold (classify_bit s key) bs a) =
     (ra_moved a, ra_dead a, ra_dead_concept a, ra_dropped a)"
proof (induction bs arbitrary: a)
  case (Cons b bs)
  then have "bit_home s (snd key) b = Some key" by simp
  then have "(ra_moved (classify_bit s key b a), ra_dead (classify_bit s key b a),
      ra_dead_concept (classify_bit s key b a), ra_dropped (classify_bit s key b a)) =
      (ra_moved a, ra_dead a, ra_dead_concept a, ra_dropped a)"
    by (cases key) (auto simp: classify_bit_def bit_home_def live_bit_def split: option.splits if_splits)
  with Cons show ?case by simp
qed simp

lemma classify_home_rows:
  "\<forall>(key, f)\<in>set old. finite f \<and> (\<forall>b\<in>f. bit_home s (snd key) b = Some key) \<Longrightarrow>
     (\<lambda>a. (ra_moved a, ra_dead a, ra_dead_concept a, ra_dropped a)) (fold (classify_row s) old a) =
     (ra_moved a, ra_dead a, ra_dead_concept a, ra_dropped a)"
proof (induction old arbitrary: a)
  case (Cons kf old)
  obtain key f where kf: "kf = (key, f)" by (cases kf)
  have "(\<lambda>a. (ra_moved a, ra_dead a, ra_dead_concept a, ra_dropped a)) (classify_row s kf a) =
      (ra_moved a, ra_dead a, ra_dead_concept a, ra_dropped a)"
    unfolding classify_row_def kf using Cons.prems kf by (intro classify_home_fold) simp
  with Cons show ?case by simp
qed simp

lemma ent_part_mem: "ent_part s i = Some p \<Longrightarrow> \<exists>e\<in>set (entities s). e_id e = i \<and> e_pid e = p"
  by (auto simp: ent_part_def dest!: map_of_SomeD)

lemma linkage_name_canonical: "linkage_name s i = Some l \<Longrightarrow> canonical_verb l = l"
  by (auto simp: linkage_name_def dest!: map_of_SomeD)

lemma repaired_home:
  assumes "\<forall>e\<in>set (entities s). e_id e < 2 ^ 32" "v \<in> repaired s p l"
  shows "bit_home s l v = Some (p, l)"
proof -
  consider r where "link_bit s r = Some ((p, l), v)" | l' where "bit_home s l' v = Some (p, l)"
    using assms(2) by (auto simp: repaired_def link_bits_def)
  then show ?thesis
  proof cases
    case (1 r)
    then have "k_entity r < 2 ^ 32"
      using assms(1) by (auto simp: link_bit_def dest!: ent_part_mem split: option.splits if_splits)
    with 1 show ?thesis
      by (auto simp: link_bit_def bit_home_def live_bit_def linkage_name_canonical split: option.splits if_splits)
  qed (auto simp: bit_home_def split: if_splits)
qed

lemma no_dirty_flush: "dirty s = [] \<Longrightarrow> flush_fragments s = s"
  by (cases s) (simp add: flush_fragments_def)

text \<open>Repairing a repaired store changes nothing: no row changes, no bit moves and none is
  dropped.\<close>

theorem repair_fragments_idempotent:
  assumes "finite_frags s" "distinct_disk s" "\<forall>e\<in>set (entities s). e_id e < 2 ^ 32"
  shows "let s1 = snd (repair_fragments False [] s); rep = fst (repair_fragments False [] s1) in
    snd (repair_fragments False [] s1) = s1 \<and> rp_rows_changed rep = 0 \<and> rp_moved rep = 0 \<and>
    rp_dead rep = 0 \<and> rp_dead_concept rep = 0 \<and> rp_dropped rep = []"
proof -
  let ?s = "flush_fragments s" and ?s1 = "snd (repair_fragments False [] s)"
  have s1: "flush_fragments ?s1 = ?s1" by (rule no_dirty_flush) simp
  have ok: "finite_frags ?s1" "distinct_disk ?s1" using repair_disk(2,3) [OF assms(1,2)] by simp_all
  have home: "bit_home ?s1 = bit_home ?s" by (rule home_cong) simp_all
  have lb: "link_bits ?s1 = link_bits ?s" by (rule link_bits_cong) simp_all
  have dv: "disk_value p l ?s1 = repaired ?s p l" for p l by (rule repair_disk [OF assms(1,2)])
  have hm: "bit_home ?s l v = Some (p, l)" if "v \<in> repaired ?s p l" for p l v
    using that assms(3) by (intro repaired_home) simp_all
  have "repaired ?s1 p l = repaired ?s p l" for p l
  proof -
    have "repaired ?s1 p l = link_bits ?s (p, l) \<union>
        {v. \<exists>p' l'. v \<in> repaired ?s p' l' \<and> bit_home ?s l' v = Some (p, l)}"
      by (simp only: repaired_def [of ?s1] home lb dv)
    also have "\<dots> = repaired ?s p l"
    proof (intro equalityI subsetI)
      fix v assume "v \<in> link_bits ?s (p, l) \<union> {v. \<exists>p' l'. v \<in> repaired ?s p' l' \<and> bit_home ?s l' v = Some (p, l)}"
      then show "v \<in> repaired ?s p l" using hm by (auto simp: repaired_def [of ?s p l])
    next
      fix v assume "v \<in> repaired ?s p l"
      then show "v \<in> link_bits ?s (p, l) \<union> {v. \<exists>p' l'. v \<in> repaired ?s p' l' \<and> bit_home ?s l' v = Some (p, l)}"
        using hm by blast
    qed
    finally show ?thesis .
  qed
  then have ch: "changed_keys (disk ?s1) (repair_rows ?s1) = []"
    using repair_rows_bits(1) [OF ok] dv by (auto simp: changed_keys_iff disk_value_row_bits [symmetric])
  have "finite f \<and> (\<forall>b\<in>f. bit_home ?s1 (snd key) b = Some key)" if "(key, f) \<in> set (disk ?s1)" for key f
  proof -
    obtain p l where key: "key = (p, l)" by (cases key)
    have "f = disk_value p l ?s1"
      using that ok(2) by (simp add: key disk_value_def distinct_disk_def map_of_eq_Some_iff [THEN iffD2])
    then show ?thesis using that ok(1) hm by (auto simp: key dv home finite_frags_def)
  qed
  then have "(\<lambda>a. (ra_moved a, ra_dead a, ra_dead_concept a, ra_dropped a))
      (classify_rows ?s1 (disk ?s1) (ls_new (scan_links ?s1))) = (0, 0, 0, [])"
    unfolding classify_rows_def by (subst classify_home_rows) auto
  with ch s1 show ?thesis
    by (simp add: repair_fragments_def [of False "[]" ?s1] remap_rows_def Let_def repair_rows_def)
qed

theorem repair_fragments_idempotent_witness:
  "rp_rows_changed (fst (repair_fragments False [] (snd (repair_fragments False [] dead_bit_store)))) = 0"
  using repair_fragments_idempotent [OF dead_bit_store_ok(3,4)]
  by (simp add: dead_bit_store_def Let_def)

section \<open>Folding a legacy verb into its canonical twin\<close>

text \<open>A legacy fragment is read and dropped by its raw name, which \<open>load_fragment\<close> cannot reach.\<close>

definition drop_raw :: "string \<Rightarrow> store \<Rightarrow> store" where
  "drop_raw l s = s\<lparr>disk := AList.delete (fst (bound s), l) (disk s),
                    cache := AList.delete (bound s, l) (cache s)\<rparr>"

definition merge_fragment_here :: "string \<Rightarrow> string \<Rightarrow> store \<Rightarrow> bool \<times> store" where
  "merge_fragment_here legacy canon s =
     (let bits = disk_value (fst (bound s)) legacy s in
      if bits = {} then (False, drop_raw legacy s)
      else (True, drop_raw legacy (flush_fragments
              (mark_dirty (canonical_verb canon) (mutate_fragment canon (\<lambda>f. f \<union> bits) s)))))"

definition merge_fragment_step :: "string \<Rightarrow> string \<Rightarrow> string \<Rightarrow> nat \<times> store \<Rightarrow> nat \<times> store" where
  "merge_fragment_step legacy canon n ks =
     (case with_partition n (merge_fragment_here legacy canon) (snd ks) of
        (held, s') \<Rightarrow> (if held then Suc (fst ks) else fst ks, s'))"

definition merge_fragment_all :: "string \<Rightarrow> string \<Rightarrow> store \<Rightarrow> nat \<times> store" where
  "merge_fragment_all legacy canon s =
     fold (merge_fragment_step legacy canon) (map p_name (partitions s)) (0, s)"

definition repoint_rows :: "nat \<Rightarrow> nat \<Rightarrow> link_row list \<Rightarrow> link_row list" where
  "repoint_rows legacy_id canon_id rows =
     filter (\<lambda>r. k_linkage r \<noteq> legacy_id)
       (rows @ map (\<lambda>r. r\<lparr>k_linkage := canon_id\<rparr>)
          (filter (\<lambda>r. k_linkage r = legacy_id \<and>
             \<not> (\<exists>c\<in>set rows. k_entity c = k_entity r \<and> k_linkage c = canon_id \<and> k_concept c = k_concept r)) rows))"

record merge_report =
  mr_merged :: bool
  mr_edges :: nat
  mr_evidence :: nat
  mr_fragments :: nat

definition merge_verb_alias :: "time \<Rightarrow> string \<Rightarrow> string \<Rightarrow> store \<Rightarrow> merge_report \<times> store" where
  "merge_verb_alias now legacy canon s =
     (case find (\<lambda>r. l_name r = legacy) (linkage_types s) of
        None \<Rightarrow> (\<lparr>mr_merged = False, mr_edges = 0, mr_evidence = 0, mr_fragments = 0\<rparr>, s)
      | Some row \<Rightarrow>
          let legacy_id = l_id row;
              (canon_id, s1) =
                (case lk_find canon s of
                   Some i \<Rightarrow> (i, s)
                 | None \<Rightarrow> add_linkage_type now canon (l_directed row) None s);
              s2 = s1\<lparr>entity_links := repoint_rows legacy_id canon_id (entity_links s1),
                      linkage_evidence := map (\<lambda>v. if v_linkage v = legacy_id then v\<lparr>v_linkage := canon_id\<rparr> else v)
                        (linkage_evidence s1)\<rparr>;
              (n, s3) = merge_fragment_all legacy canon s2
          in (\<lparr>mr_merged = True,
               mr_edges = length (filter (\<lambda>r. k_linkage r = legacy_id) (entity_links s1)),
               mr_evidence = length (filter (\<lambda>v. v_linkage v = legacy_id) (linkage_evidence s1)),
               mr_fragments = n\<rparr>,
              s3\<lparr>linkage_types := filter (\<lambda>r. l_id r \<noteq> legacy_id) (linkage_types s3)\<rparr>))"

lemma disk_value_drop:
  "disk_value p k (drop_raw l s) = (if p = fst (bound s) \<and> k = l then {} else disk_value p k s)"
  by (simp add: disk_value_def drop_raw_def AList.delete_conv')

lemma drop_raw_simps [simp]:
  "cache (drop_raw l s) = AList.delete (bound s, l) (cache s)" "dirty (drop_raw l s) = dirty s"
  "partitions (drop_raw l s) = partitions s" "bound (drop_raw l s) = bound s"
  "next_pid (drop_raw l s) = next_pid s" "entity_links (drop_raw l s) = entity_links s"
  "linkage_types (drop_raw l s) = linkage_types s" "entities (drop_raw l s) = entities s"
  "bindings (drop_raw l s) = bindings s"
  by (simp_all add: drop_raw_def bindings_def)

lemma frag_value_drop:
  assumes "fst b = fst (bound s) \<longrightarrow> b = bound s"
  shows "frag_value b k (drop_raw l s) = (if b = bound s \<and> k = l then {} else frag_value b k s)"
  using assms
  by (auto simp: frag_value_def disk_value_drop drop_raw_simps AList.delete_conv' split: option.split)

lemma frag_ok_drop:
  assumes "wf_partitions s" "frag_ok s"
  shows "frag_ok (drop_raw l s)"
proof (rule frag_okI)
  fix b k f assume "map_of (cache (drop_raw l s)) (b, k) = Some f"
  then have m: "map_of (cache s) (b, k) = Some f" "(b, k) \<noteq> (bound s, l)"
    by (auto simp: AList.delete_conv' split: if_splits)
  then have b: "b \<in> bindings s" using frag_okD(1) [OF assms(2)] by blast
  then show "b \<in> bindings (drop_raw l s)" by simp
  assume "\<not> (\<exists>r. (b, r) \<in> set (dirty (drop_raw l s)) \<and> canonical_verb r = k)"
  then have f: "f = disk_value (fst b) k s" using frag_okD(3) [OF assms(2) m(1)] by simp
  have "\<not> (fst b = fst (bound s) \<and> k = l)"
    using m(2) bindings_inj [OF assms(1) b bound_in_bindings [OF assms(1)]] by auto
  then show "f = disk_value (fst b) k (drop_raw l s)" using f by (auto simp: disk_value_drop)
next
  fix b r assume "(b, r) \<in> set (dirty (drop_raw l s))"
  then show "b \<in> bindings (drop_raw l s)"
    using frag_okD(2) [OF assms(2), of b r] by simp
next
  fix pid k assume "disk_value pid k (drop_raw l s) \<noteq> {}"
  then show "pid \<in> p_id ` set (partitions (drop_raw l s))"
    using frag_okD(4) [OF assms(2), of pid k] by (simp add: disk_value_drop split: if_splits)
qed

lemma flush_legacy_disk: "canonical_verb l \<noteq> l \<Longrightarrow> disk_value p l (flush_fragments s) = disk_value p l s"
proof -
  assume l: "canonical_verb l \<noteq> l"
  have "disk_value p l (fold flush_entry D s) = disk_value p l s" for D
  proof (induction D arbitrary: s)
    case (Cons e D)
    have "l \<noteq> canonical_verb (snd e)" using l canonical_verb_idem by metis
    then have "disk_value p l (flush_entry e s) = disk_value p l s"
      using flush_entry_disk [of p l "fst e" "snd e" s] by simp
    with Cons.IH show ?case by simp
  qed simp
  then show ?thesis by (simp add: flush_fragments_def)
qed

lemma merge_fragment_here_ok:
  assumes "frag_inv s" "canonical_verb canon = canon" "canonical_verb legacy \<noteq> legacy"
  defines "s' \<equiv> snd (merge_fragment_here legacy canon s)"
  shows "frag_inv s'" "partitions s' = partitions s" "bound s' = bound s"
    "disk_value p legacy s' = (if p = fst (bound s) then {} else disk_value p legacy s)"
    "b \<in> bindings s \<Longrightarrow> frag_value b k s' =
       (if b \<noteq> bound s then frag_value b k s
        else if k = legacy then {}
        else if k = canon then frag_value b k s \<union> disk_value (fst b) legacy s
        else frag_value b k s)"
proof -
  have wf: "wf_partitions s" and ok: "frag_ok s" using assms(1) by (simp_all add: frag_inv_def)
  let ?bits = "disk_value (fst (bound s)) legacy s"
  let ?m = "mark_dirty canon (mutate_fragment canon (\<lambda>f. f \<union> ?bits) s)"
  let ?t = "if ?bits = {} then s else flush_fragments ?m"
  have s': "s' = drop_raw legacy ?t"
    using assms(2) by (simp add: s'_def merge_fragment_here_def Let_def)
  have t: "partitions ?t = partitions s" "bound ?t = bound s" "bindings ?t = bindings s" by simp_all
  have wfm: "wf_partitions ?m" using wf by (simp add: wf_partitions_def partition_id_of_def)
  have okm: "frag_ok ?m" using frag_ok_change [OF wf ok] by simp
  have okt: "frag_ok ?t" using ok frag_ok_flush [OF wfm okm] by simp
  have wft: "wf_partitions ?t" using wf wfm by (simp add: wf_partitions_def partition_id_of_def)
  have "wf_partitions (drop_raw legacy ?t)"
    using wft by (simp add: wf_partitions_def partition_id_of_def)
  then show "frag_inv s'" using frag_ok_drop [OF wft okt] by (simp add: s' frag_inv_def)
  show "partitions s' = partitions s" "bound s' = bound s" by (simp_all add: s')
  have dt: "disk_value p legacy ?t = disk_value p legacy s"
    using flush_legacy_disk [OF assms(3), of p ?m] by (simp add: disk_value_def)
  then show "disk_value p legacy s' = (if p = fst (bound s) then {} else disk_value p legacy s)"
    by (simp add: s' disk_value_drop t)
  assume b: "b \<in> bindings s"
  have ft: "frag_value b k ?t = (if b = bound s \<and> k = canon then frag_value b k s \<union> ?bits else frag_value b k s)"
  proof (cases "?bits = {}")
    case False
    then show ?thesis
      using flush_lemma(1) [OF wfm okm, of b k] b by (simp add: frag_value_mutate assms(2))
  qed simp
  have inj: "fst b = fst (bound ?t) \<longrightarrow> b = bound ?t"
    using bindings_inj [OF wf b bound_in_bindings [OF wf]] t by simp
  have ne: "canon \<noteq> legacy" using assms(2,3) by auto
  show "frag_value b k s' =
       (if b \<noteq> bound s then frag_value b k s
        else if k = legacy then {}
        else if k = canon then frag_value b k s \<union> disk_value (fst b) legacy s
        else frag_value b k s)"
    unfolding s' frag_value_drop [OF inj] ft using t ne by auto
qed

lemma with_known_partition:
  assumes "wf_partitions s" "(pid, n) \<in> bindings s"
  shows "enter_partition n s = s\<lparr>bound := (pid, n)\<rparr>"
proof -
  obtain p where p: "p \<in> set (partitions s)" "p_name p = n" "p_id p = pid"
    using assms(2) by (auto simp: bindings_def)
  have "distinct (map p_name (partitions s))" using assms(1) by (simp add: wf_partitions_def)
  then have "find (\<lambda>x. p_name x = n) (partitions s) = Some p"
    using find_key_unique [of p_name "partitions s" p] p by simp
  then have pid: "partition_id_of n s = Some pid" using p by (simp add: partition_id_of_def)
  have mem: "n \<in> p_name ` set (partitions s)" using p by blast
  show ?thesis
  proof (cases "n = snd (bound s)")
    case True
    then have "bound s = (pid, n)" using pid assms(1) by (simp add: wf_partitions_def prod_eq_iff)
    then show ?thesis by (cases s) (simp add: enter_partition_def)
  next
    case False
    then show ?thesis using pid mem by (simp add: enter_partition_def insert_partition_def)
  qed
qed

lemma frag_inv_bound:
  assumes "frag_inv s" "b \<in> bindings s"
  shows "frag_inv (s\<lparr>bound := b\<rparr>)"
proof -
  have wf: "wf_partitions s" using assms(1) by (simp add: frag_inv_def)
  obtain p where p: "p \<in> set (partitions s)" "b = (p_id p, p_name p)" using assms(2) by (auto simp: bindings_def)
  have "find (\<lambda>x. p_name x = p_name p) (partitions s) = Some p"
    using find_key_unique [of p_name "partitions s" p] p wf by (simp add: wf_partitions_def)
  then have "wf_partitions (s\<lparr>bound := b\<rparr>)" using wf p by (simp add: wf_partitions_def partition_id_of_def)
  moreover have "frag_ok (s\<lparr>bound := b\<rparr>)" using assms(1) by (simp add: frag_inv_def frag_ok_def disk_value_def)
  ultimately show ?thesis by (simp add: frag_inv_def)
qed

lemma value_bound [simp]:
  "frag_value b k (s\<lparr>bound := x\<rparr>) = frag_value b k s" "disk_value p k (s\<lparr>bound := x\<rparr>) = disk_value p k s"
  by (simp_all add: frag_value_def disk_value_def split: option.split)

lemma merge_fragment_with:
  assumes "frag_inv s" "canonical_verb canon = canon" "canonical_verb legacy \<noteq> legacy" "(pid, n) \<in> bindings s"
  defines "s' \<equiv> snd (with_partition n (merge_fragment_here legacy canon) s)"
  shows "frag_inv s'" "partitions s' = partitions s" "bound s' = bound s"
    "disk_value p legacy s' = (if p = pid then {} else disk_value p legacy s)"
    "b \<in> bindings s \<Longrightarrow> frag_value b k s' =
       (if b \<noteq> (pid, n) then frag_value b k s
        else if k = legacy then {}
        else if k = canon then frag_value b k s \<union> disk_value (fst b) legacy s
        else frag_value b k s)"
proof -
  have wf: "wf_partitions s" using assms(1) by (simp add: frag_inv_def)
  let ?t = "s\<lparr>bound := (pid, n)\<rparr>"
  have t: "frag_inv ?t" using assms(1,4) by (rule frag_inv_bound)
  let ?m = "snd (merge_fragment_here legacy canon ?t)"
  note m = merge_fragment_here_ok [OF t assms(2,3)]
  have s': "s' = ?m\<lparr>bound := bound s\<rparr>"
    by (simp add: s'_def with_partition_def with_known_partition [OF wf assms(4)] split_beta)
  have "bound s \<in> bindings ?m" using bound_in_bindings [OF wf] m(2) by (simp add: bindings_def)
  then show "frag_inv s'" unfolding s' using m(1) by (intro frag_inv_bound)
  show "partitions s' = partitions s" "bound s' = bound s" using m(2) by (simp_all add: s')
  show "disk_value p legacy s' = (if p = pid then {} else disk_value p legacy s)"
    using m(4) [of p] by (simp add: s')
  assume "b \<in> bindings s"
  then show "frag_value b k s' =
       (if b \<noteq> (pid, n) then frag_value b k s
        else if k = legacy then {}
        else if k = canon then frag_value b k s \<union> disk_value (fst b) legacy s
        else frag_value b k s)"
    using m(5) [of b k] by (simp add: s')
qed

lemma merge_fold:
  assumes "frag_inv s" "canonical_verb canon = canon" "canonical_verb legacy \<noteq> legacy"
    "set ns \<subseteq> p_name ` set (partitions s)" "distinct ns"
  shows "let s' = snd (fold (merge_fragment_step legacy canon) ns (c, s)) in
    frag_inv s' \<and> partitions s' = partitions s \<and> bound s' = bound s \<and>
    (\<forall>b\<in>bindings s. disk_value (fst b) legacy s' = (if snd b \<in> set ns then {} else disk_value (fst b) legacy s) \<and>
      (\<forall>k. frag_value b k s' =
       (if snd b \<notin> set ns then frag_value b k s
        else if k = legacy then {}
        else if k = canon then frag_value b k s \<union> disk_value (fst b) legacy s
        else frag_value b k s)))"
  using assms(1,4,5)
proof (induction ns arbitrary: s c)
  case (Cons n ns)
  have wf: "wf_partitions s" using Cons.prems(1) by (simp add: frag_inv_def)
  obtain pid where b0: "(pid, n) \<in> bindings s" using Cons.prems(2) by (auto simp: bindings_def)
  let ?w = "with_partition n (merge_fragment_here legacy canon) s" and ?s1 = "snd (with_partition n (merge_fragment_here legacy canon) s)"
  note m = merge_fragment_with [OF Cons.prems(1) assms(2,3) b0]
  have bs: "bindings ?s1 = bindings s" using m(2) by (simp add: bindings_def)
  have sub: "set ns \<subseteq> p_name ` set (partitions ?s1)" "distinct ns" "n \<notin> set ns"
    using Cons.prems m(2) by auto
  note ih = Cons.IH [OF m(1) sub(1,2), of "if fst ?w then Suc c else c", unfolded Let_def bs]
  have uniq: "(fst b = pid) = (snd b = n)" "(b = (pid, n)) = (snd b = n)" if "b \<in> bindings s" for b
  proof -
    have "snd b = n \<Longrightarrow> b = (pid, n)"
      using that b0 wf by (auto simp: bindings_def wf_partitions_def distinct_map dest: inj_onD)
    moreover have "fst b = pid \<Longrightarrow> b = (pid, n)" using bindings_inj [OF wf that b0] by simp
    ultimately show "(fst b = pid) = (snd b = n)" "(b = (pid, n)) = (snd b = n)"
      by (metis fst_conv snd_conv)+
  qed
  have step: "fold (merge_fragment_step legacy canon) (n # ns) (c, s) =
      fold (merge_fragment_step legacy canon) ns (if fst ?w then Suc c else c, ?s1)"
    by (simp add: merge_fragment_step_def split_beta)
  show ?case
    unfolding step Let_def
    by (intro conjI ballI allI)
      (use ih m(2,3) in \<open>simp_all add: m(4) m(5) uniq sub(3)\<close>)
qed simp

lemma repoint_ex:
  assumes "cid \<noteq> lid"
  shows "(\<exists>r\<in>set (repoint_rows lid cid rows). k_entity r = e \<and> k_linkage r = cid \<and> k_concept r = c) \<longleftrightarrow>
    (\<exists>r\<in>set rows. k_entity r = e \<and> k_concept r = c \<and> (k_linkage r = cid \<or> k_linkage r = lid))"
proof
  assume "\<exists>r\<in>set rows. k_entity r = e \<and> k_concept r = c \<and> (k_linkage r = cid \<or> k_linkage r = lid)"
  then obtain r where r: "r \<in> set rows" "k_entity r = e" "k_concept r = c" "k_linkage r = cid \<or> k_linkage r = lid"
    by blast
  show "\<exists>r\<in>set (repoint_rows lid cid rows). k_entity r = e \<and> k_linkage r = cid \<and> k_concept r = c"
  proof (cases "\<exists>c'\<in>set rows. k_entity c' = e \<and> k_linkage c' = cid \<and> k_concept c' = c")
    case True
    then show ?thesis using assms by (auto simp: repoint_rows_def)
  next
    case False
    then have "k_linkage r = lid" using r by auto
    with r False assms have "r\<lparr>k_linkage := cid\<rparr> \<in> set (repoint_rows lid cid rows)"
      by (auto simp: repoint_rows_def)
    with r show ?thesis by (intro bexI [of _ "r\<lparr>k_linkage := cid\<rparr>"]) simp_all
  qed
next
  assume "\<exists>r\<in>set (repoint_rows lid cid rows). k_entity r = e \<and> k_linkage r = cid \<and> k_concept r = c"
  then obtain r where r: "r \<in> set (repoint_rows lid cid rows)" "k_entity r = e" "k_linkage r = cid" "k_concept r = c"
    by blast
  then have "r \<in> set rows \<or> (\<exists>x\<in>set rows. k_linkage x = lid \<and> r = x\<lparr>k_linkage := cid\<rparr>)"
    by (auto simp: repoint_rows_def)
  then show "\<exists>r\<in>set rows. k_entity r = e \<and> k_concept r = c \<and> (k_linkage r = cid \<or> k_linkage r = lid)"
  proof
    assume "\<exists>x\<in>set rows. k_linkage x = lid \<and> r = x\<lparr>k_linkage := cid\<rparr>"
    then obtain x where x: "x \<in> set rows" "k_linkage x = lid" and rx: "r = x\<lparr>k_linkage := cid\<rparr>" by blast
    have "k_entity x = e" "k_concept x = c" using r(2,4) by (simp_all add: rx)
    with x show ?thesis by blast
  qed (use r in blast)
qed

lemma repoint_other:
  "filter (\<lambda>r. k_linkage r \<noteq> cid \<and> k_linkage r \<noteq> lid) (repoint_rows lid cid rows) =
     filter (\<lambda>r. k_linkage r \<noteq> cid \<and> k_linkage r \<noteq> lid) rows"
  by (simp add: repoint_rows_def filter_empty_conv conj_commute cong: conj_cong)

lemma repoint_keys:
  assumes "distinct (map (\<lambda>r. (k_entity r, k_linkage r, k_concept r)) rows)"
  shows "distinct (map (\<lambda>r. (k_entity r, k_linkage r, k_concept r)) (repoint_rows lid cid rows))"
proof -
  let ?k = "\<lambda>r. (k_entity r, k_linkage r, k_concept r)"
  let ?new = "filter (\<lambda>r. k_linkage r = lid \<and>
             \<not> (\<exists>c\<in>set rows. k_entity c = k_entity r \<and> k_linkage c = cid \<and> k_concept c = k_concept r)) rows"
  have "distinct (map ?k ?new)" using assms by (rule distinct_map_filter)
  then have "distinct (map ?k (map (\<lambda>r. r\<lparr>k_linkage := cid\<rparr>) ?new))"
    by (auto simp: distinct_map inj_on_def)
  moreover have "set (map ?k rows) \<inter> set (map ?k (map (\<lambda>r. r\<lparr>k_linkage := cid\<rparr>) ?new)) = {}" by auto
  ultimately have "distinct (map ?k (rows @ map (\<lambda>r. r\<lparr>k_linkage := cid\<rparr>) ?new))"
    using assms by (simp only: map_append distinct_append)
  then show ?thesis unfolding repoint_rows_def by (rule distinct_map_filter)
qed

lemma add_linkage_frag [simp]:
  "frag_value b k (snd (add_linkage_type now raw d descr s)) = frag_value b k s"
  "disk_value p k (snd (add_linkage_type now raw d descr s)) = disk_value p k s"
  "bindings (snd (add_linkage_type now raw d descr s)) = bindings s"
  by (simp_all add: frag_value_def disk_value_def bindings_def split: option.split)

lemma frag_inv_cong:
  assumes "partitions s = partitions t" "bound s = bound t" "next_pid s = next_pid t"
    "cache s = cache t" "dirty s = dirty t" "disk s = disk t"
  shows "frag_inv s = frag_inv t"
proof -
  have "disk_value p l s = disk_value p l t" for p l using assms(6) by (simp add: disk_value_def)
  moreover have "bindings s = bindings t" using assms(1) by (simp add: bindings_def)
  ultimately show ?thesis
    using assms by (simp add: frag_inv_def frag_ok_def wf_partitions_def partition_id_of_def)
qed

lemma add_linkage_frag_inv [simp]: "frag_inv (snd (add_linkage_type now raw d descr s)) = frag_inv s"
  by (rule frag_inv_cong) simp_all

lemma merge_all_frame:
  "entity_links (snd (merge_fragment_all legacy canon s)) = entity_links s \<and>
   linkage_types (snd (merge_fragment_all legacy canon s)) = linkage_types s \<and>
   linkage_evidence (snd (merge_fragment_all legacy canon s)) = linkage_evidence s"
proof -
  have ev: "linkage_evidence (snd (load_fragment l s)) = linkage_evidence s"
    "linkage_evidence (mutate_fragment l g s) = linkage_evidence s"
    "linkage_evidence (mark_dirty l s) = linkage_evidence s"
    "linkage_evidence (flush_entry e s) = linkage_evidence s"
    "linkage_evidence (drop_raw l s) = linkage_evidence s"
    "linkage_evidence (enter_partition l s) = linkage_evidence s"
    "entity_links (enter_partition l s) = entity_links s"
    "linkage_types (enter_partition l s) = linkage_types s" for l g e s
    by (simp_all add: mutate_fragment_def mark_dirty_def load_fragment_def flush_entry_def Let_def split_beta
        drop_raw_def enter_partition_def insert_partition_def split: option.split)
  have fl: "linkage_evidence (flush_fragments s) = linkage_evidence s" for s
  proof -
    have "linkage_evidence (fold flush_entry D s) = linkage_evidence s" for D
      by (induction D arbitrary: s) (simp_all add: ev)
    then show ?thesis by (simp add: flush_fragments_def)
  qed
  have "entity_links (snd (fold (merge_fragment_step legacy canon) ns (c, s))) = entity_links s \<and>
     linkage_types (snd (fold (merge_fragment_step legacy canon) ns (c, s))) = linkage_types s \<and>
     linkage_evidence (snd (fold (merge_fragment_step legacy canon) ns (c, s))) = linkage_evidence s" for ns c s
  proof (induction ns arbitrary: c s)
    case (Cons n ns)
    obtain c' s' where st: "merge_fragment_step legacy canon n (c, s) = (c', s')" by force
    then have "entity_links s' = entity_links s" "linkage_types s' = linkage_types s"
      "linkage_evidence s' = linkage_evidence s"
      by (auto simp: merge_fragment_step_def with_partition_def merge_fragment_here_def Let_def ev fl
          split: prod.splits if_splits)
    then show ?case using Cons.IH [of c' s'] st by simp
  qed simp
  then show ?thesis by (simp add: merge_fragment_all_def)
qed

text \<open>C19. Folding a legacy verb into its canonical twin: every edge of either verb is an edge of the
  canonical one (once) and no other edge changes, no row or evidence names the legacy verb, the
  canonical fragment of every partition gains exactly that partition's legacy bits, and a second
  run finds nothing to merge.\<close>

theorem merge_verb_alias_correct:
  assumes "wf_partitions s" "frag_ok s" "canonical_verb canon = canon" "canonical_verb legacy \<noteq> legacy"
    "row \<in> set (linkage_types s)" "l_name row = legacy"
    "distinct (map l_id (linkage_types s))" "distinct (map l_name (linkage_types s))"
    "\<forall>r\<in>set (linkage_types s). l_id r < next_lid s"
    "distinct (map (\<lambda>r. (k_entity r, k_linkage r, k_concept r)) (entity_links s))"
  shows "let s' = snd (merge_verb_alias now legacy canon s) in
    (\<exists>cid. lk_find canon s' = Some cid \<and> cid \<noteq> l_id row \<and>
       (\<forall>e c. (\<exists>r\<in>set (entity_links s'). k_entity r = e \<and> k_linkage r = cid \<and> k_concept r = c) =
              (\<exists>r\<in>set (entity_links s). k_entity r = e \<and> k_concept r = c \<and>
                 (k_linkage r = cid \<or> k_linkage r = l_id row))) \<and>
       filter (\<lambda>r. k_linkage r \<noteq> cid \<and> k_linkage r \<noteq> l_id row) (entity_links s') =
         filter (\<lambda>r. k_linkage r \<noteq> cid \<and> k_linkage r \<noteq> l_id row) (entity_links s)) \<and>
    distinct (map (\<lambda>r. (k_entity r, k_linkage r, k_concept r)) (entity_links s')) \<and>
    (\<forall>r\<in>set (entity_links s'). k_linkage r \<noteq> l_id row) \<and>
    (\<forall>v\<in>set (linkage_evidence s'). v_linkage v \<noteq> l_id row) \<and>
    (\<forall>b\<in>bindings s. frag_value b legacy s' = {} \<and>
       frag_value b canon s' = frag_value b canon s \<union> disk_value (fst b) legacy s \<and>
       (\<forall>k. k \<noteq> legacy \<and> k \<noteq> canon \<longrightarrow> frag_value b k s' = frag_value b k s)) \<and>
    merge_verb_alias now2 legacy canon s' =
      (\<lparr>mr_merged = False, mr_edges = 0, mr_evidence = 0, mr_fragments = 0\<rparr>, s')"
proof -
  let ?lid = "l_id row" and ?lt = "linkage_types s"
  define cs where "cs = (case lk_find canon s of
      Some i \<Rightarrow> (i, s) | None \<Rightarrow> add_linkage_type now canon (l_directed row) None s)"
  let ?cid = "fst cs" and ?s1 = "snd cs"
  have ne: "canon \<noteq> legacy" using assms(3,4) by auto
  have s1: "entity_links ?s1 = entity_links s" "frag_inv ?s1 = frag_inv s" "bindings ?s1 = bindings s"
    "frag_value b k ?s1 = frag_value b k s" "disk_value p k ?s1 = disk_value p k s"
    for b k p
    by (auto simp: cs_def split: option.split intro!: frag_inv_cong)
  have lt1: "linkage_types ?s1 = ?lt \<or> (\<exists>d ds. linkage_types ?s1 = ?lt @ [\<lparr>l_id = next_lid s, l_name = canon,
        l_directed = d, l_description = ds\<rparr>] \<and> canon \<notin> l_name ` set ?lt)"
  proof (cases "lk_find canon s")
    case None
    then have "canon \<notin> l_name ` set ?lt" by (simp only: lk_find_None not_False_eq_True)
    with None show ?thesis by (simp add: cs_def add_linkage_type_def Let_def assms(3))
  qed (simp add: cs_def)
  have cid: "lk_find canon ?s1 = Some ?cid"
    by (auto simp: cs_def lk_find_add assms(3) split: option.split)
  have d1: "distinct (map l_id (linkage_types ?s1))" "distinct (map l_name (linkage_types ?s1))"
    "row \<in> set (linkage_types ?s1)"
  proof -
    have "next_lid s \<notin> l_id ` set ?lt" using assms(9) by fastforce
    then show "distinct (map l_id (linkage_types ?s1))" "distinct (map l_name (linkage_types ?s1))"
      "row \<in> set (linkage_types ?s1)"
      using lt1 assms(5,7,8) by auto
  qed
  obtain cr where cr: "cr \<in> set (linkage_types ?s1)" "l_name cr = canon" "l_id cr = ?cid"
    using lk_find_Some [OF cid] by blast
  have cl: "?cid \<noteq> ?lid"
    using d1 cr ne assms(6) by (metis (no_types, lifting) distinct_map inj_onD)
  have fnd: "find (\<lambda>r. l_name r = legacy) ?lt = Some row"
    using find_key_unique [of l_name ?lt row] assms(5,6,8) by simp
  define s2 where "s2 = ?s1\<lparr>entity_links := repoint_rows ?lid ?cid (entity_links ?s1),
      linkage_evidence := map (\<lambda>v. if v_linkage v = ?lid then v\<lparr>v_linkage := ?cid\<rparr> else v) (linkage_evidence ?s1)\<rparr>"
  define s3 where "s3 = snd (merge_fragment_all legacy canon s2)"
  let ?s' = "s3\<lparr>linkage_types := filter (\<lambda>r. l_id r \<noteq> ?lid) (linkage_types s3)\<rparr>"
  have res: "snd (merge_verb_alias now legacy canon s) = ?s'"
    by (simp add: merge_verb_alias_def fnd cs_def [symmetric] s2_def s3_def split_beta Let_def)
  have s2v: "frag_inv s2" "bindings s2 = bindings s" "frag_value b k s2 = frag_value b k s"
    "disk_value p k s2 = disk_value p k s" "partitions s2 = partitions ?s1" for b k p
  proof -
    have "frag_inv s2 = frag_inv ?s1" by (rule frag_inv_cong) (simp_all add: s2_def)
    then show "frag_inv s2" using s1(2) assms(1,2) by (simp add: frag_inv_def [of s])
    show "bindings s2 = bindings s" using s1(3) by (simp add: s2_def bindings_def)
    have "disk_value p k s2 = disk_value p k ?s1" for p k by (simp add: s2_def disk_value_def)
    moreover have "frag_value b k s2 = frag_value b k ?s1"
      by (simp add: s2_def frag_value_def disk_value_def split: option.split)
    ultimately show "frag_value b k s2 = frag_value b k s" "disk_value p k s2 = disk_value p k s"
      using s1(4,5) by simp_all
    show "partitions s2 = partitions ?s1" by (simp add: s2_def)
  qed
  have s3: "entity_links s3 = repoint_rows ?lid ?cid (entity_links s)" "linkage_types s3 = linkage_types ?s1"
    "linkage_evidence s3 = linkage_evidence s2"
    using merge_all_frame [of legacy canon s2] s1(1) by (simp_all add: s3_def s2_def)
  have names: "set (map p_name (partitions s2)) \<subseteq> p_name ` set (partitions s2)" "distinct (map p_name (partitions s2))"
    using s2v(1) by (simp_all add: frag_inv_def wf_partitions_def)
  have vals: "frag_value b legacy s3 = {} \<and> frag_value b canon s3 = frag_value b canon s \<union> disk_value (fst b) legacy s \<and>
      (\<forall>k. k \<noteq> legacy \<and> k \<noteq> canon \<longrightarrow> frag_value b k s3 = frag_value b k s)" if "b \<in> bindings s" for b
  proof -
    have b2: "b \<in> bindings s2" using that s2v(2) by simp
    moreover have "snd b \<in> set (map p_name (partitions s2))" using b2 by (auto simp: bindings_def)
    moreover have "s3 = snd (fold (merge_fragment_step legacy canon) (map p_name (partitions s2)) (0, s2))"
      by (simp only: s3_def merge_fragment_all_def)
    ultimately have "\<forall>k. frag_value b k s3 = (if k = legacy then {}
        else if k = canon then frag_value b k s2 \<union> disk_value (fst b) legacy s2 else frag_value b k s2)"
      using merge_fold [OF s2v(1) assms(3,4) names, of 0] by (simp only: Let_def if_True if_False not_True_eq_False simp_thms)
    then show ?thesis using ne by (simp add: s2v(3,4))
  qed
  have fv: "frag_value b k ?s' = frag_value b k s3" for b k
    by (simp add: frag_value_def disk_value_def split: option.split)
  have lk: "lk_find canon ?s' = Some ?cid"
  proof -
    have "cr \<in> set (linkage_types ?s')" using cr cl s3 by auto
    moreover have "distinct (map l_name (linkage_types ?s'))" using d1 s3 by (simp add: distinct_map_filter)
    ultimately show ?thesis using find_key_unique [of l_name "linkage_types ?s'" cr] cr by (simp add: lk_find_def)
  qed
  have none: "find (\<lambda>r. l_name r = legacy) (linkage_types ?s') = None"
    using d1 s3 assms(6) by (auto simp: find_None_iff distinct_map dest: inj_onD)
  have two: "merge_verb_alias now2 legacy canon ?s' =
      (\<lparr>mr_merged = False, mr_edges = 0, mr_evidence = 0, mr_fragments = 0\<rparr>, ?s')"
    unfolding merge_verb_alias_def none by simp
  have rows: "(\<exists>r\<in>set (entity_links ?s'). k_entity r = e \<and> k_linkage r = ?cid \<and> k_concept r = c) =
              (\<exists>r\<in>set (entity_links s). k_entity r = e \<and> k_concept r = c \<and>
                 (k_linkage r = ?cid \<or> k_linkage r = ?lid))" for e c
    using repoint_ex [OF cl] s3 by simp
  have keys: "distinct (map (\<lambda>r. (k_entity r, k_linkage r, k_concept r)) (entity_links ?s'))"
    using repoint_keys [OF assms(10)] s3 by simp
  have oth: "filter (\<lambda>r. k_linkage r \<noteq> ?cid \<and> k_linkage r \<noteq> ?lid) (entity_links ?s') =
         filter (\<lambda>r. k_linkage r \<noteq> ?cid \<and> k_linkage r \<noteq> ?lid) (entity_links s)"
    using repoint_other s3 by simp
  have "\<forall>r\<in>set (entity_links ?s'). k_linkage r \<noteq> ?lid" using s3 by (auto simp: repoint_rows_def)
  moreover have "\<forall>v\<in>set (linkage_evidence ?s'). v_linkage v \<noteq> ?lid" using s3 cl by (auto simp: s2_def)
  ultimately show ?thesis
    unfolding res Let_def using lk cl rows oth keys vals two fv by blast
qed

text \<open>A store with an edge under the legacy verb only.\<close>

definition legacy_row :: lk_row where
  "legacy_row = \<lparr>l_id = 1, l_name = ''related_to'', l_directed = True, l_description = None\<rparr>"

definition legacy_store :: store where
  "legacy_store = (open_store ''a'')\<lparr>linkage_types := [legacy_row], next_lid := 2,
     entity_links := [\<lparr>k_entity = 4, k_linkage = 1, k_concept = 3, k_weight = None\<rparr>],
     disk := [((1, ''related_to''), {pack 3 4})]\<rparr>"

lemma legacy_store_ok:
  "wf_partitions legacy_store" "frag_ok legacy_store" "(1, ''a'') \<in> bindings legacy_store"
proof -
  have p: "partitions legacy_store = [\<lparr>p_id = 1, p_name = ''a'', p_kind = ''repo''\<rparr>]"
    by (simp add: legacy_store_def open_store_def ensure_partition_def insert_partition_def
        partition_id_of_def fresh_store_def)
  show "wf_partitions legacy_store"
    using open_store_frag_ok(1) [of "''a''"]
    by (simp add: wf_partitions_def legacy_store_def partition_id_of_def)
  show "frag_ok legacy_store"
    by (rule frag_okI)
      (simp_all add: p, simp_all add: legacy_store_def disk_value_def split: if_splits option.splits)
  show "(1, ''a'') \<in> bindings legacy_store" by (simp add: bindings_def p)
qed

theorem merge_verb_alias_correct_witness:
  "(let s' = snd (merge_verb_alias 0 ''related_to'' ''related-to'' legacy_store) in
     frag_value (1, ''a'') ''related-to'' s' = {pack 3 4} \<and> frag_value (1, ''a'') ''related_to'' s' = {} \<and>
     (\<forall>r\<in>set (entity_links s'). k_linkage r \<noteq> 1))"
  using merge_verb_alias_correct [OF legacy_store_ok(1,2), of "''related-to''" "''related_to''" legacy_row 0 0]
    legacy_store_ok(3)
  by (auto simp: legacy_store_def legacy_row_def canonical_verb_def verb_aliases_def Let_def
      frag_value_def disk_value_def)

end
