(* ===== verification/Links.thy ===== *)
theory Links
  imports Repair
begin

text \<open>
  Writing links: the bit in the bound partition's fragment and its row in the forward index
  \<open>entity_links\<close>, one at a time (\<open>link\<close>, \<open>unlink\<close>), in batches (\<open>bulk_link\<close>, \<open>link_many\<close>),
  buffered (\<open>deferred_links\<close>) and derived (\<open>derive_called_by\<close>), the evidence rows beside them,
  and the reads of the forward index.
\<close>

section \<open>The forward index\<close>

definition link_key :: "link_row \<Rightarrow> nat \<times> nat \<times> nat" where
  "link_key r = (k_entity r, k_linkage r, k_concept r)"

text \<open>\<open>INSERT ... ON CONFLICT DO UPDATE\<close> (a NULL weight keeps the stored one) and
  \<open>INSERT OR IGNORE\<close>.\<close>

definition put_link_row :: "bool \<Rightarrow> nat \<Rightarrow> nat \<Rightarrow> nat \<Rightarrow> weight option \<Rightarrow> link_row list \<Rightarrow> link_row list" where
  "put_link_row update e lid c w rows =
     (if (e, lid, c) \<in> link_key ` set rows then
        (if update then map (\<lambda>r. if link_key r = (e, lid, c) then r\<lparr>k_weight := coalesce w (k_weight r)\<rparr> else r) rows
         else rows)
      else rows @ [\<lparr>k_entity = e, k_linkage = lid, k_concept = c, k_weight = w\<rparr>])"

definition row_weight :: "nat \<times> nat \<times> nat \<Rightarrow> store \<Rightarrow> weight option option" where
  "row_weight k s = map_option k_weight (find (\<lambda>r. link_key r = k) (entity_links s))"

definition protect_ids :: "nat list \<Rightarrow> store \<Rightarrow> store" where
  "protect_ids ids s =
     s\<lparr>entities := map (\<lambda>e. if e_id e \<in> set ids then e\<lparr>e_protected := True\<rparr> else e) (entities s)\<rparr>"

definition edge_of :: "string \<Rightarrow> string \<times> string \<Rightarrow> string \<times> string \<Rightarrow> edge_ends" where
  "edge_of l cn en = \<lparr>x_linkage = l, x_ckind = Some (fst cn), x_c = snd cn, x_ekind = fst en, x_e = snd en\<rparr>"

section \<open>Single links\<close>

text \<open>Set a bit of the bound partition's fragment; whether it was new.\<close>

definition set_bit_new :: "string \<Rightarrow> nat \<Rightarrow> store \<Rightarrow> bool \<times> store" where
  "set_bit_new l v s =
     (case load_fragment l s of
        (frag, s1) \<Rightarrow>
          if v \<in> frag then (False, s1) else (True, mark_dirty l (mutate_fragment l (insert v) s1)))"

definition link :: "time \<Rightarrow> string \<Rightarrow> nat \<Rightarrow> nat \<Rightarrow> weight option \<Rightarrow> bool \<Rightarrow> store \<Rightarrow> (bool \<times> store) result" where
  "link now linkage c e w prot s =
     (let l = canonical_verb linkage in
      case link_buffer s of
        Some buf \<Rightarrow>
          Inr (True, s\<lparr>link_buffer := Some (buf @ [(l, c, e, w)]),
                       protect_buffer := (if prot then protect_buffer s @ [(c, e)] else protect_buffer s)\<rparr>)
      | None \<Rightarrow>
          bind_r (get_linkage_id l s) (\<lambda>lid.
            let (new, s2) = set_bit_new l (pack c e) s;
                s3 = s2\<lparr>entity_links := put_link_row True e lid c w (entity_links s2)\<rparr>;
                s4 = (if prot then protect_ids [c, e] s3 else s3)
            in Inr (new,
                    case (name_of c s4, name_of e s4) of
                      (Some cn, Some en) \<Rightarrow>
                        (let s5 = log_event now (EvLink (edge_of l cn en) w) s4
                         in if prot then log_event now (EvProtect (fst en) (snd en) True)
                                           (log_event now (EvProtect (fst cn) (snd cn) True) s5)
                            else s5)
                    | _ \<Rightarrow> s4)))"

definition weighted_link :: "time \<Rightarrow> string \<Rightarrow> nat \<Rightarrow> nat \<Rightarrow> weight \<Rightarrow> store \<Rightarrow> (bool \<times> store) result" where
  "weighted_link now linkage c e w s = link now linkage c e (Some w) False s"

definition unlink :: "time \<Rightarrow> string \<Rightarrow> nat \<Rightarrow> nat \<Rightarrow> store \<Rightarrow> (bool \<times> store) result" where
  "unlink now linkage c e s =
     (let l = canonical_verb linkage in
      bind_r (get_linkage_id l s) (\<lambda>lid.
        let (frag, s1) = load_fragment l s;
            present = pack c e \<in> frag;
            names = (if present then (name_of c s1, name_of e s1) else (None, None));
            s2 = (if present then mark_dirty l (mutate_fragment l (\<lambda>f. f - {pack c e}) s1) else s1);
            s3 = s2\<lparr>entity_links := filter (\<lambda>r. link_key r \<noteq> (e, lid, c)) (entity_links s2)\<rparr>
        in Inr (present,
                case names of
                  (Some cn, Some en) \<Rightarrow> log_event now (EvUnlink (edge_of l cn en)) s3
                | _ \<Rightarrow> s3)))"

section \<open>Batches\<close>

definition i_verb :: "link_item \<Rightarrow> string" where "i_verb it = fst it"
definition i_concept :: "link_item \<Rightarrow> nat" where "i_concept it = fst (snd it)"
definition i_entity :: "link_item \<Rightarrow> nat" where "i_entity it = fst (snd (snd it))"
definition i_weight :: "link_item \<Rightarrow> weight option" where "i_weight it = snd (snd (snd it))"

lemmas item_parts = i_verb_def i_concept_def i_entity_def i_weight_def

definition item_key :: "link_item \<Rightarrow> string \<times> nat \<times> nat" where
  "item_key it = (i_verb it, i_concept it, i_entity it)"

text \<open>Duplicate keys keep the last occurrence, at the place of the first.\<close>

definition dedup_items :: "link_item list \<Rightarrow> link_item list" where
  "dedup_items items =
     map snd (foldl (\<lambda>d it. AList.update (item_key it) it d) [] items)"

fun resolve_linkages :: "link_item list \<Rightarrow> store \<Rightarrow> unit result" where
  "resolve_linkages [] s = Inr ()"
| "resolve_linkages ((l, _) # items) s = bind_r (get_linkage_id l s) (\<lambda>_. resolve_linkages items s)"

text \<open>The bit pass returns the items whose bit was new.\<close>

fun bulk_bits :: "link_item list \<Rightarrow> store \<Rightarrow> link_item list \<times> store" where
  "bulk_bits [] s = ([], s)"
| "bulk_bits ((l, c, e, w) # items) s =
     (case set_bit_new l (pack c e) s of
        (new, s1) \<Rightarrow>
          case bulk_bits items s1 of
            (news, s2) \<Rightarrow> (if new then (l, c, e, w) # news else news, s2))"

definition linkage_id_or :: "string \<Rightarrow> store \<Rightarrow> nat" where
  "linkage_id_or l s = (case lk_find (canonical_verb l) s of Some i \<Rightarrow> i | None \<Rightarrow> 0)"

definition row_target :: "store \<Rightarrow> link_item \<Rightarrow> nat \<times> nat \<times> nat" where
  "row_target s it = (i_entity it, linkage_id_or (i_verb it) s, i_concept it)"

definition upsert_rows :: "bool \<Rightarrow> link_item list \<Rightarrow> store \<Rightarrow> store" where
  "upsert_rows update items s =
     s\<lparr>entity_links :=
         foldl (\<lambda>rows (l, c, e, w). put_link_row update e (linkage_id_or l s) c w rows) (entity_links s) items\<rparr>"

text \<open>All rows go in one statement. DuckDB refuses an \<open>INSERT ... ON CONFLICT DO UPDATE\<close> that reaches one
  row twice, as two spellings of a verb on one pair do; \<open>DO NOTHING\<close> has no such limit.\<close>

definition bulk_rows :: "bool \<Rightarrow> link_item list \<Rightarrow> store \<Rightarrow> store result" where
  "bulk_rows update items s =
     (if update \<and> \<not> distinct (map (row_target s) items)
      then Inl (RuntimeErr ''ON CONFLICT DO UPDATE can not update the same row twice in the same command'')
      else Inr (upsert_rows update items s))"

definition link_events :: "link_item list \<Rightarrow> store \<Rightarrow> event list" where
  "link_events items s =
     (let names = names_of (map (\<lambda>(l, c, e, w). c) items @ map (\<lambda>(l, c, e, w). e) items) s in
      List.concat (map (\<lambda>(l, c, e, w).
        case (map_of names c, map_of names e) of
          (Some cn, Some en) \<Rightarrow> [EvLink (edge_of l cn en) w]
        | _ \<Rightarrow> []) items))"

definition bulk_link :: "time \<Rightarrow> bool \<Rightarrow> link_item list \<Rightarrow> store \<Rightarrow> (nat \<times> store) result" where
  "bulk_link now update items0 s =
     (if items0 = [] then Inr (0, s)
      else let items = (if update then dedup_items items0 else items0) in
        bind_r (resolve_linkages items s) (\<lambda>_.
          case bulk_bits items s of
            (new, s1) \<Rightarrow>
              bind_r (bulk_rows update items s1) (\<lambda>s2.
                Inr (length new, log_events now (link_events new s2) s2))))"

definition link_many_rows :: "nat \<Rightarrow> nat \<Rightarrow> nat list \<Rightarrow> link_row list \<Rightarrow> link_row list" where
  "link_many_rows lid c ids rows = foldl (\<lambda>rows e. put_link_row False e lid c None rows) rows ids"

definition link_many :: "time \<Rightarrow> string \<Rightarrow> nat \<Rightarrow> nat list \<Rightarrow> store \<Rightarrow> (nat \<times> store) result" where
  "link_many now linkage c ids s =
     bind_r (get_linkage_id linkage s) (\<lambda>lid.
       let (frag, s1) = load_fragment linkage s;
           newly = dedup (filter (\<lambda>e. pack c e \<notin> frag) ids);
           s2 = (if newly = [] then s1 else mark_dirty linkage (mutate_fragment linkage (\<lambda>f. f \<union> pack c ` set ids) s1));
           s3 = s2\<lparr>entity_links := link_many_rows lid c ids (entity_links s2)\<rparr>
       in Inr (card (pack c ` set ids - frag),
               case name_of c s3 of
                 None \<Rightarrow> s3
               | Some cn \<Rightarrow>
                   fold (\<lambda>e st. case name_of e st of
                                   None \<Rightarrow> st
                                 | Some en \<Rightarrow> log_event now (EvLink (edge_of linkage cn en) None) st) newly s3))"

text \<open>\<open>with store.deferred_links():\<close> a nested scope only runs its body; the outermost flushes.\<close>

definition flush_links :: "time \<Rightarrow> store \<Rightarrow> store result" where
  "flush_links now s =
     (let items = (case link_buffer s of None \<Rightarrow> [] | Some b \<Rightarrow> b);
          protects = protect_buffer s;
          s1 = s\<lparr>link_buffer := None, protect_buffer := []\<rparr>
      in bind_r (if items = [] then Inr (0, s1) else bulk_link now False items s1) (\<lambda>(_, s2).
           Inr (if protects = [] then s2
                else protect_ids (sort (dedup (List.concat (map (\<lambda>(c, e). [c, e]) protects)))) s2)))"

definition deferred_links :: "time \<Rightarrow> (store \<Rightarrow> 'a \<times> store) \<Rightarrow> store \<Rightarrow> ('a \<times> store) result" where
  "deferred_links now body s =
     (case link_buffer s of
        Some _ \<Rightarrow> Inr (body s)
      | None \<Rightarrow>
          (case body (s\<lparr>link_buffer := Some [], protect_buffer := []\<rparr>) of
             (a, s1) \<Rightarrow> bind_r (flush_links now s1) (\<lambda>s2. Inr (a, s2))))"

section \<open>Derived inverse edges\<close>

definition called_by_pairs :: "nat \<Rightarrow> nat \<Rightarrow> link_row list \<Rightarrow> (nat \<times> nat) list" where
  "called_by_pairs calls defines rows =
     dedup (List.concat (map (\<lambda>call. List.concat (map (\<lambda>callee. map (\<lambda>caller. (k_entity callee, k_concept caller))
         (filter (\<lambda>caller. k_linkage caller = defines \<and> k_entity caller = k_entity call) rows))
         (filter (\<lambda>callee. k_linkage callee = defines \<and> k_concept callee = k_concept call
                            \<and> k_entity callee \<noteq> k_entity call) rows)))
       (filter (\<lambda>call. k_linkage call = calls) rows)))"

definition derive_called_by :: "time \<Rightarrow> store \<Rightarrow> (nat \<times> store) result" where
  "derive_called_by now s =
     (case (get_linkage_id ''calls'' s, get_linkage_id ''defines'' s) of
        (Inr calls, Inr defines) \<Rightarrow>
          (let pairs = called_by_pairs calls defines (entity_links s) in
           if pairs = [] then Inr (0, s)
           else bulk_link now False (map (\<lambda>(callee, caller). (''called_by'', caller, callee, Some 1)) pairs) s)
      | _ \<Rightarrow> Inr (0, s))"

section \<open>Concepts with their aliases\<close>

fun add_aliases :: "time \<Rightarrow> string \<Rightarrow> nat \<Rightarrow> string list \<Rightarrow> store \<Rightarrow> store result" where
  "add_aliases now canonical cid [] s = Inr s"
| "add_aliases now canonical cid (v # vs) s =
     bind_r (upsert_entity now ''concept'' v None None
              (Some [(''description'', ''alias of '' @ [CHR 0x27] @ canonical @ [CHR 0x27])]) False s) (\<lambda>(vid, s1).
       bind_r (if vid = cid then Inr (True, s1) else link now ''same_as'' vid cid None False s1) (\<lambda>(_, s2).
         add_aliases now canonical cid vs s2))"

definition add_concept :: "time \<Rightarrow> string \<Rightarrow> string option \<Rightarrow> bool \<Rightarrow> store \<Rightarrow> (nat \<times> store) result" where
  "add_concept now name descr prot s =
     (let (canonical, variants) = concept_variants name;
          meta = (case descr of None \<Rightarrow> None | Some [] \<Rightarrow> None | Some d \<Rightarrow> Some [(''description'', d)])
      in bind_r (upsert_entity now ''concept'' canonical None None meta prot s) (\<lambda>(cid, s1).
           bind_r (add_aliases now canonical cid variants s1) (\<lambda>s2. Inr (cid, s2))))"

definition add_namespaced_concept :: "time \<Rightarrow> string \<Rightarrow> string \<Rightarrow> string option \<Rightarrow> store \<Rightarrow> (nat \<times> store) result" where
  "add_namespaced_concept now ns name descr s = add_concept now (ns @ ''/'' @ name) descr False s"

definition list_concepts_in_namespace :: "string \<Rightarrow> store \<Rightarrow> entity list" where
  "list_concepts_in_namespace ns s =
     filter (\<lambda>e. e_pid e = fst (bound s) \<and> e_kind e = ''concept'' \<and> like_match (ns @ ''/%'') (e_name e)) (entities s)"

section \<open>Evidence and reads of the forward index\<close>

definition add_evidence ::
  "time \<Rightarrow> string \<Rightarrow> nat \<Rightarrow> nat \<Rightarrow> string option \<Rightarrow> nat option \<Rightarrow> nat option \<Rightarrow> string option \<Rightarrow> store \<Rightarrow> store result" where
  "add_evidence now linkage c e file lno spn detail s =
     (let l = canonical_verb linkage in
      bind_r (get_linkage_id l s) (\<lambda>lid.
        let s1 = s\<lparr>linkage_evidence := linkage_evidence s @
                 [\<lparr>v_entity = e, v_linkage = lid, v_concept = c, v_file = file, v_line = lno,
                   v_span_end = spn, v_detail = detail\<rparr>]\<rparr>
        in Inr (case (name_of c s1, name_of e s1) of
                  (Some cn, Some en) \<Rightarrow> log_event now (EvEvidence (edge_of l cn en) file lno spn detail) s1
                | _ \<Rightarrow> s1)))"

definition linkage_raw_name :: "nat \<Rightarrow> store \<Rightarrow> string option" where
  "linkage_raw_name i s = map_option l_name (find (\<lambda>r. l_id r = i) (linkage_types s))"

definition get_evidence :: "nat \<Rightarrow> string option \<Rightarrow> nat option \<Rightarrow> store \<Rightarrow> (string \<times> string option \<times> ev_row) list" where
  "get_evidence e linkage c s =
     List.concat (map (\<lambda>v.
       case linkage_raw_name (v_linkage v) s of
         None \<Rightarrow> []
       | Some l \<Rightarrow>
           if v_entity v = e \<and> (linkage = None \<or> linkage = Some l) \<and> (c = None \<or> c = Some (v_concept v))
           then [(l, map_option e_name (get_entity_by_id (v_concept v) s), v)] else []) (linkage_evidence s))"

definition get_weight :: "string \<Rightarrow> nat \<Rightarrow> nat \<Rightarrow> store \<Rightarrow> weight option result" where
  "get_weight linkage c e s =
     bind_r (get_linkage_id linkage s) (\<lambda>lid.
       Inr (case row_weight (e, lid, c) s of None \<Rightarrow> None | Some w \<Rightarrow> w))"

definition top_weighted :: "string \<Rightarrow> nat \<Rightarrow> nat \<Rightarrow> store \<Rightarrow> (nat \<times> weight) list result" where
  "top_weighted linkage c k s =
     bind_r (get_linkage_id linkage s) (\<lambda>lid.
       Inr (take k (sort_key (\<lambda>(e, w). (- w, e))
         (List.concat (map (\<lambda>r.
           case k_weight r of
             None \<Rightarrow> []
           | Some w \<Rightarrow>
               if k_linkage r = lid \<and> k_concept r = c \<and>
                  (case get_entity_by_id (k_entity r) s of None \<Rightarrow> False | Some e \<Rightarrow> e_pid e = fst (bound s))
               then [(k_entity r, w)] else []) (entity_links s))))))"

text \<open>Each membership of the entity with the evidence rows of its edge.\<close>

definition explain_entity ::
  "nat \<Rightarrow> store \<Rightarrow> ((string \<times> string option \<times> nat \<times> weight option) \<times> (string \<times> string option \<times> ev_row) list) list" where
  "explain_entity e s =
     map (\<lambda>(l, n, c, w). ((l, n, c, w), get_evidence e (Some l) (Some c) s))
       (sort_key (\<lambda>(l, n, c, w). (l, n))
         (List.concat (map (\<lambda>r.
            case linkage_raw_name (k_linkage r) s of
              None \<Rightarrow> []
            | Some l \<Rightarrow> if k_entity r = e
                then [(l, map_option e_name (get_entity_by_id (k_concept r) s), k_concept r, k_weight r)] else [])
          (entity_links s))))"

section \<open>Concepts shared between partitions\<close>

record sibling =
  sb_id :: nat
  sb_name :: string
  sb_pid :: nat
  sb_partition :: string
  sb_canon :: nat
  sb_canon_name :: string
  sb_canon_partition :: string

definition same_as_rows :: "store \<Rightarrow> link_row list" where
  "same_as_rows s = filter (\<lambda>r. linkage_raw_name (k_linkage r) s = Some ''same_as'') (entity_links s)"

text \<open>The entity of an id with its partition's row: the inner joins drop an id without either.\<close>

definition entity_home :: "nat \<Rightarrow> store \<Rightarrow> (entity \<times> partition) option" where
  "entity_home i s =
     (case get_entity_by_id i s of
        None \<Rightarrow> None
      | Some e \<Rightarrow> map_option (Pair e) (find (\<lambda>p. p_id p = e_pid e) (partitions s)))"

definition sibling_rows :: "entity \<times> partition \<Rightarrow> nat \<Rightarrow> store \<Rightarrow> sibling list" where
  "sibling_rows hub c s =
     List.concat (map (\<lambda>r.
       case entity_home (k_entity r) s of
         None \<Rightarrow> []
       | Some (e, p) \<Rightarrow>
           if k_concept r = e_id (fst hub) \<and> e_id e \<noteq> c
           then [\<lparr>sb_id = e_id e, sb_name = e_name e, sb_pid = e_pid e, sb_partition = p_name p,
                  sb_canon = e_id (fst hub), sb_canon_name = e_name (fst hub),
                  sb_canon_partition = p_name (snd hub)\<rparr>] else []) (same_as_rows s))"

fun take_unseen :: "nat set \<Rightarrow> sibling list \<Rightarrow> sibling list" where
  "take_unseen seen [] = []"
| "take_unseen seen (x # xs) =
     (if sb_id x \<in> seen then take_unseen seen xs else x # take_unseen (insert (sb_id x) seen) xs)"

definition siblings_via_canon :: "nat \<Rightarrow> store \<Rightarrow> sibling list" where
  "siblings_via_canon c s =
     take_unseen {} (List.concat (map (\<lambda>r.
         case entity_home (k_concept r) s of None \<Rightarrow> [] | Some hub \<Rightarrow> sibling_rows hub c s)
       (filter (\<lambda>r. k_entity r = c) (same_as_rows s))))"

text \<open>The hub is written through a second store object on the same catalog, with caches of its own
  that its \<open>close\<close> flushes; the edge is then recorded by the active store.\<close>

definition other_store :: "store \<Rightarrow> store" where
  "other_store s = s\<lparr>cache := [], dirty := [], link_buffer := None, protect_buffer := []\<rparr>"

definition back_to_store :: "store \<Rightarrow> store \<Rightarrow> store" where
  "back_to_store s t = (flush_fragments t)\<lparr>cache := cache s, dirty := dirty s, link_buffer := link_buffer s,
     protect_buffer := protect_buffer s, bound := bound s\<rparr>"

definition mark_canon :: "string \<Rightarrow> store \<Rightarrow> store" where
  "mark_canon n s = s\<lparr>partitions := map (\<lambda>p. if p_name p = n \<and> p_kind p = ''repo''
                         then p\<lparr>p_kind := ''canon''\<rparr> else p) (partitions s)\<rparr>"

definition link_canon :: "time \<Rightarrow> nat \<Rightarrow> string \<Rightarrow> string \<Rightarrow> store \<Rightarrow> (nat \<times> store) result" where
  "link_canon now local_id canon_partition canon_name s =
     (if (case get_entity_by_id local_id s of None \<Rightarrow> True | Some e \<Rightarrow> e_kind e \<noteq> ''concept'')
      then Inl (ValueError ''not a concept'')
      else
        bind_r (ensure_partition canon_partition (other_store s)) (\<lambda>s1.
        bind_r (add_concept now canon_name None False s1) (\<lambda>(cid, s2).
        bind_r (link now ''same_as'' cid local_id None False (back_to_store s (mark_canon canon_partition s2))) (\<lambda>(_, s3).
          Inr (cid, s3)))))"

section \<open>Effects on bits and rows\<close>

lemma frag_inv_set_bit: "frag_inv s \<Longrightarrow> frag_inv (snd (set_bit_new l v s))"
proof -
  assume "frag_inv s"
  then have i: "wf_partitions s" "frag_ok s" by (simp_all add: frag_inv_def)
  let ?s1 = "snd (load_fragment l s)"
  have 1: "wf_partitions ?s1" "frag_ok ?s1"
    using i frag_ok_load [OF i] by (simp_all add: wf_partitions_def partition_id_of_def)
  have "wf_partitions (mark_dirty l (mutate_fragment l g ?s1))" for g
    using 1(1) by (simp add: wf_partitions_def partition_id_of_def)
  then show ?thesis
    using 1 frag_ok_change [OF 1] by (simp add: set_bit_new_def split_beta frag_inv_def)
qed

lemma set_bit_value:
  "fst (set_bit_new l v s) = (v \<notin> frag_value (bound s) (canonical_verb l) s)"
  "frag_value b k (snd (set_bit_new l v s)) =
     (if b = bound s \<and> k = canonical_verb l then insert v (frag_value b k s) else frag_value b k s)"
  by (auto simp: set_bit_new_def split_beta load_fragment_value frag_value_mutate)

lemma load_concepts [simp]: "concepts (snd (load_fragment l s)) = concepts s"
  by (simp add: load_fragment_def Let_def split: option.split)

lemma set_bit_frame [frame_simps, simp]:
  "bound (snd (set_bit_new l v s)) = bound s" "partitions (snd (set_bit_new l v s)) = partitions s"
  "next_pid (snd (set_bit_new l v s)) = next_pid s" "entities (snd (set_bit_new l v s)) = entities s"
  "entity_links (snd (set_bit_new l v s)) = entity_links s" "concepts (snd (set_bit_new l v s)) = concepts s"
  "linkage_types (snd (set_bit_new l v s)) = linkage_types s" "disk (snd (set_bit_new l v s)) = disk s"
  "bindings (snd (set_bit_new l v s)) = bindings s"
  by (simp_all add: set_bit_new_def split_beta load_fragment_value bindings_def)

lemma load_fragment_buffer [simp]:
  "link_buffer (snd (load_fragment l s)) = link_buffer s" "link_buffer (mutate_fragment l g s) = link_buffer s"
  "link_buffer (mark_dirty l s) = link_buffer s" "link_buffer (snd (set_bit_new l v s)) = link_buffer s"
  "next_lid (snd (load_fragment l s)) = next_lid s" "next_lid (mutate_fragment l g s) = next_lid s"
  "next_lid (mark_dirty l s) = next_lid s" "next_lid (snd (set_bit_new l v s)) = next_lid s"
  by (simp_all add: set_bit_new_def load_fragment_def mutate_fragment_def mark_dirty_def Let_def split_beta
      split: option.split)

lemma frag_value_links [simp]:
  "frag_value b k (s\<lparr>entity_links := x\<rparr>) = frag_value b k s" "frag_value b k (s\<lparr>entities := y\<rparr>) = frag_value b k s"
  "frag_value b k (log_event t ev s) = frag_value b k s" "frag_value b k (log_events t evs s) = frag_value b k s"
  "frag_value b k (protect_ids ids s) = frag_value b k s"
  "frag_value b k (s\<lparr>link_buffer := z\<rparr>) = frag_value b k s" "frag_value b k (s\<lparr>protect_buffer := q\<rparr>) = frag_value b k s"
  by (simp_all add: frag_value_def disk_value_def protect_ids_def split: option.split)

lemma bindings_links [simp]:
  "bindings (s\<lparr>entity_links := x\<rparr>) = bindings s" "bindings (s\<lparr>entities := y\<rparr>) = bindings s"
  "bindings (log_event t ev s) = bindings s" "bindings (log_events t evs s) = bindings s"
  "bindings (protect_ids ids s) = bindings s"
  by (simp_all add: bindings_def protect_ids_def)

lemma protect_ids_frame [frame_simps, simp]:
  "bound (protect_ids ids s) = bound s" "partitions (protect_ids ids s) = partitions s"
  "next_pid (protect_ids ids s) = next_pid s" "cache (protect_ids ids s) = cache s"
  "dirty (protect_ids ids s) = dirty s" "disk (protect_ids ids s) = disk s"
  "entity_links (protect_ids ids s) = entity_links s" "linkage_types (protect_ids ids s) = linkage_types s"
  "link_buffer (protect_ids ids s) = link_buffer s" "next_lid (protect_ids ids s) = next_lid s"
  by (simp_all add: protect_ids_def)

lemma keys_put_row [simp]:
  "link_key ` set (put_link_row u e lid c w rows) = insert (e, lid, c) (link_key ` set rows)"
proof (cases "(e, lid, c) \<in> link_key ` set rows")
  case True
  have "link_key (if link_key r = (e, lid, c) then r\<lparr>k_weight := coalesce w (k_weight r)\<rparr> else r) = link_key r" for r
    by (simp add: link_key_def)
  then have "link_key ` set (map (\<lambda>r. if link_key r = (e, lid, c) then r\<lparr>k_weight := coalesce w (k_weight r)\<rparr> else r) rows)
      = link_key ` set rows" by (simp only: set_map image_image)
  with True show ?thesis by (simp only: put_link_row_def if_True insert_absorb split: if_split) simp
next
  case False
  then show ?thesis by (simp add: put_link_row_def) (simp add: link_key_def)
qed

lemma get_linkage_Inr: "get_linkage_id l s = Inr lid \<longleftrightarrow> lk_find (canonical_verb l) s = Some lid"
  by (simp add: get_linkage_id_def split: option.split)

text \<open>Two states with the same graph: they differ in the log and in entity columns alone.\<close>

definition same_graph :: "store \<Rightarrow> store \<Rightarrow> bool" where
  "same_graph s t = (bound s = bound t \<and> partitions s = partitions t \<and> next_pid s = next_pid t \<and>
     cache s = cache t \<and> dirty s = dirty t \<and> disk s = disk t \<and> entity_links s = entity_links t \<and>
     linkage_types s = linkage_types t \<and> next_lid s = next_lid t \<and> link_buffer s = link_buffer t)"

lemma same_graphI [simp]:
  "same_graph s s" "same_graph (log_event now ev s) t = same_graph s t" "same_graph (log_events now evs s) t = same_graph s t"
  "same_graph (protect_ids ids s) t = same_graph s t"
  by (simp_all add: same_graph_def)

lemma same_graphD:
  assumes "same_graph s t"
  shows "frag_value b k s = frag_value b k t" "frag_inv s = frag_inv t" "bindings s = bindings t"
    "entity_links s = entity_links t" "bound s = bound t" "partitions s = partitions t"
    "linkage_types s = linkage_types t" "next_lid s = next_lid t" "link_buffer s = link_buffer t"
    "lk_find n s = lk_find n t"
proof -
  note g = assms [unfolded same_graph_def]
  show "frag_value b k s = frag_value b k t" using g by (simp add: frag_value_def disk_value_def split: option.split)
  show "frag_inv s = frag_inv t" using g by (intro frag_inv_cong) simp_all
  show "bindings s = bindings t" using g by (simp add: bindings_def)
  show "lk_find n s = lk_find n t" using g by (simp add: lk_find_def)
qed (use assms in \<open>simp_all add: same_graph_def\<close>)

text \<open>What a direct \<open>link\<close> does, in one place.\<close>

lemma link_effect:
  assumes "link_buffer s = None" "link now linkage c e w prot s = Inr (r, s')"
  shows "\<exists>lid. lk_find (canonical_verb linkage) s = Some lid \<and>
     r = (pack c e \<notin> frag_value (bound s) (canonical_verb linkage) s) \<and>
     (let s2 = snd (set_bit_new (canonical_verb linkage) (pack c e) s)
      in same_graph s' (s2\<lparr>entity_links := put_link_row True e lid c w (entity_links s)\<rparr>))"
proof -
  let ?l = "canonical_verb linkage" and ?s2 = "snd (set_bit_new (canonical_verb linkage) (pack c e) s)"
  obtain lid where lid: "lk_find ?l s = Some lid"
    using assms by (auto simp: link_def Let_def bind_r_Inr get_linkage_Inr)
  have g: "get_linkage_id ?l s = Inr lid" using lid by (simp add: get_linkage_Inr)
  have "r = fst (set_bit_new ?l (pack c e) s)"
    using assms g by (simp add: link_def Let_def split_beta)
  moreover have "same_graph s' (?s2\<lparr>entity_links := put_link_row True e lid c w (entity_links s)\<rparr>)"
    using assms g by (auto simp: link_def Let_def split_beta split: option.splits if_splits)
  ultimately show ?thesis using lid by (simp add: set_bit_value Let_def)
qed

lemma unlink_effect:
  assumes "unlink now linkage c e s = Inr (r, s')"
  shows "\<exists>lid. lk_find (canonical_verb linkage) s = Some lid \<and>
     r = (pack c e \<in> frag_value (bound s) (canonical_verb linkage) s) \<and>
     entity_links s' = filter (\<lambda>x. link_key x \<noteq> (e, lid, c)) (entity_links s) \<and>
     (\<forall>b k. frag_value b k s' = (if b = bound s \<and> k = canonical_verb linkage
                                then frag_value b k s - {pack c e} else frag_value b k s)) \<and>
     bound s' = bound s \<and> partitions s' = partitions s \<and> linkage_types s' = linkage_types s \<and>
     next_lid s' = next_lid s \<and> link_buffer s' = link_buffer s \<and> (frag_inv s \<longrightarrow> frag_inv s')"
proof -
  let ?l = "canonical_verb linkage" and ?s1 = "snd (load_fragment (canonical_verb linkage) s)"
  let ?p = "pack c e \<in> frag_value (bound s) ?l s"
  let ?s2 = "if ?p then mark_dirty ?l (mutate_fragment ?l (\<lambda>f. f - {pack c e}) ?s1) else ?s1"
  obtain lid where lid: "lk_find ?l s = Some lid"
    using assms by (auto simp: unlink_def Let_def bind_r_Inr get_linkage_Inr)
  have g: "get_linkage_id ?l s = Inr lid" using lid by (simp add: get_linkage_Inr)
  let ?s3 = "?s2\<lparr>entity_links := filter (\<lambda>x. link_key x \<noteq> (e, lid, c)) (entity_links ?s2)\<rparr>"
  have r: "r = ?p" and s': "same_graph s' ?s3"
    using assms g by (auto simp: unlink_def Let_def split_beta load_fragment_value(1) split: option.splits if_splits)
  have i: "frag_inv ?s3" if "frag_inv s"
  proof -
    have i: "wf_partitions s" "frag_ok s" using that by (simp_all add: frag_inv_def)
    then have 1: "wf_partitions ?s1" "frag_ok ?s1"
      using frag_ok_load [OF i] by (simp_all add: wf_partitions_def partition_id_of_def)
    have "frag_inv ?s2"
      using 1 frag_ok_change [OF 1] by (simp add: frag_inv_def wf_partitions_def partition_id_of_def)
    then show ?thesis by (subst frag_inv_cong [of _ ?s2]) simp_all
  qed
  show ?thesis
    using lid r i same_graphD [OF s'] by (auto simp: load_fragment_value frag_value_mutate)
qed

lemma frag_inv_links [simp]: "frag_inv (s\<lparr>entity_links := x\<rparr>) = frag_inv s"
  by (rule frag_inv_cong) simp_all

definition item_bits :: "link_item list \<Rightarrow> string \<Rightarrow> bitmap" where
  "item_bits items k = (\<lambda>it. pack (i_concept it) (i_entity it)) ` {it \<in> set items. canonical_verb (i_verb it) = k}"

lemma item_bits_Cons:
  "item_bits (it # items) k =
     (if canonical_verb (i_verb it) = k then insert (pack (i_concept it) (i_entity it)) (item_bits items k)
      else item_bits items k)"
  by (auto simp: item_bits_def)

lemma bulk_bits_step:
  "snd (bulk_bits (it # items) s) = snd (bulk_bits items (snd (set_bit_new (i_verb it) (pack (i_concept it) (i_entity it)) s)))"
  "fst (bulk_bits (it # items) s) =
     (if pack (i_concept it) (i_entity it) \<notin> frag_value (bound s) (canonical_verb (i_verb it)) s then [it] else []) @
     fst (bulk_bits items (snd (set_bit_new (i_verb it) (pack (i_concept it) (i_entity it)) s)))"
  by (cases it; simp add: split_beta item_parts set_bit_value)+

lemma bulk_bits_frame [simp]:
  "bound (snd (bulk_bits items s)) = bound s" "partitions (snd (bulk_bits items s)) = partitions s"
  "linkage_types (snd (bulk_bits items s)) = linkage_types s" "entities (snd (bulk_bits items s)) = entities s"
  "entity_links (snd (bulk_bits items s)) = entity_links s" "next_lid (snd (bulk_bits items s)) = next_lid s"
  "link_buffer (snd (bulk_bits items s)) = link_buffer s" "bindings (snd (bulk_bits items s)) = bindings s"
  by (induction items arbitrary: s) (simp_all only: bulk_bits_step set_bit_frame load_fragment_buffer, simp_all)

lemma bulk_bits_value:
  "frag_value b k (snd (bulk_bits items s)) =
     (if b = bound s then frag_value b k s \<union> item_bits items k else frag_value b k s)"
proof (induction items arbitrary: s)
  case Nil
  then show ?case by (simp add: item_bits_def)
next
  case (Cons it items)
  show ?case unfolding bulk_bits_step Cons.IH by (auto simp: set_bit_value item_bits_Cons)
qed

lemma bulk_bits_frag_inv: "frag_inv s \<Longrightarrow> frag_inv (snd (bulk_bits items s))"
  by (induction items arbitrary: s) (simp_all only: bulk_bits_step frag_inv_set_bit, simp)

lemma lk_find_bulk_bits [simp]: "lk_find n (snd (bulk_bits items s)) = lk_find n s"
  by (simp add: lk_find_def)

lemma keys_put_rows:
  "link_key ` set (foldl (\<lambda>rows (l, c, e, w). put_link_row u e (f l) c w rows) rows items) =
     link_key ` set rows \<union> (\<lambda>it. (i_entity it, f (i_verb it), i_concept it)) ` set items"
proof (induction items arbitrary: rows)
  case (Cons it items)
  obtain l c e w where it: "it = (l, c, e, w)" by (cases it)
  show ?case by (simp only: it foldl.simps prod.case Cons.IH keys_put_row list.set image_insert) (auto simp: item_parts)
qed simp

lemma update_sets:
  "snd ` set (AList.update k v d) \<subseteq> insert v (snd ` set d)"
  "fst ` set (AList.update k v d) = insert k (fst ` set d)"
  "\<forall>x\<in>set d. P x \<Longrightarrow> P (k, v) \<Longrightarrow> \<forall>x\<in>set (AList.update k v d). P x"
  by (induction d) auto

lemma dedup_items_keys:
  "set (dedup_items items) \<subseteq> set items" "item_key ` set (dedup_items items) = item_key ` set items"
  "distinct (map item_key (dedup_items items))"
proof -
  let ?f = "\<lambda>d it. AList.update (item_key it) it d"
  have gen: "snd ` set (foldl ?f d items) \<subseteq> snd ` set d \<union> set items \<and>
      fst ` set (foldl ?f d items) = fst ` set d \<union> item_key ` set items \<and>
      distinct (map fst (foldl ?f d items)) \<and> (\<forall>x\<in>set (foldl ?f d items). fst x = item_key (snd x))"
    if "distinct (map fst d)" "\<forall>x\<in>set d. fst x = item_key (snd x)" for d
    using that
  proof (induction items arbitrary: d)
    case (Cons it items)
    let ?d = "AList.update (item_key it) it d"
    have "distinct (map fst ?d)" "\<forall>x\<in>set ?d. fst x = item_key (snd x)"
      using Cons.prems update_sets(3) [of d "\<lambda>x. fst x = item_key (snd x)" "item_key it" it]
      by (simp_all add: distinct_update)
    note ih = Cons.IH [OF this, unfolded update_sets(2)]
    show ?case unfolding foldl.simps list.set image_insert
      using ih update_sets(1) [of "item_key it" it d] by (elim conjE, intro conjI) blast+
  qed simp
  let ?r = "foldl ?f [] items"
  have g: "snd ` set ?r \<subseteq> set items" "fst ` set ?r = item_key ` set items"
    "distinct (map fst ?r)" "\<forall>x\<in>set ?r. fst x = item_key (snd x)"
    using gen [of "[]", unfolded list.set image_empty Un_empty_left list.map distinct.simps ball_empty, OF TrueI TrueI]
    by - (elim conjE, assumption)+
  have m: "map fst ?r = map item_key (map snd ?r)" using g(4) by simp
  show "set (dedup_items items) \<subseteq> set items" using g(1) by (simp add: dedup_items_def)
  show "distinct (map item_key (dedup_items items))" using g(3) m by (simp only: dedup_items_def)
  show "item_key ` set (dedup_items items) = item_key ` set items"
    using g(2) m by (metis dedup_items_def list.set_map)
qed

lemma bulk_link_effect:
  assumes "bulk_link now u items s = Inr (n, s')"
  shows "\<exists>items'. item_key ` set items' = item_key ` set items \<and>
     (if u then items' = dedup_items items else items' = items) \<and> resolve_linkages items' s = Inr () \<and>
     n = length (fst (bulk_bits items' s)) \<and>
     same_graph s' (upsert_rows u items' (snd (bulk_bits items' s)))"
proof (cases "items = []")
  case True
  then show ?thesis using assms by (simp add: bulk_link_def upsert_rows_def dedup_items_def)
next
  case False
  let ?items = "if u then dedup_items items else items"
  have "n = length (fst (bulk_bits ?items s))" "resolve_linkages ?items s = Inr ()"
    "same_graph s' (upsert_rows u ?items (snd (bulk_bits ?items s)))"
    using assms False by (auto simp: bulk_link_def Let_def bind_r_Inr split_beta bulk_rows_def split: if_splits)
  moreover have "item_key ` set ?items = item_key ` set items" using dedup_items_keys [of items] by simp
  ultimately show ?thesis by (intro exI [of _ ?items]) simp
qed

lemma link_many_effect:
  assumes "link_many now linkage c ids s = Inr (n, s')"
  shows "\<exists>lid. lk_find (canonical_verb linkage) s = Some lid \<and>
     n = card (pack c ` set ids - frag_value (bound s) (canonical_verb linkage) s) \<and>
     entity_links s' = link_many_rows lid c ids (entity_links s) \<and>
     (\<forall>b k. frag_value b k s' = (if b = bound s \<and> k = canonical_verb linkage
                                then frag_value b k s \<union> pack c ` set ids else frag_value b k s)) \<and>
     bound s' = bound s \<and> partitions s' = partitions s \<and> linkage_types s' = linkage_types s \<and>
     next_lid s' = next_lid s \<and> link_buffer s' = link_buffer s \<and> (frag_inv s \<longrightarrow> frag_inv s')"
proof -
  let ?l = "canonical_verb linkage" and ?s1 = "snd (load_fragment linkage s)"
  let ?newly = "dedup (filter (\<lambda>e. pack c e \<notin> frag_value (bound s) ?l s) ids)"
  let ?s2 = "if ?newly = [] then ?s1 else mark_dirty linkage (mutate_fragment linkage (\<lambda>f. f \<union> pack c ` set ids) ?s1)"
  obtain lid where lid: "lk_find ?l s = Some lid"
    using assms by (auto simp: link_many_def bind_r_Inr get_linkage_Inr)
  have g: "get_linkage_id linkage s = Inr lid" using lid by (simp add: get_linkage_Inr)
  let ?s3 = "?s2\<lparr>entity_links := link_many_rows lid c ids (entity_links ?s2)\<rparr>"
  have fold: "same_graph (fold (\<lambda>e st. case name_of e st of None \<Rightarrow> st
      | Some en \<Rightarrow> log_event now (EvLink (edge_of linkage cn en) None) st) xs t) u = same_graph t u" for cn xs t u
    by (induction xs arbitrary: t) (simp_all split: option.split)
  have n: "n = card (pack c ` set ids - frag_value (bound s) ?l s)"
    using assms g by (simp add: link_many_def Let_def split_beta load_fragment_value(1))
  have s': "same_graph s' ?s3"
    using assms g by (auto simp: link_many_def Let_def split_beta load_fragment_value(1) fold split: option.splits)
  have i: "frag_inv ?s3" if "frag_inv s"
  proof -
    have i: "wf_partitions s" "frag_ok s" using that by (simp_all add: frag_inv_def)
    then have 1: "wf_partitions ?s1" "frag_ok ?s1"
      using frag_ok_load [OF i] by (simp_all add: wf_partitions_def partition_id_of_def)
    have "frag_inv ?s2"
      using 1 frag_ok_change [OF 1] by (simp add: frag_inv_def wf_partitions_def partition_id_of_def)
    then show ?thesis by simp
  qed
  have nil: "?newly = [] \<Longrightarrow> pack c ` set ids \<subseteq> frag_value (bound s) ?l s"
  proof -
    assume "?newly = []"
    then have "set ?newly = {}" by (simp only: list.set)
    then show ?thesis by auto
  qed
  show ?thesis
    using lid n i same_graphD [OF s'] nil by (auto simp: load_fragment_value frag_value_mutate)
qed

lemma link_many_keys:
  "link_key ` set (link_many_rows lid c ids rows) = link_key ` set rows \<union> (\<lambda>e. (e, lid, c)) ` set ids"
proof (induction ids arbitrary: rows)
  case Nil
  then show ?case by (simp add: link_many_rows_def)
next
  case (Cons e ids)
  have "link_many_rows lid c (e # ids) rows = link_many_rows lid c ids (put_link_row False e lid c None rows)"
    by (simp add: link_many_rows_def)
  then show ?case by (simp only: Cons.IH keys_put_row list.set image_insert Un_insert_left Un_insert_right)
qed

section \<open>The forward index is the shadow of the fragments\<close>

definition shadow_ok :: "store \<Rightarrow> bool" where
  "shadow_ok s = (\<forall>l lid c e. lk_find l s = Some lid \<and> e < 2 ^ 32 \<longrightarrow>
     ((e, lid, c) \<in> link_key ` set (entity_links s) \<longleftrightarrow> (\<exists>n. e \<in> rows_of_store s n l c)))"

definition graph_inv :: "store \<Rightarrow> bool" where
  "graph_inv s = (frag_inv s \<and> wf_linkages s \<and> link_buffer s = None \<and> shadow_ok s)"

lemma rows_ex:
  assumes "wf_partitions s" "e < 2 ^ 32"
  shows "(\<exists>n. e \<in> rows_of_store s n l c) \<longleftrightarrow> (\<exists>b\<in>bindings s. pack c e \<in> frag_value b l s)"
proof
  assume "\<exists>n. e \<in> rows_of_store s n l c"
  then show "\<exists>b\<in>bindings s. pack c e \<in> frag_value b l s"
    using partition_id_in by (auto simp: rows_of_store_def row_of_def split: option.splits)
next
  assume "\<exists>b\<in>bindings s. pack c e \<in> frag_value b l s"
  then obtain p where p: "p \<in> set (partitions s)" "pack c e \<in> frag_value (p_id p, p_name p) l s"
    by (auto simp: bindings_def)
  have "find (\<lambda>x. p_name x = p_name p) (partitions s) = Some p"
    using find_key_unique [of p_name "partitions s" p] p(1) assms(1) by (simp add: wf_partitions_def)
  then have "e \<in> rows_of_store s (p_name p) l c"
    using p(2) assms(2) by (simp add: rows_of_store_def partition_id_of_def row_of_def)
  then show "\<exists>n. e \<in> rows_of_store s n l c" by blast
qed

lemma shadow_okD:
  "graph_inv s \<Longrightarrow> lk_find l s = Some lid \<Longrightarrow> e < 2 ^ 32 \<Longrightarrow>
     (e, lid, c) \<in> link_key ` set (entity_links s) \<longleftrightarrow> (\<exists>b\<in>bindings s. pack c e \<in> frag_value b l s)"
  using rows_ex [of s e l c] by (simp add: graph_inv_def shadow_ok_def frag_inv_def)

lemma shadow_okI:
  assumes "wf_partitions s" "\<And>l lid c e. lk_find l s = Some lid \<Longrightarrow> e < 2 ^ 32 \<Longrightarrow>
     (e, lid, c) \<in> link_key ` set (entity_links s) \<longleftrightarrow> (\<exists>b\<in>bindings s. pack c e \<in> frag_value b l s)"
  shows "shadow_ok s"
  using assms rows_ex [OF assms(1)] by (simp add: shadow_ok_def)

text \<open>The shadow up to a set of keys: every row has its bit, and every bit outside the set its row. Unlinking
  deletes the row of a key that another partition's fragment may still hold.\<close>

definition shadow_upto :: "(nat \<times> nat \<times> nat) set \<Rightarrow> store \<Rightarrow> bool" where
  "shadow_upto M s = (\<forall>l lid c e. lk_find l s = Some lid \<and> e < 2 ^ 32 \<longrightarrow>
     ((e, lid, c) \<in> link_key ` set (entity_links s) \<longrightarrow> (\<exists>b\<in>bindings s. pack c e \<in> frag_value b l s)) \<and>
     ((e, lid, c) \<notin> M \<longrightarrow> (\<exists>b\<in>bindings s. pack c e \<in> frag_value b l s) \<longrightarrow>
        (e, lid, c) \<in> link_key ` set (entity_links s)))"

definition graph_upto :: "(nat \<times> nat \<times> nat) set \<Rightarrow> store \<Rightarrow> bool" where
  "graph_upto M s = (frag_inv s \<and> wf_linkages s \<and> link_buffer s = None \<and> shadow_upto M s)"

lemma shadow_uptoD:
  "graph_upto M s \<Longrightarrow> lk_find l s = Some lid \<Longrightarrow> e < 2 ^ 32 \<Longrightarrow>
     ((e, lid, c) \<in> link_key ` set (entity_links s) \<longrightarrow> (\<exists>b\<in>bindings s. pack c e \<in> frag_value b l s)) \<and>
     ((e, lid, c) \<notin> M \<longrightarrow> (\<exists>b\<in>bindings s. pack c e \<in> frag_value b l s) \<longrightarrow>
        (e, lid, c) \<in> link_key ` set (entity_links s))"
  unfolding graph_upto_def shadow_upto_def by blast

lemma shadow_uptoI:
  assumes "\<And>l lid c e. lk_find l s = Some lid \<Longrightarrow> e < 2 ^ 32 \<Longrightarrow>
     ((e, lid, c) \<in> link_key ` set (entity_links s) \<longrightarrow> (\<exists>b\<in>bindings s. pack c e \<in> frag_value b l s)) \<and>
     ((e, lid, c) \<notin> M \<longrightarrow> (\<exists>b\<in>bindings s. pack c e \<in> frag_value b l s) \<longrightarrow>
        (e, lid, c) \<in> link_key ` set (entity_links s))"
  shows "shadow_upto M s"
  using assms unfolding shadow_upto_def by blast

lemma graph_upto_empty: "graph_upto {} s = graph_inv s"
proof -
  have "shadow_upto {} s = shadow_ok s" if "wf_partitions s"
    using rows_ex [OF that] unfolding shadow_upto_def shadow_ok_def by (metis empty_iff)
  then show ?thesis by (auto simp: graph_upto_def graph_inv_def frag_inv_def)
qed

lemma graph_upto_mono: "graph_inv s \<Longrightarrow> graph_upto M s"
  unfolding graph_upto_empty [symmetric] graph_upto_def shadow_upto_def by blast

text \<open>Adding keys and their bits together.\<close>

lemma graph_upto_add:
  assumes "graph_upto M s" "frag_inv s'" "link_buffer s' = None"
    "linkage_types s' = linkage_types s" "next_lid s' = next_lid s" "bindings s' = bindings s" "bb \<in> bindings s"
    "link_key ` set (entity_links s') = link_key ` set (entity_links s) \<union> (\<lambda>(l, c, e). (e, f l, c)) ` A"
    "\<And>b k. frag_value b k s' = (if b = bb then frag_value b k s \<union> {v. \<exists>l c e. (l, c, e) \<in> A \<and> canonical_verb l = k \<and> v = pack c e}
                                else frag_value b k s)"
    "\<And>l c e. (l, c, e) \<in> A \<Longrightarrow> lk_find (canonical_verb l) s = Some (f l) \<and> e < 2 ^ 32"
  shows "graph_upto M s'"
proof -
  have wl: "wf_linkages s" "wf_linkages s'"
    using assms(1,4,5) by (simp_all add: graph_upto_def wf_linkages_def)
  have lk: "lk_find n s' = lk_find n s" for n using assms(4) by (rule lk_find_cong)
  have "shadow_upto M s'"
  proof (rule shadow_uptoI)
    fix l lid c e assume l: "lk_find l s' = Some lid" and e: "e < (2 :: nat) ^ 32"
    have l': "lk_find l s = Some lid" using l lk by simp
    have cl: "canonical_verb l = l" using lk_find_Some [OF l'] wl(1) by (auto simp: wf_linkages_def)
    have new: "(e, lid, c) \<in> (\<lambda>(l, c, e). (e, f l, c)) ` A \<longleftrightarrow>
        (\<exists>l2 c2 e2. (l2, c2, e2) \<in> A \<and> canonical_verb l2 = l \<and> pack c e = pack c2 e2)"
    proof
      assume "(e, lid, c) \<in> (\<lambda>(l, c, e). (e, f l, c)) ` A"
      then obtain l2 where a: "(l2, c, e) \<in> A" "lid = f l2" by auto
      then have "canonical_verb l2 = l" using assms(10) lk_find_inj [OF wl(1) l'] by metis
      with a show "\<exists>l2 c2 e2. (l2, c2, e2) \<in> A \<and> canonical_verb l2 = l \<and> pack c e = pack c2 e2" by blast
    next
      assume "\<exists>l2 c2 e2. (l2, c2, e2) \<in> A \<and> canonical_verb l2 = l \<and> pack c e = pack c2 e2"
      then obtain l2 c2 e2 where a: "(l2, c2, e2) \<in> A" "canonical_verb l2 = l" "pack c e = pack c2 e2" by blast
      then have "c = c2" "e = e2" using assms(10) e pack_inj by metis+
      moreover have "f l2 = lid" using assms(10) [OF a(1)] a(2) l' by simp
      ultimately show "(e, lid, c) \<in> (\<lambda>(l, c, e). (e, f l, c)) ` A" using a(1) by force
    qed
    show "((e, lid, c) \<in> link_key ` set (entity_links s') \<longrightarrow> (\<exists>b\<in>bindings s'. pack c e \<in> frag_value b l s')) \<and>
        ((e, lid, c) \<notin> M \<longrightarrow> (\<exists>b\<in>bindings s'. pack c e \<in> frag_value b l s') \<longrightarrow> (e, lid, c) \<in> link_key ` set (entity_links s'))"
    proof -
      have "(\<exists>b\<in>bindings s'. pack c e \<in> frag_value b l s') \<longleftrightarrow> (\<exists>b\<in>bindings s. pack c e \<in> frag_value b l s) \<or>
          (\<exists>l2 c2 e2. (l2, c2, e2) \<in> A \<and> canonical_verb l2 = l \<and> pack c e = pack c2 e2)"
        unfolding assms(6,9) using assms(7) by auto
      then show ?thesis unfolding assms(8) Un_iff new using shadow_uptoD [OF assms(1) l' e, of c] by blast
    qed
  qed
  then show ?thesis using assms(2,3) wl by (simp add: graph_upto_def)
qed

lemma resolve_linkages_ok:
  "resolve_linkages items s = Inr () \<Longrightarrow> it \<in> set items \<Longrightarrow>
     lk_find (canonical_verb (i_verb it)) s = Some (linkage_id_or (i_verb it) s)"
  by (induction items s rule: resolve_linkages.induct)
    (auto simp: bind_r_Inr get_linkage_Inr linkage_id_or_def i_verb_def)

lemma linkage_id_or_cong: "linkage_types s = linkage_types t \<Longrightarrow> linkage_id_or l s = linkage_id_or l t"
  by (simp add: linkage_id_or_def lk_find_def)

lemma graph_upto_link:
  assumes "graph_upto M s" "link now linkage c e w prot s = Inr (r, s')" "e < 2 ^ 32"
  shows "graph_upto M s'"
proof -
  have nb: "link_buffer s = None" and fi: "frag_inv s" using assms(1) by (simp_all add: graph_upto_def)
  let ?l = "canonical_verb linkage" let ?s2 = "snd (set_bit_new ?l (pack c e) s)"
  obtain lid where lid: "lk_find ?l s = Some lid"
    and g: "same_graph s' (?s2\<lparr>entity_links := put_link_row True e lid c w (entity_links s)\<rparr>)"
    using link_effect [OF nb assms(2)] by (auto simp: Let_def)
  note d = same_graphD [OF g]
  show ?thesis
  proof (rule graph_upto_add [OF assms(1), where bb = "bound s" and A = "{(?l, c, e)}" and f = "\<lambda>_. lid"])
    show "frag_inv s'" using d(2) frag_inv_set_bit [OF fi] by simp
    show "link_buffer s' = None" "linkage_types s' = linkage_types s" "next_lid s' = next_lid s"
      "bindings s' = bindings s" using d nb by simp_all
    show "bound s \<in> bindings s" using fi by (simp add: frag_inv_def bound_in_bindings)
    show "link_key ` set (entity_links s') = link_key ` set (entity_links s) \<union> (\<lambda>(l, c, e). (e, lid, c)) ` {(?l, c, e)}"
      using d by auto
    fix b k
    show "frag_value b k s' = (if b = bound s then frag_value b k s \<union>
        {v. \<exists>l' c' e'. (l', c', e') \<in> {(?l, c, e)} \<and> canonical_verb l' = k \<and> v = pack c' e'} else frag_value b k s)"
      using d by (auto simp: set_bit_value)
  qed (use lid assms(3) in auto)
qed

lemma graph_upto_bulk:
  assumes "graph_upto M s" "bulk_link now u items s = Inr (n, s')" "\<forall>it\<in>set items. i_entity it < 2 ^ 32"
  shows "graph_upto M s'"
proof -
  have fi: "frag_inv s" using assms(1) by (simp add: graph_upto_def)
  obtain items' where k: "item_key ` set items' = item_key ` set items" and res: "resolve_linkages items' s = Inr ()"
    and g: "same_graph s' (upsert_rows u items' (snd (bulk_bits items' s)))"
    using bulk_link_effect [OF assms(2)] by blast
  note d = same_graphD [OF g]
  let ?f = "\<lambda>l. linkage_id_or l s"
  have lo: "linkage_id_or l (snd (bulk_bits items' s)) = linkage_id_or l s" for l
    by (rule linkage_id_or_cong) simp
  show ?thesis
  proof (rule graph_upto_add [OF assms(1), where bb = "bound s" and A = "item_key ` set items'" and f = ?f])
    show "frag_inv s'" using d(2) bulk_bits_frag_inv [OF fi] by (simp add: upsert_rows_def)
    show "link_buffer s' = None" "linkage_types s' = linkage_types s" "next_lid s' = next_lid s"
      "bindings s' = bindings s" using d assms(1) by (simp_all add: upsert_rows_def graph_upto_def)
    show "bound s \<in> bindings s" using fi by (simp add: frag_inv_def bound_in_bindings)
    have "(\<lambda>(l, c, e). (e, ?f l, c)) ` item_key ` set items' = (\<lambda>it. (i_entity it, ?f (i_verb it), i_concept it)) ` set items'"
      by (simp add: image_image item_key_def)
    then show "link_key ` set (entity_links s') = link_key ` set (entity_links s) \<union>
        (\<lambda>(l, c, e). (e, ?f l, c)) ` item_key ` set items'"
      using d by (simp add: upsert_rows_def keys_put_rows lo)
    fix b k
    have "item_bits items' k = {v. \<exists>l c e. (l, c, e) \<in> item_key ` set items' \<and> canonical_verb l = k \<and> v = pack c e}"
      by (auto simp: item_bits_def item_key_def image_iff)
    then show "frag_value b k s' = (if b = bound s then frag_value b k s \<union>
        {v. \<exists>l' c' e'. (l', c', e') \<in> item_key ` set items' \<and> canonical_verb l' = k \<and> v = pack c' e'}
        else frag_value b k s)"
      using d by (simp add: upsert_rows_def bulk_bits_value)
  next
    fix l c e assume "(l, c, e) \<in> item_key ` set items'"
    moreover have "\<forall>x\<in>item_key ` set items'. snd (snd x) < 2 ^ 32"
      using k assms(3) by (auto simp: item_key_def)
    ultimately show "lk_find (canonical_verb l) s = Some (?f l) \<and> e < 2 ^ 32"
      using resolve_linkages_ok [OF res] by (auto simp: item_key_def)
  qed
qed

lemma graph_upto_many:
  assumes "graph_upto M s" "link_many now linkage c ids s = Inr (n, s')" "\<forall>e\<in>set ids. e < 2 ^ 32"
  shows "graph_upto M s'"
proof -
  have fi: "frag_inv s" using assms(1) by (simp add: graph_upto_def)
  let ?l = "canonical_verb linkage"
  obtain lid where lid: "lk_find ?l s = Some lid"
    and rows: "entity_links s' = link_many_rows lid c ids (entity_links s)"
    and fv: "\<And>b k. frag_value b k s' = (if b = bound s \<and> k = ?l then frag_value b k s \<union> pack c ` set ids else frag_value b k s)"
    and fr: "bound s' = bound s" "partitions s' = partitions s" "linkage_types s' = linkage_types s"
      "next_lid s' = next_lid s" "link_buffer s' = link_buffer s" "frag_inv s'"
    using link_many_effect [OF assms(2)] fi by blast
  show ?thesis
  proof (rule graph_upto_add [OF assms(1) fr(6), where bb = "bound s" and A = "(\<lambda>e. (linkage, c, e)) ` set ids" and f = "\<lambda>_. lid"])
    show "link_buffer s' = None" "linkage_types s' = linkage_types s" "next_lid s' = next_lid s"
      using fr assms(1) by (simp_all add: graph_upto_def)
    show "bindings s' = bindings s" using fr by (simp add: bindings_def)
    show "bound s \<in> bindings s" using fi by (simp add: frag_inv_def bound_in_bindings)
    show "link_key ` set (entity_links s') = link_key ` set (entity_links s) \<union>
        (\<lambda>(l, c, e). (e, lid, c)) ` (\<lambda>e. (linkage, c, e)) ` set ids"
      unfolding rows link_many_keys by (simp add: image_image)
    fix b k
    show "frag_value b k s' = (if b = bound s then frag_value b k s \<union>
        {v. \<exists>l' c' e'. (l', c', e') \<in> (\<lambda>e. (linkage, c, e)) ` set ids \<and> canonical_verb l' = k \<and> v = pack c' e'}
        else frag_value b k s)"
      by (auto simp: fv)
  qed (use lid assms(3) in auto)
qed

lemma graph_upto_unlink:
  assumes "graph_upto M s" "unlink now linkage c e s = Inr (r, s')" "e < 2 ^ 32"
    "\<forall>lid. lk_find (canonical_verb linkage) s = Some lid \<and> (e, lid, c) \<notin> M \<longrightarrow>
       (\<forall>b\<in>bindings s. b \<noteq> bound s \<longrightarrow> pack c e \<notin> frag_value b (canonical_verb linkage) s)"
  shows "graph_upto M s'"
proof -
  let ?l = "canonical_verb linkage"
  have fi: "frag_inv s" and wl: "wf_linkages s" using assms(1) by (simp_all add: graph_upto_def)
  obtain lid where lid: "lk_find ?l s = Some lid"
    and rows: "entity_links s' = filter (\<lambda>x. link_key x \<noteq> (e, lid, c)) (entity_links s)"
    and fv: "\<And>b k. frag_value b k s' = (if b = bound s \<and> k = ?l then frag_value b k s - {pack c e} else frag_value b k s)"
    and fr: "bound s' = bound s" "partitions s' = partitions s" "linkage_types s' = linkage_types s"
      "next_lid s' = next_lid s" "link_buffer s' = link_buffer s" "frag_inv s'"
    using unlink_effect [OF assms(2)] fi by blast
  have bs: "bindings s' = bindings s" using fr(2) by (simp add: bindings_def)
  have lk: "lk_find n s' = lk_find n s" for n using fr(3) by (rule lk_find_cong)
  have "shadow_upto M s'"
  proof (rule shadow_uptoI)
    fix l lid' c' e' assume l: "lk_find l s' = Some lid'" and e: "e' < (2 :: nat) ^ 32"
    have l': "lk_find l s = Some lid'" using l lk by simp
    have key: "(e', lid', c') \<in> link_key ` set (entity_links s') \<longleftrightarrow>
        (e', lid', c') \<in> link_key ` set (entity_links s) \<and> (e', lid', c') \<noteq> (e, lid, c)" by (auto simp: rows)
    have lids: "lid' = lid \<longleftrightarrow> l = ?l"
    proof
      assume "lid' = lid"
      then show "l = ?l" using lk_find_inj [OF wl _ lid, of l] l' by simp
    next
      assume "l = ?l"
      then have "lk_find ?l s = Some lid'" using l' by simp
      then show "lid' = lid" using lid by simp
    qed
    note old = shadow_uptoD [OF assms(1) l' e, of c']
    show "((e', lid', c') \<in> link_key ` set (entity_links s') \<longrightarrow> (\<exists>b\<in>bindings s'. pack c' e' \<in> frag_value b l s')) \<and>
        ((e', lid', c') \<notin> M \<longrightarrow> (\<exists>b\<in>bindings s'. pack c' e' \<in> frag_value b l s') \<longrightarrow>
           (e', lid', c') \<in> link_key ` set (entity_links s'))"
    proof (cases "(e', lid', c') = (e, lid, c)")
      case True
      then have l2: "l = ?l" "e' = e" "c' = c" "lid' = lid" using lids by simp_all
      have "(e, lid, c) \<notin> M \<Longrightarrow> b \<in> bindings s \<Longrightarrow> pack c e \<notin> frag_value b ?l s'" for b
        using assms(4) lid by (simp add: fv)
      moreover have "(e, lid, c) \<notin> link_key ` set (entity_links s')" by (auto simp: rows)
      ultimately show ?thesis unfolding bs l2 by blast
    next
      case False
      then have "l \<noteq> ?l \<or> pack c' e' \<noteq> pack c e" using lids pack_inj [OF e assms(3), of c' c] by blast
      then have "(pack c' e' \<in> frag_value b l s') = (pack c' e' \<in> frag_value b l s)" for b
        unfolding fv by auto
      then show ?thesis using False old by (simp add: bs key)
    qed
  qed
  then show ?thesis using assms(1) fr by (simp add: graph_upto_def wf_linkages_def)
qed

lemmas graph_inv_link = graph_upto_link [where M = "{}", unfolded graph_upto_empty]

section \<open>Every reachable store keeps the shadow\<close>

text \<open>The steps of a store that is written by one process: links, batches, reads, flushes, changes of
  partition, and reopenings: a close flushes, and the next process starts with empty caches and
  enters a partition. \<open>M\<close> are the keys that may be unlinked under one partition while the fragment of
  another one holds their bit.\<close>

inductive graph_step :: "(nat \<times> nat \<times> nat) set \<Rightarrow> store \<Rightarrow> store \<Rightarrow> bool" for M where
  step_link: "link now l c e w p s = Inr (r, s') \<Longrightarrow> e < 2 ^ 32 \<Longrightarrow> graph_step M s s'"
| step_unlink: "unlink now l c e s = Inr (r, s') \<Longrightarrow> e < 2 ^ 32 \<Longrightarrow>
    \<forall>lid. lk_find (canonical_verb l) s = Some lid \<and> (e, lid, c) \<notin> M \<longrightarrow>
      (\<forall>b\<in>bindings s. b \<noteq> bound s \<longrightarrow> pack c e \<notin> frag_value b (canonical_verb l) s) \<Longrightarrow> graph_step M s s'"
| step_bulk: "bulk_link now u items s = Inr (n, s') \<Longrightarrow> \<forall>it\<in>set items. i_entity it < 2 ^ 32 \<Longrightarrow> graph_step M s s'"
| step_many: "link_many now l c ids s = Inr (n, s') \<Longrightarrow> \<forall>e\<in>set ids. e < 2 ^ 32 \<Longrightarrow> graph_step M s s'"
| step_load: "graph_step M s (snd (load_bitmap l c s))"
| step_flush: "graph_step M s (flush_fragments s)"
| step_enter: "graph_step M s (enter_partition n s)"
| step_reopen: "graph_step M s (enter_partition n (clear_caches (flush_fragments s)))"

inductive_cases graph_stepE: "graph_step M s s'"

lemma graph_upto_same_rows:
  assumes "graph_upto M s" "frag_inv s'" "rows_of_store s' = rows_of_store s" "entity_links s' = entity_links s"
    "linkage_types s' = linkage_types s" "next_lid s' = next_lid s" "link_buffer s' = link_buffer s"
  shows "graph_upto M s'"
proof -
  have lk: "lk_find n s' = lk_find n s" for n using assms(5) by (rule lk_find_cong)
  have wp: "wf_partitions s" "wf_partitions s'" using assms(1,2) by (simp_all add: graph_upto_def frag_inv_def)
  have "(\<exists>b\<in>bindings s'. pack c e \<in> frag_value b l s') = (\<exists>b\<in>bindings s. pack c e \<in> frag_value b l s)" if "e < 2 ^ 32" for c e l
    unfolding rows_ex [OF wp(1) that, symmetric] rows_ex [OF wp(2) that, symmetric] assms(3) ..
  moreover have "shadow_upto M s" using assms(1) by (simp add: graph_upto_def)
  ultimately have "shadow_upto M s'" unfolding shadow_upto_def lk assms(4) by blast
  then show ?thesis using assms by (simp add: graph_upto_def wf_linkages_def)
qed

lemmas graph_inv_same_rows = graph_upto_same_rows [where M = "{}", unfolded graph_upto_empty]

lemma step_frames:
  "next_lid (flush_fragments s) = next_lid s" "link_buffer (flush_fragments s) = link_buffer s"
  "entity_links (enter_partition n s) = entity_links s" "linkage_types (enter_partition n s) = linkage_types s"
  "next_lid (enter_partition n s) = next_lid s" "link_buffer (enter_partition n s) = link_buffer s"
proof -
  have "next_lid (fold flush_entry D s) = next_lid s \<and> link_buffer (fold flush_entry D s) = link_buffer s" for D
    by (induction D arbitrary: s) (auto simp: flush_entry_def Let_def split: option.split)
  then show "next_lid (flush_fragments s) = next_lid s" "link_buffer (flush_fragments s) = link_buffer s"
    by (simp_all add: flush_fragments_def)
qed (simp_all add: enter_partition_def insert_partition_def Let_def split: option.split)

lemma graph_upto_enter: "graph_upto M s \<Longrightarrow> graph_upto M (enter_partition n s)"
  using enter_partition_ok [of s n]
  by - (rule graph_upto_same_rows [of M s], simp_all add: step_frames graph_upto_def)

lemma graph_step_upto: "graph_step M s s' \<Longrightarrow> graph_upto M s \<Longrightarrow> graph_upto M s'"
proof (induction rule: graph_step.induct)
  case (step_load s l c)
  have eq: "snd (load_bitmap l c s) = snd (load_fragment l s)" by (simp add: load_bitmap_def split_beta)
  have fi: "frag_inv s" using step_load by (simp add: graph_upto_def)
  have "frag_inv (snd (load_bitmap l c s))" using fragments.exec_inv [OF fi, of "ReadRow l c"] by simp
  moreover have "rows_of_store (snd (load_bitmap l c s)) = rows_of_store s"
    using fragments.exec_abs [OF fi, of "ReadRow l c"] by simp
  ultimately show ?case using step_load unfolding eq by - (rule graph_upto_same_rows [of M s], simp_all)
next
  case (step_flush s)
  have fi: "frag_inv s" using step_flush by (simp add: graph_upto_def)
  then show ?case
    using step_flush fragments.exec_inv [OF fi, of Flush] fragments.exec_abs [OF fi, of Flush]
    by - (rule graph_upto_same_rows [of M s], simp_all add: step_frames)
next
  case (step_enter s n)
  then show ?case by (rule graph_upto_enter)
next
  case (step_reopen s n)
  have fi: "frag_inv s" using step_reopen by (simp add: graph_upto_def)
  have "entity_links (clear_caches (flush_fragments s)) = entity_links s"
    "linkage_types (clear_caches (flush_fragments s)) = linkage_types s"
    "next_lid (clear_caches (flush_fragments s)) = next_lid s" "link_buffer (clear_caches (flush_fragments s)) = link_buffer s"
    by (simp_all add: clear_caches_def step_frames)
  then have "graph_upto M (clear_caches (flush_fragments s))"
    using step_reopen fragments.exec_inv [OF fi, of Reopen] fragments.exec_abs [OF fi, of Reopen]
    by - (rule graph_upto_same_rows [of M s], simp_all)
  then show ?case by (rule graph_upto_enter)
qed (blast intro: graph_upto_link graph_upto_unlink graph_upto_bulk graph_upto_many)+

lemma graph_step_inv: "graph_step {} s s' \<Longrightarrow> graph_inv s \<Longrightarrow> graph_inv s'"
  using graph_step_upto [of "{}" s s'] by (simp add: graph_upto_empty)


text \<open>A store with one linkage type.\<close>

definition mentions_store :: store where
  "mentions_store = snd (add_linkage_type 0 ''mentions'' True None (open_store ''a''))"

lemma mentions_store_simps [simp]:
  "lk_find ''mentions'' mentions_store = Some 1" "entity_links mentions_store = []"
  "bound mentions_store = (1, ''a'')" "link_buffer mentions_store = None" "cache mentions_store = []"
  "disk mentions_store = []" "frag_value b k mentions_store = {}" "entities mentions_store = []"
  "dirty mentions_store = []"
  by (simp_all add: mentions_store_def add_linkage_type_def Let_def lk_find_def canonical_verb_def
      verb_aliases_def frag_value_def disk_value_def)

lemma mentions_store_inv [simp]: "graph_inv mentions_store"
proof -
  have "frag_inv (open_store ''a'')" using open_store_frag_ok by (simp add: frag_inv_def)
  then have f: "frag_inv mentions_store" by (simp add: mentions_store_def)
  have "wf_linkages (open_store ''a'')" by (simp add: wf_linkages_def)
  then have "wf_linkages mentions_store" by (simp add: mentions_store_def add_linkage_wf)
  moreover have "shadow_ok mentions_store"
    using f by (intro shadow_okI) (simp_all add: frag_inv_def)
  ultimately show ?thesis using f by (simp add: graph_inv_def)
qed


text \<open>A key of \<open>M\<close>: the other partition keeps its bit and the row is gone.\<close>

lemma unlink_shared_bit:
  assumes "unlink now l c e s = Inr (r, s')" "lk_find (canonical_verb l) s = Some lid"
    and "b \<noteq> bound s" "pack c e \<in> frag_value b (canonical_verb l) s"
  shows "(e, lid, c) \<notin> link_key ` set (entity_links s') \<and> pack c e \<in> frag_value b (canonical_verb l) s'"
  using unlink_effect [OF assms(1)] assms(2-4) by (cases b) auto

section \<open>Single links\<close>

lemma find_put_row:
  "map_option k_weight (find (\<lambda>r. link_key r = k) (put_link_row u e lid c w rows)) =
     (if k = (e, lid, c) then
        (case map_option k_weight (find (\<lambda>r. link_key r = k) rows) of
           None \<Rightarrow> Some w | Some old \<Rightarrow> Some (if u then coalesce w old else old))
      else map_option k_weight (find (\<lambda>r. link_key r = k) rows))"
proof (cases "(e, lid, c) \<in> link_key ` set rows")
  case True
  then obtain r where r: "find (\<lambda>r. link_key r = (e, lid, c)) rows = Some r"
    by (cases "find (\<lambda>r. link_key r = (e, lid, c)) rows") (auto simp: find_None_iff)
  let ?f = "\<lambda>r. if link_key r = (e, lid, c) then r\<lparr>k_weight := coalesce w (k_weight r)\<rparr> else r"
  have "link_key (?f r) = link_key r" for r by (simp add: link_key_def)
  then have "find (\<lambda>r. link_key r = k) (map ?f rows) = map_option ?f (find (\<lambda>r. link_key r = k) rows)"
    by (rule find_key_map)
  moreover have "link_key x = k" if "find (\<lambda>r. link_key r = k) rows = Some x" for x
    using that by (auto dest: find_SomeD)
  ultimately show ?thesis using True r
    by (cases "find (\<lambda>r. link_key r = k) rows") (auto simp: put_link_row_def)
next
  case False
  then have "find (\<lambda>r. link_key r = (e, lid, c)) rows = None" by (force simp: find_None_iff)
  with False show ?thesis
    by (auto simp: put_link_row_def find_key_append link_key_def split: option.split)
qed

lemma name_of_protect [simp]: "name_of i (protect_ids ids s) = name_of i s"
proof -
  have "find (\<lambda>e. e_id e = i) (map (\<lambda>e. if e_id e \<in> set ids then e\<lparr>e_protected := True\<rparr> else e) (entities s)) =
      map_option (\<lambda>e. if e_id e \<in> set ids then e\<lparr>e_protected := True\<rparr> else e) (find (\<lambda>e. e_id e = i) (entities s))"
    by (rule find_key_map) simp
  then show ?thesis by (cases "find (\<lambda>e. e_id e = i) (entities s)") (simp_all add: name_of_def protect_ids_def)
qed

lemma set_bit_only:
  "s = (snd (set_bit_new l v s))\<lparr>cache := cache s, dirty := dirty s\<rparr>"
  by (simp add: set_bit_new_def split_beta load_fragment_def mutate_fragment_def mark_dirty_def Let_def split: option.split)

text \<open>The events of a link.\<close>

definition events_of_link :: "string \<Rightarrow> nat \<Rightarrow> nat \<Rightarrow> weight option \<Rightarrow> bool \<Rightarrow> store \<Rightarrow> event list" where
  "events_of_link l c e w prot s =
     (case (name_of c s, name_of e s) of
        (Some (ck, cn), Some (ek, en)) \<Rightarrow>
          EvLink \<lparr>x_linkage = l, x_ckind = Some ck, x_c = cn, x_ekind = ek, x_e = en\<rparr> w #
          (if prot then [EvProtect ck cn True, EvProtect ek en True] else [])
      | _ \<Rightarrow> [])"

lemma link_frame:
  assumes "link_buffer s = None" "link now l c e w prot s = Inr (r, s')"
  shows "s'\<lparr>cache := cache s, dirty := dirty s, entity_links := entity_links s, entities := entities s, facts_log := facts_log s\<rparr> = s"
    and "entities s' = (if prot then map (\<lambda>x. if e_id x = c \<or> e_id x = e then x\<lparr>e_protected := True\<rparr> else x) (entities s)
           else entities s)"
    and "facts_log s' = facts_log (log_events now (events_of_link (canonical_verb l) c e w prot s) s)"
proof -
  let ?l = "canonical_verb l"
  let ?s2 = "snd (set_bit_new ?l (pack c e) s)"
  obtain lid where g: "get_linkage_id ?l s = Inr lid"
    using assms by (auto simp: link_def Let_def bind_r_Inr)
  define s3 where "s3 = ?s2\<lparr>entity_links := put_link_row True e lid c w (entity_links s)\<rparr>"
  define s4 where "s4 = (if prot then protect_ids [c, e] s3 else s3)"
  have names: "name_of i s4 = name_of i s" for i by (simp add: s4_def s3_def) (simp add: name_of_def)
  have s': "s' = (case (name_of c s, name_of e s) of
      (Some cn, Some en) \<Rightarrow>
        (let s5 = log_event now (EvLink (edge_of ?l cn en) w) s4
         in if prot then log_event now (EvProtect (fst en) (snd en) True) (log_event now (EvProtect (fst cn) (snd cn) True) s5) else s5)
    | _ \<Rightarrow> s4)"
    using assms g names [unfolded s4_def s3_def]
    by (auto simp: link_def Let_def split_beta s4_def s3_def split: option.split)
  have only2: "?s2\<lparr>cache := cache s, dirty := dirty s\<rparr> = s" by (rule set_bit_only [symmetric])
  have only: "s4\<lparr>cache := cache s, dirty := dirty s, entity_links := entity_links s, entities := entities s\<rparr> = s"
    using only2 unfolding s4_def s3_def protect_ids_def by (cases s; cases "?s2") simp
  have logs: "facts_log s4 = facts_log s" "log_enabled s4 = log_enabled s" "replay_mode s4 = replay_mode s"
    using arg_cong [OF only, of facts_log] arg_cong [OF only, of log_enabled] arg_cong [OF only, of replay_mode] by simp_all
  have ents: "entities s' = entities s4" unfolding s' by (auto simp: Let_def split: option.split)
  show "s'\<lparr>cache := cache s, dirty := dirty s, entity_links := entity_links s, entities := entities s, facts_log := facts_log s\<rparr> = s"
    using only logs(1) unfolding s' by (cases s; cases s4) (auto simp: Let_def log_event_def split: option.split)
  show "entities s' = (if prot then map (\<lambda>x. if e_id x = c \<or> e_id x = e then x\<lparr>e_protected := True\<rparr> else x) (entities s)
           else entities s)"
    unfolding ents by (simp add: s4_def s3_def protect_ids_def)
  show "facts_log s' = facts_log (log_events now (events_of_link ?l c e w prot s) s)"
    unfolding s' by (auto simp: Let_def log_event_def log_events_def logs events_of_link_def edge_of_def split: option.split)
qed

text \<open>C9. A direct \<open>link\<close> sets its bit in the fragment of the bound partition and writes its row,
  where a missing weight keeps a stored one; it returns whether the bit was new. With \<open>protect\<close> it
  protects the two ends, and it logs what it did. No other bit, no other row and no other entity
  changes, and nothing else of the store does; the fragment becomes dirty in the cache only.\<close>

theorem link_correct:
  assumes "link_buffer s = None" "lk_find (canonical_verb l) s = Some lid"
  shows "\<exists>s'. link now l c e w prot s = Inr (pack c e \<notin> frag_value (bound s) (canonical_verb l) s, s') \<and>
    pack c e \<in> frag_value (bound s) (canonical_verb l) s' \<and>
    (\<forall>b k v. (b, k, v) \<noteq> (bound s, canonical_verb l, pack c e) \<longrightarrow> (v \<in> frag_value b k s') = (v \<in> frag_value b k s)) \<and>
    row_weight (e, lid, c) s' =
      Some (case row_weight (e, lid, c) s of None \<Rightarrow> w | Some old \<Rightarrow> if w = None then old else w) \<and>
    (\<forall>k. k \<noteq> (e, lid, c) \<longrightarrow> row_weight k s' = row_weight k s) \<and>
    entities s' = (if prot then map (\<lambda>x. if e_id x = c \<or> e_id x = e then x\<lparr>e_protected := True\<rparr> else x) (entities s)
      else entities s) \<and>
    facts_log s' = facts_log (log_events now (events_of_link (canonical_verb l) c e w prot s) s) \<and>
    s'\<lparr>cache := cache s, dirty := dirty s, entity_links := entity_links s, entities := entities s, facts_log := facts_log s\<rparr> = s"
proof -
  have "get_linkage_id (canonical_verb l) s = Inr lid" using assms(2) by (simp add: get_linkage_Inr)
  then have "\<exists>x. link now l c e w prot s = Inr x" using assms(1) by (simp add: link_def Let_def split_beta)
  then obtain r s' where l: "link now l c e w prot s = Inr (r, s')" by force
  let ?s2 = "snd (set_bit_new (canonical_verb l) (pack c e) s)"
  have r: "r = (pack c e \<notin> frag_value (bound s) (canonical_verb l) s)"
    and g: "same_graph s' (?s2\<lparr>entity_links := put_link_row True e lid c w (entity_links s)\<rparr>)"
    using link_effect [OF assms(1) l] assms(2) by (auto simp: Let_def)
  note d = same_graphD [OF g]
  have co: "coalesce w old = (if w = None then old else w)" for old by (simp add: coalesce_def split: option.split)
  have rows: "row_weight k s' = (if k = (e, lid, c) then Some (case row_weight k s of None \<Rightarrow> w
        | Some old \<Rightarrow> if w = None then old else w) else row_weight k s)" for k
    unfolding row_weight_def d by (simp add: find_put_row co split: option.split)
  have bits: "frag_value b k s' = (if b = bound s \<and> k = canonical_verb l then insert (pack c e) (frag_value b k s)
      else frag_value b k s)" for b k
    unfolding d by (simp add: set_bit_value)
  show ?thesis using l r link_frame [OF assms(1) l] by (intro exI [of _ s'] conjI) (simp_all add: rows bits)
qed

theorem link_correct_witness:
  "\<exists>s'. link 0 ''mentions'' 7 5 (Some 2) False mentions_store = Inr (True, s') \<and>
     pack 7 5 \<in> frag_value (1, ''a'') ''mentions'' s' \<and> row_weight (5, 1, 7) s' = Some (Some 2)"
  using link_correct [of mentions_store "''mentions''" 1 0 7 5 "Some 2" False]
  by (auto simp: canonical_verb_def verb_aliases_def row_weight_def)

end
