(* ===== verification/Batches.thy ===== *)
theory Batches
  imports Links
begin

text \<open>
  Batches of links against single links: \<open>bulk_link\<close> in its two weight modes, the buffered scope
  \<open>deferred_links\<close>, and the derived edges of \<open>derive_called_by\<close>. The reference is \<open>link_seq\<close>, one
  direct \<open>link\<close> per item.
\<close>

fun link_seq :: "time \<Rightarrow> link_item list \<Rightarrow> store \<Rightarrow> (nat \<times> store) result" where
  "link_seq now [] s = Inr (0, s)"
| "link_seq now ((l, c, e, w) # items) s =
     bind_r (link now l c e w False s) (\<lambda>(new, s1).
       bind_r (link_seq now items s1) (\<lambda>(n, s2). Inr ((if new then Suc n else n), s2)))"

lemma link_result:
  assumes "link_buffer s = None"
  shows "case lk_find (canonical_verb l) s of
      None \<Rightarrow> link now l c e w p s = Inl (KeyError (''unknown linkage type: '' @ canonical_verb l))
    | Some lid \<Rightarrow> \<exists>s'. link now l c e w p s = Inr (pack c e \<notin> frag_value (bound s) (canonical_verb l) s, s') \<and>
        entity_links s' = put_link_row True e lid c w (entity_links s) \<and>
        (\<forall>b k. frag_value b k s' = (if b = bound s \<and> k = canonical_verb l then insert (pack c e) (frag_value b k s)
                                    else frag_value b k s)) \<and>
        bound s' = bound s \<and> linkage_types s' = linkage_types s \<and> link_buffer s' = None"
proof (cases "lk_find (canonical_verb l) s")
  case None
  then have "get_linkage_id (canonical_verb l) s = Inl (KeyError (''unknown linkage type: '' @ canonical_verb l))"
    by (simp add: get_linkage_id_def)
  then show ?thesis using None assms by (simp add: link_def Let_def)
next
  case (Some lid)
  then have "get_linkage_id (canonical_verb l) s = Inr lid" by (simp add: get_linkage_Inr)
  then have "\<exists>x. link now l c e w p s = Inr x" using assms by (simp add: link_def Let_def split_beta)
  then obtain r s' where l: "link now l c e w p s = Inr (r, s')" by force
  let ?s2 = "snd (set_bit_new (canonical_verb l) (pack c e) s)"
  have r: "r = (pack c e \<notin> frag_value (bound s) (canonical_verb l) s)"
    and g: "same_graph s' (?s2\<lparr>entity_links := put_link_row True e lid c w (entity_links s)\<rparr>)"
    using link_effect [OF assms l] Some by (auto simp: Let_def)
  show ?thesis
    unfolding Some option.case using l r same_graphD [OF g] assms
    by (intro exI [of _ s']) (simp add: set_bit_value)
qed

lemma bulk_bits_cong:
  "bound s = bound t \<Longrightarrow> (\<And>k. frag_value (bound s) k s = frag_value (bound s) k t) \<Longrightarrow>
     fst (bulk_bits items s) = fst (bulk_bits items t)"
proof (induction items arbitrary: s t)
  case (Cons it items)
  let ?n = "\<lambda>s. snd (set_bit_new (i_verb it) (pack (i_concept it) (i_entity it)) s)"
  have "fst (bulk_bits items (?n s)) = fst (bulk_bits items (?n t))"
    using Cons.prems by (intro Cons.IH) (simp_all add: set_bit_value)
  then show ?case unfolding bulk_bits_step using Cons.prems by simp
qed simp

lemma resolve_cong: "linkage_types s = linkage_types t \<Longrightarrow> resolve_linkages items s = resolve_linkages items t"
proof (induction items)
  case (Cons it items)
  then have "get_linkage_id l s = get_linkage_id l t" for l
    by (simp add: get_linkage_id_def lk_find_def)
  with Cons show ?case by (cases it) simp
qed simp

lemma link_seq_effect:
  "link_buffer s = None \<Longrightarrow>
   (case resolve_linkages items s of
      Inl x \<Rightarrow> link_seq now items s = Inl x
    | Inr _ \<Rightarrow> \<exists>s'. link_seq now items s = Inr (length (fst (bulk_bits items s)), s') \<and>
        entity_links s' = foldl (\<lambda>rows (l, c, e, w). put_link_row True e (linkage_id_or l s) c w rows) (entity_links s) items \<and>
        (\<forall>b k. frag_value b k s' = (if b = bound s then frag_value b k s \<union> item_bits items k else frag_value b k s)) \<and>
        bound s' = bound s \<and> link_buffer s' = None)"
proof (induction items arbitrary: s)
  case Nil
  then show ?case by (simp add: item_bits_def)
next
  case (Cons it items)
  obtain l c e w where it: "it = (l, c, e, w)" by (cases it)
  show ?case
  proof (cases "lk_find (canonical_verb l) s")
    case None
    then show ?thesis using link_result [OF Cons.prems, where l = l and now = now and c = c and e = e and w = w and p = False] it
      by (simp add: get_linkage_id_def)
  next
    case (Some lid)
    then obtain s1 where s1: "link now l c e w False s = Inr (pack c e \<notin> frag_value (bound s) (canonical_verb l) s, s1)"
      "entity_links s1 = put_link_row True e lid c w (entity_links s)"
      "\<And>b k. frag_value b k s1 = (if b = bound s \<and> k = canonical_verb l then insert (pack c e) (frag_value b k s)
                                    else frag_value b k s)"
      "bound s1 = bound s" "linkage_types s1 = linkage_types s" "link_buffer s1 = None"
      using link_result [OF Cons.prems, where l = l and now = now and c = c and e = e and w = w and p = False] by auto
    have g: "get_linkage_id l s = Inr lid" using Some by (simp add: get_linkage_Inr)
    have res: "resolve_linkages (it # items) s = resolve_linkages items s1"
      using g it resolve_cong [OF s1(5)] by simp
    have lo: "linkage_id_or x s1 = linkage_id_or x s" for x using s1(5) by (rule linkage_id_or_cong)
    have lid: "linkage_id_or l s = lid" using Some by (simp add: linkage_id_or_def)
    have bits: "fst (bulk_bits items s1) = fst (bulk_bits items (snd (set_bit_new l (pack c e) s)))"
      by (rule bulk_bits_cong) (simp_all add: s1 set_bit_value)
    have len: "length (fst (bulk_bits (it # items) s)) =
        (if pack c e \<notin> frag_value (bound s) (canonical_verb l) s then Suc (length (fst (bulk_bits items s1)))
         else length (fst (bulk_bits items s1)))"
      unfolding bulk_bits_step bits it by (simp add: item_parts)
    show ?thesis
    proof (cases "resolve_linkages items s1")
      case (Inl x)
      then have "link_seq now items s1 = Inl x" using Cons.IH [OF s1(6)] by simp
      then show ?thesis using Inl res s1(1) it by simp
    next
      case (Inr u)
      then obtain s' where s': "link_seq now items s1 = Inr (length (fst (bulk_bits items s1)), s')"
        "entity_links s' = foldl (\<lambda>rows (l, c, e, w). put_link_row True e (linkage_id_or l s1) c w rows) (entity_links s1) items"
        "\<And>b k. frag_value b k s' = (if b = bound s1 then frag_value b k s1 \<union> item_bits items k else frag_value b k s1)"
        "bound s' = bound s1" "link_buffer s' = None"
        using Cons.IH [OF s1(6)] by auto
      have "link_seq now (it # items) s = Inr (length (fst (bulk_bits (it # items) s)), s')"
        using s1(1) s'(1) it unfolding len by simp
      moreover have "entity_links s' = foldl (\<lambda>rows (l, c, e, w). put_link_row True e (linkage_id_or l s) c w rows) (entity_links s) (it # items)"
        using s'(2) it by (simp add: lo lid s1(2))
      moreover have "frag_value b k s' = (if b = bound s then frag_value b k s \<union> item_bits (it # items) k else frag_value b k s)" for b k
        using s'(3) it by (auto simp: s1 item_bits_Cons item_parts)
      ultimately show ?thesis using Inr res s'(4,5) s1(4) by auto
    qed
  qed
qed

lemma update_new: "k \<notin> fst ` set d \<Longrightarrow> AList.update k v d = d @ [(k, v)]"
  by (induction d) auto

lemma dedup_items_distinct:
  assumes "distinct (map item_key items)"
  shows "dedup_items items = items"
proof -
  have "foldl (\<lambda>d it. AList.update (item_key it) it d) d items = d @ map (\<lambda>it. (item_key it, it)) items"
    if "distinct (map item_key items)" "fst ` set d \<inter> item_key ` set items = {}" for d
    using that
  proof (induction items arbitrary: d)
    case (Cons it items)
    have "item_key it \<notin> fst ` set d" using Cons.prems(2) by auto
    then have u: "AList.update (item_key it) it d = d @ [(item_key it, it)]" by (rule update_new)
    have "foldl (\<lambda>d it. AList.update (item_key it) it d) (d @ [(item_key it, it)]) items =
        (d @ [(item_key it, it)]) @ map (\<lambda>it. (item_key it, it)) items"
      using Cons.prems by (intro Cons.IH) auto
    then show ?case by (simp add: u)
  qed simp
  from this [of "[]"] assms show ?thesis by (simp add: dedup_items_def comp_def)
qed

lemma bulk_rows_first [simp]: "bulk_rows False items s = Inr (upsert_rows False items s)"
  by (simp add: bulk_rows_def)

lemma resolve_linkages_mono:
  "resolve_linkages items s = Inr () \<Longrightarrow> set xs \<subseteq> set items \<Longrightarrow> resolve_linkages xs s = Inr ()"
proof (induction xs)
  case (Cons x xs)
  obtain l r where x: "x = (l, r)" by (cases x)
  have "get_linkage_id l s \<in> range Inr"
  proof -
    have "x \<in> set items" using Cons.prems(2) by simp
    then have "lk_find (canonical_verb l) s = Some (linkage_id_or l s)"
      using resolve_linkages_ok [OF Cons.prems(1)] by (fastforce simp: x i_verb_def)
    then show ?thesis by (simp add: get_linkage_Inr [symmetric])
  qed
  then show ?case using Cons by (auto simp: x)
qed simp

text \<open>C17. When its items reach different rows, \<open>bulk_link\<close> with \<open>update_weight\<close> is the sequence of
  \<open>link\<close> calls its documentation promises: the same error or the same number of new bits, the same
  rows with the same weights in the same order, the same bits in every partition's fragment. When two
  items with different keys reach one row, as \<open>related_to\<close> and \<open>related-to\<close> on one pair do, the
  collapse does not see it and the write raises.\<close>

theorem bulk_link_update_as_links:
  assumes "link_buffer s = None"
  shows "(distinct (map (row_target s) items) \<longrightarrow>
      (case (bulk_link now True items s, link_seq now items s) of
        (Inl x, Inl y) \<Rightarrow> x = y
      | (Inr (n, a), Inr (m, b)) \<Rightarrow> n = m \<and> entity_links a = entity_links b \<and>
          (\<forall>p k. frag_value p k a = frag_value p k b)
      | _ \<Rightarrow> False)) \<and>
    (resolve_linkages items s = Inr () \<and>
     (\<exists>x\<in>set items. \<exists>y\<in>set items. item_key x \<noteq> item_key y \<and> row_target s x = row_target s y) \<longrightarrow>
      bulk_link now True items s =
        Inl (RuntimeErr ''ON CONFLICT DO UPDATE can not update the same row twice in the same command''))"
proof -
  have tgt: "row_target (snd (bulk_bits xs s)) = row_target s" for xs
    by (rule ext) (simp add: row_target_def linkage_id_or_cong [of "snd (bulk_bits xs s)" s])
  have "case (bulk_link now True items s, link_seq now items s) of
        (Inl x, Inl y) \<Rightarrow> x = y
      | (Inr (n, a), Inr (m, b)) \<Rightarrow> n = m \<and> entity_links a = entity_links b \<and>
          (\<forall>p k. frag_value p k a = frag_value p k b)
      | _ \<Rightarrow> False" if d: "distinct (map (row_target s) items)"
  proof -
    have "row_target s x = (snd (snd (item_key x)), linkage_id_or (fst (item_key x)) s, fst (snd (item_key x)))" for x
      by (simp add: row_target_def item_key_def)
    then have "distinct (map item_key items)"
      using d by (auto simp: distinct_map inj_on_def)
    then have dd: "dedup_items items = items" by (rule dedup_items_distinct)
    note seq = link_seq_effect [OF assms(1), where items = items and now = now]
    show ?thesis
    proof (cases "items = []")
      case True
      then show ?thesis by (simp add: bulk_link_def)
    next
      case False
      show ?thesis
      proof (cases "resolve_linkages items s")
        case (Inl x)
        then show ?thesis using seq False by (simp add: bulk_link_def dd)
      next
        case (Inr u)
        let ?s1 = "snd (bulk_bits items s)"
        have "bulk_rows True items ?s1 = Inr (upsert_rows True items ?s1)" using d by (simp add: bulk_rows_def tgt)
        then have b: "bulk_link now True items s = Inr (length (fst (bulk_bits items s)),
            log_events now (link_events (fst (bulk_bits items s)) (upsert_rows True items ?s1)) (upsert_rows True items ?s1))"
          using False Inr by (simp add: bulk_link_def dd split_beta Let_def)
        have lo: "linkage_id_or l ?s1 = linkage_id_or l s" for l by (rule linkage_id_or_cong) simp
        show ?thesis using seq Inr unfolding b by (auto simp: upsert_rows_def bulk_bits_value lo)
      qed
    qed
  qed
  moreover have "bulk_link now True items s =
        Inl (RuntimeErr ''ON CONFLICT DO UPDATE can not update the same row twice in the same command'')"
    if r: "resolve_linkages items s = Inr ()" and xy: "x \<in> set items" "y \<in> set items" "item_key x \<noteq> item_key y"
      "row_target s x = row_target s y" for x y
  proof -
    let ?d = "dedup_items items"
    have keys: "item_key x \<in> item_key ` set ?d" "item_key y \<in> item_key ` set ?d"
      using xy dedup_items_keys(2) [of items] by auto
    then obtain x' y' where x': "x' \<in> set ?d" "item_key x' = item_key x" and y': "y' \<in> set ?d" "item_key y' = item_key y"
      by (auto simp: image_iff)
    have t: "row_target s u = row_target s v" if "item_key u = item_key v" for u v
      using that by (simp add: row_target_def item_key_def)
    have "row_target s x' = row_target s y'" using t [OF x'(2)] t [OF y'(2)] xy(4) by simp
    moreover have "x' \<noteq> y'" using x'(2) y'(2) xy(3) by auto
    ultimately have nd: "\<not> distinct (map (row_target s) ?d)" using x'(1) y'(1) by (auto simp: distinct_map inj_on_def)
    have "resolve_linkages ?d s = Inr ()" by (rule resolve_linkages_mono [OF r dedup_items_keys(1)])
    moreover have "items \<noteq> []" using xy(1) by auto
    ultimately show ?thesis using nd by (simp add: bulk_link_def bulk_rows_def tgt split_beta Let_def)
  qed
  ultimately show ?thesis by blast
qed

theorem bulk_link_update_as_links_witness:
  "(case (bulk_link 0 True [(''mentions'', 7, 5, Some 2), (''mentions'', 8, 5, None)] mentions_store,
          link_seq 0 [(''mentions'', 7, 5, Some 2), (''mentions'', 8, 5, None)] mentions_store) of
      (Inr (n, a), Inr (m, b)) \<Rightarrow> n = m \<and> entity_links a = entity_links b
    | (Inl x, Inl y) \<Rightarrow> x = y | _ \<Rightarrow> False)"
  using bulk_link_update_as_links [where s = mentions_store and now = 0 and
        items = "[(''mentions'', 7, 5, Some 2), (''mentions'', 8, 5, None)]"]
  by (auto simp: row_target_def item_parts split: sum.splits)

text \<open>With a repeated key the promise fails: in a batch that gives a weight and then repeats
  the key without one, \<open>bulk_link\<close> keeps the last occurrence and stores NULL, where the sequence of
  \<open>link\<close> calls keeps the weight.\<close>

theorem bulk_link_null_weight:
  "(case bulk_link 0 True [(''mentions'', 7, 5, Some 2), (''mentions'', 7, 5, None)] mentions_store of
      Inr (_, a) \<Rightarrow> row_weight (5, 1, 7) a | Inl _ \<Rightarrow> None) = Some None \<and>
   (case link_seq 0 [(''mentions'', 7, 5, Some 2), (''mentions'', 7, 5, None)] mentions_store of
      Inr (_, b) \<Rightarrow> row_weight (5, 1, 7) b | Inl _ \<Rightarrow> None) = Some (Some 2)"
proof
  have cv: "canonical_verb ''mentions'' = ''mentions''" by (simp add: canonical_verb_def verb_aliases_def)
  have lo: "linkage_id_or ''mentions'' s = 1" if "linkage_types s = linkage_types mentions_store" for s
    using lk_find_cong [OF that, of "''mentions''"] by (simp add: linkage_id_or_def cv)
  have dd: "dedup_items [(''mentions'', 7, 5, Some 2), (''mentions'', 7, 5, None)] = [(''mentions'', 7, 5, None)]"
    by (simp add: dedup_items_def item_key_def item_parts)
  have g: "get_linkage_id ''mentions'' mentions_store = Inr 1" by (simp add: get_linkage_Inr cv)
  show "(case bulk_link 0 True [(''mentions'', 7, 5, Some 2), (''mentions'', 7, 5, None)] mentions_store of
      Inr (_, a) \<Rightarrow> row_weight (5, 1, 7) a | Inl _ \<Rightarrow> None) = Some None"
    by (simp add: bulk_link_def dd g Let_def split_beta bulk_rows_def upsert_rows_def lo row_weight_def put_link_row_def link_key_def)
  have "resolve_linkages [(''mentions'', 7, 5, Some 2), (''mentions'', 7, 5, None)] mentions_store = Inr ()"
    by (simp add: g)
  then obtain n s' where s': "link_seq 0 [(''mentions'', 7, 5, Some 2), (''mentions'', 7, 5, None)] mentions_store = Inr (n, s')"
    "entity_links s' = foldl (\<lambda>rows (l, c, e, w). put_link_row True e (linkage_id_or l mentions_store) c w rows)
       (entity_links mentions_store) [(''mentions'', 7, 5, Some 2), (''mentions'', 7, 5, None)]"
    using link_seq_effect [where s = mentions_store and now = 0 and
        items = "[(''mentions'', 7, 5, Some 2), (''mentions'', 7, 5, None)]"] by auto
  then show "(case link_seq 0 [(''mentions'', 7, 5, Some 2), (''mentions'', 7, 5, None)] mentions_store of
      Inr (_, b) \<Rightarrow> row_weight (5, 1, 7) b | Inl _ \<Rightarrow> None) = Some (Some 2)"
    by (simp add: row_weight_def put_link_row_def link_key_def lo coalesce_def)
qed

section \<open>The buffered scope\<close>

definition canon_item :: "link_item \<Rightarrow> link_item" where
  "canon_item it = (canonical_verb (i_verb it), i_concept it, i_entity it, i_weight it)"

lemma link_seq_buffered:
  "link_buffer s = Some buf \<Longrightarrow>
     link_seq now items s = Inr (length items, s\<lparr>link_buffer := Some (buf @ map canon_item items)\<rparr>)"
proof (induction items arbitrary: s buf)
  case Nil
  then show ?case by (cases s) simp
next
  case (Cons it items)
  obtain l c e w where it: "it = (l, c, e, w)" by (cases it)
  show ?case using Cons it
    by (simp add: link_def Let_def canon_item_def item_parts)
qed

lemma canon_item_bits: "item_bits (map canon_item items) = item_bits items"
proof
  fix k show "item_bits (map canon_item items) k = item_bits items k"
  proof (induction items)
    case (Cons it items)
    then show ?case by (simp add: item_bits_Cons canon_item_def item_parts)
  qed (simp add: item_bits_def)
qed

lemma rows_canon:
  "foldl (\<lambda>rows (l, c, e, w). put_link_row u e (linkage_id_or l s) c w rows) rows (map canon_item items) =
   foldl (\<lambda>rows (l, c, e, w). put_link_row u e (linkage_id_or l s) c w rows) rows items"
proof (induction items arbitrary: rows)
  case (Cons it items)
  have "linkage_id_or (canonical_verb l) s = linkage_id_or l s" for l by (simp add: linkage_id_or_def)
  with Cons show ?case by (cases it) (simp add: canon_item_def item_parts)
qed simp

lemma resolve_canon: "resolve_linkages (map canon_item items) s = resolve_linkages items s"
proof (induction items)
  case (Cons it items)
  have "get_linkage_id (canonical_verb l) s = get_linkage_id l s" for l
    by (simp add: get_linkage_id_def split: option.split)
  with Cons show ?case by (cases it) (simp add: canon_item_def item_parts)
qed simp

lemma first_wins:
  "map_option k_weight (find (\<lambda>r. link_key r = k)
     (foldl (\<lambda>rows (l, c, e, w). put_link_row False e (f l) c w rows) rows items)) =
   (case map_option k_weight (find (\<lambda>r. link_key r = k) rows) of
      Some w \<Rightarrow> Some w
    | None \<Rightarrow> map_option i_weight (find (\<lambda>it. (i_entity it, f (i_verb it), i_concept it) = k) items))"
proof (induction items arbitrary: rows)
  case (Cons it items)
  obtain l c e w where it: "it = (l, c, e, w)" by (cases it)
  show ?case using Cons.IH [of "put_link_row False e (f l) c w rows"]
    by (cases "map_option k_weight (find (\<lambda>r. link_key r = k) rows)")
      (auto simp: it find_put_row item_parts split: option.splits)
qed (simp split: option.split)

lemma resolve_all:
  "\<forall>it\<in>set items. lk_find (canonical_verb (i_verb it)) s \<noteq> None \<Longrightarrow> resolve_linkages items s = Inr ()"
proof (induction items)
  case (Cons it items)
  then show ?case by (cases it) (auto simp: get_linkage_id_def i_verb_def)
qed simp

text \<open>C18. Writing links inside \<open>deferred_links\<close> ends in the same bits and the same set of rows as
  writing them directly, and the buffer is gone; only the weights differ: a row keeps the weight
  stored before the scope, else takes the weight of its first occurrence in the buffer.\<close>

theorem deferred_links_graph:
  assumes "link_buffer s = None" "\<forall>it\<in>set items. lk_find (canonical_verb (i_verb it)) s \<noteq> None"
  shows "\<exists>n a m b.
    deferred_links now (\<lambda>s. case link_seq now items s of Inr x \<Rightarrow> x | Inl _ \<Rightarrow> (0, s)) s = Inr (n, a) \<and>
    link_seq now items s = Inr (m, b) \<and> link_buffer a = None \<and>
    (\<forall>p k. frag_value p k a = frag_value p k b) \<and>
    link_key ` set (entity_links a) = link_key ` set (entity_links b) \<and>
    (\<forall>k. row_weight k a = (case row_weight k s of Some w \<Rightarrow> Some w
       | None \<Rightarrow> map_option i_weight
           (find (\<lambda>it. (i_entity it, linkage_id_or (i_verb it) s, i_concept it) = k) items)))"
proof -
  have res: "resolve_linkages items s' = Inr ()" if "linkage_types s' = linkage_types s" for s'
    unfolding resolve_cong [OF that] using assms(2) by (rule resolve_all)
  obtain b where b: "link_seq now items s = Inr (length (fst (bulk_bits items s)), b)"
    "entity_links b = foldl (\<lambda>rows (l, c, e, w). put_link_row True e (linkage_id_or l s) c w rows) (entity_links s) items"
    "\<And>p k. frag_value p k b = (if p = bound s then frag_value p k s \<union> item_bits items k else frag_value p k s)"
    using link_seq_effect [OF assms(1), where items = items and now = now] res [of s] by auto
  let ?s0 = "s\<lparr>link_buffer := Some [], protect_buffer := []\<rparr>"
  let ?s1 = "s\<lparr>link_buffer := None, protect_buffer := []\<rparr>"
  let ?its = "map canon_item items"
  have body: "link_seq now items ?s0 = Inr (length items, s\<lparr>link_buffer := Some ?its, protect_buffer := []\<rparr>)"
    by (simp add: link_seq_buffered)
  define a where "a = (let s2 = upsert_rows False ?its (snd (bulk_bits ?its ?s1))
      in if ?its = [] then ?s1 else log_events now (link_events (fst (bulk_bits ?its ?s1)) s2) s2)"
  have lt: "linkage_types ?s1 = linkage_types s" by simp
  have rs: "resolve_linkages ?its ?s1 = Inr ()" unfolding resolve_canon by (rule res [OF lt])
  have "bulk_link now False ?its ?s1 = Inr (length (fst (bulk_bits ?its ?s1)), a)" if "items \<noteq> []"
    using that rs by (simp add: bulk_link_def a_def Let_def split_beta)
  then have fl: "flush_links now (s\<lparr>link_buffer := Some ?its, protect_buffer := []\<rparr>) = Inr a"
    by (cases "items = []") (simp_all add: flush_links_def Let_def a_def)
  have d: "deferred_links now (\<lambda>s. case link_seq now items s of Inr x \<Rightarrow> x | Inl _ \<Rightarrow> (0, s)) s = Inr (length items, a)"
    using assms(1) body fl by (simp add: deferred_links_def)
  have lo: "linkage_id_or l (snd (bulk_bits ?its ?s1)) = linkage_id_or l s" for l
    by (rule linkage_id_or_cong) simp
  have sg: "same_graph a (upsert_rows False ?its (snd (bulk_bits ?its ?s1)))"
    by (simp add: a_def Let_def bulk_rows_def upsert_rows_def)
  note g = same_graphD [OF sg]
  have al: "entity_links a = foldl (\<lambda>rows (l, c, e, w). put_link_row False e (linkage_id_or l s) c w rows) (entity_links s) items"
    unfolding g by (simp add: bulk_rows_def upsert_rows_def lo rows_canon)
  have av: "frag_value p k a = frag_value p k b" for p k
    unfolding g b(3) by (simp add: bulk_rows_def upsert_rows_def bulk_bits_value canon_item_bits)
  have "link_key ` set (entity_links a) = link_key ` set (entity_links b)"
    unfolding al b(2) keys_put_rows [where f = "\<lambda>l. linkage_id_or l s"] by (rule refl)
  moreover have "row_weight k a = (case row_weight k s of Some w \<Rightarrow> Some w
       | None \<Rightarrow> map_option i_weight
           (find (\<lambda>it. (i_entity it, linkage_id_or (i_verb it) s, i_concept it) = k) items))" for k
    unfolding row_weight_def al first_wins [where f = "\<lambda>l. linkage_id_or l s"] by (rule refl)
  moreover have "link_buffer a = None" unfolding g by (simp add: bulk_rows_def upsert_rows_def)
  ultimately show ?thesis using d b(1) av by blast
qed

theorem deferred_links_graph_witness:
  "\<exists>n a. deferred_links 0 (\<lambda>s. case link_seq 0 [(''mentions'', 7, 5, Some 2), (''mentions'', 7, 5, Some 3)] s of
       Inr x \<Rightarrow> x | Inl _ \<Rightarrow> (0, s)) mentions_store = Inr (n, a) \<and> row_weight (5, 1, 7) a = Some (Some 2)"
proof -
  let ?items = "[(''mentions'', 7, 5, Some 2), (''mentions'', 7, 5, Some 3)] :: link_item list"
  have cv: "canonical_verb ''mentions'' = ''mentions''" by (simp add: canonical_verb_def verb_aliases_def)
  have ok: "\<forall>it\<in>set ?items. lk_find (canonical_verb (i_verb it)) mentions_store \<noteq> None"
    by (simp add: i_verb_def cv)
  obtain n a where d: "deferred_links 0 (\<lambda>s. case link_seq 0 ?items s of Inr x \<Rightarrow> x | Inl _ \<Rightarrow> (0, s)) mentions_store = Inr (n, a)"
    and w: "\<forall>k. row_weight k a = (case row_weight k mentions_store of Some w \<Rightarrow> Some w
       | None \<Rightarrow> map_option i_weight
           (find (\<lambda>it. (i_entity it, linkage_id_or (i_verb it) mentions_store, i_concept it) = k) ?items))"
    using deferred_links_graph [OF mentions_store_simps(4) ok, of 0]
    by (elim exE conjE) (rule that; assumption)
  have "row_weight (5, 1, 7) a = Some (Some 2)"
    using spec [OF w, of "(5, 1, 7)"] by (simp add: row_weight_def linkage_id_or_def cv item_parts)
  with d show ?thesis by blast
qed

section \<open>Derived edges\<close>

lemma called_by_pairs_rows:
  "(callee, caller) \<in> set (called_by_pairs calls defines rows) \<longleftrightarrow>
     (\<exists>a\<in>set rows. k_linkage a = calls \<and>
       (\<exists>b\<in>set rows. (k_linkage b = defines \<and> k_concept b = k_concept a \<and> k_entity b \<noteq> k_entity a) \<and>
         (\<exists>c\<in>set rows. (k_linkage c = defines \<and> k_entity c = k_entity a) \<and> callee = k_entity b \<and> caller = k_concept c)))"
proof -
  have in_map: "x \<in> set (map f (filter P xs)) \<longleftrightarrow> (\<exists>c\<in>set xs. P c \<and> x = f c)" for x :: "nat \<times> nat" and f P and xs :: "link_row list" by auto
  have in_concat: "x \<in> set (List.concat (map f (filter P xs))) \<longleftrightarrow> (\<exists>c\<in>set xs. P c \<and> x \<in> set (f c))"
    for x :: "nat \<times> nat" and f P and xs :: "link_row list" by auto
  show ?thesis unfolding called_by_pairs_def set_dedup in_concat in_map prod.inject by (rule refl)
qed

lemma key_row: "(e, l, c) \<in> link_key ` set rows \<longleftrightarrow> (\<exists>r\<in>set rows. k_entity r = e \<and> k_linkage r = l \<and> k_concept r = c)"
  unfolding link_key_def image_iff by auto

lemma called_by_pairs_iff:
  "(callee, caller) \<in> set (called_by_pairs calls defines rows) \<longleftrightarrow>
     (\<exists>x k. (x, calls, k) \<in> link_key ` set rows \<and> (callee, defines, k) \<in> link_key ` set rows \<and>
            (x, defines, caller) \<in> link_key ` set rows \<and> callee \<noteq> x)"
  (is "?l = ?r")
proof
  assume ?l
  then show ?r unfolding called_by_pairs_rows
  proof (elim bexE conjE)
    fix a b c assume "a \<in> set rows" "b \<in> set rows" "c \<in> set rows" "k_linkage a = calls"
        "k_linkage b = defines" "k_concept b = k_concept a" "k_entity b \<noteq> k_entity a"
        "k_linkage c = defines" "k_entity c = k_entity a" "callee = k_entity b" "caller = k_concept c"
    then show ?r unfolding key_row by (intro exI [of _ "k_entity a"] exI [of _ "k_concept a"]) auto
  qed
next
  assume ?r
  then obtain x k a b c where "a \<in> set rows" "b \<in> set rows" "c \<in> set rows"
    "k_entity a = x" "k_linkage a = calls" "k_concept a = k" "k_entity b = callee" "k_linkage b = defines"
    "k_concept b = k" "k_entity c = x" "k_linkage c = defines" "k_concept c = caller" "callee \<noteq> x"
    unfolding key_row by (elim exE conjE bexE) simp
  then show ?l unfolding called_by_pairs_rows by (intro bexI [of _ a] bexI [of _ b] bexI [of _ c] conjI) simp_all
qed
lemma put_row_appends:
  "\<exists>new. put_link_row False e lid c w rows = rows @ new \<and> (\<forall>r\<in>set new. k_linkage r = lid)"
  by (simp add: put_link_row_def)

lemma put_rows_append:
  "\<exists>new. foldl (\<lambda>rows (l, c, e, w). put_link_row False e (f l) c w rows) rows items = rows @ new \<and>
     (\<forall>r\<in>set new. k_linkage r \<in> (\<lambda>it. f (i_verb it)) ` set items)"
proof (induction items arbitrary: rows)
  case (Cons it items)
  obtain l c e w where it: "it = (l, c, e, w)" by (cases it)
  obtain n1 where n1: "put_link_row False e (f l) c w rows = rows @ n1" "\<forall>r\<in>set n1. k_linkage r = f l"
    using put_row_appends by blast
  obtain n2 where "foldl (\<lambda>rows (l, c, e, w). put_link_row False e (f l) c w rows) (rows @ n1) items = (rows @ n1) @ n2"
    "\<forall>r\<in>set n2. k_linkage r \<in> (\<lambda>it. f (i_verb it)) ` set items"
    using Cons.IH by blast
  then show ?case using n1 it by (intro exI [of _ "n1 @ n2"]) (auto simp: i_verb_def)
qed simp

lemma called_by_pairs_append:
  "\<forall>r\<in>set new. k_linkage r \<noteq> calls \<and> k_linkage r \<noteq> defines \<Longrightarrow>
     called_by_pairs calls defines (rows @ new) = called_by_pairs calls defines rows"
proof -
  assume new: "\<forall>r\<in>set new. k_linkage r \<noteq> calls \<and> k_linkage r \<noteq> defines"
  then have "filter (\<lambda>r. k_linkage r = calls) new = []"
    "filter (\<lambda>r. k_linkage r = defines \<and> k_entity r = e) new = []"
    "filter (\<lambda>r. k_linkage r = defines \<and> k_concept r = c \<and> k_entity r \<noteq> e) new = []" for e c
    by (auto simp: filter_empty_conv)
  then show ?thesis by (simp add: called_by_pairs_def)
qed

lemma bulk_bits_old: "(\<And>k. item_bits items k \<subseteq> frag_value (bound s) k s) \<Longrightarrow> fst (bulk_bits items s) = []"
proof (induction items arbitrary: s)
  case (Cons it items)
  have sub: "item_bits items k \<subseteq> frag_value (bound s) k s" for k
    using Cons.prems [of k] by (auto simp: item_bits_Cons split: if_splits)
  have "pack (i_concept it) (i_entity it) \<in> frag_value (bound s) (canonical_verb (i_verb it)) s"
    using Cons.prems [of "canonical_verb (i_verb it)"] by (simp add: item_bits_Cons)
  moreover have "fst (bulk_bits items (snd (set_bit_new (i_verb it) (pack (i_concept it) (i_entity it)) s))) = []"
    using sub by (intro Cons.IH) (auto simp: set_bit_value)
  ultimately show ?case unfolding bulk_bits_step by simp
qed simp

text \<open>\<open>derive_called_by\<close> adds a \<open>called_by\<close> edge from the definition of a called name to every
  name its caller defines, itself excepted, and nothing else; its bits are set in the bound
  partition, and deriving again adds nothing.\<close>

theorem derive_called_by_correct:
  assumes "wf_linkages s" "lk_find ''calls'' s = Some calls" "lk_find ''defines'' s = Some defines"
    "lk_find ''called_by'' s = Some cb"
  defines "new \<equiv> {(e, c). \<exists>x k. (x, calls, k) \<in> link_key ` set (entity_links s) \<and>
      (e, defines, k) \<in> link_key ` set (entity_links s) \<and>
      (x, defines, c) \<in> link_key ` set (entity_links s) \<and> e \<noteq> x}"
  shows "\<exists>n s' s''. derive_called_by now s = Inr (n, s') \<and>
    link_key ` set (entity_links s') = link_key ` set (entity_links s) \<union> (\<lambda>(e, c). (e, cb, c)) ` new \<and>
    (\<forall>b k. frag_value b k s' = (if b = bound s \<and> k = ''called_by'' then frag_value b k s \<union> (\<lambda>(e, c). pack c e) ` new
                                else frag_value b k s)) \<and>
    derive_called_by now2 s' = Inr (0, s'')"
proof -
  have cv: "canonical_verb ''calls'' = ''calls''" "canonical_verb ''defines'' = ''defines''"
    "canonical_verb ''called_by'' = ''called_by''" by (simp_all add: canonical_verb_def verb_aliases_def)
  have ne: "cb \<noteq> calls" "cb \<noteq> defines"
    using lk_find_inj [OF assms(1,4)] assms(2,3) by auto
  let ?pairs = "called_by_pairs calls defines (entity_links s)"
  let ?items = "map (\<lambda>(callee, caller). (''called_by'', caller, callee, Some 1)) ?pairs :: link_item list"
  have new: "new = set ?pairs" unfolding new_def called_by_pairs_iff [symmetric] by auto
  have verbs: "i_verb it = ''called_by''" if "it \<in> set ?items" for it
    using that by (auto simp: i_verb_def)
  have keys: "(\<lambda>it. (i_entity it, f (i_verb it), i_concept it)) ` set ?items = (\<lambda>(e, c). (e, f ''called_by'', c)) ` new" for f :: "string \<Rightarrow> nat"
    unfolding new by (force simp: item_parts)
  have bits: "item_bits ?items k = (if k = ''called_by'' then (\<lambda>(e, c). pack c e) ` new else {})" for k
    unfolding new by (force simp: item_bits_def item_parts cv)
  have lids: "get_linkage_id ''calls'' t = Inr calls" "get_linkage_id ''defines'' t = Inr defines"
    "get_linkage_id ''called_by'' t = Inr cb" "linkage_id_or ''called_by'' t = cb"
    if "linkage_types t = linkage_types s" for t
    using assms(2-4) lk_find_cong [OF that] by (simp_all add: get_linkage_Inr cv linkage_id_or_def)
  have res: "resolve_linkages ?items t = Inr ()" if "linkage_types t = linkage_types s" for t
    using verbs lids(4) [OF that] lk_find_cong [OF that] assms(4) by (intro resolve_all) (simp add: cv)
  have eq: "derive_called_by n t = bulk_link n False ?items t"
    if "linkage_types t = linkage_types s" "called_by_pairs calls defines (entity_links t) = ?pairs" for n t
    using lids [OF that(1)] that(2) by (simp add: derive_called_by_def bulk_link_def Let_def)
  have ex: "\<exists>s'. bulk_link n False ?items t = Inr (length (fst (bulk_bits ?items t)), s') \<and>
      same_graph s' (upsert_rows False ?items (snd (bulk_bits ?items t)))" if "linkage_types t = linkage_types s" for n t
  proof (cases "?items = []")
    case True
    then show ?thesis by (simp add: bulk_link_def bulk_rows_def upsert_rows_def)
  next
    case False
    then show ?thesis using res [OF that] by (simp add: bulk_link_def split_beta Let_def)
  qed
  obtain s' where s': "derive_called_by now s = Inr (length (fst (bulk_bits ?items s)), s')"
    and sg: "same_graph s' (upsert_rows False ?items (snd (bulk_bits ?items s)))"
    using ex [of s now] eq [of s now] by auto
  note g = same_graphD [OF sg]
  have lo: "linkage_id_or l (snd (bulk_bits ?items s)) = linkage_id_or l s" for l
    by (rule linkage_id_or_cong) simp
  have rows: "entity_links s' = foldl (\<lambda>rows (l, c, e, w). put_link_row False e (linkage_id_or l s) c w rows)
      (entity_links s) ?items"
    unfolding g by (simp add: bulk_rows_def upsert_rows_def lo)
  have k: "link_key ` set (entity_links s') = link_key ` set (entity_links s) \<union> (\<lambda>(e, c). (e, cb, c)) ` new"
    unfolding rows keys_put_rows [where f = "\<lambda>l. linkage_id_or l s"] keys [of "\<lambda>l. linkage_id_or l s"]
      lids(4) [OF refl] by (rule refl)
  have f: "frag_value b k s' = (if b = bound s \<and> k = ''called_by'' then frag_value b k s \<union> (\<lambda>(e, c). pack c e) ` new
                                else frag_value b k s)" for b k
    unfolding g by (simp add: bulk_rows_def upsert_rows_def bulk_bits_value bits)
  have lt: "linkage_types s' = linkage_types s" "bound s' = bound s" unfolding g by (simp_all add: bulk_rows_def upsert_rows_def)
  obtain more where more: "entity_links s' = entity_links s @ more"
    "\<forall>r\<in>set more. k_linkage r \<in> (\<lambda>it. linkage_id_or (i_verb it) s) ` set ?items"
    using put_rows_append [of "\<lambda>l. linkage_id_or l s" "entity_links s" ?items] unfolding rows by blast
  have "k_linkage r = cb" if "r \<in> set more" for r
    using more(2) that verbs lids(4) [of s] by auto
  then have "called_by_pairs calls defines (entity_links s') = ?pairs"
    using ne unfolding more(1) by (intro called_by_pairs_append) auto
  then obtain s'' where "derive_called_by now2 s' = Inr (length (fst (bulk_bits ?items s')), s'')"
    using ex [OF lt(1)] eq [OF lt(1)] by metis
  moreover have "fst (bulk_bits ?items s') = []"
    by (rule bulk_bits_old) (simp add: bits f lt(2))
  ultimately have "derive_called_by now2 s' = Inr (0, s'')" by simp
  with s' k f show ?thesis by blast
qed

text \<open>Entity 10 defines concept 100 and calls concept 200, which entity 20 defines.\<close>

definition calls_store :: store where
  "calls_store = (open_store ''a'')\<lparr>
     linkage_types := map (\<lambda>(i, n). \<lparr>l_id = i, l_name = n, l_directed = True, l_description = None\<rparr>)
       [(1, ''calls''), (2, ''defines''), (3, ''called_by'')], next_lid := 4,
     entity_links := map (\<lambda>(e, l, c). \<lparr>k_entity = e, k_linkage = l, k_concept = c, k_weight = None\<rparr>)
       [(10, 2, 100), (20, 2, 200), (10, 1, 200)]\<rparr>"

lemma calls_store_ok:
  "wf_linkages calls_store" "lk_find ''calls'' calls_store = Some 1" "lk_find ''defines'' calls_store = Some 2"
  "lk_find ''called_by'' calls_store = Some 3"
  "link_key ` set (entity_links calls_store) = {(10, 2, 100), (20, 2, 200), (10, 1, 200)}"
  by (simp_all add: calls_store_def wf_linkages_def canonical_verb_def verb_aliases_def lk_find_def link_key_def)

theorem derive_called_by_correct_witness:
  "\<exists>n s'. derive_called_by 0 calls_store = Inr (n, s') \<and>
     link_key ` set (entity_links s') = {(10, 2, 100), (20, 2, 200), (10, 1, 200), (20, 3, 100)}"
proof -
  have "{(e, c). \<exists>x k. (x, 1, k) \<in> link_key ` set (entity_links calls_store) \<and>
      (e, 2, k) \<in> link_key ` set (entity_links calls_store) \<and>
      (x, 2, c) \<in> link_key ` set (entity_links calls_store) \<and> e \<noteq> x} = {(20, 100)}"
    unfolding calls_store_ok(5) by auto
  then show ?thesis
    using derive_called_by_correct [OF calls_store_ok(1-4), of 0 0] calls_store_ok(5) by auto
qed

end
