(* ===== verification/Purge.thy ===== *)
theory Purge
  imports Batches
begin

text \<open>
  Removal: the bits of a deleted entity in every partition's fragments (\<open>_clear_purged_bits\<close>),
  the single and the batched purge, the purge of a path, selection of entities by name, glob,
  namespace and flags with the flag writes and forgetting built on it, the folding of concept
  twins, noise pruning, and the renaming of a partition.

  The vector datasets (Lance) are a store outside \<open>src\<close> and have no part in the state here.
\<close>

section \<open>Clearing bits in every partition\<close>

fun discard_bits :: "nat list \<Rightarrow> bitmap \<Rightarrow> nat \<times> bitmap" where
  "discard_bits [] f = (0, f)"
| "discard_bits (v # vs) f =
     (if v \<in> f then (case discard_bits vs (f - {v}) of (n, g) \<Rightarrow> (Suc n, g)) else discard_bits vs f)"

definition concept_range :: "nat \<Rightarrow> bitmap \<Rightarrow> bitmap" where
  "concept_range i f = {v \<in> f. row_start i \<le> v \<and> v < row_start (i + 1)}"

fun clear_ranges :: "nat list \<Rightarrow> bitmap \<Rightarrow> nat \<times> bitmap" where
  "clear_ranges [] f = (0, f)"
| "clear_ranges (i # is) f =
     (if concept_range i f \<noteq> {} then (case clear_ranges is (f - concept_range i f) of (n, g) \<Rightarrow> (Suc n, g))
      else clear_ranges is f)"

text \<open>The bits to discard are keyed by the linkage's raw name.\<close>

type_synonym named_bits = "(string \<times> nat) list"

definition clear_fragment :: "named_bits \<Rightarrow> nat list \<Rightarrow> string \<Rightarrow> store \<Rightarrow> nat \<times> store" where
  "clear_fragment bits ids l s =
     (case load_fragment l s of
        (f, s1) \<Rightarrow>
          let (n, g) = discard_bits (map snd (filter (\<lambda>b. canonical_verb (fst b) = canonical_verb l) bits)) f;
              (m, h) = clear_ranges ids g
          in (n + m, if n + m = 0 then s1 else mark_dirty l (mutate_fragment l (\<lambda>_. h) s1)))"

fun clear_fragments :: "named_bits \<Rightarrow> nat list \<Rightarrow> string list \<Rightarrow> store \<Rightarrow> nat \<times> store" where
  "clear_fragments bits ids [] s = (0, s)"
| "clear_fragments bits ids (l # ls) s =
     (case clear_fragment bits ids l s of
        (n, s1) \<Rightarrow> (case clear_fragments bits ids ls s1 of (m, s2) \<Rightarrow> (n + m, s2)))"

fun clear_bindings :: "named_bits \<Rightarrow> nat list \<Rightarrow> string list \<Rightarrow> binding list \<Rightarrow> store \<Rightarrow> nat \<times> store" where
  "clear_bindings bits ids ls [] s = (0, s)"
| "clear_bindings bits ids ls (b # bs) s =
     (case clear_fragments bits ids ls (s\<lparr>bound := b\<rparr>) of
        (n, s1) \<Rightarrow> (case clear_bindings bits ids ls bs s1 of (m, s2) \<Rightarrow> (n + m, s2)))"

definition all_bindings :: "store \<Rightarrow> binding list" where
  "all_bindings s = map (\<lambda>p. (p_id p, p_name p)) (sort_key p_id (partitions s))"

definition clear_purged_bits :: "named_bits \<Rightarrow> nat list \<Rightarrow> store \<Rightarrow> nat \<times> store" where
  "clear_purged_bits bits ids s =
     (case clear_bindings bits ids (list_linkages s) (all_bindings s) s of
        (n, s1) \<Rightarrow> (n, s1\<lparr>bound := bound s\<rparr>))"

section \<open>The rows of an entity\<close>

text \<open>The edges of an id as logged: linkage name with kind and name of the other end.\<close>

definition edges_into :: "nat \<Rightarrow> store \<Rightarrow> (string \<times> string \<times> string) list" where
  "edges_into i s =
     List.concat (map (\<lambda>r.
       case (linkage_raw_name (k_linkage r) s, name_of (k_concept r) s) of
         (Some l, Some cn) \<Rightarrow> [(l, cn)]
       | _ \<Rightarrow> []) (filter (\<lambda>r. k_entity r = i) (entity_links s)))"

definition edges_from :: "nat \<Rightarrow> store \<Rightarrow> (string \<times> string \<times> string) list" where
  "edges_from i s =
     List.concat (map (\<lambda>r.
       case (linkage_raw_name (k_linkage r) s, name_of (k_entity r) s) of
         (Some l, Some en) \<Rightarrow> [(l, en)]
       | _ \<Rightarrow> []) (filter (\<lambda>r. k_concept r = i) (entity_links s)))"

definition member_bits :: "nat list \<Rightarrow> store \<Rightarrow> named_bits" where
  "member_bits ids s =
     List.concat (map (\<lambda>r.
       case linkage_raw_name (k_linkage r) s of
         None \<Rightarrow> []
       | Some l \<Rightarrow> [(l, pack (k_concept r) (k_entity r))]) (filter (\<lambda>r. k_entity r \<in> set ids) (entity_links s)))"

definition delete_rows :: "nat list \<Rightarrow> store \<Rightarrow> store" where
  "delete_rows ids s =
     s\<lparr>entity_links := filter (\<lambda>r. k_concept r \<notin> set ids) (filter (\<lambda>r. k_entity r \<notin> set ids) (entity_links s)),
       entities := filter (\<lambda>e. e_id e \<notin> set ids) (entities s),
       concepts := filter (\<lambda>c. fst c \<notin> set ids) (concepts s),
       memory_content := filter (\<lambda>m. m_entity m \<notin> set ids) (memory_content s)\<rparr>"

text \<open>\<open>DELETE FROM tracked_files WHERE partition_id=? AND path IN (SELECT path FROM entities ...)\<close>,
  read in the state it is executed in.\<close>

definition untrack_paths_of :: "nat list \<Rightarrow> store \<Rightarrow> store" where
  "untrack_paths_of ids s =
     s\<lparr>tracked_files := filter (\<lambda>t. \<not> (t_pid t = fst (bound s) \<and>
         (\<exists>e\<in>set (entities s). e_id e \<in> set ids \<and> e_path e = Some (t_path t)))) (tracked_files s)\<rparr>"

section \<open>Purging\<close>

definition purge_events :: "nat \<Rightarrow> store \<Rightarrow> event list" where
  "purge_events i s =
     (case name_of i s of
        None \<Rightarrow> []
      | Some n \<Rightarrow>
          map (\<lambda>(l, cn). EvUnlink (edge_of l cn n)) (edges_into i s) @
          map (\<lambda>(l, en). EvUnlink (edge_of l n en)) (edges_from i s) @ [EvTombstone (fst n) (snd n)])"

text \<open>\<open>purge_entity\<close>. The path of the entity is looked up after its row is gone.\<close>

definition purge_entity :: "time \<Rightarrow> nat \<Rightarrow> store \<Rightarrow> nat \<times> store" where
  "purge_entity now i s =
     (let evs = purge_events i s;
          (n, s1) = clear_purged_bits (member_bits [i] s) [i] s;
          s2 = untrack_paths_of [i] (delete_rows [i] s1)
      in (n, fold (log_event now) evs s2))"

fun chunks :: "nat \<Rightarrow> 'a list \<Rightarrow> 'a list list" where
  "chunks n [] = []"
| "chunks n (x # xs) = take (Suc (n - 1)) (x # xs) # chunks n (drop (Suc (n - 1)) (x # xs))"

definition purge_chunk :: "nat list \<Rightarrow> store \<Rightarrow> store" where
  "purge_chunk ck s = delete_rows ck (untrack_paths_of ck s)"

text \<open>\<open>_bulk_purge_ids\<close> of \<open>(id, kind, name)\<close> triples.\<close>

definition bulk_purge_ids :: "time \<Rightarrow> (nat \<times> string \<times> string) list \<Rightarrow> store \<Rightarrow> nat \<times> store" where
  "bulk_purge_ids now info s =
     (if info = [] then (0, s)
      else let ids = map fst info;
               bits = List.concat (map (\<lambda>ck. member_bits ck s) (chunks 900 ids));
               (_, s1) = clear_purged_bits bits ids s;
               s2 = fold purge_chunk (chunks 900 ids) s1
           in (length ids, fold (\<lambda>(_, k, n). log_event now (EvTombstone k n)) info s2))"

definition purge_path :: "time \<Rightarrow> string \<Rightarrow> store \<Rightarrow> nat \<times> store" where
  "purge_path now path s =
     (let ids = map e_id (filter (\<lambda>e. e_pid e = fst (bound s) \<and> e_path e = Some path) (entities s));
          s1 = fold (\<lambda>i s. snd (purge_entity now i s)) ids s
      in (length ids, log_event now (EvUntrack path) (untrack_row (fst (bound s)) path s1)))"

section \<open>What clearing does\<close>

lemma discard_bits_eq: "discard_bits vs f = (card (set vs \<inter> f), f - set vs)"
proof (induction vs f rule: discard_bits.induct)
  case (2 v vs f)
  show ?case
  proof (cases "v \<in> f")
    case True
    have "set (v # vs) \<inter> f = insert v (set vs \<inter> (f - {v}))" using True by auto
    moreover have "card (insert v (set vs \<inter> (f - {v}))) = Suc (card (set vs \<inter> (f - {v})))"
      by (rule card_insert_disjoint) auto
    ultimately have "card (set (v # vs) \<inter> f) = Suc (card (set vs \<inter> (f - {v})))" by (simp only:)
    moreover have "f - {v} - set vs = f - set (v # vs)" by auto
    ultimately show ?thesis using True "2.IH"(1) [OF True] by simp
  next
    case False
    then have "set (v # vs) \<inter> f = set vs \<inter> f" "f - set (v # vs) = f - set vs" by auto
    with False "2.IH"(2) show ?thesis by simp
  qed
qed simp

lemma concept_range_eq: "concept_range i f = {v \<in> f. bit_concept v = i}"
  using in_row_iff by (simp add: concept_range_def)

lemma clear_ranges_eq:
  "clear_ranges is f = (card (set is \<inter> bit_concept ` f), {v \<in> f. bit_concept v \<notin> set is})"
proof (induction "is" f rule: clear_ranges.induct)
  case (2 i "is" f)
  show ?case
  proof (cases "i \<in> bit_concept ` f")
    case True
    let ?g = "f - concept_range i f"
    have ne: "concept_range i f \<noteq> {}" using True by (auto simp: concept_range_eq)
    have "set (i # is) \<inter> bit_concept ` f = insert i (set is \<inter> bit_concept ` ?g)"
      using True by (auto simp: concept_range_eq)
    moreover have "card (insert i (set is \<inter> bit_concept ` ?g)) = Suc (card (set is \<inter> bit_concept ` ?g))"
      by (rule card_insert_disjoint) (auto simp: concept_range_eq)
    ultimately have "card (set (i # is) \<inter> bit_concept ` f) = Suc (card (set is \<inter> bit_concept ` ?g))"
      by (simp only:)
    moreover have "{v \<in> ?g. bit_concept v \<notin> set is} = {v \<in> f. bit_concept v \<notin> set (i # is)}"
      by (auto simp: concept_range_eq)
    ultimately show ?thesis using ne "2.IH"(1) [OF ne] by simp
  next
    case False
    then have e: "concept_range i f = {}" by (auto simp: concept_range_eq)
    from False have "set (i # is) \<inter> bit_concept ` f = set is \<inter> bit_concept ` f"
      "{v \<in> f. bit_concept v \<notin> set (i # is)} = {v \<in> f. bit_concept v \<notin> set is}" by auto
    then show ?thesis using e "2.IH"(2) by simp
  qed
qed simp

text \<open>A bit of the fragment of linkage \<open>k\<close> that a clearing removes.\<close>

definition purged_bit :: "named_bits \<Rightarrow> nat list \<Rightarrow> string \<Rightarrow> nat \<Rightarrow> bool" where
  "purged_bit bits ids k v =
     ((\<exists>b\<in>set bits. canonical_verb (fst b) = k \<and> snd b = v) \<or> bit_concept v \<in> set ids)"

definition only_frags :: "store \<Rightarrow> store \<Rightarrow> bool" where
  "only_frags s t = (t = s\<lparr>cache := cache t, dirty := dirty t, bound := bound t\<rparr>)"

lemma only_frags_fields:
  assumes "only_frags s t"
  shows "partitions t = partitions s" "next_pid t = next_pid s" "entities t = entities s" "disk t = disk s"
    "entity_links t = entity_links s" "concepts t = concepts s" "linkage_types t = linkage_types s"
    "memory_content t = memory_content s" "tracked_files t = tracked_files s" "next_lid t = next_lid s"
    "next_eid t = next_eid s" "link_buffer t = link_buffer s" "facts_log t = facts_log s"
    "log_enabled t = log_enabled s" "replay_mode t = replay_mode s" "linkage_evidence t = linkage_evidence s"
  by (subst assms [unfolded only_frags_def], simp)+

lemma only_frags_trans: "only_frags s t \<Longrightarrow> only_frags t u \<Longrightarrow> only_frags s u"
  unfolding only_frags_def by (erule ssubst, erule ssubst) simp

lemma only_frags_refl [simp]: "only_frags s s" "only_frags s (s\<lparr>bound := b\<rparr>)"
  "only_frags s (t\<lparr>bound := b\<rparr>) = only_frags s t"
proof -
  show "only_frags s s" "only_frags s (s\<lparr>bound := b\<rparr>)" by (simp_all add: only_frags_def)
  show "only_frags s (t\<lparr>bound := b\<rparr>) = only_frags s t"
    unfolding only_frags_def by (cases s, cases t) simp
qed

lemma only_frags_ops:
  "only_frags s (snd (load_fragment l s))" "only_frags s (mutate_fragment l g s)" "only_frags s (mark_dirty l s)"
  by (simp_all add: only_frags_def load_fragment_def mutate_fragment_def mark_dirty_def Let_def split_beta
      split: option.split)

lemma clear_fragment_ok:
  assumes "frag_inv s" and def: "s' = snd (clear_fragment bits ids l s)"
  shows "frag_inv s'" "only_frags s s'" "bound s' = bound s"
    "frag_value b k s' = (if b = bound s \<and> k = canonical_verb l
       then {v \<in> frag_value b k s. \<not> purged_bit bits ids k v} else frag_value b k s)"
proof -
  have i: "wf_partitions s" "frag_ok s" using assms(1) by (simp_all add: frag_inv_def)
  let ?s1 = "snd (load_fragment l s)" and ?f = "frag_value (bound s) (canonical_verb l) s"
  let ?vs = "map snd (filter (\<lambda>b. canonical_verb (fst b) = canonical_verb l) bits)"
  let ?h = "{v \<in> ?f - set ?vs. bit_concept v \<notin> set ids}"
  let ?n = "card (set ?vs \<inter> ?f) + card (set ids \<inter> bit_concept ` (?f - set ?vs))"
  have s': "s' = (if ?n = 0 then ?s1 else mark_dirty l (mutate_fragment l (\<lambda>_. ?h) ?s1))"
    by (simp only: def clear_fragment_def split_beta load_fragment_value(1) discard_bits_eq clear_ranges_eq
        Let_def prod.case fst_conv snd_conv)
  have h: "?h = {v \<in> ?f. \<not> purged_bit bits ids (canonical_verb l) v}"
    by (auto simp: purged_bit_def)
  have zero: "?h = ?f" if "?n = 0"
  proof -
    have c: "card (set A \<inter> B) = 0 \<Longrightarrow> set A \<inter> B = {}" for A :: "nat list" and B by simp
    have "set ?vs \<inter> ?f = {}" "set ids \<inter> bit_concept ` (?f - set ?vs) = {}"
      by (rule c, use that in \<open>simp only: add_is_0\<close>)+
    then show ?thesis by blast
  qed
  have 1: "wf_partitions ?s1" "frag_ok ?s1"
    using i frag_ok_load [OF i] by (simp_all add: wf_partitions_def partition_id_of_def)
  show "frag_inv s'"
    unfolding s' using 1 frag_ok_change [OF 1] by (simp add: frag_inv_def wf_partitions_def partition_id_of_def)
  show "only_frags s s'"
    unfolding s' using only_frags_trans [OF only_frags_trans [OF only_frags_ops(1) only_frags_ops(2)] only_frags_ops(3)]
      only_frags_ops(1) by (simp only: split: if_split) blast
  show "bound s' = bound s" unfolding s' by simp
  show "frag_value b k s' = (if b = bound s \<and> k = canonical_verb l
       then {v \<in> frag_value b k s. \<not> purged_bit bits ids k v} else frag_value b k s)"
    using zero unfolding s' h by (auto simp: load_fragment_value frag_value_mutate)
qed

lemma clear_fragments_ok:
  assumes "frag_inv s"
  shows "frag_inv (snd (clear_fragments bits ids ls s)) \<and> only_frags s (snd (clear_fragments bits ids ls s)) \<and>
    bound (snd (clear_fragments bits ids ls s)) = bound s \<and>
    frag_value b k (snd (clear_fragments bits ids ls s)) = (if b = bound s \<and> k \<in> canonical_verb ` set ls
       then {v \<in> frag_value b k s. \<not> purged_bit bits ids k v} else frag_value b k s)"
  using assms
proof (induction ls arbitrary: s)
  case (Cons l ls)
  let ?t = "snd (clear_fragment bits ids l s)"
  note 1 = clear_fragment_ok [OF Cons.prems refl, where bits = bits and ids = ids and l = l]
  note 2 = Cons.IH [OF 1(1)]
  have e: "snd (clear_fragments bits ids (l # ls) s) = snd (clear_fragments bits ids ls ?t)"
    by (simp add: split_beta)
  show ?case
    unfolding e using 2 1(3) only_frags_trans [OF 1(2)] by (auto simp: 1(4))
qed simp

lemma clear_bindings_ok:
  assumes "frag_inv s" "set bs \<subseteq> bindings s"
  shows "frag_inv ((snd (clear_bindings bits ids ls bs s))\<lparr>bound := bound s\<rparr>) \<and>
    only_frags s (snd (clear_bindings bits ids ls bs s)) \<and>
    frag_value b k (snd (clear_bindings bits ids ls bs s)) = (if b \<in> set bs \<and> k \<in> canonical_verb ` set ls
       then {v \<in> frag_value b k s. \<not> purged_bit bits ids k v} else frag_value b k s)"
  using assms
proof (induction bs arbitrary: s)
  case (Cons a bs)
  have ab: "a \<in> bindings s" using Cons.prems by simp
  let ?t = "snd (clear_fragments bits ids ls (s\<lparr>bound := a\<rparr>))"
  note 1 = clear_fragments_ok [OF frag_inv_bound [OF Cons.prems(1) ab], where bits = bits and ids = ids and ls = ls]
  have of: "only_frags s ?t" using 1 only_frags_trans [OF only_frags_refl(2)] by blast
  then have bt: "bindings ?t = bindings s" by (simp add: bindings_def only_frags_fields)
  have "wf_partitions s" using Cons.prems(1) by (simp add: frag_inv_def)
  then have "bound s \<in> bindings ?t" using bt by (simp add: bound_in_bindings)
  then have "frag_inv (?t\<lparr>bound := bound s\<rparr>)" using 1 by (intro frag_inv_bound) blast+
  moreover have "set bs \<subseteq> bindings (?t\<lparr>bound := bound s\<rparr>)" using Cons.prems(2) bt by (simp add: bindings_def)
  ultimately have ih: "frag_inv ((snd (clear_bindings bits ids ls bs (?t\<lparr>bound := bound s\<rparr>)))\<lparr>bound := bound s\<rparr>) \<and>
    only_frags (?t\<lparr>bound := bound s\<rparr>) (snd (clear_bindings bits ids ls bs (?t\<lparr>bound := bound s\<rparr>))) \<and>
    frag_value b k (snd (clear_bindings bits ids ls bs (?t\<lparr>bound := bound s\<rparr>))) =
      (if b \<in> set bs \<and> k \<in> canonical_verb ` set ls
       then {v \<in> frag_value b k ?t. \<not> purged_bit bits ids k v} else frag_value b k ?t)"
    using Cons.IH [of "?t\<lparr>bound := bound s\<rparr>"] by simp
  have rebound: "frag_inv ((snd (clear_bindings bits ids ls bs (u\<lparr>bound := x\<rparr>)))\<lparr>bound := y\<rparr>) =
      frag_inv ((snd (clear_bindings bits ids ls bs u))\<lparr>bound := y\<rparr>) \<and>
      frag_value b k (snd (clear_bindings bits ids ls bs (u\<lparr>bound := x\<rparr>))) = frag_value b k (snd (clear_bindings bits ids ls bs u)) \<and>
      only_frags s (snd (clear_bindings bits ids ls bs (u\<lparr>bound := x\<rparr>))) = only_frags s (snd (clear_bindings bits ids ls bs u))"
    for u x y
    by (cases bs) simp_all
  have e: "snd (clear_bindings bits ids ls (a # bs) s) = snd (clear_bindings bits ids ls bs ?t)"
    by (simp add: split_beta)
  have of2: "only_frags s (snd (clear_bindings bits ids ls bs (?t\<lparr>bound := bound s\<rparr>)))"
    using ih of only_frags_trans only_frags_refl(3) by blast
  show ?case
    unfolding e using ih of2 1 rebound by auto
qed (simp add: frag_inv_bound)

lemma all_bindings [simp]: "set (all_bindings s) = bindings s"
  by (simp add: all_bindings_def bindings_def)

lemma clear_purged_ok:
  assumes "frag_inv s" and def: "s' = snd (clear_purged_bits bits ids s)"
  shows "frag_inv s'" "only_frags s s'" "bound s' = bound s"
    "frag_value b k s' = (if b \<in> bindings s \<and> k \<in> canonical_verb ` l_name ` set (linkage_types s)
       then {v \<in> frag_value b k s. \<not> purged_bit bits ids k v} else frag_value b k s)"
  using clear_bindings_ok [OF assms(1), where bs = "all_bindings s" and ls = "list_linkages s" and bits = bits and ids = ids]
  by (simp_all add: def clear_purged_bits_def split_beta list_linkages_def)

lemma raw_name_iff:
  assumes "wf_linkages s"
  shows "linkage_raw_name i s = Some l \<longleftrightarrow> lk_find l s = Some i"
proof
  assume "linkage_raw_name i s = Some l"
  then obtain r where r: "r \<in> set (linkage_types s)" "l_id r = i" "l_name r = l"
    by (auto simp: linkage_raw_name_def dest: find_SomeD)
  then have "find (\<lambda>x. l_name x = l_name r) (linkage_types s) = Some r"
    using assms find_key_unique [of l_name "linkage_types s" r] by (simp add: wf_linkages_def)
  then show "lk_find l s = Some i" using r by (simp add: lk_find_def)
next
  assume "lk_find l s = Some i"
  then obtain r where r: "r \<in> set (linkage_types s)" "l_id r = i" "l_name r = l"
    by (auto simp: lk_find_def dest: find_SomeD)
  then have "find (\<lambda>x. l_id x = l_id r) (linkage_types s) = Some r"
    using assms find_key_unique [of l_id "linkage_types s" r] by (simp add: wf_linkages_def)
  then show "linkage_raw_name i s = Some l" using r by (simp add: linkage_raw_name_def)
qed

lemma in_member_bits:
  "(l, v) \<in> set (member_bits ids s) \<longleftrightarrow>
     (\<exists>r\<in>set (entity_links s). k_entity r \<in> set ids \<and> linkage_raw_name (k_linkage r) s = Some l \<and>
        v = pack (k_concept r) (k_entity r))"
  by (force simp: member_bits_def split: option.splits)

text \<open>The bits a purge removes are those that name a purged id on either side.\<close>

lemma purged_members:
  assumes g: "graph_inv s" and ids: "\<forall>i\<in>set ids. i < 2 ^ 32" and k: "lk_find k s = Some lid"
    and b: "b \<in> bindings s" and v: "v \<in> frag_value b k s" and bits: "set bits = set (member_bits ids s)"
  shows "purged_bit bits ids k v \<longleftrightarrow> bit_entity v \<in> set ids \<or> bit_concept v \<in> set ids"
proof -
  have wl: "wf_linkages s" using g by (simp add: graph_inv_def)
  have ck: "canonical_verb k = k" using lk_find_Some [OF k] wl by (auto simp: wf_linkages_def)
  have "bit_entity v \<in> set ids" if m: "(l, v) \<in> set (member_bits ids s)" for l
    using m ids by (auto simp: in_member_bits)
  moreover have "(k, v) \<in> set (member_bits ids s)" if e: "bit_entity v \<in> set ids"
  proof -
    have "(bit_entity v, lid, bit_concept v) \<in> link_key ` set (entity_links s)"
      unfolding shadow_okD [OF g k bit_entity_less(1)] using b v by auto
    then obtain r where "r \<in> set (entity_links s)" "k_entity r = bit_entity v" "k_linkage r = lid" "k_concept r = bit_concept v"
      by (auto simp: link_key_def)
    moreover have "linkage_raw_name lid s = Some k" using k by (simp add: raw_name_iff [OF wl])
    ultimately show ?thesis unfolding in_member_bits using e by (intro bexI [of _ r]) simp_all
  qed
  ultimately show ?thesis unfolding purged_bit_def bits using ck by force
qed

lemma registered_iff: "wf_linkages s \<Longrightarrow> k \<in> canonical_verb ` l_name ` set (linkage_types s) \<longleftrightarrow> lk_find k s \<noteq> None"
  by (force simp: wf_linkages_def lk_find_None image_iff)

lemma clear_members:
  assumes g: "graph_inv s" and ids: "\<forall>i\<in>set ids. i < 2 ^ 32" and bits: "set bits = set (member_bits ids s)"
  shows "frag_value b k (snd (clear_purged_bits bits ids s)) =
    (if b \<in> bindings s \<and> lk_find k s \<noteq> None
     then {v \<in> frag_value b k s. bit_entity v \<notin> set ids \<and> bit_concept v \<notin> set ids} else frag_value b k s)"
proof -
  have fi: "frag_inv s" and wl: "wf_linkages s" using g by (simp_all add: graph_inv_def)
  have "{v \<in> frag_value b k s. \<not> purged_bit bits ids k v} =
      {v \<in> frag_value b k s. bit_entity v \<notin> set ids \<and> bit_concept v \<notin> set ids}"
    if "b \<in> bindings s" "lk_find k s = Some lid" for lid
    using purged_members [OF g ids that(2,1) _ bits] by blast
  then show ?thesis
    by (auto simp: clear_purged_ok(4) [OF fi refl] registered_iff [OF wl])
qed

text \<open>A state without the ids: their rows and their bits are gone, all others are there.\<close>

definition purged_of :: "nat list \<Rightarrow> store \<Rightarrow> store \<Rightarrow> bool" where
  "purged_of ids s t =
     ((\<forall>b k. frag_value b k t = (if b \<in> bindings s \<and> lk_find k s \<noteq> None
        then {v \<in> frag_value b k s. bit_entity v \<notin> set ids \<and> bit_concept v \<notin> set ids} else frag_value b k s)) \<and>
      entity_links t = filter (\<lambda>r. k_entity r \<notin> set ids \<and> k_concept r \<notin> set ids) (entity_links s) \<and>
      entities t = filter (\<lambda>e. e_id e \<notin> set ids) (entities s) \<and>
      concepts t = filter (\<lambda>c. fst c \<notin> set ids) (concepts s) \<and>
      memory_content t = filter (\<lambda>m. m_entity m \<notin> set ids) (memory_content s) \<and>
      bound t = bound s \<and> partitions t = partitions s \<and> linkage_types t = linkage_types s \<and>
      next_lid t = next_lid s \<and> link_buffer t = link_buffer s \<and> frag_inv t)"

lemma purged_ofD:
  assumes "purged_of ids s t"
  shows "frag_value b k t = (if b \<in> bindings s \<and> lk_find k s \<noteq> None
        then {v \<in> frag_value b k s. bit_entity v \<notin> set ids \<and> bit_concept v \<notin> set ids} else frag_value b k s)"
    "entity_links t = filter (\<lambda>r. k_entity r \<notin> set ids \<and> k_concept r \<notin> set ids) (entity_links s)"
    "entities t = filter (\<lambda>e. e_id e \<notin> set ids) (entities s)" "frag_inv t"
    "bound t = bound s" "bindings t = bindings s" "lk_find k t = lk_find k s"
  by (rule spec [OF spec [OF conjunct1 [OF assms [unfolded purged_of_def]]]],
      use assms in \<open>simp_all add: purged_of_def bindings_def lk_find_def\<close>)

lemma purged_of_graph:
  assumes g: "graph_inv s" and p: "purged_of ids s t"
  shows "graph_inv t"
proof -
  note b = purged_ofD(6) [OF p] and lk = purged_ofD(7) [OF p]
  have "shadow_ok t"
  proof (rule shadow_okI)
    show "wf_partitions t" using p by (simp add: purged_of_def frag_inv_def)
    fix l lid c e assume l: "lk_find l t = Some lid" and e: "e < (2 :: nat) ^ 32"
    have l': "lk_find l s = Some lid" using l lk by simp
    have "(e, lid, c) \<in> link_key ` set (entity_links t) \<longleftrightarrow>
        (e, lid, c) \<in> link_key ` set (entity_links s) \<and> e \<notin> set ids \<and> c \<notin> set ids"
      using p by (auto simp: purged_of_def link_key_def)
    moreover have "pack c e \<in> frag_value bb l t \<longleftrightarrow> pack c e \<in> frag_value bb l s \<and> e \<notin> set ids \<and> c \<notin> set ids"
      if "bb \<in> bindings s" for bb
      using purged_ofD(1) [OF p, of bb l] that l' e by simp
    ultimately show "(e, lid, c) \<in> link_key ` set (entity_links t) \<longleftrightarrow> (\<exists>b\<in>bindings t. pack c e \<in> frag_value b l t)"
      using b shadow_okD [OF g l' e] by auto
  qed
  then show ?thesis using g p by (simp add: purged_of_def graph_inv_def wf_linkages_def)
qed

lemma purged_of_trans:
  assumes "purged_of xs s t" "purged_of ys t u"
  shows "purged_of (xs @ ys) s u"
proof -
  note p = purged_ofD [OF assms(1)]
  have "frag_value b k u = (if b \<in> bindings s \<and> lk_find k s \<noteq> None
      then {v \<in> frag_value b k s. bit_entity v \<notin> set (xs @ ys) \<and> bit_concept v \<notin> set (xs @ ys)} else frag_value b k s)" for b k
    unfolding purged_ofD(1) [OF assms(2)] p by auto
  then show ?thesis using assms by (auto simp: purged_of_def intro: filter_cong)
qed

text \<open>States that differ in the log alone.\<close>

definition log_only :: "store \<Rightarrow> store \<Rightarrow> bool" where
  "log_only s t = (t = s\<lparr>facts_log := facts_log t\<rparr>)"

lemma log_only_trans: "log_only s t \<Longrightarrow> log_only t u \<Longrightarrow> log_only s u"
  unfolding log_only_def by (erule ssubst, erule ssubst) simp

lemma log_only_events [simp]: "log_only s s" "log_only s (log_event now ev s)"
  by (simp_all add: log_only_def log_event_def)

lemma log_only_fold: "log_only s (fold (\<lambda>x. log_event now (f x)) xs s)"
proof (induction xs arbitrary: s)
  case (Cons x xs)
  show ?case using log_only_trans [OF log_only_events(2) Cons.IH] by simp
qed simp

lemma log_only_fields:
  assumes "log_only s t"
  shows "frag_value b k t = frag_value b k s" "frag_inv t = frag_inv s" "entity_links t = entity_links s"
    "entities t = entities s" "concepts t = concepts s" "memory_content t = memory_content s"
    "bound t = bound s" "partitions t = partitions s" "linkage_types t = linkage_types s" "next_lid t = next_lid s"
    "link_buffer t = link_buffer s" "tracked_files t = tracked_files s" "lk_find k t = lk_find k s"
    "bindings t = bindings s" "next_eid t = next_eid s" "next_pid t = next_pid s"
proof -
  note t = assms [unfolded log_only_def]
  show "frag_value b k t = frag_value b k s"
    by (subst t) (simp add: frag_value_def disk_value_def split: option.split)
  show "frag_inv t = frag_inv s" by (subst t, rule frag_inv_cong) simp_all
  show "lk_find k t = lk_find k s" "bindings t = bindings s"
    by (subst t, simp add: lk_find_def bindings_def)+
qed (subst assms [unfolded log_only_def], simp)+

lemma purged_of_log: "purged_of ids s t \<Longrightarrow> log_only t u \<Longrightarrow> purged_of ids s u"
  unfolding purged_of_def by (simp only: log_only_fields simp_thms)

text \<open>Clearing the bits and then deleting the rows, with any change of the tracked files.\<close>

lemma purged_of_rows:
  assumes g: "graph_inv s" and ids: "\<forall>i\<in>set ids. i < 2 ^ 32" and bits: "set bits = set (member_bits ids s)"
  shows "purged_of ids s ((delete_rows ids (snd (clear_purged_bits bits ids s)))\<lparr>tracked_files := tr\<rparr>)"
proof -
  have fi: "frag_inv s" using g by (simp add: graph_inv_def)
  let ?c = "snd (clear_purged_bits bits ids s)" let ?t = "(delete_rows ids ?c)\<lparr>tracked_files := tr\<rparr>"
  note c = clear_purged_ok [OF fi refl, where bits = bits and ids = ids]
  have fv: "frag_value b k ?t = frag_value b k ?c" for b k
    by (simp add: delete_rows_def frag_value_def disk_value_def split: option.split)
  have "frag_inv ?t = frag_inv ?c" by (rule frag_inv_cong) (simp_all add: delete_rows_def)
  then show ?thesis
    unfolding purged_of_def fv clear_members [OF g ids bits]
    using c by (simp add: delete_rows_def only_frags_fields conj_commute)
qed

lemma purge_entity_purged:
  assumes "graph_inv s" "i < 2 ^ 32"
  shows "purged_of [i] s (snd (purge_entity now i s))"
    "tracked_files (snd (purge_entity now i s)) = tracked_files s"
proof -
  have fi: "frag_inv s" using assms(1) by (simp add: graph_inv_def)
  let ?c = "snd (clear_purged_bits (member_bits [i] s) [i] s)" let ?t = "untrack_paths_of [i] (delete_rows [i] ?c)"
  have e: "snd (purge_entity now i s) = fold (\<lambda>x. log_event now x) (purge_events i s) ?t"
    by (simp add: purge_entity_def Let_def split_beta)
  have t: "?t = (delete_rows [i] ?c)\<lparr>tracked_files := tracked_files s\<rparr>"
    by (simp add: untrack_paths_of_def delete_rows_def only_frags_fields [OF clear_purged_ok(2) [OF fi refl]])
  then have "purged_of [i] s ?t" using purged_of_rows [OF assms(1), of "[i]", OF _ refl] assms(2) by simp
  then show "purged_of [i] s (snd (purge_entity now i s))" unfolding e by (rule purged_of_log [OF _ log_only_fold])
  show "tracked_files (snd (purge_entity now i s)) = tracked_files s"
    unfolding e by (subst log_only_fields(12) [OF log_only_fold], subst t) simp
qed

section \<open>The batched purge\<close>

lemma concat_chunks [simp]: "List.concat (chunks n xs) = xs"
  by (induction n xs rule: chunks.induct) (simp_all del: take_Suc_Cons drop_Suc_Cons)

lemma purge_chunk_append: "purge_chunk ys (purge_chunk xs s) = purge_chunk (xs @ ys) s"
  by (rule store.equality) (auto simp: purge_chunk_def delete_rows_def untrack_paths_of_def intro!: filter_cong)

lemma fold_purge_chunks: "fold purge_chunk cks s = (if cks = [] then s else purge_chunk (List.concat cks) s)"
proof (induction cks arbitrary: s)
  case (Cons ck cks)
  then show ?case by (cases "cks = []") (simp_all add: purge_chunk_append)
qed simp

lemma set_member_bits_concat:
  "set (List.concat (map (\<lambda>ck. member_bits ck s) cks)) = set (member_bits (List.concat cks) s)"
proof -
  have "(l, v) \<in> set (List.concat (map (\<lambda>ck. member_bits ck s) cks)) \<longleftrightarrow> (l, v) \<in> set (member_bits (List.concat cks) s)" for l v
    unfolding in_member_bits set_concat by (auto simp: in_member_bits)
  then show ?thesis by (simp only: set_eq_iff split_paired_All simp_thms)
qed

lemma bulk_purge_purged:
  assumes "graph_inv s" "\<forall>x\<in>set info. fst x < 2 ^ 32"
  shows "purged_of (map fst info) s (snd (bulk_purge_ids now info s))"
    "tracked_files (snd (bulk_purge_ids now info s)) = filter (\<lambda>t. \<not> (t_pid t = fst (bound s) \<and>
        (\<exists>e\<in>set (entities s). e_id e \<in> fst ` set info \<and> e_path e = Some (t_path t)))) (tracked_files s)"
proof -
  have fi: "frag_inv s" using assms(1) by (simp add: graph_inv_def)
  let ?ids = "map fst info" let ?bits = "List.concat (map (\<lambda>ck. member_bits ck s) (chunks 900 ?ids))"
  let ?c = "snd (clear_purged_bits ?bits ?ids s)" let ?t = "purge_chunk ?ids ?c"
  have bits: "set ?bits = set (member_bits ?ids s)" by (simp only: set_member_bits_concat concat_chunks)
  note c = clear_purged_ok(2,3) [OF fi refl, where bits = ?bits and ids = ?ids]
  have e: "log_only ?t (snd (bulk_purge_ids now info s))" if "info \<noteq> []"
  proof -
    have "chunks 900 ?ids \<noteq> []" using that by (cases info) simp_all
    then have "fold purge_chunk (chunks 900 ?ids) ?c = ?t" by (simp only: fold_purge_chunks concat_chunks if_False)
    then have "snd (bulk_purge_ids now info s) = fold (\<lambda>x. log_event now (EvTombstone (fst (snd x)) (snd (snd x)))) info ?t"
      using that by (simp add: bulk_purge_ids_def Let_def case_prod_unfold)
    then show ?thesis by (simp only: log_only_fold)
  qed
  have "?t = (delete_rows ?ids ?c)\<lparr>tracked_files := tracked_files ?t\<rparr>"
    by (simp add: purge_chunk_def delete_rows_def untrack_paths_of_def)
  then have "purged_of ?ids s ?t" using purged_of_rows [OF assms(1) _ bits, of "tracked_files ?t"] assms(2) by simp
  then have "info \<noteq> [] \<Longrightarrow> purged_of ?ids s (snd (bulk_purge_ids now info s))" using e by (blast intro: purged_of_log)
  then show "purged_of ?ids s (snd (bulk_purge_ids now info s))"
    using fi by (cases "info = []") (simp_all add: bulk_purge_ids_def purged_of_def)
  show "tracked_files (snd (bulk_purge_ids now info s)) = filter (\<lambda>t. \<not> (t_pid t = fst (bound s) \<and>
        (\<exists>e\<in>set (entities s). e_id e \<in> fst ` set info \<and> e_path e = Some (t_path t)))) (tracked_files s)"
    using log_only_fields(12) [OF e] c by (cases "info = []")
      (simp_all add: bulk_purge_ids_def purge_chunk_def delete_rows_def untrack_paths_of_def only_frags_fields)
qed

lemma purge_entity_frame:
  assumes "frag_inv s"
  shows "(snd (purge_entity now i s))\<lparr>cache := cache s, dirty := dirty s, entity_links := entity_links s, entities := entities s,
      concepts := concepts s, memory_content := memory_content s, facts_log := facts_log s\<rparr> = s"
    and "facts_log (snd (purge_entity now i s)) = facts_log (log_events now (purge_events i s) s)"
proof -
  let ?c = "snd (clear_purged_bits (member_bits [i] s) [i] s)" let ?t = "untrack_paths_of [i] (delete_rows [i] ?c)"
  have e: "snd (purge_entity now i s) = fold (log_event now) (purge_events i s) ?t"
    by (simp add: purge_entity_def Let_def split_beta)
  have o: "only_frags s ?c" by (rule clear_purged_ok(2) [OF assms refl])
  have pb: "protect_buffer ?c = protect_buffer s"
    using arg_cong [OF o [unfolded only_frags_def], of protect_buffer] by simp
  have t: "?t\<lparr>cache := cache s, dirty := dirty s, entity_links := entity_links s, entities := entities s,
      concepts := concepts s, memory_content := memory_content s\<rparr> = s"
    using pb by (intro store.equality)
      (simp_all add: untrack_paths_of_def delete_rows_def only_frags_fields [OF o] clear_purged_ok(3) [OF assms refl])
  have logs: "fold (log_event n) evs x = log_events n evs x" for n evs x
    by (induction evs arbitrary: x) (simp_all add: log_event_def log_events_def)
  have tl: "facts_log ?t = facts_log s" "log_enabled ?t = log_enabled s" "replay_mode ?t = replay_mode s"
    using arg_cong [OF t, of facts_log] arg_cong [OF t, of log_enabled] arg_cong [OF t, of replay_mode] by simp_all
  show "facts_log (snd (purge_entity now i s)) = facts_log (log_events now (purge_events i s) s)"
    unfolding e logs by (simp add: log_events_def tl)
  show "(snd (purge_entity now i s))\<lparr>cache := cache s, dirty := dirty s, entity_links := entity_links s, entities := entities s,
      concepts := concepts s, memory_content := memory_content s, facts_log := facts_log s\<rparr> = s"
    unfolding e logs using t tl(1) by (cases s; cases ?t) (simp add: log_events_def)
qed

lemma purge_tombstone: "name_of i s = Some (k, n) \<Longrightarrow> \<exists>es. purge_events i s = es @ [EvTombstone k n]"
  by (simp add: purge_events_def)

text \<open>C7. Purging an entity removes its row, its concept row, its memory body, every row of the forward
  index that names it, and, in the fragment of every partition and every registered linkage, each
  bit that names it as entity or as concept; the forward index is still the shadow of the fragments.
  Everything else stays as it was: every other bit and row, the evidence rows, those of the entity
  too, and the row of its tracked file, whose path is looked up after the entity's row is deleted. A
  tombstone of the entity ends what is logged.\<close>

theorem purge_entity_correct:
  assumes "graph_inv s" "i < 2 ^ 32" and t: "t = snd (purge_entity now i s)"
  shows "graph_inv t \<and>
    (\<forall>b k. frag_value b k t =
       (if b \<in> bindings s \<and> lk_find k s \<noteq> None then {v \<in> frag_value b k s. bit_entity v \<noteq> i \<and> bit_concept v \<noteq> i}
        else frag_value b k s)) \<and>
    entity_links t = filter (\<lambda>r. k_entity r \<noteq> i \<and> k_concept r \<noteq> i) (entity_links s) \<and>
    entities t = filter (\<lambda>e. e_id e \<noteq> i) (entities s) \<and>
    concepts t = filter (\<lambda>c. fst c \<noteq> i) (concepts s) \<and>
    memory_content t = filter (\<lambda>m. m_entity m \<noteq> i) (memory_content s) \<and>
    linkage_evidence t = linkage_evidence s \<and> tracked_files t = tracked_files s \<and>
    t\<lparr>cache := cache s, dirty := dirty s, entity_links := entity_links s, entities := entities s, concepts := concepts s,
      memory_content := memory_content s, facts_log := facts_log s\<rparr> = s \<and>
    (\<forall>kind name. name_of i s = Some (kind, name) \<longrightarrow>
       (\<exists>es. facts_log t = facts_log (log_events now (es @ [EvTombstone kind name]) s)))"
proof -
  have fi: "frag_inv s" using assms(1) by (simp add: graph_inv_def)
  note p = purge_entity_purged [OF assms(1,2), where now = now, folded t]
  note f = purge_entity_frame [OF fi, of now i, folded t]
  have ev: "linkage_evidence t = linkage_evidence s" using arg_cong [OF f(1), of linkage_evidence] by simp
  have log: "\<exists>es. facts_log t = facts_log (log_events now (es @ [EvTombstone k n]) s)" if "name_of i s = Some (k, n)" for k n
    using f(2) purge_tombstone [OF that] by metis
  have bits: "\<forall>b k. frag_value b k t =
       (if b \<in> bindings s \<and> lk_find k s \<noteq> None then {v \<in> frag_value b k s. bit_entity v \<noteq> i \<and> bit_concept v \<noteq> i}
        else frag_value b k s)"
    unfolding purged_ofD(1) [OF p(1)] by (auto simp del: not_None_eq)
  have rows: "entity_links t = filter (\<lambda>r. k_entity r \<noteq> i \<and> k_concept r \<noteq> i) (entity_links s)"
    "entities t = filter (\<lambda>e. e_id e \<noteq> i) (entities s)" "concepts t = filter (\<lambda>c. fst c \<noteq> i) (concepts s)"
    "memory_content t = filter (\<lambda>m. m_entity m \<noteq> i) (memory_content s)"
    using p(1) by (simp_all add: purged_of_def)
  show ?thesis
    by (intro conjI purged_of_graph [OF assms(1) p(1)] bits rows ev p(2) f(1) allI impI) (rule log)
qed

text \<open>C24. The batched purge of distinct rows leaves the same graph as purging them one by one: the
  same bits in every fragment, the same rows, entities, concepts and memory bodies. Unlike the
  single purge it also deletes the tracked-file rows of the bound partition whose path is that of
  a purged entity.\<close>

theorem bulk_purge_as_sequence:
  assumes "graph_inv s" "\<forall>x\<in>set info. fst x < 2 ^ 32"
    and t_def: "t = snd (bulk_purge_ids now info s)" and u_def: "u = fold (\<lambda>x s. snd (purge_entity now (fst x) s)) info s"
  shows "(\<forall>b k. frag_value b k t = frag_value b k u) \<and> entity_links t = entity_links u \<and> entities t = entities u \<and>
    concepts t = concepts u \<and> memory_content t = memory_content u \<and> bound t = bound u \<and>
    tracked_files u = tracked_files s \<and>
    tracked_files t = filter (\<lambda>t. \<not> (t_pid t = fst (bound s) \<and>
        (\<exists>e\<in>set (entities s). e_id e \<in> fst ` set info \<and> e_path e = Some (t_path t)))) (tracked_files s)"
proof -
  have seq: "purged_of (map fst xs) s' (fold (\<lambda>x s. snd (purge_entity now (fst x) s)) xs s') \<and>
      tracked_files (fold (\<lambda>x s. snd (purge_entity now (fst x) s)) xs s') = tracked_files s'"
    if "graph_inv s'" "\<forall>x\<in>set xs. fst x < 2 ^ 32" for xs :: "(nat \<times> string \<times> string) list" and s'
    using that
  proof (induction xs arbitrary: s')
    case Nil
    then show ?case by (simp add: purged_of_def graph_inv_def)
  next
    case (Cons x xs)
    have i: "fst x < 2 ^ 32" using Cons.prems(2) by simp
    note p = purge_entity_purged [OF Cons.prems(1) i, where now = now]
    have "graph_inv (snd (purge_entity now (fst x) s'))" by (rule purged_of_graph [OF Cons.prems(1) p(1)])
    note ih = Cons.IH [OF this]
    have "\<forall>x\<in>set xs. fst x < 2 ^ 32" using Cons.prems(2) by simp
    note ih = ih [OF this]
    show ?case using purged_of_trans [OF p(1) conjunct1 [OF ih]] ih p(2) by simp
  qed
  have u: "purged_of (map fst info) s u" "tracked_files u = tracked_files s"
    using seq [OF assms(1,2)] by (simp_all only: u_def)
  note t = bulk_purge_purged [OF assms(1,2), where now = now, folded t_def]
  show ?thesis
    using t u(2) purged_ofD(1-3) [OF t(1)] purged_ofD(1-3) [OF u(1)] t(1) u(1)
    by (simp add: purged_of_def)
qed

text \<open>One edge: entity 5 mentions concept 7.\<close>

definition mention_store :: store where
  "mention_store = (case link 0 ''mentions'' 7 5 None False mentions_store of Inr (_, s) \<Rightarrow> s | Inl _ \<Rightarrow> mentions_store)"

lemma mention_store_ok:
  "graph_inv mention_store" "lk_find ''mentions'' mention_store = Some 1" "(1, ''a'') \<in> bindings mention_store"
  "map link_key (entity_links mention_store) = [(5, 1, 7)]" "bound mention_store = (1, ''a'')"
proof -
  have cv: "canonical_verb ''mentions'' = ''mentions''" by (simp add: canonical_verb_def verb_aliases_def)
  have "\<exists>x. link 0 ''mentions'' 7 5 None False mentions_store = Inr x"
    by (simp add: link_def Let_def split_beta get_linkage_id_def cv)
  then obtain r where l: "link 0 ''mentions'' 7 5 None False mentions_store = Inr (r, mention_store)"
    by (auto simp: mention_store_def)
  show g: "graph_inv mention_store" by (rule graph_inv_link [OF mentions_store_inv l]) simp
  note e = link_effect [OF mentions_store_simps(4) l, unfolded cv Let_def]
  then have s: "same_graph mention_store (snd (set_bit_new ''mentions'' (pack 7 5) mentions_store)
      \<lparr>entity_links := put_link_row True 5 1 7 None (entity_links mentions_store)\<rparr>)" by auto
  note d = same_graphD [OF s]
  show "lk_find ''mentions'' mention_store = Some 1" unfolding d by (simp add: lk_find_cong [of _ mentions_store])
  show b: "bound mention_store = (1, ''a'')" unfolding d by simp
  show "(1, ''a'') \<in> bindings mention_store"
    using bound_in_bindings [of mention_store] g b by (simp add: graph_inv_def frag_inv_def)
  show "map link_key (entity_links mention_store) = [(5, 1, 7)]"
    unfolding d by (simp add: put_link_row_def link_key_def)
qed

theorem purge_entity_correct_witness:
  "graph_inv (snd (purge_entity 0 5 mention_store)) \<and> entity_links (snd (purge_entity 0 5 mention_store)) = []"
proof -
  have "\<forall>r\<in>set (entity_links mention_store). link_key r = (5, 1, 7)"
    using mention_store_ok(4) by (metis in_set_conv_nth length_map list.set_map image_eqI list.simps(15) empty_set insert_iff empty_iff)
  then have "filter (\<lambda>r. k_entity r \<noteq> 5 \<and> k_concept r \<noteq> 5) (entity_links mention_store) = []"
    by (auto simp: link_key_def filter_empty_conv)
  then show ?thesis
    using purge_entity_correct [of mention_store 5, OF mention_store_ok(1) _ refl, of 0] by simp
qed

theorem bulk_purge_as_sequence_witness:
  "frag_value (1, ''a'') ''mentions'' (snd (bulk_purge_ids 0 [(5, ''doc'', ''d''), (7, ''concept'', ''c'')] mention_store)) =
   frag_value (1, ''a'') ''mentions'' (snd (purge_entity 0 7 (snd (purge_entity 0 5 mention_store))))"
  using bulk_purge_as_sequence [OF mention_store_ok(1), of "[(5, ''doc'', ''d''), (7, ''concept'', ''c'')]", OF _ refl refl, of 0]
  by simp

end
