(* ===== verification/Curation.thy ===== *)
theory Curation
  imports Purge
begin

text \<open>
  Curation of a partition's entities: selection by name, glob, namespace and flags, the flag
  writes and the forgetting built on it, the folding of concepts that twin a memory, noise
  pruning with its readers, and the renaming of a partition.
\<close>

section \<open>Selection\<close>

record selectors =
  q_names :: "string list"
  q_like :: "string option"
  q_namespace :: "string option"
  q_kind :: "string option"
  q_protected :: "bool option"
  q_noise :: "bool option"

text \<open>The two flags restrict when given.\<close>

definition selected :: "selectors \<Rightarrow> nat \<Rightarrow> entity \<Rightarrow> bool" where
  "selected q pid e =
     (e_pid e = pid \<and> (q_names q = [] \<or> e_name e \<in> set (q_names q)) \<and>
      given (q_like q) (\<lambda>p. like_match p (e_name e)) \<and>
      given (q_namespace q) (\<lambda>ns. like_match (ns @ ''/%'') (e_name e)) \<and>
      given (q_kind q) (\<lambda>k. e_kind e = k) \<and>
      (case q_protected q of None \<Rightarrow> True | Some v \<Rightarrow> e_protected e = v) \<and>
      (case q_noise q of None \<Rightarrow> True | Some v \<Rightarrow> e_noise e = v))"

definition find_entity_ids :: "selectors \<Rightarrow> store \<Rightarrow> (nat \<times> string \<times> string \<times> bool \<times> bool) list" where
  "find_entity_ids q s =
     map (\<lambda>e. (e_id e, e_name e, e_kind e, e_protected e, e_noise e))
       (sort_key e_name (filter (selected q (fst (bound s))) (entities s)))"

definition set_flag_row :: "time \<Rightarrow> string \<Rightarrow> bool \<Rightarrow> nat \<Rightarrow> store \<Rightarrow> store" where
  "set_flag_row now flag v i s =
     s\<lparr>entities := map (\<lambda>e. if e_id e = i
         then (if flag = ''protected'' then e\<lparr>e_protected := v\<rparr> else e\<lparr>e_noise := v\<rparr>)\<lparr>e_updated := now\<rparr>
         else e) (entities s)\<rparr>"

fun set_flags :: "time \<Rightarrow> string \<Rightarrow> bool \<Rightarrow> nat list \<Rightarrow> store \<Rightarrow> nat \<times> store" where
  "set_flags now flag v [] s = (0, s)"
| "set_flags now flag v (i # is) s =
     (case name_of i s of
        None \<Rightarrow> set_flags now flag v is s
      | Some (k, n) \<Rightarrow>
          (case set_flags now flag v is
                  (log_event now (if flag = ''protected'' then EvProtect k n v else EvNoise k n v)
                     (set_flag_row now flag v i s)) of
             (c, s') \<Rightarrow> (Suc c, s')))"

definition set_entity_flag :: "time \<Rightarrow> nat list \<Rightarrow> string \<Rightarrow> bool \<Rightarrow> store \<Rightarrow> (nat \<times> store) result" where
  "set_entity_flag now ids flag v s =
     (if flag \<noteq> ''protected'' \<and> flag \<noteq> ''noise'' then Inl (ValueError (''unknown flag: '' @ flag))
      else Inr (set_flags now flag v ids s))"

definition set_flag_by_selector ::
  "time \<Rightarrow> string \<Rightarrow> bool \<Rightarrow> selectors \<Rightarrow> store \<Rightarrow> ((nat \<times> string list) \<times> store) result" where
  "set_flag_by_selector now flag v q s =
     (let rows = find_entity_ids q s in
      bind_r (set_entity_flag now (map fst rows) flag v s) (\<lambda>(c, s1). Inr ((c, map (fst \<circ> snd) rows), s1)))"

definition forget_by_selector ::
  "time \<Rightarrow> bool \<Rightarrow> selectors \<Rightarrow> store \<Rightarrow> (nat \<times> string list \<times> bool) \<times> store" where
  "forget_by_selector now dry q s =
     (let rows = find_entity_ids q s; names = map (fst \<circ> snd) rows in
      if dry then ((0, names, True), s)
      else ((length rows, names, False),
            snd (bulk_purge_ids now (map (\<lambda>(i, n, k, _, _). (i, k, n)) rows) s)))"

section \<open>Folding concept twins\<close>

definition twin_pairs :: "store \<Rightarrow> (nat \<times> nat) list" where
  "twin_pairs s =
     List.concat (map (\<lambda>c. map (\<lambda>m. (e_id c, e_id m))
         (filter (\<lambda>m. e_kind m = ''memory'' \<and> e_name m = e_name c \<and> e_pid m = e_pid c) (entities s)))
       (filter (\<lambda>c. e_kind c = ''concept'' \<and> e_pid c = fst (bound s)) (entities s)))"

text \<open>The edges with an id as concept and as entity: linkage name, other end, weight.\<close>

definition out_edges :: "nat \<Rightarrow> store \<Rightarrow> (string \<times> nat \<times> weight option) list" where
  "out_edges i s =
     List.concat (map (\<lambda>r. case linkage_raw_name (k_linkage r) s of None \<Rightarrow> [] | Some l \<Rightarrow> [(l, k_entity r, k_weight r)])
       (filter (\<lambda>r. k_concept r = i) (entity_links s)))"

definition in_edges :: "nat \<Rightarrow> store \<Rightarrow> (string \<times> nat \<times> weight option) list" where
  "in_edges i s =
     List.concat (map (\<lambda>r. case linkage_raw_name (k_linkage r) s of None \<Rightarrow> [] | Some l \<Rightarrow> [(l, k_concept r, k_weight r)])
       (filter (\<lambda>r. k_entity r = i) (entity_links s)))"

text \<open>Both loops of \<open>fold_concept_dups\<close>: the edges with the memory as concept (\<open>out\<close>) and as entity.\<close>

fun migrate :: "time \<Rightarrow> bool \<Rightarrow> nat \<Rightarrow> (string \<times> nat) list \<Rightarrow> (string \<times> nat \<times> weight option) list \<Rightarrow> store \<Rightarrow> (nat \<times> store) result" where
  "migrate now out m has [] s = Inr (0, s)"
| "migrate now out m has ((l, x, w) # es) s =
     (if x = m \<or> (l, x) \<in> set has then migrate now out m has es s
      else bind_r (if out then link now l m x w False s else link now l x m w False s) (\<lambda>(_, s1).
             bind_r (migrate now out m has es s1) (\<lambda>(n, s2). Inr (Suc n, s2))))"

definition fold_pair :: "time \<Rightarrow> nat \<Rightarrow> nat \<Rightarrow> store \<Rightarrow> (nat \<times> store) result" where
  "fold_pair now c m s =
     (let outs = out_edges c s; ins = in_edges c s;
          m_out = map (\<lambda>(l, e, w). (l, e)) (out_edges m s);
          m_in = map (\<lambda>(l, k, w). (l, k)) (in_edges m s)
      in bind_r (migrate now True m m_out outs s) (\<lambda>(n1, s1).
         bind_r (migrate now False m m_in ins s1) (\<lambda>(n2, s2).
           Inr (n1 + n2, snd (purge_entity now c s2)))))"

fun fold_pairs :: "time \<Rightarrow> bool \<Rightarrow> (nat \<times> nat) list \<Rightarrow> store \<Rightarrow> (nat \<times> nat \<times> store) result" where
  "fold_pairs now dry [] s = Inr (0, 0, s)"
| "fold_pairs now dry ((c, m) # ps) s =
     (if c = m then fold_pairs now dry ps s
      else bind_r (if dry then Inr (length (out_edges c s) + length (in_edges c s), s) else fold_pair now c m s)
        (\<lambda>(n, s1). bind_r (fold_pairs now dry ps s1) (\<lambda>(f, k, s2). Inr (Suc f, n + k, s2))))"

definition fold_concept_dups :: "time \<Rightarrow> bool \<Rightarrow> store \<Rightarrow> ((nat \<times> nat \<times> bool) \<times> store) result" where
  "fold_concept_dups now dry s =
     bind_r (fold_pairs now dry (twin_pairs s) s) (\<lambda>(folded, edges, s1).
       Inr ((folded, edges, dry), if \<not> dry \<and> folded \<noteq> 0 then flush_fragments s1 else s1))"

section \<open>Noise\<close>

record prune_acc =
  pa_seen :: nat
  pa_marked :: nat
  pa_unmarked :: nat
  pa_dropped :: nat
  pa_changes :: "(string \<times> bool) list"
  pa_store :: store

definition link_df :: "nat \<Rightarrow> store \<Rightarrow> nat" where
  "link_df c s = card (k_entity ` {r \<in> set (entity_links s). k_concept r = c})"

definition put_noise :: "nat \<Rightarrow> bool \<Rightarrow> store \<Rightarrow> store" where
  "put_noise i v s = s\<lparr>entities := map (\<lambda>e. if e_id e = i then e\<lparr>e_noise := v\<rparr> else e) (entities s)\<rparr>"

definition prune_row :: "time \<Rightarrow> nat \<Rightarrow> nat \<Rightarrow> bool \<Rightarrow> entity \<Rightarrow> prune_acc \<Rightarrow> prune_acc" where
  "prune_row now min_df max_df drp e a0 =
     (let a = a0\<lparr>pa_seen := Suc (pa_seen a0)\<rparr>; df = link_df (e_id e) (pa_store a);
          noisy = (df < min_df \<or> max_df < df)
      in if noisy then
           (if drp then a\<lparr>pa_store := snd (purge_entity now (e_id e) (pa_store a)), pa_dropped := Suc (pa_dropped a)\<rparr>
            else (if e_noise e then a
                  else a\<lparr>pa_store := put_noise (e_id e) True (pa_store a),
                         pa_changes := pa_changes a @ [(e_name e, True)]\<rparr>)\<lparr>pa_marked := Suc (pa_marked a)\<rparr>)
         else if e_noise e then
           a\<lparr>pa_store := put_noise (e_id e) False (pa_store a), pa_changes := pa_changes a @ [(e_name e, False)],
             pa_unmarked := Suc (pa_unmarked a)\<rparr>
         else a)"

definition prunable :: "nat \<Rightarrow> string \<Rightarrow> entity \<Rightarrow> bool" where
  "prunable pid ns e =
     (e_pid e = pid \<and> e_kind e = ''concept'' \<and> \<not> e_protected e \<and> like_match (ns @ ''/%'') (e_name e))"

definition prune_namespace :: "time \<Rightarrow> nat \<Rightarrow> nat \<Rightarrow> bool \<Rightarrow> string \<Rightarrow> prune_acc \<Rightarrow> prune_acc" where
  "prune_namespace now min_df max_df drp ns a =
     fold (prune_row now min_df max_df drp)
       (filter (prunable (fst (bound (pa_store a))) ns) (entities (pa_store a))) a"

record prune_report =
  pr_marked :: nat
  pr_unmarked :: nat
  pr_dropped :: nat
  pr_kept :: nat
  pr_seen :: nat

definition member_total :: "store \<Rightarrow> nat" where
  "member_total s = length (filter (\<lambda>e. e_pid e = fst (bound s) \<and> e_kind e \<noteq> ''concept'') (entities s))"

definition df_ceiling :: "nat \<Rightarrow> rat \<Rightarrow> nat \<Rightarrow> nat" where
  "df_ceiling min_df ratio n = max min_df (nat \<lfloor>of_nat n * ratio\<rfloor>)"

definition prune_noise :: "time \<Rightarrow> string list \<Rightarrow> nat \<Rightarrow> rat \<Rightarrow> bool \<Rightarrow> store \<Rightarrow> prune_report \<times> store" where
  "prune_noise now nss min_df ratio drp s =
     (if member_total s = 0 then (\<lparr>pr_marked = 0, pr_unmarked = 0, pr_dropped = 0, pr_kept = 0, pr_seen = 0\<rparr>, s)
      else let a = fold (prune_namespace now min_df (df_ceiling min_df ratio (member_total s)) drp) nss
                     \<lparr>pa_seen = 0, pa_marked = 0, pa_unmarked = 0, pa_dropped = 0, pa_changes = [], pa_store = s\<rparr>
        in (\<lparr>pr_marked = pa_marked a, pr_unmarked = pa_unmarked a, pr_dropped = pa_dropped a,
             pr_kept = pa_seen a - pa_marked a - pa_dropped a, pr_seen = pa_seen a\<rparr>,
            fold (\<lambda>(n, v). log_event now (EvNoise ''concept'' n v)) (pa_changes a) (pa_store a)))"

definition is_noise :: "nat \<Rightarrow> store \<Rightarrow> bool" where
  "is_noise i s = (case get_entity_by_id i s of None \<Rightarrow> False | Some e \<Rightarrow> e_noise e)"

definition noise_concept_ids :: "store \<Rightarrow> nat set" where
  "noise_concept_ids s =
     e_id ` {e \<in> set (entities s). e_pid e = fst (bound s) \<and> e_kind e = ''concept'' \<and> e_noise e}"

definition iter_concept_ids_for_linkage :: "string \<Rightarrow> store \<Rightarrow> nat list" where
  "iter_concept_ids_for_linkage linkage s =
     (case get_linkage_id linkage s of
        Inl _ \<Rightarrow> []
      | Inr lid \<Rightarrow> dedup (map k_concept (filter (\<lambda>r. k_linkage r = lid \<and>
            (case get_entity_by_id (k_concept r) s of None \<Rightarrow> False | Some e \<Rightarrow> e_pid e = fst (bound s)))
          (entity_links s))))"

section \<open>Renaming a partition\<close>

text \<open>\<open>taken\<close> says whether a fragment or vector directory of the new name exists. An error leaves
  the fragments flushed.\<close>

definition rename_partition :: "bool \<Rightarrow> string \<Rightarrow> string \<Rightarrow> store \<Rightarrow> unit result \<times> store" where
  "rename_partition taken old new s =
     (if old = new then (Inr (), s)
      else let s1 = clear_caches (flush_fragments s) in
        if old \<notin> p_name ` set (partitions s1) then (Inl (ValueError (''no partition named '' @ old)), s1)
        else if new \<in> p_name ` set (partitions s1) then (Inl (ValueError (''partition already exists: '' @ new)), s1)
        else if taken then (Inl (ValueError ''refusing to overwrite''), s1)
        else (Inr (), s1\<lparr>partitions := map (\<lambda>p. if p_name p = old then p\<lparr>p_name := new\<rparr> else p) (partitions s1),
                         bound := (if snd (bound s1) = old then (fst (bound s1), new) else bound s1)\<rparr>))"

section \<open>Pruning marks exactly the noise\<close>

definition is_rare_or_common :: "nat \<Rightarrow> nat \<Rightarrow> nat \<Rightarrow> store \<Rightarrow> bool" where
  "is_rare_or_common min_df max_df i s = (link_df i s < min_df \<or> max_df < link_df i s)"

definition marked_as :: "(entity \<Rightarrow> bool) \<Rightarrow> (entity \<Rightarrow> bool) \<Rightarrow> entity \<Rightarrow> entity" where
  "marked_as p v e = (if p e then e\<lparr>e_noise := v e\<rparr> else e)"

lemma marked_as_fields [simp]:
  "e_id (marked_as p v e) = e_id e" "e_pid (marked_as p v e) = e_pid e" "e_kind (marked_as p v e) = e_kind e"
  "e_name (marked_as p v e) = e_name e" "e_protected (marked_as p v e) = e_protected e"
  by (simp_all add: marked_as_def)

text \<open>A row whose stored flag is current ends with the flag the frequency asks for.\<close>

lemma prune_row_store:
  assumes "\<forall>x\<in>set (entities (pa_store a)). e_id x = e_id e \<longrightarrow> e_noise x = e_noise e"
  shows "pa_store (prune_row now lo hi False e a) = put_noise (e_id e) (is_rare_or_common lo hi (e_id e) (pa_store a)) (pa_store a)"
proof -
  have same: "put_noise (e_id e) (e_noise e) (pa_store a) = pa_store a"
  proof -
    have "map (\<lambda>x. if e_id x = e_id e then x\<lparr>e_noise := e_noise e\<rparr> else x) (entities (pa_store a)) = entities (pa_store a)"
      using assms by (intro map_idI) auto
    then show ?thesis by (simp add: put_noise_def)
  qed
  show ?thesis
    using same by (cases "e_noise e") (auto simp: prune_row_def Let_def is_rare_or_common_def)
qed

lemma put_noise_frame [simp]:
  "entity_links (put_noise i v s) = entity_links s" "bound (put_noise i v s) = bound s"
  "partitions (put_noise i v s) = partitions s" "link_df c (put_noise i v s) = link_df c s"
  "tracked_files (put_noise i v s) = tracked_files s" "log_enabled (put_noise i v s) = log_enabled s"
  by (simp_all add: put_noise_def link_df_def)

lemma rare_put_noise [simp]:
  "is_rare_or_common lo hi c (put_noise i v s) = is_rare_or_common lo hi c s"
  by (simp add: is_rare_or_common_def)

lemma prune_rows_store:
  assumes "distinct (map e_id rows)" "\<forall>r\<in>set rows. \<forall>x\<in>set (entities (pa_store a)). e_id x = e_id r \<longrightarrow> e_noise x = e_noise r"
  shows "pa_store (fold (prune_row now lo hi False) rows a) = (pa_store a)
     \<lparr>entities := map (marked_as (\<lambda>e. e_id e \<in> e_id ` set rows) (\<lambda>e. is_rare_or_common lo hi (e_id e) (pa_store a))) (entities (pa_store a))\<rparr>"
  using assms
proof (induction rows arbitrary: a)
  case Nil
  then show ?case by (simp add: marked_as_def map_idI)
next
  case (Cons r rows)
  let ?a = "prune_row now lo hi False r a" and ?v = "is_rare_or_common lo hi"
  have st: "pa_store ?a = put_noise (e_id r) (?v (e_id r) (pa_store a)) (pa_store a)"
    using Cons.prems(2) by (intro prune_row_store) simp
  have "\<forall>q\<in>set rows. \<forall>x\<in>set (entities (pa_store ?a)). e_id x = e_id q \<longrightarrow> e_noise x = e_noise q"
    using Cons.prems by (auto simp: st put_noise_def image_iff split: if_splits)
  then have "pa_store (fold (prune_row now lo hi False) rows ?a) = (pa_store ?a)
     \<lparr>entities := map (marked_as (\<lambda>e. e_id e \<in> e_id ` set rows) (\<lambda>e. ?v (e_id e) (pa_store ?a))) (entities (pa_store ?a))\<rparr>"
    using Cons.prems(1) by (intro Cons.IH) simp_all
  moreover have "map (marked_as (\<lambda>e. e_id e \<in> e_id ` set rows) (\<lambda>e. ?v (e_id e) (pa_store ?a))) (entities (pa_store ?a)) =
      map (marked_as (\<lambda>e. e_id e \<in> e_id ` set (r # rows)) (\<lambda>e. ?v (e_id e) (pa_store a))) (entities (pa_store a))"
    unfolding st by (simp add: put_noise_def marked_as_def is_rare_or_common_def link_df_def)
  moreover have "(pa_store ?a)\<lparr>entities := es\<rparr> = (pa_store a)\<lparr>entities := es\<rparr>" for es
    unfolding st by (simp add: put_noise_def)
  ultimately show ?case by (simp only: fold_simps comp_apply)
qed

lemma marked_as_twice:
  "marked_as p v (marked_as q v e) = marked_as (\<lambda>e. p e \<or> q e) v e"
  if "\<And>e b. p (e\<lparr>e_noise := b\<rparr>) = p e" "\<And>e b. v (e\<lparr>e_noise := b\<rparr>) = v e"
  using that by (simp add: marked_as_def)

lemma prune_namespaces_store:
  assumes "distinct (map e_id (entities (pa_store a)))"
  shows "pa_store (fold (prune_namespace now lo hi False) nss a) = (pa_store a)
     \<lparr>entities := map (marked_as (\<lambda>e. \<exists>ns\<in>set nss. prunable (fst (bound (pa_store a))) ns e)
                        (\<lambda>e. is_rare_or_common lo hi (e_id e) (pa_store a))) (entities (pa_store a))\<rparr>"
  using assms
proof (induction nss arbitrary: a)
  case Nil
  then show ?case by (simp add: marked_as_def map_idI)
next
  case (Cons ns nss)
  let ?pid = "fst (bound (pa_store a))" and ?v = "\<lambda>e. is_rare_or_common lo hi (e_id e) (pa_store a)"
  let ?es = "entities (pa_store a)"
  let ?rows = "filter (prunable ?pid ns) ?es" and ?a = "prune_namespace now lo hi False ns a"
  have inj: "x \<in> set ?es \<Longrightarrow> y \<in> set ?es \<Longrightarrow> e_id x = e_id y \<Longrightarrow> x = y" for x y
    using Cons.prems by (auto simp: distinct_map dest: inj_onD)
  have "pa_store ?a = (pa_store a)\<lparr>entities := map (marked_as (\<lambda>e. e_id e \<in> e_id ` set ?rows) ?v) ?es\<rparr>"
    unfolding prune_namespace_def using Cons.prems inj
    by (intro prune_rows_store) (auto simp: distinct_map_filter)
  moreover have "map (marked_as (\<lambda>e. e_id e \<in> e_id ` set ?rows) ?v) ?es = map (marked_as (prunable ?pid ns) ?v) ?es"
    using inj by (intro map_cong refl) (auto simp: marked_as_def)
  ultimately have st: "pa_store ?a = (pa_store a)\<lparr>entities := map (marked_as (prunable ?pid ns) ?v) ?es\<rparr>" by (simp only:)
  have d: "distinct (map e_id (entities (pa_store ?a)))" using Cons.prems by (simp add: st comp_def)
  have v: "is_rare_or_common lo hi i (pa_store ?a) = is_rare_or_common lo hi i (pa_store a)" for i
    by (simp add: st is_rare_or_common_def link_df_def)
  have b: "bound (pa_store ?a) = bound (pa_store a)" by (simp add: st)
  have e: "entities (pa_store ?a) = map (marked_as (prunable ?pid ns) ?v) ?es" by (simp add: st)
  have m: "marked_as (\<lambda>e. \<exists>ns\<in>set nss. prunable ?pid ns e) ?v (marked_as (prunable ?pid ns) ?v x) =
      marked_as (\<lambda>e. \<exists>ns\<in>set (ns # nss). prunable ?pid ns e) ?v x" for x
    by (subst marked_as_twice) (auto simp: prunable_def marked_as_def)
  have "pa_store (fold (prune_namespace now lo hi False) nss ?a) =
      (pa_store ?a)\<lparr>entities := map (marked_as (\<lambda>e. \<exists>ns\<in>set nss. prunable ?pid ns e) ?v) (entities (pa_store ?a))\<rparr>"
    using Cons.IH [OF d] by (simp only: v b)
  also have "\<dots> = (pa_store ?a)\<lparr>entities := map (marked_as (\<lambda>e. \<exists>ns\<in>set (ns # nss). prunable ?pid ns e) ?v) ?es\<rparr>"
    unfolding e by (simp only: list.map_comp comp_def m)
  finally show ?case by (simp add: st)
qed

text \<open>Without \<open>drop\<close>, pruning sets the noise flag of every unprotected concept of the given
  namespaces in the bound partition to whether its document frequency is below the floor or above
  the ceiling, and touches no other column, row or edge; a partition without members is left
  alone.\<close>

theorem prune_noise_marks:
  assumes "distinct (map e_id (entities s))"
  shows "entities (snd (prune_noise now nss lo ratio False s)) =
      map (\<lambda>e. if member_total s \<noteq> 0 \<and> (\<exists>ns\<in>set nss. prunable (fst (bound s)) ns e)
               then e\<lparr>e_noise := (link_df (e_id e) s < lo \<or> df_ceiling lo ratio (member_total s) < link_df (e_id e) s)\<rparr>
               else e) (entities s) \<and>
    entity_links (snd (prune_noise now nss lo ratio False s)) = entity_links s \<and>
    tracked_files (snd (prune_noise now nss lo ratio False s)) = tracked_files s"
proof (cases "member_total s = 0")
  case True
  then show ?thesis by (simp add: prune_noise_def map_idI)
next
  case False
  let ?hi = "df_ceiling lo ratio (member_total s)"
  let ?a = "\<lparr>pa_seen = 0, pa_marked = 0, pa_unmarked = 0, pa_dropped = 0, pa_changes = [], pa_store = s\<rparr>"
  let ?b = "fold (prune_namespace now lo ?hi False) nss ?a"
  have st: "pa_store ?b = s\<lparr>entities := map (marked_as (\<lambda>e. \<exists>ns\<in>set nss. prunable (fst (bound s)) ns e)
                        (\<lambda>e. is_rare_or_common lo ?hi (e_id e) s)) (entities s)\<rparr>"
    using prune_namespaces_store [of ?a now lo ?hi nss] assms by simp
  have l: "snd (prune_noise now nss lo ratio False s) =
      fold (\<lambda>x. log_event now (EvNoise ''concept'' (fst x) (snd x))) (pa_changes ?b) (pa_store ?b)"
    using False by (simp add: prune_noise_def Let_def case_prod_unfold)
  show ?thesis
    unfolding l log_only_fields [OF log_only_fold] st
    using False by (simp add: marked_as_def is_rare_or_common_def)
qed

text \<open>A partition with one document and the concept \<open>keyword/x\<close> it does not link.\<close>

definition keyword_store :: store where
  "keyword_store = (open_store ''a'')\<lparr>entities := map (\<lambda>(i, k, n). \<lparr>e_id = i, e_pid = 1, e_kind = k, e_path = None,
     e_name = n, e_tldr = None, e_meta = None, e_created = 0, e_updated = 0, e_protected = False, e_noise = False,
     e_canonical = None\<rparr>) [(1, ''doc'', ''d''), (2, ''concept'', ''keyword/x'')], next_eid := 3\<rparr>"

theorem prune_noise_marks_witness:
  "map e_noise (entities (snd (prune_noise 0 [''keyword''] 2 (1 / 4) False keyword_store))) = [False, True]"
proof -
  have es: "entities keyword_store = map (\<lambda>(i, k, n). \<lparr>e_id = i, e_pid = 1, e_kind = k, e_path = None,
     e_name = n, e_tldr = None, e_meta = None, e_created = 0, e_updated = 0, e_protected = False, e_noise = False,
     e_canonical = None\<rparr>) [(1, ''doc'', ''d''), (2, ''concept'', ''keyword/x'')]" by (simp add: keyword_store_def)
  have e: "distinct (map e_id (entities keyword_store))" "bound keyword_store = (1, ''a'')"
    "entity_links keyword_store = []" by (simp_all add: keyword_store_def)
  have m: "member_total keyword_store = 1" unfolding member_total_def es e by simp
  have l: "link_df i keyword_store = 0" for i by (simp add: link_df_def e(3))
  show ?thesis
    unfolding conjunct1 [OF prune_noise_marks [OF e(1), of 0 "[''keyword'']" 2 "1 / 4"]] e m l es
    by (simp add: prunable_def)
qed

section \<open>Renaming keeps the fragments\<close>

text \<open>C22. Renaming a partition to a free name moves every fragment with it and leaves the other
  partitions' fragments as they were; nothing stays cached under the old name. A missing source,
  a taken target or an existing directory is refused and no partition is renamed.\<close>

theorem rename_partition_correct:
  assumes "frag_inv s" "old \<noteq> new"
  shows "case rename_partition taken old new s of
      (Inr _, t) \<Rightarrow> frag_inv t \<and> old \<in> p_name ` set (partitions s) \<and> new \<notin> p_name ` set (partitions s) \<and>
        old \<notin> p_name ` set (partitions t) \<and>
        (\<forall>n l c. rows_of_store t n l c =
           (if n = new then rows_of_store s old l c else if n = old then {} else rows_of_store s n l c))
    | (Inl _, t) \<Rightarrow> partitions t = partitions s \<and> rows_of_store t = rows_of_store s \<and>
        (old \<notin> p_name ` set (partitions s) \<or> new \<in> p_name ` set (partitions s) \<or> taken)"
proof -
  let ?s = "clear_caches (flush_fragments s)"
  have i: "frag_inv ?s" "rows_of_store ?s = rows_of_store s" "bound ?s = bound s"
    using fragments.exec_inv [OF assms(1), of Reopen] fragments.exec_abs [OF assms(1), of Reopen]
    by (simp_all add: clear_caches_def)
  have ps: "partitions ?s = partitions s" by (simp add: clear_caches_def)
  let ?f = "\<lambda>p. if p_name p = old then p\<lparr>p_name := new\<rparr> else p"
  let ?t = "?s\<lparr>partitions := map ?f (partitions s), bound := (if snd (bound s) = old then (fst (bound s), new) else bound s)\<rparr>"
  have ren: "frag_inv ?t \<and> old \<notin> p_name ` set (partitions ?t) \<and> (\<forall>n l c. rows_of_store ?t n l c =
           (if n = new then rows_of_store s old l c else if n = old then {} else rows_of_store s n l c))"
    if new: "new \<notin> p_name ` set (partitions s)"
  proof -
    have wf: "wf_partitions ?s" using i(1) by (simp add: frag_inv_def)
    have ids: "map p_id (map ?f (partitions s)) = map p_id (partitions s)" by (simp add: comp_def if_distrib cong: if_cong)
    have fnd: "find (\<lambda>p. p_name p = n) (map ?f ps) =
        map_option ?f (if n = new then find (\<lambda>p. p_name p = old) ps else if n = old then None else find (\<lambda>p. p_name p = n) ps)"
      if "new \<notin> p_name ` set ps" for n and ps :: "partition list"
      using that by (induction ps) (use assms(2) in auto)
    have pid: "partition_id_of n ?t =
        (if n = new then partition_id_of old ?s else if n = old then None else partition_id_of n ?s)" for n
      unfolding partition_id_of_def using fnd [OF new, of n]
      by (simp add: ps option.map_comp comp_def if_distrib cong: if_cong)
    have "distinct (map p_name (map ?f (partitions s)))"
      using wf new by (auto simp: wf_partitions_def ps distinct_map inj_on_def)
    moreover have "snd (bound s) \<noteq> new"
      using bound_in_bindings [OF wf] new i(3) ps by (auto simp: bindings_def)
    ultimately have "wf_partitions ?t"
      using wf pid [of "snd (bound ?t)"] i(3) assms(2) ids
      by (auto simp: wf_partitions_def ps simp del: map_map split: if_splits)
    moreover have "frag_ok ?t"
    proof (rule frag_okI)
      fix pd l assume "disk_value pd l ?t \<noteq> {}"
      then have "disk_value pd l ?s \<noteq> {}" by (simp add: disk_value_def)
      then have "pd \<in> p_id ` set (partitions s)" using i(1) frag_okD(4) [of ?s] ps by (metis frag_inv_def)
      moreover have pt: "partitions ?t = map ?f (partitions s)" by simp
      moreover have "p_id ` set (map ?f (partitions s)) = p_id ` set (partitions s)"
        using arg_cong [OF ids, of set] by (simp only: list.set_map)
      ultimately show "pd \<in> p_id ` set (partitions ?t)" by (simp only:)
    qed (simp_all add: clear_caches_def)
    ultimately have "frag_inv ?t" by (simp add: frag_inv_def)
    moreover have fv: "frag_value b k ?t = disk_value (fst b) k ?s" "frag_value b k ?s = disk_value (fst b) k ?s" for b k
      by (simp_all add: frag_value_def disk_value_def clear_caches_def)
    then have "rows_of_store ?t n l c =
           (if n = new then rows_of_store ?s old l c else if n = old then {} else rows_of_store ?s n l c)" for n l c
      unfolding rows_of_store_def pid fv using assms(2) by (simp split: option.split)
    moreover have "old \<notin> p_name ` set (partitions ?t)" using assms(2) by auto
    ultimately show ?thesis using i(2) by simp
  qed
  show ?thesis
    using assms(2) ren i ps by (auto simp: rename_partition_def Let_def)
qed

theorem rename_partition_correct_witness:
  "(case rename_partition False ''a'' ''b'' (open_store ''a'') of
      (Inr _, t) \<Rightarrow> frag_inv t \<and> ''a'' \<notin> p_name ` set (partitions t) | (Inl _, _) \<Rightarrow> False)"
proof -
  have "frag_inv (open_store ''a'')" using open_store_frag_ok by (simp add: frag_inv_def)
  moreover have "fst (rename_partition False ''a'' ''b'' (open_store ''a'')) = Inr ()"
    by (simp add: rename_partition_def Let_def clear_caches_def open_store_def fresh_store_def ensure_partition_def
        insert_partition_def partition_id_of_def)
  ultimately show ?thesis
    using rename_partition_correct [of "open_store ''a''" "''a''" "''b''" False]
    by (simp split: prod.splits sum.splits)
qed

section \<open>Folding moves the edges of the twin\<close>

lemma link_ok:
  assumes "graph_inv s" "lk_find l s = Some lid" "e < 2 ^ 32"
  shows "\<exists>r s'. link now l c e w False s = Inr (r, s') \<and> graph_inv s' \<and> linkage_types s' = linkage_types s \<and>
    bound s' = bound s \<and> entities s' = entities s \<and>
    link_key ` set (entity_links s') = insert (e, lid, c) (link_key ` set (entity_links s)) \<and>
    (\<forall>k. k \<noteq> (e, lid, c) \<longrightarrow> row_weight k s' = row_weight k s)"
proof -
  have nb: "link_buffer s = None" and wl: "wf_linkages s" using assms(1) by (simp_all add: graph_inv_def)
  have cl: "canonical_verb l = l" using lk_find_Some [OF assms(2)] wl by (auto simp: wf_linkages_def)
  have g: "get_linkage_id l s = Inr lid" using assms(2) by (simp add: get_linkage_Inr cl)
  obtain r s' where l: "link now l c e w False s = Inr (r, s')"
    using nb g by (cases "link now l c e w False s") (auto simp: link_def Let_def split_beta cl)
  have ents: "entities s' = entities s"
    using l nb g by (auto simp: link_def Let_def split_beta cl split: option.splits)
  obtain lid' where lid': "lk_find (canonical_verb l) s = Some lid'"
    "same_graph s' ((snd (set_bit_new (canonical_verb l) (pack c e) s))\<lparr>entity_links := put_link_row True e lid' c w (entity_links s)\<rparr>)"
    using link_effect [OF nb l] unfolding Let_def by blast
  note d = same_graphD [OF lid'(2)]
  have "lid' = lid" using lid'(1) assms(2) cl by simp
  then have el: "entity_links s' = put_link_row True e lid c w (entity_links s)" using d by simp
  have "row_weight k s' = row_weight k s" if "k \<noteq> (e, lid, c)" for k
    using that unfolding row_weight_def el by (simp add: find_put_row)
  then show ?thesis
    using l graph_inv_link [OF assms(1) l assms(3)] d(5,7) ents by (simp add: el)
qed

definition moved_keys ::
  "bool \<Rightarrow> nat \<Rightarrow> (string \<times> nat) list \<Rightarrow> (string \<times> nat \<times> weight option) list \<Rightarrow> store \<Rightarrow> (nat \<times> nat \<times> nat) set" where
  "moved_keys out m has es s =
     {(if out then x else m, lid, if out then m else x) | l x w lid.
       (l, x, w) \<in> set es \<and> lk_find l s = Some lid \<and> x \<noteq> m \<and> (l, x) \<notin> set has}"

lemma moved_keys_simps:
  "moved_keys out m has [] s = {}"
  "lk_find l s = Some lid \<Longrightarrow> moved_keys out m has ((l, x, w) # es) s =
     (if x = m \<or> (l, x) \<in> set has then moved_keys out m has es s
      else insert (if out then x else m, lid, if out then m else x) (moved_keys out m has es s))"
  by (auto simp: moved_keys_def)

lemma moved_keys_cong: "linkage_types s = linkage_types t \<Longrightarrow> moved_keys out m has es s = moved_keys out m has es t"
  using lk_find_cong [of s t] by (simp add: moved_keys_def)

lemma migrate_ok:
  assumes "graph_inv s" "\<forall>(l, x, w)\<in>set es. lk_find l s \<noteq> None \<and> (out \<longrightarrow> x < 2 ^ 32)" "m < 2 ^ 32"
  shows "\<exists>n s'. migrate now out m has es s = Inr (n, s') \<and> graph_inv s' \<and> linkage_types s' = linkage_types s \<and>
    bound s' = bound s \<and> entities s' = entities s \<and>
    link_key ` set (entity_links s') = link_key ` set (entity_links s) \<union> moved_keys out m has es s \<and>
    (\<forall>k. k \<notin> moved_keys out m has es s \<longrightarrow> row_weight k s' = row_weight k s)"
  using assms(1,2)
proof (induction es arbitrary: s)
  case Nil
  then show ?case by (simp add: moved_keys_simps)
next
  case (Cons a es)
  obtain l x w where a: "a = (l, x, w)" by (cases a) blast
  obtain lid where lid: "lk_find l s = Some lid" using Cons.prems(2) a by auto
  note mk = moved_keys_simps(2) [OF lid]
  show ?case
  proof (cases "x = m \<or> (l, x) \<in> set has")
    case True
    then show ?thesis using Cons.IH [OF Cons.prems(1)] Cons.prems(2) by (simp add: a mk)
  next
    case False
    let ?e = "if out then x else m" and ?c = "if out then m else x"
    have "?e < 2 ^ 32" using Cons.prems(2) a assms(3) by auto
    then obtain r s1 where 1: "link now l ?c ?e w False s = Inr (r, s1)" "graph_inv s1" "linkage_types s1 = linkage_types s"
      "bound s1 = bound s" "entities s1 = entities s"
      "link_key ` set (entity_links s1) = insert (?e, lid, ?c) (link_key ` set (entity_links s))"
      "\<forall>k. k \<noteq> (?e, lid, ?c) \<longrightarrow> row_weight k s1 = row_weight k s"
      using link_ok [OF Cons.prems(1) lid, of ?e now ?c w] by blast
    have "\<forall>(l, x, w)\<in>set es. lk_find l s1 \<noteq> None \<and> (out \<longrightarrow> x < 2 ^ 32)"
      using Cons.prems(2) lk_find_cong [OF 1(3)] by simp
    then obtain n s2 where 2: "migrate now out m has es s1 = Inr (n, s2)" "graph_inv s2" "linkage_types s2 = linkage_types s1"
      "bound s2 = bound s1" "entities s2 = entities s1"
      "link_key ` set (entity_links s2) = link_key ` set (entity_links s1) \<union> moved_keys out m has es s1"
      "\<forall>k. k \<notin> moved_keys out m has es s1 \<longrightarrow> row_weight k s2 = row_weight k s1"
      using Cons.IH [OF 1(2)] by blast
    have "migrate now out m has (a # es) s = Inr (Suc n, s2)"
      using False 1(1) 2(1) by (cases out) (simp_all add: a)
    then show ?thesis
      using False 1 2 moved_keys_cong [OF 1(3), of out m has es] by (simp add: a mk)
  qed
qed

lemma set_edges:
  "(l, x, w) \<in> set (out_edges i s) \<longleftrightarrow> (\<exists>r\<in>set (entity_links s). k_concept r = i \<and>
     linkage_raw_name (k_linkage r) s = Some l \<and> x = k_entity r \<and> w = k_weight r)"
  "(l, x, w) \<in> set (in_edges i s) \<longleftrightarrow> (\<exists>r\<in>set (entity_links s). k_entity r = i \<and>
     linkage_raw_name (k_linkage r) s = Some l \<and> x = k_concept r \<and> w = k_weight r)"
  by (force simp: out_edges_def in_edges_def split: option.splits)+

lemma edges_keys:
  assumes "wf_linkages s" "lk_find l s = Some lid"
  shows "(\<exists>w. (l, x, w) \<in> set (out_edges i s)) \<longleftrightarrow> (x, lid, i) \<in> link_key ` set (entity_links s)"
    "(\<exists>w. (l, x, w) \<in> set (in_edges i s)) \<longleftrightarrow> (i, lid, x) \<in> link_key ` set (entity_links s)"
proof -
  have "linkage_raw_name j s = Some l \<longleftrightarrow> j = lid" for j
    using assms lk_find_inj [OF assms(1)] by (auto simp: raw_name_iff)
  then show "(\<exists>w. (l, x, w) \<in> set (out_edges i s)) \<longleftrightarrow> (x, lid, i) \<in> link_key ` set (entity_links s)"
    "(\<exists>w. (l, x, w) \<in> set (in_edges i s)) \<longleftrightarrow> (i, lid, x) \<in> link_key ` set (entity_links s)"
    by (auto simp: set_edges link_key_def image_iff)
qed

text \<open>The edges of \<open>c\<close> that \<open>m\<close> does not have, turned over to \<open>m\<close>.\<close>

lemma moved_edges:
  assumes "wf_linkages s" "\<forall>r\<in>set (entity_links s). linkage_raw_name (k_linkage r) s \<noteq> None"
  defines "K \<equiv> link_key ` set (entity_links s)"
  shows "K \<union> moved_keys True m (map (\<lambda>(l, e, w). (l, e)) (out_edges m s)) (out_edges c s) s =
      K \<union> {(e, l, m) | e l. (e, l, c) \<in> K \<and> e \<noteq> m}"
    "moved_keys True m (map (\<lambda>(l, e, w). (l, e)) (out_edges m s)) (out_edges c s) s \<inter> K = {}"
    "K \<union> moved_keys False m (map (\<lambda>(l, e, w). (l, e)) (in_edges m s)) (in_edges c s) s =
      K \<union> {(m, l, k) | l k. (c, l, k) \<in> K \<and> k \<noteq> m}"
    "moved_keys False m (map (\<lambda>(l, e, w). (l, e)) (in_edges m s)) (in_edges c s) s \<inter> K = {}"
proof -
  note ek = edges_keys [OF assms(1), folded K_def]
  have reg: "\<exists>n. lk_find n s = Some l" if "(e, l, k) \<in> K" for e l k
    using that assms(2) raw_name_iff [OF assms(1)] by (auto simp: K_def link_key_def)
  have has: "(l, x) \<in> set (map (\<lambda>(l, e, w). (l, e)) es) \<longleftrightarrow> (\<exists>w. (l, x, w) \<in> set es)" for l x and es :: "(string \<times> nat \<times> weight option) list"
    by force
  have out: "moved_keys True m (map (\<lambda>(l, e, w). (l, e)) (out_edges m s)) (out_edges c s) s =
      {(e, l, m) | e l. (e, l, c) \<in> K \<and> e \<noteq> m} - K"
    unfolding moved_keys_def has using ek(1) reg by (auto; metis)
  have "in": "moved_keys False m (map (\<lambda>(l, e, w). (l, e)) (in_edges m s)) (in_edges c s) s =
      {(m, l, k) | l k. (c, l, k) \<in> K \<and> k \<noteq> m} - K"
    unfolding moved_keys_def has using ek(2) reg by (auto; metis)
  show "K \<union> moved_keys True m (map (\<lambda>(l, e, w). (l, e)) (out_edges m s)) (out_edges c s) s =
      K \<union> {(e, l, m) | e l. (e, l, c) \<in> K \<and> e \<noteq> m}"
    "moved_keys True m (map (\<lambda>(l, e, w). (l, e)) (out_edges m s)) (out_edges c s) s \<inter> K = {}"
    unfolding out by blast+
  show "K \<union> moved_keys False m (map (\<lambda>(l, e, w). (l, e)) (in_edges m s)) (in_edges c s) s =
      K \<union> {(m, l, k) | l k. (c, l, k) \<in> K \<and> k \<noteq> m}"
    "moved_keys False m (map (\<lambda>(l, e, w). (l, e)) (in_edges m s)) (in_edges c s) s \<inter> K = {}"
    unfolding "in" by blast+
qed

lemma find_filter_key:
  "(\<And>x. key x = k \<Longrightarrow> p x) \<Longrightarrow> find (\<lambda>x. key x = k) (filter p xs) = find (\<lambda>x. key x = k) xs"
  by (induction xs) auto

text \<open>C30. Folding a concept into the memory that twins it always runs to the end; the memory then
  has every edge of the concept, as source and as object, except an edge to the memory itself; the
  concept and its edges are gone, every other edge is there, the edges that existed keep their
  weights, and the forward index is still the shadow of the fragments.\<close>

theorem fold_pair_correct:
  assumes "graph_inv s" "c \<noteq> m" "c < 2 ^ 32" "m < 2 ^ 32"
    "\<forall>r\<in>set (entity_links s). linkage_raw_name (k_linkage r) s \<noteq> None \<and> k_entity r < 2 ^ 32"
    and K: "K = link_key ` set (entity_links s)"
  shows "\<exists>n s'. fold_pair now c m s = Inr (n, s') \<and> graph_inv s' \<and>
    entities s' = filter (\<lambda>e. e_id e \<noteq> c) (entities s) \<and>
    link_key ` set (entity_links s') =
      {(e, l, k). e \<noteq> c \<and> k \<noteq> c \<and>
         ((e, l, k) \<in> K \<or> (k = m \<and> (e, l, c) \<in> K \<and> e \<noteq> m) \<or> (e = m \<and> (c, l, k) \<in> K \<and> k \<noteq> m))} \<and>
    (\<forall>e l k. (e, l, k) \<in> K \<and> e \<noteq> c \<and> k \<noteq> c \<longrightarrow> row_weight (e, l, k) s' = row_weight (e, l, k) s)"
proof -
  have wl: "wf_linkages s" using assms(1) by (simp add: graph_inv_def)
  let ?mo = "map (\<lambda>(l, e, w). (l, e)) (out_edges m s)" and ?mi = "map (\<lambda>(l, k, w). (l, k)) (in_edges m s)"
  let ?N1 = "moved_keys True m ?mo (out_edges c s) s" and ?N2 = "moved_keys False m ?mi (in_edges c s) s"
  have "\<forall>(l, x, w)\<in>set (out_edges c s). lk_find l s \<noteq> None \<and> (True \<longrightarrow> x < 2 ^ 32)"
    "\<forall>(l, x, w)\<in>set (in_edges c s). lk_find l s \<noteq> None \<and> (False \<longrightarrow> x < 2 ^ 32)"
    using assms(5) raw_name_iff [OF wl] by (auto simp: set_edges)
  note es = this
  obtain n1 s1 where 1: "migrate now True m ?mo (out_edges c s) s = Inr (n1, s1)" "graph_inv s1" "linkage_types s1 = linkage_types s"
    "entities s1 = entities s" "link_key ` set (entity_links s1) = K \<union> ?N1"
    "\<forall>k. k \<notin> ?N1 \<longrightarrow> row_weight k s1 = row_weight k s"
    using migrate_ok [OF assms(1) es(1) assms(4), of now ?mo] unfolding K by blast
  have es2: "\<forall>(l, x, w)\<in>set (in_edges c s). lk_find l s1 \<noteq> None \<and> (False \<longrightarrow> x < 2 ^ 32)"
    using es(2) lk_find_cong [OF 1(3)] by simp
  obtain n2 s2 where 2: "migrate now False m ?mi (in_edges c s) s1 = Inr (n2, s2)" "graph_inv s2"
    "entities s2 = entities s1" "link_key ` set (entity_links s2) = link_key ` set (entity_links s1) \<union> ?N2"
    "\<forall>k. k \<notin> ?N2 \<longrightarrow> row_weight k s2 = row_weight k s1"
    using migrate_ok [OF 1(2) es2 assms(4), of now ?mi] unfolding moved_keys_cong [OF 1(3)] by blast
  let ?t = "snd (purge_entity now c s2)"
  note p = purge_entity_purged(1) [OF 2(2) assms(3), where now = now]
  have run: "fold_pair now c m s = Inr (n1 + n2, ?t)"
    using 1(1) 2(1) by (simp add: fold_pair_def Let_def)
  have rows: "entity_links ?t = filter (\<lambda>r. k_entity r \<noteq> c \<and> k_concept r \<noteq> c) (entity_links s2)"
    using purged_ofD(2) [OF p] by simp
  have ents: "entities ?t = filter (\<lambda>e. e_id e \<noteq> c) (entities s)" using purged_ofD(3) [OF p] 1(4) 2(3) by simp
  have "\<forall>r\<in>set (entity_links s). linkage_raw_name (k_linkage r) s \<noteq> None" using assms(5) by blast
  note mv = moved_edges [OF wl this, folded K, where m = m and c = c]
  have "link_key ` set (entity_links ?t) = {(e, l, k) \<in> K \<union> ?N1 \<union> ?N2. e \<noteq> c \<and> k \<noteq> c}"
    unfolding 1(5) [symmetric] 2(4) [symmetric] rows by (auto simp: link_key_def)
  also have "K \<union> ?N1 \<union> ?N2 = K \<union> {(e, l, m) | e l. (e, l, c) \<in> K \<and> e \<noteq> m} \<union> {(m, l, k) | l k. (c, l, k) \<in> K \<and> k \<noteq> m}"
    using mv(1,3) by blast
  finally have keys: "link_key ` set (entity_links ?t) = {(e, l, k). e \<noteq> c \<and> k \<noteq> c \<and>
         ((e, l, k) \<in> K \<or> (k = m \<and> (e, l, c) \<in> K \<and> e \<noteq> m) \<or> (e = m \<and> (c, l, k) \<in> K \<and> k \<noteq> m))}"
    by auto
  have w: "row_weight (e, l, k) ?t = row_weight (e, l, k) s" if "(e, l, k) \<in> K" "e \<noteq> c" "k \<noteq> c" for e l k
  proof -
    have "(e, l, k) \<notin> ?N1" "(e, l, k) \<notin> ?N2" using mv(2,4) that(1) by blast+
    then have "row_weight (e, l, k) s2 = row_weight (e, l, k) s" using 1(6) 2(5) by simp
    moreover have "row_weight (e, l, k) ?t = row_weight (e, l, k) s2"
      unfolding row_weight_def rows by (subst find_filter_key) (use that in \<open>auto simp: link_key_def\<close>)
    ultimately show ?thesis by simp
  qed
  show ?thesis using run purged_of_graph [OF 2(2) p] ents keys w by blast
qed

theorem fold_pair_correct_witness:
  "\<exists>n s'. fold_pair 0 7 9 mention_store = Inr (n, s') \<and> graph_inv s' \<and> link_key ` set (entity_links s') = {(5, 1, 9)}"
proof -
  have K: "link_key ` set (entity_links mention_store) = {(5, 1, 7)}"
    using arg_cong [OF mention_store_ok(4), of set] by simp
  have "linkage_raw_name 1 mention_store = Some ''mentions''"
    using mention_store_ok(1,2) raw_name_iff [of mention_store] by (simp add: graph_inv_def)
  moreover have "\<forall>r\<in>set (entity_links mention_store). link_key r = (5, 1, 7)" using K by blast
  then have "\<forall>r\<in>set (entity_links mention_store). k_linkage r = 1 \<and> k_entity r = 5" by (simp add: link_key_def)
  ultimately have "\<forall>r\<in>set (entity_links mention_store). linkage_raw_name (k_linkage r) mention_store \<noteq> None \<and> k_entity r < 2 ^ 32"
    by simp
  note f = fold_pair_correct [OF mention_store_ok(1) _ _ _ this K [symmetric], of 7 9 0]
  have "{(e, l, k). e \<noteq> 7 \<and> k \<noteq> 7 \<and>
      ((e, l, k) \<in> S \<or> (k = 9 \<and> (e, l, 7) \<in> S \<and> e \<noteq> 9) \<or> (e = 9 \<and> (7, l, k) \<in> S \<and> k \<noteq> 9))} = {(5, 1, 9)}"
    if "S = {(5, 1, 7)}" for S :: "(nat \<times> nat \<times> nat) set" unfolding that by auto
  note e = this [OF refl]
  show ?thesis using f unfolding e by simp blast
qed

section \<open>Forgetting by selector\<close>

text \<open>Forgetting deletes exactly the selected entities of the bound partition, whatever their kind,
  and keeps the forward index the shadow of the fragments; afterwards the same selectors match
  nothing. A dry run reports the names and changes nothing.\<close>

theorem forget_by_selector_correct:
  assumes "graph_inv s" "\<forall>e\<in>set (entities s). e_id e < 2 ^ 32" "distinct (map e_id (entities s))"
    and t: "t = snd (forget_by_selector now False q s)"
  shows "entities t = filter (\<lambda>e. \<not> selected q (fst (bound s)) e) (entities s) \<and> graph_inv t \<and>
    find_entity_ids q t = [] \<and>
    fst (forget_by_selector now False q s) = (length (find_entity_ids q s), map (fst \<circ> snd) (find_entity_ids q s), False) \<and>
    forget_by_selector now True q s = ((0, map (fst \<circ> snd) (find_entity_ids q s), True), s)"
proof -
  let ?info = "map (\<lambda>(i, n, k, _, _). (i, k, n)) (find_entity_ids q s)"
  have ids: "fst ` set ?info = e_id ` {e \<in> set (entities s). selected q (fst (bound s)) e}"
    by (simp add: find_entity_ids_def image_image)
  have "\<forall>x\<in>fst ` set ?info. x < 2 ^ 32" unfolding ids using assms(2) by auto
  then have small: "\<forall>x\<in>set ?info. fst x < 2 ^ 32" by (rule ball_imageD)
  have te: "t = snd (bulk_purge_ids now ?info s)" by (simp only: t forget_by_selector_def Let_def if_False snd_conv)
  note p = bulk_purge_purged(1) [OF assms(1) small, of now, folded te]
  have inj: "x \<in> set (entities s) \<Longrightarrow> y \<in> set (entities s) \<Longrightarrow> e_id x = e_id y \<Longrightarrow> x = y" for x y
    using assms(3) by (auto simp: distinct_map dest: inj_onD)
  have "set (map fst ?info) = fst ` set ?info" by (simp only: set_map)
  then have "entities t = filter (\<lambda>e. e_id e \<notin> e_id ` {e \<in> set (entities s). selected q (fst (bound s)) e}) (entities s)"
    unfolding purged_ofD(3) [OF p] ids by (simp only:)
  also have "\<dots> = filter (\<lambda>e. \<not> selected q (fst (bound s)) e) (entities s)"
    using inj by (intro filter_cong refl) blast
  finally have e: "entities t = filter (\<lambda>e. \<not> selected q (fst (bound s)) e) (entities s)" .
  then have "find_entity_ids q t = []" using purged_ofD(5) [OF p] by (simp add: find_entity_ids_def filter_empty_conv)
  with e purged_of_graph [OF assms(1) p] show ?thesis by (simp add: forget_by_selector_def Let_def)
qed

lemma graph_inv_entities: "graph_inv (s\<lparr>entities := x, next_eid := n\<rparr>) = graph_inv s"
proof -
  let ?t = "s\<lparr>entities := x, next_eid := n\<rparr>"
  have "frag_inv ?t = frag_inv s" by (rule frag_inv_cong) simp_all
  moreover have "rows_of_store ?t = rows_of_store s"
    by (rule rows_cong) (simp_all add: frag_value_def disk_value_def split: option.split)
  moreover have "lk_find l ?t = lk_find l s" for l by (rule lk_find_cong) simp
  ultimately show ?thesis by (simp add: graph_inv_def shadow_ok_def wf_linkages_def)
qed

lemma open_store_graph: "graph_inv (open_store ''a'')"
proof -
  have "frag_inv (open_store ''a'')" using open_store_frag_ok by (simp add: frag_inv_def)
  then show ?thesis by (simp add: graph_inv_def shadow_ok_def lk_find_def wf_linkages_def)
qed

theorem forget_by_selector_correct_witness:
  "\<exists>t. t = snd (forget_by_selector 0 False
        \<lparr>q_names = [], q_like = Some ''keyword%'', q_namespace = None, q_kind = Some ''concept'', q_protected = None, q_noise = None\<rparr>
        keyword_store) \<and> graph_inv t \<and> map e_id (entities t) = [1]"
proof -
  let ?q = "\<lparr>q_names = [], q_like = Some ''keyword%'', q_namespace = None, q_kind = Some ''concept'', q_protected = None, q_noise = None\<rparr>"
  have g: "graph_inv keyword_store" unfolding keyword_store_def graph_inv_entities by (rule open_store_graph)
  have es: "entities keyword_store = map (\<lambda>(i, k, n). \<lparr>e_id = i, e_pid = 1, e_kind = k, e_path = None,
     e_name = n, e_tldr = None, e_meta = None, e_created = 0, e_updated = 0, e_protected = False, e_noise = False,
     e_canonical = None\<rparr>) [(1, ''doc'', ''d''), (2, ''concept'', ''keyword/x'')]" by (simp add: keyword_store_def)
  have ids: "\<forall>e\<in>set (entities keyword_store). e_id e < 2 ^ 32" "distinct (map e_id (entities keyword_store))"
    unfolding es by simp_all
  have b: "bound keyword_store = (1, ''a'')" by (simp add: keyword_store_def)
  have "map e_id (filter (\<lambda>e. \<not> selected ?q (fst (bound keyword_store)) e) (entities keyword_store)) = [1]"
    unfolding es b by (simp add: selected_def given_def)
  then show ?thesis using forget_by_selector_correct [OF g ids refl, of 0 ?q] by simp
qed

end
