(* ===== verification/QueryParse.thy ===== *)
theory QueryParse
  imports Prelude
begin

text \<open>
  The infix query language of \<open>src/src/refmatrix/query.py\<close>: the tokenizer with its regular
  expression as a scanner, the recursive-descent parser as mutually recursive functions on the
  remaining tokens (their termination is that a call consumes tokens before it is entered again),
  and a printer used only to state that parsing undoes printing. The tokenizer of the functional
  language (PQL) follows the same scheme.

  The boundary \<open>\b\<close> in front of a keyword always holds where a token starts: a term takes every
  word character that follows it and the other tokens end in none or at a boundary. Characters
  are those of the ASCII range.
\<close>

section \<open>Tokens\<close>

datatype token = LparTok | RparTok | AndTok | OrTok | NotTok | TermTok string

text \<open>A keyword, in any case, up to a word boundary.\<close>

definition keyword_rest :: "string \<Rightarrow> string \<Rightarrow> string option" where
  "keyword_rest kw s =
     (let n = length kw in
      if str_lower (take n s) = kw \<and> (case drop n s of [] \<Rightarrow> True | c # _ \<Rightarrow> \<not> is_word c)
      then Some (drop n s) else None)"

definition symbol_rest :: "string \<Rightarrow> string \<Rightarrow> string option" where
  "symbol_rest p s = (if starts_with p s then Some (drop (length p) s) else None)"

definition or_else :: "'a option \<Rightarrow> 'a option \<Rightarrow> 'a option" where
  "or_else x y = (case x of None \<Rightarrow> y | Some a \<Rightarrow> Some a)"

definition term_start :: "char \<Rightarrow> bool" where
  "term_start c = (is_alpha c \<or> c = CHR ''_'')"

definition term_char :: "char \<Rightarrow> bool" where
  "term_char c = (is_word c \<or> c \<in> set ''-./'')"

definition concept_char :: "char \<Rightarrow> bool" where
  "concept_char c = (is_word c \<or> c \<in> set ''-./@'')"

text \<open>\<open>[A-Za-z_][\w\-./]*(?::[\w\-./@]+)?\<close> at the start of a string.\<close>

definition concept_part :: "string \<Rightarrow> string" where
  "concept_part s =
     (case s of
        [] \<Rightarrow> []
      | c # r \<Rightarrow> if c = CHR '':'' \<and> takeWhile concept_char r \<noteq> [] then c # takeWhile concept_char r else [])"

definition term_text :: "string \<Rightarrow> string" where
  "term_text s =
     (case s of
        [] \<Rightarrow> []
      | c # r \<Rightarrow> if term_start c then c # takeWhile term_char r @ concept_part (dropWhile term_char r) else [])"

definition next_token :: "string \<Rightarrow> (token \<times> string) option" where
  "next_token s =
     or_else (map_option (Pair LparTok) (symbol_rest ''('' s))
    (or_else (map_option (Pair RparTok) (symbol_rest '')'' s))
    (or_else (map_option (Pair AndTok) (or_else (keyword_rest ''and'' s) (symbol_rest ''&&'' s)))
    (or_else (map_option (Pair OrTok) (or_else (keyword_rest ''or'' s) (symbol_rest ''||'' s)))
    (or_else (map_option (Pair NotTok) (or_else (keyword_rest ''not'' s) (symbol_rest ''!'' s)))
       (if term_text s = [] then None else Some (TermTok (term_text s), drop (length (term_text s)) s))))))"

lemma keyword_rest_length: "keyword_rest kw s = Some r \<Longrightarrow> kw \<noteq> [] \<Longrightarrow> length r < length s"
proof -
  assume k: "keyword_rest kw s = Some r" "kw \<noteq> []"
  then have "str_lower (take (length kw) s) = kw" "r = drop (length kw) s"
    by (simp_all add: keyword_rest_def Let_def split: if_splits)
  moreover from this(1) have "length (take (length kw) s) = length kw" by (metis length_str_lower)
  then have "length kw \<le> length s" by simp
  moreover have "0 < length kw" using k(2) by simp
  ultimately show ?thesis unfolding \<open>r = drop (length kw) s\<close> length_drop by linarith
qed

lemma symbol_rest_length: "symbol_rest p s = Some r \<Longrightarrow> p \<noteq> [] \<Longrightarrow> length r < length s"
proof -
  assume k: "symbol_rest p s = Some r" "p \<noteq> []"
  then have "take (length p) s = p" "r = drop (length p) s"
    by (simp_all add: symbol_rest_def starts_with_def split: if_splits)
  moreover from this(1) have "length (take (length p) s) = length p" by simp
  then have "length p \<le> length s" by simp
  moreover have "0 < length p" using k(2) by simp
  ultimately show ?thesis unfolding \<open>r = drop (length p) s\<close> length_drop by linarith
qed

lemma term_text_append: "\<exists>r. s = term_text s @ r"
proof (cases s)
  case (Cons c t)
  have "t = takeWhile term_char t @ concept_part (dropWhile term_char t) @
      drop (length (concept_part (dropWhile term_char t))) (dropWhile term_char t)"
  proof -
    have "u = concept_part u @ drop (length (concept_part u)) u" for u
      by (cases u) (auto simp: concept_part_def dropWhile_eq_drop [symmetric])
    then show ?thesis by (metis takeWhile_dropWhile_id)
  qed
  then show ?thesis using Cons by (auto simp: term_text_def)
qed (simp add: term_text_def)

lemma next_token_length: "next_token s = Some (t, r) \<Longrightarrow> length r < length s"
proof -
  assume n: "next_token s = Some (t, r)"
  have "length (drop (length (term_text s)) s) < length s" if "term_text s \<noteq> []"
    using term_text_append [of s] that by (metis append_eq_conv_conj length_append length_greater_0_conv less_add_same_cancel2)
  with n show ?thesis
    by (auto simp: next_token_def or_else_def dest: keyword_rest_length symbol_rest_length split: option.splits if_splits)
qed

text \<open>\<open>_tokenize\<close>: white space is skipped; a character that starts no token is an error.\<close>

function tokenize :: "string \<Rightarrow> token list result" where
  "tokenize s =
     (case lstrip s of
        [] \<Rightarrow> Inr []
      | c # r \<Rightarrow>
          (case next_token (c # r) of
             None \<Rightarrow> Inl (ValueError ''unexpected char'')
           | Some (t, s') \<Rightarrow> bind_r (tokenize s') (\<lambda>ts. Inr (t # ts))))"
  by pat_completeness auto
termination
proof (relation "measure length", goal_cases)
  case (2 s c r x t s')
  then have "length s' < length (lstrip s)" by (auto dest: next_token_length)
  moreover have "length (lstrip s) \<le> length s" by (simp add: lstrip_def length_dropWhile_le)
  ultimately show ?case by simp
qed simp

declare tokenize.simps [simp del]

section \<open>The parser\<close>

datatype node = TermN string | OpN string "node list"

lemma bind_r_cong [fundef_cong]:
  "r = r' \<Longrightarrow> (\<And>a. r' = Inr a \<Longrightarrow> f a = f' a) \<Longrightarrow> bind_r r f = bind_r r' f'"
  by (cases r') auto

lemma bind_r_pair:
  "bind_r r (\<lambda>(x, y). f x y) = Inr z \<longleftrightarrow> (\<exists>x y. r = Inr (x, y) \<and> f x y = Inr z)"
  by (cases r) auto

definition eat_rparen :: "token list \<Rightarrow> token list result" where
  "eat_rparen ts = (case ts of RparTok # r \<Rightarrow> Inr r | _ \<Rightarrow> Inl (ValueError ''expected rparen''))"

lemma eat_rparen_length: "eat_rparen r = Inr r' \<Longrightarrow> length r' < length r"
  by (auto simp: eat_rparen_def split: list.splits token.splits)

function (sequential) p_or :: "token list \<Rightarrow> (node \<times> token list) result"
  and or_loop :: "node \<Rightarrow> token list \<Rightarrow> (node \<times> token list) result"
  and p_and :: "token list \<Rightarrow> (node \<times> token list) result"
  and and_loop :: "node \<Rightarrow> token list \<Rightarrow> (node \<times> token list) result"
  and p_not :: "token list \<Rightarrow> (node \<times> token list) result"
  and p_atom :: "token list \<Rightarrow> (node \<times> token list) result" where
  "p_or ts = bind_r (p_and ts) (\<lambda>(l, r). or_loop l r)"
| "or_loop l (OrTok # ts) = bind_r (p_and ts) (\<lambda>(x, r). or_loop (OpN ''or'' [l, x]) r)"
| "or_loop l ts = Inr (l, ts)"
| "p_and ts = bind_r (p_not ts) (\<lambda>(l, r). and_loop l r)"
| "and_loop l (AndTok # ts) = bind_r (p_not ts) (\<lambda>(x, r). and_loop (OpN ''and'' [l, x]) r)"
| "and_loop l ts = Inr (l, ts)"
| "p_not (NotTok # ts) = bind_r (p_atom ts) (\<lambda>(x, r). Inr (OpN ''not'' [x], r))"
| "p_not ts = p_atom ts"
| "p_atom [] = Inl (ValueError ''unexpected end of input'')"
| "p_atom (LparTok # ts) = bind_r (p_or ts) (\<lambda>(x, r). bind_r (eat_rparen r) (\<lambda>r'. Inr (x, r')))"
| "p_atom (TermTok t # ts) = Inr (TermN t, ts)"
| "p_atom (t # ts) = Inl (ValueError ''unexpected token'')"
  by pat_completeness auto


text \<open>A call consumes at least one token, a loop none or more.\<close>

lemma parser_consumes:
  "p_or_or_loop_p_and_and_loop_p_not_p_atom_dom (Inl (Inl ts)) \<Longrightarrow> \<forall>x r. p_or ts = Inr (x, r) \<longrightarrow> length r < length ts"
  "p_or_or_loop_p_and_and_loop_p_not_p_atom_dom (Inl (Inr (Inl (l, ts)))) \<Longrightarrow>
     \<forall>x r. or_loop l ts = Inr (x, r) \<longrightarrow> length r \<le> length ts"
  "p_or_or_loop_p_and_and_loop_p_not_p_atom_dom (Inl (Inr (Inr ts))) \<Longrightarrow> \<forall>x r. p_and ts = Inr (x, r) \<longrightarrow> length r < length ts"
  "p_or_or_loop_p_and_and_loop_p_not_p_atom_dom (Inr (Inl (l, ts))) \<Longrightarrow>
     \<forall>x r. and_loop l ts = Inr (x, r) \<longrightarrow> length r \<le> length ts"
  "p_or_or_loop_p_and_and_loop_p_not_p_atom_dom (Inr (Inr (Inl ts))) \<Longrightarrow> \<forall>x r. p_not ts = Inr (x, r) \<longrightarrow> length r < length ts"
  "p_or_or_loop_p_and_and_loop_p_not_p_atom_dom (Inr (Inr (Inr ts))) \<Longrightarrow> \<forall>x r. p_atom ts = Inr (x, r) \<longrightarrow> length r < length ts"
proof (induction rule: p_or_or_loop_p_and_and_loop_p_not_p_atom.pinduct,
    simp_all only: p_or.psimps or_loop.psimps p_and.psimps and_loop.psimps p_not.psimps p_atom.psimps bind_r_pair,
    simp_all add: bind_r_Inr, goal_cases)
  case (1 ts)
  then show ?case by (metis le_less_trans)
next
  case (2 l ts)
  show ?case
  proof (intro allI impI, elim exE conjE)
    fix x r xa y assume a: "p_and ts = Inr (xa, y)" and b: "or_loop (OpN ''or'' [l, xa]) y = Inr (x, r)"
    have "length y < length ts" using 2(2) a by blast
    moreover have "length r \<le> length y" using 2(3) [OF a refl] b by blast
    ultimately show "length r \<le> Suc (length ts)" by simp
  qed
next
  case (3 ts)
  then show ?case by (metis le_less_trans)
next
  case (4 l ts)
  show ?case
  proof (intro allI impI, elim exE conjE)
    fix x r xa y assume a: "p_not ts = Inr (xa, y)" and b: "and_loop (OpN ''and'' [l, xa]) y = Inr (x, r)"
    have "length y < length ts" using 4(2) a by blast
    moreover have "length r \<le> length y" using 4(3) [OF a refl] b by blast
    ultimately show "length r \<le> Suc (length ts)" by simp
  qed
next
  case (5 ts)
  then show ?case by (metis less_SucI)
next
  case (6 ts)
  then show ?case by (metis eat_rparen_length less_SucI less_trans)
qed

termination p_or
proof (relation "measure (\<lambda>x. case x of
      Inl (Inl ts) \<Rightarrow> 4 * length ts + 3
    | Inl (Inr (Inl (l, ts))) \<Rightarrow> 4 * length ts
    | Inl (Inr (Inr ts)) \<Rightarrow> 4 * length ts + 2
    | Inr (Inl (l, ts)) \<Rightarrow> 4 * length ts
    | Inr (Inr (Inl ts)) \<Rightarrow> 4 * length ts + 1
    | Inr (Inr (Inr ts)) \<Rightarrow> 4 * length ts)")
qed (auto dest!: parser_consumes(3,5))

declare p_or.simps [simp del] p_and.simps [simp del]

definition parse :: "token list \<Rightarrow> node result" where
  "parse ts = bind_r (p_or ts) (\<lambda>(n, r). if r = [] then Inr n else Inl (ValueError ''trailing tokens''))"

definition parse_dsl :: "string \<Rightarrow> node result" where
  "parse_dsl s = bind_r (tokenize s) parse"

section \<open>What the parser returns\<close>

text \<open>The trees of the grammar: two arguments under \<open>and\<close> and \<open>or\<close>, one under \<open>not\<close>.\<close>

fun wf_node :: "node \<Rightarrow> bool" where
  "wf_node (TermN t) = True"
| "wf_node (OpN op [a]) = (op = ''not'' \<and> wf_node a)"
| "wf_node (OpN op [a, b]) = ((op = ''and'' \<or> op = ''or'') \<and> wf_node a \<and> wf_node b)"
| "wf_node (OpN op _) = False"

lemma parser_wf:
  "\<forall>x r. p_or ts = Inr (x, r) \<longrightarrow> wf_node x"
  "wf_node l \<longrightarrow> (\<forall>x r. or_loop l ts = Inr (x, r) \<longrightarrow> wf_node x)"
  "\<forall>x r. p_and ts = Inr (x, r) \<longrightarrow> wf_node x"
  "wf_node l \<longrightarrow> (\<forall>x r. and_loop l ts = Inr (x, r) \<longrightarrow> wf_node x)"
  "\<forall>x r. p_not ts = Inr (x, r) \<longrightarrow> wf_node x"
  "\<forall>x r. p_atom ts = Inr (x, r) \<longrightarrow> wf_node x"
  by (induction ts and l ts and ts and l ts and ts and ts rule: p_or_or_loop_p_and_and_loop_p_not_p_atom.induct)
    (fastforce simp: p_or.simps p_and.simps bind_r_pair bind_r_Inr)+

text \<open>C34. Whatever the text, the parser returns an error or a tree of the grammar: every operator
  has the arguments its evaluation reads.\<close>

theorem parse_dsl_wf:
  "parse_dsl s = Inr n \<Longrightarrow> wf_node n"
  using parser_wf(1) by (auto simp: parse_dsl_def parse_def bind_r_Inr split: if_splits)

section \<open>Printing and parsing back\<close>

text \<open>Levels: 0 for an alternative, 1 for a conjunction, 2 for a negation, 3 for an atom.\<close>

definition wrap :: "bool \<Rightarrow> token list \<Rightarrow> token list" where
  "wrap p ts = (if p then LparTok # ts @ [RparTok] else ts)"

fun unparse :: "nat \<Rightarrow> node \<Rightarrow> token list" where
  "unparse lvl (TermN t) = [TermTok t]"
| "unparse lvl (OpN op [a]) = wrap (2 < lvl) (NotTok # unparse 3 a)"
| "unparse lvl (OpN op [a, b]) =
     (if op = ''or'' then wrap (0 < lvl) (unparse 0 a @ OrTok # unparse 1 b)
      else wrap (1 < lvl) (unparse 1 a @ AndTok # unparse 2 b))"
| "unparse lvl (OpN op _) = []"

definition starts_and :: "token list \<Rightarrow> bool" where
  "starts_and r = (case r of AndTok # _ \<Rightarrow> True | _ \<Rightarrow> False)"

lemma loop_stops:
  "\<not> starts_and r \<Longrightarrow> and_loop n r = Inr (n, r)"
  "or_loop n [] = Inr (n, [])" "or_loop n (RparTok # r) = Inr (n, RparTok # r)"
  by (cases r rule: list.exhaust; simp add: starts_and_def split: token.splits; metis and_loop.simps token.exhaust) simp_all

lemma wrapped:
  assumes "\<And>r. \<not> starts_and r \<Longrightarrow> p_or (ts @ r) = or_loop n r"
  shows "p_atom (LparTok # ts @ RparTok # r) = Inr (n, r)" "p_not (LparTok # ts @ RparTok # r) = Inr (n, r)"
    "p_and (LparTok # ts @ RparTok # r) = and_loop n r"
proof -
  have "p_or (ts @ RparTok # r) = Inr (n, RparTok # r)" using assms [of "RparTok # r"] by (simp add: starts_and_def)
  then show a: "p_atom (LparTok # ts @ RparTok # r) = Inr (n, r)" by (simp add: eat_rparen_def)
  then show "p_not (LparTok # ts @ RparTok # r) = Inr (n, r)" by simp
  then show "p_and (LparTok # ts @ RparTok # r) = and_loop n r" by (simp add: p_and.simps)
qed

lemma parse_unparse:
  "wf_node n \<Longrightarrow>
     (\<forall>r. p_atom (unparse 3 n @ r) = Inr (n, r)) \<and> (\<forall>r. p_not (unparse 2 n @ r) = Inr (n, r)) \<and>
     (\<forall>r. p_and (unparse 1 n @ r) = and_loop n r) \<and> (\<forall>r. \<not> starts_and r \<longrightarrow> p_or (unparse 0 n @ r) = or_loop n r)"
proof (induction n rule: wf_node.induct)
  case (1 t)
  then show ?case by (simp add: p_or.simps p_and.simps loop_stops)
next
  case (2 op a)
  let ?n = "OpN op [a]"
  have op: "op = ''not''" and ih: "\<And>r. p_atom (unparse 3 a @ r) = Inr (a, r)" using 2 by simp_all
  have n: "p_not (NotTok # unparse 3 a @ r) = Inr (?n, r)" for r by (simp add: ih op)
  then have c: "p_and (NotTok # unparse 3 a @ r) = and_loop ?n r" for r by (simp add: p_and.simps)
  then have o: "\<not> starts_and r \<Longrightarrow> p_or ((NotTok # unparse 3 a) @ r) = or_loop ?n r" for r
    by (simp add: p_or.simps loop_stops)
  show ?case using wrapped [OF o] n c o by (simp add: wrap_def)
next
  case (3 op a b)
  let ?n = "OpN op [a, b]"
  show ?case
  proof (cases "op = ''or''")
    case True
    have a: "\<not> starts_and r \<Longrightarrow> p_or (unparse 0 a @ r) = or_loop a r" and b: "p_and (unparse 1 b @ r) = and_loop b r" for r
      using 3 by simp_all
    have o: "p_or ((unparse 0 a @ OrTok # unparse 1 b) @ r) = or_loop ?n r" if "\<not> starts_and r" for r
      using a [of "OrTok # unparse 1 b @ r"] b [of r] loop_stops(1) [OF that] True by (simp add: starts_and_def)
    show ?thesis using wrapped [OF o] o True by (simp add: wrap_def)
  next
    case False
    then have op: "op = ''and''" using 3 by simp
    have a: "p_and (unparse 1 a @ r) = and_loop a r" and b: "p_not (unparse 2 b @ r) = Inr (b, r)" for r
      using 3 op by simp_all
    have c: "p_and ((unparse 1 a @ AndTok # unparse 2 b) @ r) = and_loop ?n r" for r
      using a [of "AndTok # unparse 2 b @ r"] b [of r] op by simp
    have o: "p_or ((unparse 1 a @ AndTok # unparse 2 b) @ r) = or_loop ?n r" if "\<not> starts_and r" for r
      using c [of r] loop_stops(1) [OF that] by (simp add: p_or.simps)
    show ?thesis using wrapped [OF o] c o False by (simp add: wrap_def)
  qed
qed simp_all

fun tok_text :: "token \<Rightarrow> string" where
  "tok_text LparTok = ''(''"
| "tok_text RparTok = '')''"
| "tok_text AndTok = ''AND''"
| "tok_text OrTok = ''OR''"
| "tok_text NotTok = ''NOT''"
| "tok_text (TermTok t) = t"

definition render :: "token list \<Rightarrow> string" where
  "render ts = List.concat (map (\<lambda>t. '' '' @ tok_text t) ts)"

text \<open>A text the term pattern matches as a whole, and that no keyword begins.\<close>

definition valid_term :: "string \<Rightarrow> bool" where
  "valid_term t = (t \<noteq> [] \<and> term_text t = t \<and> keyword_rest ''and'' t = None \<and>
     keyword_rest ''or'' t = None \<and> keyword_rest ''not'' t = None)"

fun valid_token :: "token \<Rightarrow> bool" where
  "valid_token (TermTok t) = valid_term t"
| "valid_token _ = True"

definition gap :: "string \<Rightarrow> bool" where
  "gap r = (r = [] \<or> hd r = CHR '' '')"

lemma gap_cases: "gap r \<Longrightarrow> (r = [] \<Longrightarrow> P) \<Longrightarrow> (\<And>t. r = CHR '' '' # t \<Longrightarrow> P) \<Longrightarrow> P"
  by (cases r) (auto simp: gap_def)

lemma space_class [simp]:
  "\<not> is_word CHR '' ''" "\<not> term_char CHR '' ''" "\<not> concept_char CHR '' ''" "is_space CHR '' ''"
  by (simp_all add: term_char_def concept_char_def char_class_defs)

lemma takeWhile_gap: "gap r \<Longrightarrow> \<not> p CHR '' '' \<Longrightarrow> takeWhile p (t @ r) = takeWhile p t"
  by (induction t) (auto elim: gap_cases)

lemma concept_part_gap: "gap r \<Longrightarrow> concept_part (u @ r) = concept_part u"
  by (cases u) (auto simp: concept_part_def takeWhile_gap elim: gap_cases)

lemma term_text_gap:
  assumes "gap r" "term_text t = t"
  shows "t \<noteq> [] \<Longrightarrow> term_text (t @ r) = t"
proof (cases t)
  case (Cons c t')
  have st: "term_start c" and t': "takeWhile term_char t' @ concept_part (dropWhile term_char t') = t'"
    using assms(2) Cons by (simp_all add: term_text_def split: if_splits)
  have dw: "dropWhile term_char (t' @ r) = dropWhile term_char t' @ r"
    using assms(1) by (rule gap_cases) (simp_all add: dropWhile_append)
  show ?thesis
    using Cons st t' by (simp add: term_text_def takeWhile_gap [OF assms(1)] dw concept_part_gap [OF assms(1)])
qed simp

lemma str_lower_Nil [simp]: "str_lower [] = []" by (simp add: str_lower_def)

lemma lower_keywords: "str_lower ''AND'' = ''and''" "str_lower ''OR'' = ''or''" "str_lower ''NOT'' = ''not''"
  "str_lower ''AN'' \<noteq> ''or''" "str_lower ''NO'' \<noteq> ''or''" "str_lower ''NOT'' \<noteq> ''and''" "str_lower ''OR '' \<noteq> ''and''"
  "lower_char CHR '' '' = CHR '' ''"
  by code_simp+

lemma keyword_gap:
  assumes "gap r" "CHR '' '' \<notin> set kw" "t \<noteq> []"
  shows "keyword_rest kw (t @ r) = None \<longleftrightarrow> keyword_rest kw t = None"
proof (cases "length kw \<le> length t")
  case True
  then show ?thesis
    using assms(1) by (cases "drop (length kw) t") (auto simp: keyword_rest_def Let_def elim: gap_cases)
next
  case False
  have "str_lower (take (length kw) (t @ r)) \<noteq> kw" using assms(1)
  proof (rule gap_cases)
    assume "r = []"
    then have "length (str_lower (take (length kw) (t @ r))) \<noteq> length kw" using False by simp
    then show ?thesis by metis
  next
    fix u assume "r = CHR '' '' # u"
    then have "CHR '' '' \<in> set (take (length kw) (t @ r))"
      using False by (simp add: take_Cons' )
    then have "CHR '' '' \<in> set (str_lower (take (length kw) (t @ r)))"
      unfolding str_lower_def using lower_keywords(8) by (metis image_eqI list.set_map)
    then show ?thesis using assms(2) by metis
  qed
  moreover have "length (str_lower (take (length kw) t)) \<noteq> length kw" using False by simp
  then have "str_lower (take (length kw) t) \<noteq> kw" by metis
  ultimately show ?thesis by (simp add: keyword_rest_def Let_def)
qed

lemma term_start_first: "term_text t = t \<Longrightarrow> t \<noteq> [] \<Longrightarrow> term_start (hd t)"
  by (cases t) (auto simp: term_text_def split: if_splits)

lemma symbol_none: "term_start (hd t) \<Longrightarrow> t \<noteq> [] \<Longrightarrow> \<not> term_start (hd p) \<Longrightarrow> p \<noteq> [] \<Longrightarrow> symbol_rest p (t @ r) = None"
  by (cases t; cases p) (auto simp: symbol_rest_def starts_with_def)

lemma next_token_text:
  assumes "valid_token t" "gap r"
  shows "next_token (tok_text t @ r) = Some (t, r)"
proof (cases t)
  case (TermTok x)
  then have x: "x \<noteq> []" "term_text x = x" "keyword_rest ''and'' x = None" "keyword_rest ''or'' x = None" "keyword_rest ''not'' x = None"
    using assms(1) by (simp_all add: valid_term_def)
  have ns: "\<not> term_start (CHR ''('')" "\<not> term_start (CHR '')'')" "\<not> term_start (CHR ''&'')" "\<not> term_start (CHR ''|'')" "\<not> term_start (CHR ''!'')"
    by (simp_all add: term_start_def char_class_defs)
  have sn: "symbol_rest p (x @ r) = None" if "p \<noteq> []" "\<not> term_start (hd p)" for p
    using symbol_none [OF term_start_first [OF x(2,1)] x(1) that(2,1)] .
  have kn: "keyword_rest ''and'' (x @ r) = None" "keyword_rest ''or'' (x @ r) = None" "keyword_rest ''not'' (x @ r) = None"
    using keyword_gap [OF assms(2) _ x(1)] x(3-5) by simp_all
  show ?thesis
    using TermTok x term_text_gap [OF assms(2) x(2,1)]
    by (simp add: next_token_def or_else_def sn ns kn)
next
  case AndTok
  show ?thesis using assms(2) unfolding AndTok
    by (rule gap_cases) (simp_all add: next_token_def or_else_def symbol_rest_def starts_with_def keyword_rest_def lower_keywords)
next
  case OrTok
  show ?thesis using assms(2) unfolding OrTok
    by (rule gap_cases) (simp_all add: next_token_def or_else_def symbol_rest_def starts_with_def keyword_rest_def lower_keywords)
next
  case NotTok
  show ?thesis using assms(2) unfolding NotTok
    by (rule gap_cases) (simp_all add: next_token_def or_else_def symbol_rest_def starts_with_def keyword_rest_def lower_keywords)
qed (simp_all add: next_token_def or_else_def symbol_rest_def starts_with_def)

lemma tok_text_start: "valid_token t \<Longrightarrow> \<exists>c u. tok_text t = c # u \<and> \<not> is_space c"
proof (cases t)
  case (TermTok x)
  assume "valid_token t"
  then have "x \<noteq> []" "term_start (hd x)" using TermTok term_start_first by (auto simp: valid_term_def)
  then show ?thesis using TermTok char_classes_disjoint
    by (cases x) (auto simp: term_start_def is_alpha_def char_class_defs)
qed (auto simp: char_class_defs)

lemma tokenize_render: "\<forall>t\<in>set ts. valid_token t \<Longrightarrow> tokenize (render ts) = Inr ts"
proof (induction ts)
  case Nil
  then show ?case by (simp add: render_def tokenize.simps [of "[]"] lstrip_def)
next
  case (Cons t ts)
  obtain c u where c: "tok_text t = c # u" "\<not> is_space c" using tok_text_start [of t] Cons.prems by auto
  have r: "render (t # ts) = CHR '' '' # tok_text t @ render ts" by (simp add: render_def)
  have "gap (render ts)" by (cases ts) (simp_all add: render_def gap_def)
  then have n: "next_token (tok_text t @ render ts) = Some (t, render ts)" using Cons.prems by (intro next_token_text) simp_all
  have "lstrip (render (t # ts)) = tok_text t @ render ts" unfolding r lstrip_def using c by simp
  then have "tokenize (render (t # ts)) = bind_r (tokenize (render ts)) (\<lambda>ts. Inr (t # ts))"
    using n c by (subst tokenize.simps) simp
  with Cons show ?case by simp
qed

fun node_terms :: "node \<Rightarrow> string list" where
  "node_terms (TermN t) = [t]"
| "node_terms (OpN op args) = List.concat (map node_terms args)"

lemma unparse_valid: "wf_node n \<Longrightarrow> \<forall>t\<in>set (node_terms n). valid_term t \<Longrightarrow> \<forall>x\<in>set (unparse lvl n). valid_token x"
  by (induction n arbitrary: lvl rule: wf_node.induct) (auto simp: wrap_def)

text \<open>C26. Round trip: the text printed for a tree of the grammar, with brackets only where the
  precedence asks for them, parses back to that tree.\<close>

theorem parse_render:
  assumes "wf_node n" "\<forall>t\<in>set (node_terms n). valid_term t"
  shows "parse_dsl (render (unparse 0 n)) = Inr n"
proof -
  have "\<not> starts_and [] \<longrightarrow> p_or (unparse 0 n @ []) = or_loop n []" using parse_unparse [OF assms(1)] by blast
  then have "p_or (unparse 0 n) = Inr (n, [])" by (simp add: starts_and_def)
  then show ?thesis using tokenize_render [OF unparse_valid [OF assms]] by (simp add: parse_dsl_def parse_def)
qed

theorem parse_render_witness:
  "parse_dsl '' calls:foo OR ( mentions:bar OR NOT imports:legacy ) AND x'' =
     Inr (OpN ''or'' [TermN ''calls:foo'', OpN ''and'' [OpN ''or'' [TermN ''mentions:bar'', OpN ''not'' [TermN ''imports:legacy'']], TermN ''x'']])"
proof -
  let ?n = "OpN ''or'' [TermN ''calls:foo'', OpN ''and'' [OpN ''or'' [TermN ''mentions:bar'', OpN ''not'' [TermN ''imports:legacy'']], TermN ''x'']]"
  have "valid_term t" if "t \<in> set (node_terms ?n)" for t
    using that by (auto simp: valid_term_def term_text_def concept_part_def keyword_rest_def str_lower_def lower_char_def
        term_start_def term_char_def concept_char_def char_class_defs)
  moreover have "render (unparse 0 ?n) = '' calls:foo OR ( mentions:bar OR NOT imports:legacy ) AND x''"
    by (simp add: render_def wrap_def)
  ultimately show ?thesis using parse_render [of ?n] by simp
qed

theorem parse_dsl_wf_witness: "\<exists>n. parse_dsl '' x'' = Inr n \<and> wf_node n"
proof -
  have "valid_term ''x''"
    by (simp add: valid_term_def term_text_def concept_part_def keyword_rest_def str_lower_def lower_char_def
        term_start_def term_char_def concept_char_def char_class_defs)
  then have "\<exists>n. parse_dsl '' x'' = Inr n"
    using tokenize_render [of "[TermTok ''x'']"] by (simp add: render_def parse_dsl_def parse_def p_or.simps p_and.simps)
  then show ?thesis using parse_dsl_wf by blast
qed

end
