(* ===== verification/Query.thy ===== *)
theory Query
  imports Curation QueryParse
begin

text \<open>
  The query engine of \<open>src/src/refmatrix/query.py\<close>: evaluation of the infix language, neighbours,
  co-occurrence ranking and rank fusion over a store. A read of a row may load a fragment into
  the store's cache, so every operation returns the engine it leaves.

  The engine relies on the store for one thing: reading rows. That interface is the locale
  \<open>row_reader\<close>, interpreted on the store's own \<open>load_bitmap\<close>. Scores are rationals where the code
  has floating point numbers.
\<close>

section \<open>Reading rows\<close>

fun load_all :: "(string \<Rightarrow> nat \<Rightarrow> 's \<Rightarrow> nat set \<times> 's) \<Rightarrow> (string \<times> nat) list \<Rightarrow> nat set \<Rightarrow> 's \<Rightarrow> nat set \<times> 's" where
  "load_all load [] acc s = (acc, s)"
| "load_all load ((l, c) # ps) acc s = (case load l c s of (b, s1) \<Rightarrow> load_all load ps (acc \<union> b) s1)"

locale row_reader =
  fixes load :: "string \<Rightarrow> nat \<Rightarrow> 's \<Rightarrow> nat set \<times> 's"
    and row :: "'s \<Rightarrow> string \<Rightarrow> nat \<Rightarrow> nat set"
    and same :: "'s \<Rightarrow> 's \<Rightarrow> bool"
  assumes load_value: "same s0 s \<Longrightarrow> fst (load l c s) = row s0 l c"
    and load_same: "same s0 s \<Longrightarrow> same s0 (snd (load l c s))"
    and row_finite: "finite (row s l c)"
begin

lemma load_all_value:
  "same s0 s \<Longrightarrow> fst (load_all load ps acc s) = acc \<union> (\<Union>(l, c)\<in>set ps. row s0 l c) \<and> same s0 (snd (load_all load ps acc s))"
proof (induction ps arbitrary: acc s)
  case (Cons p ps)
  obtain l c where p: "p = (l, c)" by (cases p) blast
  have "same s0 (snd (load l c s))" by (rule load_same [OF Cons.prems])
  from Cons.IH [OF this] show ?case using load_value [OF Cons.prems, of l c] by (auto simp: p split_beta)
qed simp

end

section \<open>The engine\<close>

record engine =
  qe_store :: store
  qe_include_noise :: bool
  qe_strict :: bool
  qe_noise_cache :: "nat set option"

definition noise_ids :: "engine \<Rightarrow> nat set \<times> engine" where
  "noise_ids q =
     (if qe_include_noise q then ({}, q)
      else case qe_noise_cache q of
        Some n \<Rightarrow> (n, q)
      | None \<Rightarrow> (let n = noise_concept_ids (qe_store q) in (n, q\<lparr>qe_noise_cache := Some n\<rparr>)))"

definition load_row :: "string \<Rightarrow> nat \<Rightarrow> engine \<Rightarrow> nat set \<times> engine" where
  "load_row l c q = (case load_bitmap l c (qe_store q) of (b, s) \<Rightarrow> (b, q\<lparr>qe_store := s\<rparr>))"

definition universe :: "engine \<Rightarrow> nat set" where
  "universe q = e_id ` {e \<in> set (entities (qe_store q)). e_pid e = fst (bound (qe_store q))}"

definition concept_row :: "string \<Rightarrow> string \<Rightarrow> engine \<Rightarrow> nat set \<times> engine" where
  "concept_row linkage name q =
     load_all load_row (map (Pair linkage) (resolve_concept_ids name (qe_strict q) (qe_store q))) {} q"

definition term_bitmap :: "string \<Rightarrow> engine \<Rightarrow> nat set \<times> engine" where
  "term_bitmap t q =
     (case split_once (CHR '':'') t of
        Some (linkage, name) \<Rightarrow> concept_row linkage name q
      | None \<Rightarrow>
          load_all load_row
            (List.product (list_linkages (qe_store q)) (resolve_concept_ids t (qe_strict q) (qe_store q))) {} q)"

definition combine :: "string \<Rightarrow> nat set \<Rightarrow> nat set \<Rightarrow> nat set" where
  "combine op a b =
     (if op = ''and'' then a \<inter> b else if op = ''or'' then a \<union> b
      else if op = ''diff'' then a - b else (a - b) \<union> (b - a))"

fun eval :: "node \<Rightarrow> engine \<Rightarrow> (nat set \<times> engine) result" where
  "eval (TermN t) q = Inr (term_bitmap t q)"
| "eval (OpN op args) q =
     (if op \<in> {''and'', ''or'', ''diff'', ''xor''} then
        (case args of
           a # b # _ \<Rightarrow> bind_r (eval a q) (\<lambda>(x, q1). bind_r (eval b q1) (\<lambda>(y, q2). Inr (combine op x y, q2)))
         | [a] \<Rightarrow> bind_r (eval a q) (\<lambda>_. Inl IndexError)
         | [] \<Rightarrow> Inl IndexError)
      else if op = ''not'' then
        (case args of
           a # _ \<Rightarrow> bind_r (eval a q) (\<lambda>(x, q1). Inr (universe q1 - x, q1))
         | [] \<Rightarrow> Inl IndexError)
      else Inl (ValueError ''bad node''))"

definition run_query :: "string \<Rightarrow> engine \<Rightarrow> (nat set \<times> engine) result" where
  "run_query dsl q = bind_r (parse_dsl dsl) (\<lambda>n. eval n q)"

section \<open>Neighbours\<close>

fun neighbors_loop :: "nat \<Rightarrow> string list \<Rightarrow> nat set \<Rightarrow> nat set \<Rightarrow> nat set \<Rightarrow> engine \<Rightarrow> nat set \<times> engine" where
  "neighbors_loop 0 names noise frontier seen q = (seen, q)"
| "neighbors_loop (Suc d) names noise frontier seen q =
     (case load_all load_row (map (\<lambda>(c, l). (l, c)) (List.product (sorted_list_of_set frontier) names)) {} q of
        (bm, q1) \<Rightarrow>
          let nxt = bm - seen - noise in
          if nxt = {} then (seen, q1) else neighbors_loop d names noise nxt (seen \<union> nxt) q1)"

definition neighbors :: "string \<Rightarrow> int \<Rightarrow> string list \<Rightarrow> engine \<Rightarrow> nat set \<times> engine" where
  "neighbors name depth linkages q =
     (let cids = resolve_concept_ids name (qe_strict q) (qe_store q) in
      if cids = [] then ({}, q)
      else let names = (if linkages = [] then list_linkages (qe_store q) else linkages);
               (noise, q1) = noise_ids q;
               (seen, q2) = neighbors_loop (nat depth) names noise (set cids) (set cids) q1
        in (seen - set cids, q2))"

section \<open>Rankings\<close>

definition bump :: "nat \<Rightarrow> (nat \<times> nat) list \<Rightarrow> (nat \<times> nat) list" where
  "bump e d = AList.update e (case map_of d e of None \<Rightarrow> 1 | Some n \<Rightarrow> Suc n) d"

fun count_hits :: "(string \<times> nat) list \<Rightarrow> nat set \<Rightarrow> (nat \<times> nat) list \<Rightarrow> engine \<Rightarrow> (nat \<times> nat) list \<times> engine" where
  "count_hits [] bm d q = (d, q)"
| "count_hits ((l, c) # ps) bm d q =
     (case load_row l c q of
        (r, q1) \<Rightarrow> count_hits ps bm (fold bump (sorted_list_of_set (r \<inter> bm)) d) q1)"

text \<open>The concepts of every linkage, noise left out.\<close>

definition linked_concepts :: "nat set \<Rightarrow> store \<Rightarrow> (string \<times> nat) list" where
  "linked_concepts noise s =
     List.concat (map (\<lambda>l. map (Pair l) (filter (\<lambda>c. c \<notin> noise) (iter_concept_ids_for_linkage l s))) (list_linkages s))"

definition topn :: "nat set \<Rightarrow> int \<Rightarrow> engine \<Rightarrow> (nat \<times> nat) list \<times> engine" where
  "topn bm n q =
     (let (noise, q1) = noise_ids q;
          (d, q2) = count_hits (linked_concepts noise (qe_store q1)) bm [] q1
      in (py_take n (sort_key (\<lambda>(e, w). (- int w, e)) d), q2))"

fun overlaps :: "string \<Rightarrow> nat set \<Rightarrow> nat list \<Rightarrow> engine \<Rightarrow> (string \<times> nat) list \<times> engine" where
  "overlaps linkage anchor [] q = ([], q)"
| "overlaps linkage anchor (c # cs) q =
     (case load_row linkage c q of
        (r, q1) \<Rightarrow>
          (case overlaps linkage anchor cs q1 of
             (out, q2) \<Rightarrow>
               (if card (anchor \<inter> r) = 0 then out
                else case get_entity_by_id c (qe_store q) of None \<Rightarrow> out | Some e \<Rightarrow> (e_name e, card (anchor \<inter> r)) # out, q2)))"

definition co_occurrence :: "string \<Rightarrow> string \<Rightarrow> engine \<Rightarrow> (string \<times> nat) list \<times> engine" where
  "co_occurrence name linkage q =
     (let ids = resolve_concept_ids name (qe_strict q) (qe_store q) in
      if ids = [] then ([], q)
      else case load_all load_row (map (Pair linkage) ids) {} q of
        (anchor, q1) \<Rightarrow>
          if anchor = {} then ([], q1)
          else let (noise, q2) = noise_ids q1;
                   cs = filter (\<lambda>c. c \<notin> set ids \<and> c \<notin> noise) (iter_concept_ids_for_linkage linkage (qe_store q2));
                   (out, q3) = overlaps linkage anchor cs q2
            in (sort_key (\<lambda>(n, k). (- int k, n)) out, q3))"

section \<open>Reciprocal rank fusion\<close>

definition add_score :: "nat \<Rightarrow> rat \<Rightarrow> (nat \<times> rat) list \<Rightarrow> (nat \<times> rat) list" where
  "add_score e x d = AList.update e (case map_of d e of None \<Rightarrow> x | Some y \<Rightarrow> y + x) d"

text \<open>A zero denominator is Python's \<open>ZeroDivisionError\<close>.\<close>

fun add_ranks :: "int \<Rightarrow> nat \<Rightarrow> nat list \<Rightarrow> (nat \<times> rat) list \<Rightarrow> (nat \<times> rat) list result" where
  "add_ranks k rank [] d = Inr d"
| "add_ranks k rank (e # es) d =
     (if k + int rank = 0 then Inl (RuntimeErr ''division by zero'')
      else add_ranks k (Suc rank) es (add_score e (1 / of_int (k + int rank)) d))"

fun fuse_lists :: "int \<Rightarrow> nat list list \<Rightarrow> (nat \<times> rat) list \<Rightarrow> (nat \<times> rat) list result" where
  "fuse_lists k [] d = Inr d"
| "fuse_lists k (l # ls) d = bind_r (add_ranks k 0 l d) (fuse_lists k ls)"

definition fuse_rrf :: "nat list list \<Rightarrow> int \<Rightarrow> (nat \<times> rat) list result" where
  "fuse_rrf ls k = bind_r (fuse_lists k ls []) (\<lambda>d. Inr (sort_key (\<lambda>(e, x). (- x, e)) d))"

section \<open>The store as a row reader\<close>

definition engine_row :: "engine \<Rightarrow> string \<Rightarrow> nat \<Rightarrow> nat set" where
  "engine_row q l c = rows_of_store (qe_store q) (snd (bound (qe_store q))) (canonical_verb l) c"

text \<open>The same engine but for fragments its store has loaded since.\<close>

definition same_engine :: "engine \<Rightarrow> engine \<Rightarrow> bool" where
  "same_engine q0 q =
     (frag_inv (qe_store q) \<and> rows_of_store (qe_store q) = rows_of_store (qe_store q0) \<and>
      only_frags (qe_store q0) (qe_store q) \<and> bound (qe_store q) = bound (qe_store q0) \<and>
      qe_strict q = qe_strict q0 \<and> qe_include_noise q = qe_include_noise q0 \<and> qe_noise_cache q = qe_noise_cache q0)"

interpretation rows: row_reader load_row engine_row same_engine
proof
  fix q0 q l c assume s: "same_engine q0 q"
  then have fi: "frag_inv (qe_store q)" by (simp add: same_engine_def)
  then have wf: "wf_partitions (qe_store q)" by (simp add: frag_inv_def)
  have "fst (load_row l c q) = row_of c (frag_value (bound (qe_store q)) (canonical_verb l) (qe_store q))"
    by (simp add: load_row_def split_beta load_bitmap_value(1))
  also have "\<dots> = engine_row q l c"
    unfolding engine_row_def using bound_row [OF wf] by simp
  also have "\<dots> = engine_row q0 l c" using s by (simp add: engine_row_def same_engine_def)
  finally show "fst (load_row l c q) = engine_row q0 l c" .
  have b: "bound (snd (load_bitmap l c (qe_store q))) = bound (qe_store q)" by (rule load_bitmap_value(3))
  have of: "only_frags (qe_store q) (snd (load_bitmap l c (qe_store q)))"
    using only_frags_ops(1) [of "qe_store q" l] by (simp add: load_bitmap_def split_beta)
  have "frag_inv (snd (load_bitmap l c (qe_store q)))" using fragments.exec_inv [OF fi, of "ReadRow l c"] by simp
  moreover have "rows_of_store (snd (load_bitmap l c (qe_store q))) = rows_of_store (qe_store q)"
    using fragments.exec_abs [OF fi, of "ReadRow l c"] by simp
  ultimately show "same_engine q0 (snd (load_row l c q))"
    using s b only_frags_trans [OF _ of] by (simp add: same_engine_def load_row_def split_beta)
next
  fix q l c
  have "finite (row_of c f)" for f by (rule finite_subset [of _ "{..<2 ^ 32}"]) (auto simp: row_of_def)
  then show "finite (engine_row q l c)" by (simp add: engine_row_def rows_of_store_def split: option.split)
qed

lemma same_engine_reads:
  assumes "same_engine q0 q"
  shows "resolve_concept_ids n strict (qe_store q) = resolve_concept_ids n strict (qe_store q0)"
    "list_linkages (qe_store q) = list_linkages (qe_store q0)" "universe q = universe q0"
    "noise_concept_ids (qe_store q) = noise_concept_ids (qe_store q0)"
    "iter_concept_ids_for_linkage l (qe_store q) = iter_concept_ids_for_linkage l (qe_store q0)"
    "qe_strict q = qe_strict q0" "qe_noise_cache q = qe_noise_cache q0" "engine_row q = engine_row q0"
proof -
  have f: "entities (qe_store q) = entities (qe_store q0)" "linkage_types (qe_store q) = linkage_types (qe_store q0)"
    "entity_links (qe_store q) = entity_links (qe_store q0)" "bound (qe_store q) = bound (qe_store q0)"
    "rows_of_store (qe_store q) = rows_of_store (qe_store q0)"
    using assms by (simp_all add: same_engine_def only_frags_fields)
  show "resolve_concept_ids n strict (qe_store q) = resolve_concept_ids n strict (qe_store q0)"
    by (simp add: resolve_concept_ids_def get_entity_def find_entity_def canonical_rows_def f)
  show "list_linkages (qe_store q) = list_linkages (qe_store q0)" "universe q = universe q0"
    "noise_concept_ids (qe_store q) = noise_concept_ids (qe_store q0)"
    by (simp_all add: list_linkages_def universe_def noise_concept_ids_def f)
  have "get_linkage_id l (qe_store q) = get_linkage_id l (qe_store q0)" by (simp add: get_linkage_id_def lk_find_def f)
  then show "iter_concept_ids_for_linkage l (qe_store q) = iter_concept_ids_for_linkage l (qe_store q0)"
    unfolding iter_concept_ids_for_linkage_def get_entity_by_id_def f by (simp only:)
  show "engine_row q = engine_row q0" by (simp add: engine_row_def f fun_eq_iff)
qed (use assms in \<open>simp_all add: same_engine_def\<close>)

section \<open>Queries denote set algebra over the rows\<close>

definition term_sem :: "engine \<Rightarrow> string \<Rightarrow> nat set" where
  "term_sem q t =
     (case split_once (CHR '':'') t of
        Some (linkage, name) \<Rightarrow> (\<Union>c\<in>set (resolve_concept_ids name (qe_strict q) (qe_store q)). engine_row q linkage c)
      | None \<Rightarrow> (\<Union>l\<in>set (list_linkages (qe_store q)).
                  \<Union>c\<in>set (resolve_concept_ids t (qe_strict q) (qe_store q)). engine_row q l c))"

fun node_sem :: "engine \<Rightarrow> node \<Rightarrow> nat set" where
  "node_sem q (TermN t) = term_sem q t"
| "node_sem q (OpN op [a]) = universe q - node_sem q a"
| "node_sem q (OpN op [a, b]) = (if op = ''and'' then node_sem q a \<inter> node_sem q b else node_sem q a \<union> node_sem q b)"
| "node_sem q (OpN op _) = {}"

lemma term_bitmap_sem:
  assumes "same_engine q0 q"
  shows "fst (term_bitmap t q) = term_sem q0 t" "same_engine q0 (snd (term_bitmap t q))"
  using rows.load_all_value [OF assms] same_engine_reads [OF assms]
  by (auto simp: term_bitmap_def term_sem_def concept_row_def split: option.split)

lemma eval_sem:
  assumes "same_engine q0 q" "wf_node n"
  shows "\<exists>q'. eval n q = Inr (node_sem q0 n, q') \<and> same_engine q0 q'"
  using assms
proof (induction n arbitrary: q rule: wf_node.induct)
  case (1 t)
  then show ?case using term_bitmap_sem [OF 1(1), of t] by (intro exI [of _ "snd (term_bitmap t q)"]) (simp add: prod_eq_iff)
next
  case (2 op a)
  then obtain q1 where "eval a q = Inr (node_sem q0 a, q1)" "same_engine q0 q1" by auto
  then show ?case using 2(3) same_engine_reads(3) by auto
next
  case (3 op a b)
  then obtain q1 where 1: "eval a q = Inr (node_sem q0 a, q1)" "same_engine q0 q1" by auto
  then obtain q2 where "eval b q1 = Inr (node_sem q0 b, q2)" "same_engine q0 q2" using 3 by auto
  then show ?case using 1 3(4) by (auto simp: combine_def)
qed simp_all

text \<open>C5. Running a query refines its denotation: a text that parses always evaluates, to the set
  algebra of its tree over the rows of the bound partition (a term is the union of the rows of
  its concept's variants, a bare concept over all linkages, negation the complement in the
  partition's entities), and the reads change neither the rows nor the tables.\<close>

theorem run_query_correct:
  assumes "frag_inv (qe_store q)" "parse_dsl dsl = Inr n"
  shows "\<exists>q'. run_query dsl q = Inr (node_sem q n, q') \<and> frag_inv (qe_store q') \<and>
    rows_of_store (qe_store q') = rows_of_store (qe_store q) \<and> only_frags (qe_store q) (qe_store q')"
proof -
  have "same_engine q q" using assms(1) by (simp add: same_engine_def)
  moreover have "wf_node n" using parser_wf(1) assms(2) by (auto simp: parse_dsl_def parse_def bind_r_Inr split: if_splits)
  ultimately obtain q' where "eval n q = Inr (node_sem q n, q')" "same_engine q q'" using eval_sem by blast
  then show ?thesis using assms(2) by (auto simp: run_query_def same_engine_def)
qed

section \<open>Neighbours are the entities within the given number of hops\<close>

definition hop :: "engine \<Rightarrow> string list \<Rightarrow> nat set \<Rightarrow> (nat \<times> nat) set" where
  "hop q names noise = {(x, y). y \<notin> noise \<and> (\<exists>l\<in>set names. y \<in> engine_row q l x)}"

text \<open>Within \<open>d\<close> hops of a set, and its two equations.\<close>

definition reach_in :: "('a \<times> 'a) set \<Rightarrow> nat \<Rightarrow> 'a set \<Rightarrow> 'a set" where
  "reach_in R d S = {y. \<exists>k\<le>d. \<exists>x\<in>S. (x, y) \<in> R ^^ k}"

lemma reach_in_0 [simp]: "reach_in R 0 S = S"
  by (auto simp: reach_in_def)

lemma reach_in_Suc: "reach_in R (Suc d) S = reach_in R d (S \<union> R `` S)"
proof
  show "reach_in R (Suc d) S \<subseteq> reach_in R d (S \<union> R `` S)"
  proof
    fix y assume "y \<in> reach_in R (Suc d) S"
    then obtain k x where k: "k \<le> Suc d" "x \<in> S" "(x, y) \<in> R ^^ k" by (auto simp: reach_in_def)
    show "y \<in> reach_in R d (S \<union> R `` S)"
    proof (cases k)
      case 0
      then show ?thesis using k by (auto simp: reach_in_def intro!: exI [of _ 0])
    next
      case (Suc j)
      then obtain z where "(x, z) \<in> R" "(z, y) \<in> R ^^ j" using k(3) relpow_Suc_D2 by metis
      then show ?thesis using k Suc by (auto simp: reach_in_def)
    qed
  qed
  show "reach_in R d (S \<union> R `` S) \<subseteq> reach_in R (Suc d) S"
  proof
    fix y assume "y \<in> reach_in R d (S \<union> R `` S)"
    then obtain k x where k: "k \<le> d" "x \<in> S \<union> R `` S" "(x, y) \<in> R ^^ k" by (auto simp: reach_in_def)
    then consider "x \<in> S" | z where "z \<in> S" "(z, x) \<in> R" by auto
    then show "y \<in> reach_in R (Suc d) S"
    proof cases
      case 1
      then show ?thesis using k by (auto simp: reach_in_def intro: le_SucI)
    next
      case 2
      then have "(z, y) \<in> R ^^ Suc k" using k(3) relpow_Suc_I2 by metis
      then show ?thesis using k(1) 2(1) unfolding reach_in_def by blast
    qed
  qed
qed

lemma reach_in_closed: "R `` S \<subseteq> S \<Longrightarrow> reach_in R d S = S"
  by (induction d) (simp_all add: reach_in_Suc Un_absorb2)

lemma neighbors_loop_reach_in:
  assumes "same_engine q0 q" "finite frontier" "frontier \<subseteq> seen" "hop q0 names noise `` (seen - frontier) \<subseteq> seen"
  shows "fst (neighbors_loop d names noise frontier seen q) = reach_in (hop q0 names noise) d seen \<and>
    same_engine q0 (snd (neighbors_loop d names noise frontier seen q))"
  using assms
proof (induction d arbitrary: frontier seen q)
  case 0
  then show ?case by simp
next
  case (Suc d)
  let ?R = "hop q0 names noise"
  let ?ps = "map (\<lambda>(c, l). (l, c)) (List.product (sorted_list_of_set frontier) names)"
  let ?L = "load_all load_row ?ps {} q"
  have L: "fst ?L = (\<Union>x\<in>frontier. \<Union>l\<in>set names. engine_row q0 l x)" "same_engine q0 (snd ?L)"
    using rows.load_all_value [OF Suc.prems(1), of ?ps "{}"] Suc.prems(2) by auto
  let ?nxt = "fst ?L - seen - noise"
  have nxt: "?nxt = ?R `` frontier - seen" unfolding L(1) by (auto simp: hop_def)
  have img: "?R `` seen \<subseteq> seen \<union> ?nxt" "?nxt \<subseteq> ?R `` seen"
    using Suc.prems(3,4) unfolding nxt by blast+
  show ?case
  proof (cases "?nxt = {}")
    case True
    then have "?R `` seen \<subseteq> seen" using img(1) by blast
    then show ?thesis using True L(2) by (simp add: split_beta Let_def reach_in_closed)
  next
    case False
    have "finite ?nxt" unfolding L(1) using Suc.prems(2) rows.row_finite by simp
    moreover have "?nxt \<subseteq> seen \<union> ?nxt" by blast
    moreover have "?R `` (seen \<union> ?nxt - ?nxt) \<subseteq> seen \<union> ?nxt" using img(1) by blast
    ultimately have "fst (neighbors_loop d names noise ?nxt (seen \<union> ?nxt) (snd ?L)) = reach_in ?R d (seen \<union> ?nxt) \<and>
        same_engine q0 (snd (neighbors_loop d names noise ?nxt (seen \<union> ?nxt) (snd ?L)))"
      by (rule Suc.IH [OF L(2)])
    moreover have "seen \<union> ?nxt = seen \<union> ?R `` seen" using img by blast
    ultimately show ?thesis using False by (simp only: neighbors_loop.simps split_beta Let_def if_False reach_in_Suc)
  qed
qed

text \<open>\<open>neighbors\<close> returns exactly the entities within \<open>depth\<close> hops of the named concepts, along
  rows of the asked linkages and never into a noise concept, without the concepts themselves;
  stopping early at an empty frontier loses nothing, and a depth below one finds nothing.\<close>

theorem neighbors_correct:
  assumes "frag_inv (qe_store q)"
    and cids: "cids = resolve_concept_ids name (qe_strict q) (qe_store q)"
    and names: "names = (if linkages = [] then list_linkages (qe_store q) else linkages)"
  shows "fst (neighbors name depth linkages q) = reach_in (hop q names (fst (noise_ids q))) (nat depth) (set cids) - set cids"
proof (cases "cids = []")
  case True
  have "reach_in R d {} = {}" for R :: "(nat \<times> nat) set" and d by (simp add: reach_in_def)
  then show ?thesis using True by (simp add: neighbors_def cids [symmetric])
next
  case False
  let ?q1 = "snd (noise_ids q)" and ?N = "fst (noise_ids q)"
  have st: "qe_store ?q1 = qe_store q" by (simp add: noise_ids_def Let_def split: option.split)
  have s1: "same_engine ?q1 ?q1" using assms(1) st by (simp add: same_engine_def)
  have "engine_row ?q1 = engine_row q" by (simp add: engine_row_def st fun_eq_iff)
  then have h: "hop ?q1 names ?N = hop q names ?N" by (simp add: hop_def)
  have "fst (neighbors_loop (nat depth) names ?N (set cids) (set cids) ?q1) = reach_in (hop q names ?N) (nat depth) (set cids)"
    using neighbors_loop_reach_in [OF s1, of "set cids" "set cids" names ?N "nat depth"] unfolding h by simp
  then show ?thesis using False by (simp add: neighbors_def cids [symmetric] names [symmetric] Let_def split_beta)
qed

section \<open>Ranking by co-occurrence\<close>

definition hits :: "(nat \<times> nat) list \<Rightarrow> nat \<Rightarrow> nat" where
  "hits d e = (case map_of d e of None \<Rightarrow> 0 | Some n \<Rightarrow> n)"

definition counts_ok :: "(nat \<times> nat) list \<Rightarrow> bool" where
  "counts_ok d = (distinct (map fst d) \<and> (\<forall>(e, n)\<in>set d. 0 < n))"

lemma bump_hits: "hits (bump e d) x = (if x = e then Suc (hits d e) else hits d x)"
  by (auto simp: hits_def bump_def split: option.split)

lemma bump_ok:
  assumes "counts_ok d"
  shows "counts_ok (bump e d)"
proof -
  let ?v = "case map_of d e of None \<Rightarrow> 1 | Some n \<Rightarrow> Suc n"
  have "\<forall>x\<in>set (AList.update e ?v d). (\<lambda>(e, n). 0 < n) x"
    using assms by (intro update_sets(3)) (auto simp: counts_ok_def split: option.split)
  then show ?thesis using assms unfolding counts_ok_def bump_def by (simp add: distinct_update)
qed

lemma fold_bump:
  assumes "distinct xs" "counts_ok d"
  shows "counts_ok (fold bump xs d) \<and> (\<forall>x. hits (fold bump xs d) x = hits d x + (if x \<in> set xs then 1 else 0))"
  using assms
proof (induction xs arbitrary: d)
  case (Cons a xs)
  have "counts_ok (bump a d)" by (rule bump_ok [OF Cons.prems(2)])
  from Cons.IH [OF _ this] show ?case using Cons.prems(1) by (auto simp: bump_hits)
qed simp

lemma count_hits_value:
  assumes "same_engine q0 q" "counts_ok d" "finite bm"
  shows "counts_ok (fst (count_hits ps bm d q)) \<and>
    (\<forall>x. hits (fst (count_hits ps bm d q)) x =
       hits d x + (if x \<in> bm then length (filter (\<lambda>(l, c). x \<in> engine_row q0 l c) ps) else 0))"
  using assms(1,2)
proof (induction ps arbitrary: d q)
  case (Cons p ps)
  obtain l c where p: "p = (l, c)" by (cases p) blast
  let ?q1 = "snd (load_row l c q)" and ?r = "engine_row q0 l c"
  have v: "fst (load_row l c q) = ?r" and s: "same_engine q0 ?q1"
    using rows.load_value [OF Cons.prems(1)] rows.load_same [OF Cons.prems(1)] by blast+
  let ?d = "fold bump (sorted_list_of_set (?r \<inter> bm)) d"
  have f: "counts_ok ?d" "\<forall>x. hits ?d x = hits d x + (if x \<in> ?r \<inter> bm then 1 else 0)"
    using fold_bump [of "sorted_list_of_set (?r \<inter> bm)" d] Cons.prems(2) assms(3) by auto
  have e: "count_hits (p # ps) bm d q = count_hits ps bm ?d ?q1" by (simp add: p split_beta v)
  show ?case unfolding e using Cons.IH [OF s f(1)] f(2) by (simp add: p)
qed simp

lemma counts_set: "counts_ok d \<Longrightarrow> (e, n) \<in> set d \<longleftrightarrow> hits d e = n \<and> 0 < n"
proof -
  assume c: "counts_ok d"
  then have "(e, n) \<in> set d \<longleftrightarrow> map_of d e = Some n" by (simp add: counts_ok_def)
  moreover have "map_of d e = Some n \<Longrightarrow> 0 < n" using c by (auto simp: counts_ok_def dest: map_of_SomeD)
  ultimately show ?thesis by (auto simp: hits_def split: option.splits)
qed

text \<open>\<open>topn\<close> counts, for each entity of the given set, the rows (a linkage and a concept that is
  not noise) that contain it, lists each counted entity once by falling count and rising id, and
  returns the slice \<open>[:n]\<close> of that list.\<close>

theorem topn_correct:
  assumes "frag_inv (qe_store q)" "finite bm"
    and ps: "ps = linked_concepts (fst (noise_ids q)) (qe_store q)"
  shows "\<exists>d. fst (topn bm n q) = py_take n d \<and> sorted (map (\<lambda>(e, w). (- int w, e)) d) \<and> distinct (map fst d) \<and>
    set d = {(e, w). e \<in> bm \<and> w = length (filter (\<lambda>(l, c). e \<in> engine_row q l c) ps) \<and> 0 < w}"
proof -
  let ?q1 = "snd (noise_ids q)" and ?N = "fst (noise_ids q)"
  have st: "qe_store ?q1 = qe_store q" by (simp add: noise_ids_def Let_def split: option.split)
  have s1: "same_engine ?q1 ?q1" using assms(1) st by (simp add: same_engine_def)
  have r: "engine_row ?q1 = engine_row q" by (simp add: engine_row_def st fun_eq_iff)
  let ?c = "fst (count_hits ps bm [] ?q1)" let ?d = "sort_key (\<lambda>(e, w). (- int w, e)) ?c"
  have ok0: "counts_ok []" "hits [] x = 0" for x by (simp_all add: counts_ok_def hits_def)
  have c: "counts_ok ?c" "hits ?c x = (if x \<in> bm then length (filter (\<lambda>(l, c). x \<in> engine_row q l c) ps) else 0)" for x
    using count_hits_value [OF s1 ok0(1) assms(2), of ps] ok0(2) by (simp_all add: r)
  have "fst (topn bm n q) = py_take n ?d" by (simp add: topn_def Let_def split_beta st ps)
  moreover have "sorted (map (\<lambda>(e, w). (- int w, e)) ?d)" by (rule sorted_sort_key)
  moreover {
    have "distinct (map fst ?c)" using c(1) by (simp add: counts_ok_def)
    moreover have "mset (map fst ?d) = mset (map fst ?c)" by (simp only: mset_map mset_sort)
    ultimately have "distinct (map fst ?d)" using mset_eq_imp_distinct_iff by blast
  }
  moreover have "set ?d = {(e, w). e \<in> bm \<and> w = length (filter (\<lambda>(l, c). e \<in> engine_row q l c) ps) \<and> 0 < w}"
  proof -
    have "(e, w) \<in> set ?d \<longleftrightarrow> e \<in> bm \<and> w = length (filter (\<lambda>(l, c). e \<in> engine_row q l c) ps) \<and> 0 < w" for e w
      unfolding set_sort counts_set [OF c(1)] c(2) by auto
    then show ?thesis by (simp only: set_eq_iff split_paired_All mem_Collect_eq prod.case simp_thms)
  qed
  ultimately show ?thesis by blast
qed

section \<open>Rank fusion\<close>

definition score :: "(nat \<times> rat) list \<Rightarrow> nat \<Rightarrow> rat" where
  "score d e = (case map_of d e of None \<Rightarrow> 0 | Some x \<Rightarrow> x)"

text \<open>The sum over the lists of \<open>1 / (k + rank)\<close>.\<close>

definition rank_score :: "int \<Rightarrow> nat \<Rightarrow> nat list \<Rightarrow> nat \<Rightarrow> rat" where
  "rank_score k r l e = sum_list (map (\<lambda>(i, x). if x = e then 1 / of_int (k + int i) else 0) (List.enumerate r l))"

definition rrf_score :: "int \<Rightarrow> nat list list \<Rightarrow> nat \<Rightarrow> rat" where
  "rrf_score k ls e = sum_list (map (\<lambda>l. rank_score k 0 l e) ls)"

lemma add_score_value: "score (add_score a x d) e = (if e = a then score d e + x else score d e)"
  by (auto simp: score_def add_score_def split: option.split)

lemma add_score_keys:
  "fst ` set (add_score a x d) = insert a (fst ` set d)"
  "distinct (map fst d) \<Longrightarrow> distinct (map fst (add_score a x d))"
  by (simp_all add: add_score_def update_sets(2) distinct_update)

lemma add_ranks_value:
  assumes "0 < k + int r" "distinct (map fst d)"
  shows "\<exists>d'. add_ranks k r l d = Inr d' \<and> distinct (map fst d') \<and> fst ` set d' = fst ` set d \<union> set l \<and>
    (\<forall>e. score d' e = score d e + rank_score k r l e)"
  using assms
proof (induction l arbitrary: r d)
  case Nil
  then show ?case by (simp add: rank_score_def)
next
  case (Cons a l)
  have k: "k + int r \<noteq> 0" "0 < k + int (Suc r)" using Cons.prems(1) by simp_all
  obtain d' where d': "add_ranks k (Suc r) l (add_score a (1 / of_int (k + int r)) d) = Inr d'" "distinct (map fst d')"
    "fst ` set d' = fst ` set (add_score a (1 / of_int (k + int r)) d) \<union> set l"
    "\<forall>e. score d' e = score (add_score a (1 / of_int (k + int r)) d) e + rank_score k (Suc r) l e"
    using Cons.IH [OF k(2) add_score_keys(2) [OF Cons.prems(2)]] by blast
  have "score d' e = score d e + rank_score k r (a # l) e" for e
    using d'(4) by (simp add: add_score_value rank_score_def)
  then show ?case using k(1) d'(1-3) by (simp add: add_score_keys)
qed

lemma fuse_lists_value:
  assumes "0 < k" "distinct (map fst d)"
  shows "\<exists>d'. fuse_lists k ls d = Inr d' \<and> distinct (map fst d') \<and> fst ` set d' = fst ` set d \<union> \<Union>(set ` set ls) \<and>
    (\<forall>e. score d' e = score d e + rrf_score k ls e)"
  using assms(2)
proof (induction ls arbitrary: d)
  case Nil
  then show ?case by (simp add: rrf_score_def)
next
  case (Cons l ls)
  obtain d1 where d1: "add_ranks k 0 l d = Inr d1" "distinct (map fst d1)" "fst ` set d1 = fst ` set d \<union> set l"
    "\<forall>e. score d1 e = score d e + rank_score k 0 l e"
    using add_ranks_value [of k 0 d l] assms(1) Cons.prems by auto
  obtain d2 where d2: "fuse_lists k ls d1 = Inr d2" "distinct (map fst d2)" "fst ` set d2 = fst ` set d1 \<union> \<Union>(set ` set ls)"
    "\<forall>e. score d2 e = score d1 e + rrf_score k ls e"
    using Cons.IH [OF d1(2)] by blast
  show ?case using d1 d2 by (auto simp: rrf_score_def)
qed

lemma add_ranks_zero: "k \<le> 0 \<Longrightarrow> int r \<le> - k \<Longrightarrow> nat (- k) < r + length l \<Longrightarrow> add_ranks k r l d = Inl (RuntimeErr ''division by zero'')"
  by (induction l arbitrary: r d) auto

lemma add_ranks_short: "k \<le> 0 \<Longrightarrow> r + length l \<le> nat (- k) \<Longrightarrow> \<exists>d'. add_ranks k r l d = Inr d'"
  by (induction l arbitrary: r d) auto

lemma fuse_lists_zero:
  "k \<le> 0 \<Longrightarrow> l \<in> set ls \<Longrightarrow> nat (- k) < length l \<Longrightarrow> fuse_lists k ls d = Inl (RuntimeErr ''division by zero'')"
proof (induction ls arbitrary: d)
  case (Cons m ls)
  show ?case
  proof (cases "nat (- k) < length m")
    case True
    then show ?thesis using Cons.prems(1) by (simp add: add_ranks_zero)
  next
    case False
    then obtain d' where "add_ranks k 0 m d = Inr d'" using add_ranks_short [of k 0 m d] Cons.prems(1) by auto
    moreover have "l \<in> set ls" using Cons.prems False by auto
    ultimately show ?thesis using Cons by simp
  qed
qed simp

text \<open>Fusion scores every listed id with the sum of \<open>1 / (k + rank)\<close> over the lists and orders
  by falling score, then rising id; with exact sums the order of the lists does not matter. A
  constant that is not positive divides by zero as soon as a list reaches that rank.\<close>

theorem fuse_rrf_correct:
  shows "(0 < k \<longrightarrow> (\<exists>d. fuse_rrf ls k = Inr d \<and> sorted (map (\<lambda>(e, x). (- x, e)) d) \<and> distinct (map fst d) \<and>
      set d = {(e, rrf_score k ls e) | e. \<exists>l\<in>set ls. e \<in> set l} \<and>
      (\<forall>ls'. mset ls' = mset ls \<longrightarrow> fuse_rrf ls' k = Inr d))) \<and>
    (k \<le> 0 \<and> (\<exists>l\<in>set ls. nat (- k) < length l) \<longrightarrow> fuse_rrf ls k = Inl (RuntimeErr ''division by zero''))"
proof (intro conjI impI)
  let ?key = "\<lambda>(e, x). (- x, e) :: rat \<times> nat"
  assume k: "0 < k"
  have S: "\<exists>d. fuse_lists k xs [] = Inr d \<and> distinct (map fst d) \<and> set d = {(e, rrf_score k xs e) | e. \<exists>l\<in>set xs. e \<in> set l}" for xs
  proof -
    obtain d where d: "fuse_lists k xs [] = Inr d" "distinct (map fst d)" "fst ` set d = \<Union>(set ` set xs)"
      "\<forall>e. score d e = rrf_score k xs e"
      using fuse_lists_value [OF k, of "[]" xs] by (auto simp: score_def)
    have "(e, x) \<in> set d \<longleftrightarrow> e \<in> fst ` set d \<and> x = rrf_score k xs e" for e x
    proof -
      have "(e, x) \<in> set d \<longleftrightarrow> map_of d e = Some x" using d(2) by simp
      moreover have "e \<in> fst ` set d \<longleftrightarrow> (\<exists>y. map_of d e = Some y)" by (metis map_of_eq_None_iff not_None_eq)
      moreover have "rrf_score k xs e = (case map_of d e of None \<Rightarrow> 0 | Some x \<Rightarrow> x)" using d(4) by (simp add: score_def)
      ultimately show ?thesis by auto
    qed
    then have "set d = {(e, rrf_score k xs e) | e. \<exists>l\<in>set xs. e \<in> set l}" unfolding d(3) by auto
    then show ?thesis using d by blast
  qed
  obtain d where d: "fuse_lists k ls [] = Inr d" "distinct (map fst d)" "set d = {(e, rrf_score k ls e) | e. \<exists>l\<in>set ls. e \<in> set l}"
    using S by blast
  have perm: "fuse_rrf ls' k = Inr (sort_key ?key d)" if m: "mset ls' = mset ls" for ls'
  proof -
    obtain d' where d': "fuse_lists k ls' [] = Inr d'" "distinct (map fst d')" "set d' = {(e, rrf_score k ls' e) | e. \<exists>l\<in>set ls'. e \<in> set l}"
      using S by blast
    have "rrf_score k ls' e = rrf_score k ls e" for e
      unfolding rrf_score_def using m by (metis mset_map sum_mset_sum_list)
    moreover have "set ls' = set ls" using m by (metis set_mset_mset)
    ultimately have "set d' = set d" using d'(3) d(3) by simp
    moreover have "distinct d'" "distinct d" using d'(2) d(2) unfolding distinct_map by blast+
    ultimately have "mset d' = mset d" by (simp add: set_eq_iff_mset_eq_distinct)
    moreover have "inj_on ?key (set d')" by (auto simp: inj_on_def)
    ultimately have "sort_key ?key d' = sort_key ?key d" by (rule sort_key_unique)
    then show ?thesis using d'(1) by (simp add: fuse_rrf_def)
  qed
  have "mset (map fst (sort_key ?key d)) = mset (map fst d)" by (simp only: mset_map mset_sort)
  then have "distinct (map fst (sort_key ?key d))" using d(2) mset_eq_imp_distinct_iff by blast
  then show "\<exists>d. fuse_rrf ls k = Inr d \<and> sorted (map ?key d) \<and> distinct (map fst d) \<and>
      set d = {(e, rrf_score k ls e) | e. \<exists>l\<in>set ls. e \<in> set l} \<and> (\<forall>ls'. mset ls' = mset ls \<longrightarrow> fuse_rrf ls' k = Inr d)"
    using perm d(3) by (intro exI [of _ "sort_key ?key d"]) simp
next
  assume "k \<le> 0 \<and> (\<exists>l\<in>set ls. nat (- k) < length l)"
  then show "fuse_rrf ls k = Inl (RuntimeErr ''division by zero'')"
    using fuse_lists_zero by (auto simp: fuse_rrf_def)
qed

section \<open>Concrete queries\<close>

text \<open>The concepts \<open>x\<close> (7) and \<open>y\<close> (9); entity 5 mentions \<open>x\<close>.\<close>

definition query_store :: store where
  "query_store = mention_store\<lparr>entities := map (\<lambda>(i, k, n). \<lparr>e_id = i, e_pid = 1, e_kind = k, e_path = None,
     e_name = n, e_tldr = None, e_meta = None, e_created = 0, e_updated = 0, e_protected = False, e_noise = False,
     e_canonical = Some n\<rparr>) [(5, ''doc'', ''d''), (7, ''concept'', ''x''), (9, ''concept'', ''y'')], next_eid := 10\<rparr>"

definition query_engine :: engine where
  "query_engine = \<lparr>qe_store = query_store, qe_include_noise = False, qe_strict = True, qe_noise_cache = None\<rparr>"

lemma query_engine_ok:
  "frag_inv (qe_store query_engine)" "bound (qe_store query_engine) = (1, ''a'')"
  "entities (qe_store query_engine) = map (\<lambda>(i, k, n). \<lparr>e_id = i, e_pid = 1, e_kind = k, e_path = None,
     e_name = n, e_tldr = None, e_meta = None, e_created = 0, e_updated = 0, e_protected = False, e_noise = False,
     e_canonical = Some n\<rparr>) [(5, ''doc'', ''d''), (7, ''concept'', ''x''), (9, ''concept'', ''y'')]"
proof -
  have "graph_inv query_store" unfolding query_store_def graph_inv_entities by (rule mention_store_ok(1))
  then show "frag_inv (qe_store query_engine)" by (simp add: query_engine_def graph_inv_def)
qed (simp_all add: query_engine_def query_store_def mention_store_ok(5))

lemma not_mentions_y:
  "wf_node (OpN ''not'' [TermN ''mentions:y''])" "\<forall>t\<in>set (node_terms (OpN ''not'' [TermN ''mentions:y''])). valid_term t"
  "render (unparse 0 (OpN ''not'' [TermN ''mentions:y''])) = '' NOT mentions:y''"
  by (simp_all add: render_def wrap_def valid_term_def term_text_def concept_part_def keyword_rest_def str_lower_def
      lower_char_def term_start_def term_char_def concept_char_def char_class_defs)

theorem run_query_correct_witness:
  "\<exists>q'. run_query '' NOT mentions:y'' query_engine =
     Inr ({5, 7, 9} - term_sem query_engine ''mentions:y'', q')"
proof -
  have t: "tokenize '' NOT mentions:y'' = Inr (unparse 0 (OpN ''not'' [TermN ''mentions:y'']))"
    using tokenize_render [OF unparse_valid [OF not_mentions_y(1,2)], of 0] unfolding not_mentions_y(3) .
  have "parse_dsl '' NOT mentions:y'' = Inr (OpN ''not'' [TermN ''mentions:y''])"
    unfolding parse_dsl_def t by (simp add: parse_def p_or.simps p_and.simps wrap_def)
  moreover
  have u: "universe q = set (map e_id (filter (\<lambda>e. e_pid e = fst (bound (qe_store q))) (entities (qe_store q))))" for q
    by (auto simp: universe_def)
  have "universe query_engine = {5, 7, 9}" unfolding u query_engine_ok by simp
  ultimately show ?thesis using run_query_correct [OF query_engine_ok(1)] by fastforce
qed

theorem neighbors_correct_witness:
  "fst (neighbors ''x'' 1 [''mentions''] query_engine) = reach_in (hop query_engine [''mentions''] {}) 1 {7} - {7}"
proof -
  have r: "resolve_concept_ids ''x'' (qe_strict query_engine) (qe_store query_engine) = [7]"
    by (simp add: query_engine_ok resolve_concept_ids_def get_entity_def find_entity_def entity_key_def) (simp add: query_engine_def)
  have n: "fst (noise_ids query_engine) = {}"
    unfolding noise_ids_def noise_concept_ids_def query_engine_ok by (auto simp: query_engine_def Let_def)
  show ?thesis
    using neighbors_correct [OF query_engine_ok(1) r [symmetric] refl, where linkages = "[''mentions'']" and depth = 1] n by simp
qed

theorem topn_correct_witness:
  "\<exists>d. fst (topn {5} 3 query_engine) = py_take 3 d \<and> distinct (map fst d) \<and> fst ` set d \<subseteq> {5}"
  using topn_correct [OF query_engine_ok(1) _ refl, of "{5}" 3] by fastforce

theorem fuse_rrf_correct_witness:
  "fuse_rrf [[4, 9], [9]] 60 = fuse_rrf [[9], [4, 9]] 60 \<and>
   fuse_rrf [[1, 2]] 0 = Inl (RuntimeErr ''division by zero'')"
proof -
  have "mset [[9], [4, 9]] = mset [[4, 9 :: nat], [9]]" by simp
  then have "fuse_rrf [[4, 9], [9]] 60 = fuse_rrf [[9], [4, 9]] 60"
    using fuse_rrf_correct [of 60 "[[4, 9], [9]]"] by fastforce
  moreover have "fuse_rrf [[1, 2]] 0 = Inl (RuntimeErr ''division by zero'')"
    using fuse_rrf_correct [of 0 "[[1, 2]]"] by simp
  ultimately show ?thesis by blast
qed

end
