(* ===== verification/Pql.thy ===== *)
theory Pql
  imports Query
begin

text \<open>
  The functional query language (PQL) of \<open>src/src/refmatrix/query.py\<close>: its tokenizer, and the
  parser that evaluates a call as soon as its arguments are read. Values are what the calls
  return. A Python operation on operands it is not defined for is \<open>TypeErr\<close>; the model takes the
  operations of the engine to be undefined on arguments of another type than their own. Reading
  a token past the end is \<open>IndexError\<close>, as the list access in the code.
\<close>

section \<open>Tokens\<close>

datatype ptok = PName string | PNum int | PStr string | PLp | PRp | PComma

definition digits_value :: "string \<Rightarrow> int" where
  "digits_value ds = foldl (\<lambda>n c. 10 * n + (int (of_char c) - 48)) 0 ds"

definition pql_name :: "string \<Rightarrow> (ptok \<times> string) option" where
  "pql_name s =
     (case s of
        [] \<Rightarrow> None
      | c # r \<Rightarrow> if is_alpha c \<or> c = CHR ''_'' then Some (PName (c # takeWhile is_word r), dropWhile is_word r) else None)"

definition pql_num :: "string \<Rightarrow> (ptok \<times> string) option" where
  "pql_num s =
     (let (sgn, r) = (case s of c # t \<Rightarrow> if c = CHR ''-'' then (- 1, t) else (1, s) | [] \<Rightarrow> (1, s));
          ds = takeWhile is_digit r
      in if ds = [] then None else Some (PNum (sgn * digits_value ds), dropWhile is_digit r))"

definition pql_quoted :: "char \<Rightarrow> string \<Rightarrow> (ptok \<times> string) option" where
  "pql_quoted qc s =
     (case s of
        [] \<Rightarrow> None
      | c # r \<Rightarrow> if c \<noteq> qc then None
                 else (case dropWhile (\<lambda>x. x \<noteq> qc) r of
                         [] \<Rightarrow> None
                       | _ # t \<Rightarrow> Some (PStr (takeWhile (\<lambda>x. x \<noteq> qc) r), t)))"

definition pql_symbol :: "char \<Rightarrow> ptok \<Rightarrow> string \<Rightarrow> (ptok \<times> string) option" where
  "pql_symbol x t s = (case s of [] \<Rightarrow> None | c # r \<Rightarrow> if c = x then Some (t, r) else None)"

definition next_ptok :: "string \<Rightarrow> (ptok \<times> string) option" where
  "next_ptok s =
     or_else (pql_name s) (or_else (pql_num s) (or_else (pql_quoted (CHR 0x22) s) (or_else (pql_quoted (CHR 0x27) s)
       (or_else (pql_symbol (CHR ''('') PLp s) (or_else (pql_symbol (CHR '')'') PRp s) (pql_symbol (CHR '','') PComma s))))))"

lemma next_ptok_length: "next_ptok s = Some (t, r) \<Longrightarrow> length r < length s"
proof -
  assume n: "next_ptok s = Some (t, r)"
  have le: "length (dropWhile p u) \<le> length u" for p and u :: string by (rule length_dropWhile_le)
  have 1: "pql_name s = Some (t, r) \<Longrightarrow> length r < length s"
    using le by (auto simp: pql_name_def less_Suc_eq_le split: list.splits if_splits)
  have 2: "pql_symbol x k s = Some (t, r) \<Longrightarrow> length r < length s" for x k
    by (auto simp: pql_symbol_def split: list.splits if_splits)
  have 3: "pql_quoted x s = Some (t, r) \<Longrightarrow> length r < length s" for x
  proof -
    assume q: "pql_quoted x s = Some (t, r)"
    then obtain c u y where "s = c # u" "dropWhile (\<lambda>z. z \<noteq> x) u = y # r"
      by (auto simp: pql_quoted_def split: list.splits if_splits)
    then show ?thesis using le [of "\<lambda>z. z \<noteq> x" u] by simp
  qed
  have 4: "pql_num s = Some (t, r) \<Longrightarrow> length r < length s"
  proof -
    have d: "takeWhile is_digit u \<noteq> [] \<Longrightarrow> length (dropWhile is_digit u) < length u" for u
      using le [of is_digit] by (cases u) (auto simp: less_Suc_eq_le split: if_splits)
    assume "pql_num s = Some (t, r)"
    then show ?thesis using d using le [of is_digit] by (cases s) (auto simp: pql_num_def Let_def less_Suc_eq_le less_imp_le split: if_splits dest!: d)
  qed
  show ?thesis using n 1 2 3 4 by (auto simp: next_ptok_def or_else_def split: option.splits)
qed

function pql_tokenize :: "string \<Rightarrow> ptok list result" where
  "pql_tokenize s =
     (case lstrip s of
        [] \<Rightarrow> Inr []
      | c # r \<Rightarrow>
          (case next_ptok (c # r) of
             None \<Rightarrow> Inl (ValueError ''PQL: bad char'')
           | Some (t, s') \<Rightarrow> bind_r (pql_tokenize s') (\<lambda>ts. Inr (t # ts))))"
  by pat_completeness auto
termination
proof (relation "measure length", goal_cases)
  case (2 s c r x t s')
  then have "length s' < length (lstrip s)" by (auto dest: next_ptok_length)
  moreover have "length (lstrip s) \<le> length s" by (simp add: lstrip_def length_dropWhile_le)
  ultimately show ?case by simp
qed simp

declare pql_tokenize.simps [simp del]

section \<open>Calls\<close>

datatype pval = VBits "nat set" | VRank "(nat \<times> nat) list" | VNum int | VStr string

definition py_and :: "pval \<Rightarrow> pval \<Rightarrow> pval result" where
  "py_and x y = (case (x, y) of (VBits a, VBits b) \<Rightarrow> Inr (VBits (a \<inter> b)) | (VNum i, VNum j) \<Rightarrow> Inr (VNum (i AND j))
     | _ \<Rightarrow> Inl (TypeErr ''&''))"

definition py_or :: "pval \<Rightarrow> pval \<Rightarrow> pval result" where
  "py_or x y = (case (x, y) of (VBits a, VBits b) \<Rightarrow> Inr (VBits (a \<union> b)) | (VNum i, VNum j) \<Rightarrow> Inr (VNum (i OR j))
     | _ \<Rightarrow> Inl (TypeErr ''|''))"

definition py_minus :: "pval \<Rightarrow> pval \<Rightarrow> pval result" where
  "py_minus x y = (case (x, y) of (VBits a, VBits b) \<Rightarrow> Inr (VBits (a - b)) | (VNum i, VNum j) \<Rightarrow> Inr (VNum (i - j))
     | _ \<Rightarrow> Inl (TypeErr ''-''))"

definition py_xor :: "pval \<Rightarrow> pval \<Rightarrow> pval result" where
  "py_xor x y = (case (x, y) of (VBits a, VBits b) \<Rightarrow> Inr (VBits ((a - b) \<union> (b - a))) | (VNum i, VNum j) \<Rightarrow> Inr (VNum (i XOR j))
     | _ \<Rightarrow> Inl (TypeErr ''^''))"

definition py_len :: "pval \<Rightarrow> int result" where
  "py_len x = (case x of VBits a \<Rightarrow> Inr (int (card a)) | VRank r \<Rightarrow> Inr (int (length r)) | VStr s \<Rightarrow> Inr (int (length s))
     | VNum _ \<Rightarrow> Inl (TypeErr ''len''))"

fun fold_vals :: "(pval \<Rightarrow> pval \<Rightarrow> pval result) \<Rightarrow> pval \<Rightarrow> pval list \<Rightarrow> pval result" where
  "fold_vals f x [] = Inr x"
| "fold_vals f x (y # ys) = bind_r (f x y) (\<lambda>z. fold_vals f z ys)"

text \<open>\<open>it = iter(args); res = next(it); for a in it: ...\<close>\<close>

definition reduce_vals :: "(pval \<Rightarrow> pval \<Rightarrow> pval result) \<Rightarrow> pval list \<Rightarrow> pval result" where
  "reduce_vals f args = (case args of [] \<Rightarrow> Inl (RuntimeErr ''StopIteration'') | x # xs \<Rightarrow> fold_vals f x xs)"

definition pair_vals :: "(pval \<Rightarrow> pval \<Rightarrow> pval result) \<Rightarrow> pval list \<Rightarrow> pval result" where
  "pair_vals f args = (case args of x # y # _ \<Rightarrow> f x y | _ \<Rightarrow> Inl IndexError)"

definition opt_num :: "int \<Rightarrow> pval list \<Rightarrow> int result" where
  "opt_num d args = (case args of [] \<Rightarrow> Inr d | VNum n # _ \<Rightarrow> Inr n | _ \<Rightarrow> Inl (TypeErr ''int''))"

definition pql_call :: "string \<Rightarrow> pval list \<Rightarrow> engine \<Rightarrow> (pval \<times> engine) result" where
  "pql_call fn args q =
     (let f = str_lower fn; pure = (\<lambda>r. bind_r r (\<lambda>v. Inr (v, q))) in
      if f = ''row'' then
        (case args of
           [VStr l, VStr c] \<Rightarrow> (case concept_row l c q of (b, q1) \<Rightarrow> Inr (VBits b, q1))
         | [_, _] \<Rightarrow> Inl (TypeErr ''row'')
         | _ \<Rightarrow> Inl (ValueError ''unpack''))
      else if f = ''intersect'' \<or> f = ''and'' then pure (reduce_vals py_and args)
      else if f = ''union'' \<or> f = ''or'' then pure (reduce_vals py_or args)
      else if f = ''difference'' \<or> f = ''diff'' then pure (pair_vals py_minus args)
      else if f = ''xor'' then pure (pair_vals py_xor args)
      else if f = ''topn'' then
        (case args of
           [] \<Rightarrow> Inl IndexError
         | VBits b # r \<Rightarrow> bind_r (opt_num 10 r) (\<lambda>n. case topn b n q of (d, q1) \<Rightarrow> Inr (VRank d, q1))
         | _ \<Rightarrow> Inl (TypeErr ''topn''))
      else if f = ''neighbors'' then
        (case args of
           [] \<Rightarrow> Inl IndexError
         | VStr c # r \<Rightarrow> bind_r (opt_num 1 r) (\<lambda>n. case neighbors c n [] q of (b, q1) \<Rightarrow> Inr (VBits b, q1))
         | _ \<Rightarrow> Inl (TypeErr ''neighbors''))
      else if f = ''count'' then
        (case args of [] \<Rightarrow> Inl IndexError | x # _ \<Rightarrow> bind_r (py_len x) (\<lambda>n. Inr (VNum n, q)))
      else Inl (ValueError (''PQL: unknown function '' @ fn)))"

section \<open>Parsing and evaluating\<close>

text \<open>\<open>_parse\<close>, its argument loop, and what follows an argument, on the remaining tokens.\<close>

definition open_call :: "ptok list \<Rightarrow> (string \<times> ptok list) option" where
  "open_call ts = (case ts of PName fn # PLp # r \<Rightarrow> Some (fn, r) | _ \<Rightarrow> None)"

lemma open_call_Some: "open_call ts = Some (fn, r) \<longleftrightarrow> ts = PName fn # PLp # r"
  by (auto simp: open_call_def split: list.splits ptok.splits)

function pql_parse :: "ptok list \<Rightarrow> engine \<Rightarrow> ((pval \<times> ptok list) \<times> engine) result"
  and pql_args :: "string \<Rightarrow> pval list \<Rightarrow> ptok list \<Rightarrow> engine \<Rightarrow> ((pval \<times> ptok list) \<times> engine) result"
  and pql_next :: "string \<Rightarrow> pval list \<Rightarrow> ptok list \<Rightarrow> engine \<Rightarrow> ((pval \<times> ptok list) \<times> engine) result" where
  "pql_parse ts q =
     (case open_call ts of
        Some (fn, r) \<Rightarrow>
          (case r of
             [] \<Rightarrow> Inl IndexError
           | t # r' \<Rightarrow> if t = PRp then bind_r (pql_call fn [] q) (\<lambda>(v, q1). Inr ((v, r'), q1)) else pql_args fn [] r q)
      | None \<Rightarrow>
          (case ts of
             [] \<Rightarrow> Inl IndexError
           | t # r \<Rightarrow> (case t of PName fn \<Rightarrow> Inr ((VStr fn, r), q) | _ \<Rightarrow> Inl (ValueError ''PQL: expected fn name''))))"
| "pql_args fn args ts q =
     (case open_call ts of
        Some _ \<Rightarrow> bind_r (pql_parse ts q) (\<lambda>((v, r), q1). pql_next fn (args @ [v]) r q1)
      | None \<Rightarrow>
          (case ts of
             [] \<Rightarrow> Inl IndexError
           | t # r \<Rightarrow>
               (case t of
                  PName n \<Rightarrow> pql_next fn (args @ [VStr n]) r q
                | PNum i \<Rightarrow> pql_next fn (args @ [VNum i]) r q
                | PStr s \<Rightarrow> pql_next fn (args @ [VStr s]) r q
                | _ \<Rightarrow> Inl (ValueError ''PQL: bad arg''))))"
| "pql_next fn args ts q =
     (case ts of
        [] \<Rightarrow> Inl IndexError
      | t # r \<Rightarrow>
          (case t of
             PComma \<Rightarrow> pql_args fn args r q
           | PRp \<Rightarrow> bind_r (pql_call fn args q) (\<lambda>(v, q1). Inr ((v, r), q1))
           | _ \<Rightarrow> Inl (ValueError ''PQL: expected , or )'')))"
  by pat_completeness auto

text \<open>Every successful call has consumed tokens.\<close>

lemma bind_r_pair2:
  "bind_r r (\<lambda>((x, y), z). f x y z) = Inr w \<longleftrightarrow> (\<exists>x y z. r = Inr ((x, y), z) \<and> f x y z = Inr w)"
  by (cases r) auto

lemma pql_consumes:
  "pql_parse_pql_args_pql_next_dom (Inl (ts, q)) \<Longrightarrow> \<forall>v r q'. pql_parse ts q = Inr ((v, r), q') \<longrightarrow> length r < length ts"
  "pql_parse_pql_args_pql_next_dom (Inr (Inl (fn, args, ts, q))) \<Longrightarrow>
     \<forall>v r q'. pql_args fn args ts q = Inr ((v, r), q') \<longrightarrow> length r < length ts"
  "pql_parse_pql_args_pql_next_dom (Inr (Inr (fn, args, ts, q))) \<Longrightarrow>
     \<forall>v r q'. pql_next fn args ts q = Inr ((v, r), q') \<longrightarrow> length r < length ts"
proof (induction rule: pql_parse_pql_args_pql_next.pinduct)
  case (1 ts q)
  show ?case
  proof (cases "open_call ts")
    case None
    then show ?thesis by (auto simp: pql_parse.psimps [OF 1(1)] split: list.splits ptok.splits)
  next
    case (Some p)
    obtain fn r where p: "p = (fn, r)" by (cases p) blast
    then have ts: "ts = PName fn # PLp # r" using Some by (simp add: open_call_Some)
    note ih = 1(2) [OF Some p [symmetric]]
    show ?thesis
      unfolding pql_parse.psimps [OF 1(1)] Some p using ih
      by (auto simp: ts bind_r_pair split: list.splits if_splits)
  qed
next
  case (2 fn args ts q)
  show ?case
  proof (cases "open_call ts")
    case None
    show ?thesis
    proof (cases ts)
      case (Cons t r)
      note ih = 2(2-4) [OF None Cons]
      note e = pql_args.psimps [OF 2(1), unfolded None option.case, unfolded Cons list.case]
      have less: "length a < length r \<Longrightarrow> length a < Suc (length r)" for a :: "ptok list" by simp
      show ?thesis
        unfolding Cons e using ih less by (cases t) auto
    qed (use pql_args.psimps [OF 2(1), unfolded None option.case] in simp)
  next
    case (Some p)
    show ?thesis
    proof (intro allI impI)
      fix v r q' assume "pql_args fn args ts q = Inr ((v, r), q')"
      then obtain x y z where p: "pql_parse ts q = Inr ((x, y), z)" "pql_next fn (args @ [x]) y z = Inr ((v, r), q')"
        unfolding pql_args.psimps [OF 2(1)] Some by (auto simp: bind_r_pair2)
      have "length y < length ts" using 2(5) [OF Some] p(1) by blast
      moreover have "length r < length y" using 2(6) [OF Some p(1) refl refl] p(2) by blast
      ultimately show "length r < length ts" by simp
    qed
  qed
next
  case (3 fn args ts q)
  then show ?case unfolding pql_next.psimps [OF 3(1)]
    by (auto simp: bind_r_pair split: list.splits ptok.splits)
qed

termination pql_parse
proof (relation "measure (\<lambda>x. case x of
      Inl (ts, q) \<Rightarrow> 2 * length ts
    | Inr (Inl (fn, args, ts, q)) \<Rightarrow> 2 * length ts + 1
    | Inr (Inr (fn, args, ts, q)) \<Rightarrow> 2 * length ts + 1)")
qed (auto simp: open_call_Some dest!: pql_consumes(1))

declare pql_parse.simps [simp del] pql_args.simps [simp del] pql_next.simps [simp del]

definition pql_eval :: "ptok list \<Rightarrow> engine \<Rightarrow> (pval \<times> engine) result" where
  "pql_eval ts q =
     bind_r (pql_parse ts q) (\<lambda>((v, r), q1). if r = [] then Inr (v, q1) else Inl (ValueError ''trailing PQL tokens''))"

definition run_pql :: "string \<Rightarrow> engine \<Rightarrow> (pval \<times> engine) result" where
  "run_pql src q = bind_r (pql_tokenize (strip src)) (\<lambda>ts. pql_eval ts q)"

section \<open>The two surfaces agree\<close>

text \<open>Expressions of rows and set operations, as PQL tokens and as trees of the infix language.\<close>

datatype pexp = PRow string string | PSet string pexp pexp

fun ptoks :: "pexp \<Rightarrow> ptok list" where
  "ptoks (PRow l c) = [PName ''Row'', PLp, PStr l, PComma, PStr c, PRp]"
| "ptoks (PSet op a b) = PName op # PLp # ptoks a @ PComma # ptoks b @ [PRp]"

fun wf_pexp :: "pexp \<Rightarrow> bool" where
  "wf_pexp (PRow l c) = True"
| "wf_pexp (PSet op a b) = (op \<in> {''Intersect'', ''Union'', ''Difference'', ''Xor''} \<and> wf_pexp a \<and> wf_pexp b)"

definition row_sem :: "engine \<Rightarrow> string \<Rightarrow> string \<Rightarrow> nat set" where
  "row_sem q l c = (\<Union>i\<in>set (resolve_concept_ids c (qe_strict q) (qe_store q)). engine_row q l i)"

fun pexp_sem :: "engine \<Rightarrow> pexp \<Rightarrow> nat set" where
  "pexp_sem q (PRow l c) = row_sem q l c"
| "pexp_sem q (PSet op a b) =
     (let x = pexp_sem q a; y = pexp_sem q b in
      if op = ''Intersect'' then x \<inter> y else if op = ''Union'' then x \<union> y
      else if op = ''Difference'' then x - y else (x - y) \<union> (y - x))"

fun node_of :: "pexp \<Rightarrow> node" where
  "node_of (PRow l c) = TermN (l @ CHR '':'' # c)"
| "node_of (PSet op a b) = OpN (if op = ''Intersect'' then ''and'' else ''or'') [node_of a, node_of b]"

fun infix_ok :: "pexp \<Rightarrow> bool" where
  "infix_ok (PRow l c) = (CHR '':'' \<notin> set l)"
| "infix_ok (PSet op a b) = (op \<in> {''Intersect'', ''Union''} \<and> infix_ok a \<and> infix_ok b)"

lemma op_names:
  "str_lower ''Row'' = ''row''" "str_lower ''Intersect'' = ''intersect''" "str_lower ''Union'' = ''union''"
  "str_lower ''Difference'' = ''difference''" "str_lower ''Xor'' = ''xor''"
  by code_simp+

lemma call_row:
  assumes "same_engine q0 q"
  shows "\<exists>q'. pql_call ''Row'' [VStr l, VStr c] q = Inr (VBits (row_sem q0 l c), q') \<and> same_engine q0 q'"
  using rows.load_all_value [OF assms, of "map (Pair l) (resolve_concept_ids c (qe_strict q) (qe_store q))" "{}"]
    same_engine_reads [OF assms]
  by (auto simp: pql_call_def op_names concept_row_def row_sem_def split_beta)

lemma call_set:
  assumes "op \<in> {''Intersect'', ''Union'', ''Difference'', ''Xor''}"
  shows "pql_call op [VBits x, VBits y] q = Inr (VBits
     (if op = ''Intersect'' then x \<inter> y else if op = ''Union'' then x \<union> y
      else if op = ''Difference'' then x - y else (x - y) \<union> (y - x)), q)"
  using assms
  by (elim insertE emptyE)
    (simp_all add: pql_call_def Let_def op_names reduce_vals_def pair_vals_def py_and_def py_or_def py_minus_def py_xor_def)

lemma ptoks_open: "\<exists>fn t ts. ptoks e = PName fn # PLp # t # ts \<and> t \<noteq> PRp"
proof (cases e)
  case (PSet op a b)
  have "\<exists>fn ts. ptoks a = PName fn # ts" by (cases a) simp_all
  then show ?thesis using PSet by auto
qed simp

lemma open_call_ptoks: "\<exists>p. open_call (ptoks e @ r) = Some p"
  by (cases e) (simp_all add: open_call_def)

lemma parse_ptoks:
  assumes "same_engine q0 q" "wf_pexp e"
  shows "\<exists>q'. pql_parse (ptoks e @ r) q = Inr ((VBits (pexp_sem q0 e), r), q') \<and> same_engine q0 q'"
  using assms
proof (induction e arbitrary: q r)
  case (PRow l c)
  obtain q' where q': "pql_call ''Row'' [VStr l, VStr c] q = Inr (VBits (row_sem q0 l c), q')" "same_engine q0 q'"
    using call_row [OF PRow(1)] by blast
  have "pql_parse (ptoks (PRow l c) @ r) q = Inr ((VBits (row_sem q0 l c), r), q')"
    by (simp add: pql_parse.simps pql_args.simps pql_next.simps open_call_def q'(1))
  then show ?case using q'(2) by simp
next
  case (PSet op a b)
  have wf: "wf_pexp a" "wf_pexp b" and op: "op \<in> {''Intersect'', ''Union'', ''Difference'', ''Xor''}" using PSet.prems by simp_all
  obtain q1 where 1: "pql_parse (ptoks a @ PComma # ptoks b @ PRp # r) q = Inr ((VBits (pexp_sem q0 a), PComma # ptoks b @ PRp # r), q1)"
    "same_engine q0 q1" using PSet.IH(1) [OF PSet.prems(1) wf(1)] by blast
  obtain q2 where 2: "pql_parse (ptoks b @ PRp # r) q1 = Inr ((VBits (pexp_sem q0 b), PRp # r), q2)" "same_engine q0 q2"
    using PSet.IH(2) [OF 1(2) wf(2)] by blast
  have step: "pql_args fn args (ptoks e @ u) p = bind_r (pql_parse (ptoks e @ u) p) (\<lambda>((v, r), q1). pql_next fn (args @ [v]) r q1)"
    for fn args e u p
    using open_call_ptoks [of e u] by (auto simp: pql_args.simps)
  obtain fn t ts where t: "ptoks a = PName fn # PLp # t # ts" using ptoks_open [of a] by blast
  have "pql_parse (ptoks (PSet op a b) @ r) q = pql_args op [] (ptoks a @ PComma # ptoks b @ PRp # r) q"
    by (subst pql_parse.simps) (simp add: open_call_def t)
  also have "\<dots> = pql_next op [VBits (pexp_sem q0 a)] (PComma # ptoks b @ PRp # r) q1"
    unfolding step 1(1) by simp
  also have "\<dots> = pql_args op [VBits (pexp_sem q0 a)] (ptoks b @ PRp # r) q1" by (simp add: pql_next.simps)
  also have "\<dots> = pql_next op [VBits (pexp_sem q0 a), VBits (pexp_sem q0 b)] (PRp # r) q2"
    unfolding step 2(1) by simp
  also have "\<dots> = Inr ((VBits (pexp_sem q0 (PSet op a b)), r), q2)"
    by (simp add: pql_next.simps call_set [OF op] Let_def)
  finally show ?case using 2(2) by blast
qed

lemma split_once_colon: "CHR '':'' \<notin> set l \<Longrightarrow> split_once (CHR '':'') (l @ CHR '':'' # c) = Some (l, c)"
proof -
  assume "CHR '':'' \<notin> set l"
  then have "takeWhile (\<lambda>x. x \<noteq> CHR '':'') (l @ CHR '':'' # c) = l" "dropWhile (\<lambda>x. x \<noteq> CHR '':'') (l @ CHR '':'' # c) = CHR '':'' # c"
    by (induction l) auto
  then show ?thesis by (simp add: split_once_def)
qed

lemma node_of_sem: "infix_ok e \<Longrightarrow> node_sem q (node_of e) = pexp_sem q e \<and> wf_node (node_of e) \<and> wf_pexp e"
  by (induction e) (auto simp: term_sem_def split_once_colon row_sem_def Let_def)

text \<open>C25. The two query surfaces agree: an expression of rows, intersections and unions gives the
  same set of entities as a tree of the infix language and as nested PQL calls, with any nesting,
  and neither evaluation fails.\<close>

theorem surfaces_agree:
  assumes "frag_inv (qe_store q)" "infix_ok e"
  shows "\<exists>b q1 q2. eval (node_of e) q = Inr (b, q1) \<and> pql_eval (ptoks e) q = Inr (VBits b, q2)"
proof -
  have s: "same_engine q q" using assms(1) by (simp add: same_engine_def)
  note n = node_of_sem [OF assms(2), of q]
  obtain q1 where "eval (node_of e) q = Inr (node_sem q (node_of e), q1)" using eval_sem [OF s] n by blast
  moreover obtain q2 where "pql_parse (ptoks e @ []) q = Inr ((VBits (pexp_sem q e), []), q2)"
    using parse_ptoks [OF s, of e "[]"] n by blast
  then have "pql_eval (ptoks e) q = Inr (VBits (pexp_sem q e), q2)" by (simp add: pql_eval_def)
  ultimately show ?thesis using n by auto
qed

theorem surfaces_agree_witness:
  "\<exists>b q1 q2. eval (OpN ''and'' [TermN ''mentions:x'', TermN ''mentions:y'']) query_engine = Inr (b, q1) \<and>
     pql_eval [PName ''Intersect'', PLp, PName ''Row'', PLp, PStr ''mentions'', PComma, PStr ''x'', PRp, PComma,
       PName ''Row'', PLp, PStr ''mentions'', PComma, PStr ''y'', PRp, PRp] query_engine = Inr (VBits b, q2)"
  using surfaces_agree [OF query_engine_ok(1), of "PSet ''Intersect'' (PRow ''mentions'' ''x'') (PRow ''mentions'' ''y'')"]
  by simp

section \<open>What is refused\<close>

text \<open>The texts that are calls: a term is a name, a number, a string, or a call of terms.\<close>

datatype pterm = PLeaf ptok | PCall string "pterm list"

fun term_toks :: "pterm \<Rightarrow> ptok list"
  and args_toks :: "pterm list \<Rightarrow> ptok list" where
  "term_toks (PLeaf t) = [t]"
| "term_toks (PCall f ts) = PName f # PLp # args_toks ts @ [PRp]"
| "args_toks [] = []"
| "args_toks [t] = term_toks t"
| "args_toks (t # u # us) = term_toks t @ PComma # args_toks (u # us)"

text \<open>The functions with the numbers of arguments they take.\<close>

definition arity_ok :: "string \<Rightarrow> nat \<Rightarrow> bool" where
  "arity_ok fn n =
     (let f = str_lower fn in
      if f = ''row'' then n = 2
      else if f \<in> {''difference'', ''diff'', ''xor''} then 2 \<le> n
      else f \<in> {''intersect'', ''and'', ''union'', ''or'', ''topn'', ''neighbors'', ''count''} \<and> 1 \<le> n)"

fun term_ok :: "pterm \<Rightarrow> bool" where
  "term_ok (PLeaf t) = (case t of PName n \<Rightarrow> True | PNum i \<Rightarrow> True | PStr s \<Rightarrow> True | _ \<Rightarrow> False)"
| "term_ok (PCall f ts) = (arity_ok f (length ts) \<and> (\<forall>t\<in>set ts. term_ok t))"

lemma pql_call_arity: "pql_call fn args q = Inr x \<Longrightarrow> arity_ok fn (length args)"
  by (auto simp: pql_call_def arity_ok_def Let_def reduce_vals_def pair_vals_def split: if_splits list.splits pval.splits)

lemma args_toks_Cons: "args_toks (t # ts) = term_toks t @ (if ts = [] then [] else PComma # args_toks ts)"
  by (cases ts) simp_all

lemma pql_reads:
  "pql_parse ts q = Inr ((v, r), q') \<Longrightarrow>
     (\<exists>n. ts = PName n # r) \<or> (\<exists>f us. ts = term_toks (PCall f us) @ r \<and> term_ok (PCall f us))"
  "pql_args fn args ts q = Inr ((v, r), q') \<Longrightarrow>
     \<exists>us. us \<noteq> [] \<and> ts = args_toks us @ PRp # r \<and> (\<forall>t\<in>set us. term_ok t) \<and> arity_ok fn (length args + length us)"
  "pql_next fn args ts q = Inr ((v, r), q') \<Longrightarrow>
     ts = PRp # r \<and> arity_ok fn (length args) \<or>
     (\<exists>us. us \<noteq> [] \<and> ts = PComma # args_toks us @ PRp # r \<and> (\<forall>t\<in>set us. term_ok t) \<and> arity_ok fn (length args + length us))"
proof (induction ts q and fn args ts q and fn args ts q arbitrary: v r q' and v r q' and v r q'
    rule: pql_parse_pql_args_pql_next.induct)
  case (1 ts q)
  show ?case
  proof (cases "open_call ts")
    case None
    then show ?thesis using "1.prems" by (auto simp: pql_parse.simps [of ts q] split: list.splits ptok.splits)
  next
    case (Some p)
    obtain fn r0 where p: "p = (fn, r0)" by (cases p)
    have ts: "ts = PName fn # PLp # r0" using Some unfolding p open_call_Some .
    obtain t r1 where r0: "r0 = t # r1" using "1.prems" by (cases r0) (auto simp: pql_parse.simps [of ts q] Some p)
    show ?thesis
    proof (cases "t = PRp")
      case True
      then have c: "pql_call fn [] q = Inr (v, q')" "r = r1"
        using "1.prems" by (auto simp: pql_parse.simps [of ts q] Some p r0 bind_r_pair)
      then show ?thesis using pql_call_arity [OF c(1)] True ts r0
        by (intro disjI2 exI [of _ fn] exI [of _ "[]"]) simp
    next
      case False
      then have "pql_args fn [] r0 q = Inr ((v, r), q')" using "1.prems" by (simp add: pql_parse.simps [of ts q] Some p r0)
      from "1.IH" [OF Some p [symmetric] r0 False, OF this]
      obtain us where "us \<noteq> []" "r0 = args_toks us @ PRp # r" "\<forall>t\<in>set us. term_ok t" "arity_ok fn (length us)" by auto
      then show ?thesis using ts by (intro disjI2 exI [of _ fn] exI [of _ us]) simp
    qed
  qed
next
  case (2 fn args ts q)
  have step: "\<exists>us. us \<noteq> [] \<and> term_toks t @ y = args_toks us @ PRp # r \<and> (\<forall>t\<in>set us. term_ok t) \<and> arity_ok fn (length args + length us)"
    if t: "term_ok t" and y: "y = PRp # r \<and> arity_ok fn (length (args @ [x])) \<or>
      (\<exists>us. us \<noteq> [] \<and> y = PComma # args_toks us @ PRp # r \<and> (\<forall>t\<in>set us. term_ok t) \<and> arity_ok fn (length (args @ [x]) + length us))"
    for t y and x :: pval
    using y
  proof
    assume "y = PRp # r \<and> arity_ok fn (length (args @ [x]))"
    then show ?thesis using t by (intro exI [of _ "[t]"]) simp
  next
    assume "\<exists>us. us \<noteq> [] \<and> y = PComma # args_toks us @ PRp # r \<and> (\<forall>t\<in>set us. term_ok t) \<and> arity_ok fn (length (args @ [x]) + length us)"
    then obtain us where "us \<noteq> []" "y = PComma # args_toks us @ PRp # r" "\<forall>t\<in>set us. term_ok t"
      "arity_ok fn (length (args @ [x]) + length us)" by blast
    then show ?thesis using t by (intro exI [of _ "t # us"]) (simp add: args_toks_Cons)
  qed
  show ?case
  proof (cases "open_call ts")
    case None
    obtain t r0 where ts: "ts = t # r0" using "2.prems" None by (cases ts) (auto simp: pql_args.simps [of fn args "[]" q])
    note e = "2.prems" [unfolded pql_args.simps [of fn args ts q] None option.case, unfolded ts list.case]
    note ih = "2.IH"(1,2,3) [OF None ts]
    show ?thesis
    proof (cases t)
      case (PName n)
      then have "pql_next fn (args @ [VStr n]) r0 q = Inr ((v, r), q')" using e by simp
      from step [OF _ ih(1) [OF PName this], of "PLeaf t"] show ?thesis using PName ts by simp
    next
      case (PNum n)
      then have "pql_next fn (args @ [VNum n]) r0 q = Inr ((v, r), q')" using e by simp
      from step [OF _ ih(2) [OF PNum this], of "PLeaf t"] show ?thesis using PNum ts by simp
    next
      case (PStr n)
      then have "pql_next fn (args @ [VStr n]) r0 q = Inr ((v, r), q')" using e by simp
      from step [OF _ ih(3) [OF PStr this], of "PLeaf t"] show ?thesis using PStr ts by simp
    qed (use e in simp_all)
  next
    case (Some p)
    then obtain x y z where p: "pql_parse ts q = Inr ((x, y), z)" "pql_next fn (args @ [x]) y z = Inr ((v, r), q')"
      using "2.prems" unfolding pql_args.simps [of fn args ts q] Some by (auto simp: bind_r_pair2)
    obtain fn' r0 where ts: "ts = PName fn' # PLp # r0" using Some by (cases p) (simp add: open_call_Some)
    note n = "2.IH"(5) [OF Some p(1) refl refl p(2)]
    from "2.IH"(4) [OF Some p(1)] show ?thesis
    proof
      assume "\<exists>n. ts = PName n # y"
      then have y: "y = PLp # r0" using ts by simp
      then show ?thesis using n by simp
    next
      assume "\<exists>f us. ts = term_toks (PCall f us) @ y \<and> term_ok (PCall f us)"
      then obtain f us where "ts = term_toks (PCall f us) @ y" "term_ok (PCall f us)" by blast
      then show ?thesis using step [OF _ n, of "PCall f us"] by simp
    qed
  qed
next
  case (3 fn args ts q)
  obtain t r0 where ts: "ts = t # r0" using "3.prems" by (cases ts) (auto simp: pql_next.simps [of fn args "[]" q])
  note e = "3.prems" [unfolded ts, unfolded pql_next.simps [of fn args "t # r0" q] list.case]
  show ?case
  proof (cases t)
    case PComma
    then have "pql_args fn args r0 q = Inr ((v, r), q')" using e by simp
    from "3.IH" [OF ts PComma this] show ?thesis using PComma ts by auto
  next
    case PRp
    then have "pql_call fn args q = Inr (v, q')" "r = r0" using e by (auto simp: bind_r_pair)
    then show ?thesis using pql_call_arity PRp ts by blast
  qed (use e in simp_all)
qed

text \<open>C32. Malformed PQL is refused. A text that \<open>run_pql\<close> evaluates at all is one name, or the written
  form of a call whose functions all exist and all get the number of arguments they need, with
  commas between the arguments, every bracket closed and nothing after it; for every other sequence of
  tokens, cut off, unbalanced, with a token too many or an unknown function anywhere inside, the
  result is an error.\<close>

theorem pql_errors:
  "(\<exists>err. pql_eval ts q = Inl err) \<or> (\<exists>n. ts = [PName n]) \<or>
   (\<exists>f us. ts = term_toks (PCall f us) \<and> term_ok (PCall f us))"
proof (cases "pql_eval ts q")
  case (Inr x)
  then obtain v q' where "pql_parse ts q = Inr ((v, []), q')"
    by (auto simp: pql_eval_def bind_r_pair2 split: if_splits)
  from pql_reads(1) [OF this] show ?thesis by simp
qed simp

end
