(* ===== verification/Replay.thy ===== *)
theory Replay
  imports Pql
begin

text \<open>
  Replaying the fact log into a store (\<open>edge_records.py\<close> and \<open>apply_log_delta\<close> of \<open>store.py\<close>):
  how the concept end of an edge event is found, what one event does, and the application of a
  window of the log with logging suppressed, which is how the daemon brings the inactive slot of
  a rotated store up to date.

  The log of a store is the list of its records, so an offset counts records where the code
  counts bytes; the blank and the malformed lines, which the code skips, are not in the list.
  An exception inside an event counts it as not applied, with the state it was raised in.
\<close>

section \<open>Edge records\<close>

text \<open>\<open>edge_fields\<close> is the record constructor of \<^typ>\<open>edge_ends\<close>; the operation of an edge
  event is the constructor of \<^typ>\<open>event\<close>, so \<open>edge_event\<close> refuses nothing here.\<close>

definition edge_fields :: "string \<Rightarrow> string option \<Rightarrow> string \<Rightarrow> string \<Rightarrow> string \<Rightarrow> edge_ends" where
  "edge_fields l ck c ek e = \<lparr>x_linkage = l, x_ckind = ck, x_c = c, x_ekind = ek, x_e = e\<rparr>"

definition resolve_legacy_kind :: "string list \<Rightarrow> string option" where
  "resolve_legacy_kind ks =
     (if ''concept'' \<in> set ks then Some ''concept''
      else case dedup ks of [k] \<Rightarrow> Some k | _ \<Rightarrow> None)"

definition replay_concept :: "edge_ends \<Rightarrow> store \<Rightarrow> entity option" where
  "replay_concept x s =
     (case (case x_ckind x of Some (a # k) \<Rightarrow> Some (a # k)
            | _ \<Rightarrow> resolve_legacy_kind
                    (map e_kind (filter (\<lambda>e. e_pid e = fst (bound s) \<and> e_name e = x_c x) (entities s)))) of
        None \<Rightarrow> None
      | Some k \<Rightarrow> get_entity k (x_c x) s)"

section \<open>One event\<close>

definition put_protected :: "nat \<Rightarrow> bool \<Rightarrow> store \<Rightarrow> store" where
  "put_protected i v s =
     s\<lparr>entities := map (\<lambda>e. if e_id e = i then e\<lparr>e_protected := v\<rparr> else e) (entities s)\<rparr>"

text \<open>\<open>x or None\<close> of a description, and a block whose exceptions mean not applied.\<close>

definition or_none :: "string \<Rightarrow> string option" where
  "or_none d = (if d = [] then None else Some d)"

definition attempt :: "store \<Rightarrow> ('a \<times> store) result \<Rightarrow> bool \<times> store" where
  "attempt s r = (case r of Inl _ \<Rightarrow> (False, s) | Inr (_, s') \<Rightarrow> (True, s'))"

definition with_ends :: "edge_ends \<Rightarrow> store \<Rightarrow> (nat \<Rightarrow> nat \<Rightarrow> bool \<times> store) \<Rightarrow> bool \<times> store" where
  "with_ends x s f =
     (case (replay_concept x s, get_entity (x_ekind x) (x_e x) s) of
        (Some c, Some e) \<Rightarrow> f (e_id c) (e_id e)
      | _ \<Rightarrow> (False, s))"

definition with_entity :: "string \<Rightarrow> string \<Rightarrow> store \<Rightarrow> (nat \<Rightarrow> store) \<Rightarrow> bool \<times> store" where
  "with_entity kind name s f =
     (case get_entity kind name s of None \<Rightarrow> (False, s) | Some e \<Rightarrow> (True, f (e_id e)))"

fun apply_event_body :: "time \<Rightarrow> event \<Rightarrow> store \<Rightarrow> bool \<times> store" where
  "apply_event_body now (EvEntity kind name path tldr meta) s =
     attempt s (upsert_entity now kind name path tldr meta False s)"
| "apply_event_body now (EvProtect kind name v) s = with_entity kind name s (\<lambda>i. put_protected i v s)"
| "apply_event_body now (EvNoise kind name v) s = with_entity kind name s (\<lambda>i. put_noise i v s)"
| "apply_event_body now (EvTombstone kind name) s = with_entity kind name s (\<lambda>i. snd (purge_entity now i s))"
| "apply_event_body now (EvLinkageType name directed descr) s =
     (True, snd (add_linkage_type now name directed (or_none descr) s))"
| "apply_event_body now (EvLink x w) s =
     with_ends x s (\<lambda>c e. attempt s (link now (x_linkage x) c e w False s))"
| "apply_event_body now (EvUnlink x) s =
     with_ends x s (\<lambda>c e. attempt s (unlink now (x_linkage x) c e s))"
| "apply_event_body now (EvEvidence x file lno spn detail) s =
     with_ends x s (\<lambda>c e. attempt s
       (bind_r (add_evidence now (x_linkage x) c e file lno spn detail s) (\<lambda>s1. Inr ((), s1))))"
| "apply_event_body now (EvMemory name content mtype tags metadata) s =
     attempt s (add_memory now name content mtype tags metadata False s)"
| "apply_event_body now (EvTrack path mtime) s =
     (True, case mtime of None \<Rightarrow> s | Some m \<Rightarrow> mark_tracked now path m s)"
| "apply_event_body now (EvUntrack path) s = (True, untrack_row (fst (bound s)) path s)"

definition apply_one_event :: "time \<Rightarrow> log_rec \<Rightarrow> store \<Rightarrow> bool \<times> store" where
  "apply_one_event now g s =
     (case g_partition g of
        Some (a # p) \<Rightarrow>
          if a # p \<noteq> snd (bound s) then with_partition (a # p) (apply_event_body now (g_event g)) s
          else apply_event_body now (g_event g) s
      | _ \<Rightarrow> apply_event_body now (g_event g) s)"

section \<open>A window of the log\<close>

fun apply_events :: "time \<Rightarrow> log_rec list \<Rightarrow> store \<Rightarrow> nat \<times> nat \<times> store" where
  "apply_events now [] s = (0, 0, s)"
| "apply_events now (g # gs) s =
     (case apply_one_event now g s of
        (done, s1) \<Rightarrow> (case apply_events now gs s1 of
          (n, m, s2) \<Rightarrow> if done then (Suc n, m, s2) else (n, Suc m, s2)))"

text \<open>The result is the number of events applied, the number not resolved, and the end offset.\<close>

definition apply_log_delta :: "time \<Rightarrow> nat \<Rightarrow> nat option \<Rightarrow> store \<Rightarrow> (nat \<times> nat \<times> nat) \<times> store" where
  "apply_log_delta now start stop s =
     (let size = length (facts_log s); to = (case stop of None \<Rightarrow> size | Some n \<Rightarrow> n) in
      if facts_log s = [] then ((0, 0, 0), s)
      else if start \<ge> to then ((0, 0, to), s)
      else case apply_events now (drop start (take to (facts_log s))) (s\<lparr>replay_mode := True\<rparr>) of
             (n, m, s1) \<Rightarrow> ((n, m, to), s1\<lparr>replay_mode := False\<rparr>))"

section \<open>Replay is silent\<close>

text \<open>What replay leaves alone: the log, its switches and the binding.\<close>

definition quiet :: "store \<Rightarrow> store \<Rightarrow> bool" where
  "quiet s t = (facts_log t = facts_log s \<and> replay_mode t = replay_mode s \<and>
     log_enabled t = log_enabled s \<and> bound t = bound s)"

lemma quiet_refl [simp]: "quiet s s" by (simp add: quiet_def)

lemma quiet_trans: "quiet s t \<Longrightarrow> quiet t u \<Longrightarrow> quiet s u" by (simp add: quiet_def)

lemma quiet_update [simp]:
  "quiet s (t\<lparr>entities := a\<rparr>) = quiet s t" "quiet s (t\<lparr>next_eid := n\<rparr>) = quiet s t"
  "quiet s (t\<lparr>concepts := b\<rparr>) = quiet s t" "quiet s (t\<lparr>memory_content := m\<rparr>) = quiet s t"
  "quiet s (t\<lparr>linkage_types := lt\<rparr>) = quiet s t" "quiet s (t\<lparr>next_lid := n\<rparr>) = quiet s t"
  "quiet s (t\<lparr>entity_links := el\<rparr>) = quiet s t" "quiet s (t\<lparr>linkage_evidence := ev\<rparr>) = quiet s t"
  "quiet s (t\<lparr>tracked_files := tf\<rparr>) = quiet s t" "quiet s (t\<lparr>cache := c\<rparr>) = quiet s t"
  "quiet s (t\<lparr>dirty := d\<rparr>) = quiet s t" "quiet s (t\<lparr>disk := k\<rparr>) = quiet s t"
  "quiet s (t\<lparr>partitions := p\<rparr>) = quiet s t" "quiet s (t\<lparr>next_pid := n\<rparr>) = quiet s t"
  "quiet s (t\<lparr>link_buffer := lb\<rparr>) = quiet s t" "quiet s (t\<lparr>protect_buffer := pb\<rparr>) = quiet s t"
  by (simp_all add: quiet_def)

lemma silent_log [simp]: "replay_mode s \<Longrightarrow> log_event now ev s = s"
  by (simp add: log_event_def)


lemma quiet_log [simp]: "quiet s (t\<lparr>bound := b\<rparr>) \<longleftrightarrow>
    facts_log t = facts_log s \<and> replay_mode t = replay_mode s \<and> log_enabled t = log_enabled s \<and> b = bound s"
  by (simp add: quiet_def)

lemma quiet_replay: "quiet s t \<Longrightarrow> replay_mode s \<Longrightarrow> quiet s (log_event now ev t)"
  by (simp add: quiet_def)

lemma quiet_fragment [simp]:
  "quiet s (snd (load_fragment l t)) = quiet s t" "quiet s (mutate_fragment l g t) = quiet s t"
  "quiet s (mark_dirty l t) = quiet s t"
  by (simp_all add: quiet_def load_fragment_def mutate_fragment_def mark_dirty_def Let_def split_beta
      split: option.split)

lemma quiet_set_bit [simp]: "quiet s (snd (set_bit_new l v t)) = quiet s t"
  by (simp add: set_bit_new_def split_beta)

lemma quiet_upsert_row [simp]: "quiet s (snd (upsert_row now k n p td m pr t)) = quiet s t"
  by (simp add: quiet_def)

lemma quiet_concept_row [simp]: "quiet s (insert_concept_row i d t) = quiet s t"
  by (simp add: insert_concept_row_def)

lemma quiet_upsert:
  assumes "upsert_entity now k n p td m pr s = Inr (i, s')" "replay_mode s"
  shows "quiet s s'" "replay_mode s'"
proof -
  let ?r = "upsert_row now k n p td (meta_column m) pr s"
  have "s' = (if k = ''concept'' then insert_concept_row (fst ?r) (meta_description m) (snd ?r) else snd ?r)"
    using assms by (auto simp: upsert_entity_def Let_def split_beta split: if_splits)
  then show "quiet s s'" by (simp add: insert_concept_row_def)
  then show "replay_mode s'" using assms(2) by (simp add: quiet_def)
qed

lemma quiet_named:
  "quiet s t \<Longrightarrow> replay_mode s \<Longrightarrow>
     quiet s (case (x, y) of (Some a, Some b) \<Rightarrow> log_event now (f a b) t | _ \<Rightarrow> t)"
  by (simp add: quiet_replay split: option.split)

lemma quiet_link:
  assumes "link now l c e w False s = Inr (r, s')" "replay_mode s"
  shows "quiet s s'"
proof (cases "link_buffer s")
  case (Some b)
  then show ?thesis using assms by (auto simp: link_def Let_def)
next
  case None
  obtain lid where "s' = (let s3 = (snd (set_bit_new (canonical_verb l) (pack c e) s))\<lparr>entity_links :=
          put_link_row True e lid c w (entity_links (snd (set_bit_new (canonical_verb l) (pack c e) s)))\<rparr>
      in case (name_of c s3, name_of e s3) of
        (Some cn, Some en) \<Rightarrow> log_event now (EvLink (edge_of (canonical_verb l) cn en) w) s3 | _ \<Rightarrow> s3)"
    using assms(1) None unfolding link_def Let_def bind_r_Inr
    by (simp add: case_prod_unfold Let_def bind_r_Inr cong: option.case_cong) blast
  then show ?thesis unfolding Let_def using assms(2) by (simp only:) (rule quiet_named, simp_all)
qed

lemma quiet_unlink:
  assumes "unlink now l c e s = Inr (r, s')" "replay_mode s"
  shows "quiet s s'"
proof -
  let ?l = "canonical_verb l" let ?f = "load_fragment ?l s"
  let ?t = "if pack c e \<in> fst ?f then mark_dirty ?l (mutate_fragment ?l (\<lambda>f. f - {pack c e}) (snd ?f)) else snd ?f"
  let ?names = "if pack c e \<in> fst ?f then (name_of c (snd ?f), name_of e (snd ?f)) else (None, None)"
  obtain rows where s': "s' = (case ?names of
        (Some cn, Some en) \<Rightarrow> log_event now (EvUnlink (edge_of ?l cn en)) (?t\<lparr>entity_links := rows\<rparr>)
      | _ \<Rightarrow> ?t\<lparr>entity_links := rows\<rparr>)"
    using assms(1) by (simp add: unlink_def Let_def split_beta bind_r_Inr) blast
  obtain x y where n: "?names = (x, y)" by (cases ?names)
  show ?thesis unfolding s' n by (rule quiet_named) (simp_all add: assms(2))
qed

lemma quiet_evidence:
  assumes "add_evidence now l c e f lno sp d s = Inr s'" "replay_mode s"
  shows "quiet s s'"
proof -
  obtain lid where "s' = (let s1 = s\<lparr>linkage_evidence := linkage_evidence s @
        [\<lparr>v_entity = e, v_linkage = lid, v_concept = c, v_file = f, v_line = lno, v_span_end = sp, v_detail = d\<rparr>]\<rparr>
      in case (name_of c s1, name_of e s1) of
        (Some cn, Some en) \<Rightarrow> log_event now (EvEvidence (edge_of (canonical_verb l) cn en) f lno sp d) s1 | _ \<Rightarrow> s1)"
    using assms(1) unfolding add_evidence_def Let_def bind_r_Inr by blast
  then show ?thesis unfolding Let_def using assms(2) by (simp only:) (rule quiet_named, simp_all)
qed

lemma quiet_put_memory [simp]: "quiet s (put_memory now i c mt tg md t) = quiet s t"
  by (simp add: put_memory_def split: option.split)

lemma quiet_memory:
  assumes "add_memory now n c mt tg md pr s = Inr (i, s')" "replay_mode s"
  shows "quiet s s'"
proof -
  obtain s1 where u: "upsert_entity now ''memory'' n None None None pr s = Inr (i, s1)"
    and s': "s' = log_event now (EvMemory n c mt tg md)
      (if embed_changed i c mt (tags_column tg) s1
       then touch_entity now i (put_memory now i c mt (tags_column tg) (meta_column md) s1)
       else put_memory now i c mt (tags_column tg) (meta_column md) s1)"
    using assms(1) by (auto simp: add_memory_def bind_r_Inr Let_def)
  have "quiet s s1" using quiet_upsert [OF u assms(2)] by simp
  then show ?thesis using assms(2) unfolding s' by (auto simp: touch_entity_def intro!: quiet_replay)
qed

lemma quiet_linkage: "replay_mode s \<Longrightarrow> quiet s (snd (add_linkage_type now n d ds s))"
  by (auto simp: add_linkage_type_def Let_def quiet_def split: option.split)

lemma quiet_clear:
  "quiet s (snd (clear_fragment bits ids l t)) = quiet s t"
  "quiet s (snd (clear_fragments bits ids ls t)) = quiet s t"
proof -
  show *: "quiet s (snd (clear_fragment bits ids l t)) = quiet s t" for l t
    by (simp add: clear_fragment_def Let_def split_beta)
  show "quiet s (snd (clear_fragments bits ids ls t)) = quiet s t"
    by (induction ls arbitrary: t) (simp_all add: split_beta *)
qed

lemma quiet_purge: "replay_mode s \<Longrightarrow> quiet s (snd (purge_entity now i s))"
proof -
  assume r: "replay_mode s"
  have "quiet (t\<lparr>bound := b\<rparr>) ((snd (clear_bindings bits ids ls bs t))\<lparr>bound := b\<rparr>)" for bits ids ls bs t b
  proof (induction bs arbitrary: t)
    case Nil
    then show ?case by simp
  next
    case (Cons c bs)
    let ?u = "snd (clear_fragments bits ids ls (t\<lparr>bound := c\<rparr>))"
    have "quiet (t\<lparr>bound := c\<rparr>) ?u" by (simp add: quiet_clear)
    then show ?case using Cons.IH [of ?u] by (simp add: split_beta quiet_def)
  qed
  from this [where t = s and b = "bound s"] have c: "quiet s (snd (clear_purged_bits bits ids s))" for bits ids
    by (simp add: clear_purged_bits_def split_beta quiet_def)
  have f: "quiet s t \<Longrightarrow> quiet s (fold (log_event now) evs t)" for evs t
    by (induction evs arbitrary: t) (simp_all add: quiet_replay r)
  show ?thesis
    by (simp add: purge_entity_def Let_def split_beta) (rule f, simp add: untrack_paths_of_def delete_rows_def c)
qed

lemmas quiet_ops = quiet_link quiet_unlink quiet_evidence quiet_memory quiet_linkage quiet_purge

lemma quiet_attempt: "(\<And>a s'. r = Inr (a, s') \<Longrightarrow> quiet s s') \<Longrightarrow> quiet s (snd (attempt s r))"
  by (auto simp: attempt_def split: sum.split)

lemma quiet_with_ends: "(\<And>c e. quiet s (snd (f c e))) \<Longrightarrow> quiet s (snd (with_ends x s f))"
  by (simp add: with_ends_def split: option.split)

lemma quiet_with_entity: "(\<And>i. quiet s (f i)) \<Longrightarrow> quiet s (snd (with_entity k n s f))"
  by (simp add: with_entity_def split: option.split)

lemma quiet_body: "replay_mode s \<Longrightarrow> quiet s (snd (apply_event_body now ev s))"
  by (cases ev)
    (auto simp: put_protected_def put_noise_def mark_tracked_def untrack_row_def bind_r_Inr
       intro!: quiet_attempt quiet_with_ends quiet_with_entity quiet_replay split: option.split
       dest: quiet_ops quiet_upsert(1) intro: quiet_ops)

lemma quiet_one:
  assumes "replay_mode s"
  shows "quiet s (snd (apply_one_event now g s))"
proof (cases "\<exists>a p. g_partition g = Some (a # p) \<and> a # p \<noteq> snd (bound s)")
  case True
  then obtain a p where g: "g_partition g = Some (a # p)" "a # p \<noteq> snd (bound s)" by blast
  let ?s = "enter_partition (a # p) s"
  have "facts_log ?s = facts_log s \<and> replay_mode ?s = replay_mode s \<and> log_enabled ?s = log_enabled s"
    by (simp add: enter_partition_def insert_partition_def Let_def split: option.split)
  moreover from this have "quiet ?s (snd (apply_event_body now (g_event g) ?s))" using assms by (simp add: quiet_body)
  ultimately show ?thesis using g by (simp add: apply_one_event_def with_partition_def split_beta quiet_def)
next
  case False
  then have "apply_one_event now g s = apply_event_body now (g_event g) s"
    by (auto simp: apply_one_event_def split: option.split list.split)
  then show ?thesis by (simp add: quiet_body assms)
qed

lemma quiet_events: "replay_mode s \<Longrightarrow> quiet s (snd (snd (apply_events now gs s)))"
proof (induction gs arbitrary: s)
  case Nil
  then show ?case by simp
next
  case (Cons g gs)
  let ?s1 = "snd (apply_one_event now g s)"
  have q: "quiet s ?s1" by (rule quiet_one [OF Cons.prems])
  then have "quiet ?s1 (snd (snd (apply_events now gs ?s1)))" using Cons by (simp add: quiet_def)
  then show ?case using quiet_trans [OF q] by (simp add: split_beta)
qed

section \<open>Windows compose\<close>

lemma apply_events_append:
  "apply_events now (xs @ ys) s =
     (case apply_events now xs s of (n, m, s1) \<Rightarrow>
        (case apply_events now ys s1 of (n', m', s2) \<Rightarrow> (n + n', m + m', s2)))"
  by (induction xs arbitrary: s) (simp_all add: split_beta)

lemma delta_eq:
  assumes "\<not> replay_mode s" "a \<le> b"
  shows "apply_log_delta now a (Some b) s =
    (case apply_events now (drop a (take b (facts_log s))) (s\<lparr>replay_mode := True\<rparr>) of
       (n, m, s1) \<Rightarrow> ((n, m, if facts_log s = [] then 0 else b), s1\<lparr>replay_mode := False\<rparr>))"
proof (cases "facts_log s = [] \<or> a = b")
  case True
  have "s\<lparr>replay_mode := False\<rparr> = s" using assms(1) by simp
  moreover have "drop a (take b (facts_log s)) = []" using True by auto
  ultimately show ?thesis using True assms by (auto simp: apply_log_delta_def Let_def)
next
  case False
  then show ?thesis using assms by (simp add: apply_log_delta_def Let_def)
qed

text \<open>C31. Replaying a window of the log in one go is replaying any two consecutive parts of it: the
  same state, the counts added up. A refresh may therefore stop at any record boundary and
  continue from there.\<close>

theorem delta_windows:
  assumes "\<not> replay_mode s" "a \<le> b" "b \<le> c" "c \<le> length (facts_log s)"
  shows "apply_log_delta now a (Some c) s =
    (case apply_log_delta now a (Some b) s of ((n, m, _), s1) \<Rightarrow>
       (case apply_log_delta now b (Some c) s1 of ((n', m', _), s2) \<Rightarrow> ((n + n', m + m', c), s2)))"
proof -
  let ?evs = "\<lambda>i j. drop i (take j (facts_log s))"
  have ev: "?evs a c = ?evs a b @ ?evs b c"
  proof -
    have "take c (facts_log s) = take b (facts_log s) @ ?evs b c"
      using append_take_drop_id [of b "take c (facts_log s)"] assms(3) by (simp add: min_def)
    from arg_cong [OF this, of "drop a"] show ?thesis using assms by simp
  qed
  obtain n m s1 where e1: "apply_events now (?evs a b) (s\<lparr>replay_mode := True\<rparr>) = (n, m, s1)"
    by (cases "apply_events now (?evs a b) (s\<lparr>replay_mode := True\<rparr>)")
  have "quiet (s\<lparr>replay_mode := True\<rparr>) s1" using quiet_events [of "s\<lparr>replay_mode := True\<rparr>" now "?evs a b"] e1 by simp
  then have q: "facts_log s1 = facts_log s" "replay_mode s1" by (simp_all add: quiet_def)
  then have r: "s1\<lparr>replay_mode := True\<rparr> = s1" by simp
  have c0: "facts_log s = [] \<Longrightarrow> c = 0" using assms(4) by simp
  have d2: "apply_log_delta now b (Some c) (s1\<lparr>replay_mode := False\<rparr>) =
      (case apply_events now (?evs b c) s1 of
         (n, m, s2) \<Rightarrow> ((n, m, if facts_log s = [] then 0 else c), s2\<lparr>replay_mode := False\<rparr>))"
    using delta_eq [of "s1\<lparr>replay_mode := False\<rparr>" b c now] assms(3) q r by simp
  have d1: "apply_log_delta now a (Some b) s =
      ((n, m, if facts_log s = [] then 0 else b), s1\<lparr>replay_mode := False\<rparr>)"
    using delta_eq [OF assms(1,2)] e1 by simp
  have "a \<le> c" using assms by simp
  then show ?thesis
    unfolding delta_eq [OF assms(1) \<open>a \<le> c\<close>] d1 ev apply_events_append e1
    using c0 by (auto simp: d2 split: prod.split)
qed

text \<open>Replay never writes the log it reads and leaves the store bound as it was: no event of the
  window is logged a second time, whatever partitions its events name.\<close>

theorem delta_silent:
  assumes "\<not> replay_mode s"
  shows "facts_log (snd (apply_log_delta now a b s)) = facts_log s \<and>
    bound (snd (apply_log_delta now a b s)) = bound s \<and> \<not> replay_mode (snd (apply_log_delta now a b s))"
proof -
  have "quiet (s\<lparr>replay_mode := True\<rparr>) (snd (snd (apply_events now evs (s\<lparr>replay_mode := True\<rparr>))))" for evs
    by (rule quiet_events) simp
  then show ?thesis using assms by (simp add: apply_log_delta_def Let_def split_beta quiet_def)
qed

section \<open>The legacy rule\<close>

lemma dedup_one: "dedup ks = [k] \<longleftrightarrow> set ks = {k}"
proof
  assume "dedup ks = [k]"
  then show "set ks = {k}" using set_dedup [of ks] by simp
next
  assume "set ks = {k}"
  then have "set (dedup ks) = {k}" "distinct (dedup ks)" by simp_all
  moreover have "distinct xs \<Longrightarrow> set xs = {k} \<Longrightarrow> xs = [k]" for xs
    by (cases xs) (auto simp: subset_singleton_iff dest: arg_cong [where f = set])
  ultimately show "dedup ks = [k]" by blast
qed

lemma resolve_legacy_Some:
  "resolve_legacy_kind ks = Some k \<longleftrightarrow> (if ''concept'' \<in> set ks then k = ''concept'' else set ks = {k})"
  by (auto simp: resolve_legacy_kind_def dedup_one [symmetric] split: list.split)

text \<open>An edge event written before the concept end had a kind names it by name alone. It is
  resolved to the entity of that name in the partition that is a concept, or else to the only
  entity of that name; a name held by several other kinds, or by none, is not resolved.\<close>

theorem replay_concept_legacy:
  assumes "wf_entities s" "x_ckind x = None"
  shows "replay_concept x s = Some e \<longleftrightarrow>
    e \<in> set (entities s) \<and> e_pid e = fst (bound s) \<and> e_name e = x_c x \<and>
    (e_kind e = ''concept'' \<or>
     (\<forall>e2\<in>set (entities s). e_pid e2 = fst (bound s) \<and> e_name e2 = x_c x \<longrightarrow> e2 = e))"
proof -
  let ?here = "\<lambda>e. e \<in> set (entities s) \<and> e_pid e = fst (bound s) \<and> e_name e = x_c x"
  let ?ks = "map e_kind (filter (\<lambda>e. e_pid e = fst (bound s) \<and> e_name e = x_c x) (entities s))"
  have get: "get_entity k (x_c x) s = Some e \<longleftrightarrow> ?here e \<and> e_kind e = k" for k e
  proof
    assume "get_entity k (x_c x) s = Some e"
    then show "?here e \<and> e_kind e = k"
      by (auto simp: get_entity_def find_entity_def entity_key_def dest: find_SomeD)
  next
    assume "?here e \<and> e_kind e = k"
    then show "get_entity k (x_c x) s = Some e"
      using find_key_unique [of entity_key "entities s" e] assms(1)
      by (simp add: get_entity_def find_entity_def wf_entities_def entity_key_def)
  qed
  have one: "?here a \<Longrightarrow> ?here b \<Longrightarrow> e_kind a = e_kind b \<Longrightarrow> a = b" for a b
    using get [of "e_kind a" a] get [of "e_kind a" b] by auto
  have ks: "k \<in> set ?ks \<longleftrightarrow> (\<exists>e. ?here e \<and> e_kind e = k)" for k by auto
  have "replay_concept x s = Some e \<longleftrightarrow> (\<exists>k. resolve_legacy_kind ?ks = Some k \<and> get_entity k (x_c x) s = Some e)"
    using assms(2) by (simp add: replay_concept_def split: option.split)
  also have "\<dots> \<longleftrightarrow> ?here e \<and> (if ''concept'' \<in> set ?ks then e_kind e = ''concept'' else set ?ks = {e_kind e})"
    unfolding resolve_legacy_Some get by auto
  also have "\<dots> \<longleftrightarrow> ?here e \<and> (e_kind e = ''concept'' \<or> (\<forall>e2. ?here e2 \<longrightarrow> e2 = e))"
  proof (cases "?here e")
    case True
    then have "set ?ks = {e_kind e} \<longleftrightarrow> (\<forall>e2. ?here e2 \<longrightarrow> e_kind e2 = e_kind e)" by auto
    also have "\<dots> \<longleftrightarrow> (\<forall>e2. ?here e2 \<longrightarrow> e2 = e)" using one True by blast
    finally have u: "set ?ks = {e_kind e} \<longleftrightarrow> (\<forall>e2. ?here e2 \<longrightarrow> e2 = e)" .
    have "''concept'' \<in> set ?ks \<Longrightarrow> (\<forall>e2. ?here e2 \<longrightarrow> e2 = e) \<Longrightarrow> e_kind e = ''concept''"
      unfolding ks by blast
    moreover have "e_kind e = ''concept'' \<Longrightarrow> ''concept'' \<in> set ?ks" unfolding ks using True by blast
    ultimately show ?thesis using True u by argo
  next
    case False
    then show ?thesis by argo
  qed
  finally show ?thesis by auto
qed

text \<open>Evidence is appended each time it is applied.\<close>

lemma add_evidence_rows:
  assumes "add_evidence now l c e f lno sp d s = Inr s1"
  obtains lid where "lk_find (canonical_verb l) s = Some lid"
    "linkage_evidence s1 = linkage_evidence s @
      [\<lparr>v_entity = e, v_linkage = lid, v_concept = c, v_file = f, v_line = lno, v_span_end = sp, v_detail = d\<rparr>]"
    "entities s1 = entities s" "bound s1 = bound s" "linkage_types s1 = linkage_types s"
proof -
  obtain lid where lid: "get_linkage_id (canonical_verb l) s = Inr lid"
    using assms by (auto simp: add_evidence_def bind_r_Inr Let_def)
  show ?thesis
    by (rule that [of lid]) (use assms lid in \<open>auto simp: add_evidence_def get_linkage_Inr Let_def split: option.splits\<close>)
qed

text \<open>So a window with an evidence event in it is not idempotent.\<close>

lemma lookup_cong:
  assumes "entities s = entities t" "bound s = bound t"
  shows "replay_concept x s = replay_concept x t" "get_entity k n s = get_entity k n t"
  by (simp_all only: assms replay_concept_def get_entity_def find_entity_def)

lemma evidence_replayed_twice:
  assumes "apply_event_body now (EvEvidence x f lno sp d) s = (True, s1)"
  shows "\<exists>row s2. apply_event_body now (EvEvidence x f lno sp d) s1 = (True, s2) \<and>
    linkage_evidence s2 = linkage_evidence s @ [row, row]"
proof -
  obtain c e where ce: "replay_concept x s = Some c" "get_entity (x_ekind x) (x_e x) s = Some e"
    and a: "add_evidence now (x_linkage x) (e_id c) (e_id e) f lno sp d s = Inr s1"
    using assms by (auto simp: with_ends_def attempt_def bind_r_def split: option.splits sum.splits)
  from a obtain lid where l: "lk_find (canonical_verb (x_linkage x)) s = Some lid"
    and r: "linkage_evidence s1 = linkage_evidence s @ [\<lparr>v_entity = e_id e, v_linkage = lid, v_concept = e_id c,
      v_file = f, v_line = lno, v_span_end = sp, v_detail = d\<rparr>]"
    and same: "entities s1 = entities s" "bound s1 = bound s" "linkage_types s1 = linkage_types s"
    by (rule add_evidence_rows)
  have "lk_find (canonical_verb (x_linkage x)) s1 = Some lid" using l same(3) by (simp add: lk_find_def)
  then have l1: "get_linkage_id (canonical_verb (x_linkage x)) s1 = Inr lid" by (simp add: get_linkage_Inr)
  then obtain s2 where a2: "add_evidence now (x_linkage x) (e_id c) (e_id e) f lno sp d s1 = Inr s2"
    by (simp add: add_evidence_def Let_def)
  moreover have "replay_concept x s1 = Some c" "get_entity (x_ekind x) (x_e x) s1 = Some e"
    using ce lookup_cong [OF same(1,2)] by simp_all
  ultimately have "apply_event_body now (EvEvidence x f lno sp d) s1 = (True, s2)"
    by (simp add: with_ends_def attempt_def)
  moreover from a2 have "linkage_evidence s2 = linkage_evidence s1 @ [\<lparr>v_entity = e_id e, v_linkage = lid,
      v_concept = e_id c, v_file = f, v_line = lno, v_span_end = sp, v_detail = d\<rparr>]"
    by (rule add_evidence_rows) (use l1 in \<open>simp add: get_linkage_Inr\<close>)
  ultimately show ?thesis using r by simp
qed

section \<open>Witnesses\<close>

definition two_events :: "log_rec list" where
  "two_events = [\<lparr>g_ts = 1, g_partition = None, g_event = EvEntity ''doc'' ''d'' None None None\<rparr>,
                 \<lparr>g_ts = 2, g_partition = None, g_event = EvProtect ''doc'' ''e'' True\<rparr>]"

definition window_store :: store where
  "window_store = (open_store ''a'')\<lparr>facts_log := two_events\<rparr>"

lemma window_store_simps [simp]: "\<not> replay_mode window_store" "facts_log window_store = two_events"
  by (simp_all add: window_store_def open_store_def ensure_partition_def insert_partition_def fresh_store_def
      partition_id_of_def Let_def)

theorem delta_windows_witness:
  "apply_log_delta 5 0 (Some 2) window_store =
    (case apply_log_delta 5 0 (Some 1) window_store of ((n, m, _), s1) \<Rightarrow>
       (case apply_log_delta 5 1 (Some 2) s1 of ((n', m', _), s2) \<Rightarrow> ((n + n', m + m', 2), s2)))"
  by (rule delta_windows) (simp_all add: two_events_def)

theorem delta_silent_witness:
  "facts_log (snd (apply_log_delta 5 0 None window_store)) = two_events"
  using delta_silent [of window_store 5 0 None] by simp

definition doc_store :: store where
  "doc_store = snd (upsert_row 0 ''doc'' ''d'' None None None False (open_store ''a''))"

theorem replay_concept_legacy_witness:
  "\<exists>e. replay_concept (edge_fields ''mentions'' None ''d'' ''doc'' ''d'') doc_store = Some e \<and> e_kind e = ''doc''"
proof -
  have e: "entities (open_store ''a'') = []"
    by (simp add: open_store_def ensure_partition_def insert_partition_def fresh_store_def partition_id_of_def Let_def)
  then have "wf_entities (open_store ''a'')" by (simp add: wf_entities_def)
  then have wf: "wf_entities doc_store" unfolding doc_store_def by (rule upsert_row_wf) (simp add: kinds_def)
  obtain d where d: "entities doc_store = [d]" "e_kind d = ''doc''" "e_name d = ''d''" "e_pid d = fst (bound doc_store)"
    unfolding doc_store_def using e by (simp add: upsert_row_def Let_def find_entity_def)
  show ?thesis
    using replay_concept_legacy [OF wf, of "edge_fields ''mentions'' None ''d'' ''doc'' ''d''" d] d
    by (simp add: edge_fields_def)
qed

end
