(* ===== verification/Rebuild.thy ===== *)
theory Rebuild
  imports Replay
begin

text \<open>
  The fact log as the source of the catalog (\<open>store.py\<close>): \<open>dump_catalog_to_log\<close> writes the
  current state as a minimal log, and \<open>rebuild_index_from_log\<close> wipes the catalog and replays the
  log into a fresh one. The rebuild sorts the events by time, collapses them to the final state
  of each key (dictionaries in insertion order), resolves legacy edges, and materialises the
  partitions one after another with logging suppressed.

  The columns the replay of a row cannot choose (ids, \<open>created_at\<close>, \<open>updated_at\<close>) are those of
  the new rows.
\<close>

section \<open>A new store\<close>

text \<open>\<open>DEFAULT_LINKAGES\<close>; the \<open>inverse_of\<close> column is not modelled.\<close>

definition default_linkages :: "(string \<times> bool \<times> string) list" where
  "default_linkages =
     [(''mentions'', True, ''entity mentions concept''),
      (''defines'', True, ''entity defines / declares concept''),
      (''calls'', True, ''entity (function) calls concept (function)''),
      (''called_by'', True, ''inverse of calls''),
      (''imports'', True, ''entity imports module/concept''),
      (''is_a'', True, ''concept is a subtype of concept''),
      (''related-to'', False, ''undirected association''),
      (''specifies'', True, ''plan/spec entity specifies concept''),
      (''specified_by'', True, ''inverse of specifies''),
      (''same_as'', False, ''concept is the same as a canonical concept''),
      (''reinforces'', True, ''memory amplifies confidence in a concept''),
      (''contradicts'', True, ''memory undermines confidence in a concept''),
      (''recalls'', True, ''memory references / recalls a concept''),
      (''informs'', True, ''memory provides context informing a concept'')]"

definition seed_linkage :: "string \<times> bool \<times> string \<Rightarrow> store \<Rightarrow> store" where
  "seed_linkage d s =
     (case d of (name, directed, descr) \<Rightarrow>
        if lk_find name s \<noteq> None then s
        else s\<lparr>linkage_types := linkage_types s @
                 [\<lparr>l_id = next_lid s, l_name = name, l_directed = directed, l_description = Some descr\<rparr>],
               next_lid := Suc (next_lid s)\<rparr>)"

definition init_store :: "string \<Rightarrow> store" where
  "init_store name = fold seed_linkage default_linkages (open_store name)"

section \<open>Writing the catalog as a log\<close>

text \<open>SQL's \<open>ORDER BY\<close> puts NULL last.\<close>

definition nulls_last :: "'a option \<Rightarrow> bool \<times> 'a option" where
  "nulls_last x = (x = None, x)"

definition rec_of :: "time \<Rightarrow> string \<Rightarrow> event \<Rightarrow> log_rec" where
  "rec_of t p ev = \<lparr>g_ts = t, g_partition = Some p, g_event = ev\<rparr>"

definition dump_linkages :: "store \<Rightarrow> log_rec list" where
  "dump_linkages s =
     map (\<lambda>r. \<lparr>g_ts = 0, g_partition = None, g_event =
                EvLinkageType (l_name r) (l_directed r) (case l_description r of None \<Rightarrow> [] | Some d \<Rightarrow> d)\<rparr>)
       (filter (\<lambda>r. l_name r \<notin> fst ` set default_linkages) (sort_key l_name (linkage_types s)))"

definition dump_entity :: "string \<Rightarrow> entity \<Rightarrow> log_rec list" where
  "dump_entity p e =
     [rec_of (e_created e) p (EvEntity (e_kind e) (e_name e) (e_path e) (e_tldr e) (e_meta e))] @
     (if e_protected e then [rec_of (e_updated e) p (EvProtect (e_kind e) (e_name e) True)] else []) @
     (if e_noise e then [rec_of (e_updated e) p (EvNoise (e_kind e) (e_name e) True)] else [])"

definition dump_entities :: "nat \<Rightarrow> string \<Rightarrow> store \<Rightarrow> log_rec list" where
  "dump_entities pid p s =
     List.concat (map (dump_entity p)
       (sort_key (\<lambda>e. (e_created e, e_id e)) (filter (\<lambda>e. e_pid e = pid) (entities s))))"

definition entity_in :: "nat \<Rightarrow> nat \<Rightarrow> store \<Rightarrow> entity option" where
  "entity_in pid i s =
     (case get_entity_by_id i s of None \<Rightarrow> None | Some e \<Rightarrow> if e_pid e = pid then Some e else None)"

definition dump_memory :: "nat \<Rightarrow> string \<Rightarrow> store \<Rightarrow> log_rec list" where
  "dump_memory pid p s =
     map (\<lambda>(m, e). rec_of (m_updated m) p
            (EvMemory (e_name e) (m_content m) (if m_mtype m = [] then ''observation'' else m_mtype m)
               (m_tags m) (m_metadata m)))
       (sort_key (\<lambda>(m, e). (m_updated m, e_name e))
         (List.concat (map (\<lambda>m. case entity_in pid (m_entity m) s of None \<Rightarrow> [] | Some e \<Rightarrow> [(m, e)])
           (memory_content s))))"

text \<open>The join of a row of \<open>entity_links\<close> or \<open>linkage_evidence\<close> with its linkage type and its two
  ends, both in the partition.\<close>

definition joined :: "nat \<Rightarrow> nat \<Rightarrow> nat \<Rightarrow> nat \<Rightarrow> store \<Rightarrow> (string \<times> entity \<times> entity) option" where
  "joined pid lid c e s =
     (case (linkage_raw_name lid s, entity_in pid c s, entity_in pid e s) of
        (Some l, Some ce, Some ee) \<Rightarrow> Some (l, ce, ee)
      | _ \<Rightarrow> None)"

definition ends_of :: "string \<Rightarrow> entity \<Rightarrow> entity \<Rightarrow> edge_ends" where
  "ends_of l ce ee = edge_fields l (Some (e_kind ce)) (e_name ce) (e_kind ee) (e_name ee)"

definition dump_links :: "nat \<Rightarrow> string \<Rightarrow> store \<Rightarrow> log_rec list" where
  "dump_links pid p s =
     map (\<lambda>(w, l, ce, ee). rec_of (max (e_updated ce) (e_updated ee)) p (EvLink (ends_of l ce ee) w))
       (sort_key (\<lambda>(w, l, ce, ee). (max (e_updated ce) (e_updated ee), l, e_name ce, e_name ee))
         (List.concat (map (\<lambda>r. case joined pid (k_linkage r) (k_concept r) (k_entity r) s of
                             None \<Rightarrow> [] | Some j \<Rightarrow> [(k_weight r, j)]) (entity_links s))))"

definition dump_evidence :: "nat \<Rightarrow> string \<Rightarrow> store \<Rightarrow> log_rec list" where
  "dump_evidence pid p s =
     map (\<lambda>(v, l, ce, ee). rec_of (max (e_updated ce) (e_updated ee)) p
            (EvEvidence (ends_of l ce ee) (v_file v) (v_line v) (v_span_end v) (v_detail v)))
       (sort_key (\<lambda>(v, l, ce, ee). (max (e_updated ce) (e_updated ee), l, e_name ce, e_name ee,
                                   nulls_last (v_file v), nulls_last (v_line v)))
         (List.concat (map (\<lambda>v. case joined pid (v_linkage v) (v_concept v) (v_entity v) s of
                             None \<Rightarrow> [] | Some j \<Rightarrow> [(v, j)]) (linkage_evidence s))))"

definition dump_tracks :: "nat \<Rightarrow> string \<Rightarrow> store \<Rightarrow> log_rec list" where
  "dump_tracks pid p s =
     map (\<lambda>t. rec_of (t_synced t) p (EvTrack (t_path t) (Some (t_mtime t))))
       (sort_key (\<lambda>t. (t_synced t, t_path t)) (filter (\<lambda>t. t_pid t = pid) (tracked_files s)))"

definition dump_partition :: "store \<Rightarrow> nat \<times> string \<Rightarrow> log_rec list" where
  "dump_partition s b =
     (case b of (pid, p) \<Rightarrow>
        dump_entities pid p s @ dump_memory pid p s @ dump_links pid p s @ dump_evidence pid p s @
        dump_tracks pid p s)"

definition dump_catalog :: "store \<Rightarrow> log_rec list" where
  "dump_catalog s =
     dump_linkages s @ List.concat (map (dump_partition s) (all_bindings s))"

definition dump_catalog_to_log :: "store \<Rightarrow> store" where
  "dump_catalog_to_log s = s\<lparr>facts_log := dump_catalog s\<rparr>"

section \<open>Collapsing the log\<close>

type_synonym ent_key = "string \<times> string \<times> string"
type_synonym edge_key = "string \<times> string \<times> string option \<times> string \<times> string \<times> string"

record ent_state =
  es_path :: "string option"
  es_tldr :: "string option"
  es_meta :: "meta option"
  es_latest :: time

text \<open>\<open>rc_links\<close> and \<open>rc_tracks\<close> hold whether the last event set (link, track) or removed, and its
  weight or modification time.\<close>

record collapsed =
  rc_types :: "(string \<times> (bool \<times> string)) list"
  rc_entities :: "(ent_key \<times> ent_state) list"
  rc_tombs :: "(ent_key \<times> time) list"
  rc_protect :: "(ent_key \<times> (time \<times> bool)) list"
  rc_noise :: "(ent_key \<times> (time \<times> bool)) list"
  rc_links :: "(edge_key \<times> (time \<times> bool \<times> weight option)) list"
  rc_tracks :: "((string \<times> string) \<times> (time \<times> bool \<times> time option)) list"
  rc_evidence :: "(string \<times> event) list"
  rc_memory :: "((string \<times> string) \<times> (time \<times> event)) list"

definition no_events :: collapsed where
  "no_events = \<lparr>rc_types = [], rc_entities = [], rc_tombs = [], rc_protect = [], rc_noise = [],
     rc_links = [], rc_tracks = [], rc_evidence = [], rc_memory = []\<rparr>"

text \<open>Last writer wins: a later time replaces, the same time does not.\<close>

definition lww :: "'k \<Rightarrow> time \<Rightarrow> 'v \<Rightarrow> ('k \<times> (time \<times> 'v)) list \<Rightarrow> ('k \<times> (time \<times> 'v)) list" where
  "lww k t v d =
     (case map_of d k of
        None \<Rightarrow> AList.update k (t, v) d
      | Some (t0, _) \<Rightarrow> if t > t0 then AList.update k (t, v) d else d)"

definition see_type :: "string \<Rightarrow> collapsed \<Rightarrow> collapsed" where
  "see_type l c = (if l = [] then c else c\<lparr>rc_types := dict_setdefault l (True, []) (rc_types c)\<rparr>)"

definition see_entity :: "ent_key \<Rightarrow> time \<Rightarrow> string option \<Rightarrow> string option \<Rightarrow> meta option \<Rightarrow> collapsed \<Rightarrow> collapsed" where
  "see_entity k t path tldr meta c =
     (let cur = (case map_of (rc_entities c) k of
                   None \<Rightarrow> \<lparr>es_path = None, es_tldr = None, es_meta = None, es_latest = 0\<rparr> | Some x \<Rightarrow> x)
      in c\<lparr>rc_entities := AList.update k
             \<lparr>es_path = coalesce path (es_path cur), es_tldr = coalesce tldr (es_tldr cur),
              es_meta = coalesce meta (es_meta cur), es_latest = max (es_latest cur) t\<rparr> (rc_entities c)\<rparr>)"

definition edge_key_of :: "string \<Rightarrow> edge_ends \<Rightarrow> edge_key" where
  "edge_key_of p x = (p, x_linkage x, x_ckind x, x_c x, x_ekind x, x_e x)"

definition event_part :: "string \<Rightarrow> log_rec \<Rightarrow> string" where
  "event_part dpart g = (case g_partition g of Some (a # p) \<Rightarrow> a # p | _ \<Rightarrow> dpart)"

fun see :: "string \<Rightarrow> time \<Rightarrow> event \<Rightarrow> collapsed \<Rightarrow> collapsed" where
  "see p t (EvLinkageType name directed descr) c =
     (let cur = (case map_of (rc_types c) name of None \<Rightarrow> (True, []) | Some x \<Rightarrow> x)
      in c\<lparr>rc_types := AList.update name (directed, if descr = [] then snd cur else descr) (rc_types c)\<rparr>)"
| "see p t (EvEntity kind name path tldr meta) c = see_entity (p, kind, name) t path tldr meta c"
| "see p t (EvTombstone kind name) c =
     (if t > (case map_of (rc_tombs c) (p, kind, name) of None \<Rightarrow> -1 | Some t0 \<Rightarrow> t0)
      then c\<lparr>rc_tombs := AList.update (p, kind, name) t (rc_tombs c)\<rparr> else c)"
| "see p t (EvProtect kind name v) c = c\<lparr>rc_protect := lww (p, kind, name) t v (rc_protect c)\<rparr>"
| "see p t (EvNoise kind name v) c = c\<lparr>rc_noise := lww (p, kind, name) t v (rc_noise c)\<rparr>"
| "see p t (EvLink x w) c =
     (let c1 = see_type (x_linkage x) c in c1\<lparr>rc_links := lww (edge_key_of p x) t (True, w) (rc_links c1)\<rparr>)"
| "see p t (EvUnlink x) c =
     (let c1 = see_type (x_linkage x) c in c1\<lparr>rc_links := lww (edge_key_of p x) t (False, None) (rc_links c1)\<rparr>)"
| "see p t (EvEvidence x f lno sp d) c =
     (let c1 = see_type (x_linkage x) c in c1\<lparr>rc_evidence := rc_evidence c1 @ [(p, EvEvidence x f lno sp d)]\<rparr>)"
| "see p t (EvTrack path mtime) c = c\<lparr>rc_tracks := lww (p, path) t (True, mtime) (rc_tracks c)\<rparr>"
| "see p t (EvUntrack path) c = c\<lparr>rc_tracks := lww (p, path) t (False, None) (rc_tracks c)\<rparr>"
| "see p t (EvMemory name content mtype tags metadata) c =
     c\<lparr>rc_memory := lww (p, name) t (EvMemory name content mtype tags metadata) (rc_memory c)\<rparr>"

definition collapse :: "string \<Rightarrow> log_rec list \<Rightarrow> collapsed" where
  "collapse dpart gs =
     fold (\<lambda>g. see (event_part dpart g) (g_ts g) (g_event g)) (sort_key g_ts gs) no_events"

section \<open>Legacy edges\<close>

type_synonym full_key = "string \<times> string \<times> string \<times> string \<times> string \<times> string"

definition kinds_named :: "string \<Rightarrow> string \<Rightarrow> collapsed \<Rightarrow> string list" where
  "kinds_named p n c =
     map (\<lambda>((_, k, _), _). k) (filter (\<lambda>((p', _, n'), _). p' = p \<and> n' = n) (rc_entities c))"

text \<open>The edges with both kinds known, and how many links could not be resolved.\<close>

definition resolve_link ::
  "collapsed \<Rightarrow> edge_key \<times> (time \<times> bool \<times> weight option) \<Rightarrow>
     nat \<times> (full_key \<times> (time \<times> bool \<times> weight option)) list \<Rightarrow>
     nat \<times> (full_key \<times> (time \<times> bool \<times> weight option)) list" where
  "resolve_link c kv acc =
     (case (kv, acc) of (((p, l, ck, cn, ek, en), t, v), (n, d)) \<Rightarrow>
        (case (case ck of Some k \<Rightarrow> Some k | None \<Rightarrow> resolve_legacy_kind (kinds_named p cn c)) of
           None \<Rightarrow> (if fst v then Suc n else n, d)
         | Some k \<Rightarrow> (n, lww (p, l, k, cn, ek, en) t v d)))"

definition resolve_links :: "collapsed \<Rightarrow> nat \<times> (full_key \<times> (time \<times> bool \<times> weight option)) list" where
  "resolve_links c = fold (resolve_link c) (rc_links c) (0, [])"

text \<open>An evidence event with the kind of its concept end, or a count of one.\<close>

definition resolve_evidence :: "collapsed \<Rightarrow> nat \<times> (string \<times> string \<times> event) list" where
  "resolve_evidence c =
     fold (\<lambda>(p, ev) (n, out).
        case ev of
          EvEvidence x f lno sp d \<Rightarrow>
            (case (case x_ckind x of Some (a # k) \<Rightarrow> Some (a # k)
                   | _ \<Rightarrow> resolve_legacy_kind (kinds_named p (x_c x) c)) of
               None \<Rightarrow> (Suc n, out)
             | Some k \<Rightarrow> (n, out @ [(p, k, ev)]))
        | _ \<Rightarrow> (n, out)) (rc_evidence c) (0, [])"

section \<open>Materialising a partition\<close>

fun fold_r :: "('a \<Rightarrow> 's \<Rightarrow> 's result) \<Rightarrow> 'a list \<Rightarrow> 's \<Rightarrow> 's result" where
  "fold_r f [] s = Inr s"
| "fold_r f (x # xs) s = bind_r (f x s) (fold_r f xs)"

record counts =
  n_entities :: nat
  n_links :: nat
  n_evidence :: nat
  n_tracked :: nat
  n_memory :: nat
  n_links_dead :: nat
  n_evidence_dead :: nat

type_synonym name_ids = "((string \<times> string) \<times> nat) list"

definition outlives :: "collapsed \<Rightarrow> ent_key \<Rightarrow> ent_state \<Rightarrow> bool" where
  "outlives c k st = (case map_of (rc_tombs c) k of None \<Rightarrow> True | Some t \<Rightarrow> \<not> t \<ge> es_latest st)"

definition live_entities :: "string \<Rightarrow> collapsed \<Rightarrow> ((string \<times> string) \<times> ent_state) list" where
  "live_entities p c =
     map (\<lambda>((_, k, n), st). ((k, n), st)) (filter (\<lambda>(key, st). fst key = p \<and> outlives c key st) (rc_entities c))"

definition put_live :: "time \<Rightarrow> (string \<times> string) \<times> ent_state \<Rightarrow> name_ids \<times> store \<Rightarrow> (name_ids \<times> store) result" where
  "put_live now x acc =
     (case (x, acc) of (((k, n), st), (ids, s)) \<Rightarrow>
        bind_r (upsert_entity now k n (es_path st) (es_tldr st) (es_meta st) False s) (\<lambda>(i, s1).
          Inr (AList.update (k, n) i ids, s1)))"

definition put_flags :: "(nat \<Rightarrow> bool \<Rightarrow> store \<Rightarrow> store) \<Rightarrow> string \<Rightarrow> name_ids \<Rightarrow> (ent_key \<times> (time \<times> bool)) list \<Rightarrow> store \<Rightarrow> store" where
  "put_flags put p ids xs s =
     fold (\<lambda>((p', k, n), (_, v)) s.
       if p' \<noteq> p then s else case map_of ids (k, n) of None \<Rightarrow> s | Some i \<Rightarrow> put i v s) xs s"

definition put_edge ::
  "time \<Rightarrow> string \<Rightarrow> name_ids \<Rightarrow> full_key \<times> (time \<times> bool \<times> weight option) \<Rightarrow> nat \<times> nat \<times> store \<Rightarrow>
     (nat \<times> nat \<times> store) result" where
  "put_edge now p ids x acc =
     (case (x, acc) of (((p', l, ck, cn, ek, en), (_, on, w)), (made, dead, s)) \<Rightarrow>
        if p' \<noteq> p \<or> \<not> on then Inr acc
        else case (map_of ids (ck, cn), map_of ids (ek, en)) of
               (Some c, Some e) \<Rightarrow>
                 bind_r (link now l c e w False s) (\<lambda>(_, s1). Inr (Suc made, dead, s1))
             | _ \<Rightarrow> Inr (made, Suc dead, s))"

definition put_evidence ::
  "time \<Rightarrow> string \<Rightarrow> name_ids \<Rightarrow> string \<times> string \<times> event \<Rightarrow> nat \<times> nat \<times> store \<Rightarrow> (nat \<times> nat \<times> store) result" where
  "put_evidence now p ids x acc =
     (case (x, acc) of ((p', ck, ev), (made, dead, s)) \<Rightarrow>
        if p' \<noteq> p then Inr acc
        else case ev of
          EvEvidence x f lno sp d \<Rightarrow>
            (case (map_of ids (ck, x_c x), map_of ids (x_ekind x, x_e x)) of
               (Some c, Some e) \<Rightarrow>
                 bind_r (add_evidence now (x_linkage x) c e f lno sp d s) (\<lambda>s1. Inr (Suc made, dead, s1))
             | _ \<Rightarrow> Inr (made, Suc dead, s))
        | _ \<Rightarrow> Inr acc)"

definition put_track ::
  "time \<Rightarrow> string \<Rightarrow> (string \<times> string) \<times> (time \<times> bool \<times> time option) \<Rightarrow> nat \<times> store \<Rightarrow> nat \<times> store" where
  "put_track now p x acc =
     (case (x, acc) of (((p', path), (_, on, mtime)), (n, s)) \<Rightarrow>
        if p' = p \<and> on then (case mtime of None \<Rightarrow> acc | Some m \<Rightarrow> (Suc n, mark_tracked now path m s)) else acc)"

definition put_body ::
  "time \<Rightarrow> string \<Rightarrow> name_ids \<Rightarrow> (string \<times> string) \<times> (time \<times> event) \<Rightarrow> nat \<times> store \<Rightarrow> (nat \<times> store) result" where
  "put_body now p ids x acc =
     (case (x, acc) of (((p', name), (_, ev)), (n, s)) \<Rightarrow>
        if p' \<noteq> p \<or> map_of ids (''memory'', name) = None then Inr acc
        else case ev of
          EvMemory _ content mtype tags metadata \<Rightarrow>
            bind_r (add_memory now name content mtype tags metadata False s) (\<lambda>(_, s1). Inr (Suc n, s1))
        | _ \<Rightarrow> Inr acc)"

definition materialize ::
  "time \<Rightarrow> collapsed \<Rightarrow> (full_key \<times> (time \<times> bool \<times> weight option)) list \<Rightarrow> (string \<times> string \<times> event) list \<Rightarrow>
     string \<Rightarrow> counts \<times> store \<Rightarrow> (counts \<times> store) result" where
  "materialize now c links evs p acc =
     (case acc of (m, s0) \<Rightarrow>
        bind_r (fold_r (put_live now) (live_entities p c) ([], enter_partition p s0)) (\<lambda>(ids, s1).
          let s2 = put_flags put_noise p ids (rc_noise c) (put_flags put_protected p ids (rc_protect c) s1) in
          bind_r (fold_r (put_edge now p ids) links (0, 0, s2)) (\<lambda>(made, dead, s3).
          bind_r (fold_r (put_evidence now p ids) evs (0, 0, s3)) (\<lambda>(vmade, vdead, s4).
            let (nt, s5) = fold (put_track now p) (rc_tracks c) (0, s4) in
            bind_r (fold_r (put_body now p ids) (rc_memory c) (0, s5)) (\<lambda>(nm, s6).
              Inr (\<lparr>n_entities = n_entities m + length ids, n_links = n_links m + made,
                     n_evidence = n_evidence m + vmade, n_tracked = n_tracked m + nt,
                     n_memory = n_memory m + nm, n_links_dead = n_links_dead m + dead,
                     n_evidence_dead = n_evidence_dead m + vdead\<rparr>,
                   s6\<lparr>bound := bound s0\<rparr>))))))"

definition replay_parts :: "collapsed \<Rightarrow> string list" where
  "replay_parts c = sort (dedup (map (\<lambda>(k, _). fst k) (rc_entities c) @ map (\<lambda>(k, _). fst k) (rc_tracks c)))"

definition register_types :: "time \<Rightarrow> collapsed \<Rightarrow> store \<Rightarrow> store" where
  "register_types now c s =
     fold (\<lambda>(l, (directed, descr)) s. snd (add_linkage_type now l directed (or_none descr) s)) (rc_types c) s"

record rebuild_report =
  rr_counts :: counts
  rr_events :: nat
  rr_links_unresolved :: nat
  rr_evidence_unresolved :: nat

text \<open>The catalog and its fragments are wiped; the log, its switch and the configured partition
  remain. A missing log is \<open>FileNotFoundError\<close>.\<close>

definition wiped :: "store \<Rightarrow> store" where
  "wiped s = (init_store (snd (bound s)))\<lparr>facts_log := facts_log s, log_enabled := log_enabled s\<rparr>"

definition rebuild_index_from_log :: "time \<Rightarrow> store \<Rightarrow> (rebuild_report \<times> store) result" where
  "rebuild_index_from_log now s =
     (if facts_log s = [] then Inl (RuntimeErr ''FileNotFoundError: facts.log'')
      else
        let c = collapse (snd (bound s)) (facts_log s);
            (lun, links) = resolve_links c;
            (eun, evs) = resolve_evidence c;
            s1 = register_types now c ((wiped s)\<lparr>replay_mode := True\<rparr>)
        in bind_r (fold_r (materialize now c links evs) (replay_parts c)
                     (\<lparr>n_entities = 0, n_links = 0, n_evidence = 0, n_tracked = 0, n_memory = 0,
                       n_links_dead = 0, n_evidence_dead = 0\<rparr>, s1)) (\<lambda>(m, s2).
             Inr (\<lparr>rr_counts = m, rr_events = length (facts_log s), rr_links_unresolved = lun,
                    rr_evidence_unresolved = eun\<rparr>,
                  flush_fragments (s2\<lparr>replay_mode := False\<rparr>))))"

end
