(* ===== verification/RebuildFacts.thy ===== *)
theory RebuildFacts
  imports Rebuild
begin

text \<open>
  What a rebuild produces: the facts of a store by name, partition by partition, and the proof
  that the rebuilt store holds exactly the facts of the collapsed log.
\<close>

section \<open>The entities of a partition\<close>

text \<open>The row a live entity of the log gets in a fresh partition.\<close>

definition new_row :: "time \<Rightarrow> nat \<Rightarrow> nat \<Rightarrow> (string \<times> string) \<times> ent_state \<Rightarrow> entity" where
  "new_row now pid i x =
     \<lparr>e_id = i, e_pid = pid, e_kind = fst (fst x), e_path = es_path (snd x), e_name = snd (fst x),
      e_tldr = es_tldr (snd x), e_meta = meta_column (es_meta (snd x)), e_created = now, e_updated = now,
      e_protected = False, e_noise = False, e_canonical = canonical_for_kind (fst (fst x)) (snd (fst x))\<rparr>"

lemma new_row_simps [simp]:
  "e_id (new_row now pid i x) = i" "e_pid (new_row now pid i x) = pid"
  "e_kind (new_row now pid i x) = fst (fst x)" "e_name (new_row now pid i x) = snd (fst x)"
  "entity_key (new_row now pid i x) = (pid, fst x)"
  by (simp_all add: new_row_def entity_key_def)

abbreviation new_rows where
  "new_rows now pid i L \<equiv> map (\<lambda>(j, x). new_row now pid j x) (List.enumerate i L)"

abbreviation new_ids where
  "new_ids i L \<equiv> map (\<lambda>(j, x). (fst x, j)) (List.enumerate i L)"

lemma update_absent: "k \<notin> fst ` set d \<Longrightarrow> AList.update k v d = d @ [(k, v)]"
  by (induction d) auto

lemma upsert_fresh:
  assumes "find_entity (fst (bound s)) k n s = None" "k \<in> set kinds" "replay_mode s"
  shows "\<exists>cs. upsert_entity now k n (es_path st) (es_tldr st) (es_meta st) False s =
    Inr (next_eid s, s\<lparr>entities := entities s @ [new_row now (fst (bound s)) (next_eid s) ((k, n), st)],
                      next_eid := Suc (next_eid s), concepts := cs\<rparr>)"
proof -
  let ?t = "s\<lparr>entities := entities s @ [new_row now (fst (bound s)) (next_eid s) ((k, n), st)],
              next_eid := Suc (next_eid s)\<rparr>"
  have "upsert_row now k n (es_path st) (es_tldr st) (meta_column (es_meta st)) False s =
      (next_eid s, s\<lparr>entities := entities s @ [new_row now (fst (bound s)) (next_eid s) ((k, n), st)],
                    next_eid := Suc (next_eid s)\<rparr>)"
    using assms(1) by (simp add: upsert_row_def Let_def new_row_def)
  then have u: "upsert_entity now k n (es_path st) (es_tldr st) (es_meta st) False s =
      Inr (next_eid s, if k = ''concept'' then insert_concept_row (next_eid s) (meta_description (es_meta st)) ?t else ?t)"
    using assms(2,3) by (simp add: upsert_entity_def Let_def insert_concept_row_def)
  show ?thesis
  proof (cases "k = ''concept'' \<and> next_eid s \<notin> fst ` set (concepts s)")
    case True
    then show ?thesis unfolding u by (simp add: insert_concept_row_def) blast
  next
    case False
    then show ?thesis unfolding u by (intro exI [of _ "concepts s"]) (auto simp: insert_concept_row_def)
  qed
qed

lemma put_live_all:
  assumes "replay_mode s" "distinct (map fst L)" "\<forall>x\<in>set L. fst (fst x) \<in> set kinds"
    "\<forall>x\<in>set L. find_entity (fst (bound s)) (fst (fst x)) (snd (fst x)) s = None"
    "fst ` set L \<inter> fst ` set ids = {}"
  shows "\<exists>cs. fold_r (put_live now) L (ids, s) =
    Inr (ids @ new_ids (next_eid s) L,
         s\<lparr>entities := entities s @ new_rows now (fst (bound s)) (next_eid s) L,
           next_eid := next_eid s + length L, concepts := cs\<rparr>)"
  using assms
proof (induction L arbitrary: ids s)
  case Nil
  then show ?case by (intro exI [of _ "concepts s"]) simp
next
  case (Cons x L)
  obtain k n st where x: "x = ((k, n), st)" by (cases x) auto
  let ?r = "new_row now (fst (bound s)) (next_eid s) x"
  have none: "find_entity (fst (bound s)) k n s = None" and kind: "k \<in> set kinds"
    using Cons.prems(3,4) x by simp_all
  obtain cs where u: "upsert_entity now k n (es_path st) (es_tldr st) (es_meta st) False s =
      Inr (next_eid s, s\<lparr>entities := entities s @ [?r], next_eid := Suc (next_eid s), concepts := cs\<rparr>)"
    using upsert_fresh [OF none kind Cons.prems(1), of now st] x by blast
  let ?s1 = "s\<lparr>entities := entities s @ [?r], next_eid := Suc (next_eid s), concepts := cs\<rparr>"
  let ?ids1 = "ids @ [((k, n), next_eid s)]"
  have "AList.update (k, n) (next_eid s) ids = ?ids1"
    using Cons.prems(5) x by (intro update_absent) force
  then have step: "put_live now x (ids, s) = Inr (?ids1, ?s1)" using u by (simp add: put_live_def x)
  have "\<forall>y\<in>set L. find_entity (fst (bound ?s1)) (fst (fst y)) (snd (fst y)) ?s1 = None"
    using Cons.prems(2,4) x by (auto simp: find_entity_def find_key_append)
  then obtain ds where "fold_r (put_live now) L (?ids1, ?s1) =
      Inr (?ids1 @ new_ids (next_eid ?s1) L,
         ?s1\<lparr>entities := entities ?s1 @ new_rows now (fst (bound ?s1)) (next_eid ?s1) L,
           next_eid := next_eid ?s1 + length L, concepts := ds\<rparr>)"
    using Cons.IH [of ?s1 ?ids1] Cons.prems x by auto
  then show ?case using step by (intro exI [of _ ds]) (simp add: x)
qed

text \<open>The ids given are those of the new rows.\<close>

lemma map_of_new_ids:
  assumes "distinct (map fst L)"
  shows "map_of (new_ids i L) kn = Some j \<longleftrightarrow> (\<exists>x. (j, x) \<in> set (List.enumerate i L) \<and> fst x = kn)"
proof -
  have "map fst (new_ids i L) = map fst L"
    by (induction L arbitrary: i) simp_all
  then have "map_of (new_ids i L) kn = Some j \<longleftrightarrow> (kn, j) \<in> set (new_ids i L)"
    using assms by (subst map_of_eq_Some_iff) simp_all
  also have "\<dots> \<longleftrightarrow> (\<exists>x. (j, x) \<in> set (List.enumerate i L) \<and> fst x = kn)"
    by (auto simp: image_iff intro!: bexI)
  finally show ?thesis .
qed

section \<open>Flags\<close>

definition flag :: "(ent_key \<times> (time \<times> bool)) list \<Rightarrow> ent_key \<Rightarrow> bool \<Rightarrow> bool" where
  "flag d k old = (case map_of d k of None \<Rightarrow> old | Some (_, v) \<Rightarrow> v)"

lemma put_flags_eq:
  assumes put: "\<And>i v s. put i v s = s\<lparr>entities := map (\<lambda>e. if e_id e = i then upd v e else e) (entities s)\<rparr>"
    and upd: "\<And>v e. e_id (upd v e) = e_id e" "\<And>v e. e_kind (upd v e) = e_kind e"
      "\<And>v e. e_name (upd v e) = e_name e" "\<And>v w e. upd v (upd w e) = upd v e"
      "\<And>e. upd (get e) e = e" "\<And>v e. get (upd v e) = v"
    and ids: "\<forall>e\<in>set (entities s). \<forall>kn. map_of ids kn = Some (e_id e) \<longrightarrow> kn = (e_kind e, e_name e)"
    and dis: "distinct (map fst xs)"
  shows "put_flags put p ids xs s = s\<lparr>entities := map (\<lambda>e.
    if map_of ids (e_kind e, e_name e) = Some (e_id e) then upd (flag xs (p, e_kind e, e_name e) (get e)) e else e)
    (entities s)\<rparr>"
  using ids dis
proof (induction xs arbitrary: s)
  case Nil
  then show ?case by (simp add: put_flags_def flag_def upd(5) cong: if_cong)
next
  case (Cons x xs)
  obtain p' k n t v where x: "x = ((p', k, n), (t, v))" by (cases x) auto
  let ?F = "\<lambda>xs e. if map_of ids (e_kind e, e_name e) = Some (e_id e)
      then upd (flag xs (p, e_kind e, e_name e) (get e)) e else e"
  let ?s1 = "if p' \<noteq> p then s else case map_of ids (k, n) of None \<Rightarrow> s | Some i \<Rightarrow> put i v s"
  have new: "map_of xs (p', k, n) = None" using Cons.prems(2) x by (simp add: map_of_eq_None_iff)
  have step: "put_flags put p ids (x # xs) s = put_flags put p ids xs ?s1"
    by (simp add: put_flags_def x)
  have ids1: "\<forall>e\<in>set (entities ?s1). \<forall>kn. map_of ids kn = Some (e_id e) \<longrightarrow> kn = (e_kind e, e_name e)"
  proof (cases "p' \<noteq> p \<or> map_of ids (k, n) = None")
    case True
    then show ?thesis using Cons.prems(1) by auto
  next
    case False
    then obtain i where "map_of ids (k, n) = Some i" "p' = p" by blast
    then have s1: "set (entities ?s1) = (\<lambda>e. if e_id e = i then upd v e else e) ` set (entities s)"
      by (simp add: put)
    show ?thesis
    proof (intro ballI allI impI)
      fix e kn assume "e \<in> set (entities ?s1)" and m: "map_of ids kn = Some (e_id e)"
      then obtain x where x: "x \<in> set (entities s)" "e = (if e_id x = i then upd v x else x)" unfolding s1 by blast
      then have "e_id e = e_id x" "e_kind e = e_kind x" "e_name e = e_name x" by (simp_all add: upd)
      with Cons.prems(1) x(1) m show "kn = (e_kind e, e_name e)" by metis
    qed
  qed
  have "map (?F xs) (entities ?s1) = map (?F (x # xs)) (entities s)"
  proof (cases "p' = p \<and> (\<exists>i. map_of ids (k, n) = Some i)")
    case False
    have "?F xs e = ?F (x # xs) e" for e using False by (auto simp: flag_def x)
    then show ?thesis using False by (auto split: option.split)
  next
    case True
    then obtain i where i: "map_of ids (k, n) = Some i" and p': "p' = p" by blast
    have "?F xs (if e_id e = i then upd v e else e) = ?F (x # xs) e" if e: "e \<in> set (entities s)" for e
    proof (cases "e_id e = i")
      case True
      then have kn: "e_kind e = k" "e_name e = n" using Cons.prems(1) e i by auto
      show ?thesis using True new i by (simp add: kn upd flag_def x p')
    next
      case False
      then have "(p, e_kind e, e_name e) = (p', k, n) \<Longrightarrow> map_of ids (e_kind e, e_name e) \<noteq> Some (e_id e)"
        using i by auto
      then show ?thesis using False by (auto simp: flag_def x)
    qed
    then show ?thesis using i p' by (simp add: put)
  qed
  moreover have "?s1\<lparr>entities := z\<rparr> = s\<lparr>entities := z\<rparr>" for z
    by (simp add: put split: option.split)
  ultimately show ?case unfolding step using Cons.IH [OF ids1] Cons.prems(2) by simp
qed

section \<open>Edges\<close>

text \<open>A step that writes links changes the forward index and the fragment caches only.\<close>

definition edges_only :: "store \<Rightarrow> store \<Rightarrow> bool" where
  "edges_only s t = (t = s\<lparr>entity_links := entity_links t, cache := cache t, dirty := dirty t\<rparr>)"

lemma edges_only_fields:
  assumes "edges_only s t"
  shows "partitions t = partitions s" "next_pid t = next_pid s" "entities t = entities s" "disk t = disk s"
    "concepts t = concepts s" "linkage_types t = linkage_types s" "bound t = bound s"
    "memory_content t = memory_content s" "tracked_files t = tracked_files s" "next_lid t = next_lid s"
    "next_eid t = next_eid s" "link_buffer t = link_buffer s" "facts_log t = facts_log s"
    "log_enabled t = log_enabled s" "replay_mode t = replay_mode s" "linkage_evidence t = linkage_evidence s"
  by (subst assms [unfolded edges_only_def], simp)+

lemma edges_only_trans: "edges_only s t \<Longrightarrow> edges_only t u \<Longrightarrow> edges_only s u"
  unfolding edges_only_def by (erule ssubst, erule ssubst) simp

lemma edges_only_refl [simp]: "edges_only s s"
  by (simp add: edges_only_def)

lemma edges_only_set_bit: "edges_only s ((snd (set_bit_new l v s))\<lparr>entity_links := x\<rparr>)"
  by (simp add: edges_only_def set_bit_new_def load_fragment_def mutate_fragment_def mark_dirty_def Let_def split_beta
      split: option.split)

lemma link_replay:
  assumes "graph_inv s" "replay_mode s" "lk_find l s = Some lid" "e < 2 ^ 32"
    "(e, lid, c) \<notin> link_key ` set (entity_links s)"
  obtains r s' where "link now l c e w False s = Inr (r, s')" "graph_inv s'" "edges_only s s'"
    "entity_links s' = entity_links s @ [\<lparr>k_entity = e, k_linkage = lid, k_concept = c, k_weight = w\<rparr>]"
proof -
  have nb: "link_buffer s = None" and wl: "wf_linkages s" using assms(1) by (simp_all add: graph_inv_def)
  have cl: "canonical_verb l = l" using lk_find_Some [OF assms(3)] wl by (auto simp: wf_linkages_def)
  have g: "get_linkage_id l s = Inr lid" using assms(3) by (simp add: get_linkage_Inr cl)
  let ?row = "\<lparr>k_entity = e, k_linkage = lid, k_concept = c, k_weight = w\<rparr>"
  let ?t = "(snd (set_bit_new l (pack c e) s))\<lparr>entity_links := entity_links s @ [?row]\<rparr>"
  have e: "edges_only s ?t" by (rule edges_only_set_bit)
  then have "replay_mode ?t" using assms(2) by (simp add: edges_only_fields)
  then have l: "link now l c e w False s = Inr (fst (set_bit_new l (pack c e) s), ?t)"
    using nb g assms(5) by (simp add: link_def cl Let_def split_beta put_link_row_def split: option.split)
  show ?thesis by (rule that [OF l graph_inv_link [OF assms(1) l assms(4)] e]) simp
qed

definition edge_rows :: "string \<Rightarrow> name_ids \<Rightarrow> store \<Rightarrow> full_key \<times> (time \<times> bool \<times> weight option) \<Rightarrow> link_row list" where
  "edge_rows p ids s x =
     (case x of ((p', l, ck, cn, ek, en), (_, on, w)) \<Rightarrow>
        if p' = p \<and> on then
          (case (map_of ids (ck, cn), map_of ids (ek, en), lk_find l s) of
             (Some c, Some e, Some lid) \<Rightarrow> [\<lparr>k_entity = e, k_linkage = lid, k_concept = c, k_weight = w\<rparr>]
           | _ \<Rightarrow> [])
        else [])"

definition ids_ok :: "name_ids \<Rightarrow> bool" where
  "ids_ok ids = (\<forall>a i. map_of ids a = Some i \<longrightarrow> i < 2 ^ 32 \<and> (\<forall>b. map_of ids b = Some i \<longrightarrow> b = a))"

lemma edge_rows_cong:
  assumes "linkage_types t = linkage_types s"
  shows "edge_rows p ids t = edge_rows p ids s"
proof -
  have "lk_find l t = lk_find l s" for l using assms by (rule lk_find_cong)
  then show ?thesis unfolding edge_rows_def by presburger
qed

lemma in_rows:
  "r \<in> set (if b then (case (x, y, z) of (Some c, Some e, Some l) \<Rightarrow> [f c e l] | _ \<Rightarrow> []) else []) \<longleftrightarrow>
    b \<and> (\<exists>c e l. x = Some c \<and> y = Some e \<and> z = Some l \<and> r = f c e l)"
  by (cases b; cases x; cases y; cases z) simp_all

lemma in_edge_rows:
  "r \<in> set (edge_rows p ids s ((p', l, ck, cn, ek, en), t, on, w)) \<longleftrightarrow>
    (p' = p \<and> on) \<and> (\<exists>c e lid. map_of ids (ck, cn) = Some c \<and> map_of ids (ek, en) = Some e \<and>
      lk_find l s = Some lid \<and> r = \<lparr>k_entity = e, k_linkage = lid, k_concept = c, k_weight = w\<rparr>)"
  unfolding edge_rows_def prod.case by (rule in_rows [unfolded prod.case])

lemma edge_rows_inj:
  assumes "wf_linkages s" "ids_ok ids" "r \<in> set (edge_rows p ids s x)" "r' \<in> set (edge_rows p ids s y)"
    "link_key r = link_key r'"
  shows "fst x = fst y"
proof -
  obtain p1 l1 ck1 cn1 ek1 en1 t1 on1 w1 where x: "x = ((p1, l1, ck1, cn1, ek1, en1), t1, on1, w1)" by (cases x) auto
  obtain p2 l2 ck2 cn2 ek2 en2 t2 on2 w2 where y: "y = ((p2, l2, ck2, cn2, ek2, en2), t2, on2, w2)" by (cases y) auto
  obtain c e lid where r: "r = \<lparr>k_entity = e, k_linkage = lid, k_concept = c, k_weight = w1\<rparr>" "p1 = p"
    "map_of ids (ck1, cn1) = Some c" "map_of ids (ek1, en1) = Some e" "lk_find l1 s = Some lid"
    using assms(3) unfolding x in_edge_rows by blast
  obtain c' e' lid' where r': "r' = \<lparr>k_entity = e', k_linkage = lid', k_concept = c', k_weight = w2\<rparr>" "p2 = p"
    "map_of ids (ck2, cn2) = Some c'" "map_of ids (ek2, en2) = Some e'" "lk_find l2 s = Some lid'"
    using assms(4) unfolding y in_edge_rows by blast
  have "c = c'" "e = e'" "lid = lid'" using assms(5) r(1) r'(1) by (simp_all add: link_key_def)
  then have "(ck1, cn1) = (ck2, cn2)" "(ek1, en1) = (ek2, en2)" "l1 = l2"
    using assms(2) r(3,4) r'(3,4) lk_find_inj [OF assms(1) r(5)] r'(5) unfolding ids_ok_def by metis+
  then show ?thesis using r(2) r'(2) by (simp add: x y)
qed

lemma put_edges_all:
  assumes "graph_inv s" "replay_mode s" "ids_ok ids" "distinct (map fst xs)"
    "\<forall>x\<in>set xs. lk_find (fst (snd (fst x))) s \<noteq> None"
    "\<forall>x\<in>set xs. link_key ` set (edge_rows p ids s x) \<inter> link_key ` set (entity_links s) = {}"
  shows "\<exists>m d s'. fold_r (put_edge now p ids) xs (m0, d0, s) = Inr (m, d, s') \<and> graph_inv s' \<and> edges_only s s' \<and>
    entity_links s' = entity_links s @ List.concat (map (edge_rows p ids s) xs)"
  using assms
proof (induction xs arbitrary: s m0 d0)
  case Nil
  then show ?case by simp
next
  case (Cons x xs)
  obtain p' l ck cn ek en t on w where x: "x = ((p', l, ck, cn, ek, en), t, on, w)" by (cases x) auto
  obtain lid where lid: "lk_find l s = Some lid" using Cons.prems(5) x by auto
  have "\<exists>m1 d1 s1. put_edge now p ids x (m0, d0, s) = Inr (m1, d1, s1) \<and> graph_inv s1 \<and> edges_only s s1 \<and>
      entity_links s1 = entity_links s @ edge_rows p ids s x"
  proof (cases "p' = p \<and> on \<and> (\<exists>c e. map_of ids (ck, cn) = Some c \<and> map_of ids (ek, en) = Some e)")
    case False
    then have "put_edge now p ids x (m0, d0, s) = Inr (m0, d0, s) \<or>
        put_edge now p ids x (m0, d0, s) = Inr (m0, Suc d0, s)"
      by (auto simp: put_edge_def x split: option.split)
    moreover have "edge_rows p ids s x = []" using False by (auto simp: edge_rows_def x split: option.split)
    ultimately show ?thesis using Cons.prems(1) by auto
  next
    case True
    then obtain c e where ce: "map_of ids (ck, cn) = Some c" "map_of ids (ek, en) = Some e" by blast
    then have rows: "edge_rows p ids s x = [\<lparr>k_entity = e, k_linkage = lid, k_concept = c, k_weight = w\<rparr>]"
      using True lid by (simp add: edge_rows_def x)
    have "e < 2 ^ 32" using Cons.prems(3) ce(2) unfolding ids_ok_def by blast
    moreover have "(e, lid, c) \<notin> link_key ` set (entity_links s)"
      using Cons.prems(6) rows by (auto simp: link_key_def)
    ultimately obtain r s1 where "link now l c e w False s = Inr (r, s1)" "graph_inv s1" "edges_only s s1"
      "entity_links s1 = entity_links s @ [\<lparr>k_entity = e, k_linkage = lid, k_concept = c, k_weight = w\<rparr>]"
      using link_replay [OF Cons.prems(1,2) lid] by blast
    then show ?thesis using True ce rows by (simp add: put_edge_def x)
  qed
  then obtain m1 d1 s1 where step: "put_edge now p ids x (m0, d0, s) = Inr (m1, d1, s1)"
    and s1: "graph_inv s1" "edges_only s s1" "entity_links s1 = entity_links s @ edge_rows p ids s x" by blast
  note f = edges_only_fields [OF s1(2)]
  have cong: "edge_rows p ids s1 = edge_rows p ids s" using f(6) by (rule edge_rows_cong)
  have wl: "wf_linkages s" using Cons.prems(1) by (simp add: graph_inv_def)
  have "link_key ` set (edge_rows p ids s1 y) \<inter> link_key ` set (entity_links s1) = {}" if y: "y \<in> set xs" for y
  proof -
    have "fst x \<noteq> fst y" using Cons.prems(4) y by auto
    then have "link_key r \<noteq> link_key r'" if "r \<in> set (edge_rows p ids s x)" "r' \<in> set (edge_rows p ids s y)" for r r'
      using edge_rows_inj [OF wl Cons.prems(3) that] by blast
    then have "link_key ` set (edge_rows p ids s y) \<inter> link_key ` set (edge_rows p ids s x) = {}" by fastforce
    moreover have "link_key ` set (edge_rows p ids s y) \<inter> link_key ` set (entity_links s) = {}"
      using Cons.prems(6) y by simp
    ultimately show ?thesis unfolding cong s1(3) by (simp only: set_append image_Un Int_Un_distrib Un_empty)
  qed
  moreover have "\<forall>y\<in>set xs. lk_find (fst (snd (fst y))) s1 \<noteq> None"
    using Cons.prems(5) lk_find_cong [OF f(6)] by simp
  ultimately have "\<exists>m d s'. fold_r (put_edge now p ids) xs (m1, d1, s1) = Inr (m, d, s') \<and> graph_inv s' \<and>
      edges_only s1 s' \<and> entity_links s' = entity_links s1 @ List.concat (map (edge_rows p ids s1) xs)"
    using Cons.prems(4) by - (rule Cons.IH [OF s1(1) _ Cons.prems(3)], use f(15) Cons.prems(2) in simp_all)
  then obtain m d s' where "fold_r (put_edge now p ids) xs (m1, d1, s1) = Inr (m, d, s')" "graph_inv s'"
    "edges_only s1 s'" "entity_links s' = entity_links s1 @ List.concat (map (edge_rows p ids s1) xs)" by blast
  then show ?case using step s1 edges_only_trans [OF s1(2)] by (simp add: cong)
qed

section \<open>Evidence, tracked files and memory bodies\<close>

definition ev_rows :: "string \<Rightarrow> name_ids \<Rightarrow> store \<Rightarrow> string \<times> string \<times> event \<Rightarrow> ev_row list" where
  "ev_rows p ids s x =
     (case x of (p', ck, EvEvidence x f lno sp d) \<Rightarrow>
        if p' = p then
          (case (map_of ids (ck, x_c x), map_of ids (x_ekind x, x_e x), lk_find (canonical_verb (x_linkage x)) s) of
             (Some c, Some e, Some lid) \<Rightarrow>
               [\<lparr>v_entity = e, v_linkage = lid, v_concept = c, v_file = f, v_line = lno, v_span_end = sp, v_detail = d\<rparr>]
           | _ \<Rightarrow> [])
        else []
      | _ \<Rightarrow> [])"

fun ev_linkage :: "event \<Rightarrow> string" where
  "ev_linkage (EvLink x w) = x_linkage x"
| "ev_linkage (EvUnlink x) = x_linkage x"
| "ev_linkage (EvEvidence x f lno sp d) = x_linkage x"
| "ev_linkage _ = []"

lemma add_evidence_replay:
  assumes "replay_mode s" "lk_find (canonical_verb l) s = Some lid"
  shows "add_evidence now l c e f lno sp d s = Inr (s\<lparr>linkage_evidence := linkage_evidence s @
    [\<lparr>v_entity = e, v_linkage = lid, v_concept = c, v_file = f, v_line = lno, v_span_end = sp, v_detail = d\<rparr>]\<rparr>)"
proof -
  have "get_linkage_id (canonical_verb l) s = Inr lid" using assms(2) by (simp add: get_linkage_Inr)
  then show ?thesis using assms(1) by (simp add: add_evidence_def Let_def split: option.split)
qed

lemma put_evidence_all:
  assumes "replay_mode s" "\<forall>x\<in>set xs. lk_find (canonical_verb (ev_linkage (snd (snd x)))) s \<noteq> None"
  shows "\<exists>m d. fold_r (put_evidence now p ids) xs (m0, d0, s) =
    Inr (m, d, s\<lparr>linkage_evidence := linkage_evidence s @ List.concat (map (ev_rows p ids s) xs)\<rparr>)"
  using assms
proof (induction xs arbitrary: m0 d0 s)
  case Nil
  then show ?case by simp
next
  case (Cons x xs)
  obtain p' ck ev where x: "x = (p', ck, ev)" by (cases x) auto
  let ?t = "\<lambda>rows. s\<lparr>linkage_evidence := linkage_evidence s @ rows\<rparr>"
  have "\<exists>m1 d1. put_evidence now p ids x (m0, d0, s) = Inr (m1, d1, ?t (ev_rows p ids s x))"
  proof (cases "\<exists>y f lno sp d. ev = EvEvidence y f lno sp d \<and> p' = p")
    case False
    then have "put_evidence now p ids x (m0, d0, s) = Inr (m0, d0, s)" "ev_rows p ids s x = []"
      by (auto simp: put_evidence_def ev_rows_def x split: event.splits)
    then show ?thesis by simp
  next
    case True
    then obtain y f lno sp d where ev: "ev = EvEvidence y f lno sp d" "p' = p" by blast
    obtain lid where lid: "lk_find (canonical_verb (x_linkage y)) s = Some lid" using Cons.prems(2) x ev by auto
    show ?thesis
      using add_evidence_replay [OF Cons.prems(1) lid]
      by (cases "map_of ids (ck, x_c y)"; cases "map_of ids (x_ekind y, x_e y)")
        (simp_all add: put_evidence_def ev_rows_def x ev lid)
  qed
  then obtain m1 d1 where step: "put_evidence now p ids x (m0, d0, s) = Inr (m1, d1, ?t (ev_rows p ids s x))" by blast
  let ?s1 = "?t (ev_rows p ids s x)"
  have lk: "lk_find l ?s1 = lk_find l s" for l by (rule lk_find_cong) simp
  then have cong: "ev_rows p ids ?s1 = ev_rows p ids s" unfolding ev_rows_def by presburger
  have "\<exists>m d. fold_r (put_evidence now p ids) xs (m1, d1, ?s1) =
    Inr (m, d, ?s1\<lparr>linkage_evidence := linkage_evidence ?s1 @ List.concat (map (ev_rows p ids ?s1) xs)\<rparr>)"
    by (rule Cons.IH) (use Cons.prems lk in simp_all)
  then show ?case unfolding cong using step by simp
qed

definition track_rows :: "time \<Rightarrow> nat \<Rightarrow> string \<Rightarrow> (string \<times> string) \<times> (time \<times> bool \<times> time option) \<Rightarrow> track_row list" where
  "track_rows now pid p x =
     (case x of ((p', path), (_, on, mtime)) \<Rightarrow>
        if p' = p \<and> on then
          (case mtime of None \<Rightarrow> [] | Some m \<Rightarrow> [\<lparr>t_pid = pid, t_path = path, t_mtime = m, t_synced = now\<rparr>])
        else [])"

lemma in_opt_row:
  "r \<in> set (if b then (case x of None \<Rightarrow> [] | Some m \<Rightarrow> [f m]) else []) \<longleftrightarrow> b \<and> (\<exists>m. x = Some m \<and> r = f m)"
  by (cases b; cases x) simp_all

lemma in_track_rows:
  "r \<in> set (track_rows now pid p ((p', path), t, on, mt)) \<longleftrightarrow>
    (p' = p \<and> on) \<and> (\<exists>m. mt = Some m \<and> r = \<lparr>t_pid = pid, t_path = path, t_mtime = m, t_synced = now\<rparr>)"
  unfolding track_rows_def prod.case by (rule in_opt_row)

lemma put_tracks_all:
  assumes "replay_mode s" "distinct (map fst xs)"
    "\<forall>x\<in>set xs. fst (fst x) = p \<longrightarrow> (\<forall>t\<in>set (tracked_files s). \<not> (t_pid t = fst (bound s) \<and> t_path t = snd (fst x)))"
  shows "\<exists>n. fold (put_track now p) xs (n0, s) =
    (n, s\<lparr>tracked_files := tracked_files s @ List.concat (map (track_rows now (fst (bound s)) p) xs)\<rparr>)"
  using assms
proof (induction xs arbitrary: n0 s)
  case Nil
  then show ?case by simp
next
  case (Cons x xs)
  obtain p' path t on mt where x: "x = ((p', path), t, on, mt)" by (cases x) auto
  let ?rows = "track_rows now (fst (bound s)) p x"
  let ?s1 = "s\<lparr>tracked_files := tracked_files s @ ?rows\<rparr>"
  have "\<exists>n1. put_track now p x (n0, s) = (n1, ?s1)"
  proof (cases "p' = p \<and> on \<and> mt \<noteq> None")
    case False
    then show ?thesis by (auto simp: put_track_def track_rows_def x split: option.split)
  next
    case True
    then obtain m where "mt = Some m" by auto
    moreover have "\<not> (\<exists>r\<in>set (tracked_files s). t_pid r = fst (bound s) \<and> t_path r = path)"
      using Cons.prems(3) True x by auto
    ultimately show ?thesis using True Cons.prems(1)
      by (simp add: put_track_def track_rows_def x mark_tracked_def mark_row_def)
  qed
  then obtain n1 where step: "put_track now p x (n0, s) = (n1, ?s1)" by blast
  have "\<exists>n. fold (put_track now p) xs (n1, ?s1) =
    (n, ?s1\<lparr>tracked_files := tracked_files ?s1 @ List.concat (map (track_rows now (fst (bound ?s1)) p) xs)\<rparr>)"
  proof (rule Cons.IH)
    show "replay_mode ?s1" "distinct (map fst xs)" using Cons.prems by simp_all
    have "t_path r \<noteq> snd (fst y)" if y: "y \<in> set xs" "fst (fst y) = p" and row: "r \<in> set ?rows" for y r
    proof -
      obtain m where r: "p' = p" "r = \<lparr>t_pid = fst (bound s), t_path = path, t_mtime = m, t_synced = now\<rparr>"
        using row unfolding x in_track_rows by blast
      then have "t_path r = path" by simp
      have "fst y \<in> set (map fst xs)" using y(1) by simp
      then have "fst y \<noteq> fst x" using Cons.prems(2) by (metis distinct.simps(2) list.simps(9))
      then have "fst y \<noteq> (p', path)" by (simp add: x)
      then show ?thesis using y(2) \<open>t_path r = path\<close> r(1) by (cases y) auto
    qed
    then show "\<forall>y\<in>set xs. fst (fst y) = p \<longrightarrow> (\<forall>t\<in>set (tracked_files ?s1).
        \<not> (t_pid t = fst (bound ?s1) \<and> t_path t = snd (fst y)))"
      using Cons.prems(3) by auto
  qed
  then show ?case using step by simp
qed

definition body_rows :: "time \<Rightarrow> string \<Rightarrow> name_ids \<Rightarrow> (string \<times> string) \<times> (time \<times> event) \<Rightarrow> mem_row list" where
  "body_rows now p ids x =
     (case x of ((p', name), (_, EvMemory _ content mtype tags metadata)) \<Rightarrow>
        if p' = p then
          (case map_of ids (''memory'', name) of
             None \<Rightarrow> []
           | Some i \<Rightarrow> [\<lparr>m_entity = i, m_content = content, m_mtype = mtype, m_tags = tags_column tags,
                         m_metadata = meta_column metadata, m_created = now, m_updated = now\<rparr>])
        else []
      | _ \<Rightarrow> [])"

lemma in_body_rows:
  "r \<in> set (body_rows now p ids ((p', name), t, ev)) \<longleftrightarrow>
    (\<exists>n content mtype tags metadata i. ev = EvMemory n content mtype tags metadata \<and> p' = p \<and>
       map_of ids (''memory'', name) = Some i \<and>
       r = \<lparr>m_entity = i, m_content = content, m_mtype = mtype, m_tags = tags_column tags,
            m_metadata = meta_column metadata, m_created = now, m_updated = now\<rparr>)"
proof (cases "\<exists>n content mtype tags metadata. ev = EvMemory n content mtype tags metadata")
  case True
  then obtain n content mtype tags metadata where ev: "ev = EvMemory n content mtype tags metadata" by blast
  show ?thesis unfolding body_rows_def ev prod.case event.case in_opt_row by blast
next
  case False
  then have "body_rows now p ids ((p', name), t, ev) = []" by (auto simp: body_rows_def split: event.split)
  then have "r \<notin> set (body_rows now p ids ((p', name), t, ev))" by simp
  then show ?thesis using False by blast
qed

lemma map_id: "(\<And>x. x \<in> set xs \<Longrightarrow> f x = x) \<Longrightarrow> map f xs = xs"
  by (induction xs) auto

text \<open>A body written onto a row of this rebuild leaves the row as it is.\<close>

lemma add_memory_replay:
  assumes "replay_mode s" "find_entity (fst (bound s)) ''memory'' n s = Some e" "wf_entities s" "e_updated e = now"
    "memory_row (e_id e) s = None"
  shows "add_memory now n content mtype tags metadata False s = Inr (e_id e, s\<lparr>memory_content := memory_content s @
     [\<lparr>m_entity = e_id e, m_content = content, m_mtype = mtype, m_tags = tags_column tags,
       m_metadata = meta_column metadata, m_created = now, m_updated = now\<rparr>]\<rparr>)"
proof -
  have e: "e \<in> set (entities s)" "entity_key e = (fst (bound s), ''memory'', n)"
    using assms(2) by (auto simp: find_entity_def dest: find_SomeD)
  have uniq: "x = e" if "x \<in> set (entities s)" "entity_key x = entity_key e \<or> e_id x = e_id e" for x
    using that assms(3) e(1) by (auto simp: wf_entities_def distinct_map dest: inj_onD)
  have "entity_ok e" using assms(3) e(1) by (simp add: wf_entities_def)
  then have canon: "e_canonical e = None" using e(2) by (simp add: entity_ok_def entity_key_def canonical_for_kind_def)
  have merge: "merge_entity now None None None False (canonical_for_kind ''memory'' n) e = e"
    by (cases e) (use canon in \<open>simp add: merge_entity_def coalesce_def col_changes_def canonical_for_kind_def\<close>)
  have "map (\<lambda>x. if entity_key x = entity_key e then merge_entity now None None None False
      (canonical_for_kind ''memory'' n) x else x) (entities s) = entities s"
    by (rule map_id) (use uniq merge in auto)
  then have u: "upsert_entity now ''memory'' n None None None False s = Inr (e_id e, s)"
    using assms(1,2) e(2) by (simp add: upsert_entity_def upsert_row_def Let_def kinds_def meta_column_def)
  have t: "touch_entity now (e_id e) x = x" if "entities x = entities s" for x
  proof -
    have "map (\<lambda>x. if e_id x = e_id e then x\<lparr>e_updated := now\<rparr> else x) (entities x) = entities x"
    proof (rule map_id)
      fix y assume "y \<in> set (entities x)"
      then have "e_id y = e_id e \<Longrightarrow> y = e" using uniq [of y] that by simp
      moreover have "e\<lparr>e_updated := now\<rparr> = e" using assms(4) by (cases e) simp
      ultimately show "(if e_id y = e_id e then y\<lparr>e_updated := now\<rparr> else y) = y" by auto
    qed
    then show ?thesis by (simp add: touch_entity_def)
  qed
  show ?thesis using assms(1,5) t by (simp add: add_memory_def u put_memory_def Let_def)
qed

lemma put_bodies_all:
  assumes "replay_mode s" "wf_entities s" "distinct (map fst xs)"
    "\<forall>n i. map_of ids (''memory'', n) = Some i \<longrightarrow>
       (\<exists>e. find_entity (fst (bound s)) ''memory'' n s = Some e \<and> e_id e = i \<and> e_updated e = now)"
    "\<forall>x\<in>set xs. \<forall>i. fst (fst x) = p \<and> map_of ids (''memory'', snd (fst x)) = Some i \<longrightarrow>
       i \<notin> m_entity ` set (memory_content s)"
    "ids_ok ids"
  shows "\<exists>n. fold_r (put_body now p ids) xs (n0, s) =
    Inr (n, s\<lparr>memory_content := memory_content s @ List.concat (map (body_rows now p ids) xs)\<rparr>)"
  using assms(1-5)
proof (induction xs arbitrary: n0 s)
  case Nil
  then show ?case by simp
next
  case (Cons x xs)
  obtain p' name t ev where x: "x = ((p', name), t, ev)" by (cases x) auto
  let ?s1 = "s\<lparr>memory_content := memory_content s @ body_rows now p ids x\<rparr>"
  have "\<exists>n1. put_body now p ids x (n0, s) = Inr (n1, ?s1)"
  proof (cases "p' = p \<and> map_of ids (''memory'', name) \<noteq> None \<and> (\<exists>a b c d e. ev = EvMemory a b c d e)")
    case False
    then have "put_body now p ids x (n0, s) = Inr (n0, s)" "body_rows now p ids x = []"
      by (auto simp: put_body_def body_rows_def x split: event.splits option.splits)
    then show ?thesis by simp
  next
    case True
    then obtain i a b c d f where i: "map_of ids (''memory'', name) = Some i" and ev: "ev = EvMemory a b c d f" by blast
    obtain e where e: "find_entity (fst (bound s)) ''memory'' name s = Some e" "e_id e = i" "e_updated e = now"
      using Cons.prems(4) i by blast
    have "memory_row (e_id e) s = None"
      using Cons.prems(5) x i e(2) True by (auto simp: memory_row_def find_None_iff image_iff)
    from add_memory_replay [OF Cons.prems(1) e(1) Cons.prems(2) e(3) this] show ?thesis
      using True i e(2) by (simp add: put_body_def body_rows_def x ev)
  qed
  then obtain n1 where step: "put_body now p ids x (n0, s) = Inr (n1, ?s1)" by blast
  have "\<exists>n. fold_r (put_body now p ids) xs (n1, ?s1) =
    Inr (n, ?s1\<lparr>memory_content := memory_content ?s1 @ List.concat (map (body_rows now p ids) xs)\<rparr>)"
  proof (rule Cons.IH)
    show "replay_mode ?s1" "wf_entities ?s1" "distinct (map fst xs)"
      using Cons.prems by (simp_all add: wf_entities_def)
    show "\<forall>n i. map_of ids (''memory'', n) = Some i \<longrightarrow>
       (\<exists>e. find_entity (fst (bound ?s1)) ''memory'' n ?s1 = Some e \<and> e_id e = i \<and> e_updated e = now)"
      using Cons.prems(4) by (simp add: find_entity_def)
    have "i \<notin> m_entity ` set (body_rows now p ids x)"
      if "y \<in> set xs" "fst (fst y) = p" "map_of ids (''memory'', snd (fst y)) = Some i" for y i
    proof
      assume "i \<in> m_entity ` set (body_rows now p ids x)"
      then obtain r where "r \<in> set (body_rows now p ids x)" "m_entity r = i" by blast
      then have "p' = p" "map_of ids (''memory'', name) = Some i" unfolding x in_body_rows by auto
      then have "fst y = fst x" using that(2,3) assms(6) x unfolding ids_ok_def by (cases y) auto
      then show False using Cons.prems(3) imageI [OF that(1), of fst] by simp
    qed
    moreover have "set (memory_content ?s1) = set (memory_content s) \<union> set (body_rows now p ids x)" by simp
    moreover have "\<forall>y\<in>set xs. \<forall>i. fst (fst y) = p \<and> map_of ids (''memory'', snd (fst y)) = Some i \<longrightarrow>
       i \<notin> m_entity ` set (memory_content s)" using Cons.prems(5) by simp
    ultimately show "\<forall>y\<in>set xs. \<forall>i. fst (fst y) = p \<and> map_of ids (''memory'', snd (fst y)) = Some i \<longrightarrow>
        i \<notin> m_entity ` set (memory_content ?s1)"
      by (metis Un_iff image_Un)
  qed
  then show ?case using step by simp
qed

section \<open>A partition as a whole\<close>

lemma graph_inv_cong:
  assumes "partitions s = partitions t" "bound s = bound t" "next_pid s = next_pid t" "cache s = cache t"
    "dirty s = dirty t" "disk s = disk t" "linkage_types s = linkage_types t" "next_lid s = next_lid t"
    "link_buffer s = link_buffer t" "entity_links s = entity_links t"
  shows "graph_inv s = graph_inv t"
proof -
  have f: "frag_inv s = frag_inv t" using assms(1-6) by (rule frag_inv_cong)
  have "disk_value p l s = disk_value p l t" for p l using assms(6) by (simp add: disk_value_def)
  then have "frag_value b k s = frag_value b k t" for b k using assms(4) by (simp add: frag_value_def cong: option.case_cong)
  then have r: "rows_of_store s = rows_of_store t" using assms(1) by (intro rows_cong)
  have "lk_find l s = lk_find l t" for l using assms(7) by (rule lk_find_cong)
  then show ?thesis using f r assms by (simp add: graph_inv_def shadow_ok_def wf_linkages_def)
qed

lemma graph_inv_bound:
  assumes "graph_inv s" "b \<in> bindings s"
  shows "graph_inv (s\<lparr>bound := b\<rparr>)"
proof -
  have f: "frag_inv (s\<lparr>bound := b\<rparr>)" using assms frag_inv_bound by (simp add: graph_inv_def)
  have "rows_of_store (s\<lparr>bound := b\<rparr>) = rows_of_store s" by (rule rows_cong) simp_all
  from graph_inv_same_rows [OF assms(1) f this] show ?thesis by simp
qed

text \<open>What the materialisation of a partition keeps: rows only name ids and partitions that exist.\<close>

definition rebuilt_ok :: "store \<Rightarrow> bool" where
  "rebuilt_ok s =
     (graph_inv s \<and> wf_entities s \<and> replay_mode s \<and>
      (\<forall>e\<in>set (entities s). e_pid e \<in> p_id ` set (partitions s)) \<and>
      (\<forall>r\<in>set (entity_links s). k_entity r < next_eid s \<and> k_concept r < next_eid s) \<and>
      (\<forall>v\<in>set (linkage_evidence s). v_entity v < next_eid s \<and> v_concept v < next_eid s) \<and>
      (\<forall>t\<in>set (tracked_files s). t_pid t \<in> p_id ` set (partitions s)) \<and>
      (\<forall>m\<in>set (memory_content s). m_entity m < next_eid s))"

definition final_row :: "time \<Rightarrow> collapsed \<Rightarrow> string \<Rightarrow> nat \<Rightarrow> nat \<Rightarrow> (string \<times> string) \<times> ent_state \<Rightarrow> entity" where
  "final_row now c p pid i x =
     (new_row now pid i x)\<lparr>e_protected := flag (rc_protect c) (p, fst x) False,
                           e_noise := flag (rc_noise c) (p, fst x) False\<rparr>"

lemma final_row_simps [simp]:
  "e_id (final_row now c p pid i x) = i" "e_pid (final_row now c p pid i x) = pid"
  "e_kind (final_row now c p pid i x) = fst (fst x)" "e_name (final_row now c p pid i x) = snd (fst x)"
  "entity_key (final_row now c p pid i x) = (pid, fst x)" "e_updated (final_row now c p pid i x) = now"
  "e_path (final_row now c p pid i x) = es_path (snd x)" "e_tldr (final_row now c p pid i x) = es_tldr (snd x)"
  "e_meta (final_row now c p pid i x) = meta_column (es_meta (snd x))"
  "e_protected (final_row now c p pid i x) = flag (rc_protect c) (p, fst x) False"
  "e_noise (final_row now c p pid i x) = flag (rc_noise c) (p, fst x) False"
  "e_canonical (final_row now c p pid i x) = canonical_for_kind (fst (fst x)) (snd (fst x))"
  by (simp_all add: final_row_def new_row_def entity_key_def)

abbreviation final_rows where
  "final_rows now c p pid i L \<equiv> map (\<lambda>(j, x). final_row now c p pid j x) (List.enumerate i L)"

lemma in_enumerate: "(j, x) \<in> set (List.enumerate i L) \<longleftrightarrow> i \<le> j \<and> j < i + length L \<and> L ! (j - i) = x"
  by (auto simp: in_set_enumerate_eq)

lemma enumerate_mem: "(j, x) \<in> set (List.enumerate i L) \<Longrightarrow> x \<in> set L"
  unfolding in_enumerate by (metis add.commute less_diff_conv2 nth_mem)

lemma ids_ok_new:
  assumes "distinct (map fst L)" "i + length L \<le> 2 ^ 32"
  shows "ids_ok (new_ids i L)"
proof -
  have "a = b \<and> j < 2 ^ 32" if "map_of (new_ids i L) a = Some j" "map_of (new_ids i L) b = Some j" for a b j
    using that assms(2) unfolding map_of_new_ids [OF assms(1)] in_enumerate by auto
  then show ?thesis unfolding ids_ok_def by blast
qed

lemma map_of_new_ids_dom:
  assumes "distinct (map fst L)"
  shows "map_of (new_ids i L) kn \<noteq> None \<longleftrightarrow> kn \<in> fst ` set L"
proof -
  have "fst ` set (new_ids i L) = fst ` set L" by (induction L arbitrary: i) simp_all
  then show ?thesis by (metis map_of_eq_None_iff)
qed

text \<open>Both flag passes over the new rows give the final rows.\<close>

lemma put_flags_rows:
  assumes "distinct (map fst L)" "distinct (map fst (rc_protect c))" "distinct (map fst (rc_noise c))"
    "\<forall>e\<in>set old. e_id e < i"
  shows "put_flags put_noise p (new_ids i L) (rc_noise c)
      (put_flags put_protected p (new_ids i L) (rc_protect c) (s\<lparr>entities := old @ new_rows now pid i L\<rparr>)) =
    s\<lparr>entities := old @ final_rows now c p pid i L\<rparr>"
proof -
  let ?ids = "new_ids i L"
  have at: "map_of ?ids a = Some j \<longleftrightarrow> i \<le> j \<and> j < i + length L \<and> fst (L ! (j - i)) = a" for a j
    unfolding map_of_new_ids [OF assms(1)] in_enumerate by auto
  have own: "\<forall>e\<in>set (old @ map (\<lambda>(j, x). f j x) (List.enumerate i L)).
      \<forall>kn. map_of ?ids kn = Some (e_id e) \<longrightarrow> kn = (e_kind e, e_name e)"
    if f: "\<And>j x. e_id (f j x) = j" "\<And>j x. e_kind (f j x) = fst (fst x)" "\<And>j x. e_name (f j x) = snd (fst x)" for f
  proof (intro ballI allI impI)
    fix e kn assume e: "e \<in> set (old @ map (\<lambda>(j, x). f j x) (List.enumerate i L))" and m: "map_of ?ids kn = Some (e_id e)"
    from m at have ge: "i \<le> e_id e" and kn: "fst (L ! (e_id e - i)) = kn" by auto
    then have "e \<notin> set old" using assms(4) by force
    then obtain j x where jx: "(j, x) \<in> set (List.enumerate i L)" "e = f j x" using e by auto
    then have "x = L ! (e_id e - i)" unfolding in_enumerate using f(1) by auto
    then show "kn = (e_kind e, e_name e)" using jx(2) f kn by simp
  qed
  have here: "map_of ?ids (fst x) = Some j" if "(j, x) \<in> set (List.enumerate i L)" for j x
    using that unfolding map_of_new_ids [OF assms(1)] by blast
  have away: "map_of ?ids a \<noteq> Some (e_id e)" if "e \<in> set old" for e a
    using that assms(4) at by (auto simp: not_le)
  have go: "map (\<lambda>e. if map_of ?ids (e_kind e, e_name e) = Some (e_id e) then u e else e)
      (old @ map (\<lambda>(j, x). f j x) (List.enumerate i L)) = old @ map (\<lambda>(j, x). u (f j x)) (List.enumerate i L)"
    if f: "\<And>j x. e_id (f j x) = j" "\<And>j x. e_kind (f j x) = fst (fst x)" "\<And>j x. e_name (f j x) = snd (fst x)" for f u
  proof -
    let ?g = "\<lambda>e. if map_of ?ids (e_kind e, e_name e) = Some (e_id e) then u e else e"
    have "map ?g old = old" by (rule map_id) (simp add: away)
    moreover have "map ?g (map (\<lambda>(j, x). f j x) (List.enumerate i L)) = map (\<lambda>(j, x). u (f j x)) (List.enumerate i L)"
      unfolding map_map using here f by (intro map_cong) auto
    ultimately show ?thesis by simp
  qed
  let ?f = "\<lambda>j x. (new_row now pid j x)\<lparr>e_protected := flag (rc_protect c) (p, fst x) False\<rparr>"
  have n0: "e_protected (new_row now pid j x) = False" "e_noise (?f j x) = False" for j x by (simp_all add: new_row_def)
  have prot: "put_flags put_protected p ?ids (rc_protect c) (s\<lparr>entities := old @ new_rows now pid i L\<rparr>) =
      s\<lparr>entities := old @ map (\<lambda>(j, x). ?f j x) (List.enumerate i L)\<rparr>"
  proof (subst put_flags_eq [where upd = "\<lambda>v e. e\<lparr>e_protected := v\<rparr>" and get = e_protected])
    show "put_protected i v s = s\<lparr>entities := map (\<lambda>e. if e_id e = i then e\<lparr>e_protected := v\<rparr> else e) (entities s)\<rparr>" for i v s
      by (simp add: put_protected_def)
    show "\<forall>e\<in>set (entities (s\<lparr>entities := old @ new_rows now pid i L\<rparr>)). \<forall>kn. map_of ?ids kn = Some (e_id e) \<longrightarrow>
        kn = (e_kind e, e_name e)" using own [of "new_row now pid"] by simp
    show "s\<lparr>entities := old @ new_rows now pid i L, entities :=
        map (\<lambda>e. if map_of ?ids (e_kind e, e_name e) = Some (e_id e)
             then e\<lparr>e_protected := flag (rc_protect c) (p, e_kind e, e_name e) (e_protected e)\<rparr> else e)
         (entities (s\<lparr>entities := old @ new_rows now pid i L\<rparr>))\<rparr> =
        s\<lparr>entities := old @ map (\<lambda>(j, x). ?f j x) (List.enumerate i L)\<rparr>"
      using go [of "new_row now pid" "\<lambda>e. e\<lparr>e_protected := flag (rc_protect c) (p, e_kind e, e_name e) (e_protected e)\<rparr>"]
      by (simp add: n0)
  qed (use assms(2) in auto)
  show ?thesis unfolding prot
  proof (subst put_flags_eq [where upd = "\<lambda>v e. e\<lparr>e_noise := v\<rparr>" and get = e_noise])
    show "put_noise i v s = s\<lparr>entities := map (\<lambda>e. if e_id e = i then e\<lparr>e_noise := v\<rparr> else e) (entities s)\<rparr>" for i v s
      by (simp add: put_noise_def)
    show "\<forall>e\<in>set (entities (s\<lparr>entities := old @ map (\<lambda>(j, x). ?f j x) (List.enumerate i L)\<rparr>)).
        \<forall>kn. map_of ?ids kn = Some (e_id e) \<longrightarrow> kn = (e_kind e, e_name e)" using own [of ?f] by simp
    show "s\<lparr>entities := old @ map (\<lambda>(j, x). ?f j x) (List.enumerate i L), entities :=
        map (\<lambda>e. if map_of ?ids (e_kind e, e_name e) = Some (e_id e)
             then e\<lparr>e_noise := flag (rc_noise c) (p, e_kind e, e_name e) (e_noise e)\<rparr> else e)
         (entities (s\<lparr>entities := old @ map (\<lambda>(j, x). ?f j x) (List.enumerate i L)\<rparr>))\<rparr> =
        s\<lparr>entities := old @ final_rows now c p pid i L\<rparr>"
      using go [of ?f "\<lambda>e. e\<lparr>e_noise := flag (rc_noise c) (p, e_kind e, e_name e) (e_noise e)\<rparr>"]
      by (simp add: n0 final_row_def)
  qed (use assms(3) in auto)
qed

text \<open>The dictionaries have one entry per key and the kinds are those of the CHECK constraint.\<close>

definition collapse_ok :: "collapsed \<Rightarrow> (full_key \<times> (time \<times> bool \<times> weight option)) list \<Rightarrow> bool" where
  "collapse_ok c links =
     (distinct (map fst (rc_entities c)) \<and> distinct (map fst (rc_protect c)) \<and> distinct (map fst (rc_noise c)) \<and>
      distinct (map fst (rc_tracks c)) \<and> distinct (map fst (rc_memory c)) \<and> distinct (map fst links) \<and>
      (\<forall>((p, k, n), st)\<in>set (rc_entities c). k \<in> set kinds))"

lemma live_entities_ok:
  assumes "collapse_ok c links"
  shows "distinct (map fst (live_entities p c))" "\<forall>x\<in>set (live_entities p c). fst (fst x) \<in> set kinds"
proof -
  have d: "distinct (map fst (rc_entities c))" using assms by (simp add: collapse_ok_def)
  have "map fst (live_entities p c) = map (\<lambda>x. snd (fst x))
      (filter (\<lambda>(key, st). fst key = p \<and> outlives c key st) (rc_entities c))"
    by (simp add: live_entities_def case_prod_unfold)
  moreover have "inj_on (\<lambda>x. snd (fst x)) (set (filter (\<lambda>(key, st). fst key = p \<and> outlives c key st) (rc_entities c)))"
  proof (intro inj_onI)
    fix x y assume x: "x \<in> set (filter (\<lambda>(key, st). fst key = p \<and> outlives c key st) (rc_entities c))"
      and y: "y \<in> set (filter (\<lambda>(key, st). fst key = p \<and> outlives c key st) (rc_entities c))"
      and e: "snd (fst x) = snd (fst y)"
    have "fst (fst x) = p" "fst (fst y) = p" using x y by (simp_all add: case_prod_unfold)
    then have "fst x = fst y" using e by (simp add: prod_eq_iff)
    moreover have "x \<in> set (rc_entities c)" "y \<in> set (rc_entities c)" using x y by auto
    ultimately show "x = y" using d unfolding distinct_map by (meson inj_onD)
  qed
  ultimately show "distinct (map fst (live_entities p c))"
    using d by (simp add: distinct_map)
  show "\<forall>x\<in>set (live_entities p c). fst (fst x) \<in> set kinds"
    using assms by (auto simp: live_entities_def collapse_ok_def)
qed

lemma enter_fields [simp]:
  "entities (enter_partition p s) = entities s" "concepts (enter_partition p s) = concepts s"
  "entity_links (enter_partition p s) = entity_links s" "linkage_types (enter_partition p s) = linkage_types s"
  "linkage_evidence (enter_partition p s) = linkage_evidence s" "next_eid (enter_partition p s) = next_eid s"
  "tracked_files (enter_partition p s) = tracked_files s" "memory_content (enter_partition p s) = memory_content s"
  "replay_mode (enter_partition p s) = replay_mode s" "facts_log (enter_partition p s) = facts_log s"
  "log_enabled (enter_partition p s) = log_enabled s"
  by (simp_all add: enter_partition_def insert_partition_def Let_def split: option.split)

lemma enter_bindings:
  assumes "frag_inv s"
  shows "\<exists>pid. bound (enter_partition p s) = (pid, p) \<and> bindings (enter_partition p s) = insert (pid, p) (bindings s) \<and>
    p_id ` set (partitions (enter_partition p s)) = insert pid (p_id ` set (partitions s)) \<and>
    ((pid, p) \<in> bindings s \<or> pid \<notin> p_id ` set (partitions s))"
proof -
  have wf: "wf_partitions s" using assms by (simp add: frag_inv_def)
  show ?thesis
  proof (cases "p \<in> p_name ` set (partitions s)")
    case True
    then obtain pid where pid: "(pid, p) \<in> bindings s" by (auto simp: bindings_def)
    have "enter_partition p s = s\<lparr>bound := (pid, p)\<rparr>" by (rule with_known_partition [OF wf pid])
    moreover have "pid \<in> p_id ` set (partitions s)" using pid by (auto simp: bindings_def)
    ultimately show ?thesis using pid by (intro exI [of _ pid]) (auto simp: bindings_def)
  next
    case False
    let ?p = "\<lparr>p_id = next_pid s, p_name = p, p_kind = ''repo''\<rparr>"
    have "snd (bound s) \<in> p_name ` set (partitions s)"
      using bound_in_bindings [OF wf] by (auto simp: bindings_def)
    then have "p \<noteq> snd (bound s)" using False by auto
    moreover have "find (\<lambda>q. p_name q = p) (partitions s) = None" using False by (auto simp: find_None_iff)
    then have "find (\<lambda>q. p_name q = p) (partitions s @ [?p]) = Some ?p" by (simp add: find_key_append)
    ultimately have "enter_partition p s =
        s\<lparr>partitions := partitions s @ [?p], next_pid := Suc (next_pid s), bound := (next_pid s, p)\<rparr>"
      using False by (simp add: enter_partition_def insert_partition_def partition_id_of_def)
    moreover have "next_pid s \<notin> p_id ` set (partitions s)" using wf by (auto simp: wf_partitions_def)
    ultimately show ?thesis by (intro exI [of _ "next_pid s"]) (auto simp: bindings_def)
  qed
qed

lemma wf_entities_appendI:
  assumes "wf_entities s" "entities t = entities s @ R" "next_eid t = n"
    "map e_id R = [next_eid s..<n]" "next_eid s \<le> n" "distinct (map entity_key R)"
    "entity_key ` set (entities s) \<inter> entity_key ` set R = {}" "\<forall>e\<in>set R. entity_ok e"
  shows "wf_entities t"
proof -
  have ids: "e_id ` set R = {next_eid s..<n}" using arg_cong [OF assms(4), of set] by simp
  have d: "distinct (map e_id R)" unfolding assms(4) by simp
  have "\<forall>e\<in>set R. e_id e < n" using ids by auto
  moreover have "\<forall>e\<in>set (entities s). e_id e < n" using assms(1,5) by (auto simp: wf_entities_def)
  moreover have "e_id ` set (entities s) \<inter> e_id ` set R = {}" using assms(1) unfolding ids by (auto simp: wf_entities_def)
  ultimately show ?thesis using assms(1,6,7,8) d unfolding wf_entities_def assms(2,3) by auto
qed

lemma wf_entities_append:
  assumes "wf_entities s" "distinct (map fst L)" "\<forall>x\<in>set L. fst (fst x) \<in> set kinds"
    "pid \<notin> e_pid ` set (entities s)" "entities t = entities s @ final_rows now c p pid (next_eid s) L"
    "next_eid t = next_eid s + length L"
  shows "wf_entities t"
proof -
  let ?R = "final_rows now c p pid (next_eid s) L"
  have ids: "map e_id ?R = [next_eid s..<next_eid s + length L]"
    by (simp add: case_prod_unfold comp_def)
  have keys: "map entity_key ?R = map (\<lambda>x. (pid, fst x)) L"
    by (rule nth_equalityI) (auto simp: nth_enumerate_eq)
  have "entity_key ` set ?R = (\<lambda>x. (pid, fst x)) ` set L"
    using arg_cong [OF keys, of set] by (simp del: map_map)
  then have dis: "entity_key ` set (entities s) \<inter> entity_key ` set ?R = {}"
    using assms(4) by (auto simp: entity_key_def)
  have "distinct (map (\<lambda>x. (pid, fst x)) L)" using assms(2) by (simp add: distinct_map inj_on_def)
  then have dk: "distinct (map entity_key ?R)" unfolding keys .
  have "\<forall>e\<in>set ?R. entity_ok e"
  proof
    fix e assume "e \<in> set ?R"
    then obtain j x where jx: "(j, x) \<in> set (List.enumerate (next_eid s) L)" "e = final_row now c p pid j x" by auto
    then show "entity_ok e" using assms(3) enumerate_mem [OF jx(1)] by (simp add: entity_ok_def)
  qed
  then show ?thesis by (rule wf_entities_appendI [OF assms(1,5,6) ids le_add1 dk dis])
qed

lemma in_ev_rows:
  "r \<in> set (ev_rows p ids s (p', ck, EvEvidence y f lno sp d)) \<longleftrightarrow>
    p' = p \<and> (\<exists>c e lid. map_of ids (ck, x_c y) = Some c \<and> map_of ids (x_ekind y, x_e y) = Some e \<and>
      lk_find (canonical_verb (x_linkage y)) s = Some lid \<and>
      r = \<lparr>v_entity = e, v_linkage = lid, v_concept = c, v_file = f, v_line = lno, v_span_end = sp, v_detail = d\<rparr>)"
  unfolding ev_rows_def prod.case event.case by (rule in_rows [unfolded prod.case])

lemma ev_rows_other: "\<nexists>y f lno sp d. ev = EvEvidence y f lno sp d \<Longrightarrow> ev_rows p ids s (p', ck, ev) = []"
  by (cases ev) (auto simp: ev_rows_def)

lemma ev_rows_cong:
  assumes "linkage_types t = linkage_types s"
  shows "ev_rows p ids t = ev_rows p ids s"
proof -
  have "lk_find l t = lk_find l s" for l using assms by (rule lk_find_cong)
  then show ?thesis unfolding ev_rows_def by presburger
qed

text \<open>The rows written name ids given to this partition.\<close>

lemma rows_in_ids:
  "r \<in> set (edge_rows p ids s x) \<Longrightarrow> \<exists>a b. map_of ids a = Some (k_entity r) \<and> map_of ids b = Some (k_concept r)"
  "v \<in> set (ev_rows p ids s y) \<Longrightarrow> \<exists>a b. map_of ids a = Some (v_entity v) \<and> map_of ids b = Some (v_concept v)"
  "m \<in> set (body_rows now p ids z) \<Longrightarrow> \<exists>a. map_of ids a = Some (m_entity m)"
proof -
  assume r: "r \<in> set (edge_rows p ids s x)"
  obtain p' l ck cn ek en t on w where x: "x = ((p', l, ck, cn, ek, en), t, on, w)" by (cases x) auto
  obtain c e lid where "map_of ids (ck, cn) = Some c" "map_of ids (ek, en) = Some e"
    "r = \<lparr>k_entity = e, k_linkage = lid, k_concept = c, k_weight = w\<rparr>" using r unfolding x in_edge_rows by blast
  then show "\<exists>a b. map_of ids a = Some (k_entity r) \<and> map_of ids b = Some (k_concept r)" by auto
next
  assume v: "v \<in> set (ev_rows p ids s y)"
  obtain p' ck ev where y: "y = (p', ck, ev)" by (cases y) auto
  then obtain q f lno sp d where ev: "ev = EvEvidence q f lno sp d" using v ev_rows_other by fastforce
  obtain c e lid where "map_of ids (ck, x_c q) = Some c" "map_of ids (x_ekind q, x_e q) = Some e"
    "v = \<lparr>v_entity = e, v_linkage = lid, v_concept = c, v_file = f, v_line = lno, v_span_end = sp, v_detail = d\<rparr>"
    using v unfolding y ev in_ev_rows by blast
  then show "\<exists>a b. map_of ids a = Some (v_entity v) \<and> map_of ids b = Some (v_concept v)" by auto
next
  assume m: "m \<in> set (body_rows now p ids z)"
  obtain p' name t ev where z: "z = ((p', name), t, ev)" by (cases z) auto
  obtain n content mtype tags metadata i where "map_of ids (''memory'', name) = Some i"
    "m = \<lparr>m_entity = i, m_content = content, m_mtype = mtype, m_tags = tags_column tags,
          m_metadata = meta_column metadata, m_created = now, m_updated = now\<rparr>"
    using m unfolding z in_body_rows by blast
  then show "\<exists>a. map_of ids a = Some (m_entity m)" by auto
qed

lemma materialize_ok:
  assumes ok: "rebuilt_ok s" and c: "collapse_ok c links"
    and reg: "\<forall>x\<in>set links. lk_find (fst (snd (fst x))) s \<noteq> None"
      "\<forall>x\<in>set evs. lk_find (canonical_verb (ev_linkage (snd (snd x)))) s \<noteq> None"
    and fresh: "\<forall>pid. (pid, p) \<in> bindings s \<longrightarrow> pid \<notin> e_pid ` set (entities s) \<and> pid \<notin> t_pid ` set (tracked_files s)"
    and L: "L = live_entities p c" and ids: "ids = new_ids (next_eid s) L"
    and size: "next_eid s + length L \<le> 2 ^ 32"
  shows "\<exists>m' s' pid. materialize now c links evs p (m, s) = Inr (m', s') \<and> rebuilt_ok s' \<and>
    bindings s' = insert (pid, p) (bindings s) \<and> ((pid, p) \<in> bindings s \<or> pid \<notin> p_id ` set (partitions s)) \<and>
    bound s' = bound s \<and> linkage_types s' = linkage_types s \<and> next_eid s' = next_eid s + length L \<and>
    facts_log s' = facts_log s \<and> log_enabled s' = log_enabled s \<and>
    entities s' = entities s @ final_rows now c p pid (next_eid s) L \<and>
    entity_links s' = entity_links s @ List.concat (map (edge_rows p ids s) links) \<and>
    linkage_evidence s' = linkage_evidence s @ List.concat (map (ev_rows p ids s) evs) \<and>
    tracked_files s' = tracked_files s @ List.concat (map (track_rows now pid p) (rc_tracks c)) \<and>
    memory_content s' = memory_content s @ List.concat (map (body_rows now p ids) (rc_memory c))"
proof -
  have g: "graph_inv s" and wf: "wf_entities s" and rm: "replay_mode s"
    using ok by (simp_all add: rebuilt_ok_def)
  have fi: "frag_inv s" using g by (simp add: graph_inv_def)
  obtain pid where pid: "bound (enter_partition p s) = (pid, p)"
    "bindings (enter_partition p s) = insert (pid, p) (bindings s)"
    "p_id ` set (partitions (enter_partition p s)) = insert pid (p_id ` set (partitions s))"
    "(pid, p) \<in> bindings s \<or> pid \<notin> p_id ` set (partitions s)"
    using enter_bindings [OF fi, of p] by (elim exE conjE) (rule that)
  let ?E = "enter_partition p s"
  have gE: "graph_inv ?E" by (rule graph_step_inv [OF step_enter g])
  have no: "pid \<notin> e_pid ` set (entities s)" "pid \<notin> t_pid ` set (tracked_files s)"
    using pid(4) fresh ok unfolding rebuilt_ok_def by blast+
  have dL: "distinct (map fst L)" and kL: "\<forall>x\<in>set L. fst (fst x) \<in> set kinds"
    unfolding L by (rule live_entities_ok [OF c])+
  have lt: "\<forall>e\<in>set (entities s). e_id e < next_eid s" using wf by (simp add: wf_entities_def)
  have "\<forall>x\<in>set L. find_entity (fst (bound ?E)) (fst (fst x)) (snd (fst x)) ?E = None"
    using no(1) by (auto simp: find_entity_def find_None_iff pid(1) entity_key_def)
  then have "\<exists>cs. fold_r (put_live now) L ([], ?E) = Inr ([] @ new_ids (next_eid ?E) L,
      ?E\<lparr>entities := entities ?E @ new_rows now (fst (bound ?E)) (next_eid ?E) L,
         next_eid := next_eid ?E + length L, concepts := cs\<rparr>)"
    by (intro put_live_all) (use rm dL kL in simp_all)
  then obtain cs where A: "fold_r (put_live now) L ([], ?E) = Inr (ids,
      ?E\<lparr>entities := entities s @ new_rows now pid (next_eid s) L, next_eid := next_eid s + length L, concepts := cs\<rparr>)"
    unfolding pid(1) ids enter_fields fst_conv append_Nil by blast
  let ?A = "?E\<lparr>entities := entities s @ new_rows now pid (next_eid s) L, next_eid := next_eid s + length L, concepts := cs\<rparr>"
  let ?B = "?E\<lparr>next_eid := next_eid s + length L, concepts := cs, entities := entities s @ final_rows now c p pid (next_eid s) L\<rparr>"
  have "?A = ?E\<lparr>next_eid := next_eid s + length L, concepts := cs, entities := entities s @ new_rows now pid (next_eid s) L\<rparr>"
    by simp
  then have B: "put_flags put_noise p ids (rc_noise c) (put_flags put_protected p ids (rc_protect c) ?A) = ?B"
    unfolding ids using put_flags_rows [OF dL _ _ lt] c by (simp only: collapse_ok_def)
  have gB: "graph_inv ?B" using graph_inv_cong [of ?B ?E] gE by simp
  have idok: "ids_ok ids" unfolding ids by (rule ids_ok_new [OF dL size])
  have range: "next_eid s \<le> j \<and> j < next_eid s + length L" if "map_of ids a = Some j" for a j
    using that unfolding ids map_of_new_ids [OF dL] in_enumerate by blast
  have lkB: "lk_find l ?B = lk_find l s" for l by (rule lk_find_cong) simp
  have erB: "edge_rows p ids ?B = edge_rows p ids s" by (rule edge_rows_cong) simp
  have "link_key ` set (edge_rows p ids ?B x) \<inter> link_key ` set (entity_links ?B) = {}" for x
  proof -
    have "k_entity r' < next_eid s" if "r' \<in> set (entity_links s)" for r' using ok that by (simp add: rebuilt_ok_def)
    moreover have "next_eid s \<le> k_entity r" if "r \<in> set (edge_rows p ids s x)" for r
      using rows_in_ids(1) [OF that] range by blast
    ultimately have "link_key r \<noteq> link_key r'" if "r \<in> set (edge_rows p ids s x)" "r' \<in> set (entity_links s)" for r r'
      using that unfolding link_key_def by fastforce
    then show ?thesis unfolding erB by fastforce
  qed
  then have "\<exists>made dead sC. fold_r (put_edge now p ids) links (0, 0, ?B) = Inr (made, dead, sC) \<and> graph_inv sC \<and>
      edges_only ?B sC \<and> entity_links sC = entity_links ?B @ List.concat (map (edge_rows p ids ?B) links)"
    by (intro put_edges_all [OF gB _ idok]) (use rm c reg(1) lkB in \<open>simp_all add: collapse_ok_def\<close>)
  then obtain made dead sC where C: "fold_r (put_edge now p ids) links (0, 0, ?B) = Inr (made, dead, sC)"
    "graph_inv sC" "edges_only ?B sC" "entity_links sC = entity_links s @ List.concat (map (edge_rows p ids s) links)"
    unfolding erB by auto
  note fC = edges_only_fields [OF C(3)]
  have evC: "ev_rows p ids sC = ev_rows p ids s" by (rule ev_rows_cong) (simp add: fC)
  have "\<exists>vm vd. fold_r (put_evidence now p ids) evs (0, 0, sC) = Inr (vm, vd,
      sC\<lparr>linkage_evidence := linkage_evidence sC @ List.concat (map (ev_rows p ids sC) evs)\<rparr>)"
  proof (rule put_evidence_all)
    show "replay_mode sC" using rm by (simp add: fC)
    have "lk_find l sC = lk_find l s" for l by (rule lk_find_cong) (simp add: fC)
    then show "\<forall>x\<in>set evs. lk_find (canonical_verb (ev_linkage (snd (snd x)))) sC \<noteq> None" using reg(2) by simp
  qed
  then obtain vm vd where D: "fold_r (put_evidence now p ids) evs (0, 0, sC) = Inr (vm, vd,
      sC\<lparr>linkage_evidence := linkage_evidence s @ List.concat (map (ev_rows p ids s) evs)\<rparr>)"
    unfolding evC by (auto simp: fC)
  let ?D = "sC\<lparr>linkage_evidence := linkage_evidence s @ List.concat (map (ev_rows p ids s) evs)\<rparr>"
  have "\<exists>nt. fold (put_track now p) (rc_tracks c) (0, ?D) =
      (nt, ?D\<lparr>tracked_files := tracked_files ?D @ List.concat (map (track_rows now (fst (bound ?D)) p) (rc_tracks c))\<rparr>)"
    by (rule put_tracks_all) (use rm c no(2) pid(1) in \<open>auto simp: fC collapse_ok_def\<close>)
  then obtain nt where E: "fold (put_track now p) (rc_tracks c) (0, ?D) =
      (nt, ?D\<lparr>tracked_files := tracked_files s @ List.concat (map (track_rows now pid p) (rc_tracks c))\<rparr>)"
    using pid(1) by (auto simp: fC)
  let ?T = "?D\<lparr>tracked_files := tracked_files s @ List.concat (map (track_rows now pid p) (rc_tracks c))\<rparr>"
  have eT: "entities ?T = entities s @ final_rows now c p pid (next_eid s) L" "next_eid ?T = next_eid s + length L"
    "memory_content ?T = memory_content s" "bound ?T = (pid, p)" "replay_mode ?T"
    using rm pid(1) by (simp_all add: fC)
  have wfT: "wf_entities ?T" by (rule wf_entities_append [OF wf dL kL no(1) eT(1,2)])
  have "\<exists>nm. fold_r (put_body now p ids) (rc_memory c) (0, ?T) =
      Inr (nm, ?T\<lparr>memory_content := memory_content ?T @ List.concat (map (body_rows now p ids) (rc_memory c))\<rparr>)"
  proof (rule put_bodies_all [OF eT(5) wfT _ _ _ idok])
    show "distinct (map fst (rc_memory c))" using c by (simp add: collapse_ok_def)
    show "\<forall>n i. map_of ids (''memory'', n) = Some i \<longrightarrow>
        (\<exists>e. find_entity (fst (bound ?T)) ''memory'' n ?T = Some e \<and> e_id e = i \<and> e_updated e = now)"
    proof (intro allI impI)
      fix n i assume "map_of ids (''memory'', n) = Some i"
      then obtain x where x: "(i, x) \<in> set (List.enumerate (next_eid s) L)" "fst x = (''memory'', n)"
        unfolding ids map_of_new_ids [OF dL] by blast
      let ?e = "final_row now c p pid i x"
      have "?e \<in> set (entities ?T)" using x(1) unfolding eT(1) by force
      moreover have "entity_key ?e = (fst (bound ?T), ''memory'', n)" using x(2) eT(4) by simp
      ultimately have "find_entity (fst (bound ?T)) ''memory'' n ?T = Some ?e"
        using find_key_unique [of entity_key "entities ?T" ?e] wfT by (simp add: find_entity_def wf_entities_def)
      then show "\<exists>e. find_entity (fst (bound ?T)) ''memory'' n ?T = Some e \<and> e_id e = i \<and> e_updated e = now"
        by (intro exI [of _ ?e]) simp
    qed
    have "m_entity r < next_eid s" if "r \<in> set (memory_content s)" for r using ok that by (simp add: rebuilt_ok_def)
    then show "\<forall>x\<in>set (rc_memory c). \<forall>i. fst (fst x) = p \<and> map_of ids (''memory'', snd (fst x)) = Some i \<longrightarrow>
        i \<notin> m_entity ` set (memory_content ?T)"
      using range unfolding eT(3) by fastforce
  qed
  then obtain nm where F: "fold_r (put_body now p ids) (rc_memory c) (0, ?T) =
      Inr (nm, ?T\<lparr>memory_content := memory_content s @ List.concat (map (body_rows now p ids) (rc_memory c))\<rparr>)"
    unfolding eT(3) by blast
  let ?F = "?T\<lparr>memory_content := memory_content s @ List.concat (map (body_rows now p ids) (rc_memory c))\<rparr>"
  let ?s' = "?F\<lparr>bound := bound s\<rparr>"
  have run: "\<exists>m'. materialize now c links evs p (m, s) = Inr (m', ?s')"
    using A B C(1) D E F by (simp add: materialize_def L [symmetric] Let_def)
  have fields: "partitions ?s' = partitions ?E" "entities ?s' = entities s @ final_rows now c p pid (next_eid s) L"
    "next_eid ?s' = next_eid s + length L" "replay_mode ?s'" "linkage_types ?s' = linkage_types s"
    "facts_log ?s' = facts_log s" "log_enabled ?s' = log_enabled s"
    "entity_links ?s' = entity_links s @ List.concat (map (edge_rows p ids s) links)"
    using rm C(4) by (simp_all add: fC)
  have bs: "bindings ?s' = insert (pid, p) (bindings s)"
    using pid(2) fields(1) by (simp add: bindings_def)
  have "graph_inv ?F" using graph_inv_cong [of ?F sC] C(2) by simp
  moreover have "bound s \<in> bindings ?F"
    using bs bound_in_bindings [of s] fi by (simp add: bindings_def frag_inv_def)
  ultimately have g': "graph_inv ?s'" by (rule graph_inv_bound)
  have wf': "wf_entities ?s'" by (rule wf_entities_append [OF wf dL kL no(1) fields(2,3)])
  have pids: "p_id ` set (partitions ?s') = insert pid (p_id ` set (partitions s))"
    unfolding fields(1) by (rule pid(3))
  have below: "j < next_eid s + length L" if "map_of ids a = Some j" for a j using range [OF that] by simp
  have old: "\<forall>e\<in>set (entities s). e_pid e \<in> p_id ` set (partitions s)"
    "\<forall>r\<in>set (entity_links s). k_entity r < next_eid s \<and> k_concept r < next_eid s"
    "\<forall>v\<in>set (linkage_evidence s). v_entity v < next_eid s \<and> v_concept v < next_eid s"
    "\<forall>t\<in>set (tracked_files s). t_pid t \<in> p_id ` set (partitions s)"
    "\<forall>m\<in>set (memory_content s). m_entity m < next_eid s" using ok by (simp_all add: rebuilt_ok_def)
  have new: "\<forall>r\<in>set (List.concat (map (edge_rows p ids s) links)). k_entity r < next_eid s + length L \<and> k_concept r < next_eid s + length L"
    "\<forall>v\<in>set (List.concat (map (ev_rows p ids s) evs)). v_entity v < next_eid s + length L \<and> v_concept v < next_eid s + length L"
    "\<forall>m\<in>set (List.concat (map (body_rows now p ids) (rc_memory c))). m_entity m < next_eid s + length L"
    using rows_in_ids below by (simp_all only: set_concat set_map ball_simps) blast+
  have "\<forall>t\<in>set (List.concat (map (track_rows now pid p) (rc_tracks c))). t_pid t = pid"
  proof
    fix r assume "r \<in> set (List.concat (map (track_rows now pid p) (rc_tracks c)))"
    then obtain x where x: "r \<in> set (track_rows now pid p x)" by auto
    obtain p' path t on mt where "x = ((p', path), t, on, mt)" by (cases x) auto
    then obtain m where "r = \<lparr>t_pid = pid, t_path = path, t_mtime = m, t_synced = now\<rparr>"
      using x in_track_rows by blast
    then show "t_pid r = pid" by simp
  qed
  then have t: "\<forall>t\<in>set (tracked_files ?s'). t_pid t \<in> insert pid (p_id ` set (partitions s))" using old(4) by auto
  have e: "\<forall>e\<in>set (entities ?s'). e_pid e \<in> insert pid (p_id ` set (partitions s))"
    unfolding fields(2) using old(1) by auto
  have both: "(\<forall>x\<in>set (xs @ ys). P x)" if "\<forall>x\<in>set xs. Q x" "\<And>x. Q x \<Longrightarrow> P x" "\<forall>x\<in>set ys. P x"
    for xs ys :: "'z list" and P Q using that by auto
  have "\<forall>r\<in>set (entity_links ?s'). k_entity r < next_eid s + length L \<and> k_concept r < next_eid s + length L"
    unfolding fields(8) by (rule both [OF old(2) _ new(1)]) simp
  moreover have "\<forall>v\<in>set (linkage_evidence ?s'). v_entity v < next_eid s + length L \<and> v_concept v < next_eid s + length L"
    using both [OF old(3) _ new(2)] by simp
  moreover have "\<forall>m\<in>set (memory_content ?s'). m_entity m < next_eid s + length L"
    using both [OF old(5) _ new(3)] by simp
  ultimately have ok': "rebuilt_ok ?s'"
    unfolding rebuilt_ok_def pids fields(3) using g' wf' fields(4) t e by blast
  obtain m' where m': "materialize now c links evs p (m, s) = Inr (m', ?s')" using run by (rule exE)
  show ?thesis
    by (rule exI [of _ m'], rule exI [of _ ?s'], rule exI [of _ pid], intro conjI)
      (rule m' ok' bs pid(4) fields | simp)+
qed

section \<open>Facts by name\<close>

text \<open>What a store says, without ids and times: the rows of its tables with partition, linkage and
  entities by name. An edge is one of a partition when both its ends are in it.\<close>

definition entity_facts_of where
  "entity_facts_of s e =
     {(p, e_kind e, e_name e, e_path e, e_tldr e, e_meta e, e_protected e, e_noise e) | p. (e_pid e, p) \<in> bindings s}"

definition entity_facts where
  "entity_facts s = \<Union> (entity_facts_of s ` set (entities s))"

definition link_facts_of where
  "link_facts_of s r = {(p, l, e_kind c, e_name c, e_kind e, e_name e, k_weight r) | pid p l c e.
     (pid, p) \<in> bindings s \<and> joined pid (k_linkage r) (k_concept r) (k_entity r) s = Some (l, c, e)}"

definition link_facts where
  "link_facts s = \<Union> (link_facts_of s ` set (entity_links s))"

definition evidence_facts_of where
  "evidence_facts_of s v = {(p, l, e_kind c, e_name c, e_kind e, e_name e, v_file v, v_line v, v_span_end v, v_detail v) | pid p l c e.
     (pid, p) \<in> bindings s \<and> joined pid (v_linkage v) (v_concept v) (v_entity v) s = Some (l, c, e)}"

definition evidence_facts where
  "evidence_facts s = \<Union> (evidence_facts_of s ` set (linkage_evidence s))"

definition track_facts_of where
  "track_facts_of s t = {(p, t_path t, t_mtime t) | p. (t_pid t, p) \<in> bindings s}"

definition track_facts where
  "track_facts s = \<Union> (track_facts_of s ` set (tracked_files s))"

definition memory_facts_of where
  "memory_facts_of s m = {(p, e_name e, m_content m, m_mtype m, m_tags m, m_metadata m) | pid p e.
     (pid, p) \<in> bindings s \<and> entity_in pid (m_entity m) s = Some e}"

definition memory_facts where
  "memory_facts s = \<Union> (memory_facts_of s ` set (memory_content s))"

lemmas facts_defs = entity_facts_def link_facts_def evidence_facts_def track_facts_def memory_facts_def

text \<open>Adding a partition's rows to a store leaves what the old rows say.\<close>

definition extends :: "nat \<Rightarrow> string \<Rightarrow> entity list \<Rightarrow> store \<Rightarrow> store \<Rightarrow> bool" where
  "extends pid p R s t =
     (rebuilt_ok s \<and> rebuilt_ok t \<and> bindings t = insert (pid, p) (bindings s) \<and>
      ((pid, p) \<in> bindings s \<or> pid \<notin> p_id ` set (partitions s)) \<and> linkage_types t = linkage_types s \<and>
      entities t = entities s @ R \<and> (\<forall>e\<in>set R. next_eid s \<le> e_id e \<and> e_pid e = pid))"

lemma extends_bindings:
  assumes "extends pid p R s t"
  shows "q \<in> p_id ` set (partitions s) \<Longrightarrow> (q, n) \<in> bindings t \<longleftrightarrow> (q, n) \<in> bindings s"
    "(pid, n) \<in> bindings t \<longleftrightarrow> n = p"
proof -
  have b: "bindings t = insert (pid, p) (bindings s)" and o: "(pid, p) \<in> bindings s \<or> pid \<notin> p_id ` set (partitions s)"
    using assms by (simp_all add: extends_def)
  show "q \<in> p_id ` set (partitions s) \<Longrightarrow> (q, n) \<in> bindings t \<longleftrightarrow> (q, n) \<in> bindings s"
    using o unfolding b by auto
  have "wf_partitions t" using assms by (simp add: extends_def rebuilt_ok_def graph_inv_def frag_inv_def)
  then show "(pid, n) \<in> bindings t \<longleftrightarrow> n = p"
    using bindings_inj [of t "(pid, n)" "(pid, p)"] b by auto
qed

lemma extends_lookup:
  assumes "extends pid p R s t"
  shows "i < next_eid s \<Longrightarrow> get_entity_by_id i t = get_entity_by_id i s"
    "e \<in> set R \<Longrightarrow> get_entity_by_id (e_id e) t = Some e"
    "linkage_raw_name l t = linkage_raw_name l s"
proof -
  have e: "entities t = entities s @ R" and R: "\<forall>e\<in>set R. next_eid s \<le> e_id e" and wf: "wf_entities t"
    and l: "linkage_types t = linkage_types s"
    using assms by (auto simp: extends_def rebuilt_ok_def)
  have "find (\<lambda>e. e_id e = i) R = None" if "i < next_eid s" using R that by (auto simp: find_None_iff)
  then show "i < next_eid s \<Longrightarrow> get_entity_by_id i t = get_entity_by_id i s"
    by (simp add: get_entity_by_id_def e find_key_append split: option.split)
  show "e \<in> set R \<Longrightarrow> get_entity_by_id (e_id e) t = Some e"
    using find_key_unique [of e_id "entities t" e] wf e by (simp add: get_entity_by_id_def wf_entities_def)
  show "linkage_raw_name l t = linkage_raw_name l s" using l by (simp add: linkage_raw_name_def)
qed

lemma entity_in_home:
  assumes "rebuilt_ok s" "entity_in q i s = Some e"
  shows "q \<in> p_id ` set (partitions s)"
  using assms by (auto simp: entity_in_def get_entity_by_id_def rebuilt_ok_def dest!: find_SomeD split: option.splits if_splits)

lemma extends_entity_in:
  assumes "extends pid p R s t" "i < next_eid s"
  shows "entity_in q i t = entity_in q i s"
  using extends_lookup(1) [OF assms] by (simp add: entity_in_def)

lemma extends_old:
  assumes "extends pid p R s t"
  shows "k_entity r < next_eid s \<Longrightarrow> k_concept r < next_eid s \<Longrightarrow> link_facts_of t r = link_facts_of s r"
    "v_entity v < next_eid s \<Longrightarrow> v_concept v < next_eid s \<Longrightarrow> evidence_facts_of t v = evidence_facts_of s v"
    "m_entity m < next_eid s \<Longrightarrow> memory_facts_of t m = memory_facts_of s m"
proof -
  have ok: "rebuilt_ok s" using assms by (simp add: extends_def)
  have b: "(q, n) \<in> bindings t \<longleftrightarrow> (q, n) \<in> bindings s" if "entity_in q i s = Some e" for q n i e
    using extends_bindings(1) [OF assms entity_in_home [OF ok that]] .
  have j: "(q, n) \<in> bindings t \<and> joined q l c e t = Some x \<longleftrightarrow> (q, n) \<in> bindings s \<and> joined q l c e s = Some x"
    if "c < next_eid s" "e < next_eid s" for q n l c e x
    using b [of q c] extends_entity_in [OF assms that(1)] extends_entity_in [OF assms that(2)] extends_lookup(3) [OF assms]
    by (auto simp: joined_def split: option.splits)
  show "k_entity r < next_eid s \<Longrightarrow> k_concept r < next_eid s \<Longrightarrow> link_facts_of t r = link_facts_of s r"
    by (simp add: link_facts_of_def j)
  show "v_entity v < next_eid s \<Longrightarrow> v_concept v < next_eid s \<Longrightarrow> evidence_facts_of t v = evidence_facts_of s v"
    by (simp add: evidence_facts_of_def j)
  have "(q, n) \<in> bindings t \<and> entity_in q i t = Some x \<longleftrightarrow> (q, n) \<in> bindings s \<and> entity_in q i s = Some x"
    if "i < next_eid s" for q n i x using b [of q i] extends_entity_in [OF assms that] by auto
  then show "m_entity m < next_eid s \<Longrightarrow> memory_facts_of t m = memory_facts_of s m"
    by (simp add: memory_facts_of_def)
qed

lemma extends_new:
  assumes "extends pid p R s t" "c \<in> set R" "e \<in> set R" "lk_find l s = Some lid"
  shows "k_concept r = e_id c \<Longrightarrow> k_entity r = e_id e \<Longrightarrow> k_linkage r = lid \<Longrightarrow>
      link_facts_of t r = {(p, l, e_kind c, e_name c, e_kind e, e_name e, k_weight r)}"
    "v_concept v = e_id c \<Longrightarrow> v_entity v = e_id e \<Longrightarrow> v_linkage v = lid \<Longrightarrow> evidence_facts_of t v =
      {(p, l, e_kind c, e_name c, e_kind e, e_name e, v_file v, v_line v, v_span_end v, v_detail v)}"
proof -
  have pid: "e_pid c = pid" "e_pid e = pid" using assms(1-3) by (auto simp: extends_def)
  have wl: "wf_linkages s" using assms(1) by (simp add: extends_def rebuilt_ok_def graph_inv_def)
  have l: "linkage_raw_name lid t = Some l"
    using extends_lookup(3) [OF assms(1)] raw_name_iff [OF wl] assms(4) by simp
  have i: "entity_in q (e_id c) t = (if q = pid then Some c else None)" "entity_in q (e_id e) t = (if q = pid then Some e else None)" for q
    using extends_lookup(2) [OF assms(1)] assms(2,3) pid by (auto simp: entity_in_def)
  note b = extends_bindings(2) [OF assms(1)]
  show "k_concept r = e_id c \<Longrightarrow> k_entity r = e_id e \<Longrightarrow> k_linkage r = lid \<Longrightarrow>
      link_facts_of t r = {(p, l, e_kind c, e_name c, e_kind e, e_name e, k_weight r)}"
    using b by (auto simp: link_facts_of_def joined_def l i split: if_splits)
  show "v_concept v = e_id c \<Longrightarrow> v_entity v = e_id e \<Longrightarrow> v_linkage v = lid \<Longrightarrow> evidence_facts_of t v =
      {(p, l, e_kind c, e_name c, e_kind e, e_name e, v_file v, v_line v, v_span_end v, v_detail v)}"
    using b by (auto simp: evidence_facts_of_def joined_def l i split: if_splits)
qed

lemma extends_memory:
  assumes "extends pid p R s t" "e \<in> set R" "m_entity m = e_id e"
  shows "memory_facts_of t m = {(p, e_name e, m_content m, m_mtype m, m_tags m, m_metadata m)}"
proof -
  have "entity_in q (e_id e) t = (if q = pid then Some e else None)" for q
    using extends_lookup(2) [OF assms(1,2)] assms(1,2) by (auto simp: entity_in_def extends_def)
  then show ?thesis using extends_bindings(2) [OF assms(1)] assms(3) by (auto simp: memory_facts_of_def split: if_splits)
qed

section \<open>What the log says of a partition\<close>

abbreviation live :: "string \<Rightarrow> collapsed \<Rightarrow> (string \<times> string) set" where
  "live p c \<equiv> fst ` set (live_entities p c)"

definition final_entities where
  "final_entities c p = {(p, k, n, es_path st, es_tldr st, meta_column (es_meta st),
      flag (rc_protect c) (p, k, n) False, flag (rc_noise c) (p, k, n) False) | k n st.
     ((k, n), st) \<in> set (live_entities p c)}"

definition final_links :: "collapsed \<Rightarrow> (full_key \<times> (time \<times> bool \<times> weight option)) list \<Rightarrow> string \<Rightarrow> _" where
  "final_links c links p = {(p, l, ck, cn, ek, en, w) | l ck cn ek en t w.
     ((p, l, ck, cn, ek, en), (t, True, w)) \<in> set links \<and> (ck, cn) \<in> live p c \<and> (ek, en) \<in> live p c}"

definition final_evidence :: "collapsed \<Rightarrow> (string \<times> string \<times> event) list \<Rightarrow> string \<Rightarrow> _" where
  "final_evidence c evs p = {(p, canonical_verb (x_linkage x), ck, x_c x, x_ekind x, x_e x, f, lno, sp, d) | x ck f lno sp d.
     (p, ck, EvEvidence x f lno sp d) \<in> set evs \<and> (ck, x_c x) \<in> live p c \<and> (x_ekind x, x_e x) \<in> live p c}"

definition final_tracks where
  "final_tracks c p = {(p, path, m) | path t m. ((p, path), (t, True, Some m)) \<in> set (rc_tracks c)}"

definition final_memory where
  "final_memory c p = {(p, n, content, mtype, tags_column tags, meta_column metadata) | n t n' content mtype tags metadata.
     ((p, n), (t, EvMemory n' content mtype tags metadata)) \<in> set (rc_memory c) \<and> (''memory'', n) \<in> live p c}"

lemmas final_defs = final_entities_def final_links_def final_evidence_def final_tracks_def final_memory_def

text \<open>The new rows say what the log says.\<close>

lemma union_rows:
  assumes "\<And>x. x \<in> set xs \<Longrightarrow> \<Union> (F ` set (f x)) = G x" "\<And>z. z \<in> A \<longleftrightarrow> (\<exists>x\<in>set xs. z \<in> G x)"
  shows "\<Union> (F ` set (List.concat (map f xs))) = A"
proof -
  have "\<Union> (F ` set (List.concat (map f xs))) = (\<Union>x\<in>set xs. \<Union> (F ` set (f x)))" by auto
  also have "\<dots> = (\<Union>x\<in>set xs. G x)" using assms(1) by (rule SUP_cong [OF refl])
  also have "\<dots> = A" by (rule set_eqI) (simp add: assms(2))
  finally show ?thesis .
qed

lemma new_facts:
  assumes x: "extends pid p (final_rows now c p pid (next_eid s) L) s t" and L: "L = live_entities p c"
    and d: "distinct (map fst L)" and ids: "ids = new_ids (next_eid s) L"
    and regs: "\<forall>x\<in>set links. lk_find (fst (snd (fst x))) s \<noteq> None"
      "\<forall>x\<in>set evs. lk_find (canonical_verb (ev_linkage (snd (snd x)))) s \<noteq> None"
  shows "\<Union> (link_facts_of t ` set (List.concat (map (edge_rows p ids s) links))) = final_links c links p"
    "\<Union> (evidence_facts_of t ` set (List.concat (map (ev_rows p ids s) evs))) = final_evidence c evs p"
    "\<Union> (memory_facts_of t ` set (List.concat (map (body_rows now p ids) (rc_memory c)))) = final_memory c p"
proof -
  let ?R = "final_rows now c p pid (next_eid s) L"
  have row: "\<exists>e\<in>set ?R. e_id e = i \<and> (e_kind e, e_name e) = kn" if m: "map_of ids kn = Some i" for kn i
  proof -
    obtain y where "(i, y) \<in> set (List.enumerate (next_eid s) L)" "fst y = kn"
      using m unfolding ids map_of_new_ids [OF d] by blast
    then show ?thesis by (intro bexI [of _ "final_row now c p pid i y"]) force+
  qed
  have dom: "(\<exists>i. map_of ids kn = Some i) \<longleftrightarrow> kn \<in> live p c" for kn
    using map_of_new_ids_dom [OF d, of "next_eid s" kn] unfolding ids [symmetric] by (simp add: L)
  show "\<Union> (link_facts_of t ` set (List.concat (map (edge_rows p ids s) links))) = final_links c links p"
  proof -
    let ?G = "\<lambda>x :: full_key \<times> (time \<times> bool \<times> weight option). case x of ((p', l, ck, cn, ek, en), tm, on, w) \<Rightarrow>
        if p' = p \<and> on \<and> (ck, cn) \<in> live p c \<and> (ek, en) \<in> live p c then {(p, l, ck, cn, ek, en, w)} else {}"
    have one: "\<Union> (link_facts_of t ` set (edge_rows p ids s ((p', l, ck, cn, ek, en), tm, on, w))) =
        (if p' = p \<and> on \<and> (ck, cn) \<in> live p c \<and> (ek, en) \<in> live p c then {(p, l, ck, cn, ek, en, w)} else {})"
      if y: "((p', l, ck, cn, ek, en), tm, on, w) \<in> set links" for p' l ck cn ek en tm on w
    proof (cases "p' = p \<and> on \<and> (ck, cn) \<in> live p c \<and> (ek, en) \<in> live p c")
      case False
      then have "r \<notin> set (edge_rows p ids s ((p', l, ck, cn, ek, en), tm, on, w))" for r
        unfolding in_edge_rows using dom by blast
      then have "edge_rows p ids s ((p', l, ck, cn, ek, en), tm, on, w) = []" by (metis list.set_intros(1) neq_Nil_conv)
      then show ?thesis unfolding if_not_P [OF False] by simp
    next
      case True
      obtain lid where lid: "lk_find l s = Some lid" using regs(1) y by force
      obtain a b where ab: "map_of ids (ck, cn) = Some a" "map_of ids (ek, en) = Some b" using True dom by blast
      obtain ce where ce: "ce \<in> set ?R" "e_id ce = a" "e_kind ce = ck" "e_name ce = cn" using row [OF ab(1)] by auto
      obtain ee where ee: "ee \<in> set ?R" "e_id ee = b" "e_kind ee = ek" "e_name ee = en" using row [OF ab(2)] by auto
      have "edge_rows p ids s ((p', l, ck, cn, ek, en), tm, on, w) =
          [\<lparr>k_entity = b, k_linkage = lid, k_concept = a, k_weight = w\<rparr>]"
        using True ab lid by (simp add: edge_rows_def)
      then show ?thesis using True extends_new(1) [OF x ce(1) ee(1) lid, of "\<lparr>k_entity = b, k_linkage = lid, k_concept = a, k_weight = w\<rparr>"] ce ee
        by simp
    qed
    have all: "z \<in> final_links c links p \<longleftrightarrow> (\<exists>x\<in>set links. z \<in> ?G x)" for z
    proof
      assume "z \<in> final_links c links p"
      then obtain l ck cn ek en tm w where "((p, l, ck, cn, ek, en), (tm, True, w)) \<in> set links"
        "(ck, cn) \<in> live p c" "(ek, en) \<in> live p c" "z = (p, l, ck, cn, ek, en, w)" unfolding final_links_def by blast
      then show "\<exists>x\<in>set links. z \<in> ?G x" by (intro bexI [of _ "((p, l, ck, cn, ek, en), (tm, True, w))"]) simp_all
    next
      assume "\<exists>x\<in>set links. z \<in> ?G x"
      then obtain x where x: "x \<in> set links" "z \<in> ?G x" by (elim bexE)
      obtain p' l ck cn ek en tm on w where "x = ((p', l, ck, cn, ek, en), (tm, on, w))" by (cases x) auto
      with x show "z \<in> final_links c links p" unfolding final_links_def by (auto split: if_splits)
    qed
    show ?thesis
    proof (rule union_rows [where G = ?G, OF _ all])
      fix x assume x: "x \<in> set links"
      obtain p' l ck cn ek en tm on w where "x = ((p', l, ck, cn, ek, en), tm, on, w)" by (cases x) auto
      then show "\<Union> (link_facts_of t ` set (edge_rows p ids s x)) = ?G x" using one x by simp
    qed
  qed
  show "\<Union> (evidence_facts_of t ` set (List.concat (map (ev_rows p ids s) evs))) = final_evidence c evs p"
  proof -
    let ?G = "\<lambda>x :: string \<times> string \<times> event. case x of (p', ck, EvEvidence y f lno sp d) \<Rightarrow>
        if p' = p \<and> (ck, x_c y) \<in> live p c \<and> (x_ekind y, x_e y) \<in> live p c
        then {(p, canonical_verb (x_linkage y), ck, x_c y, x_ekind y, x_e y, f, lno, sp, d)} else {} | _ \<Rightarrow> {}"
    have one: "\<Union> (evidence_facts_of t ` set (ev_rows p ids s (p', ck, EvEvidence y f lno sp d))) =
        (if p' = p \<and> (ck, x_c y) \<in> live p c \<and> (x_ekind y, x_e y) \<in> live p c
         then {(p, canonical_verb (x_linkage y), ck, x_c y, x_ekind y, x_e y, f, lno, sp, d)} else {})"
      if y: "(p', ck, EvEvidence y f lno sp d) \<in> set evs" for p' ck y f lno sp d
    proof (cases "p' = p \<and> (ck, x_c y) \<in> live p c \<and> (x_ekind y, x_e y) \<in> live p c")
      case False
      then have "r \<notin> set (ev_rows p ids s (p', ck, EvEvidence y f lno sp d))" for r
        unfolding in_ev_rows using dom by blast
      then have "ev_rows p ids s (p', ck, EvEvidence y f lno sp d) = []" by (metis list.set_intros(1) neq_Nil_conv)
      then show ?thesis unfolding if_not_P [OF False] by simp
    next
      case True
      obtain lid where lid: "lk_find (canonical_verb (x_linkage y)) s = Some lid" using regs(2) y by force
      obtain a b where ab: "map_of ids (ck, x_c y) = Some a" "map_of ids (x_ekind y, x_e y) = Some b" using True dom by blast
      obtain ce where ce: "ce \<in> set ?R" "e_id ce = a" "e_kind ce = ck" "e_name ce = x_c y" using row [OF ab(1)] by auto
      obtain ee where ee: "ee \<in> set ?R" "e_id ee = b" "e_kind ee = x_ekind y" "e_name ee = x_e y" using row [OF ab(2)] by auto
      let ?r = "\<lparr>v_entity = b, v_linkage = lid, v_concept = a, v_file = f, v_line = lno, v_span_end = sp, v_detail = d\<rparr>"
      have "ev_rows p ids s (p', ck, EvEvidence y f lno sp d) = [?r]"
        using True ab lid by (simp add: ev_rows_def)
      then show ?thesis using True extends_new(2) [OF x ce(1) ee(1) lid, of ?r] ce ee by simp
    qed
    have all: "z \<in> final_evidence c evs p \<longleftrightarrow> (\<exists>x\<in>set evs. z \<in> ?G x)" for z
    proof
      assume "z \<in> final_evidence c evs p"
      then obtain y ck f lno sp d where "(p, ck, EvEvidence y f lno sp d) \<in> set evs" "(ck, x_c y) \<in> live p c"
        "(x_ekind y, x_e y) \<in> live p c" "z = (p, canonical_verb (x_linkage y), ck, x_c y, x_ekind y, x_e y, f, lno, sp, d)"
        unfolding final_evidence_def by blast
      then show "\<exists>x\<in>set evs. z \<in> ?G x" by (intro bexI [of _ "(p, ck, EvEvidence y f lno sp d)"]) simp_all
    next
      assume "\<exists>x\<in>set evs. z \<in> ?G x"
      then obtain x where x: "x \<in> set evs" "z \<in> ?G x" by (elim bexE)
      obtain p' ck ev where "x = (p', ck, ev)" by (cases x)
      with x show "z \<in> final_evidence c evs p" unfolding final_evidence_def by (cases ev) (auto split: if_splits)
    qed
    show ?thesis
    proof (rule union_rows [where G = ?G, OF _ all])
      fix x assume x: "x \<in> set evs"
      obtain p' ck ev where x': "x = (p', ck, ev)" by (cases x) auto
      show "\<Union> (evidence_facts_of t ` set (ev_rows p ids s x)) = ?G x"
        using one x by (cases ev) (simp_all add: x' ev_rows_other)
    qed
  qed
  show "\<Union> (memory_facts_of t ` set (List.concat (map (body_rows now p ids) (rc_memory c)))) = final_memory c p"
  proof -
    let ?G = "\<lambda>x :: (string \<times> string) \<times> (time \<times> event). case x of ((p', n), tm, EvMemory n' content mtype tags metadata) \<Rightarrow>
        if p' = p \<and> (''memory'', n) \<in> live p c then {(p, n, content, mtype, tags_column tags, meta_column metadata)} else {}
        | _ \<Rightarrow> {}"
    have one: "\<Union> (memory_facts_of t ` set (body_rows now p ids ((p', n), tm, EvMemory n' content mtype tags metadata))) =
        (if p' = p \<and> (''memory'', n) \<in> live p c then {(p, n, content, mtype, tags_column tags, meta_column metadata)} else {})"
      for p' n tm n' content mtype tags metadata
    proof (cases "p' = p \<and> (''memory'', n) \<in> live p c")
      case False
      then have "r \<notin> set (body_rows now p ids ((p', n), tm, EvMemory n' content mtype tags metadata))" for r
        unfolding in_body_rows using dom by blast
      then have "body_rows now p ids ((p', n), tm, EvMemory n' content mtype tags metadata) = []"
        by (metis list.set_intros(1) neq_Nil_conv)
      then show ?thesis unfolding if_not_P [OF False] by simp
    next
      case True
      then obtain i where i: "map_of ids (''memory'', n) = Some i" using dom by blast
      obtain e where e: "e \<in> set ?R" "e_id e = i" "e_name e = n" using row [OF i] by auto
      let ?r = "\<lparr>m_entity = i, m_content = content, m_mtype = mtype, m_tags = tags_column tags,
          m_metadata = meta_column metadata, m_created = now, m_updated = now\<rparr>"
      have "body_rows now p ids ((p', n), tm, EvMemory n' content mtype tags metadata) = [?r]"
        using True i by (simp add: body_rows_def)
      then show ?thesis using True extends_memory [OF x e(1), of ?r] e by simp
    qed
    have none: "body_rows now p ids ((p', n), tm, ev) = []"
      if "\<nexists>n' content mtype tags metadata. ev = EvMemory n' content mtype tags metadata" for p' n tm ev
      using that by (cases ev) (auto simp: body_rows_def)
    have all: "z \<in> final_memory c p \<longleftrightarrow> (\<exists>x\<in>set (rc_memory c). z \<in> ?G x)" for z
    proof
      assume "z \<in> final_memory c p"
      then obtain n tm n' content mtype tags metadata where
        "((p, n), (tm, EvMemory n' content mtype tags metadata)) \<in> set (rc_memory c)" "(''memory'', n) \<in> live p c"
        "z = (p, n, content, mtype, tags_column tags, meta_column metadata)" unfolding final_memory_def by blast
      then show "\<exists>x\<in>set (rc_memory c). z \<in> ?G x"
        by (intro bexI [of _ "((p, n), (tm, EvMemory n' content mtype tags metadata))"]) simp_all
    next
      assume "\<exists>x\<in>set (rc_memory c). z \<in> ?G x"
      then obtain x where x: "x \<in> set (rc_memory c)" "z \<in> ?G x" by (elim bexE)
      obtain p' n tm ev where "x = ((p', n), (tm, ev))" by (cases x) auto
      with x show "z \<in> final_memory c p" unfolding final_memory_def by (cases ev) (auto split: if_splits)
    qed
    show ?thesis
    proof (rule union_rows [where G = ?G, OF _ all])
      fix x assume "x \<in> set (rc_memory c)"
      obtain p' n tm ev where x': "x = ((p', n), tm, ev)" by (cases x) auto
      show "\<Union> (memory_facts_of t ` set (body_rows now p ids x)) = ?G x"
        using one by (cases ev) (simp_all add: x' none)
    qed
  qed
qed

lemma union_image_append:
  assumes "\<And>x. x \<in> set xs \<Longrightarrow> F x = G x"
  shows "\<Union> (F ` set (xs @ ys)) = \<Union> (G ` set xs) \<union> \<Union> (F ` set ys)"
  using SUP_cong [OF refl assms, of "set xs"] by (simp add: image_Un)

lemma extends_rows:
  assumes "extends pid p R s t"
  shows "e_pid e \<in> p_id ` set (partitions s) \<Longrightarrow> entity_facts_of t e = entity_facts_of s e"
    "t_pid r \<in> p_id ` set (partitions s) \<Longrightarrow> track_facts_of t r = track_facts_of s r"
  using extends_bindings(1) [OF assms] by (simp_all add: entity_facts_of_def track_facts_of_def)

lemma new_entities:
  assumes "extends pid p (final_rows now c p pid i (live_entities p c)) s t"
  shows "\<Union> (entity_facts_of t ` set (final_rows now c p pid i (live_entities p c))) = final_entities c p"
proof -
  let ?L = "live_entities p c"
  let ?h = "\<lambda>x. (p, fst (fst x), snd (fst x), es_path (snd x), es_tldr (snd x), meta_column (es_meta (snd x)),
      flag (rc_protect c) (p, fst x) False, flag (rc_noise c) (p, fst x) False)"
  have "entity_facts_of t (final_row now c p pid j x) = {?h x}" for j x
    using extends_bindings(2) [OF assms] by (auto simp: entity_facts_of_def)
  then have "map (entity_facts_of t) (final_rows now c p pid i ?L) = map (\<lambda>x. {?h x}) ?L"
    by (intro nth_equalityI) (simp_all add: nth_enumerate_eq)
  from arg_cong [OF this, of set] have "entity_facts_of t ` set (final_rows now c p pid i ?L) = (\<lambda>x. {?h x}) ` set ?L"
    by (simp del: map_map)
  then have "\<Union> (entity_facts_of t ` set (final_rows now c p pid i ?L)) = ?h ` set ?L" by (simp only:) blast
  also have "\<dots> = final_entities c p"
  proof (rule set_eqI)
    fix z show "z \<in> ?h ` set ?L \<longleftrightarrow> z \<in> final_entities c p"
      unfolding final_entities_def by (cases z) (auto simp: image_iff, force+)
  qed
  finally show ?thesis .
qed

lemma track_rows_pid: "r \<in> set (track_rows now pid p x) \<Longrightarrow> t_pid r = pid"
proof -
  assume r: "r \<in> set (track_rows now pid p x)"
  obtain p' path t on mt where "x = ((p', path), t, on, mt)" by (cases x) auto
  then obtain m where "r = \<lparr>t_pid = pid, t_path = path, t_mtime = m, t_synced = now\<rparr>"
    using r in_track_rows by blast
  then show "t_pid r = pid" by simp
qed

lemma opt_union:
  "(\<And>m. F (f m) = {g m}) \<Longrightarrow>
     \<Union> (F ` set (if b then (case x of None \<Rightarrow> [] | Some m \<Rightarrow> [f m]) else [])) =
     (if b then (case x of None \<Rightarrow> {} | Some m \<Rightarrow> {g m}) else {})"
  by (cases b; cases x) simp_all

lemma new_tracks:
  assumes "extends pid p R s t"
  shows "\<Union> (track_facts_of t ` set (List.concat (map (track_rows now pid p) (rc_tracks c)))) = final_tracks c p"
proof -
  let ?G = "\<lambda>x :: (string \<times> string) \<times> (time \<times> bool \<times> time option). case x of ((p', path), tm, on, mt) \<Rightarrow>
      if p' = p \<and> on then (case mt of None \<Rightarrow> {} | Some m \<Rightarrow> {(p, path, m)}) else {}"
  have all: "z \<in> final_tracks c p \<longleftrightarrow> (\<exists>x\<in>set (rc_tracks c). z \<in> ?G x)" for z
  proof
    assume "z \<in> final_tracks c p"
    then obtain path tm m where "((p, path), (tm, True, Some m)) \<in> set (rc_tracks c)" "z = (p, path, m)"
      unfolding final_tracks_def by blast
    then show "\<exists>x\<in>set (rc_tracks c). z \<in> ?G x" by (intro bexI [of _ "((p, path), (tm, True, Some m))"]) simp_all
  next
    assume "\<exists>x\<in>set (rc_tracks c). z \<in> ?G x"
    then obtain x where x: "x \<in> set (rc_tracks c)" "z \<in> ?G x" by (elim bexE)
    obtain p' path tm on mt where "x = ((p', path), (tm, on, mt))" by (cases x) auto
    with x show "z \<in> final_tracks c p" unfolding final_tracks_def by (auto split: if_splits option.splits)
  qed
  show ?thesis
  proof (rule union_rows [where G = ?G, OF _ all])
    fix x assume "x \<in> set (rc_tracks c)"
    obtain p' path tm on mt where x: "x = ((p', path), (tm, on, mt))" by (cases x) auto
    have one: "track_facts_of t \<lparr>t_pid = pid, t_path = path, t_mtime = m, t_synced = now\<rparr> = {(p, path, m)}" for m
      by (simp add: track_facts_of_def extends_bindings(2) [OF assms])
    show "\<Union> (track_facts_of t ` set (track_rows now pid p x)) = ?G x"
      unfolding x track_rows_def prod.case using one by (rule opt_union)
  qed
qed

text \<open>No row of a rebuilt store joins two partitions.\<close>

definition same_home :: "store \<Rightarrow> nat \<Rightarrow> nat \<Rightarrow> bool" where
  "same_home s i j =
     (\<forall>c e. get_entity_by_id i s = Some c \<and> get_entity_by_id j s = Some e \<longrightarrow> e_pid c = e_pid e)"

definition homed :: "store \<Rightarrow> bool" where
  "homed s = ((\<forall>r\<in>set (entity_links s). same_home s (k_concept r) (k_entity r)) \<and>
     (\<forall>v\<in>set (linkage_evidence s). same_home s (v_concept v) (v_entity v)))"

lemma homed_cong:
  "entities t = entities s \<Longrightarrow> entity_links t = entity_links s \<Longrightarrow> linkage_evidence t = linkage_evidence s \<Longrightarrow> homed t = homed s"
  by (simp add: homed_def same_home_def get_entity_by_id_def)

lemma homed_extends:
  assumes x: "extends pid p R s t" and ok: "rebuilt_ok s" and h: "homed s"
    and ls: "entity_links t = entity_links s @ L" "\<forall>r\<in>set L. k_concept r \<in> e_id ` set R \<and> k_entity r \<in> e_id ` set R"
    and vs: "linkage_evidence t = linkage_evidence s @ V" "\<forall>v\<in>set V. v_concept v \<in> e_id ` set R \<and> v_entity v \<in> e_id ` set R"
  shows "homed t"
proof -
  have new: "same_home t i j" if i: "i \<in> e_id ` set R" and j: "j \<in> e_id ` set R" for i j
  proof -
    obtain c e where "c \<in> set R" "e_id c = i" "e \<in> set R" "e_id e = j" using i j by blast
    then have "get_entity_by_id i t = Some c" "get_entity_by_id j t = Some e" "e_pid c = pid" "e_pid e = pid"
      using extends_lookup(2) [OF x] x by (auto simp: extends_def)
    then show ?thesis by (simp add: same_home_def)
  qed
  have old: "same_home t i j = same_home s i j" if "i < next_eid s" "j < next_eid s" for i j
    using extends_lookup(1) [OF x] that by (simp add: same_home_def)
  have "\<forall>r\<in>set (entity_links s). same_home t (k_concept r) (k_entity r)"
    "\<forall>v\<in>set (linkage_evidence s). same_home t (v_concept v) (v_entity v)"
    using h ok old by (simp_all add: homed_def rebuilt_ok_def)
  moreover have "\<forall>r\<in>set L. same_home t (k_concept r) (k_entity r)" "\<forall>v\<in>set V. same_home t (v_concept v) (v_entity v)"
    using ls(2) vs(2) new by blast+
  ultimately show ?thesis unfolding homed_def ls(1) vs(1) by auto
qed

lemma materialize_facts:
  assumes ok: "rebuilt_ok s" and c: "collapse_ok c links"
    and reg: "\<forall>x\<in>set links. lk_find (fst (snd (fst x))) s \<noteq> None"
      "\<forall>x\<in>set evs. lk_find (canonical_verb (ev_linkage (snd (snd x)))) s \<noteq> None"
    and fresh: "\<forall>pid. (pid, p) \<in> bindings s \<longrightarrow> pid \<notin> e_pid ` set (entities s) \<and> pid \<notin> t_pid ` set (tracked_files s)"
    and size: "next_eid s + length (live_entities p c) \<le> 2 ^ 32"
  obtains m' s' pid where "materialize now c links evs p (m, s) = Inr (m', s')" "rebuilt_ok s'"
    "bound s' = bound s" "linkage_types s' = linkage_types s" "next_eid s' = next_eid s + length (live_entities p c)"
    "facts_log s' = facts_log s" "log_enabled s' = log_enabled s" "bindings s' = insert (pid, p) (bindings s)"
    "\<forall>e\<in>set (entities s'). e \<in> set (entities s) \<or> e_pid e = pid"
    "\<forall>t\<in>set (tracked_files s'). t \<in> set (tracked_files s) \<or> t_pid t = pid"
    "entity_facts s' = entity_facts s \<union> final_entities c p" "link_facts s' = link_facts s \<union> final_links c links p"
    "evidence_facts s' = evidence_facts s \<union> final_evidence c evs p" "track_facts s' = track_facts s \<union> final_tracks c p"
    "memory_facts s' = memory_facts s \<union> final_memory c p" "homed s \<longrightarrow> homed s'"
proof -
  let ?L = "live_entities p c" let ?ids = "new_ids (next_eid s) ?L"
  obtain m' s' pid where run: "materialize now c links evs p (m, s) = Inr (m', s')" and ok': "rebuilt_ok s'"
    and b: "bindings s' = insert (pid, p) (bindings s)" "(pid, p) \<in> bindings s \<or> pid \<notin> p_id ` set (partitions s)"
      "bound s' = bound s" and lt: "linkage_types s' = linkage_types s" and n: "next_eid s' = next_eid s + length ?L"
    and lg: "facts_log s' = facts_log s" "log_enabled s' = log_enabled s"
    and es: "entities s' = entities s @ final_rows now c p pid (next_eid s) ?L"
    and ls: "entity_links s' = entity_links s @ List.concat (map (edge_rows p ?ids s) links)"
    and vs: "linkage_evidence s' = linkage_evidence s @ List.concat (map (ev_rows p ?ids s) evs)"
    and ts: "tracked_files s' = tracked_files s @ List.concat (map (track_rows now pid p) (rc_tracks c))"
    and ms: "memory_content s' = memory_content s @ List.concat (map (body_rows now p ?ids) (rc_memory c))"
    using materialize_ok [OF ok c reg fresh refl refl size, of now m] by (elim exE conjE) (rule that)
  let ?R = "final_rows now c p pid (next_eid s) ?L"
  have R: "\<forall>e\<in>set ?R. next_eid s \<le> e_id e \<and> e_pid e = pid" by (auto simp: in_enumerate)
  have x: "extends pid p ?R s s'" using ok ok' b lt es R unfolding extends_def by blast
  have dL: "distinct (map fst ?L)" by (rule live_entities_ok [OF c])
  note new = new_facts [OF x refl dL refl reg]
  have home: "(q, q') \<in> bindings s' \<longleftrightarrow> (q, q') \<in> bindings s" if "q \<in> p_id ` set (partitions s)" for q q'
    by (rule extends_bindings(1) [OF x that])
  note here = extends_bindings(2) [OF x]
  have old: "\<forall>e\<in>set (entities s). e_pid e \<in> p_id ` set (partitions s)"
    "\<forall>r\<in>set (entity_links s). k_entity r < next_eid s \<and> k_concept r < next_eid s"
    "\<forall>v\<in>set (linkage_evidence s). v_entity v < next_eid s \<and> v_concept v < next_eid s"
    "\<forall>t\<in>set (tracked_files s). t_pid t \<in> p_id ` set (partitions s)"
    "\<forall>m\<in>set (memory_content s). m_entity m < next_eid s" using ok by (simp_all add: rebuilt_ok_def)
  note split = union_image_append
  have E: "entity_facts s' = entity_facts s \<union> final_entities c p"
    unfolding entity_facts_def es new_entities [OF x, symmetric]
    by (rule split) (use extends_rows(1) [OF x] old(1) in blast)
  have T: "track_facts s' = track_facts s \<union> final_tracks c p"
    unfolding track_facts_def ts new_tracks [OF x, of now, symmetric]
    by (rule split) (use extends_rows(2) [OF x] old(4) in blast)
  have Lf: "link_facts s' = link_facts s \<union> final_links c links p"
    unfolding link_facts_def ls new(1) [symmetric] by (rule split) (use extends_old(1) [OF x] old(2) in blast)
  have V: "evidence_facts s' = evidence_facts s \<union> final_evidence c evs p"
    unfolding evidence_facts_def vs new(2) [symmetric] by (rule split) (use extends_old(2) [OF x] old(3) in blast)
  have M: "memory_facts s' = memory_facts s \<union> final_memory c p"
    unfolding memory_facts_def ms new(3) [symmetric] by (rule split) (use extends_old(3) [OF x] old(5) in blast)
  have mem: "i \<in> e_id ` set ?R" if i: "map_of ?ids kn = Some i" for kn i
  proof -
    obtain y where "(i, y) \<in> set (List.enumerate (next_eid s) ?L)"
      using i unfolding map_of_new_ids [OF dL] by blast
    then show ?thesis by force
  qed
  have H: "homed s \<longrightarrow> homed s'"
  proof
    assume h: "homed s"
    have "\<forall>r\<in>set (List.concat (map (edge_rows p ?ids s) links)). k_concept r \<in> e_id ` set ?R \<and> k_entity r \<in> e_id ` set ?R"
    proof
      fix r assume "r \<in> set (List.concat (map (edge_rows p ?ids s) links))"
      then obtain y where "r \<in> set (edge_rows p ?ids s y)" by auto
      from rows_in_ids(1) [OF this] show "k_concept r \<in> e_id ` set ?R \<and> k_entity r \<in> e_id ` set ?R" using mem by blast
    qed
    moreover have "\<forall>v\<in>set (List.concat (map (ev_rows p ?ids s) evs)). v_concept v \<in> e_id ` set ?R \<and> v_entity v \<in> e_id ` set ?R"
    proof
      fix v assume "v \<in> set (List.concat (map (ev_rows p ?ids s) evs))"
      then obtain y where "v \<in> set (ev_rows p ?ids s y)" by auto
      from rows_in_ids(2) [OF this] show "v_concept v \<in> e_id ` set ?R \<and> v_entity v \<in> e_id ` set ?R" using mem by blast
    qed
    ultimately show "homed s'" by (rule homed_extends [OF x ok h ls _ vs])
  qed
  have "\<forall>e\<in>set (entities s'). e \<in> set (entities s) \<or> e_pid e = pid" using R unfolding es by auto
  moreover have "\<forall>t\<in>set (tracked_files s'). t \<in> set (tracked_files s) \<or> t_pid t = pid"
    using track_rows_pid unfolding ts by fastforce
  ultimately show ?thesis by (rule that [OF run ok' b(3) lt n lg b(1) _ _ E Lf V T M H])
qed

section \<open>All partitions\<close>

definition fresh_in :: "string \<Rightarrow> store \<Rightarrow> bool" where
  "fresh_in p s = (\<forall>pid. (pid, p) \<in> bindings s \<longrightarrow>
     pid \<notin> e_pid ` set (entities s) \<and> pid \<notin> t_pid ` set (tracked_files s))"

lemma fresh_in_step:
  assumes "fresh_in q s" "q \<noteq> p" "rebuilt_ok s'" "bindings s' = insert (pid, p) (bindings s)"
    "\<forall>e\<in>set (entities s'). e \<in> set (entities s) \<or> e_pid e = pid"
    "\<forall>t\<in>set (tracked_files s'). t \<in> set (tracked_files s) \<or> t_pid t = pid"
  shows "fresh_in q s'"
  unfolding fresh_in_def
proof (intro allI impI)
  fix i assume i: "(i, q) \<in> bindings s'"
  have "wf_partitions s'" using assms(3) by (simp add: rebuilt_ok_def graph_inv_def frag_inv_def)
  then have "i \<noteq> pid" using bindings_inj [of s' "(i, q)" "(pid, p)"] i assms(2,4) by auto
  moreover have "(i, q) \<in> bindings s" using i assms(2,4) by auto
  ultimately show "i \<notin> e_pid ` set (entities s') \<and> i \<notin> t_pid ` set (tracked_files s')"
    using assms(1,5,6) unfolding fresh_in_def by blast
qed

lemma materialize_all:
  assumes "rebuilt_ok s" "collapse_ok c links" "\<forall>x\<in>set links. lk_find (fst (snd (fst x))) s \<noteq> None"
    "\<forall>x\<in>set evs. lk_find (canonical_verb (ev_linkage (snd (snd x)))) s \<noteq> None"
    "\<forall>p\<in>set ps. fresh_in p s" "distinct ps"
    "next_eid s + sum_list (map (\<lambda>p. length (live_entities p c)) ps) \<le> 2 ^ 32"
  shows "\<exists>m' s'. fold_r (materialize now c links evs) ps (m, s) = Inr (m', s') \<and> rebuilt_ok s' \<and>
    bound s' = bound s \<and> facts_log s' = facts_log s \<and> log_enabled s' = log_enabled s \<and>
    linkage_types s' = linkage_types s \<and> (homed s \<longrightarrow> homed s') \<and>
    entity_facts s' = entity_facts s \<union> (\<Union>p\<in>set ps. final_entities c p) \<and>
    link_facts s' = link_facts s \<union> (\<Union>p\<in>set ps. final_links c links p) \<and>
    evidence_facts s' = evidence_facts s \<union> (\<Union>p\<in>set ps. final_evidence c evs p) \<and>
    track_facts s' = track_facts s \<union> (\<Union>p\<in>set ps. final_tracks c p) \<and>
    memory_facts s' = memory_facts s \<union> (\<Union>p\<in>set ps. final_memory c p)"
  using assms
proof (induction ps arbitrary: m s)
  case Nil
  then show ?case by simp
next
  case (Cons p ps)
  have fr: "\<forall>pid. (pid, p) \<in> bindings s \<longrightarrow> pid \<notin> e_pid ` set (entities s) \<and> pid \<notin> t_pid ` set (tracked_files s)"
    using Cons.prems(5) by (simp add: fresh_in_def)
  have sz: "next_eid s + length (live_entities p c) \<le> 2 ^ 32" using Cons.prems(7) by simp
  obtain m1 s1 pid where step: "materialize now c links evs p (m, s) = Inr (m1, s1)" and ok: "rebuilt_ok s1"
    and b: "bound s1 = bound s" and lt: "linkage_types s1 = linkage_types s"
    and n: "next_eid s1 = next_eid s + length (live_entities p c)"
    and lg: "facts_log s1 = facts_log s" "log_enabled s1 = log_enabled s" and bs: "bindings s1 = insert (pid, p) (bindings s)"
    and rows: "\<forall>e\<in>set (entities s1). e \<in> set (entities s) \<or> e_pid e = pid"
      "\<forall>t\<in>set (tracked_files s1). t \<in> set (tracked_files s) \<or> t_pid t = pid"
    and facts: "entity_facts s1 = entity_facts s \<union> final_entities c p" "link_facts s1 = link_facts s \<union> final_links c links p"
      "evidence_facts s1 = evidence_facts s \<union> final_evidence c evs p" "track_facts s1 = track_facts s \<union> final_tracks c p"
      "memory_facts s1 = memory_facts s \<union> final_memory c p" and hm: "homed s \<longrightarrow> homed s1"
    using materialize_facts [OF Cons.prems(1-4) fr sz, of now m] by blast
  have lk: "lk_find l s1 = lk_find l s" for l using lt by (rule lk_find_cong)
  have "\<forall>q\<in>set ps. fresh_in q s1"
    using fresh_in_step [OF _ _ ok bs rows] Cons.prems(5,6) by auto
  then have "\<exists>m' s'. fold_r (materialize now c links evs) ps (m1, s1) = Inr (m', s') \<and> rebuilt_ok s' \<and>
    bound s' = bound s1 \<and> facts_log s' = facts_log s1 \<and> log_enabled s' = log_enabled s1 \<and>
    linkage_types s' = linkage_types s1 \<and> (homed s1 \<longrightarrow> homed s') \<and>
    entity_facts s' = entity_facts s1 \<union> (\<Union>p\<in>set ps. final_entities c p) \<and>
    link_facts s' = link_facts s1 \<union> (\<Union>p\<in>set ps. final_links c links p) \<and>
    evidence_facts s' = evidence_facts s1 \<union> (\<Union>p\<in>set ps. final_evidence c evs p) \<and>
    track_facts s' = track_facts s1 \<union> (\<Union>p\<in>set ps. final_tracks c p) \<and>
    memory_facts s' = memory_facts s1 \<union> (\<Union>p\<in>set ps. final_memory c p)"
    by (intro Cons.IH [OF ok Cons.prems(2)]) (use Cons.prems lk n in simp_all)
  then show ?case using step b lg lt facts hm by (elim exE conjE) (simp add: Un_assoc)
qed

section \<open>Collapsing\<close>

text \<open>What a log must say to be replayable: kinds that pass the CHECK constraint, and linkages
  named by their canonical verb.\<close>

fun event_ok :: "event \<Rightarrow> bool" where
  "event_ok (EvEntity kind name path tldr meta) = (kind \<in> set kinds)"
| "event_ok (EvLink x w) = (x_linkage x \<noteq> [] \<and> canonical_verb (x_linkage x) = x_linkage x)"
| "event_ok (EvUnlink x) = (x_linkage x \<noteq> [] \<and> canonical_verb (x_linkage x) = x_linkage x)"
| "event_ok (EvEvidence x f lno sp d) = (x_linkage x \<noteq> [])"
| "event_ok _ = True"

definition dkeys :: "('k \<times> 'v) list \<Rightarrow> 'k set" where
  "dkeys d = fst ` set d"

lemma dkeys_update [simp]:
  "dkeys (AList.update k v d) = insert k (dkeys d)" "dkeys [] = {}"
  by (simp_all add: dkeys_def dom_update)

lemma map_of_dkeys: "map_of d k \<noteq> None \<longleftrightarrow> k \<in> dkeys d"
  by (simp add: dkeys_def map_of_eq_None_iff)

lemma dkeys_lww [simp]: "dkeys (lww k t v d) = insert k (dkeys d)"
  using map_of_dkeys [of d k] by (auto simp: lww_def split: option.split)

lemma dkeys_setdefault [simp]: "dkeys (dict_setdefault k v d) = insert k (dkeys d)"
  using map_of_dkeys [of d k] by (auto simp: dict_setdefault_def dkeys_def)

lemma distinct_lww: "distinct (map fst d) \<Longrightarrow> distinct (map fst (lww k t v d))"
  by (simp add: lww_def distinct_update split: option.split)

definition verb_in :: "string set \<Rightarrow> string \<Rightarrow> bool" where
  "verb_in T l = (l \<in> T \<and> canonical_verb l = l)"

lemma verb_in_insert: "verb_in T l \<Longrightarrow> verb_in (insert l' T) l" "canonical_verb l = l \<Longrightarrow> verb_in (insert l T) l"
  by (simp_all add: verb_in_def)

definition collapsed_inv :: "collapsed \<Rightarrow> bool" where
  "collapsed_inv c =
     (distinct (map fst (rc_entities c)) \<and> distinct (map fst (rc_protect c)) \<and> distinct (map fst (rc_noise c)) \<and>
      distinct (map fst (rc_tracks c)) \<and> distinct (map fst (rc_memory c)) \<and> distinct (map fst (rc_links c)) \<and>
      (\<forall>k\<in>dkeys (rc_entities c). fst (snd k) \<in> set kinds) \<and>
      (\<forall>k\<in>dkeys (rc_links c). verb_in (dkeys (rc_types c)) (fst (snd k))) \<and>
      (\<forall>x\<in>set (rc_evidence c). ev_linkage (snd x) \<in> dkeys (rc_types c)))"

lemma see_type_simps [simp]:
  "rc_entities (see_type l c) = rc_entities c" "rc_protect (see_type l c) = rc_protect c"
  "rc_noise (see_type l c) = rc_noise c" "rc_tracks (see_type l c) = rc_tracks c"
  "rc_memory (see_type l c) = rc_memory c" "rc_links (see_type l c) = rc_links c"
  "rc_evidence (see_type l c) = rc_evidence c" "rc_tombs (see_type l c) = rc_tombs c"
  "l \<noteq> [] \<Longrightarrow> dkeys (rc_types (see_type l c)) = insert l (dkeys (rc_types c))"
  by (auto simp: see_type_def)

lemma collapsed_inv_see:
  assumes "collapsed_inv c" "event_ok ev"
  shows "collapsed_inv (see p t ev c)"
  using assms
  by (cases ev)
    (simp_all add: collapsed_inv_def see_entity_def Let_def distinct_update edge_key_of_def distinct_lww verb_in_insert)

lemma collapsed_inv_collapse:
  assumes "\<forall>g\<in>set gs. event_ok (g_event g)"
  shows "collapsed_inv (collapse dpart gs)"
proof -
  have "collapsed_inv (fold (\<lambda>g. see (event_part dpart g) (g_ts g) (g_event g)) xs c)"
    if "collapsed_inv c" "\<forall>g\<in>set xs. event_ok (g_event g)" for xs c
    using that by (induction xs arbitrary: c) (simp_all add: collapsed_inv_see)
  moreover have "collapsed_inv no_events" by (simp add: collapsed_inv_def no_events_def)
  ultimately show ?thesis using assms by (simp add: collapse_def)
qed

text \<open>Resolving legacy ends keeps the keys apart and the linkages registered.\<close>

lemma resolve_links_inv:
  assumes "collapsed_inv c"
  shows "distinct (map fst (snd (resolve_links c)))"
    "\<forall>k\<in>dkeys (snd (resolve_links c)). verb_in (dkeys (rc_types c)) (fst (snd k))"
proof -
  let ?P = "\<lambda>d. distinct (map fst d) \<and> (\<forall>k\<in>dkeys d. verb_in (dkeys (rc_types c)) (fst (snd k)))"
  have "?P (snd (fold (resolve_link c) xs acc))"
    if "?P (snd acc)" "\<forall>k\<in>dkeys xs. verb_in (dkeys (rc_types c)) (fst (snd k))" for xs acc
    using that
  proof (induction xs arbitrary: acc)
    case Nil
    then show ?case by simp
  next
    case (Cons x xs)
    obtain p l ck cn ek en t v n d where x: "x = ((p, l, ck, cn, ek, en), t, v)" "acc = (n, d)"
      by (cases x; cases acc) auto
    have "verb_in (dkeys (rc_types c)) l" using Cons.prems(2) x by (simp_all add: dkeys_def)
    then have "?P (snd (resolve_link c x acc))"
      using Cons.prems(1) x by (auto simp: resolve_link_def distinct_lww split: option.split)
    then show ?case using Cons by (simp add: dkeys_def)
  qed
  from this [of "(0, [])" "rc_links c"] assms show "distinct (map fst (snd (resolve_links c)))"
    "\<forall>k\<in>dkeys (snd (resolve_links c)). verb_in (dkeys (rc_types c)) (fst (snd k))"
    by (simp_all add: resolve_links_def collapsed_inv_def)
qed

lemma resolve_evidence_inv:
  assumes "collapsed_inv c" "x \<in> set (snd (resolve_evidence c))"
  shows "ev_linkage (snd (snd x)) \<in> dkeys (rc_types c)"
proof -
  let ?f = "\<lambda>(p, ev) (n, out).
        case ev of
          EvEvidence x f lno sp d \<Rightarrow>
            (case (case x_ckind x of Some (a # k) \<Rightarrow> Some (a # k)
                   | _ \<Rightarrow> resolve_legacy_kind (kinds_named p (x_c x) c)) of
               None \<Rightarrow> (Suc n, out)
             | Some k \<Rightarrow> (n, out @ [(p, k, ev)]))
        | _ \<Rightarrow> (n :: nat, out)"
  have "\<forall>x\<in>set (snd (fold ?f xs acc)). ev_linkage (snd (snd x)) \<in> dkeys (rc_types c)"
    if "\<forall>x\<in>set (snd acc). ev_linkage (snd (snd x)) \<in> dkeys (rc_types c)"
      "\<forall>x\<in>set xs. ev_linkage (snd x) \<in> dkeys (rc_types c)" for xs acc
    using that
  proof (induction xs arbitrary: acc)
    case Nil
    then show ?case by simp
  next
    case (Cons x xs)
    have "\<forall>y\<in>set (snd (?f x acc)). ev_linkage (snd (snd y)) \<in> dkeys (rc_types c)"
      using Cons.prems by (cases x; cases acc) (auto split: event.split option.split)
    then show ?case using Cons by simp
  qed
  from this [of "(0, [])" "rc_evidence c"] assms show ?thesis by (simp add: resolve_evidence_def collapsed_inv_def)
qed


section \<open>The rebuild\<close>

text \<open>A catalog with partitions and linkage types and nothing else.\<close>

definition blank :: "store \<Rightarrow> bool" where
  "blank s = (wf_partitions s \<and> wf_linkages s \<and> entities s = [] \<and> entity_links s = [] \<and> linkage_evidence s = [] \<and>
     tracked_files s = [] \<and> memory_content s = [] \<and> cache s = [] \<and> dirty s = [] \<and> disk s = [] \<and>
     link_buffer s = None \<and> next_eid s = 1)"

lemma blank_rebuilt:
  assumes "blank s" "replay_mode s"
  shows "rebuilt_ok s" "fresh_in p s" "entity_facts s = {}" "link_facts s = {}" "evidence_facts s = {}"
    "track_facts s = {}" "memory_facts s = {}"
proof -
  have "frag_ok s" using assms by (simp add: blank_def frag_ok_def disk_value_def)
  then have f: "frag_inv s" using assms by (simp add: frag_inv_def blank_def)
  have "shadow_ok s"
  proof (rule shadow_okI)
    show "wf_partitions s" using assms by (simp add: blank_def)
    have "frag_value b l s = {}" for b l using assms by (simp add: blank_def frag_value_def disk_value_def)
    then show "(e, lid, c) \<in> link_key ` set (entity_links s) \<longleftrightarrow> (\<exists>b\<in>bindings s. pack c e \<in> frag_value b l s)"
      for l lid c e using assms by (simp add: blank_def)
  qed
  then have "graph_inv s" using f assms by (simp add: graph_inv_def blank_def)
  then show "rebuilt_ok s" using assms by (simp add: rebuilt_ok_def blank_def wf_entities_def)
qed (use assms in \<open>simp_all add: blank_def fresh_in_def facts_defs\<close>)

lemma blank_switches [simp]:
  "blank (s\<lparr>facts_log := l\<rparr>) = blank s" "blank (s\<lparr>log_enabled := b\<rparr>) = blank s" "blank (s\<lparr>replay_mode := m\<rparr>) = blank s"
  by (simp_all add: blank_def wf_partitions_def wf_linkages_def partition_id_of_def)

lemma default_verbs: "\<forall>d\<in>set default_linkages. canonical_verb (fst d) = fst d"
  by code_simp

lemma blank_seed:
  assumes "blank s" "canonical_verb (fst d) = fst d"
  shows "blank (seed_linkage d s) \<and> bound (seed_linkage d s) = bound s"
proof (cases "lk_find (fst d) s")
  case (Some i)
  then show ?thesis using assms by (simp add: seed_linkage_def split_beta)
next
  case None
  then have "fst d \<notin> l_name ` set (linkage_types s)" by (simp add: lk_find_None)
  then show ?thesis using assms None
    by (auto simp: seed_linkage_def split_beta blank_def wf_partitions_def wf_linkages_def partition_id_of_def)
qed

lemma blank_init: "blank (init_store n) \<and> bound (init_store n) = (1, n)"
proof -
  have "blank (fold seed_linkage ds s) \<and> bound (fold seed_linkage ds s) = bound s"
    if "blank s" "\<forall>d\<in>set ds. canonical_verb (fst d) = fst d" for ds s
    using that by (induction ds arbitrary: s) (simp_all add: blank_seed)
  moreover have "blank (open_store n)" "bound (open_store n) = (1, n)"
    by (simp_all add: blank_def open_store_def ensure_partition_def insert_partition_def fresh_store_def
        partition_id_of_def wf_partitions_def wf_linkages_def)
  ultimately show ?thesis using default_verbs unfolding init_store_def by metis
qed

lemma blank_add:
  "blank s \<Longrightarrow> replay_mode s \<Longrightarrow> blank (snd (add_linkage_type now l d ds s)) \<and> replay_mode (snd (add_linkage_type now l d ds s)) \<and>
     bound (snd (add_linkage_type now l d ds s)) = bound s \<and> facts_log (snd (add_linkage_type now l d ds s)) = facts_log s \<and>
     log_enabled (snd (add_linkage_type now l d ds s)) = log_enabled s"
  using add_linkage_wf [of s now l d ds] quiet_linkage [of s now l d ds]
  by (auto simp: blank_def quiet_def add_linkage_type_def Let_def wf_partitions_def partition_id_of_def split: option.split)

lemma register_ok:
  assumes "blank s" "replay_mode s"
  shows "blank (register_types now c s)" "replay_mode (register_types now c s)"
    "bound (register_types now c s) = bound s" "facts_log (register_types now c s) = facts_log s"
    "log_enabled (register_types now c s) = log_enabled s"
    "l \<in> dkeys (rc_types c) \<Longrightarrow> lk_find (canonical_verb l) (register_types now c s) \<noteq> None"
proof -
  let ?add = "\<lambda>(l, (directed, descr)) s. snd (add_linkage_type now l directed (or_none descr) s)"
  have all: "blank (fold ?add xs s) \<and> replay_mode (fold ?add xs s) \<and> bound (fold ?add xs s) = bound s \<and>
      facts_log (fold ?add xs s) = facts_log s \<and> log_enabled (fold ?add xs s) = log_enabled s"
    if "blank s" "replay_mode s" for xs s
    using that
  proof (induction xs arbitrary: s)
    case (Cons x xs)
    obtain l d ds where x: "x = (l, d, ds)" by (cases x) auto
    show ?case using Cons.IH [of "?add x s"] blank_add [OF Cons.prems] by (simp add: x)
  qed simp
  then show "blank (register_types now c s)" "replay_mode (register_types now c s)"
    "bound (register_types now c s) = bound s" "facts_log (register_types now c s) = facts_log s"
    "log_enabled (register_types now c s) = log_enabled s"
    using assms by (simp_all add: register_types_def)
  have keep: "lk_find n s \<noteq> None \<Longrightarrow> lk_find n (fold ?add xs s) \<noteq> None" for n xs s
    by (induction xs arbitrary: s) (auto simp: lk_find_add)
  have "l \<in> fst ` set xs \<Longrightarrow> lk_find (canonical_verb l) (fold ?add xs s) \<noteq> None" for xs s
  proof (induction xs arbitrary: s)
    case (Cons x xs)
    obtain l' d ds where x: "x = (l', d, ds)" by (cases x) auto
    show ?case
    proof (cases "l = l'")
      case True
      then have "lk_find (canonical_verb l) (?add x s) \<noteq> None" by (simp add: x lk_find_add)
      then show ?thesis using keep [of "canonical_verb l" "?add x s" xs] by simp
    next
      case False
      then show ?thesis using Cons x by simp
    qed
  qed simp
  then show "l \<in> dkeys (rc_types c) \<Longrightarrow> lk_find (canonical_verb l) (register_types now c s) \<noteq> None"
    by (simp add: register_types_def dkeys_def)
qed

lemma sum_live:
  assumes "distinct ps"
  shows "sum_list (map (\<lambda>p. length (live_entities p c)) ps) \<le> length (rc_entities c)"
proof -
  let ?Q = "\<lambda>p x. fst (fst x) = p \<and> outlives c (fst x) (snd x)"
  have "(\<Sum>p\<in>A. length (filter (?Q p) xs)) \<le> length xs" if "finite A" for A xs
  proof (induction xs)
    case (Cons x xs)
    have "(\<Sum>p\<in>A. length (filter (?Q p) (x # xs))) = (\<Sum>p\<in>A. of_bool (?Q p x) + length (filter (?Q p) xs))"
      by (rule sum.cong) simp_all
    also have "\<dots> = card (A \<inter> {p. ?Q p x}) + (\<Sum>p\<in>A. length (filter (?Q p) xs))"
      using that by (simp add: sum.distrib)
    also have "card (A \<inter> {p. ?Q p x}) \<le> card {fst (fst x)}" by (rule card_mono) auto
    finally show ?case using Cons.IH by simp
  qed simp
  then have "(\<Sum>p\<in>set ps. length (filter (?Q p) (rc_entities c))) \<le> length (rc_entities c)" by simp
  then show ?thesis
    using sum_list_distinct_conv_sum_set [OF assms, of "\<lambda>p. length (live_entities p c)"]
    by (simp add: live_entities_def case_prod_unfold)
qed

lemma facts_cong:
  assumes "partitions s = partitions t" "entities s = entities t" "entity_links s = entity_links t"
    "linkage_types s = linkage_types t" "linkage_evidence s = linkage_evidence t"
    "tracked_files s = tracked_files t" "memory_content s = memory_content t"
  shows "entity_facts s = entity_facts t" "link_facts s = link_facts t" "evidence_facts s = evidence_facts t"
    "track_facts s = track_facts t" "memory_facts s = memory_facts t"
proof -
  have b: "bindings s = bindings t" using assms(1) by (simp add: bindings_def)
  have "get_entity_by_id i s = get_entity_by_id i t" for i using assms(2) by (simp add: get_entity_by_id_def)
  then have e: "entity_in q i s = entity_in q i t" for q i unfolding entity_in_def by presburger
  have "linkage_raw_name l s = linkage_raw_name l t" for l using assms(4) by (simp add: linkage_raw_name_def)
  then have j: "joined q l c i s = joined q l c i t" for q l c i using e unfolding joined_def by presburger
  show "entity_facts s = entity_facts t" "link_facts s = link_facts t" "evidence_facts s = evidence_facts t"
    "track_facts s = track_facts t" "memory_facts s = memory_facts t"
    unfolding facts_defs entity_facts_of_def link_facts_of_def evidence_facts_of_def track_facts_of_def memory_facts_of_def
      assms b e j by (rule refl)+
qed

lemma flush_tables [simp]:
  "linkage_evidence (flush_fragments s) = linkage_evidence s" "tracked_files (flush_fragments s) = tracked_files s"
  "memory_content (flush_fragments s) = memory_content s" "facts_log (flush_fragments s) = facts_log s"
  "log_enabled (flush_fragments s) = log_enabled s" "next_eid (flush_fragments s) = next_eid s"
proof -
  have "linkage_evidence (fold flush_entry D s) = linkage_evidence s \<and> tracked_files (fold flush_entry D s) = tracked_files s \<and>
    memory_content (fold flush_entry D s) = memory_content s \<and> facts_log (fold flush_entry D s) = facts_log s \<and>
    log_enabled (fold flush_entry D s) = log_enabled s \<and> next_eid (fold flush_entry D s) = next_eid s" for D
    by (induction D arbitrary: s) (auto simp: flush_entry_def Let_def split: option.split)
  then show "linkage_evidence (flush_fragments s) = linkage_evidence s" "tracked_files (flush_fragments s) = tracked_files s"
    "memory_content (flush_fragments s) = memory_content s" "facts_log (flush_fragments s) = facts_log s"
    "log_enabled (flush_fragments s) = log_enabled s" "next_eid (flush_fragments s) = next_eid s"
    by (simp_all add: flush_fragments_def)
qed

text \<open>A partition without entities and tracked files in the log gets nothing.\<close>

lemma final_parts:
  "(\<Union>p\<in>set (replay_parts c). final_entities c p) = (\<Union>p. final_entities c p)"
  "(\<Union>p\<in>set (replay_parts c). final_links c links p) = (\<Union>p. final_links c links p)"
  "(\<Union>p\<in>set (replay_parts c). final_evidence c evs p) = (\<Union>p. final_evidence c evs p)"
  "(\<Union>p\<in>set (replay_parts c). final_tracks c p) = (\<Union>p. final_tracks c p)"
  "(\<Union>p\<in>set (replay_parts c). final_memory c p) = (\<Union>p. final_memory c p)"
proof -
  have l: "set (live_entities p c) = {}" if "p \<notin> set (replay_parts c)" for p
    using that by (force simp: replay_parts_def live_entities_def filter_empty_conv case_prod_unfold)
  have t: "final_tracks c p = {}" if "p \<notin> set (replay_parts c)" for p
    using that by (force simp: replay_parts_def final_tracks_def)
  have "final_entities c p = {}" "final_links c links p = {}" "final_evidence c evs p = {}" "final_memory c p = {}"
    if "p \<notin> set (replay_parts c)" for p
    by (simp_all only: final_entities_def final_links_def final_evidence_def final_memory_def l [OF that]) auto
  with t show "(\<Union>p\<in>set (replay_parts c). final_entities c p) = (\<Union>p. final_entities c p)"
    "(\<Union>p\<in>set (replay_parts c). final_links c links p) = (\<Union>p. final_links c links p)"
    "(\<Union>p\<in>set (replay_parts c). final_evidence c evs p) = (\<Union>p. final_evidence c evs p)"
    "(\<Union>p\<in>set (replay_parts c). final_tracks c p) = (\<Union>p. final_tracks c p)"
    "(\<Union>p\<in>set (replay_parts c). final_memory c p) = (\<Union>p. final_memory c p)" by fastforce+
qed

lemma rebuild_lemma:
  assumes "facts_log s \<noteq> []" "\<forall>g\<in>set (facts_log s). event_ok (g_event g)"
    "c = collapse (snd (bound s)) (facts_log s)" "length (rc_entities c) < 2 ^ 32"
  shows "\<exists>r s'. rebuild_index_from_log now s = Inr (r, s') \<and> graph_inv s' \<and> wf_entities s' \<and>
    facts_log s' = facts_log s \<and> log_enabled s' = log_enabled s \<and> snd (bound s') = snd (bound s) \<and> homed s' \<and>
    entity_facts s' = (\<Union>p. final_entities c p) \<and>
    link_facts s' = (\<Union>p. final_links c (snd (resolve_links c)) p) \<and>
    evidence_facts s' = (\<Union>p. final_evidence c (snd (resolve_evidence c)) p) \<and>
    track_facts s' = (\<Union>p. final_tracks c p) \<and> memory_facts s' = (\<Union>p. final_memory c p)"
proof -
  have inv: "collapsed_inv c" unfolding assms(3) by (rule collapsed_inv_collapse [OF assms(2)])
  let ?links = "snd (resolve_links c)" let ?evs = "snd (resolve_evidence c)"
  let ?w = "(wiped s)\<lparr>replay_mode := True\<rparr>" let ?s1 = "register_types now c ?w"
  have w: "blank ?w" "replay_mode ?w" "snd (bound ?w) = snd (bound s)" "facts_log ?w = facts_log s" "log_enabled ?w = log_enabled s"
    using blank_init [of "snd (bound s)"] by (simp_all add: wiped_def)
  note r = register_ok [OF w(1,2), where now = now and c = c]
  note b = blank_rebuilt [OF r(1,2)]
  have lk: "verb_in (dkeys (rc_types c)) l \<Longrightarrow> lk_find l ?s1 \<noteq> None" for l using r(6) [of l] by (simp add: verb_in_def)
  have cok: "collapse_ok c ?links"
    using inv resolve_links_inv(1) [OF inv] by (auto simp: collapse_ok_def collapsed_inv_def dkeys_def)
  have reg: "\<forall>x\<in>set ?links. lk_find (fst (snd (fst x))) ?s1 \<noteq> None"
    using resolve_links_inv(2) [OF inv] lk by (simp add: dkeys_def)
  have reg2: "\<forall>x\<in>set ?evs. lk_find (canonical_verb (ev_linkage (snd (snd x)))) ?s1 \<noteq> None"
    using resolve_evidence_inv [OF inv] r(6) by blast
  have "next_eid ?s1 = 1" using r(1) by (simp add: blank_def)
  moreover have dp: "distinct (replay_parts c)" by (simp add: replay_parts_def)
  ultimately have sz: "next_eid ?s1 + sum_list (map (\<lambda>p. length (live_entities p c)) (replay_parts c)) \<le> 2 ^ 32"
    using sum_live [OF dp, of c] assms(4) by simp
  have fr: "\<forall>p\<in>set (replay_parts c). fresh_in p ?s1" using b(2) by simp
  let ?m0 = "\<lparr>n_entities = 0, n_links = 0, n_evidence = 0, n_tracked = 0, n_memory = 0, n_links_dead = 0, n_evidence_dead = 0\<rparr>"
  obtain m s2 where run: "fold_r (materialize now c ?links ?evs) (replay_parts c) (?m0, ?s1) = Inr (m, s2)"
    and ok: "rebuilt_ok s2" and s2: "bound s2 = bound ?s1" "facts_log s2 = facts_log ?s1" "log_enabled s2 = log_enabled ?s1"
    and f: "entity_facts s2 = (\<Union>p. final_entities c p)" "link_facts s2 = (\<Union>p. final_links c ?links p)"
      "evidence_facts s2 = (\<Union>p. final_evidence c ?evs p)" "track_facts s2 = (\<Union>p. final_tracks c p)"
      "memory_facts s2 = (\<Union>p. final_memory c p)" and hm: "homed ?s1 \<longrightarrow> homed s2"
    using materialize_all [OF b(1) cok reg reg2 fr dp sz, of now ?m0] unfolding final_parts b(3-7) Un_empty_left
    by (elim exE conjE) (rule that)
  let ?s' = "flush_fragments (s2\<lparr>replay_mode := False\<rparr>)"
  have "graph_inv (s2\<lparr>replay_mode := False\<rparr>)"
    using ok graph_inv_cong [of "s2\<lparr>replay_mode := False\<rparr>" s2] by (simp add: rebuilt_ok_def)
  then have g: "graph_inv ?s'" by (rule graph_step_inv [OF step_flush])
  have "homed ?s1" using r(1) by (simp add: blank_def homed_def)
  then have h: "homed ?s'" using hm homed_cong [of ?s' s2] by simp
  have "wf_entities ?s'" using ok by (simp add: rebuilt_ok_def wf_entities_def)
  moreover have "facts_log ?s' = facts_log s" "log_enabled ?s' = log_enabled s" "snd (bound ?s') = snd (bound s)"
    using s2 r(3-5) w by simp_all
  moreover have "entity_facts ?s' = entity_facts s2" "link_facts ?s' = link_facts s2" "evidence_facts ?s' = evidence_facts s2"
    "track_facts ?s' = track_facts s2" "memory_facts ?s' = memory_facts s2" by (rule facts_cong; simp)+
  moreover have "\<exists>rep. rebuild_index_from_log now s = Inr (rep, ?s')"
    using assms(1) run by (simp add: rebuild_index_from_log_def Let_def case_prod_unfold assms(3) [symmetric])
  ultimately show ?thesis using g f h by (elim exE) (intro exI conjI, assumption, simp_all)
qed

text \<open>C3. Rebuilding a log whose events have valid kinds and canonical verbs succeeds, and the new
  catalog says exactly what the collapsed log says: the entities not outlived by a tombstone with
  the last value of each column and flag, the links whose last event is a link between two such
  entities of the partition, the evidence between such entities, the files whose last event tracks
  them, and the last memory bodies. Its forward index is the shadow of its fragments, and the log is
  the one it was rebuilt from.\<close>

theorem rebuild_correct:
  assumes "facts_log s \<noteq> []" "\<forall>g\<in>set (facts_log s). event_ok (g_event g)"
    "c = collapse (snd (bound s)) (facts_log s)" "length (rc_entities c) < 2 ^ 32"
  shows "\<exists>r s'. rebuild_index_from_log now s = Inr (r, s') \<and> graph_inv s' \<and> wf_entities s' \<and>
    facts_log s' = facts_log s \<and> entity_facts s' = (\<Union>p. final_entities c p) \<and>
    link_facts s' = (\<Union>p. final_links c (snd (resolve_links c)) p) \<and>
    evidence_facts s' = (\<Union>p. final_evidence c (snd (resolve_evidence c)) p) \<and>
    track_facts s' = (\<Union>p. final_tracks c p) \<and> memory_facts s' = (\<Union>p. final_memory c p)"
  using rebuild_lemma [OF assms, of now] by (elim exE conjE) (intro exI conjI)

section \<open>Witnesses\<close>

text \<open>A link whose entity was deleted and came back, and one unlinked.\<close>

definition link_log :: "log_rec list" where
  "link_log = map (\<lambda>(t, ev). \<lparr>g_ts = t, g_partition = None, g_event = ev\<rparr>)
     [(1, EvEntity ''concept'' ''c'' None None None), (2, EvEntity ''doc'' ''d'' None None None),
      (3, EvLink (edge_fields ''mentions'' (Some ''concept'') ''c'' ''doc'' ''d'') (Some 2)),
      (4, EvLink (edge_fields ''defines'' None ''c'' ''doc'' ''d'') None),
      (5, EvUnlink (edge_fields ''defines'' None ''c'' ''doc'' ''d'')),
      (6, EvTombstone ''doc'' ''d''), (7, EvEntity ''doc'' ''d'' (Some ''p'') None None)]"

definition log_store :: store where
  "log_store = (open_store ''a'')\<lparr>facts_log := link_log\<rparr>"

lemma log_store_simps [simp]: "facts_log log_store = link_log" "bound log_store = (1, ''a'')"
  by (simp_all add: log_store_def open_store_def ensure_partition_def insert_partition_def fresh_store_def
      partition_id_of_def Let_def)

lemma link_log_collapse: "collapse ''a'' link_log =
  \<lparr>rc_types = [(''mentions'', (True, [])), (''defines'', (True, []))],
   rc_entities = [((''a'', ''concept'', ''c''), \<lparr>es_path = None, es_tldr = None, es_meta = None, es_latest = 1\<rparr>),
                  ((''a'', ''doc'', ''d''), \<lparr>es_path = Some ''p'', es_tldr = None, es_meta = None, es_latest = 7\<rparr>)],
   rc_tombs = [((''a'', ''doc'', ''d''), 6)], rc_protect = [], rc_noise = [],
   rc_links = [((''a'', ''mentions'', Some ''concept'', ''c'', ''doc'', ''d''), (3, True, Some 2)),
               ((''a'', ''defines'', None, ''c'', ''doc'', ''d''), (5, False, None))],
   rc_tracks = [], rc_evidence = [], rc_memory = []\<rparr>"
  by (simp add: collapse_def link_log_def no_events_def event_part_def edge_fields_def edge_key_of_def see_entity_def
      see_type_def dict_setdefault_def lww_def coalesce_def Let_def)

lemma link_log_ok: "link_log \<noteq> []" "\<forall>g\<in>set link_log. event_ok (g_event g)"
  "length (rc_entities (collapse ''a'' link_log)) < 2 ^ 32"
proof -
  show "link_log \<noteq> []" "\<forall>g\<in>set link_log. event_ok (g_event g)"
    by (simp_all add: link_log_def edge_fields_def kinds_def canonical_verb_def verb_aliases_def)
  have "length (rc_entities (collapse ''a'' link_log)) = 2" unfolding link_log_collapse by simp
  then show "length (rc_entities (collapse ''a'' link_log)) < 2 ^ 32" by simp
qed

lemma link_log_final:
  "(''a'', ''mentions'', ''concept'', ''c'', ''doc'', ''d'', Some 2)
     \<in> final_links (collapse ''a'' link_log) (snd (resolve_links (collapse ''a'' link_log))) ''a''"
proof -
  let ?c = "collapse ''a'' link_log"
  have k: "((''a'', ''mentions'', ''concept'', ''c'', ''doc'', ''d''), (3, True, Some 2)) \<in> set (snd (resolve_links ?c))"
    unfolding link_log_collapse
    by (simp add: resolve_links_def resolve_link_def lww_def kinds_named_def resolve_legacy_kind_def)
  have "map fst (live_entities ''a'' ?c) = [(''concept'', ''c''), (''doc'', ''d'')]"
    unfolding link_log_collapse by (simp add: live_entities_def outlives_def)
  from arg_cong [OF this, of set] have "(''concept'', ''c'') \<in> live ''a'' ?c" "(''doc'', ''d'') \<in> live ''a'' ?c"
    unfolding set_map by simp_all
  with k show ?thesis unfolding final_links_def by blast
qed

text \<open>The link recorded before the deletion is there again.\<close>

theorem rebuild_correct_witness:
  "\<exists>r s'. rebuild_index_from_log 9 log_store = Inr (r, s') \<and>
     (''a'', ''mentions'', ''concept'', ''c'', ''doc'', ''d'', Some 2) \<in> link_facts s'"
proof -
  have "\<exists>r s'. rebuild_index_from_log 9 log_store = Inr (r, s') \<and> graph_inv s' \<and> wf_entities s' \<and>
    facts_log s' = facts_log log_store \<and> entity_facts s' = (\<Union>p. final_entities (collapse ''a'' link_log) p) \<and>
    link_facts s' = (\<Union>p. final_links (collapse ''a'' link_log) (snd (resolve_links (collapse ''a'' link_log))) p) \<and>
    evidence_facts s' = (\<Union>p. final_evidence (collapse ''a'' link_log) (snd (resolve_evidence (collapse ''a'' link_log))) p) \<and>
    track_facts s' = (\<Union>p. final_tracks (collapse ''a'' link_log) p) \<and>
    memory_facts s' = (\<Union>p. final_memory (collapse ''a'' link_log) p)"
    by (rule rebuild_correct) (simp_all add: link_log_ok del: power_numeral)
  then obtain r s' where "rebuild_index_from_log 9 log_store = Inr (r, s')"
    "link_facts s' = (\<Union>p. final_links (collapse ''a'' link_log) (snd (resolve_links (collapse ''a'' link_log))) p)"
    by (elim exE conjE) (rule that)
  then show ?thesis using link_log_final by blast
qed

end
