(* ===== verification/Roundtrip.thy ===== *)
theory Roundtrip
  imports RebuildFacts
begin

text \<open>
  Dumping a catalog and rebuilding it from the dump: the events of the dump carry each key once,
  so the collapsed log lists the rows of the catalog, and the rebuilt store has its facts.
\<close>

section \<open>Logs with distinct keys\<close>

text \<open>The dictionary entry an event makes in each component.\<close>

definition ent_entry :: "string \<Rightarrow> log_rec \<Rightarrow> (ent_key \<times> ent_state) list" where
  "ent_entry dp g = (case g_event g of
     EvEntity k n path tldr meta \<Rightarrow>
       [((event_part dp g, k, n), \<lparr>es_path = path, es_tldr = tldr, es_meta = meta, es_latest = max 0 (g_ts g)\<rparr>)]
   | _ \<Rightarrow> [])"

definition protect_entry :: "string \<Rightarrow> log_rec \<Rightarrow> (ent_key \<times> (time \<times> bool)) list" where
  "protect_entry dp g = (case g_event g of EvProtect k n v \<Rightarrow> [((event_part dp g, k, n), (g_ts g, v))] | _ \<Rightarrow> [])"

definition noise_entry :: "string \<Rightarrow> log_rec \<Rightarrow> (ent_key \<times> (time \<times> bool)) list" where
  "noise_entry dp g = (case g_event g of EvNoise k n v \<Rightarrow> [((event_part dp g, k, n), (g_ts g, v))] | _ \<Rightarrow> [])"

definition link_entry :: "string \<Rightarrow> log_rec \<Rightarrow> (edge_key \<times> (time \<times> bool \<times> weight option)) list" where
  "link_entry dp g = (case g_event g of
     EvLink x w \<Rightarrow> [(edge_key_of (event_part dp g) x, (g_ts g, True, w))]
   | EvUnlink x \<Rightarrow> [(edge_key_of (event_part dp g) x, (g_ts g, False, None))]
   | _ \<Rightarrow> [])"

definition track_entry :: "string \<Rightarrow> log_rec \<Rightarrow> ((string \<times> string) \<times> (time \<times> bool \<times> time option)) list" where
  "track_entry dp g = (case g_event g of
     EvTrack path m \<Rightarrow> [((event_part dp g, path), (g_ts g, True, m))]
   | EvUntrack path \<Rightarrow> [((event_part dp g, path), (g_ts g, False, None))]
   | _ \<Rightarrow> [])"

definition evidence_entry :: "string \<Rightarrow> log_rec \<Rightarrow> (string \<times> event) list" where
  "evidence_entry dp g = (case g_event g of EvEvidence x f l sp d \<Rightarrow> [(event_part dp g, EvEvidence x f l sp d)] | _ \<Rightarrow> [])"

definition memory_entry :: "string \<Rightarrow> log_rec \<Rightarrow> ((string \<times> string) \<times> (time \<times> event)) list" where
  "memory_entry dp g = (case g_event g of
     EvMemory n c mt tg md \<Rightarrow> [((event_part dp g, n), (g_ts g, EvMemory n c mt tg md))] | _ \<Rightarrow> [])"

lemmas entry_defs = ent_entry_def protect_entry_def noise_entry_def link_entry_def track_entry_def
  evidence_entry_def memory_entry_def

lemma lww_new: "k \<notin> dkeys d \<Longrightarrow> lww k t v d = d @ [(k, (t, v))]"
proof -
  assume k: "k \<notin> dkeys d"
  then have "map_of d k = None" using map_of_dkeys [of d k] by blast
  then show ?thesis using k by (simp add: lww_def dkeys_def update_absent)
qed

definition step_see :: "string \<Rightarrow> log_rec \<Rightarrow> collapsed \<Rightarrow> collapsed" where
  "step_see dp g = see (event_part dp g) (g_ts g) (g_event g)"

lemma fold_entries:
  assumes "\<And>g c. distinct (map fst (part c @ entry g)) \<Longrightarrow> part (step g c) = part c @ entry g"
    "distinct (map fst (part c @ List.concat (map entry gs)))"
  shows "part (fold step gs c) = part c @ List.concat (map entry gs)"
  using assms(2)
proof (induction gs arbitrary: c)
  case (Cons g gs)
  then have s: "part (step g c) = part c @ entry g" by (intro assms(1)) auto
  have "distinct (map fst (part (step g c) @ List.concat (map entry gs)))" using Cons.prems unfolding s by simp
  from Cons.IH [OF this] show ?case by (simp add: s)
qed simp

lemma see_entries:
  "distinct (map fst (rc_entities c @ ent_entry dp g)) \<Longrightarrow> rc_entities (step_see dp g c) = rc_entities c @ ent_entry dp g"
  "distinct (map fst (rc_protect c @ protect_entry dp g)) \<Longrightarrow> rc_protect (step_see dp g c) = rc_protect c @ protect_entry dp g"
  "distinct (map fst (rc_noise c @ noise_entry dp g)) \<Longrightarrow> rc_noise (step_see dp g c) = rc_noise c @ noise_entry dp g"
  "distinct (map fst (rc_links c @ link_entry dp g)) \<Longrightarrow> rc_links (step_see dp g c) = rc_links c @ link_entry dp g"
  "distinct (map fst (rc_tracks c @ track_entry dp g)) \<Longrightarrow> rc_tracks (step_see dp g c) = rc_tracks c @ track_entry dp g"
  "distinct (map fst (rc_memory c @ memory_entry dp g)) \<Longrightarrow> rc_memory (step_see dp g c) = rc_memory c @ memory_entry dp g"
  "rc_evidence (step_see dp g c) = rc_evidence c @ evidence_entry dp g"
proof -
  show "distinct (map fst (rc_entities c @ ent_entry dp g)) \<Longrightarrow> rc_entities (step_see dp g c) = rc_entities c @ ent_entry dp g"
    using map_of_dkeys [of "rc_entities c"]
    by (cases "g_event g") (auto simp: step_see_def entry_defs see_entity_def Let_def dkeys_def update_absent coalesce_def
        split: option.split)
qed (cases "g_event g"; auto simp: step_see_def entry_defs see_entity_def Let_def lww_new dkeys_def; fail)+

lemma mset_concat_perm: "mset xs = mset ys \<Longrightarrow> mset (List.concat (map f xs)) = mset (List.concat (map f ys))"
  unfolding mset_concat map_map sum_mset_sum_list [symmetric] mset_map by simp

lemma collapse_part:
  assumes see: "\<And>g c. distinct (map fst (part c @ entry g)) \<Longrightarrow> part (step_see dp g c) = part c @ entry g"
    and empty: "part no_events = []" and d: "distinct (map fst (List.concat (map entry gs)))"
  shows "mset (part (collapse dp gs)) = mset (List.concat (map entry gs))"
    "distinct (map fst (part (collapse dp gs)))"
proof -
  have m: "mset (List.concat (map entry (sort_key g_ts gs))) = mset (List.concat (map entry gs))"
    by (rule mset_concat_perm) simp
  then have "mset (map fst (List.concat (map entry (sort_key g_ts gs)))) = mset (map fst (List.concat (map entry gs)))"
    unfolding mset_map by (rule arg_cong)
  then have ds: "distinct (map fst (List.concat (map entry (sort_key g_ts gs))))" using d mset_eq_imp_distinct_iff by blast
  have "part (fold (step_see dp) (sort_key g_ts gs) no_events) = part no_events @ List.concat (map entry (sort_key g_ts gs))"
    by (rule fold_entries [where part = part and entry = entry]) (use see empty ds in auto)
  then have c: "part (collapse dp gs) = List.concat (map entry (sort_key g_ts gs))"
    unfolding collapse_def step_see_def [abs_def] using empty by simp
  show "mset (part (collapse dp gs)) = mset (List.concat (map entry gs))" unfolding c by (rule m)
  show "distinct (map fst (part (collapse dp gs)))" unfolding c by (rule ds)
qed

lemma no_tombs:
  assumes "\<forall>g\<in>set gs. \<forall>k n. g_event g \<noteq> EvTombstone k n"
  shows "rc_tombs (collapse dp gs) = []"
proof -
  have "rc_tombs (see p t ev c) = rc_tombs c" if "\<forall>k n. ev \<noteq> EvTombstone k n" for p t ev c
    using that by (cases ev) (simp_all add: see_entity_def Let_def)
  then have "rc_tombs (fold (\<lambda>g. see (event_part dp g) (g_ts g) (g_event g)) xs c) = rc_tombs c"
    if "\<forall>g\<in>set xs. \<forall>k n. g_event g \<noteq> EvTombstone k n" for xs c
    using that by (induction xs arbitrary: c) auto
  then show ?thesis using assms by (simp add: collapse_def no_events_def)
qed

section \<open>The entries of a dump\<close>

lemma event_part_rec [simp]: "p \<noteq> [] \<Longrightarrow> event_part dp (rec_of t p ev) = p"
  by (simp add: event_part_def rec_of_def split: list.split)

lemma rec_of_simps [simp]: "g_event (rec_of t p ev) = ev" "g_ts (rec_of t p ev) = t"
  by (simp_all add: rec_of_def)

definition link_joins where
  "link_joins pid s = List.concat (map (\<lambda>r. case joined pid (k_linkage r) (k_concept r) (k_entity r) s of
                             None \<Rightarrow> [] | Some j \<Rightarrow> [(k_weight r, j)]) (entity_links s))"

definition evidence_joins where
  "evidence_joins pid s = List.concat (map (\<lambda>v. case joined pid (v_linkage v) (v_concept v) (v_entity v) s of
                             None \<Rightarrow> [] | Some j \<Rightarrow> [(v, j)]) (linkage_evidence s))"

definition memory_joins where
  "memory_joins pid s = List.concat (map (\<lambda>m. case entity_in pid (m_entity m) s of None \<Rightarrow> [] | Some e \<Rightarrow> [(m, e)])
           (memory_content s))"

lemma perm_concat_sorted: "mset (List.concat (map f (sort_key k xs))) = mset (List.concat (map f xs))"
  by (rule mset_concat_perm) simp

text \<open>Component by component, up to the order of the rows.\<close>

abbreviation entries where
  "entries entry s b \<equiv> mset (List.concat (map entry (dump_partition s b)))"

lemma concat_nil: "(\<And>x. x \<in> set xs \<Longrightarrow> f x = []) \<Longrightarrow> List.concat (map f xs) = []"
  by (induction xs) auto

lemma concat_if: "List.concat (map (\<lambda>x. if P x then [f x] else []) xs) = map f (filter P xs)"
  by (induction xs) auto

lemma concat_map_single: "List.concat (map (\<lambda>x. [f x]) xs) = map f xs"
  by (induction xs) auto

lemma dump_kinds:
  "g \<in> set (dump_entities pid p s) \<Longrightarrow> \<exists>k n a b c v. g_event g = EvEntity k n a b c \<or> g_event g = EvProtect k n v \<or> g_event g = EvNoise k n v"
  "g \<in> set (dump_memory pid p s) \<Longrightarrow> \<exists>n a b c d. g_event g = EvMemory n a b c d"
  "g \<in> set (dump_links pid p s) \<Longrightarrow> \<exists>x w. g_event g = EvLink x w"
  "g \<in> set (dump_evidence pid p s) \<Longrightarrow> \<exists>x a b c d. g_event g = EvEvidence x a b c d"
  "g \<in> set (dump_tracks pid p s) \<Longrightarrow> \<exists>path m. g_event g = EvTrack path m"
  "g \<in> set (dump_linkages s) \<Longrightarrow> \<exists>l d t. g_event g = EvLinkageType l d t"
  by (auto simp: dump_entities_def dump_entity_def dump_memory_def dump_links_def dump_evidence_def dump_tracks_def
      dump_linkages_def split: if_splits)

lemma dump_entities_perm:
  "mset (List.concat (map f (dump_entities pid p s))) =
     mset (List.concat (map (\<lambda>e. List.concat (map f (dump_entity p e))) (filter (\<lambda>e. e_pid e = pid) (entities s))))"
proof -
  have "List.concat (map f (List.concat (map g xs))) = List.concat (map (\<lambda>e. List.concat (map f (g e))) xs)"
    for g :: "entity \<Rightarrow> log_rec list" and xs by (induction xs) auto
  then show ?thesis unfolding dump_entities_def by (simp add: mset_concat_perm)
qed

lemma entries_parts:
  "entries f s (pid, p) = mset (List.concat (map f (dump_entities pid p s))) + mset (List.concat (map f (dump_memory pid p s))) +
     mset (List.concat (map f (dump_links pid p s))) + mset (List.concat (map f (dump_evidence pid p s))) +
     mset (List.concat (map f (dump_tracks pid p s)))"
  by (simp add: dump_partition_def ac_simps)

lemma no_entries:
  "List.concat (map (ent_entry dp) (dump_memory pid p s)) = []" "List.concat (map (ent_entry dp) (dump_links pid p s)) = []"
  "List.concat (map (ent_entry dp) (dump_evidence pid p s)) = []" "List.concat (map (ent_entry dp) (dump_tracks pid p s)) = []"
  "List.concat (map (protect_entry dp) (dump_memory pid p s)) = []" "List.concat (map (protect_entry dp) (dump_links pid p s)) = []"
  "List.concat (map (protect_entry dp) (dump_evidence pid p s)) = []" "List.concat (map (protect_entry dp) (dump_tracks pid p s)) = []"
  "List.concat (map (noise_entry dp) (dump_memory pid p s)) = []" "List.concat (map (noise_entry dp) (dump_links pid p s)) = []"
  "List.concat (map (noise_entry dp) (dump_evidence pid p s)) = []" "List.concat (map (noise_entry dp) (dump_tracks pid p s)) = []"
  "List.concat (map (link_entry dp) (dump_entities pid p s)) = []" "List.concat (map (link_entry dp) (dump_memory pid p s)) = []"
  "List.concat (map (link_entry dp) (dump_evidence pid p s)) = []" "List.concat (map (link_entry dp) (dump_tracks pid p s)) = []"
  "List.concat (map (track_entry dp) (dump_entities pid p s)) = []" "List.concat (map (track_entry dp) (dump_memory pid p s)) = []"
  "List.concat (map (track_entry dp) (dump_links pid p s)) = []" "List.concat (map (track_entry dp) (dump_evidence pid p s)) = []"
  "List.concat (map (evidence_entry dp) (dump_entities pid p s)) = []" "List.concat (map (evidence_entry dp) (dump_memory pid p s)) = []"
  "List.concat (map (evidence_entry dp) (dump_links pid p s)) = []" "List.concat (map (evidence_entry dp) (dump_tracks pid p s)) = []"
  "List.concat (map (memory_entry dp) (dump_entities pid p s)) = []" "List.concat (map (memory_entry dp) (dump_links pid p s)) = []"
  "List.concat (map (memory_entry dp) (dump_evidence pid p s)) = []" "List.concat (map (memory_entry dp) (dump_tracks pid p s)) = []"
  by (rule concat_nil; drule dump_kinds; auto simp: entry_defs)+

lemma dump_entries:
  assumes "p \<noteq> []"
  shows "entries (ent_entry dp) s (pid, p) = mset (map (\<lambda>e. ((p, e_kind e, e_name e),
      \<lparr>es_path = e_path e, es_tldr = e_tldr e, es_meta = e_meta e, es_latest = max 0 (e_created e)\<rparr>))
      (filter (\<lambda>e. e_pid e = pid) (entities s)))"
    "entries (protect_entry dp) s (pid, p) = mset (map (\<lambda>e. ((p, e_kind e, e_name e), (e_updated e, True)))
      (filter e_protected (filter (\<lambda>e. e_pid e = pid) (entities s))))"
    "entries (noise_entry dp) s (pid, p) = mset (map (\<lambda>e. ((p, e_kind e, e_name e), (e_updated e, True)))
      (filter e_noise (filter (\<lambda>e. e_pid e = pid) (entities s))))"
    "entries (link_entry dp) s (pid, p) = mset (map (\<lambda>(w, l, ce, ee).
        ((p, l, Some (e_kind ce), e_name ce, e_kind ee, e_name ee), (max (e_updated ce) (e_updated ee), True, w)))
      (link_joins pid s))"
    "entries (track_entry dp) s (pid, p) = mset (map (\<lambda>t. ((p, t_path t), (t_synced t, True, Some (t_mtime t))))
      (filter (\<lambda>t. t_pid t = pid) (tracked_files s)))"
    "entries (evidence_entry dp) s (pid, p) = mset (map (\<lambda>(v, l, ce, ee).
        (p, EvEvidence (ends_of l ce ee) (v_file v) (v_line v) (v_span_end v) (v_detail v))) (evidence_joins pid s))"
    "entries (memory_entry dp) s (pid, p) = mset (map (\<lambda>(m, e). ((p, e_name e), (m_updated m,
        EvMemory (e_name e) (m_content m) (if m_mtype m = [] then ''observation'' else m_mtype m) (m_tags m) (m_metadata m))))
      (memory_joins pid s))"
proof -
  have e: "List.concat (map (ent_entry dp) (dump_entity p e)) = [((p, e_kind e, e_name e),
      \<lparr>es_path = e_path e, es_tldr = e_tldr e, es_meta = e_meta e, es_latest = max 0 (e_created e)\<rparr>)]"
    "List.concat (map (protect_entry dp) (dump_entity p e)) = (if e_protected e then [((p, e_kind e, e_name e), (e_updated e, True))] else [])"
    "List.concat (map (noise_entry dp) (dump_entity p e)) = (if e_noise e then [((p, e_kind e, e_name e), (e_updated e, True))] else [])"
    for e using assms by (simp_all add: dump_entity_def entry_defs)
  show "entries (ent_entry dp) s (pid, p) = mset (map (\<lambda>e. ((p, e_kind e, e_name e),
      \<lparr>es_path = e_path e, es_tldr = e_tldr e, es_meta = e_meta e, es_latest = max 0 (e_created e)\<rparr>))
      (filter (\<lambda>e. e_pid e = pid) (entities s)))"
    unfolding entries_parts no_entries dump_entities_perm e concat_map_single by simp
  show "entries (protect_entry dp) s (pid, p) = mset (map (\<lambda>e. ((p, e_kind e, e_name e), (e_updated e, True)))
      (filter e_protected (filter (\<lambda>e. e_pid e = pid) (entities s))))"
    unfolding entries_parts no_entries dump_entities_perm e concat_if by simp
  show "entries (noise_entry dp) s (pid, p) = mset (map (\<lambda>e. ((p, e_kind e, e_name e), (e_updated e, True)))
      (filter e_noise (filter (\<lambda>e. e_pid e = pid) (entities s))))"
    unfolding entries_parts no_entries dump_entities_perm e concat_if by simp
  show "entries (link_entry dp) s (pid, p) = mset (map (\<lambda>(w, l, ce, ee).
        ((p, l, Some (e_kind ce), e_name ce, e_kind ee, e_name ee), (max (e_updated ce) (e_updated ee), True, w)))
      (link_joins pid s))"
    unfolding entries_parts no_entries dump_links_def link_joins_def [symmetric] map_map
    using assms by (simp add: comp_def case_prod_unfold entry_defs ends_of_def edge_fields_def edge_key_of_def concat_map_single)
  show "entries (track_entry dp) s (pid, p) = mset (map (\<lambda>t. ((p, t_path t), (t_synced t, True, Some (t_mtime t))))
      (filter (\<lambda>t. t_pid t = pid) (tracked_files s)))"
    unfolding entries_parts no_entries dump_tracks_def map_map
    using assms by (simp add: comp_def entry_defs concat_map_single)
  show "entries (evidence_entry dp) s (pid, p) = mset (map (\<lambda>(v, l, ce, ee).
        (p, EvEvidence (ends_of l ce ee) (v_file v) (v_line v) (v_span_end v) (v_detail v))) (evidence_joins pid s))"
    unfolding entries_parts no_entries dump_evidence_def evidence_joins_def [symmetric] map_map
    using assms by (simp add: comp_def case_prod_unfold entry_defs concat_map_single)
  show "entries (memory_entry dp) s (pid, p) = mset (map (\<lambda>(m, e). ((p, e_name e), (m_updated m,
        EvMemory (e_name e) (m_content m) (if m_mtype m = [] then ''observation'' else m_mtype m) (m_tags m) (m_metadata m))))
      (memory_joins pid s))"
    unfolding entries_parts no_entries dump_memory_def memory_joins_def [symmetric] map_map
    using assms by (simp add: comp_def case_prod_unfold entry_defs concat_map_single)
qed

section \<open>The dumpable stores\<close>

text \<open>What the tables of the DDL guarantee (their keys and the foreign keys of the memory rows), and
  that no name, list or dictionary is empty where the log writes an empty one as a missing one.\<close>

definition dumpable :: "store \<Rightarrow> bool" where
  "dumpable s =
     (wf_catalog s \<and> distinct (map link_key (entity_links s)) \<and> distinct (map m_entity (memory_content s)) \<and>
      distinct (map (\<lambda>t. (t_pid t, t_path t)) (tracked_files s)) \<and>
      (\<forall>x\<in>set (partitions s). p_name x \<noteq> []) \<and> (\<forall>r\<in>set (linkage_types s). l_name r \<noteq> []) \<and>
      (\<forall>e\<in>set (entities s). e_meta e \<noteq> Some []) \<and>
      (\<forall>m\<in>set (memory_content s). m_mtype m \<noteq> [] \<and> m_tags m \<noteq> Some [] \<and> m_metadata m \<noteq> Some [] \<and>
         (\<forall>e\<in>set (entities s). e_id e = m_entity m \<longrightarrow> e_kind e = ''memory'')) \<and>
      length (entities s) < 2 ^ 32 \<and> dump_catalog s \<noteq> [])"

lemma dumpableD:
  assumes "dumpable s"
  shows "wf_entities s" "wf_partitions s" "wf_linkages s" "distinct (map link_key (entity_links s))"
    "distinct (map m_entity (memory_content s))" "distinct (map (\<lambda>t. (t_pid t, t_path t)) (tracked_files s))"
    "\<And>b. b \<in> bindings s \<Longrightarrow> snd b \<noteq> []" "\<And>r. r \<in> set (linkage_types s) \<Longrightarrow> l_name r \<noteq> []"
    "\<And>e. e \<in> set (entities s) \<Longrightarrow> e_meta e \<noteq> Some []"
    "\<And>m. m \<in> set (memory_content s) \<Longrightarrow> m_mtype m \<noteq> [] \<and> m_tags m \<noteq> Some [] \<and> m_metadata m \<noteq> Some [] \<and>
         (\<forall>e\<in>set (entities s). e_id e = m_entity m \<longrightarrow> e_kind e = ''memory'')"
    "length (entities s) < 2 ^ 32" "dump_catalog s \<noteq> []"
  using assms by (auto simp: dumpable_def wf_catalog_def bindings_def)

lemma binding_name_inj:
  assumes "wf_partitions s" "(a, p) \<in> bindings s" "(b, p) \<in> bindings s"
  shows "a = b"
proof -
  have "inj_on p_name (set (partitions s))" using assms(1) by (simp add: wf_partitions_def distinct_map)
  then show ?thesis using assms(2,3) by (auto simp: bindings_def dest: inj_onD)
qed

lemma distinct_names: "wf_partitions s \<Longrightarrow> distinct (map snd (all_bindings s))"
proof -
  assume "wf_partitions s"
  then have "distinct (partitions s)" "inj_on p_name (set (partitions s))" by (simp_all add: wf_partitions_def distinct_map)
  then have "distinct (sort_key p_id (partitions s))" "inj_on p_name (set (sort_key p_id (partitions s)))" by simp_all
  then have "distinct (map p_name (sort_key p_id (partitions s)))" unfolding distinct_map by simp
  then show ?thesis by (simp add: all_bindings_def comp_def)
qed

text \<open>The keys of different partitions differ.\<close>

lemma distinct_parts:
  assumes "distinct (map snd bs)" "\<And>b. b \<in> set bs \<Longrightarrow> distinct (map fst (h b))"
    "\<And>b x. b \<in> set bs \<Longrightarrow> x \<in> set (h b) \<Longrightarrow> part (fst x) = snd b"
  shows "distinct (map fst (List.concat (map h bs)))"
  using assms
proof (induction bs)
  case (Cons b bs)
  have "distinct (map fst (List.concat (map h bs)))"
    by (rule Cons.IH) (use Cons.prems in auto)
  moreover have "distinct (map fst (h b))" by (rule Cons.prems(2)) simp
  moreover have "fst x \<noteq> fst y" if "x \<in> set (h b)" "y \<in> set (h b')" "b' \<in> set bs" for x y b'
  proof -
    have "part (fst x) = snd b" "part (fst y) = snd b'" by (rule Cons.prems(3); use that in simp)+
    moreover have "snd b \<noteq> snd b'" using Cons.prems(1) that(3) by auto
    ultimately show ?thesis by metis
  qed
  ultimately show ?case by fastforce
qed simp

text \<open>A join over distinct rows has distinct keys when the key determines the row.\<close>

lemma distinct_join:
  assumes "distinct rows"
    "\<And>r r' j j'. r \<in> set rows \<Longrightarrow> r' \<in> set rows \<Longrightarrow> F r = Some j \<Longrightarrow> F r' = Some j' \<Longrightarrow> g (G r j) = g (G r' j') \<Longrightarrow> r = r'"
  shows "distinct (map g (List.concat (map (\<lambda>r. case F r of None \<Rightarrow> [] | Some j \<Rightarrow> [G r j]) rows)))"
  using assms
proof (induction rows)
  case (Cons r rows)
  have ih: "distinct (map g (List.concat (map (\<lambda>r. case F r of None \<Rightarrow> [] | Some j \<Rightarrow> [G r j]) rows)))"
    by (rule Cons.IH) (use Cons.prems in auto)
  have "g (G r j) \<noteq> g (G r' j')" if "r' \<in> set rows" "F r = Some j" "F r' = Some j'" for j r' j'
    using Cons.prems(2) [of r r' j j'] Cons.prems(1) that by auto
  then show ?case using ih by (auto split: option.splits)
qed simp

lemma in_joins:
  "x \<in> set (List.concat (map (\<lambda>r. case F r of None \<Rightarrow> [] | Some j \<Rightarrow> [G r j]) rows)) \<longleftrightarrow>
     (\<exists>r\<in>set rows. \<exists>j. F r = Some j \<and> x = G r j)"
  by (force split: option.splits)

lemma entity_in_iff:
  assumes "wf_entities s"
  shows "entity_in pid i s = Some e \<longleftrightarrow> e \<in> set (entities s) \<and> e_id e = i \<and> e_pid e = pid"
proof -
  have "find (\<lambda>e. e_id e = i) (entities s) = Some e \<longleftrightarrow> e \<in> set (entities s) \<and> e_id e = i" for e
    using assms find_key_unique [of e_id "entities s" e] by (auto simp: wf_entities_def dest: find_SomeD)
  moreover have "entity_in pid i s = Some e \<longleftrightarrow> find (\<lambda>e. e_id e = i) (entities s) = Some e \<and> e_pid e = pid"
    by (auto simp: entity_in_def get_entity_by_id_def split: option.splits)
  ultimately show ?thesis by simp
qed

lemma same_entity:
  assumes "wf_entities s" "e \<in> set (entities s)" "e' \<in> set (entities s)" "e_pid e = e_pid e'" "e_kind e = e_kind e'" "e_name e = e_name e'"
  shows "e = e'"
proof -
  have "inj_on entity_key (set (entities s))" using assms(1) by (simp add: wf_entities_def distinct_map)
  moreover have "entity_key e = entity_key e'" using assms(4-) by (simp add: entity_key_def)
  ultimately show ?thesis using assms(2,3) by (rule inj_onD)
qed

lemma joined_iff:
  "joined pid lid c e s = Some (l, ce, ee) \<longleftrightarrow>
     linkage_raw_name lid s = Some l \<and> entity_in pid c s = Some ce \<and> entity_in pid e s = Some ee"
  by (auto simp: joined_def split: option.splits)

section \<open>The dump collapsed\<close>

lemma dump_set:
  assumes "\<forall>g\<in>set (dump_linkages s). entry g = []"
  shows "List.concat (map entry (dump_catalog s)) =
      List.concat (map (\<lambda>b. List.concat (map entry (dump_partition s b))) (all_bindings s))"
proof -
  have "List.concat (map entry (List.concat (map h bs))) = List.concat (map (\<lambda>b. List.concat (map entry (h b))) bs)"
    for h :: "nat \<times> string \<Rightarrow> log_rec list" and bs by (induction bs) auto
  then show ?thesis using concat_nil [of "dump_linkages s" entry] assms by (simp add: dump_catalog_def)
qed

lemma dump_component:
  assumes ok: "dumpable s"
    and see: "\<And>g c. distinct (map fst (part c @ entry g)) \<Longrightarrow> part (step_see dp g c) = part c @ entry g"
    and empty: "part no_events = []" and types: "\<forall>g\<in>set (dump_linkages s). entry g = []"
    and L: "\<And>pid p. (pid, p) \<in> bindings s \<Longrightarrow> entries entry s (pid, p) = mset (L pid p)"
    and d: "\<And>pid p. (pid, p) \<in> bindings s \<Longrightarrow> distinct (map fst (L pid p))"
    and k: "\<And>pid p x. x \<in> set (L pid p) \<Longrightarrow> kp (fst x) = p"
  shows "set (part (collapse dp (dump_catalog s))) = (\<Union>b\<in>bindings s. set (L (fst b) (snd b)))"
    "distinct (map fst (part (collapse dp (dump_catalog s))))"
proof -
  let ?h = "\<lambda>b. List.concat (map entry (dump_partition s b))"
  have h: "mset (?h b) = mset (L (fst b) (snd b))" if "b \<in> bindings s" for b using L that by (cases b) auto
  then have hs: "set (?h b) = set (L (fst b) (snd b))" if "b \<in> bindings s" for b using that by (metis set_mset_mset)
  have "distinct (map fst (List.concat (map ?h (all_bindings s))))"
  proof (rule distinct_parts [where part = kp])
    show "distinct (map snd (all_bindings s))" using dumpableD(2) [OF ok] by (rule distinct_names)
    show "distinct (map fst (?h b))" if "b \<in> set (all_bindings s)" for b
    proof -
      have "mset (map fst (?h b)) = mset (map fst (L (fst b) (snd b)))" unfolding mset_map using h that by simp
      moreover have "distinct (map fst (L (fst b) (snd b)))" using d that by simp
      ultimately show ?thesis using mset_eq_imp_distinct_iff by blast
    qed
    show "kp (fst x) = snd b" if "b \<in> set (all_bindings s)" "x \<in> set (?h b)" for b x
      using hs [of b] that by (intro k [of _ "fst b"]) simp
  qed
  then have "distinct (map fst (List.concat (map entry (dump_catalog s))))" unfolding dump_set [where entry = entry, OF types] .
  note c = collapse_part [where part = part and entry = entry and dp = dp and gs = "dump_catalog s", OF _ empty this]
  have "set (part (collapse dp (dump_catalog s))) = set (List.concat (map ?h (all_bindings s)))"
    using c(1) [OF see] unfolding dump_set [where entry = entry, OF types] by (metis set_mset_mset)
  also have "\<dots> = (\<Union>b\<in>bindings s. set (L (fst b) (snd b)))" unfolding set_concat set_map image_image using hs by simp
  finally show "set (part (collapse dp (dump_catalog s))) = (\<Union>b\<in>bindings s. set (L (fst b) (snd b)))" .
  show "distinct (map fst (part (collapse dp (dump_catalog s))))" by (rule c(2)) (rule see)
qed

lemma dump_evidence_component:
  assumes types: "\<forall>g\<in>set (dump_linkages s). evidence_entry dp g = []"
    and L: "\<And>pid p. (pid, p) \<in> bindings s \<Longrightarrow> entries (evidence_entry dp) s (pid, p) = mset (L pid p)"
  shows "set (rc_evidence (collapse dp (dump_catalog s))) = (\<Union>b\<in>bindings s. set (L (fst b) (snd b)))"
proof -
  have "rc_evidence (fold (step_see dp) gs c) = rc_evidence c @ List.concat (map (evidence_entry dp) gs)" for gs c
    by (induction gs arbitrary: c) (simp_all add: see_entries(7))
  then have "rc_evidence (collapse dp gs) = List.concat (map (evidence_entry dp) (sort_key g_ts gs))" for gs
    unfolding collapse_def step_see_def [abs_def] by (simp add: no_events_def)
  then have "set (rc_evidence (collapse dp (dump_catalog s))) = set (List.concat (map (evidence_entry dp) (dump_catalog s)))"
    by simp
  also have "\<dots> = (\<Union>b\<in>bindings s. set (List.concat (map (evidence_entry dp) (dump_partition s b))))"
    unfolding dump_set [where entry = "evidence_entry dp", OF types] by simp
  also have "\<dots> = (\<Union>b\<in>bindings s. set (L (fst b) (snd b)))"
    using L by (intro SUP_cong refl) (metis prod.collapse set_mset_mset)
  finally show ?thesis .
qed

lemma dump_types_none:
  "\<forall>g\<in>set (dump_linkages s). ent_entry dp g = []" "\<forall>g\<in>set (dump_linkages s). protect_entry dp g = []"
  "\<forall>g\<in>set (dump_linkages s). noise_entry dp g = []" "\<forall>g\<in>set (dump_linkages s). link_entry dp g = []"
  "\<forall>g\<in>set (dump_linkages s). track_entry dp g = []" "\<forall>g\<in>set (dump_linkages s). evidence_entry dp g = []"
  "\<forall>g\<in>set (dump_linkages s). memory_entry dp g = []"
  by (rule ballI; drule dump_kinds(6); auto simp: entry_defs)+

text \<open>The rows of a partition, as the dictionaries of the collapsed dump list them.\<close>

definition ent_dict where
  "ent_dict s pid p = map (\<lambda>e. ((p, e_kind e, e_name e),
      \<lparr>es_path = e_path e, es_tldr = e_tldr e, es_meta = e_meta e, es_latest = max 0 (e_created e)\<rparr>))
      (filter (\<lambda>e. e_pid e = pid) (entities s))"

definition flag_dict :: "(entity \<Rightarrow> bool) \<Rightarrow> store \<Rightarrow> nat \<Rightarrow> string \<Rightarrow> (ent_key \<times> (time \<times> bool)) list" where
  "flag_dict P s pid p = map (\<lambda>e. ((p, e_kind e, e_name e), (e_updated e, True)))
      (filter P (filter (\<lambda>e. e_pid e = pid) (entities s)))"

definition link_dict :: "store \<Rightarrow> nat \<Rightarrow> string \<Rightarrow> (edge_key \<times> (time \<times> bool \<times> weight option)) list" where
  "link_dict s pid p = map (\<lambda>(w, l, ce, ee).
        ((p, l, Some (e_kind ce), e_name ce, e_kind ee, e_name ee), (max (e_updated ce) (e_updated ee), True, w)))
      (link_joins pid s)"

definition track_dict :: "store \<Rightarrow> nat \<Rightarrow> string \<Rightarrow> ((string \<times> string) \<times> (time \<times> bool \<times> time option)) list" where
  "track_dict s pid p = map (\<lambda>t. ((p, t_path t), (t_synced t, True, Some (t_mtime t))))
      (filter (\<lambda>t. t_pid t = pid) (tracked_files s))"

definition evidence_dict :: "store \<Rightarrow> nat \<Rightarrow> string \<Rightarrow> (string \<times> event) list" where
  "evidence_dict s pid p = map (\<lambda>(v, l, ce, ee).
        (p, EvEvidence (ends_of l ce ee) (v_file v) (v_line v) (v_span_end v) (v_detail v))) (evidence_joins pid s)"

definition memory_dict :: "store \<Rightarrow> nat \<Rightarrow> string \<Rightarrow> ((string \<times> string) \<times> (time \<times> event)) list" where
  "memory_dict s pid p = map (\<lambda>(m, e). ((p, e_name e), (m_updated m,
        EvMemory (e_name e) (m_content m) (if m_mtype m = [] then ''observation'' else m_mtype m) (m_tags m) (m_metadata m))))
      (memory_joins pid s)"

lemmas part_defs = ent_dict_def flag_dict_def link_dict_def track_dict_def evidence_dict_def memory_dict_def

lemma dump_parts:
  assumes "dumpable s" "(pid, p) \<in> bindings s"
  shows "entries (ent_entry dp) s (pid, p) = mset (ent_dict s pid p)"
    "entries (protect_entry dp) s (pid, p) = mset (flag_dict e_protected s pid p)"
    "entries (noise_entry dp) s (pid, p) = mset (flag_dict e_noise s pid p)"
    "entries (link_entry dp) s (pid, p) = mset (link_dict s pid p)"
    "entries (track_entry dp) s (pid, p) = mset (track_dict s pid p)"
    "entries (evidence_entry dp) s (pid, p) = mset (evidence_dict s pid p)"
    "entries (memory_entry dp) s (pid, p) = mset (memory_dict s pid p)"
  using dump_entries [of p] dumpableD(7) [OF assms] unfolding part_defs by simp_all

lemma distinct_key_map:
  "distinct xs \<Longrightarrow> (\<And>x y. x \<in> set xs \<Longrightarrow> y \<in> set xs \<Longrightarrow> f x = f y \<Longrightarrow> x = y) \<Longrightarrow> distinct (map f xs)"
  by (simp add: distinct_map inj_on_def)

lemma map_fst_part: "map fst (map (\<lambda>x. (f x, g x)) xs) = map f xs"
  by simp

lemma distinct_entities_part:
  assumes "wf_entities s"
  shows "distinct (map fst (ent_dict s pid p))" "distinct (map fst (flag_dict P s pid p))"
proof -
  have d: "distinct (filter Q (filter (\<lambda>e. e_pid e = pid) (entities s)))" for Q
    using assms by (simp add: wf_entities_def distinct_map)
  have "distinct (map (\<lambda>e. (p, e_kind e, e_name e)) (filter Q (filter (\<lambda>e. e_pid e = pid) (entities s))))" for Q
    by (rule distinct_key_map [OF d]) (use same_entity [OF assms] in auto)
  from this [of "\<lambda>_. True"] this [of P]
  show "distinct (map fst (ent_dict s pid p))" "distinct (map fst (flag_dict P s pid p))"
    unfolding ent_dict_def flag_dict_def map_fst_part by simp_all
qed

lemma distinct_track_dict:
  assumes "distinct (map (\<lambda>t. (t_pid t, t_path t)) (tracked_files s))"
  shows "distinct (map fst (track_dict s pid p))"
  unfolding track_dict_def map_fst_part using assms
  by (intro distinct_key_map) (auto simp: distinct_map dest: inj_onD)

lemma distinct_memory_dict:
  assumes "dumpable s"
  shows "distinct (map fst (memory_dict s pid p))"
proof -
  note ok = dumpableD [OF assms]
  have "distinct (map (\<lambda>x. (p, e_name (snd x))) (memory_joins pid s))"
    unfolding memory_joins_def
  proof (rule distinct_join)
    show "distinct (memory_content s)" using ok(5) by (simp add: distinct_map)
    fix m m' e e'
    assume m: "m \<in> set (memory_content s)" "m' \<in> set (memory_content s)" "entity_in pid (m_entity m) s = Some e"
      "entity_in pid (m_entity m') s = Some e'" "(p, e_name (snd (m, e))) = (p, e_name (snd (m', e')))"
    then have "e = e'" using same_entity [OF ok(1), of e e'] ok(10) entity_in_iff [OF ok(1)] by auto
    then have "m_entity m = m_entity m'" using m(3,4) entity_in_iff [OF ok(1)] by auto
    then show "m = m'" using ok(5) m(1,2) by (auto simp: distinct_map dest: inj_onD)
  qed
  then show ?thesis by (simp add: memory_dict_def comp_def case_prod_unfold)
qed

lemma distinct_link_dict:
  assumes "dumpable s"
  shows "distinct (map fst (link_dict s pid p))"
proof -
  note ok = dumpableD [OF assms]
  let ?g = "\<lambda>(w, l, ce, ee). (p, l, Some (e_kind ce), e_name ce, e_kind ee, e_name ee)"
  have "distinct (map ?g (link_joins pid s))"
    unfolding link_joins_def
  proof (rule distinct_join)
    show "distinct (entity_links s)" using ok(4) by (simp add: distinct_map)
    fix r r' j j'
    assume r: "r \<in> set (entity_links s)" "r' \<in> set (entity_links s)"
      "joined pid (k_linkage r) (k_concept r) (k_entity r) s = Some j"
      "joined pid (k_linkage r') (k_concept r') (k_entity r') s = Some j'" "?g (k_weight r, j) = ?g (k_weight r', j')"
    obtain l c e l' c' e' where j: "j = (l, c, e)" "j' = (l', c', e')" by (cases j; cases j')
    note i = joined_iff entity_in_iff [OF ok(1)] raw_name_iff [OF ok(3)]
    have "c = c'" "e = e'" "k_linkage r = k_linkage r'"
      using r(3-5) same_entity [OF ok(1), of c c'] same_entity [OF ok(1), of e e'] unfolding j i by auto
    then have "link_key r = link_key r'" using r(3,4) unfolding j i by (auto simp: link_key_def)
    then show "r = r'" using ok(4) r(1,2) by (auto simp: distinct_map dest: inj_onD)
  qed
  then show ?thesis by (simp add: link_dict_def comp_def case_prod_unfold)
qed

abbreviation rows_of where
  "rows_of f s \<equiv> (\<Union>b\<in>bindings s. set (f s (fst b) (snd b)))"

lemma dump_collapsed:
  assumes "dumpable s" "c = collapse dp (dump_catalog s)"
  shows "set (rc_entities c) = rows_of ent_dict s" "distinct (map fst (rc_entities c))"
    "set (rc_protect c) = rows_of (flag_dict e_protected) s" "distinct (map fst (rc_protect c))"
    "set (rc_noise c) = rows_of (flag_dict e_noise) s" "distinct (map fst (rc_noise c))"
    "set (rc_links c) = rows_of link_dict s" "distinct (map fst (rc_links c))"
    "set (rc_tracks c) = rows_of track_dict s" "set (rc_memory c) = rows_of memory_dict s"
    "set (rc_evidence c) = rows_of evidence_dict s"
proof -
  note ok = dumpableD [OF assms(1)]
  note n = dump_types_none [of s dp]
  show "set (rc_entities c) = rows_of ent_dict s" "distinct (map fst (rc_entities c))" unfolding assms(2)
    by (rule dump_component [where entry = "ent_entry dp" and part = rc_entities and kp = fst and L = "ent_dict s", OF assms(1) see_entries(1) _ n(1) dump_parts(1) [OF assms(1)]];
        (simp add: distinct_entities_part [OF ok(1)])?; auto simp: no_events_def ent_dict_def)+
  show "set (rc_protect c) = rows_of (flag_dict e_protected) s" "distinct (map fst (rc_protect c))" unfolding assms(2)
    by (rule dump_component [where entry = "protect_entry dp" and part = rc_protect and kp = fst and L = "flag_dict e_protected s", OF assms(1) see_entries(2) _ n(2) dump_parts(2) [OF assms(1)]];
        (simp add: distinct_entities_part [OF ok(1)])?; auto simp: no_events_def flag_dict_def)+
  show "set (rc_noise c) = rows_of (flag_dict e_noise) s" "distinct (map fst (rc_noise c))" unfolding assms(2)
    by (rule dump_component [where entry = "noise_entry dp" and part = rc_noise and kp = fst and L = "flag_dict e_noise s", OF assms(1) see_entries(3) _ n(3) dump_parts(3) [OF assms(1)]];
        (simp add: distinct_entities_part [OF ok(1)])?; auto simp: no_events_def flag_dict_def)+
  show "set (rc_links c) = rows_of link_dict s" "distinct (map fst (rc_links c))" unfolding assms(2)
    by (rule dump_component [where entry = "link_entry dp" and part = rc_links and kp = fst and L = "link_dict s", OF assms(1) see_entries(4) _ n(4) dump_parts(4) [OF assms(1)]];
        (simp add: distinct_link_dict [OF assms(1)])?; auto simp: no_events_def link_dict_def)+
  show "set (rc_tracks c) = rows_of track_dict s" unfolding assms(2)
    by (rule dump_component(1) [where entry = "track_entry dp" and part = rc_tracks and kp = fst and L = "track_dict s", OF assms(1) see_entries(5) _ n(5) dump_parts(5) [OF assms(1)]];
        (simp add: distinct_track_dict [OF ok(6)])?; auto simp: no_events_def track_dict_def)
  show "set (rc_memory c) = rows_of memory_dict s" unfolding assms(2)
    by (rule dump_component(1) [where entry = "memory_entry dp" and part = rc_memory and kp = fst and L = "memory_dict s", OF assms(1) see_entries(6) _ n(7) dump_parts(7) [OF assms(1)]];
        (simp add: distinct_memory_dict [OF assms(1)])?; auto simp: no_events_def memory_dict_def)
  show "set (rc_evidence c) = rows_of evidence_dict s" unfolding assms(2)
    by (rule dump_evidence_component [OF n(6) dump_parts(6) [OF assms(1)]])
qed

section \<open>What the collapsed dump says\<close>

lemma dump_event_ok:
  assumes "dumpable s" "g \<in> set (dump_catalog s)"
  shows "event_ok (g_event g) \<and> (\<forall>k n. g_event g \<noteq> EvTombstone k n)"
proof -
  note ok = dumpableD [OF assms(1)]
  have raw: "l \<noteq> [] \<and> canonical_verb l = l" if "Some (l, ce, ee) = joined pid i c e s" for l ce ee pid i c e
    using that [symmetric] ok(3,8) by (auto simp: joined_iff linkage_raw_name_def wf_linkages_def dest!: find_SomeD)
  consider "g \<in> set (dump_linkages s)"
    | pid p where "g \<in> set (dump_entities pid p s)" | pid p where "g \<in> set (dump_memory pid p s)"
    | pid p where "g \<in> set (dump_links pid p s)" | pid p where "g \<in> set (dump_evidence pid p s)"
    | pid p where "g \<in> set (dump_tracks pid p s)"
    using assms(2) unfolding dump_catalog_def dump_partition_def by (auto split: prod.splits)
  then show ?thesis
  proof cases
    case 1
    then show ?thesis by (auto simp: dump_linkages_def)
  next
    case 2
    then show ?thesis using ok(1) by (auto simp: dump_entities_def dump_entity_def wf_entities_def entity_ok_def split: if_splits)
  next
    case 3
    then show ?thesis by (auto simp: dump_memory_def)
  next
    case 4
    then show ?thesis by (auto simp: dump_links_def ends_of_def edge_fields_def split: option.splits dest: raw)
  next
    case 5
    then show ?thesis by (auto simp: dump_evidence_def ends_of_def edge_fields_def split: option.splits dest: raw)
  next
    case 6
    then show ?thesis by (auto simp: dump_tracks_def)
  qed
qed

text \<open>No tombstone: every entity is live.\<close>

lemma dump_live:
  assumes "dumpable s" "c = collapse dp (dump_catalog s)"
  shows "((k, n), st) \<in> set (live_entities p c) \<longleftrightarrow> ((p, k, n), st) \<in> set (rc_entities c)"
    "(k, n) \<in> live p c \<longleftrightarrow> (\<exists>e\<in>set (entities s). (e_pid e, p) \<in> bindings s \<and> e_kind e = k \<and> e_name e = n)"
proof -
  have "rc_tombs c = []" unfolding assms(2) by (rule no_tombs) (use dump_event_ok [OF assms(1)] in blast)
  then show l: "((k, n), st) \<in> set (live_entities p c) \<longleftrightarrow> ((p, k, n), st) \<in> set (rc_entities c)" for k n st
    by (force simp: live_entities_def outlives_def)
  have "(k, n) \<in> live p c \<longleftrightarrow> (\<exists>st. ((p, k, n), st) \<in> set (rc_entities c))" using l by (force simp: image_iff)
  also have "\<dots> \<longleftrightarrow> (\<exists>e\<in>set (entities s). (e_pid e, p) \<in> bindings s \<and> e_kind e = k \<and> e_name e = n)"
    unfolding dump_collapsed(1) [OF assms] by (force simp: ent_dict_def)
  finally show "(k, n) \<in> live p c \<longleftrightarrow> (\<exists>e\<in>set (entities s). (e_pid e, p) \<in> bindings s \<and> e_kind e = k \<and> e_name e = n)" .
qed

lemma in_flag_dict: "x \<in> rows_of (flag_dict P) s \<longleftrightarrow>
     (\<exists>e\<in>set (entities s). \<exists>p. (e_pid e, p) \<in> bindings s \<and> P e \<and> x = ((p, e_kind e, e_name e), (e_updated e, True)))"
  by (force simp: flag_dict_def)

lemma dump_flag:
  assumes "wf_catalog s" "set d = rows_of (flag_dict P) s" "distinct (map fst d)"
    "e \<in> set (entities s)" "(e_pid e, p) \<in> bindings s"
  shows "flag d (p, e_kind e, e_name e) False = P e"
proof (cases "P e")
  case True
  then have "((p, e_kind e, e_name e), (e_updated e, True)) \<in> set d" unfolding assms(2) in_flag_dict using assms(4,5) by blast
  then show ?thesis using True assms(3) by (simp add: flag_def)
next
  case False
  have "map_of d (p, e_kind e, e_name e) = None"
  proof (rule ccontr)
    assume "map_of d (p, e_kind e, e_name e) \<noteq> None"
    then obtain v where "((p, e_kind e, e_name e), v) \<in> set d" by (auto dest: map_of_SomeD)
    then obtain e' where e': "e' \<in> set (entities s)" "(e_pid e', p) \<in> bindings s" "P e'" "e_kind e' = e_kind e" "e_name e' = e_name e"
      unfolding assms(2) in_flag_dict by auto
    have "e_pid e' = e_pid e" using assms(1,5) e'(2) binding_name_inj by (auto simp: wf_catalog_def)
    then have "e' = e" using assms(1,4) e' same_entity [of s e' e] by (simp add: wf_catalog_def)
    then show False using False e'(3) by simp
  qed
  then show ?thesis using False by (simp add: flag_def)
qed

lemma meta_column_id: "m \<noteq> Some [] \<Longrightarrow> meta_column m = m" "t \<noteq> Some [] \<Longrightarrow> tags_column t = t"
  by (simp_all add: meta_column_def tags_column_def split: option.split list.split)

lemma dump_final_entities:
  assumes "dumpable s" "c = collapse dp (dump_catalog s)"
  shows "(\<Union>p. final_entities c p) = entity_facts s"
proof -
  note ok = dumpableD [OF assms(1)] note col = dump_collapsed [OF assms]
  have wf: "wf_catalog s" using assms(1) by (simp add: dumpable_def)
  have "final_entities c p = {(p, e_kind e, e_name e, e_path e, e_tldr e, e_meta e, e_protected e, e_noise e) | e.
      e \<in> set (entities s) \<and> (e_pid e, p) \<in> bindings s}" for p
  proof -
    have r: "((p, k, n), st) \<in> set (rc_entities c) \<longleftrightarrow> (\<exists>e\<in>set (entities s). (e_pid e, p) \<in> bindings s \<and> k = e_kind e \<and> n = e_name e \<and>
        st = \<lparr>es_path = e_path e, es_tldr = e_tldr e, es_meta = e_meta e, es_latest = max 0 (e_created e)\<rparr>)" for k n st
      unfolding col(1) by (force simp: ent_dict_def)
    note f = dump_flag [OF wf col(3,4)] dump_flag [OF wf col(5,6)]
    have "final_entities c p = {(p, e_kind e, e_name e, e_path e, e_tldr e, meta_column (e_meta e),
        flag (rc_protect c) (p, e_kind e, e_name e) False, flag (rc_noise c) (p, e_kind e, e_name e) False) | e.
        e \<in> set (entities s) \<and> (e_pid e, p) \<in> bindings s}"
      unfolding final_entities_def dump_live(1) [OF assms] r by (intro set_eqI iffI; clarsimp; blast?; force)
    also have "\<dots> = {(p, e_kind e, e_name e, e_path e, e_tldr e, e_meta e, e_protected e, e_noise e) | e.
        e \<in> set (entities s) \<and> (e_pid e, p) \<in> bindings s}"
      using f ok(9) meta_column_id(1) by (intro Collect_cong ex_cong) auto
    finally show ?thesis .
  qed
  then show ?thesis unfolding entity_facts_def entity_facts_of_def by blast
qed

text \<open>Edges with both kinds resolve to themselves.\<close>

definition full :: "edge_key \<times> 'v \<Rightarrow> full_key \<times> 'v" where
  "full x = (case x of ((p, l, ck, cn, ek, en), v) \<Rightarrow> ((p, l, the ck, cn, ek, en), v))"

lemma resolve_links_full:
  assumes "\<forall>x\<in>set (rc_links c). fst (snd (snd (fst x))) \<noteq> None" "distinct (map fst (rc_links c))"
  shows "snd (resolve_links c) = map full (rc_links c)"
proof -
  have "snd (fold (resolve_link c) xs (n, d)) = d @ map full xs"
    if "\<forall>x\<in>set xs. fst (snd (snd (fst x))) \<noteq> None" "distinct (map fst (d @ map full xs))" for xs n d
    using that
  proof (induction xs arbitrary: n d)
    case (Cons x xs)
    obtain p l k cn ek en t v where x: "x = ((p, l, Some k, cn, ek, en), t, v)" using Cons.prems(1) by (cases x) auto
    have "(p, l, k, cn, ek, en) \<notin> dkeys d" using Cons.prems(2) by (auto simp: x full_def dkeys_def)
    then have "resolve_link c x (n, d) = (n, d @ [full x])" by (simp add: x resolve_link_def lww_new full_def)
    moreover have "snd (fold (resolve_link c) xs (n, d @ [full x])) = (d @ [full x]) @ map full xs"
      by (rule Cons.IH) (use Cons.prems in simp_all)
    ultimately show ?case by simp
  qed simp
  moreover have "distinct (map fst (map full (rc_links c)))"
  proof -
    have "map fst (map full (rc_links c)) = map (\<lambda>(p, l, ck, cn, ek, en). (p, l, the ck, cn, ek, en)) (map fst (rc_links c))"
      by (simp add: full_def case_prod_unfold)
    also have "distinct \<dots>"
      using assms(2)
    proof (rule distinct_key_map)
      fix x y
      assume "x \<in> set (map fst (rc_links c))" "y \<in> set (map fst (rc_links c))"
        and e: "(\<lambda>(p, l, ck, cn, ek, en). (p, l, the ck, cn, ek, en)) x = (\<lambda>(p, l, ck, cn, ek, en). (p, l, the ck, cn, ek, en)) y"
      then have "fst (snd (snd x)) \<noteq> None" "fst (snd (snd y)) \<noteq> None" using assms(1) by auto
      then show "x = y" using e by (auto simp: prod_eq_iff split: prod.splits)
    qed
    finally show ?thesis .
  qed
  ultimately have "snd (fold (resolve_link c) (rc_links c) (0, [])) = [] @ map full (rc_links c)" using assms(1) by simp
  then show ?thesis by (simp add: resolve_links_def)
qed

lemma resolve_evidence_full:
  assumes "\<forall>x\<in>set (rc_evidence c). \<exists>y f lno sp d k. snd x = EvEvidence y f lno sp d \<and> x_ckind y = Some k \<and> k \<noteq> []"
  shows "set (snd (resolve_evidence c)) =
    {(p, k, EvEvidence y f lno sp d) | p k y f lno sp d. (p, EvEvidence y f lno sp d) \<in> set (rc_evidence c) \<and> x_ckind y = Some k}"
proof -
  let ?f = "\<lambda>(p, ev) (n, out).
        case ev of
          EvEvidence x f lno sp d \<Rightarrow>
            (case (case x_ckind x of Some (a # k) \<Rightarrow> Some (a # k)
                   | _ \<Rightarrow> resolve_legacy_kind (kinds_named p (x_c x) c)) of
               None \<Rightarrow> (Suc n, out)
             | Some k \<Rightarrow> (n, out @ [(p, k, ev)]))
        | _ \<Rightarrow> (n :: nat, out)"
  have "set (snd (fold ?f xs acc)) = set (snd acc) \<union>
    {(p, k, EvEvidence y f lno sp d) | p k y f lno sp d. (p, EvEvidence y f lno sp d) \<in> set xs \<and> x_ckind y = Some k}"
    if "\<forall>x\<in>set xs. \<exists>y f lno sp d k. snd x = EvEvidence y f lno sp d \<and> x_ckind y = Some k \<and> k \<noteq> []" for xs acc
    using that
  proof (induction xs arbitrary: acc)
    case Nil
    then show ?case by simp
  next
    case (Cons x xs)
    from Cons.prems have "\<exists>y f lno sp d k. snd x = EvEvidence y f lno sp d \<and> x_ckind y = Some k \<and> k \<noteq> []" by simp
    then obtain p y f lno sp d a k n out where x: "x = (p, EvEvidence y f lno sp d)" "x_ckind y = Some (a # k)" "acc = (n, out)"
      by (cases x; cases acc) (auto simp: neq_Nil_conv)
    then have "fold ?f (x # xs) acc = fold ?f xs (n, out @ [(p, a # k, EvEvidence y f lno sp d)])" by simp
    then show ?case using Cons.IH [of "(n, out @ [(p, a # k, EvEvidence y f lno sp d)])"] Cons.prems x by auto
  qed
  from this [OF assms, of "(0, [])"] show ?thesis by (simp add: resolve_evidence_def)
qed

lemma joined_live:
  assumes "dumpable s" "c = collapse dp (dump_catalog s)" "(pid, p) \<in> bindings s" "joined pid lid i j s = Some (l, ce, ee)"
  shows "(e_kind ce, e_name ce) \<in> live p c" "(e_kind ee, e_name ee) \<in> live p c" "e_kind ce \<noteq> []" "canonical_verb l = l"
proof -
  note ok = dumpableD [OF assms(1)]
  have e: "ce \<in> set (entities s)" "e_pid ce = pid" "ee \<in> set (entities s)" "e_pid ee = pid" and l: "linkage_raw_name lid s = Some l"
    using assms(4) by (simp_all add: joined_iff entity_in_iff [OF ok(1)])
  show "(e_kind ce, e_name ce) \<in> live p c" "(e_kind ee, e_name ee) \<in> live p c"
    unfolding dump_live(2) [OF assms(1,2)] using e(2,4) assms(3)
    by (intro bexI [of _ ce] bexI [of _ ee] e(1,3) conjI refl; simp)+
  show "e_kind ce \<noteq> []" using ok(1) e(1) by (auto simp: wf_entities_def entity_ok_def kinds_def)
  show "canonical_verb l = l" using l ok(3) by (auto simp: linkage_raw_name_def wf_linkages_def dest!: find_SomeD)
qed

lemma join_rows:
  "x \<in> (\<Union>b\<in>B. set (map (h (snd b)) (List.concat (map (\<lambda>r. case F (fst b) r of None \<Rightarrow> [] | Some j \<Rightarrow> [(w r, j)]) rows)))) \<longleftrightarrow>
     (\<exists>r\<in>set rows. \<exists>pid p j. (pid, p) \<in> B \<and> F pid r = Some j \<and> x = h p (w r, j))"
proof -
  have m: "x \<in> set (map g (List.concat (map (\<lambda>r. case F pid r of None \<Rightarrow> [] | Some j \<Rightarrow> [(w r, j)]) rows))) \<longleftrightarrow>
      (\<exists>r\<in>set rows. \<exists>j. F pid r = Some j \<and> x = g (w r, j))" for g pid
    unfolding set_map image_iff Bex_def in_joins by blast
  show ?thesis unfolding UN_iff m by (simp only: Bex_def split_paired_Ex fst_conv snd_conv) blast
qed

lemma in_link_rows: "x \<in> rows_of link_dict s \<longleftrightarrow>
  (\<exists>r\<in>set (entity_links s). \<exists>pid p l ce ee. (pid, p) \<in> bindings s \<and>
     joined pid (k_linkage r) (k_concept r) (k_entity r) s = Some (l, ce, ee) \<and>
     x = ((p, l, Some (e_kind ce), e_name ce, e_kind ee, e_name ee), (max (e_updated ce) (e_updated ee), True, k_weight r)))"
  unfolding link_dict_def link_joins_def 
  by (rule trans [OF join_rows]) (simp only: split_paired_Ex prod.case)

lemma in_evidence_rows: "x \<in> rows_of evidence_dict s \<longleftrightarrow>
  (\<exists>v\<in>set (linkage_evidence s). \<exists>pid p l ce ee. (pid, p) \<in> bindings s \<and>
     joined pid (v_linkage v) (v_concept v) (v_entity v) s = Some (l, ce, ee) \<and>
     x = (p, EvEvidence (ends_of l ce ee) (v_file v) (v_line v) (v_span_end v) (v_detail v)))"
  unfolding evidence_dict_def evidence_joins_def 
  by (rule trans [OF join_rows]) (simp only: split_paired_Ex prod.case)

lemma in_memory_rows: "x \<in> rows_of memory_dict s \<longleftrightarrow>
  (\<exists>m\<in>set (memory_content s). \<exists>pid p e. (pid, p) \<in> bindings s \<and> entity_in pid (m_entity m) s = Some e \<and>
     x = ((p, e_name e), (m_updated m, EvMemory (e_name e) (m_content m)
            (if m_mtype m = [] then ''observation'' else m_mtype m) (m_tags m) (m_metadata m))))"
  unfolding memory_dict_def memory_joins_def 
  by (rule trans [OF join_rows]) (simp only: split_paired_Ex prod.case)

lemma dump_final_links:
  assumes "dumpable s" "c = collapse dp (dump_catalog s)"
  shows "(\<Union>p. final_links c (snd (resolve_links c)) p) = link_facts s"
proof -
  note col = dump_collapsed [OF assms]
  have "\<forall>x\<in>set (rc_links c). fst (snd (snd (fst x))) \<noteq> None" unfolding col(7) Ball_def in_link_rows by auto
  note full = resolve_links_full [OF this col(8)]
  have "x \<in> set (snd (resolve_links c)) \<longleftrightarrow> (\<exists>r\<in>set (entity_links s). \<exists>pid p l ce ee. (pid, p) \<in> bindings s \<and>
      joined pid (k_linkage r) (k_concept r) (k_entity r) s = Some (l, ce, ee) \<and>
      x = ((p, l, e_kind ce, e_name ce, e_kind ee, e_name ee), (max (e_updated ce) (e_updated ee), True, k_weight r)))"
    (is "_ \<longleftrightarrow> ?R x") for x
  proof
    assume "x \<in> set (snd (resolve_links c))"
    then obtain y where "y \<in> rows_of link_dict s" "x = full y" unfolding full set_map col(7) by blast
    then obtain r pid p l ce ee where r: "r \<in> set (entity_links s)" "(pid, p) \<in> bindings s"
      "joined pid (k_linkage r) (k_concept r) (k_entity r) s = Some (l, ce, ee)"
      "x = full ((p, l, Some (e_kind ce), e_name ce, e_kind ee, e_name ee), (max (e_updated ce) (e_updated ee), True, k_weight r))"
      unfolding in_link_rows by (elim bexE exE conjE) (rule that, simp_all)
    then have "x = ((p, l, e_kind ce, e_name ce, e_kind ee, e_name ee), (max (e_updated ce) (e_updated ee), True, k_weight r))"
      by (simp add: full_def)
    then show "?R x" using r(1-3) by blast
  next
    assume "?R x"
    then obtain r pid p l ce ee where r: "r \<in> set (entity_links s)" "(pid, p) \<in> bindings s"
      "joined pid (k_linkage r) (k_concept r) (k_entity r) s = Some (l, ce, ee)"
      "x = ((p, l, e_kind ce, e_name ce, e_kind ee, e_name ee), (max (e_updated ce) (e_updated ee), True, k_weight r))" by blast
    then have "((p, l, Some (e_kind ce), e_name ce, e_kind ee, e_name ee), (max (e_updated ce) (e_updated ee), True, k_weight r))
        \<in> rows_of link_dict s" unfolding in_link_rows by blast
    then show "x \<in> set (snd (resolve_links c))" unfolding full set_map col(7) r(4) by (force simp: full_def)
  qed
  note rows = this
  show ?thesis
  proof (intro set_eqI iffI)
    fix x assume "x \<in> (\<Union>p. final_links c (snd (resolve_links c)) p)"
    then show "x \<in> link_facts s" unfolding final_links_def rows link_facts_def link_facts_of_def by blast
  next
    fix x assume "x \<in> link_facts s"
    then obtain r pid p l ce ee where r: "r \<in> set (entity_links s)" "(pid, p) \<in> bindings s"
      "joined pid (k_linkage r) (k_concept r) (k_entity r) s = Some (l, ce, ee)"
      "x = (p, l, e_kind ce, e_name ce, e_kind ee, e_name ee, k_weight r)"
      unfolding link_facts_def link_facts_of_def by blast
    then have "((p, l, e_kind ce, e_name ce, e_kind ee, e_name ee), (max (e_updated ce) (e_updated ee), True, k_weight r))
        \<in> set (snd (resolve_links c))" unfolding rows by blast
    then have "x \<in> final_links c (snd (resolve_links c)) p"
      unfolding final_links_def mem_Collect_eq r(4)
      by (intro exI conjI) (rule refl, assumption, rule joined_live [OF assms r(2,3)], rule joined_live [OF assms r(2,3)])
    then show "x \<in> (\<Union>p. final_links c (snd (resolve_links c)) p)" by blast
  qed
qed

lemma dump_final_evidence:
  assumes "dumpable s" "c = collapse dp (dump_catalog s)"
  shows "(\<Union>p. final_evidence c (snd (resolve_evidence c)) p) = evidence_facts s"
proof -
  note col = dump_collapsed [OF assms]
  have "\<forall>x\<in>set (rc_evidence c). \<exists>y f lno sp d k. snd x = EvEvidence y f lno sp d \<and> x_ckind y = Some k \<and> k \<noteq> []"
  proof
    fix x assume "x \<in> set (rc_evidence c)"
    then obtain v pid p l ce ee where "v \<in> set (linkage_evidence s)" "(pid, p) \<in> bindings s" "joined pid (v_linkage v) (v_concept v) (v_entity v) s = Some (l, ce, ee)"
      "x = (p, EvEvidence (ends_of l ce ee) (v_file v) (v_line v) (v_span_end v) (v_detail v))"
      unfolding col(11) in_evidence_rows by blast
    then show "\<exists>y f lno sp d k. snd x = EvEvidence y f lno sp d \<and> x_ckind y = Some k \<and> k \<noteq> []"
      using joined_live(3) [OF assms] by (simp add: ends_of_def edge_fields_def)
  qed
  note full = resolve_evidence_full [OF this]
  have rows: "(p, k, EvEvidence y f lno sp d) \<in> set (snd (resolve_evidence c)) \<longleftrightarrow>
      (\<exists>v\<in>set (linkage_evidence s). \<exists>pid l ce ee. (pid, p) \<in> bindings s \<and>
       joined pid (v_linkage v) (v_concept v) (v_entity v) s = Some (l, ce, ee) \<and> k = e_kind ce \<and>
       y = ends_of l ce ee \<and> f = v_file v \<and> lno = v_line v \<and> sp = v_span_end v \<and> d = v_detail v)"
    (is "_ \<longleftrightarrow> ?R") for p k y f lno sp d
  proof
    assume "(p, k, EvEvidence y f lno sp d) \<in> set (snd (resolve_evidence c))"
    then have x: "(p, EvEvidence y f lno sp d) \<in> rows_of evidence_dict s" "x_ckind y = Some k"
      unfolding full col(11) by simp_all
    from x(1) obtain v pid l ce ee where v: "v \<in> set (linkage_evidence s)" "(pid, p) \<in> bindings s"
      "joined pid (v_linkage v) (v_concept v) (v_entity v) s = Some (l, ce, ee)"
      "y = ends_of l ce ee" "f = v_file v" "lno = v_line v" "sp = v_span_end v" "d = v_detail v"
      unfolding in_evidence_rows by blast
    moreover have "k = e_kind ce" using x(2) v(4) by (simp add: ends_of_def edge_fields_def)
    ultimately show ?R by blast
  next
    assume ?R
    then obtain v pid l ce ee where v: "v \<in> set (linkage_evidence s)" "(pid, p) \<in> bindings s"
      "joined pid (v_linkage v) (v_concept v) (v_entity v) s = Some (l, ce, ee)" "k = e_kind ce"
      "y = ends_of l ce ee" "f = v_file v" "lno = v_line v" "sp = v_span_end v" "d = v_detail v" by blast
    then have "(p, EvEvidence y f lno sp d) \<in> set (rc_evidence c)" unfolding col(11) in_evidence_rows by blast
    moreover have "x_ckind y = Some k" using v(4,5) by (simp add: ends_of_def edge_fields_def)
    ultimately show "(p, k, EvEvidence y f lno sp d) \<in> set (snd (resolve_evidence c))" unfolding full by blast
  qed
  show ?thesis
  proof (intro set_eqI iffI)
    fix x assume "x \<in> (\<Union>p. final_evidence c (snd (resolve_evidence c)) p)"
    then obtain p y ck f lno sp d where x: "x = (p, canonical_verb (x_linkage y), ck, x_c y, x_ekind y, x_e y, f, lno, sp, d)"
      "(p, ck, EvEvidence y f lno sp d) \<in> set (snd (resolve_evidence c))" unfolding final_evidence_def by blast
    from x(2) obtain v pid l ce ee where v: "v \<in> set (linkage_evidence s)" "(pid, p) \<in> bindings s"
      "joined pid (v_linkage v) (v_concept v) (v_entity v) s = Some (l, ce, ee)" "ck = e_kind ce" "y = ends_of l ce ee"
      "f = v_file v" "lno = v_line v" "sp = v_span_end v" "d = v_detail v" unfolding rows by blast
    have "x = (p, l, e_kind ce, e_name ce, e_kind ee, e_name ee, v_file v, v_line v, v_span_end v, v_detail v)"
      using x(1) v(4-) joined_live(4) [OF assms v(2,3)] by (simp add: ends_of_def edge_fields_def)
    then show "x \<in> evidence_facts s" using v(1-3) unfolding evidence_facts_def evidence_facts_of_def by blast
  next
    fix x assume "x \<in> evidence_facts s"
    then obtain v pid p l ce ee where v: "v \<in> set (linkage_evidence s)" "(pid, p) \<in> bindings s"
      "joined pid (v_linkage v) (v_concept v) (v_entity v) s = Some (l, ce, ee)"
      "x = (p, l, e_kind ce, e_name ce, e_kind ee, e_name ee, v_file v, v_line v, v_span_end v, v_detail v)"
      unfolding evidence_facts_def evidence_facts_of_def by blast
    then have "(p, e_kind ce, EvEvidence (ends_of l ce ee) (v_file v) (v_line v) (v_span_end v) (v_detail v))
        \<in> set (snd (resolve_evidence c))" unfolding rows by blast
    moreover have "x_linkage (ends_of l ce ee) = l" "x_c (ends_of l ce ee) = e_name ce" "x_ekind (ends_of l ce ee) = e_kind ee"
      "x_e (ends_of l ce ee) = e_name ee" by (simp_all add: ends_of_def edge_fields_def)
    ultimately have "x \<in> final_evidence c (snd (resolve_evidence c)) p"
      using joined_live [OF assms v(2,3)] v(4) unfolding final_evidence_def mem_Collect_eq
      by (intro exI [of _ "ends_of l ce ee"] exI [of _ "e_kind ce"] exI [of _ "v_file v"] exI [of _ "v_line v"]
          exI [of _ "v_span_end v"] exI [of _ "v_detail v"]) simp
    then show "x \<in> (\<Union>p. final_evidence c (snd (resolve_evidence c)) p)" by blast
  qed
qed

lemma dump_final_tracks:
  assumes "dumpable s" "c = collapse dp (dump_catalog s)"
  shows "(\<Union>p. final_tracks c p) = track_facts s"
proof -
  have "x \<in> set (rc_tracks c) \<longleftrightarrow> (\<exists>t\<in>set (tracked_files s). \<exists>p. (t_pid t, p) \<in> bindings s \<and>
      x = ((p, t_path t), (t_synced t, True, Some (t_mtime t))))" for x
    unfolding dump_collapsed(9) [OF assms] by (force simp: track_dict_def)
  note m = this
  show ?thesis
  proof (intro set_eqI iffI)
    fix x assume "x \<in> (\<Union>p. final_tracks c p)"
    then show "x \<in> track_facts s" unfolding final_tracks_def m track_facts_def track_facts_of_def by blast
  next
    fix x assume "x \<in> track_facts s"
    then obtain t p where t: "t \<in> set (tracked_files s)" "(t_pid t, p) \<in> bindings s" "x = (p, t_path t, t_mtime t)"
      unfolding track_facts_def track_facts_of_def by blast
    then have "((p, t_path t), (t_synced t, True, Some (t_mtime t))) \<in> set (rc_tracks c)" unfolding m by blast
    then show "x \<in> (\<Union>p. final_tracks c p)" using t(3) unfolding final_tracks_def by blast
  qed
qed

lemma dump_final_memory:
  assumes "dumpable s" "c = collapse dp (dump_catalog s)"
  shows "(\<Union>p. final_memory c p) = memory_facts s"
proof -
  note ok = dumpableD [OF assms(1)]
  note m = dump_collapsed(10) [OF assms]
  show ?thesis
  proof (intro set_eqI iffI)
    fix x assume "x \<in> (\<Union>p. final_memory c p)"
    then obtain p n t n' content mtype tags metadata where
      x: "x = (p, n, content, mtype, tags_column tags, meta_column metadata)"
      "((p, n), (t, EvMemory n' content mtype tags metadata)) \<in> set (rc_memory c)" unfolding final_memory_def by blast
    then obtain r pid e where r: "r \<in> set (memory_content s)" "(pid, p) \<in> bindings s" "entity_in pid (m_entity r) s = Some e"
      "n = e_name e" "content = m_content r" "mtype = (if m_mtype r = [] then ''observation'' else m_mtype r)"
      "tags = m_tags r" "metadata = m_metadata r" unfolding m in_memory_rows by blast
    have "x = (p, e_name e, m_content r, m_mtype r, m_tags r, m_metadata r)"
      using x(1) r(4-) ok(10) [OF r(1)] by (simp add: meta_column_id)
    then show "x \<in> memory_facts s" using r(1-3) unfolding memory_facts_def memory_facts_of_def by blast
  next
    fix x assume "x \<in> memory_facts s"
    then obtain r pid p e where r: "r \<in> set (memory_content s)" "(pid, p) \<in> bindings s" "entity_in pid (m_entity r) s = Some e"
      "x = (p, e_name e, m_content r, m_mtype r, m_tags r, m_metadata r)"
      unfolding memory_facts_def memory_facts_of_def by blast
    have "((p, e_name e), (m_updated r, EvMemory (e_name e) (m_content r)
            (if m_mtype r = [] then ''observation'' else m_mtype r) (m_tags r) (m_metadata r))) \<in> set (rc_memory c)"
      unfolding m in_memory_rows using r(1-3) by blast
    then have in_c: "((p, e_name e), (m_updated r, EvMemory (e_name e) (m_content r) (m_mtype r) (m_tags r) (m_metadata r)))
        \<in> set (rc_memory c)" using ok(10) [OF r(1)] by simp
    have e: "e \<in> set (entities s)" "e_id e = m_entity r" "e_pid e = pid" using r(3) by (simp_all add: entity_in_iff [OF ok(1)])
    then have "e_kind e = ''memory''" using ok(10) [OF r(1)] by blast
    then have "(''memory'', e_name e) \<in> live p c" unfolding dump_live(2) [OF assms] using e r(2) by blast
    with in_c have "(p, e_name e, m_content r, m_mtype r, tags_column (m_tags r), meta_column (m_metadata r)) \<in> final_memory c p"
      unfolding final_memory_def by blast
    then show "x \<in> (\<Union>p. final_memory c p)" using r(4) ok(10) [OF r(1)] by (auto simp: meta_column_id)
  qed
qed

lemma dump_size:
  assumes "dumpable s" "c = collapse dp (dump_catalog s)"
  shows "length (rc_entities c) < 2 ^ 32"
proof -
  note ok = dumpableD [OF assms(1)] note col = dump_collapsed [OF assms]
  let ?K = "fst ` set (rc_entities c)"
  let ?f = "\<lambda>e. (SOME p. (e_pid e, p) \<in> bindings s, e_kind e, e_name e)"
  have "?K \<subseteq> ?f ` set (entities s)"
  proof
    fix k assume "k \<in> ?K"
    then obtain e p where e: "e \<in> set (entities s)" "(e_pid e, p) \<in> bindings s" "k = (p, e_kind e, e_name e)"
      unfolding col(1) by (auto simp: ent_dict_def)
    have "q = p" if "(e_pid e, q) \<in> bindings s" for q
      using bindings_inj [OF ok(2) that e(2)] by simp
    then have "(SOME q. (e_pid e, q) \<in> bindings s) = p" using e(2) by (metis someI)
    then show "k \<in> ?f ` set (entities s)" using e by auto
  qed
  then have "card ?K \<le> card (set (entities s))" by (rule surj_card_le [OF finite_set])
  also have "\<dots> \<le> length (entities s)" by (rule card_length)
  finally have "card ?K < 2 ^ 32" using ok(11) by linarith
  moreover have "card ?K = length (rc_entities c)" using distinct_card [OF col(2)] by simp
  ultimately show ?thesis by simp
qed

section \<open>The round trip\<close>

section \<open>The round trip\<close>

text \<open>Every edge and every piece of evidence of a store, each end with its own partition, kind and name.\<close>

definition named :: "nat \<Rightarrow> store \<Rightarrow> (string \<times> string \<times> string) set" where
  "named i s = {(p, e_kind e, e_name e) | p e. get_entity_by_id i s = Some e \<and> (e_pid e, p) \<in> bindings s}"

definition all_links where
  "all_links s = {(l, a, b, k_weight r) | r l a b. r \<in> set (entity_links s) \<and> linkage_raw_name (k_linkage r) s = Some l \<and>
     a \<in> named (k_concept r) s \<and> b \<in> named (k_entity r) s}"

definition place where
  "place v = (v_file v, v_line v, v_span_end v, v_detail v)"

definition all_evidence where
  "all_evidence s = {(l, a, b, place v) | v l a b. v \<in> set (linkage_evidence s) \<and> linkage_raw_name (v_linkage v) s = Some l \<and>
     a \<in> named (v_concept v) s \<and> b \<in> named (v_entity v) s}"

text \<open>The facts of the partitions are the edges and the evidence within one.\<close>

lemma joined_named:
  assumes "wf_partitions s"
  shows "(\<exists>pid c e. (pid, p) \<in> bindings s \<and> joined pid lid i j s = Some (l, c, e) \<and> ck = e_kind c \<and> cn = e_name c \<and>
      ek = e_kind e \<and> en = e_name e) \<longleftrightarrow>
    linkage_raw_name lid s = Some l \<and> (p, ck, cn) \<in> named i s \<and> (p, ek, en) \<in> named j s" (is "?L \<longleftrightarrow> ?R")
proof
  assume ?L
  then show ?R by (auto simp: joined_iff entity_in_def named_def split: option.splits if_splits)
next
  assume ?R
  then obtain c e where c: "get_entity_by_id i s = Some c" "(e_pid c, p) \<in> bindings s" "ck = e_kind c" "cn = e_name c"
    and e: "get_entity_by_id j s = Some e" "(e_pid e, p) \<in> bindings s" "ek = e_kind e" "en = e_name e"
    and l: "linkage_raw_name lid s = Some l" by (auto simp: named_def)
  have "e_pid e = e_pid c" by (rule binding_name_inj [OF assms e(2) c(2)])
  then have "joined (e_pid c) lid i j s = Some (l, c, e)" using c e l by (simp add: joined_iff entity_in_def)
  then show ?L using c e by blast
qed

lemma facts_within:
  assumes "wf_partitions s"
  shows "(p, l, ck, cn, ek, en, w) \<in> link_facts s \<longleftrightarrow> (l, (p, ck, cn), (p, ek, en), w) \<in> all_links s"
    "(p, l, ck, cn, ek, en, z) \<in> evidence_facts s \<longleftrightarrow> (l, (p, ck, cn), (p, ek, en), z) \<in> all_evidence s"
proof -
  have "(p, l, ck, cn, ek, en, w) \<in> link_facts_of s r \<longleftrightarrow> linkage_raw_name (k_linkage r) s = Some l \<and>
      (p, ck, cn) \<in> named (k_concept r) s \<and> (p, ek, en) \<in> named (k_entity r) s \<and> w = k_weight r" for r
    using joined_named [OF assms, of p "k_linkage r" "k_concept r" "k_entity r" l ck cn ek en]
    unfolding link_facts_of_def by auto
  then show "(p, l, ck, cn, ek, en, w) \<in> link_facts s \<longleftrightarrow> (l, (p, ck, cn), (p, ek, en), w) \<in> all_links s"
    unfolding link_facts_def all_links_def by auto
  have "(p, l, ck, cn, ek, en, z) \<in> evidence_facts_of s v \<longleftrightarrow> linkage_raw_name (v_linkage v) s = Some l \<and>
      (p, ck, cn) \<in> named (v_concept v) s \<and> (p, ek, en) \<in> named (v_entity v) s \<and> z = place v" for v
    using joined_named [OF assms, of p "v_linkage v" "v_concept v" "v_entity v" l ck cn ek en]
    unfolding evidence_facts_of_def place_def by auto
  then show "(p, l, ck, cn, ek, en, z) \<in> evidence_facts s \<longleftrightarrow> (l, (p, ck, cn), (p, ek, en), z) \<in> all_evidence s"
    unfolding evidence_facts_def all_evidence_def by auto
qed

lemma homed_within:
  assumes "wf_partitions s" "homed s"
  shows "(l, a, b, w) \<in> all_links s \<Longrightarrow> fst a = fst b" "(l, a, b, z) \<in> all_evidence s \<Longrightarrow> fst a = fst b"
proof -
  have n: "fst a = fst b" if h: "same_home s i j" "a \<in> named i s" "b \<in> named j s" for i j
  proof -
    obtain c e p q where ce: "get_entity_by_id i s = Some c" "(e_pid c, p) \<in> bindings s" "a = (p, e_kind c, e_name c)"
      "get_entity_by_id j s = Some e" "(e_pid e, q) \<in> bindings s" "b = (q, e_kind e, e_name e)"
      using h(2,3) unfolding named_def by blast
    have "e_pid c = e_pid e" using h(1) ce(1,4) by (simp add: same_home_def)
    then show ?thesis using bindings_inj [OF assms(1) ce(2,5)] ce(3,6) by simp
  qed
  show "(l, a, b, w) \<in> all_links s \<Longrightarrow> fst a = fst b" "(l, a, b, z) \<in> all_evidence s \<Longrightarrow> fst a = fst b"
    using assms(2) n unfolding all_links_def all_evidence_def homed_def by blast+
qed

lemma within_eq:
  fixes A B :: "('l \<times> ('p \<times> 'x) \<times> ('p \<times> 'x) \<times> 'z) set"
  assumes "\<And>l p x y z. (l, (p, x), (p, y), z) \<in> A \<longleftrightarrow> (l, (p, x), (p, y), z) \<in> B"
    and "\<And>l a b z. (l, a, b, z) \<in> A \<Longrightarrow> fst a = fst b"
  shows "A = {(l, a, b, z) | l a b z. (l, a, b, z) \<in> B \<and> fst a = fst b}"
proof (rule set_eqI)
  fix t :: "'l \<times> ('p \<times> 'x) \<times> ('p \<times> 'x) \<times> 'z"
  obtain l p x q y z where t: "t = (l, (p, x), (q, y), z)" by (metis surj_pair)
  have "t \<in> A \<longleftrightarrow> t \<in> B \<and> p = q" unfolding t using assms(1) assms(2) [of l "(p, x)" "(q, y)" z] by auto
  then show "t \<in> A \<longleftrightarrow> t \<in> {(l, a, b, z) | l a b z. (l, a, b, z) \<in> B \<and> fst a = fst b}"
    unfolding t by auto
qed

text \<open>C4. Rebuilding the catalog from its own dump succeeds. The new catalog has the same entities with their
  columns and flags, the same tracked files and the same memory bodies, each in its partition, and of
  the edges and the evidence exactly those between two entities of one partition, with their weights and
  places: an edge from one partition to another is not written to the dump, and no other is lost or
  invented. The new forward index is the shadow of the new fragments.\<close>

theorem dump_rebuild:
  assumes "dumpable s"
  shows "\<exists>r s'. rebuild_index_from_log now (dump_catalog_to_log s) = Inr (r, s') \<and> graph_inv s' \<and>
    entity_facts s' = entity_facts s \<and> track_facts s' = track_facts s \<and> memory_facts s' = memory_facts s \<and>
    all_links s' = {(l, a, b, w) | l a b w. (l, a, b, w) \<in> all_links s \<and> fst a = fst b} \<and>
    all_evidence s' = {(l, a, b, z) | l a b z. (l, a, b, z) \<in> all_evidence s \<and> fst a = fst b}"
proof -
  let ?d = "dump_catalog_to_log s"
  have d: "facts_log ?d = dump_catalog s" by (simp add: dump_catalog_to_log_def)
  let ?c = "collapse (snd (bound ?d)) (facts_log ?d)"
  have c: "?c = collapse (snd (bound ?d)) (dump_catalog s)" unfolding d ..
  have "facts_log ?d \<noteq> []" using dumpableD(12) [OF assms] d by simp
  moreover have "\<forall>g\<in>set (facts_log ?d). event_ok (g_event g)" unfolding d using dump_event_ok [OF assms] by blast
  ultimately obtain r s' where run: "rebuild_index_from_log now ?d = Inr (r, s')" and g: "graph_inv s'" and h: "homed s'"
    and f: "entity_facts s' = entity_facts s" "link_facts s' = link_facts s" "evidence_facts s' = evidence_facts s"
      "track_facts s' = track_facts s" "memory_facts s' = memory_facts s"
    using rebuild_lemma [of ?d ?c now] dump_size [OF assms c]
    unfolding dump_final_entities [OF assms c] dump_final_links [OF assms c] dump_final_evidence [OF assms c]
      dump_final_tracks [OF assms c] dump_final_memory [OF assms c] by blast
  have wp: "wf_partitions s" "wf_partitions s'" using dumpableD(2) [OF assms] g by (simp_all add: graph_inv_def frag_inv_def)
  note w = facts_within [OF wp(1)] facts_within [OF wp(2)] homed_within [OF wp(2) h]
  have L: "all_links s' = {(l, a, b, w) | l a b w. (l, a, b, w) \<in> all_links s \<and> fst a = fst b}"
  proof (rule within_eq [OF _ w(5)])
    show "(l, (p, x), (p, y), z) \<in> all_links s' \<longleftrightarrow> (l, (p, x), (p, y), z) \<in> all_links s" for l p x y z
      using w(1) [of p l "fst x" "snd x" "fst y" "snd y" z] w(3) [of p l "fst x" "snd x" "fst y" "snd y" z] f(2) by simp
  qed
  have "all_evidence s' = {(l, a, b, z) | l a b z. (l, a, b, z) \<in> all_evidence s \<and> fst a = fst b}"
  proof (rule within_eq [OF _ w(6)])
    show "(l, (p, x), (p, y), z) \<in> all_evidence s' \<longleftrightarrow> (l, (p, x), (p, y), z) \<in> all_evidence s" for l p x y z
      using w(2) [of p l "fst x" "snd x" "fst y" "snd y" z] w(4) [of p l "fst x" "snd x" "fst y" "snd y" z] f(3) by simp
  qed
  with L show ?thesis using run g f(1,4,5) by blast
qed

text \<open>A concept and a memory that mentions it, with its body, a tracked file and one piece of
  evidence.\<close>

definition note_store :: store where
  "note_store = (open_store ''a'')\<lparr>
     entities := [\<lparr>e_id = 1, e_pid = 1, e_kind = ''concept'', e_path = None, e_name = ''c'', e_tldr = Some ''t'', e_meta = None,
                    e_created = 1, e_updated = 2, e_protected = True, e_noise = False, e_canonical = canonical_for_kind ''concept'' ''c''\<rparr>,
                  \<lparr>e_id = 2, e_pid = 1, e_kind = ''memory'', e_path = None, e_name = ''m'', e_tldr = None, e_meta = None,
                    e_created = 1, e_updated = 3, e_protected = False, e_noise = True, e_canonical = canonical_for_kind ''memory'' ''m''\<rparr>],
     linkage_types := [\<lparr>l_id = 1, l_name = ''mentions'', l_directed = True, l_description = None\<rparr>],
     entity_links := [\<lparr>k_entity = 2, k_linkage = 1, k_concept = 1, k_weight = Some 1\<rparr>],
     linkage_evidence := [\<lparr>v_entity = 2, v_linkage = 1, v_concept = 1, v_file = Some ''f'', v_line = Some 4, v_span_end = None, v_detail = None\<rparr>],
     memory_content := [\<lparr>m_entity = 2, m_content = ''text'', m_mtype = ''observation'', m_tags = None, m_metadata = None,
                          m_created = 1, m_updated = 3\<rparr>],
     tracked_files := [\<lparr>t_pid = 1, t_path = ''f'', t_mtime = 5, t_synced = 5\<rparr>],
     next_eid := 3, next_lid := 2\<rparr>"

lemma note_store_dumpable: "dumpable note_store"
proof -
  have "dump_catalog note_store \<noteq> []"
    by (simp add: dump_catalog_def all_bindings_def dump_partition_def dump_entities_def dump_entity_def note_store_def open_store_def
        ensure_partition_def insert_partition_def fresh_store_def partition_id_of_def Let_def)
  moreover have "canonical_verb ''mentions'' = ''mentions''" by (simp add: canonical_verb_def verb_aliases_def)
  ultimately show ?thesis
    by (simp add: dumpable_def wf_catalog_def wf_entities_def wf_partitions_def wf_linkages_def entity_ok_def entity_key_def
        kinds_def note_store_def open_store_def ensure_partition_def insert_partition_def fresh_store_def
        partition_id_of_def Let_def)
qed

theorem dump_rebuild_witness:
  "\<exists>r s'. rebuild_index_from_log 9 (dump_catalog_to_log note_store) = Inr (r, s') \<and>
     (''mentions'', (''a'', ''concept'', ''c''), (''a'', ''memory'', ''m''), Some 1) \<in> all_links s'"
proof -
  let ?r = "\<lparr>k_entity = 2, k_linkage = 1, k_concept = 1, k_weight = Some 1\<rparr>"
  have r: "(1, ''a'') \<in> bindings note_store" "?r \<in> set (entity_links note_store)"
    by (simp_all add: bindings_def note_store_def open_store_def ensure_partition_def insert_partition_def fresh_store_def
        partition_id_of_def Let_def)
  obtain c e where j: "joined 1 1 1 2 note_store = Some (''mentions'', c, e)" and
    n: "e_kind c = ''concept''" "e_name c = ''c''" "e_kind e = ''memory''" "e_name e = ''m''"
    by (simp add: joined_def entity_in_def get_entity_by_id_def linkage_raw_name_def note_store_def)
  have wp: "wf_partitions note_store" using dumpableD(2) [OF note_store_dumpable] .
  have m: "linkage_raw_name 1 note_store = Some ''mentions'' \<and> (''a'', ''concept'', ''c'') \<in> named 1 note_store \<and>
      (''a'', ''memory'', ''m'') \<in> named 2 note_store"
    by (rule iffD1 [OF joined_named [OF wp]], rule exI [of _ 1], rule exI [of _ c], rule exI [of _ e]) (simp only: r(1) j n simp_thms)
  have mem: "(''mentions'', (''a'', ''concept'', ''c''), (''a'', ''memory'', ''m''), Some 1) \<in> all_links note_store"
    unfolding all_links_def mem_Collect_eq
    by (rule exI [of _ ?r], rule exI [of _ "''mentions''"], rule exI [of _ "(''a'', ''concept'', ''c'')"],
        rule exI [of _ "(''a'', ''memory'', ''m'')"]) (use m r(2) in \<open>simp only: link_row.simps simp_thms\<close>)
  obtain r s' where run: "rebuild_index_from_log 9 (dump_catalog_to_log note_store) = Inr (r, s')"
    and eq: "all_links s' = {(l, a, b, w) | l a b w. (l, a, b, w) \<in> all_links note_store \<and> fst a = fst b}"
    using dump_rebuild [OF note_store_dumpable, of 9] by (elim exE conjE) (rule that)
  have "(''mentions'', (''a'', ''concept'', ''c''), (''a'', ''memory'', ''m''), Some 1) \<in> all_links s'"
    unfolding eq mem_Collect_eq by (intro exI conjI, rule refl, rule mem) simp
  then show ?thesis using run by (intro exI conjI)
qed

end
