(* ===== verification/Bus.thy ===== *)
theory Bus
  imports Prelude
begin

text \<open>
  The message bus of the hub (\<open>src/src/refmatrix/bus.py\<close>): messages in a table ordered by their
  row id \<open>seq\<close>, a read cursor per agent and channel, in-memory subscribers with bounded queues,
  soft deletion, archive and purge, and the queue of candidate memories that announcements and
  decisions enter.

  A message body is a text or nothing, its JSON encoding is left out. Message ids and the time stamp are arguments, the
  random \<open>uuid\<close> and the clock of the code. A subscriber is identified by a number, for the object.
\<close>

section \<open>The state\<close>

record bus_msg =
  b_seq :: nat
  b_id :: string
  b_channel :: string
  b_ts :: string
  b_sender :: "string option"
  b_project :: "string option"
  b_type :: "string option"
  b_body :: "string option"
  b_reply :: "string option"
  b_status :: string

record subscriber =
  u_id :: nat
  u_patterns :: "string list"
  u_queue :: "bus_msg list"

record candidate =
  cd_id :: string
  cd_ts :: string
  cd_scope :: string
  cd_channel :: string
  cd_project :: "string option"
  cd_status :: string
  cd_name :: string
  cd_content :: "string option"
  cd_mtype :: string
  cd_tags :: "string list"
  cd_memory :: "nat option"

record bus =
  messages :: "bus_msg list"
  reads :: "((string \<times> string) \<times> nat) list"
  subscribers :: "subscriber list"
  candidates :: "candidate list"
  next_sub :: nat

definition empty_bus :: bus where
  "empty_bus = \<lparr>messages = [], reads = [], subscribers = [], candidates = [], next_sub = 0\<rparr>"

section \<open>Channels and subscribers\<close>

definition channel_matches :: "string \<Rightarrow> string \<Rightarrow> bool" where
  "channel_matches pattern channel =
     (if pattern = ''*'' \<or> pattern = [] then True
      else if last pattern = CHR ''*'' then starts_with (butlast pattern) channel
      else if last pattern = CHR '':'' then starts_with pattern channel
      else channel = pattern)"

definition wants :: "string list \<Rightarrow> string \<Rightarrow> bool" where
  "wants patterns channel = list_ex (\<lambda>p. channel_matches p channel) patterns"

definition queue_size :: nat where "queue_size = 1000"

text \<open>\<open>put_nowait\<close> on a full queue is \<open>queue.Full\<close>, which is passed over.\<close>

definition offer :: "bus_msg \<Rightarrow> subscriber \<Rightarrow> subscriber" where
  "offer m u =
     (if wants (u_patterns u) (b_channel m) \<and> length (u_queue u) < queue_size
      then u\<lparr>u_queue := u_queue u @ [m]\<rparr> else u)"

definition subscribe :: "string list \<Rightarrow> bus \<Rightarrow> nat \<times> bus" where
  "subscribe patterns s =
     (next_sub s, s\<lparr>subscribers := subscribers s @ [\<lparr>u_id = next_sub s, u_patterns = patterns, u_queue = []\<rparr>],
                    next_sub := Suc (next_sub s)\<rparr>)"

definition unsubscribe :: "nat \<Rightarrow> bus \<Rightarrow> bus" where
  "unsubscribe u s = s\<lparr>subscribers := filter (\<lambda>x. u_id x \<noteq> u) (subscribers s)\<rparr>"

section \<open>The refinement queue\<close>

definition promote_types :: "string list" where
  "promote_types = [''announce'', ''decision'']"

definition text_of :: "string option \<Rightarrow> string" where
  "text_of x = (case x of None \<Rightarrow> ''None'' | Some y \<Rightarrow> y)"

definition candidate_of :: "bus_msg \<Rightarrow> candidate" where
  "candidate_of m =
     (let scope = (if starts_with ''global:'' (b_channel m) then ''global'' else ''project'') in
      \<lparr>cd_id = b_id m, cd_ts = b_ts m, cd_scope = scope, cd_channel = b_channel m, cd_project = b_project m,
       cd_status = ''pending'', cd_name = text_of (b_type m) @ ''-'' @ b_id m, cd_content = b_body m,
       cd_mtype = (if b_type m = Some ''decision'' then ''feedback'' else ''observation''),
       cd_tags = (if scope = ''global'' then [''behavior''] else []), cd_memory = None\<rparr>)"

definition refinement_queue :: "string \<Rightarrow> bus \<Rightarrow> candidate list" where
  "refinement_queue status s = filter (\<lambda>c. status = ''all'' \<or> cd_status c = status) (candidates s)"

fun update_first :: "('a \<Rightarrow> bool) \<Rightarrow> ('a \<Rightarrow> 'a) \<Rightarrow> 'a list \<Rightarrow> 'a list" where
  "update_first p f [] = []"
| "update_first p f (x # xs) = (if p x then f x # xs else x # update_first p f xs)"

text \<open>The write goes through the owning daemon and is a parameter: the id of the memory, or the
  \<open>RuntimeError\<close> it raises. \<open>{"ok": False, "error": e}\<close> is the left side of the answer.\<close>

definition accept_refinement :: "(candidate \<Rightarrow> nat result) \<Rightarrow> string \<Rightarrow> bus \<Rightarrow> ((string + nat) \<times> bus) result" where
  "accept_refinement write i s =
     (case find (\<lambda>c. cd_id c = i) (candidates s) of
        None \<Rightarrow> Inr (Inl ''candidate not found'', s)
      | Some c \<Rightarrow>
          if cd_status c \<noteq> ''pending'' then Inr (Inl (''already '' @ cd_status c), s)
          else bind_r (write c) (\<lambda>eid.
            Inr (Inr eid, s\<lparr>candidates := update_first (\<lambda>c. cd_id c = i)
                   (\<lambda>c. c\<lparr>cd_status := ''accepted'', cd_memory := Some eid\<rparr>) (candidates s)\<rparr>)))"

definition reject_refinement :: "string \<Rightarrow> bus \<Rightarrow> (string + unit) \<times> bus" where
  "reject_refinement i s =
     (case find (\<lambda>c. cd_id c = i) (candidates s) of
        None \<Rightarrow> (Inl ''candidate not found'', s)
      | Some _ \<Rightarrow> (Inr (), s\<lparr>candidates := update_first (\<lambda>c. cd_id c = i)
                      (\<lambda>c. c\<lparr>cd_status := ''rejected''\<rparr>) (candidates s)\<rparr>))"

section \<open>Publishing\<close>

text \<open>The row id of a new row: one more than the greatest there is.\<close>

definition next_seq :: "bus \<Rightarrow> nat" where
  "next_seq s = Suc (fold (\<lambda>m. max (b_seq m)) (messages s) 0)"

text \<open>The UNIQUE constraint on \<open>id\<close> refuses a second message with the id.\<close>

definition publish ::
  "string \<Rightarrow> string \<Rightarrow> string \<Rightarrow> string \<Rightarrow> string \<Rightarrow> string option \<Rightarrow> string \<Rightarrow> string option \<Rightarrow> bus \<Rightarrow> (bus_msg \<times> bus) result" where
  "publish mid ts channel body sender project mtype reply s =
     (if mid \<in> b_id ` set (messages s) then Inl (RuntimeErr ''IntegrityError'')
      else
        let m = \<lparr>b_seq = next_seq s, b_id = mid, b_channel = channel, b_ts = ts, b_sender = Some sender,
                 b_project = project, b_type = Some mtype, b_body = Some body, b_reply = reply, b_status = ''active''\<rparr>;
            s1 = s\<lparr>messages := messages s @ [m], subscribers := map (offer m) (subscribers s)\<rparr>
        in Inr (m, if mtype \<in> set promote_types then s1\<lparr>candidates := candidates s1 @ [candidate_of m]\<rparr> else s1))"

text \<open>The messages of the older JSONL files, each with the fresh id it gets when it has none; a row
  whose id is taken is ignored. Nothing happens when the table has a row.\<close>

record legacy_msg =
  lg_id :: "string option"
  lg_channel :: "string option"
  lg_ts :: "string option"
  lg_from :: "string option"
  lg_project :: "string option"
  lg_type :: "string option"
  lg_body :: "string option"
  lg_reply :: "string option"

definition or_else_str :: "string option \<Rightarrow> string \<Rightarrow> string" where
  "or_else_str x d = (case x of Some (c # cs) \<Rightarrow> c # cs | _ \<Rightarrow> d)"

definition import_one :: "string \<Rightarrow> string \<times> legacy_msg \<Rightarrow> bus \<Rightarrow> bus" where
  "import_one stem x s =
     (let i = or_else_str (lg_id (snd x)) (fst x) in
      if i \<in> b_id ` set (messages s) then s
      else s\<lparr>messages := messages s @
             [\<lparr>b_seq = next_seq s, b_id = i, b_channel = or_else_str (lg_channel (snd x)) stem,
               b_ts = or_else_str (lg_ts (snd x)) [], b_sender = lg_from (snd x), b_project = lg_project (snd x),
               b_type = lg_type (snd x), b_body = lg_body (snd x), b_reply = lg_reply (snd x), b_status = ''active''\<rparr>]\<rparr>)"

definition migrate_jsonl :: "(string \<times> (string \<times> legacy_msg) list) list \<Rightarrow> bus \<Rightarrow> bus" where
  "migrate_jsonl files s =
     (if messages s \<noteq> [] then s
      else fold (\<lambda>(stem, xs). fold (import_one stem) xs) files s)"

section \<open>Reading\<close>

text \<open>\<open>LIMIT\<close> with a negative number is no limit.\<close>

definition limit_rows :: "int \<Rightarrow> 'a list \<Rightarrow> 'a list" where
  "limit_rows n xs = (if n < 0 then xs else take (nat n) xs)"

definition history :: "string \<Rightarrow> int \<Rightarrow> string \<Rightarrow> bus \<Rightarrow> bus_msg list" where
  "history channel n status s =
     rev (limit_rows n (rev (sort_key b_seq
       (filter (\<lambda>m. b_channel m = channel \<and> (status = ''all'' \<or> b_status m = status)) (messages s)))))"

definition cursor :: "string \<Rightarrow> string \<Rightarrow> bus \<Rightarrow> nat" where
  "cursor agent channel s = (case map_of (reads s) (agent, channel) of None \<Rightarrow> 0 | Some n \<Rightarrow> n)"

definition active :: "bus_msg \<Rightarrow> bool" where
  "active m = (b_status m = ''active'')"

definition wanted_channels :: "string list \<Rightarrow> bus \<Rightarrow> string list" where
  "wanted_channels patterns s = filter (wants patterns) (dedup (map b_channel (filter active (messages s))))"

definition channel_rows :: "string \<Rightarrow> string \<Rightarrow> bus \<Rightarrow> bus_msg list" where
  "channel_rows agent c s =
     sort_key b_seq (filter (\<lambda>m. b_channel m = c \<and> active m \<and> b_seq m > cursor agent c s) (messages s))"

text \<open>The upsert of \<open>read\<close> only moves a cursor forward.\<close>

definition advance :: "string \<Rightarrow> string \<times> nat \<Rightarrow> bus \<Rightarrow> bus" where
  "advance agent x s =
     (case map_of (reads s) (agent, fst x) of
        None \<Rightarrow> s\<lparr>reads := AList.update (agent, fst x) (snd x) (reads s)\<rparr>
      | Some n \<Rightarrow> if snd x > n then s\<lparr>reads := AList.update (agent, fst x) (snd x) (reads s)\<rparr> else s)"

definition cap :: "int option \<Rightarrow> 'a list \<Rightarrow> 'a list" where
  "cap n xs = (case n of None \<Rightarrow> xs | Some k \<Rightarrow> py_take k xs)"

definition read :: "string \<Rightarrow> string list \<Rightarrow> bool \<Rightarrow> int option \<Rightarrow> bus \<Rightarrow> bus_msg list \<times> bus" where
  "read agent patterns peek n s =
     (let rows = map (\<lambda>c. (c, channel_rows agent c s)) (wanted_channels patterns s);
          new_cursor = map (\<lambda>(c, ms). (c, b_seq (last ms))) (filter (\<lambda>(c, ms). ms \<noteq> []) rows);
          all_out = sort_key b_seq (List.concat (map snd rows));
          out = cap n all_out
      in (out,
          if peek then s
          else fold (\<lambda>(c, q). advance agent (c, if out = [] then q else min q (b_seq (last out)))) new_cursor s))"

definition mark_read :: "string \<Rightarrow> string \<Rightarrow> nat option \<Rightarrow> bus \<Rightarrow> nat \<times> bus" where
  "mark_read agent channel bound s =
     (let q = (case bound of
                 Some q \<Rightarrow> q
               | None \<Rightarrow> fold (\<lambda>m. max (b_seq m)) (filter (\<lambda>m. b_channel m = channel \<and> active m) (messages s)) 0)
      in (q, s\<lparr>reads := AList.update (agent, channel) q (reads s)\<rparr>))"

definition count_up :: "string \<Rightarrow> (string \<times> nat) list \<Rightarrow> (string \<times> nat) list" where
  "count_up c d = AList.update c (Suc (case map_of d c of None \<Rightarrow> 0 | Some n \<Rightarrow> n)) d"

definition unread_count :: "string \<Rightarrow> string list \<Rightarrow> bus \<Rightarrow> (string \<times> nat) list" where
  "unread_count agent patterns s =
     (let pats = (if patterns = [] then [''*''] else patterns) in
      fold (\<lambda>m d. if wants pats (b_channel m) \<and> b_seq m > cursor agent (b_channel m) s
                  then count_up (b_channel m) d else d)
        (filter active (messages s)) [])"

section \<open>Deletion, archive and purge\<close>

definition set_status :: "string \<Rightarrow> (bus_msg \<Rightarrow> bool) \<Rightarrow> bus \<Rightarrow> nat \<times> bus" where
  "set_status status p s =
     (length (filter p (messages s)),
      s\<lparr>messages := map (\<lambda>m. if p m then m\<lparr>b_status := status\<rparr> else m) (messages s)\<rparr>)"

definition delete_msg :: "string \<Rightarrow> bus \<Rightarrow> nat \<times> bus" where
  "delete_msg i s = set_status ''deleted'' (\<lambda>m. b_id m = i \<and> b_status m \<noteq> ''deleted'') s"

definition absent :: "string option \<Rightarrow> bool" where
  "absent x = (case x of None \<Rightarrow> True | Some y \<Rightarrow> y = [])"

definition archive :: "string option \<Rightarrow> string option \<Rightarrow> string option \<Rightarrow> bus \<Rightarrow> (string + nat) \<times> bus" where
  "archive mid channel before s =
     (if absent mid \<and> absent channel then (Inl ''need msg_id or channel'', s)
      else case set_status ''archived''
             (\<lambda>m. active m \<and> given mid (\<lambda>i. b_id m = i) \<and> given channel (\<lambda>c. b_channel m = c) \<and>
                  given before (\<lambda>t. b_ts m < t)) s of (n, s1) \<Rightarrow> (Inr n, s1))"

definition unarchive :: "string \<Rightarrow> bus \<Rightarrow> nat \<times> bus" where
  "unarchive i s = set_status ''active'' (\<lambda>m. b_id m = i \<and> b_status m = ''archived'') s"

definition purge :: "string \<Rightarrow> string option \<Rightarrow> string option \<Rightarrow> bus \<Rightarrow> nat \<times> bus" where
  "purge status channel before s =
     (let p = (\<lambda>m. (status = ''all'' \<or> b_status m = status) \<and> given channel (\<lambda>c. b_channel m = c) \<and>
                   given before (\<lambda>t. b_ts m < t))
      in (length (filter p (messages s)), s\<lparr>messages := filter (\<lambda>m. \<not> p m) (messages s)\<rparr>))"

text \<open>The cutoff is the formatted local time \<open>days\<close> ago.\<close>

definition reap_channel :: "(rat \<Rightarrow> string) \<Rightarrow> string \<Rightarrow> rat \<Rightarrow> bus \<Rightarrow> (nat \<times> string \<times> bus) result" where
  "reap_channel cutoff channel days s =
     (if days \<le> 0 then Inl (ValueError ''reap_channel: older_than_days must be > 0'')
      else case purge ''all'' (Some channel) (Some (cutoff days)) s of (n, s1) \<Rightarrow> Inr (n, cutoff days, s1))"

section \<open>Overview\<close>

definition count_status :: "string \<Rightarrow> bus_msg list \<Rightarrow> nat" where
  "count_status st ms = length (filter (\<lambda>m. b_status m = st) ms)"

definition channels :: "bus \<Rightarrow> (string \<times> nat \<times> nat \<times> nat) list" where
  "channels s =
     map (\<lambda>c. let ms = filter (\<lambda>m. b_channel m = c) (messages s) in
              (c, count_status ''active'' ms, count_status ''archived'' ms, count_status ''deleted'' ms))
       (sort (dedup (map b_channel (messages s))))"

definition bus_stats :: "string option \<Rightarrow> bus \<Rightarrow>
    (string \<times> nat) list \<times> (string \<times> nat \<times> nat \<times> nat) list \<times> (string \<times> nat) list option" where
  "bus_stats agent s =
     (map (\<lambda>st. (st, count_status st (messages s))) (dedup (map b_status (messages s))), channels s,
      if absent agent then None else map_option (\<lambda>a. unread_count a [] s) agent)"

section \<open>Runs of the bus\<close>

datatype bus_op =
    Publish string string string string string "string option" string "string option"
  | Read string "string list" bool "int option"
  | MarkRead string string "nat option"
  | Subscribe "string list"
  | Unsubscribe nat
  | Delete string
  | Archive "string option" "string option" "string option"
  | Unarchive string
  | Purge string "string option" "string option"
  | Reject string

text \<open>An operation, the messages it returns to its caller, and the next state; a refused call leaves
  the state.\<close>

fun exec_bus :: "bus_op \<Rightarrow> bus \<Rightarrow> bus_msg list \<times> bus" where
  "exec_bus (Publish i ts c body sender project mtype reply) s =
     (case publish i ts c body sender project mtype reply s of Inl _ \<Rightarrow> ([], s) | Inr (m, s1) \<Rightarrow> ([], s1))"
| "exec_bus (Read agent ps peek n) s = read agent ps peek n s"
| "exec_bus (MarkRead agent c b) s = ([], snd (mark_read agent c b s))"
| "exec_bus (Subscribe ps) s = ([], snd (subscribe ps s))"
| "exec_bus (Unsubscribe u) s = ([], unsubscribe u s)"
| "exec_bus (Delete i) s = ([], snd (delete_msg i s))"
| "exec_bus (Archive i c t) s = ([], snd (archive i c t s))"
| "exec_bus (Unarchive i) s = ([], snd (unarchive i s))"
| "exec_bus (Purge st c t) s = ([], snd (purge st c t s))"
| "exec_bus (Reject i) s = ([], snd (reject_refinement i s))"

inductive bus_reachable :: "bus \<Rightarrow> bool" where
  start: "bus_reachable empty_bus"
| step: "bus_reachable s \<Longrightarrow> bus_reachable (snd (exec_bus x s))"

definition bus_inv :: "bus \<Rightarrow> bool" where
  "bus_inv s =
     (sorted_wrt (<) (map b_seq (messages s)) \<and> distinct (map b_id (messages s)) \<and>
      (\<forall>m\<in>set (messages s). b_status m \<in> {''active'', ''archived'', ''deleted''}) \<and>
      distinct (map u_id (subscribers s)) \<and> (\<forall>u\<in>set (subscribers s). u_id u < next_sub s \<and> length (u_queue u) \<le> queue_size))"

lemma fold_max: "fold (\<lambda>x. max (f x)) xs n = Max (insert n (f ` set xs))" for f :: "'a \<Rightarrow> nat"
proof (induction xs arbitrary: n)
  case (Cons x xs)
  have "Max (insert (max (f x) n) (f ` set xs)) = Max (insert n (insert (f x) (f ` set xs)))"
    by (cases "set xs = {}") (auto simp: Max.insert_remove max.commute max.left_commute max.assoc)
  then show ?case using Cons by simp
qed simp

lemma next_seq_gt: "m \<in> set (messages s) \<Longrightarrow> b_seq m < next_seq s"
  by (simp add: next_seq_def fold_max less_Suc_eq_le)

lemma sorted_wrt_filter_map: "sorted_wrt (<) (map f xs) \<Longrightarrow> sorted_wrt (<) (map f (filter p xs))" for f :: "'a \<Rightarrow> nat"
  by (induction xs) auto

lemma bus_inv_status:
  assumes "bus_inv s" "st \<in> {''active'', ''archived'', ''deleted''}"
  shows "bus_inv (snd (set_status st p s))"
proof -
  have "map b_seq (map (\<lambda>m. if p m then m\<lparr>b_status := st\<rparr> else m) (messages s)) = map b_seq (messages s)"
    "map b_id (map (\<lambda>m. if p m then m\<lparr>b_status := st\<rparr> else m) (messages s)) = map b_id (messages s)"
    by simp_all
  then show ?thesis using assms unfolding bus_inv_def set_status_def by (auto simp del: map_map)
qed

lemma bus_inv_frame:
  "messages s' = messages s \<Longrightarrow> subscribers s' = subscribers s \<Longrightarrow> next_sub s' = next_sub s \<Longrightarrow> bus_inv s' = bus_inv s"
  by (simp add: bus_inv_def)

lemma advance_frame [simp]:
  "messages (advance a x s) = messages s" "subscribers (advance a x s) = subscribers s"
  "next_sub (advance a x s) = next_sub s" "candidates (advance a x s) = candidates s"
  by (simp_all add: advance_def split: option.split)

lemma fold_advance_frame [simp]:
  "messages (fold (\<lambda>(c, q). advance a (c, g q)) xs s) = messages s"
  "subscribers (fold (\<lambda>(c, q). advance a (c, g q)) xs s) = subscribers s"
  "next_sub (fold (\<lambda>(c, q). advance a (c, g q)) xs s) = next_sub s"
  "candidates (fold (\<lambda>(c, q). advance a (c, g q)) xs s) = candidates s"
  by (induction xs arbitrary: s) (auto simp: split_beta)

lemma read_frame [simp]:
  "messages (snd (read a ps pk n s)) = messages s" "subscribers (snd (read a ps pk n s)) = subscribers s"
  "next_sub (snd (read a ps pk n s)) = next_sub s" "candidates (snd (read a ps pk n s)) = candidates s"
  by (simp_all add: read_def Let_def)

lemma publish_state:
  assumes "publish i ts c body sender project mtype reply s = Inr (m, s')"
  shows "i \<notin> b_id ` set (messages s)" "messages s' = messages s @ [m]" "b_seq m = next_seq s" "b_id m = i" "b_channel m = c"
    "b_status m = ''active''" "subscribers s' = map (offer m) (subscribers s)" "next_sub s' = next_sub s" "reads s' = reads s"
    "candidates s' = (if mtype \<in> set promote_types then candidates s @ [candidate_of m] else candidates s)"
  using assms by (auto simp: publish_def Let_def split: if_splits)

lemma offer_simps [simp]: "u_id (offer m u) = u_id u" "u_patterns (offer m u) = u_patterns u"
  by (simp_all add: offer_def)

lemma bus_inv_publish:
  assumes "bus_inv s" "publish i ts c body sender project mtype reply s = Inr (m, s')"
  shows "bus_inv s'"
proof -
  note p = publish_state [OF assms(2)]
  have "length (u_queue (offer m u)) \<le> queue_size" if "length (u_queue u) \<le> queue_size" for u
    using that by (simp add: offer_def)
  then show ?thesis
    using assms(1) p next_seq_gt [of _ s] by (auto simp: bus_inv_def sorted_wrt_append comp_def)
qed

lemma bus_inv_exec: "bus_inv s \<Longrightarrow> bus_inv (snd (exec_bus x s))"
proof (cases x)
  case (Publish i ts c body sender project mtype reply)
  assume "bus_inv s"
  then show ?thesis using bus_inv_publish [of s] by (auto simp: Publish split: sum.split)
next
  case (Archive i c t)
  assume "bus_inv s"
  then show ?thesis
    using bus_inv_status [of s "''archived''"] by (simp add: Archive archive_def split_beta)
next
  case (Purge st c t)
  assume "bus_inv s"
  then show ?thesis
    using sorted_wrt_filter_map [of b_seq "messages s"] distinct_map_filter [of b_id "messages s"]
    by (auto simp: Purge purge_def Let_def bus_inv_def)
next
  case (Unsubscribe u)
  assume "bus_inv s"
  then show ?thesis by (auto simp: Unsubscribe unsubscribe_def bus_inv_def distinct_map_filter)
next
  case (Subscribe ps)
  assume "bus_inv s"
  then show ?thesis by (auto simp: Subscribe subscribe_def bus_inv_def less_Suc_eq)
next
  case (Read a ps pk n)
  assume "bus_inv s"
  then show ?thesis by (simp add: Read bus_inv_frame [of "snd (read a ps pk n s)" s])
next
  case (MarkRead a c b)
  assume "bus_inv s"
  then show ?thesis by (simp add: MarkRead mark_read_def Let_def bus_inv_def)
next
  case (Reject i)
  assume "bus_inv s"
  then show ?thesis by (simp add: Reject reject_refinement_def bus_inv_def split: option.split)
qed (simp_all add: bus_inv_status delete_msg_def unarchive_def)

lemma bus_inv_reachable: "bus_reachable s \<Longrightarrow> bus_inv s"
  by (induction rule: bus_reachable.induct) (simp_all add: bus_inv_exec, simp add: bus_inv_def empty_bus_def)

section \<open>What a read returns\<close>

definition is_unread :: "string \<Rightarrow> string list \<Rightarrow> bus \<Rightarrow> bus_msg \<Rightarrow> bool" where
  "is_unread a ps s m = (active m \<and> wants ps (b_channel m) \<and> b_seq m > cursor a (b_channel m) s)"

definition unread :: "string \<Rightarrow> string list \<Rightarrow> bus \<Rightarrow> bus_msg list" where
  "unread a ps s = filter (is_unread a ps s) (messages s)"

lemma cap_take: "\<exists>k. cap n xs = take k xs"
proof (cases n)
  case None
  then have "cap n xs = take (length xs) xs" by (simp add: cap_def)
  then show ?thesis ..
qed (auto simp: cap_def py_take_def)

lemma mset_by_channel:
  "distinct cs \<Longrightarrow> mset (List.concat (map (\<lambda>c. filter (\<lambda>m. f m = c \<and> p m) xs) cs)) = mset (filter (\<lambda>m. f m \<in> set cs \<and> p m) xs)"
proof (induction cs)
  case (Cons c cs)
  have "mset (filter (\<lambda>m. f m = c \<and> p m) ys) + mset (filter (\<lambda>m. f m \<in> set cs \<and> p m) ys) =
      mset (filter (\<lambda>m. f m \<in> set (c # cs) \<and> p m) ys)" for ys
    using Cons.prems by (induction ys) auto
  then show ?case using Cons by simp
qed simp

lemma sorted_last: "sorted (map f xs) \<Longrightarrow> m \<in> set xs \<Longrightarrow> f m \<le> f (last xs)" for f :: "'a \<Rightarrow> nat"
  by (induction xs rule: rev_induct) (auto simp: sorted_append)

lemma strict_sorted_inj: "sorted_wrt (<) (map f xs) \<Longrightarrow> sorted (map f xs) \<and> distinct (map f xs)" for f :: "'a \<Rightarrow> nat"
  by (simp add: strict_sorted_iff)

lemma inv_filter: "bus_inv s \<Longrightarrow> sorted_wrt (<) (map b_seq (filter p (messages s)))"
  by (simp add: bus_inv_def sorted_wrt_filter_map)

lemma sorted_filter: "bus_inv s \<Longrightarrow> sorted (map b_seq (filter p (messages s)))" "bus_inv s \<Longrightarrow> distinct (map b_seq (filter p (messages s)))"
  using strict_sorted_inj [OF inv_filter] by blast+

lemma channel_rows_eq:
  assumes "bus_inv s"
  shows "channel_rows a c s = filter (\<lambda>m. b_channel m = c \<and> active m \<and> b_seq m > cursor a c s) (messages s)"
  unfolding channel_rows_def by (rule sort_key_id_if_sorted) (rule sorted_filter(1) [OF assms])

lemma wanted_channels: "set (wanted_channels ps s) = {c. wants ps c \<and> (\<exists>m\<in>set (messages s). active m \<and> b_channel m = c)}"
  "distinct (wanted_channels ps s)"
  by (auto simp: wanted_channels_def)

lemma read_all_out:
  assumes "bus_inv s"
  shows "sort_key b_seq (List.concat (map (\<lambda>c. channel_rows a c s) (wanted_channels ps s))) = unread a ps s"
proof -
  let ?P = "\<lambda>m. active m \<and> b_seq m > cursor a (b_channel m) s"
  let ?L = "List.concat (map (\<lambda>c. channel_rows a c s) (wanted_channels ps s))"
  have "?L = List.concat (map (\<lambda>c. filter (\<lambda>m. b_channel m = c \<and> ?P m) (messages s)) (wanted_channels ps s))"
    by (intro arg_cong [where f = List.concat] map_cong refl) (auto simp: channel_rows_eq [OF assms] intro: filter_cong)
  then have "mset ?L = mset (filter (\<lambda>m. b_channel m \<in> set (wanted_channels ps s) \<and> ?P m) (messages s))"
    by (simp add: mset_by_channel [OF wanted_channels(2)])
  also have "\<dots> = mset (unread a ps s)"
    unfolding unread_def is_unread_def by (intro arg_cong [where f = mset] filter_cong) (auto simp: wanted_channels)
  finally have m: "mset (unread a ps s) = mset ?L" ..
  have st: "sorted (map b_seq (unread a ps s))" "distinct (map b_seq (unread a ps s))"
    unfolding unread_def by (rule sorted_filter [OF assms])+
  then have "sort_key b_seq (unread a ps s) = sort_key b_seq ?L"
    by (intro sort_key_unique m) (simp add: distinct_map)
  then show ?thesis using st(1) by (simp add: sort_key_id_if_sorted)
qed

lemma cursor_advance:
  "cursor b d (advance a (c, q) s) = (if b = a \<and> d = c then max (cursor b d s) q else cursor b d s)"
  by (auto simp: cursor_def advance_def split: option.split)

lemma cursor_fold_advance:
  assumes "distinct (map fst xs)"
  shows "cursor b d (fold (\<lambda>(c, q). advance a (c, g q)) xs s) =
    (if b = a then (case map_of xs d of None \<Rightarrow> cursor b d s | Some q \<Rightarrow> max (cursor b d s) (g q)) else cursor b d s)"
  using assms
proof (induction xs arbitrary: s)
  case (Cons x xs)
  obtain c q where x: "x = (c, q)" by (cases x)
  have "d = c \<Longrightarrow> map_of xs d = None" using Cons.prems by (simp add: x map_of_eq_None_iff)
  then show ?case using Cons by (auto simp: x cursor_advance split: option.split)
qed simp

text \<open>The cursors the read moves, and where to.\<close>

lemma read_cursor:
  assumes "bus_inv s" "out = cap n (unread a ps s)"
  shows "cursor b d (snd (read a ps False n s)) =
    (if b = a \<and> d \<in> b_channel ` set (unread a ps s)
     then let q = Max (b_seq ` {m \<in> set (unread a ps s). b_channel m = d})
          in max (cursor b d s) (if out = [] then q else min q (b_seq (last out)))
     else cursor b d s)"
proof -
  let ?rows = "map (\<lambda>c. (c, channel_rows a c s)) (wanted_channels ps s)"
  let ?new = "map (\<lambda>(c, ms). (c, b_seq (last ms))) (filter (\<lambda>(c, ms). ms \<noteq> []) ?rows)"
  let ?g = "\<lambda>q. if out = [] then q else min q (b_seq (last out))"
  have all_out: "sort_key b_seq (List.concat (map snd ?rows)) = unread a ps s"
    by (simp only: map_map comp_def snd_conv read_all_out [OF assms(1)])
  have r: "snd (read a ps False n s) = fold (\<lambda>(c, q). advance a (c, ?g q)) ?new s"
    unfolding read_def Let_def all_out assms(2) by simp
  have d: "distinct (map fst ?new)"
    using distinct_map_filter [of fst ?rows] wanted_channels(2) [of ps s]
    by (simp add: comp_def case_prod_unfold)
  have m: "map_of ?new d = (if d \<in> set (wanted_channels ps s) \<and> channel_rows a d s \<noteq> [] then Some (b_seq (last (channel_rows a d s))) else None)"
  proof -
    have "map_of (map (\<lambda>(c, ms). (c, b_seq (last ms))) (filter (\<lambda>(c, ms). ms \<noteq> []) (map (\<lambda>c. (c, f c)) cs))) d =
      (if d \<in> set cs \<and> f d \<noteq> [] then Some (b_seq (last (f d))) else None)" for f cs
      by (induction cs) auto
    then show ?thesis .
  qed
  have rows: "set (channel_rows a d s) = {m \<in> set (unread a ps s). b_channel m = d}" if "wants ps d"
    using that by (auto simp: channel_rows_eq [OF assms(1)] unread_def is_unread_def)
  have mx: "b_seq (last (channel_rows a d s)) = Max (b_seq ` set (channel_rows a d s))" if "channel_rows a d s \<noteq> []"
  proof -
    have "\<forall>m\<in>set (channel_rows a d s). b_seq m \<le> b_seq (last (channel_rows a d s))"
      using sorted_last [of b_seq "channel_rows a d s"] by (simp add: channel_rows_def)
    then show ?thesis using that by (intro Max_eqI [symmetric]) auto
  qed
  have "d \<in> b_channel ` set (unread a ps s) \<longleftrightarrow> d \<in> set (wanted_channels ps s) \<and> channel_rows a d s \<noteq> []"
  proof -
    have "d \<in> b_channel ` set (unread a ps s) \<longleftrightarrow> wants ps d \<and> {m \<in> set (unread a ps s). b_channel m = d} \<noteq> {}"
      by (auto simp: unread_def is_unread_def)
    also have "\<dots> \<longleftrightarrow> wants ps d \<and> channel_rows a d s \<noteq> []" using rows by (metis set_empty)
    also have "\<dots> \<longleftrightarrow> d \<in> set (wanted_channels ps s) \<and> channel_rows a d s \<noteq> []"
      by (auto simp: wanted_channels channel_rows_eq [OF assms(1)] filter_empty_conv)
    finally show ?thesis .
  qed
  then show ?thesis unfolding r cursor_fold_advance [OF d] m
    using mx rows wanted_channels(1) [of ps s] by (auto simp: Let_def)
qed

lemma filter_above:
  fixes f :: "'a \<Rightarrow> nat"
  assumes "sorted_wrt (<) (map f (xs @ ys))" "xs \<noteq> []"
  shows "filter (\<lambda>m. f m > f (last xs)) (xs @ ys) = ys"
proof -
  have "\<forall>x\<in>set xs. f x \<le> f (last xs)"
    using assms strict_sorted_inj sorted_last [of f xs] by (simp add: sorted_wrt_append strict_sorted_iff)
  moreover have "\<forall>y\<in>set ys. f (last xs) < f y" using assms by (simp add: sorted_wrt_append)
  ultimately show ?thesis by (auto simp: filter_id_conv filter_empty_conv leD)
qed

lemma unread_after:
  assumes "bus_inv s" "out = cap n (unread a ps s)"
  shows "unread a ps (snd (read a ps False n s)) = (if out = [] then [] else drop (length out) (unread a ps s))"
proof -
  let ?s' = "snd (read a ps False n s)" and ?U = "unread a ps s"
  note cur = read_cursor [OF assms]
  have mono: "cursor a d s \<le> cursor a d ?s'" for d by (simp add: cur Let_def)
  have old: "is_unread a ps ?s' m \<Longrightarrow> is_unread a ps s m" for m
    using mono [of "b_channel m"] by (auto simp: is_unread_def)
  then have sub: "unread a ps ?s' = filter (is_unread a ps ?s') ?U"
    by (auto simp: unread_def intro!: filter_cong)
  have upto: "is_unread a ps ?s' m \<longleftrightarrow> (out \<noteq> [] \<and> b_seq m > b_seq (last out))" if m: "m \<in> set ?U" for m
  proof -
    define q where "q = Max (b_seq ` {x \<in> set ?U. b_channel x = b_channel m})"
    have "b_seq m \<le> q" unfolding q_def using m by (intro Max_ge) auto
    moreover have "cursor a (b_channel m) s < b_seq m" using m by (simp add: unread_def is_unread_def)
    moreover have "cursor a (b_channel m) ?s' = max (cursor a (b_channel m) s) (if out = [] then q else min q (b_seq (last out)))"
      unfolding q_def using m by (simp add: cur Let_def)
    moreover have "is_unread a ps ?s' m \<longleftrightarrow> cursor a (b_channel m) ?s' < b_seq m"
      using m by (simp add: is_unread_def unread_def)
    ultimately show ?thesis by (auto split: if_splits)
  qed
  show ?thesis
  proof (cases "out = []")
    case True
    then have "unread a ps ?s' = []" unfolding sub using upto by (simp add: filter_empty_conv)
    then show ?thesis using True by simp
  next
    case False
    obtain k where k: "out = take k ?U" using cap_take [of n ?U] assms(2) by auto
    have "unread a ps ?s' = filter (\<lambda>m. b_seq m > b_seq (last out)) (out @ drop (length out) ?U)"
    proof -
      have "out @ drop (length out) ?U = ?U"
        using k by (metis append_take_drop_id length_take min.cobounded2 min_def take_all_iff nat_le_linear)
      then show ?thesis unfolding sub using upto False by (intro filter_cong) simp_all
    qed
    also have "\<dots> = drop (length out) ?U"
    proof (rule filter_above [OF _ False])
      have "out @ drop (length out) ?U = ?U"
        using k by (metis append_take_drop_id length_take min.cobounded2 min_def take_all_iff nat_le_linear)
      then show "sorted_wrt (<) (map b_seq (out @ drop (length out) ?U))"
        using inv_filter [OF assms(1)] by (simp add: unread_def)
    qed
    finally show ?thesis using False by simp
  qed
qed

lemma read_out: "bus_inv s \<Longrightarrow> fst (read a ps pk n s) = cap n (unread a ps s)"
proof -
  assume s: "bus_inv s"
  have "sort_key b_seq (List.concat (map snd (map (\<lambda>c. (c, channel_rows a c s)) (wanted_channels ps s)))) = unread a ps s"
    by (simp only: map_map comp_def snd_conv read_all_out [OF s])
  then show ?thesis unfolding read_def Let_def fst_conv by simp
qed

lemma read_other:
  assumes "bus_inv s" "b \<noteq> a \<or> \<not> wants ps d"
  shows "cursor b d (snd (read a ps False n s)) = cursor b d s"
  using assms(2) by (auto simp: read_cursor [OF assms(1) refl] Let_def unread_def is_unread_def)

text \<open>C11. A read returns the messages its agent has not seen on the channels it wants, the oldest up
  to the cap, in publication order; a peek changes nothing. A read that returns something leaves
  exactly the rest unread; one that returns nothing although there are unread messages (a cap of
  zero) marks them all as read. It changes no message and no other cursor.\<close>

theorem read_correct:
  assumes "bus_reachable s"
  shows "read a ps True n s = (cap n (unread a ps s), s) \<and>
    (case read a ps False n s of (out, s') \<Rightarrow>
       out = cap n (unread a ps s) \<and> messages s' = messages s \<and>
       unread a ps s' = (if out = [] then [] else drop (length out) (unread a ps s)) \<and>
       (\<forall>b d. b \<noteq> a \<or> \<not> wants ps d \<longrightarrow> cursor b d s' = cursor b d s))"
proof -
  note inv = bus_inv_reachable [OF assms]
  have "snd (read a ps True n s) = s" by (simp add: read_def Let_def)
  then have "read a ps True n s = (cap n (unread a ps s), s)" using read_out [OF inv, of a ps True n] by (metis prod.collapse)
  then show ?thesis
    using read_out [OF inv, of a ps False n] unread_after [OF inv refl, of a ps n] read_other [OF inv, of _ a ps _ n]
    by (simp add: split_beta)
qed

section \<open>Delivery\<close>

text \<open>A log that a reader consumes from its front: \<open>pending\<close> is what it has not been given, a step
  gives it the first \<open>quota\<close> of that, and what else happens only appends keys that are new.\<close>

locale cursor_log =
  fixes advance_log :: "'op \<Rightarrow> 's \<Rightarrow> 'm list \<times> 's"
    and pending :: "'s \<Rightarrow> 'm list"
    and key :: "'m \<Rightarrow> nat"
    and top :: "'s \<Rightarrow> nat"
    and good :: "'s \<Rightarrow> bool"
    and fair :: "'op \<Rightarrow> bool"
    and quota :: "'op \<Rightarrow> nat"
  assumes step_good: "good s \<Longrightarrow> fair x \<Longrightarrow> good (snd (advance_log x s))"
    and serve: "good s \<Longrightarrow> fair x \<Longrightarrow> fst (advance_log x s) = take (quota x) (pending s)"
    and leave: "good s \<Longrightarrow> fair x \<Longrightarrow>
      \<exists>new. pending (snd (advance_log x s)) = drop (quota x) (pending s) @ new \<and> (\<forall>m\<in>set new. top s \<le> key m)"
    and top_mono: "good s \<Longrightarrow> fair x \<Longrightarrow> top s \<le> top (snd (advance_log x s))"
    and below: "good s \<Longrightarrow> m \<in> set (pending s) \<Longrightarrow> key m < top s"
    and ordered: "good s \<Longrightarrow> sorted_wrt (<) (map key (pending s))"
begin

lemma front_served:
  "good s \<Longrightarrow> \<forall>x\<in>set xs. fair x \<Longrightarrow>
     \<exists>more. List.concat (run_ops advance_log xs s) = take (sum_list (map quota xs)) (pending s) @ more"
proof (induction xs arbitrary: s)
  case (Cons x xs)
  let ?s = "snd (advance_log x s)" and ?q = "sum_list (map quota xs)"
  have x: "fair x" "good ?s" using Cons.prems step_good by auto
  obtain more where m: "List.concat (run_ops advance_log xs ?s) = take ?q (pending ?s) @ more"
    using Cons.IH [OF x(2)] Cons.prems by auto
  obtain new where "pending ?s = drop (quota x) (pending s) @ new" using leave [OF Cons.prems(1) x(1)] by blast
  then have "take (quota x) (pending s) @ take ?q (pending ?s) =
      take (quota x + ?q) (pending s) @ take (?q - length (drop (quota x) (pending s))) new"
    by (simp add: take_add)
  then show ?case using serve [OF Cons.prems(1) x(1)] m by (simp add: split_beta) (metis append.assoc)
qed simp

lemma served_keys:
  "good s \<Longrightarrow> \<forall>x\<in>set xs. fair x \<Longrightarrow> m \<in> set (List.concat (run_ops advance_log xs s)) \<Longrightarrow> m \<in> set (pending s) \<or> top s \<le> key m"
proof (induction xs arbitrary: s)
  case (Cons x xs)
  let ?s = "snd (advance_log x s)"
  have x: "fair x" "good ?s" using Cons.prems step_good by auto
  consider "m \<in> set (fst (advance_log x s))" | "m \<in> set (List.concat (run_ops advance_log xs ?s))"
    using Cons.prems(3) by (auto simp: split_beta)
  then show ?case
  proof cases
    case 1
    then show ?thesis using serve [OF Cons.prems(1) x(1)] by (auto dest: in_set_takeD)
  next
    case 2
    then have "m \<in> set (pending ?s) \<or> top ?s \<le> key m" using Cons.IH [OF x(2)] Cons.prems(2) by auto
    then show ?thesis using leave [OF Cons.prems(1) x(1)] top_mono [OF Cons.prems(1) x(1)]
      by (auto dest: in_set_dropD)
  qed
qed simp

lemma served_in_order:
  "good s \<Longrightarrow> \<forall>x\<in>set xs. fair x \<Longrightarrow> sorted_wrt (<) (map key (List.concat (run_ops advance_log xs s)))"
proof (induction xs arbitrary: s)
  case (Cons x xs)
  let ?s = "snd (advance_log x s)" and ?out = "take (quota x) (pending s)"
  have x: "fair x" "good ?s" using Cons.prems step_good by auto
  have "sorted_wrt (<) (map key (List.concat (run_ops advance_log xs ?s)))" using Cons.IH [OF x(2)] Cons.prems(2) by simp
  moreover have "key m < key m'" if "m \<in> set ?out" "m' \<in> set (List.concat (run_ops advance_log xs ?s))" for m m'
  proof -
    obtain new where n: "pending ?s = drop (quota x) (pending s) @ new" "\<forall>m\<in>set new. top s \<le> key m"
      using leave [OF Cons.prems(1) x(1)] by blast
    have "m' \<in> set (pending ?s) \<or> top ?s \<le> key m'" by (rule served_keys [OF x(2) _ that(2)]) (use Cons.prems(2) in simp)
    then have "m' \<in> set (drop (quota x) (pending s)) \<or> top s \<le> key m'"
      using n top_mono [OF Cons.prems(1) x(1)] by auto
    moreover have "key m < top s" using below [OF Cons.prems(1)] that(1) by (auto dest: in_set_takeD)
    moreover have "key m < key m'" if "m' \<in> set (drop (quota x) (pending s))"
    proof -
      have "sorted_wrt (<) (map key (?out @ drop (quota x) (pending s)))" using ordered [OF Cons.prems(1)] by simp
      then show ?thesis using \<open>m \<in> set ?out\<close> that unfolding map_append sorted_wrt_append by simp
    qed
    ultimately show ?thesis by auto
  qed
  moreover have "sorted_wrt (<) (map key ?out)" using ordered [OF Cons.prems(1)] by (simp add: take_map [symmetric] sorted_wrt_take)
  ultimately show ?case using serve [OF Cons.prems(1) x(1)] by (simp add: split_beta sorted_wrt_append del: set_concat)
qed simp

end

text \<open>What an operation hands to one agent, the operations that leave its backlog in place, and how
  many messages a read may hand it.\<close>

fun deliver_to :: "string \<Rightarrow> bus_op \<Rightarrow> bus \<Rightarrow> bus_msg list \<times> bus" where
  "deliver_to a (Read b ps peek n) s = (if b = a \<and> \<not> peek then read b ps peek n s else ([], snd (read b ps peek n s)))"
| "deliver_to a x s = ([], snd (exec_bus x s))"

fun keeps_backlog :: "string \<Rightarrow> string list \<Rightarrow> bus_op \<Rightarrow> bool" where
  "keeps_backlog a ps (Read b qs peek n) = (peek \<or> b \<noteq> a \<or> qs = ps \<and> n \<noteq> None \<and> the n > 0)"
| "keeps_backlog a ps (MarkRead b c l) = (b \<noteq> a)"
| "keeps_backlog a ps (Delete i) = False"
| "keeps_backlog a ps (Archive i c t) = False"
| "keeps_backlog a ps (Unarchive i) = False"
| "keeps_backlog a ps (Purge st c t) = False"
| "keeps_backlog a ps _ = True"

fun read_cap :: "string \<Rightarrow> bus_op \<Rightarrow> nat" where
  "read_cap a (Read b ps peek n) = (if b = a \<and> \<not> peek then case n of None \<Rightarrow> 0 | Some k \<Rightarrow> nat k else 0)"
| "read_cap a _ = 0"

lemma unread_frame:
  "messages s' = messages s \<Longrightarrow> (\<And>c. cursor a c s' = cursor a c s) \<Longrightarrow> unread a ps s' = unread a ps s"
  by (simp add: unread_def is_unread_def [abs_def])

lemma publish_unread:
  assumes "publish i ts c body sender project mtype reply s = Inr (m, s')"
  shows "unread a ps s' = unread a ps s @ (if wants ps c \<and> cursor a c s < next_seq s then [m] else [])"
proof -
  note p = publish_state [OF assms]
  have "is_unread a ps s' = is_unread a ps s" by (intro ext) (simp add: is_unread_def cursor_def p)
  then show ?thesis using p by (auto simp: unread_def is_unread_def active_def cursor_def)
qed

lemma read_other_agent:
  assumes "bus_inv s" "pk \<or> b \<noteq> a"
  shows "unread a ps (snd (read b qs pk n s)) = unread a ps s"
proof (cases pk)
  case True
  then show ?thesis by (simp add: read_def Let_def)
next
  case False
  then show ?thesis using assms by (intro unread_frame read_frame) (simp add: read_other)
qed

lemma next_seq_frame: "messages s' = messages s \<Longrightarrow> next_seq s' = next_seq s"
  by (simp add: next_seq_def)

lemma next_seq_publish:
  "publish i ts c body sender project mtype reply s = Inr (m, s') \<Longrightarrow> next_seq s' = Suc (next_seq s)"
  using publish_state [of i ts c body sender project mtype reply s m s'] next_seq_gt [of _ s]
  by (auto simp: next_seq_def fold_max intro!: Max_eqI less_imp_le)

lemma deliver_exec: "snd (deliver_to a x s) = snd (exec_bus x s)"
  by (cases x) simp_all

lemma backlog_step:
  assumes "bus_inv s" "keeps_backlog a ps x"
  shows "fst (deliver_to a x s) = take (read_cap a x) (unread a ps s)"
    "\<exists>new. unread a ps (snd (deliver_to a x s)) = drop (read_cap a x) (unread a ps s) @ new \<and> (\<forall>m\<in>set new. next_seq s \<le> b_seq m)"
    "next_seq s \<le> next_seq (snd (deliver_to a x s))"
proof -
  have same: "\<exists>new. unread a ps s' = drop 0 (unread a ps s) @ new \<and> (\<forall>m\<in>set new. next_seq s \<le> b_seq m)"
    if "unread a ps s' = unread a ps s" for s' using that by (intro exI [of _ "[]"]) simp
  have "fst (deliver_to a x s) = take (read_cap a x) (unread a ps s) \<and>
    (\<exists>new. unread a ps (snd (deliver_to a x s)) = drop (read_cap a x) (unread a ps s) @ new \<and> (\<forall>m\<in>set new. next_seq s \<le> b_seq m)) \<and>
    next_seq s \<le> next_seq (snd (deliver_to a x s))"
  proof (cases x)
    case (Publish i ts c body sender project mtype reply)
    show ?thesis
    proof (cases "publish i ts c body sender project mtype reply s")
      case (Inr r)
      obtain m s' where r: "publish i ts c body sender project mtype reply s = Inr (m, s')" using Inr by (cases r) auto
      have "\<forall>x\<in>set (if wants ps c \<and> cursor a c s < next_seq s then [m] else []). next_seq s \<le> b_seq x"
        using publish_state(3) [OF r] by simp
      then show ?thesis using publish_unread [OF r, of a ps] next_seq_publish [OF r] by (simp add: Publish r)
    qed (simp add: Publish)
  next
    case (Read b qs pk n)
    show ?thesis
    proof (cases "b = a \<and> \<not> pk")
      case True
      then obtain k where k: "n = Some k" "k > 0" "qs = ps" "b = a" "\<not> pk" using assms(2) by (auto simp: Read)
      have c: "cap n (unread a ps s) = take (nat k) (unread a ps s)" using k by (simp add: cap_def py_take_def)
      have "unread a ps (snd (read a ps False n s)) = drop (nat k) (unread a ps s)"
        using k unread_after [OF assms(1) c [symmetric]] by (cases "unread a ps s = []") (auto simp: min_def)
      then show ?thesis using k c read_out [OF assms(1), of a ps False n] next_seq_frame [of "snd (read a ps False n s)" s]
        by (simp add: Read)
    next
      case False
      then show ?thesis using read_other_agent [OF assms(1), of pk b a ps qs n] next_seq_frame [of "snd (read b qs pk n s)" s]
        by (auto simp: Read)
    qed
  next
    case (MarkRead b c l)
    then have "unread a ps (snd (mark_read b c l s)) = unread a ps s"
      using assms(2) by (intro unread_frame) (auto simp: mark_read_def Let_def cursor_def)
    then show ?thesis using next_seq_frame [of "snd (mark_read b c l s)" s] by (simp add: MarkRead mark_read_def Let_def)
  next
    case (Reject i)
    have f: "messages (snd (reject_refinement i s)) = messages s" "reads (snd (reject_refinement i s)) = reads s"
      by (simp_all add: reject_refinement_def split: option.split)
    then have "unread a ps (snd (reject_refinement i s)) = unread a ps s" by (intro unread_frame) (simp_all add: cursor_def)
    then show ?thesis using next_seq_frame [OF f(1)] by (simp add: Reject)
  next
    case (Subscribe qs)
    then show ?thesis by (simp add: subscribe_def unread_def is_unread_def [abs_def] cursor_def next_seq_def)
  next
    case (Unsubscribe u)
    then show ?thesis by (simp add: unsubscribe_def unread_def is_unread_def [abs_def] cursor_def next_seq_def)
  qed (use assms(2) in simp_all)
  then show "fst (deliver_to a x s) = take (read_cap a x) (unread a ps s)"
    "\<exists>new. unread a ps (snd (deliver_to a x s)) = drop (read_cap a x) (unread a ps s) @ new \<and> (\<forall>m\<in>set new. next_seq s \<le> b_seq m)"
    "next_seq s \<le> next_seq (snd (deliver_to a x s))" by blast+
qed

interpretation inbox: cursor_log "deliver_to a" "unread a ps" b_seq next_seq bus_inv "keeps_backlog a ps" "read_cap a" for a ps
proof
  fix s :: bus and x m
  show "bus_inv s \<Longrightarrow> bus_inv (snd (deliver_to a x s))" unfolding deliver_exec by (rule bus_inv_exec)
  show "m \<in> set (unread a ps s) \<Longrightarrow> b_seq m < next_seq s" by (rule next_seq_gt) (simp add: unread_def)
  show "bus_inv s \<Longrightarrow> sorted_wrt (<) (map b_seq (unread a ps s))" unfolding unread_def by (rule inv_filter)
qed (use backlog_step in simp_all)

text \<open>C13. Delivery: while others publish, subscribe and read, the reads of an agent return its
  messages in publication order and none twice, and as soon as their caps add up to the backlog
  there was at the start, every message of that backlog has been returned.\<close>

theorem bus_delivery:
  assumes "bus_reachable s" "\<forall>x\<in>set xs. keeps_backlog a ps x"
    "length (unread a ps s) \<le> sum_list (map (read_cap a) xs)"
  shows "set (unread a ps s) \<subseteq> set (List.concat (run_ops (deliver_to a) xs s)) \<and>
    sorted_wrt (<) (map b_seq (List.concat (run_ops (deliver_to a) xs s)))"
  using inbox.front_served [OF bus_inv_reachable [OF assms(1)] assms(2)] assms(3)
    inbox.served_in_order [OF bus_inv_reachable [OF assms(1)] assms(2)] by (auto simp del: set_concat)

text \<open>C23. In every reachable state of the bus the messages are in the order of their positive row
  ids, their ids are unique, their status is one of the three, and no subscriber's queue holds more
  than its 1000 messages.\<close>

theorem bus_bounded:
  assumes "bus_reachable s"
  shows "sorted_wrt (<) (map b_seq (messages s)) \<and> distinct (map b_id (messages s)) \<and>
    (\<forall>m\<in>set (messages s). b_status m \<in> {''active'', ''archived'', ''deleted''}) \<and>
    (\<forall>u\<in>set (subscribers s). length (u_queue u) \<le> 1000)"
  using bus_inv_reachable [OF assms] by (simp add: bus_inv_def queue_size_def)

section \<open>Examples\<close>

definition run_bus :: "bus_op list \<Rightarrow> bus" where
  "run_bus xs = fold (\<lambda>x s. snd (exec_bus x s)) xs empty_bus"

lemma run_bus_reachable: "bus_reachable (run_bus xs)"
proof -
  have "bus_reachable s \<Longrightarrow> bus_reachable (fold (\<lambda>x s. snd (exec_bus x s)) xs s)" for s
    by (induction xs arbitrary: s) (simp_all add: bus_reachable.step)
  then show ?thesis unfolding run_bus_def by (simp add: bus_reachable.start)
qed

definition post :: "string \<Rightarrow> bus_op" where
  "post i = Publish i ''t'' ''global:x'' ''hi'' ''me'' None ''announce'' None"

text \<open>Two unread messages, a subscriber, and one archived message.\<close>

definition busy_bus :: bus where
  "busy_bus = run_bus [Subscribe [''global:''], post ''m1'', Archive (Some ''m1'') None None, post ''m2'', post ''m3'']"

lemma busy_unread: "map b_id (unread ''a'' [''*''] busy_bus) = [''m2'', ''m3'']"
  by code_simp

text \<open>The row id of a purged last message is given out again: the message published next is below
  the cursors of the agents that had read the purged one, and no read returns it to them.\<close>

lemma seq_reused:
  "let s = run_bus [post ''m1'', Read ''a'' [''*''] False None, Delete ''m1'', Purge ''deleted'' None None, post ''m2''] in
   map b_id (filter active (messages s)) = [''m2''] \<and> fst (read ''a'' [''*''] False None s) = []"
  by code_simp

text \<open>A cap of zero returns nothing and marks both messages as read.\<close>

lemma zero_cap: "fst (read ''a'' [''*''] False (Some 0) busy_bus) = [] \<and> unread ''a'' [''*''] (snd (read ''a'' [''*''] False (Some 0) busy_bus)) = []"
  by code_simp

theorem read_correct_witness:
  "fst (read ''a'' [''*''] False (Some 0) busy_bus) = [] \<and> unread ''a'' [''*''] (snd (read ''a'' [''*''] False (Some 0) busy_bus)) = [] \<and>
   messages (snd (read ''a'' [''*''] False (Some 0) busy_bus)) = messages busy_bus"
proof -
  have "bus_reachable busy_bus" unfolding busy_bus_def by (rule run_bus_reachable)
  from read_correct [OF this, of "''a''" "[''*'']" "Some 0"] show ?thesis by (simp add: split_beta cap_def py_take_def)
qed

theorem bus_delivery_witness:
  "set (unread ''a'' [''*''] busy_bus) \<subseteq> set (List.concat (run_ops (deliver_to ''a'')
     [Read ''a'' [''*''] False (Some 1), post ''m4'', Read ''b'' [''*''] False None, Read ''a'' [''*''] False (Some 1)] busy_bus))"
proof -
  have r: "bus_reachable busy_bus" unfolding busy_bus_def by (rule run_bus_reachable)
  have l: "length (unread ''a'' [''*''] busy_bus) = 2" using arg_cong [OF busy_unread, of length] by simp
  show ?thesis
    by (rule bus_delivery [THEN conjunct1, OF r]) (simp_all add: l post_def)
qed

theorem bus_bounded_witness: "distinct (map b_id (messages busy_bus)) \<and> length (messages busy_bus) = 3"
proof -
  have "bus_reachable busy_bus" unfolding busy_bus_def by (rule run_bus_reachable)
  moreover have "length (messages busy_bus) = 3" by code_simp
  ultimately show ?thesis using bus_bounded [of busy_bus] by blast
qed

end
