(* ===== verification/ReplicaMerge.thy ===== *)
theory ReplicaMerge
  imports Links
begin

text \<open>
  The merge of two replica slots into one catalog (\<open>src/src/refmatrix/replica_merge.py\<close>): the
  refusal of slots that disagree on partitions, the renumbering of linkage types and entities, the
  union of every table with the newer row winning, and the drift audit.

  A slot is its tables; both slots have the current columns. An INSERT or UPDATE that violates a
  key of a table is \<open>ConstraintException\<close>, which ends the merge. The order of the rows a SELECT
  without ORDER BY returns is that of the tables.
\<close>

section \<open>Slots\<close>

record lk_inv = lk_row +
  l_inverse :: "nat option"

record slot =
  sl_partitions :: "partition list"
  sl_linkages :: "lk_inv list"
  sl_entities :: "entity list"
  sl_concepts :: "(nat \<times> string option) list"
  sl_memory :: "mem_row list"
  sl_links :: "link_row list"
  sl_tracked :: "track_row list"
  sl_evidence :: "ev_row list"
  sl_saved :: "((nat \<times> string) \<times> string) list"
  sl_fragments :: "((nat \<times> string) \<times> bitmap) list"
  sl_next_pid :: nat
  sl_next_eid :: nat
  sl_next_lid :: nat

definition remap_headroom :: nat where "remap_headroom = 1000"

definition keyed :: "('r \<Rightarrow> 'k) \<Rightarrow> 'r list \<Rightarrow> bool" where
  "keyed key rows = distinct (map key rows)"

section \<open>The statements\<close>

definition insert_into :: "('r list \<Rightarrow> bool) \<Rightarrow> 'r list \<Rightarrow> 'r list \<Rightarrow> 'r list result" where
  "insert_into ok new t = (if ok (t @ new) then Inr (t @ new) else Inl (RuntimeErr ''ConstraintException''))"

text \<open>\<open>ON CONFLICT DO NOTHING\<close>.\<close>

definition insert_ignore :: "('r \<Rightarrow> 'k) \<Rightarrow> 'r list \<Rightarrow> 'r list \<Rightarrow> 'r list" where
  "insert_ignore key new t = fold (\<lambda>r t. if key r \<in> key ` set t then t else t @ [r]) new t"

text \<open>\<open>UPDATE m SET ... FROM src WHERE m.key = src.key AND src.updated > m.updated\<close>, with every
  column but the key in the SET list.\<close>

definition update_newer :: "('r \<Rightarrow> 'k) \<Rightarrow> ('r \<Rightarrow> time) \<Rightarrow> 'r list \<Rightarrow> 'r list \<Rightarrow> 'r list" where
  "update_newer key upd src t =
     map (\<lambda>m. case find (\<lambda>x. key x = key m \<and> upd x > upd m) src of None \<Rightarrow> m | Some x \<Rightarrow> x) t"

definition remap_id :: "(nat \<times> nat) list \<Rightarrow> nat \<Rightarrow> nat" where
  "remap_id remap i = (case map_of remap i of None \<Rightarrow> i | Some j \<Rightarrow> j)"

definition max_id :: "('r \<Rightarrow> nat) \<Rightarrow> 'r list \<Rightarrow> 'r list \<Rightarrow> nat" where
  "max_id key xs ys = fold max (map key xs @ map key ys) 0"

section \<open>Partitions and linkage types\<close>

datatype clash = NameClash string nat nat | IdClash nat string string

definition partition_clashes :: "slot \<Rightarrow> slot \<Rightarrow> clash list" where
  "partition_clashes a b =
     List.concat (map (\<lambda>p. case find (\<lambda>q. p_name q = p_name p) (sl_partitions b) of
         Some q \<Rightarrow> if p_id q \<noteq> p_id p then [NameClash (p_name p) (p_id p) (p_id q)] else [] | None \<Rightarrow> [])
       (sort_key p_name (sl_partitions a))) @
     List.concat (map (\<lambda>p. case find (\<lambda>q. p_id q = p_id p) (sl_partitions b) of
         Some q \<Rightarrow> if p_name q \<noteq> p_name p then [IdClash (p_id p) (p_name p) (p_name q)] else [] | None \<Rightarrow> [])
       (sort_key p_id (sl_partitions a)))"

definition merge_partitions :: "slot \<Rightarrow> slot \<Rightarrow> partition list result" where
  "merge_partitions a b =
     (let ok = (\<lambda>t. keyed p_id t \<and> keyed p_name t) in
      bind_r (insert_into ok (sl_partitions a) []) (\<lambda>t.
        insert_into ok (filter (\<lambda>p. p_id p \<notin> p_id ` set t) (sl_partitions b)) t))"

text \<open>The id each row of B gets: A's for a name A has, else its own when free, else a fresh one.\<close>

fun place_linkages :: "(string \<times> nat) list \<Rightarrow> nat \<Rightarrow> nat list \<Rightarrow> lk_inv list \<Rightarrow> (nat \<times> nat) list" where
  "place_linkages by_name next_id taken [] = []"
| "place_linkages by_name next_id taken (r # rs) =
     (case map_of by_name (l_name r) of
        Some j \<Rightarrow> (l_id r, j) # place_linkages by_name next_id (j # taken) rs
      | None \<Rightarrow>
          if l_id r \<notin> set taken then (l_id r, l_id r) # place_linkages by_name next_id (l_id r # taken) rs
          else (l_id r, next_id) # place_linkages by_name (Suc next_id) (next_id # taken) rs)"

definition linkage_remap :: "slot \<Rightarrow> slot \<Rightarrow> (nat \<times> nat) list" where
  "linkage_remap a b =
     filter (\<lambda>(i, j). i \<noteq> j)
       (place_linkages (map (\<lambda>r. (l_name r, l_id r)) (sl_linkages a))
          (Suc (max_id l_id (sl_linkages a) (sl_linkages b))) (map l_id (sl_linkages a)) (sort_key l_id (sl_linkages b)))"

definition merge_linkages :: "slot \<Rightarrow> slot \<Rightarrow> (nat \<times> nat) list \<Rightarrow> lk_inv list result" where
  "merge_linkages a b rl =
     (let ok = (\<lambda>t. keyed l_id t \<and> keyed l_name t) in
      bind_r (insert_into ok (sl_linkages a) []) (\<lambda>t.
        insert_into ok
          (map (\<lambda>r. r\<lparr>l_id := remap_id rl (l_id r), l_inverse := map_option (remap_id rl) (l_inverse r)\<rparr>)
             (filter (\<lambda>r. l_name r \<notin> l_name ` set (sl_linkages a)) (sl_linkages b))) t))"

section \<open>Entities\<close>

text \<open>The rows with the same key and different ids, and for each the loser's id with the winner's:
  A wins ties.\<close>

definition collisions :: "slot \<Rightarrow> slot \<Rightarrow> (entity \<times> entity) list" where
  "collisions a b =
     filter (\<lambda>(x, y). entity_key x = entity_key y \<and> e_id x \<noteq> e_id y) (List.product (sl_entities a) (sl_entities b))"

definition remap_step :: "entity \<times> entity \<Rightarrow> (nat \<times> nat) list \<times> (nat \<times> nat) list \<Rightarrow> (nat \<times> nat) list \<times> (nat \<times> nat) list" where
  "remap_step xy acc =
     (case (xy, acc) of ((x, y), (ra, rb)) \<Rightarrow>
        if e_updated x \<ge> e_updated y then (ra, AList.update (e_id y) (e_id x) rb)
        else (AList.update (e_id x) (e_id y) ra, rb))"

definition entity_remap :: "slot \<Rightarrow> slot \<Rightarrow> (nat \<times> nat) list \<times> (nat \<times> nat) list" where
  "entity_remap a b = fold remap_step (collisions a b) ([], [])"

text \<open>How many losers have an id that the other slot uses too.\<close>

definition fresh_allocs :: "slot \<Rightarrow> slot \<Rightarrow> nat" where
  "fresh_allocs a b =
     (let shared = e_id ` set (sl_entities a) \<inter> e_id ` set (sl_entities b) in
      length (filter (\<lambda>(x, y). (if e_updated x \<ge> e_updated y then e_id y else e_id x) \<in> shared) (collisions a b)))"

definition ent_ok :: "entity list \<Rightarrow> bool" where
  "ent_ok t = (keyed e_id t \<and> keyed entity_key t)"

definition merge_entities :: "slot \<Rightarrow> slot \<Rightarrow> (nat \<times> nat) list \<Rightarrow> (nat \<times> nat) list \<Rightarrow> entity list result" where
  "merge_entities a b ra rb =
     bind_r (insert_into ent_ok (filter (\<lambda>e. map_of ra (e_id e) = None) (sl_entities a)) []) (\<lambda>t1.
     bind_r (insert_into ent_ok
               (filter (\<lambda>e. map_of rb (e_id e) = None \<and> e_id e \<notin> e_id ` set t1) (sl_entities b)) t1) (\<lambda>t2.
       let t3 = update_newer e_id e_updated (sl_entities b) t2
       in if ent_ok t3 then Inr t3 else Inl (RuntimeErr ''ConstraintException'')))"

definition merge_concepts :: "slot \<Rightarrow> slot \<Rightarrow> (nat \<times> nat) list \<Rightarrow> (nat \<times> nat) list \<Rightarrow> (nat \<times> string option) list result" where
  "merge_concepts a b ra rb =
     bind_r (insert_into (keyed fst) (filter (\<lambda>c. map_of ra (fst c) = None) (sl_concepts a)) []) (\<lambda>t.
       insert_into (keyed fst) (filter (\<lambda>c. map_of rb (fst c) = None \<and> fst c \<notin> fst ` set t) (sl_concepts b)) t)"

section \<open>Memory bodies\<close>

text \<open>The rows of the losers of one side, under the id of the winner.\<close>

definition moved_memory :: "(nat \<times> nat) list \<Rightarrow> mem_row list \<Rightarrow> mem_row list" where
  "moved_memory remap rows =
     map (\<lambda>m. m\<lparr>m_entity := remap_id remap (m_entity m)\<rparr>) (filter (\<lambda>m. map_of remap (m_entity m) \<noteq> None) rows)"

definition fold_memory :: "mem_row list \<Rightarrow> mem_row list \<Rightarrow> mem_row list result" where
  "fold_memory moved t =
     bind_r (insert_into (keyed m_entity) (filter (\<lambda>m. m_entity m \<notin> m_entity ` set t) moved) t) (\<lambda>t1.
       Inr (update_newer m_entity m_updated moved t1))"

definition merge_memory :: "slot \<Rightarrow> slot \<Rightarrow> (nat \<times> nat) list \<Rightarrow> (nat \<times> nat) list \<Rightarrow> mem_row list result" where
  "merge_memory a b ra rb =
     bind_r (insert_into (keyed m_entity) (filter (\<lambda>m. map_of ra (m_entity m) = None) (sl_memory a)) []) (\<lambda>t1.
     bind_r (insert_into (keyed m_entity)
               (filter (\<lambda>m. map_of rb (m_entity m) = None \<and> m_entity m \<notin> m_entity ` set t1) (sl_memory b)) t1) (\<lambda>t2.
     bind_r (fold_memory (moved_memory ra (sl_memory a)) (update_newer m_entity m_updated (sl_memory b) t2)) (\<lambda>t3.
       fold_memory (moved_memory rb (sl_memory b)) t3)))"

section \<open>Links, evidence and the other tables\<close>

definition remap_link :: "(nat \<times> nat) list \<Rightarrow> (nat \<times> nat) list \<Rightarrow> link_row \<Rightarrow> link_row" where
  "remap_link re rl r =
     r\<lparr>k_entity := remap_id re (k_entity r), k_linkage := remap_id rl (k_linkage r), k_concept := remap_id re (k_concept r)\<rparr>"

definition merge_links :: "slot \<Rightarrow> slot \<Rightarrow> (nat \<times> nat) list \<Rightarrow> (nat \<times> nat) list \<Rightarrow> (nat \<times> nat) list \<Rightarrow> link_row list" where
  "merge_links a b ra rb rl =
     insert_ignore link_key (map (remap_link rb rl) (sl_links b))
       (insert_ignore link_key (map (remap_link ra []) (sl_links a)) [])"

definition remap_evidence :: "(nat \<times> nat) list \<Rightarrow> (nat \<times> nat) list \<Rightarrow> ev_row \<Rightarrow> ev_row" where
  "remap_evidence re rl v =
     v\<lparr>v_entity := remap_id re (v_entity v), v_linkage := remap_id rl (v_linkage v), v_concept := remap_id re (v_concept v)\<rparr>"

definition merge_evidence :: "slot \<Rightarrow> slot \<Rightarrow> (nat \<times> nat) list \<Rightarrow> (nat \<times> nat) list \<Rightarrow> (nat \<times> nat) list \<Rightarrow> ev_row list" where
  "merge_evidence a b ra rb rl =
     dedup (map (remap_evidence ra []) (sl_evidence a) @ map (remap_evidence rb rl) (sl_evidence b))"

definition track_key :: "track_row \<Rightarrow> nat \<times> string" where
  "track_key t = (t_pid t, t_path t)"

definition merge_tracked :: "slot \<Rightarrow> slot \<Rightarrow> track_row list" where
  "merge_tracked a b =
     update_newer track_key t_synced (sl_tracked b)
       (insert_ignore track_key (sl_tracked b) (insert_ignore track_key (sl_tracked a) []))"

definition merge_saved :: "slot \<Rightarrow> slot \<Rightarrow> ((nat \<times> string) \<times> string) list" where
  "merge_saved a b = insert_ignore fst (sl_saved b) (insert_ignore fst (sl_saved a) [])"

definition merge_fragments :: "slot \<Rightarrow> slot \<Rightarrow> ((nat \<times> string) \<times> bitmap) list" where
  "merge_fragments a b =
     sl_fragments a @ filter (\<lambda>f. fst f \<notin> fst ` set (sl_fragments a)) (sl_fragments b)"

section \<open>The merge\<close>

definition merge_into :: "slot \<Rightarrow> slot \<Rightarrow> slot result" where
  "merge_into a b =
     (let rl = linkage_remap a b; (ra, rb) = entity_remap a b in
      bind_r (merge_partitions a b) (\<lambda>ps.
      bind_r (merge_linkages a b rl) (\<lambda>ls.
      bind_r (merge_entities a b ra rb) (\<lambda>es.
      bind_r (merge_concepts a b ra rb) (\<lambda>cs.
      bind_r (merge_memory a b ra rb) (\<lambda>ms.
        Inr \<lparr>sl_partitions = ps, sl_linkages = ls, sl_entities = es, sl_concepts = cs, sl_memory = ms,
             sl_links = merge_links a b ra rb rl, sl_tracked = merge_tracked a b,
             sl_evidence = merge_evidence a b ra rb rl, sl_saved = merge_saved a b,
             sl_fragments = merge_fragments a b,
             sl_next_pid = Suc (max_id p_id (sl_partitions a) (sl_partitions b)),
             sl_next_eid = Suc (max_id e_id (sl_entities a) (sl_entities b) + remap_headroom),
             sl_next_lid = Suc (max_id l_id (sl_linkages a) (sl_linkages b) + remap_headroom)\<rparr>))))))"

definition table_counts :: "slot \<Rightarrow> (string \<times> nat) list" where
  "table_counts s =
     [(''partitions'', length (sl_partitions s)), (''linkage_types'', length (sl_linkages s)),
      (''entities'', length (sl_entities s)), (''concepts'', length (sl_concepts s)),
      (''memory_content'', length (sl_memory s)), (''entity_links'', length (sl_links s)),
      (''tracked_files'', length (sl_tracked s)), (''linkage_evidence'', length (sl_evidence s)),
      (''saved_queries'', length (sl_saved s)), (''bitmap_fragments'', length (sl_fragments s))]"

record slot_report =
  mr_a_counts :: "(string \<times> nat) list"
  mr_b_counts :: "(string \<times> nat) list"
  mr_merged_counts :: "(string \<times> nat) list"
  mr_a_losers :: nat
  mr_b_losers :: nat
  mr_fresh_alloc :: nat

text \<open>The report, and the target file unless the run is dry.\<close>

definition merge_slots :: "bool \<Rightarrow> slot \<Rightarrow> slot \<Rightarrow> (slot_report \<times> slot option) result" where
  "merge_slots dry_run a b =
     (if partition_clashes a b \<noteq> [] then Inl (RuntimeErr ''MergeRefused'')
      else bind_r (merge_into a b) (\<lambda>m.
        Inr (\<lparr>mr_a_counts = table_counts a, mr_b_counts = table_counts b, mr_merged_counts = table_counts m,
              mr_a_losers = length (fst (entity_remap a b)), mr_b_losers = length (snd (entity_remap a b)),
              mr_fresh_alloc = fresh_allocs a b\<rparr>,
             if dry_run then None else Some m)))"

section \<open>The audit\<close>

record audit_report =
  ar_tables :: "string list"
  ar_a_only :: nat
  ar_b_only :: nat
  ar_same_id :: nat
  ar_collisions :: nat
  ar_memory_a_only :: nat
  ar_memory_b_only :: nat
  ar_clashes :: "clash list"
  ar_drift :: bool

definition only_in :: "('r \<Rightarrow> 'k) \<Rightarrow> 'r list \<Rightarrow> 'r list \<Rightarrow> nat" where
  "only_in key xs ys = length (filter (\<lambda>x. key x \<notin> key ` set ys) xs)"

definition same_id_differ :: "slot \<Rightarrow> slot \<Rightarrow> nat" where
  "same_id_differ a b =
     length (filter (\<lambda>(x, y). e_id x = e_id y \<and> entity_key x \<noteq> entity_key y) (List.product (sl_entities a) (sl_entities b)))"

definition audit_slots :: "slot \<Rightarrow> slot \<Rightarrow> audit_report" where
  "audit_slots a b =
     (let diffs = map (\<lambda>((t, _), _). t) (filter (\<lambda>((_, m), (_, n)). m \<noteq> n) (zip (table_counts a) (table_counts b))) in
      \<lparr>ar_tables = diffs, ar_a_only = only_in e_id (sl_entities a) (sl_entities b),
       ar_b_only = only_in e_id (sl_entities b) (sl_entities a), ar_same_id = same_id_differ a b,
       ar_collisions = length (collisions a b),
       ar_memory_a_only = only_in m_entity (sl_memory a) (sl_memory b),
       ar_memory_b_only = only_in m_entity (sl_memory b) (sl_memory a),
       ar_clashes = partition_clashes a b,
       ar_drift = (diffs \<noteq> [] \<or> only_in e_id (sl_entities a) (sl_entities b) \<noteq> 0 \<or>
         only_in e_id (sl_entities b) (sl_entities a) \<noteq> 0 \<or> same_id_differ a b \<noteq> 0 \<or>
         length (collisions a b) \<noteq> 0 \<or> partition_clashes a b \<noteq> [])\<rparr>)"

text \<open>The audit over the daemon's writer connection: the same comparisons with the writer first,
  put back in the order of the slots.\<close>

definition audit_via_writer :: "string \<Rightarrow> slot \<Rightarrow> slot \<Rightarrow> audit_report" where
  "audit_via_writer writer_slot w r =
     (let wc = table_counts w; rc = table_counts r;
          w_only = only_in e_id (sl_entities w) (sl_entities r); r_only = only_in e_id (sl_entities r) (sl_entities w);
          mw_only = only_in m_entity (sl_memory w) (sl_memory r); mr_only = only_in m_entity (sl_memory r) (sl_memory w);
          same = same_id_differ w r; coll = length (collisions w r);
          flip = (writer_slot \<noteq> ''A'');
          (ac, bc) = (if flip then (rc, wc) else (wc, rc));
          clashes = (if flip then partition_clashes r w else partition_clashes w r);
          diffs = map (\<lambda>((t, _), _). t) (filter (\<lambda>((_, m), (_, n)). m \<noteq> n) (zip ac bc))
      in \<lparr>ar_tables = diffs, ar_a_only = (if flip then r_only else w_only), ar_b_only = (if flip then w_only else r_only),
          ar_same_id = same, ar_collisions = coll,
          ar_memory_a_only = (if flip then mr_only else mw_only), ar_memory_b_only = (if flip then mw_only else mr_only),
          ar_clashes = clashes,
          ar_drift = (diffs \<noteq> [] \<or> (if flip then r_only else w_only) \<noteq> 0 \<or> (if flip then w_only else r_only) \<noteq> 0 \<or>
            same \<noteq> 0 \<or> coll \<noteq> 0 \<or> clashes \<noteq> [])\<rparr>)"

end
