(* ===== verification/MergeFacts.thy ===== *)
theory MergeFacts
  imports ReplicaMerge
begin

text \<open>
  What a merge of two slots keeps: by name, the union of their entities, links, evidence, memory
  bodies and tracked files, the newer of two rows with the same key, and a catalog whose keys and
  references are intact. The slots must not use one entity id for different entities; lemmas at the
  end show what happens to slots that do, and to the fragments.
\<close>

section \<open>The statements on keyed tables\<close>

lemma insert_ignore_eq:
  assumes "keyed key new"
  shows "insert_ignore key new t = t @ filter (\<lambda>r. key r \<notin> key ` set t) new"
  using assms unfolding insert_ignore_def
proof (induction new arbitrary: t)
  case (Cons r new)
  have "fold (\<lambda>r t. if key r \<in> key ` set t then t else t @ [r]) new t' = t' @ filter (\<lambda>r. key r \<notin> key ` set t') new" for t'
    using Cons by (simp add: keyed_def)
  moreover have "filter (\<lambda>x. key x \<notin> key ` set (t @ [r])) new = filter (\<lambda>x. key x \<notin> key ` set t) new"
    using Cons.prems by (intro filter_cong) (auto simp: keyed_def, metis imageI)
  ultimately show ?case by simp
qed simp

lemma keyed_append: "keyed key (xs @ ys) \<longleftrightarrow> keyed key xs \<and> keyed key ys \<and> key ` set xs \<inter> key ` set ys = {}"
  by (simp add: keyed_def)

lemma keyed_filter: "keyed key xs \<Longrightarrow> keyed key (filter P xs)"
  by (simp add: keyed_def distinct_map_filter)

lemma keyed_inj: "keyed key xs \<Longrightarrow> x \<in> set xs \<Longrightarrow> y \<in> set xs \<Longrightarrow> key x = key y \<Longrightarrow> x = y"
  by (auto simp: keyed_def distinct_map dest: inj_onD)

lemma keyed_insert: "keyed key t \<Longrightarrow> keyed key new \<Longrightarrow> keyed key (t @ filter (\<lambda>r. key r \<notin> key ` set t) new)"
  by (auto simp: keyed_append keyed_filter) (metis imageI)

lemma keyed_insert_if: "keyed key t \<Longrightarrow> keyed key new \<Longrightarrow> keyed key (t @ filter (\<lambda>r. P r \<and> key r \<notin> key ` set t) new)"
  by (auto simp: keyed_append keyed_filter) (metis imageI)

lemma keyed_nil [simp]: "keyed key []"
  by (simp add: keyed_def)

lemma keyed_sort: "keyed key (sort_key f xs) = keyed key xs"
proof -
  have "mset (map key (sort_key f xs)) = mset (map key xs)" by simp
  then show ?thesis unfolding keyed_def by (rule mset_eq_imp_distinct_iff)
qed

text \<open>An update from newer rows replaces a row by the row of its key, when that is newer.\<close>

lemma update_newer_row:
  fixes upd :: "'r \<Rightarrow> time"
  assumes "keyed key src"
  shows "(case find (\<lambda>x. key x = key m \<and> upd x > upd m) src of None \<Rightarrow> m | Some x \<Rightarrow> x) = y \<longleftrightarrow>
    (y \<in> set src \<and> key y = key m \<and> upd y > upd m) \<or> (y = m \<and> (\<forall>x\<in>set src. key x = key m \<longrightarrow> upd x \<le> upd m))"
proof (cases "find (\<lambda>x. key x = key m \<and> upd x > upd m) src")
  case None
  then have "\<forall>x\<in>set src. key x = key m \<longrightarrow> upd x \<le> upd m" by (auto simp: find_None_iff not_less)
  then show ?thesis unfolding None option.case by force
next
  case (Some x)
  then have x: "x \<in> set src" "key x = key m" "upd x > upd m" by (auto dest: find_SomeD)
  have u: "z = x" if "z \<in> set src" "key z = key m" for z using keyed_inj [OF assms that(1) x(1)] that(2) x(2) by simp
  show ?thesis unfolding Some option.case using x u linorder_not_le by blast
qed

lemma update_newer_set:
  assumes "keyed key src"
  shows "y \<in> set (update_newer key upd src t) \<longleftrightarrow>
    (\<exists>m\<in>set t. (y \<in> set src \<and> key y = key m \<and> upd y > upd m) \<or> (y = m \<and> (\<forall>x\<in>set src. key x = key m \<longrightarrow> upd x \<le> upd m)))"
  using update_newer_row [OF assms, of _ upd y] unfolding update_newer_def by (auto simp: image_iff eq_commute)

lemma update_newer_keys: "map key (update_newer key upd src t) = map key t"
  by (auto simp: update_newer_def dest: find_SomeD split: option.split)

lemma keyed_update_newer [simp]: "keyed key (update_newer key upd src t) = keyed key t"
  by (simp add: keyed_def update_newer_keys)

section \<open>Slots\<close>

definition refs_ok :: "slot \<Rightarrow> bool" where
  "refs_ok s =
     ((\<forall>r\<in>set (sl_links s). k_entity r \<in> e_id ` set (sl_entities s) \<and> k_concept r \<in> e_id ` set (sl_entities s) \<and>
         k_linkage r \<in> l_id ` set (sl_linkages s)) \<and>
      (\<forall>v\<in>set (sl_evidence s). v_entity v \<in> e_id ` set (sl_entities s) \<and> v_concept v \<in> e_id ` set (sl_entities s) \<and>
         v_linkage v \<in> l_id ` set (sl_linkages s)) \<and>
      (\<forall>m\<in>set (sl_memory s). m_entity m \<in> e_id ` set (sl_entities s)) \<and>
     (\<forall>l\<in>set (sl_linkages s). \<forall>i\<in>set_option (l_inverse l). i \<in> l_id ` set (sl_linkages s)))"

definition slot_ok :: "slot \<Rightarrow> bool" where
  "slot_ok s =
     (keyed p_id (sl_partitions s) \<and> keyed p_name (sl_partitions s) \<and> keyed l_id (sl_linkages s) \<and>
      keyed l_name (sl_linkages s) \<and> ent_ok (sl_entities s) \<and> keyed fst (sl_concepts s) \<and>
      keyed m_entity (sl_memory s) \<and> keyed link_key (sl_links s) \<and> keyed track_key (sl_tracked s) \<and>
      keyed fst (sl_saved s) \<and> keyed fst (sl_fragments s) \<and> refs_ok s)"

text \<open>An id both slots use is the id of the same entity.\<close>

definition same_ids :: "slot \<Rightarrow> slot \<Rightarrow> bool" where
  "same_ids a b = (\<forall>x\<in>set (sl_entities a). \<forall>y\<in>set (sl_entities b). e_id x = e_id y \<longrightarrow> entity_key x = entity_key y)"

lemma no_clashes:
  assumes "partition_clashes a b = []" "p \<in> set (sl_partitions a)" "q \<in> set (sl_partitions b)" "slot_ok b"
  shows "p_name p = p_name q \<longleftrightarrow> p_id p = p_id q"
proof -
  have k: "keyed p_name (sl_partitions b)" "keyed p_id (sl_partitions b)" using assms(4) by (auto simp: slot_ok_def)
  have "find (\<lambda>r. p_name r = p_name p) (sl_partitions b) = Some q" if "p_name p = p_name q"
    using find_key_unique [of p_name "sl_partitions b" q] k(1) assms(3) that by (simp add: keyed_def)
  moreover have "find (\<lambda>r. p_id r = p_id p) (sl_partitions b) = Some q" if "p_id p = p_id q"
    using find_key_unique [of p_id "sl_partitions b" q] k(2) assms(3) that by (simp add: keyed_def)
  ultimately show ?thesis using assms(1,2) by (force simp: partition_clashes_def split: option.splits if_splits)
qed

section \<open>The entity remap\<close>

abbreviation loses_to :: "entity \<Rightarrow> entity \<Rightarrow> bool" where
  "loses_to x y \<equiv> entity_key x = entity_key y \<and> e_updated x < e_updated y"

lemma remap_fold:
  assumes "\<forall>p\<in>set cs. \<forall>q\<in>set cs. e_id (fst p) = e_id (fst q) \<or> e_id (snd p) = e_id (snd q) \<longrightarrow> p = q"
  shows "(map_of (fst (fold remap_step cs ([], []))) i = Some j \<longleftrightarrow>
      (\<exists>(x, y)\<in>set cs. e_updated x < e_updated y \<and> e_id x = i \<and> e_id y = j)) \<and>
    (map_of (snd (fold remap_step cs ([], []))) i = Some j \<longleftrightarrow>
      (\<exists>(x, y)\<in>set cs. e_updated y \<le> e_updated x \<and> e_id y = i \<and> e_id x = j))"
  using assms
proof (induction cs rule: rev_induct)
  case (snoc p cs)
  obtain x y where p: "p = (x, y)" by (cases p)
  obtain ra rb where r: "fold remap_step cs ([], []) = (ra, rb)" by (cases "fold remap_step cs ([], [])")
  have "\<forall>p\<in>set cs. \<forall>q\<in>set cs. e_id (fst p) = e_id (fst q) \<or> e_id (snd p) = e_id (snd q) \<longrightarrow> p = q" using snoc.prems by auto
  note ih = snoc.IH [OF this, unfolded r fst_conv snd_conv]
  have u: "q = (x, y)" if "q \<in> set cs" "e_id (fst q) = e_id x \<or> e_id (snd q) = e_id y" for q
    using snoc.prems that p by force
  show ?case
  proof (cases "e_updated x < e_updated y")
    case True
    then have f: "fold remap_step (cs @ [p]) ([], []) = (AList.update (e_id x) (e_id y) ra, rb)" by (simp add: r p remap_step_def)
    show ?thesis unfolding f fst_conv snd_conv map_of_update using ih u True
      by (auto simp: p dest: u)
  next
    case False
    then have f: "fold remap_step (cs @ [p]) ([], []) = (ra, AList.update (e_id y) (e_id x) rb)" by (simp add: r p remap_step_def)
    show ?thesis unfolding f fst_conv snd_conv map_of_update using ih u False
      by (auto simp: p dest: u)
  qed
qed simp

lemma remap_iff:
  assumes "ent_ok (sl_entities a)" "ent_ok (sl_entities b)"
  shows "map_of (fst (entity_remap a b)) i = Some j \<longleftrightarrow> (\<exists>x\<in>set (sl_entities a). \<exists>y\<in>set (sl_entities b).
      loses_to x y \<and> e_id x \<noteq> e_id y \<and> e_id x = i \<and> e_id y = j)"
    "map_of (snd (entity_remap a b)) i = Some j \<longleftrightarrow> (\<exists>x\<in>set (sl_entities a). \<exists>y\<in>set (sl_entities b).
      entity_key x = entity_key y \<and> e_updated y \<le> e_updated x \<and> e_id x \<noteq> e_id y \<and> e_id y = i \<and> e_id x = j)"
proof -
  have "p = q" if "p \<in> set (collapse)" "q \<in> set (collapse)" "collapse = collisions a b"
    "e_id (fst p) = e_id (fst q) \<or> e_id (snd p) = e_id (snd q)" for p q collapse
  proof -
    have in_ab: "fst p \<in> set (sl_entities a)" "fst q \<in> set (sl_entities a)" "snd p \<in> set (sl_entities b)" "snd q \<in> set (sl_entities b)"
      "entity_key (fst p) = entity_key (snd p)" "entity_key (fst q) = entity_key (snd q)"
      using that(1-3) by (auto simp: collisions_def)
    then have "fst p = fst q \<or> snd p = snd q"
      using that(4) keyed_inj [of e_id] assms by (auto simp: ent_ok_def)
    then have "fst p = fst q \<and> snd p = snd q"
      using in_ab keyed_inj [of entity_key] assms by (metis ent_ok_def)
    then show ?thesis by (simp add: prod_eq_iff)
  qed
  then have "\<forall>p\<in>set (collisions a b). \<forall>q\<in>set (collisions a b). e_id (fst p) = e_id (fst q) \<or> e_id (snd p) = e_id (snd q) \<longrightarrow> p = q"
    by blast
  note f = remap_fold [OF this, folded entity_remap_def, THEN conjunct1] remap_fold [OF this, folded entity_remap_def, THEN conjunct2]
  show "map_of (fst (entity_remap a b)) i = Some j \<longleftrightarrow> (\<exists>x\<in>set (sl_entities a). \<exists>y\<in>set (sl_entities b).
      loses_to x y \<and> e_id x \<noteq> e_id y \<and> e_id x = i \<and> e_id y = j)"
    unfolding f by (auto simp: collisions_def)
  show "map_of (snd (entity_remap a b)) i = Some j \<longleftrightarrow> (\<exists>x\<in>set (sl_entities a). \<exists>y\<in>set (sl_entities b).
      entity_key x = entity_key y \<and> e_updated y \<le> e_updated x \<and> e_id x \<noteq> e_id y \<and> e_id y = i \<and> e_id x = j)"
    unfolding f by (auto simp: collisions_def)
qed

section \<open>The merged entities\<close>

text \<open>Slots that can be merged, with their remaps.\<close>

definition mergeable :: "slot \<Rightarrow> slot \<Rightarrow> bool" where
  "mergeable a b = (slot_ok a \<and> slot_ok b \<and> same_ids a b \<and> partition_clashes a b = [])"

lemma mergeableD:
  assumes "mergeable a b"
  shows "ent_ok (sl_entities a)" "ent_ok (sl_entities b)"
    "\<And>x y. x \<in> set (sl_entities a) \<Longrightarrow> y \<in> set (sl_entities b) \<Longrightarrow> e_id x = e_id y \<Longrightarrow> entity_key x = entity_key y"
    "\<And>x x'. x \<in> set (sl_entities a) \<Longrightarrow> x' \<in> set (sl_entities a) \<Longrightarrow> entity_key x = entity_key x' \<Longrightarrow> x = x'"
    "\<And>y y'. y \<in> set (sl_entities b) \<Longrightarrow> y' \<in> set (sl_entities b) \<Longrightarrow> entity_key y = entity_key y' \<Longrightarrow> y = y'"
    "\<And>x x'. x \<in> set (sl_entities a) \<Longrightarrow> x' \<in> set (sl_entities a) \<Longrightarrow> e_id x = e_id x' \<Longrightarrow> x = x'"
    "\<And>y y'. y \<in> set (sl_entities b) \<Longrightarrow> y' \<in> set (sl_entities b) \<Longrightarrow> e_id y = e_id y' \<Longrightarrow> y = y'"
  using assms by (auto simp: mergeable_def slot_ok_def same_ids_def ent_ok_def dest: keyed_inj)

definition lost_a :: "slot \<Rightarrow> slot \<Rightarrow> entity \<Rightarrow> bool" where
  "lost_a a b x = (\<exists>y\<in>set (sl_entities b). loses_to x y \<and> e_id x \<noteq> e_id y)"

definition lost_b :: "slot \<Rightarrow> slot \<Rightarrow> entity \<Rightarrow> bool" where
  "lost_b a b y = (\<exists>x\<in>set (sl_entities a). entity_key x = entity_key y \<and> e_updated y \<le> e_updated x \<and> e_id x \<noteq> e_id y)"

lemma remap_lost:
  assumes "mergeable a b"
  shows "x \<in> set (sl_entities a) \<Longrightarrow> map_of (fst (entity_remap a b)) (e_id x) = None \<longleftrightarrow> \<not> lost_a a b x"
    "y \<in> set (sl_entities b) \<Longrightarrow> map_of (snd (entity_remap a b)) (e_id y) = None \<longleftrightarrow> \<not> lost_b a b y"
proof -
  note D = mergeableD [OF assms] note R = remap_iff [OF D(1,2)]
  show "map_of (fst (entity_remap a b)) (e_id x) = None \<longleftrightarrow> \<not> lost_a a b x" if "x \<in> set (sl_entities a)"
    using R(1) [of "e_id x"] D(6) [OF _ that] that unfolding lost_a_def by (metis not_None_eq)
  show "map_of (snd (entity_remap a b)) (e_id y) = None \<longleftrightarrow> \<not> lost_b a b y" if "y \<in> set (sl_entities b)"
    using R(2) [of "e_id y"] D(7) [OF _ that] that unfolding lost_b_def by (metis not_None_eq)
qed

definition kept_a where "kept_a a b = filter (\<lambda>x. \<not> lost_a a b x) (sl_entities a)"

definition kept_b where
  "kept_b a b = filter (\<lambda>y. \<not> lost_b a b y \<and> e_id y \<notin> e_id ` set (kept_a a b)) (sl_entities b)"

definition merged where
  "merged a b = update_newer e_id e_updated (sl_entities b) (kept_a a b @ kept_b a b)"

text \<open>A row of B that is kept has an id of its own.\<close>

lemma kept_b_new:
  assumes "mergeable a b" "y \<in> set (kept_b a b)" "x \<in> set (sl_entities a)" "entity_key x = entity_key y \<or> e_id x = e_id y"
  shows "loses_to x y \<and> e_id x \<noteq> e_id y"
proof -
  note D = mergeableD [OF assms(1)]
  have y: "y \<in> set (sl_entities b)" "\<not> lost_b a b y" "e_id y \<notin> e_id ` set (kept_a a b)" using assms(2) by (auto simp: kept_b_def)
  have k: "entity_key x = entity_key y" using assms(3,4) D(3) y(1) by blast
  have "x \<in> set (kept_a a b)" if "e_id x = e_id y"
  proof -
    have "\<not> lost_a a b x" unfolding lost_a_def using D(5) y(1) k that by metis
    then show ?thesis using assms(3) by (simp add: kept_a_def)
  qed
  then have "e_id x \<noteq> e_id y" using y(3) by (metis imageI)
  then show ?thesis using k y(2) assms(3) by (force simp: lost_b_def)
qed

lemma kept_ok:
  assumes "mergeable a b"
  shows "ent_ok (kept_a a b)" "ent_ok (kept_a a b @ kept_b a b)" "ent_ok (merged a b)"
proof -
  note D = mergeableD [OF assms]
  show a: "ent_ok (kept_a a b)" using D(1) by (simp add: ent_ok_def kept_a_def keyed_filter)
  have b: "ent_ok (kept_b a b)" using D(2) by (simp add: ent_ok_def kept_b_def keyed_filter)
  have "entity_key x \<noteq> entity_key y" if "x \<in> set (kept_a a b)" "y \<in> set (kept_b a b)" for x y
  proof
    assume k: "entity_key x = entity_key y"
    have "x \<in> set (sl_entities a)" "\<not> lost_a a b x" using that(1) by (auto simp: kept_a_def)
    moreover have "y \<in> set (sl_entities b)" using that(2) by (simp add: kept_b_def)
    ultimately show False using kept_b_new [OF assms that(2), of x] k by (auto simp: lost_a_def)
  qed
  moreover have "e_id x \<noteq> e_id y" if "x \<in> set (kept_a a b)" "y \<in> set (kept_b a b)" for x y
    using that by (auto simp: kept_b_def) (metis imageI)
  ultimately have "entity_key ` set (kept_a a b) \<inter> entity_key ` set (kept_b a b) = {}"
    "e_id ` set (kept_a a b) \<inter> e_id ` set (kept_b a b) = {}" by blast+
  then show t: "ent_ok (kept_a a b @ kept_b a b)" using a b by (simp add: ent_ok_def keyed_append)
  have "entity_key (case find (\<lambda>x. e_id x = e_id m \<and> e_updated x > e_updated m) (sl_entities b) of None \<Rightarrow> m | Some x \<Rightarrow> x) = entity_key m"
    if "m \<in> set (kept_a a b @ kept_b a b)" for m
  proof (cases "find (\<lambda>x. e_id x = e_id m \<and> e_updated x > e_updated m) (sl_entities b)")
    case (Some x)
    then have x: "x \<in> set (sl_entities b)" "e_id x = e_id m" by (auto dest: find_SomeD)
    have "m \<in> set (sl_entities a) \<or> m \<in> set (sl_entities b)" using that by (auto simp: kept_a_def kept_b_def)
    then have "entity_key x = entity_key m" using x D(3) [of m x] D(7) [of x m] by metis
    then show ?thesis using Some by simp
  qed simp
  then have "map entity_key (merged a b) = map entity_key (kept_a a b @ kept_b a b)"
    unfolding merged_def update_newer_def map_map by (intro map_cong) simp_all
  then show "ent_ok (merged a b)" using t by (simp add: ent_ok_def merged_def keyed_def update_newer_keys)
qed

lemma merge_entities_eq:
  assumes "mergeable a b"
  shows "merge_entities a b (fst (entity_remap a b)) (snd (entity_remap a b)) = Inr (merged a b)"
proof -
  have "filter (\<lambda>e. map_of (fst (entity_remap a b)) (e_id e) = None) (sl_entities a) = kept_a a b"
    unfolding kept_a_def by (intro filter_cong refl) (simp add: remap_lost [OF assms])
  moreover have "filter (\<lambda>e. map_of (snd (entity_remap a b)) (e_id e) = None \<and> e_id e \<notin> e_id ` set (kept_a a b)) (sl_entities b) = kept_b a b"
    unfolding kept_b_def by (intro filter_cong refl) (simp add: remap_lost [OF assms])
  ultimately show ?thesis using kept_ok [OF assms]
    by (simp add: merge_entities_def insert_into_def Let_def merged_def)
qed

lemma merged_iff:
  assumes "mergeable a b"
  shows "e \<in> set (merged a b) \<longleftrightarrow>
    (e \<in> set (sl_entities a) \<and> (\<forall>y\<in>set (sl_entities b). \<not> loses_to e y)) \<or>
    (e \<in> set (sl_entities b) \<and> (\<forall>x\<in>set (sl_entities a). entity_key x = entity_key e \<longrightarrow> e_updated x < e_updated e))"
proof -
  note D = mergeableD [OF assms]
  have kb: "keyed e_id (sl_entities b)" using D(2) by (simp add: ent_ok_def)
  note U = update_newer_set [OF kb, where upd = e_updated, folded merged_def]
  show ?thesis
  proof
    assume "e \<in> set (merged a b)"
    then obtain m where m: "m \<in> set (kept_a a b @ kept_b a b)"
      "(e \<in> set (sl_entities b) \<and> e_id e = e_id m \<and> e_updated e > e_updated m) \<or>
       (e = m \<and> (\<forall>x\<in>set (sl_entities b). e_id x = e_id m \<longrightarrow> e_updated x \<le> e_updated m))" unfolding merged_def U by blast
    show "(e \<in> set (sl_entities a) \<and> (\<forall>y\<in>set (sl_entities b). \<not> loses_to e y)) \<or>
      (e \<in> set (sl_entities b) \<and> (\<forall>x\<in>set (sl_entities a). entity_key x = entity_key e \<longrightarrow> e_updated x < e_updated e))"
    proof (cases "m \<in> set (kept_a a b)")
      case True
      then have ma: "m \<in> set (sl_entities a)" "\<not> lost_a a b m" by (auto simp: kept_a_def)
      from m(2) show ?thesis
      proof (elim disjE conjE)
        assume e: "e \<in> set (sl_entities b)" "e_id e = e_id m" "e_updated e > e_updated m"
        then have "entity_key m = entity_key e" using D(3) [OF ma(1) e(1)] by simp
        then have "x = m" if "x \<in> set (sl_entities a)" "entity_key x = entity_key e" for x using D(4) [OF that(1) ma(1)] that(2) by simp
        then show ?thesis using e by blast
      next
        assume e: "e = m" "\<forall>x\<in>set (sl_entities b). e_id x = e_id m \<longrightarrow> e_updated x \<le> e_updated m"
        then show ?thesis using ma by (force simp: lost_a_def)
      qed
    next
      case False
      then have mb: "m \<in> set (kept_b a b)" using m(1) by simp
      then have inb: "m \<in> set (sl_entities b)" by (simp add: kept_b_def)
      have "e = m" using m(2) D(7) [OF _ inb] by auto
      then show ?thesis using inb kept_b_new [OF assms mb] by blast
    qed
  next
    assume r: "(e \<in> set (sl_entities a) \<and> (\<forall>y\<in>set (sl_entities b). \<not> loses_to e y)) \<or>
      (e \<in> set (sl_entities b) \<and> (\<forall>x\<in>set (sl_entities a). entity_key x = entity_key e \<longrightarrow> e_updated x < e_updated e))"
    then show "e \<in> set (merged a b)"
    proof (elim disjE conjE)
      assume e: "e \<in> set (sl_entities a)" "\<forall>y\<in>set (sl_entities b). \<not> loses_to e y"
      then have "e \<in> set (kept_a a b)" by (auto simp: kept_a_def lost_a_def)
      moreover have "\<forall>x\<in>set (sl_entities b). e_id x = e_id e \<longrightarrow> e_updated x \<le> e_updated e" using e D(3) [OF e(1)] by (metis not_less)
      ultimately show ?thesis unfolding merged_def U by auto
    next
      assume e: "e \<in> set (sl_entities b)" "\<forall>x\<in>set (sl_entities a). entity_key x = entity_key e \<longrightarrow> e_updated x < e_updated e"
      show ?thesis
      proof (cases "e_id e \<in> e_id ` set (kept_a a b)")
        case True
        then obtain m where m: "m \<in> set (kept_a a b)" "e_id m = e_id e" by auto
        then have "m \<in> set (sl_entities a)" by (simp add: kept_a_def)
        then have "e_updated m < e_updated e" using e D(3) [OF _ e(1) m(2)] by blast
        then show ?thesis unfolding merged_def U using m e(1) by (intro bexI [of _ m]) auto
      next
        case False
        have "\<not> lost_b a b e" using e(2) by (auto simp: lost_b_def)
        then have "e \<in> set (kept_b a b)" using e(1) False by (simp add: kept_b_def)
        moreover have "\<forall>x\<in>set (sl_entities b). e_id x = e_id e \<longrightarrow> e_updated x \<le> e_updated e" using D(7) [OF _ e(1)] by auto
        ultimately show ?thesis unfolding merged_def U by auto
      qed
    qed
  qed
qed

text \<open>Where the ids of the slots went: to the row of the same key.\<close>

lemma kept_in_merged: "m \<in> set (kept_a a b @ kept_b a b) \<Longrightarrow> mergeable a b \<Longrightarrow> \<exists>e\<in>set (merged a b). e_id e = e_id m \<and> entity_key e = entity_key m"
proof -
  assume m: "m \<in> set (kept_a a b @ kept_b a b)" and ok: "mergeable a b"
  note D = mergeableD [OF ok]
  let ?e = "case find (\<lambda>x. e_id x = e_id m \<and> e_updated x > e_updated m) (sl_entities b) of None \<Rightarrow> m | Some x \<Rightarrow> x"
  have "?e \<in> set (merged a b)" unfolding merged_def update_newer_def using m by (auto intro: imageI)
  moreover have "e_id ?e = e_id m" by (auto dest: find_SomeD split: option.split)
  moreover have "m \<in> set (sl_entities a) \<or> m \<in> set (sl_entities b)" using m by (auto simp: kept_a_def kept_b_def)
  then have "entity_key ?e = entity_key m"
    using D(3) [of m] D(7) [of _ m] by (auto dest!: find_SomeD split: option.split)
  ultimately show ?thesis by blast
qed

lemma canon_a:
  assumes "mergeable a b" "x \<in> set (sl_entities a)"
  shows "\<exists>e\<in>set (merged a b). e_id e = remap_id (fst (entity_remap a b)) (e_id x) \<and> entity_key e = entity_key x"
proof (cases "lost_a a b x")
  case False
  then show ?thesis using kept_in_merged [OF _ assms(1), of x] remap_lost(1) [OF assms] assms(2)
    by (auto simp: remap_id_def kept_a_def)
next
  case True
  note D = mergeableD [OF assms(1)]
  obtain y where y: "y \<in> set (sl_entities b)" "loses_to x y" "e_id x \<noteq> e_id y" using True by (auto simp: lost_a_def)
  then have "map_of (fst (entity_remap a b)) (e_id x) = Some (e_id y)" using remap_iff(1) [OF D(1,2)] assms(2) by blast
  moreover have "x' = x" if "x' \<in> set (sl_entities a)" "entity_key x' = entity_key y" for x'
    using D(4) [OF that(1) assms(2)] that(2) y(2) by simp
  then have "y \<in> set (merged a b)" using y unfolding merged_iff [OF assms(1)] by blast
  ultimately show ?thesis using y(2) by (intro bexI [of _ y]) (auto simp: remap_id_def)
qed

lemma canon_b:
  assumes "mergeable a b" "y \<in> set (sl_entities b)"
  shows "\<exists>e\<in>set (merged a b). e_id e = remap_id (snd (entity_remap a b)) (e_id y) \<and> entity_key e = entity_key y"
proof (cases "lost_b a b y")
  case True
  note D = mergeableD [OF assms(1)]
  obtain x where x: "x \<in> set (sl_entities a)" "entity_key x = entity_key y" "e_updated y \<le> e_updated x" "e_id x \<noteq> e_id y"
    using True by (auto simp: lost_b_def)
  then have "map_of (snd (entity_remap a b)) (e_id y) = Some (e_id x)" using remap_iff(2) [OF D(1,2)] assms(2) by blast
  moreover have "y' = y" if "y' \<in> set (sl_entities b)" "entity_key x = entity_key y'" for y'
    using D(5) [OF that(1) assms(2)] that(2) x(2) by simp
  then have "x \<in> set (merged a b)" using x unfolding merged_iff [OF assms(1)] by force
  ultimately show ?thesis using x(2) by (intro bexI [of _ x]) (auto simp: remap_id_def)
next
  case False
  then have r: "remap_id (snd (entity_remap a b)) (e_id y) = e_id y" using remap_lost(2) [OF assms] by (simp add: remap_id_def)
  show ?thesis
  proof (cases "y \<in> set (kept_b a b)")
    case True
    then show ?thesis using kept_in_merged [OF _ assms(1), of y] r by auto
  next
    case False
    then obtain m where m: "m \<in> set (kept_a a b)" "e_id m = e_id y"
      using \<open>\<not> lost_b a b y\<close> assms(2) by (auto simp: kept_b_def)
    then have "entity_key m = entity_key y" using mergeableD(3) [OF assms(1) _ assms(2)] by (simp add: kept_a_def)
    then show ?thesis using kept_in_merged [OF _ assms(1), of m] m r by auto
  qed
qed

section \<open>The merged linkage types\<close>

lemma place_ok:
  assumes "keyed l_id rs" "\<forall>i\<in>l_id ` set rs \<union> set taken. i < n" "snd ` set by_name \<subseteq> set taken"
  shows "(\<forall>r\<in>set rs. \<exists>j. map_of (place_linkages by_name n taken rs) (l_id r) = Some j \<and>
      (case map_of by_name (l_name r) of Some k \<Rightarrow> j = k | None \<Rightarrow> j \<notin> set taken)) \<and>
    (\<forall>r\<in>set rs. \<forall>r'\<in>set rs. r \<noteq> r' \<and> map_of by_name (l_name r) = None \<and> map_of by_name (l_name r') = None \<longrightarrow>
      map_of (place_linkages by_name n taken rs) (l_id r) \<noteq> map_of (place_linkages by_name n taken rs) (l_id r'))"
  using assms
proof (induction rs arbitrary: n taken)
  case (Cons r rs)
  define j where "j = (case map_of by_name (l_name r) of Some k \<Rightarrow> k | None \<Rightarrow> if l_id r \<notin> set taken then l_id r else n)"
  define n' where "n' = (if map_of by_name (l_name r) = None \<and> l_id r \<in> set taken then Suc n else n)"
  let ?ps = "place_linkages by_name n' (j # taken) rs"
  have p: "place_linkages by_name n taken (r # rs) = (l_id r, j) # ?ps"
    by (auto simp: j_def n'_def split: option.split)
  have jn: "j < n'" using Cons.prems(2,3) by (auto simp: j_def n'_def dest!: map_of_SomeD split: option.split)
  have nn: "n \<le> n'" by (simp add: n'_def)
  have fresh: "case map_of by_name (l_name r) of Some k \<Rightarrow> j = k | None \<Rightarrow> j \<notin> set taken"
    using Cons.prems(2) by (auto simp: j_def split: option.split)
  have k: "keyed l_id rs" "\<And>x. x \<in> set rs \<Longrightarrow> l_id x \<noteq> l_id r" using Cons.prems(1) by (auto simp: keyed_def) (metis imageI)
  have ih: "(\<forall>r\<in>set rs. \<exists>i. map_of ?ps (l_id r) = Some i \<and>
      (case map_of by_name (l_name r) of Some k \<Rightarrow> i = k | None \<Rightarrow> i \<notin> set (j # taken))) \<and>
    (\<forall>r\<in>set rs. \<forall>r'\<in>set rs. r \<noteq> r' \<and> map_of by_name (l_name r) = None \<and> map_of by_name (l_name r') = None \<longrightarrow>
      map_of ?ps (l_id r) \<noteq> map_of ?ps (l_id r'))"
  proof (rule Cons.IH [OF k(1)])
    show "\<forall>i\<in>l_id ` set rs \<union> set (j # taken). i < n'" using Cons.prems(2) jn nn by (auto intro: less_le_trans)
    show "snd ` set by_name \<subseteq> set (j # taken)" using Cons.prems(3) by auto
  qed
  have look: "map_of ((l_id r, j) # ?ps) (l_id x) = (if x = r then Some j else map_of ?ps (l_id x))" if "x \<in> set (r # rs)" for x
    using that k(2) by auto
  have notj: "map_of ?ps (l_id x) \<noteq> Some j" if "x \<in> set rs" "map_of by_name (l_name x) = None" for x
    using ih that by force
  show ?case unfolding p
  proof (intro conjI ballI impI)
    fix x assume x: "x \<in> set (r # rs)"
    show "\<exists>i. map_of ((l_id r, j) # ?ps) (l_id x) = Some i \<and> (case map_of by_name (l_name x) of Some k \<Rightarrow> i = k | None \<Rightarrow> i \<notin> set taken)"
    proof (cases "x = r")
      case True
      then show ?thesis using fresh by simp
    next
      case False
      then have "x \<in> set rs" using x by simp
      then obtain i where "map_of ?ps (l_id x) = Some i" "case map_of by_name (l_name x) of Some k \<Rightarrow> i = k | None \<Rightarrow> i \<notin> set (j # taken)"
        using ih by blast
      then show ?thesis using look [OF x] False by (auto split: option.splits)
    qed
  next
    fix x y assume "x \<in> set (r # rs)" "y \<in> set (r # rs)" "x \<noteq> y \<and> map_of by_name (l_name x) = None \<and> map_of by_name (l_name y) = None"
    then show "map_of ((l_id r, j) # ?ps) (l_id x) \<noteq> map_of ((l_id r, j) # ?ps) (l_id y)"
      using look notj ih by (smt (verit, best) set_ConsD)
  qed
qed simp

lemma max_id_ge: "x \<in> set xs \<union> set ys \<Longrightarrow> key x \<le> max_id key xs ys"
proof -
  assume x: "x \<in> set xs \<union> set ys"
  have "Max (set (0 # map key xs @ map key ys)) = max_id key xs ys" unfolding max_id_def by (rule Max.set_eq_fold)
  moreover have "key x \<le> Max (set (0 # map key xs @ map key ys))" using x by (intro Max_ge) auto
  ultimately show ?thesis by simp
qed

lemma map_of_filter_neq:
  "distinct (map fst ps) \<Longrightarrow> map_of ps i = Some j \<Longrightarrow> remap_id (filter (\<lambda>(i, j). i \<noteq> j) ps) i = j" for ps :: "(nat \<times> nat) list"
proof (induction ps)
  case (Cons p ps)
  show ?case
  proof (cases "fst p = i")
    case True
    then have j: "snd p = j" using Cons.prems(2) by (cases p) simp
    have "map_of (filter (\<lambda>(i, j). i \<noteq> j) ps) i = None" using Cons.prems(1) True by (force simp: map_of_eq_None_iff)
    then show ?thesis using True j by (cases p) (auto simp: remap_id_def)
  next
    case False
    then show ?thesis using Cons by (cases p) (auto simp: remap_id_def)
  qed
qed simp

lemma place_fst: "map fst (place_linkages by_name n taken rs) = map l_id rs"
  by (induction by_name n taken rs rule: place_linkages.induct) (auto split: option.split)

text \<open>The id a linkage of B gets.\<close>

lemma linkage_remap_ok:
  assumes "slot_ok a" "slot_ok b" "r \<in> set (sl_linkages b)"
  defines "id' \<equiv> remap_id (linkage_remap a b) (l_id r)"
  shows "x \<in> set (sl_linkages a) \<Longrightarrow> l_name x = l_name r \<Longrightarrow> id' = l_id x"
    "l_name r \<notin> l_name ` set (sl_linkages a) \<Longrightarrow> id' \<notin> l_id ` set (sl_linkages a)"
    "r' \<in> set (sl_linkages b) \<Longrightarrow> r' \<noteq> r \<Longrightarrow> l_name r \<notin> l_name ` set (sl_linkages a) \<Longrightarrow>
       l_name r' \<notin> l_name ` set (sl_linkages a) \<Longrightarrow> id' \<noteq> remap_id (linkage_remap a b) (l_id r')"
proof -
  let ?bn = "map (\<lambda>r. (l_name r, l_id r)) (sl_linkages a)" and ?rs = "sort_key l_id (sl_linkages b)"
  let ?n = "Suc (max_id l_id (sl_linkages a) (sl_linkages b))"
  let ?ps = "place_linkages ?bn ?n (map l_id (sl_linkages a)) ?rs"
  have ka: "keyed l_id (sl_linkages a)" "keyed l_name (sl_linkages a)" and kb: "keyed l_id (sl_linkages b)"
    using assms(1,2) by (auto simp: slot_ok_def)
  have lt: "\<forall>i\<in>l_id ` set ?rs \<union> set (map l_id (sl_linkages a)). i < ?n" using max_id_ge [of _ "sl_linkages a" "sl_linkages b" l_id]
    by (auto simp: less_Suc_eq_le)
  have sub: "snd ` set ?bn \<subseteq> set (map l_id (sl_linkages a))" by auto
  note P = place_ok [OF _ lt sub, unfolded keyed_sort, OF kb]
  have d: "distinct (map fst ?ps)" using keyed_sort [of l_id l_id "sl_linkages b"] kb by (simp add: place_fst keyed_def)
  have id: "remap_id (linkage_remap a b) (l_id x) = j" if "map_of ?ps (l_id x) = Some j" for x j
    unfolding linkage_remap_def by (rule map_of_filter_neq [OF d that])
  have bn: "map_of ?bn l = (case find (\<lambda>x. l_name x = l) (sl_linkages a) of None \<Rightarrow> None | Some x \<Rightarrow> Some (l_id x))" for l
  proof -
    have "map_of (map (\<lambda>r. (l_name r, l_id r)) xs) l = (case find (\<lambda>x. l_name x = l) xs of None \<Rightarrow> None | Some x \<Rightarrow> Some (l_id x))"
      for xs :: "lk_inv list" by (induction xs) auto
    then show ?thesis .
  qed
  have none: "map_of ?bn l = None \<longleftrightarrow> l \<notin> l_name ` set (sl_linkages a)" for l by (simp add: map_of_eq_None_iff image_image)
  obtain j where j: "map_of ?ps (l_id r) = Some j" "case map_of ?bn (l_name r) of Some k \<Rightarrow> j = k | None \<Rightarrow> j \<notin> set (map l_id (sl_linkages a))"
    using P assms(3) by auto
  show "id' = l_id x" if "x \<in> set (sl_linkages a)" "l_name x = l_name r"
  proof -
    have "map_of ?bn (l_name r) = Some (l_id x)"
      using find_key_unique [of l_name "sl_linkages a" x] ka(2) that unfolding bn by (simp add: keyed_def)
    then show ?thesis using j id unfolding id'_def by simp
  qed
  show "id' \<notin> l_id ` set (sl_linkages a)" if "l_name r \<notin> l_name ` set (sl_linkages a)"
    using j(2) that none [of "l_name r"] unfolding id'_def id [OF j(1)] by simp
  show "id' \<noteq> remap_id (linkage_remap a b) (l_id r')" if "r' \<in> set (sl_linkages b)" "r' \<noteq> r"
    "l_name r \<notin> l_name ` set (sl_linkages a)" "l_name r' \<notin> l_name ` set (sl_linkages a)"
  proof -
    have r: "r \<in> set ?rs" "r' \<in> set ?rs" using assms(3) that(1) by simp_all
    obtain j' where j': "map_of ?ps (l_id r') = Some j'" using P [THEN conjunct1] r(2) by blast
    have n: "map_of ?bn (l_name r) = None" "map_of ?bn (l_name r') = None" unfolding none by (fact that)+
    have "map_of ?ps (l_id r) \<noteq> map_of ?ps (l_id r')"
      using P [THEN conjunct2, THEN bspec, OF r(1), THEN bspec, OF r(2)] n that(2) by (metis (no_types))
    then show ?thesis using id [OF j(1)] id [OF j'] j j' unfolding id'_def by simp
  qed
qed

definition merged_linkages where
  "merged_linkages a b = sl_linkages a @
     map (\<lambda>r. r\<lparr>l_id := remap_id (linkage_remap a b) (l_id r), l_inverse := map_option (remap_id (linkage_remap a b)) (l_inverse r)\<rparr>)
       (filter (\<lambda>r. l_name r \<notin> l_name ` set (sl_linkages a)) (sl_linkages b))"

lemma merged_linkages_ok:
  assumes "slot_ok a" "slot_ok b"
  shows "keyed l_id (merged_linkages a b)" "keyed l_name (merged_linkages a b)"
    "merge_linkages a b (linkage_remap a b) = Inr (merged_linkages a b)"
    "r \<in> set (sl_linkages b) \<Longrightarrow> \<exists>l\<in>set (merged_linkages a b). l_id l = remap_id (linkage_remap a b) (l_id r) \<and> l_name l = l_name r"
proof -
  note R = linkage_remap_ok [OF assms]
  let ?new = "filter (\<lambda>r. l_name r \<notin> l_name ` set (sl_linkages a)) (sl_linkages b)"
  have k: "keyed l_id (sl_linkages a)" "keyed l_name (sl_linkages a)" "keyed l_id (sl_linkages b)" "keyed l_name (sl_linkages b)"
    using assms by (auto simp: slot_ok_def)
  have "distinct ?new" using k(3) by (simp add: keyed_def distinct_map)
  then have "distinct (map (\<lambda>r. remap_id (linkage_remap a b) (l_id r)) ?new)"
    unfolding distinct_map using R(3) by (auto simp: inj_on_def)
  moreover have "(\<lambda>r. remap_id (linkage_remap a b) (l_id r)) ` set ?new \<inter> l_id ` set (sl_linkages a) = {}" using R(2) by auto
  ultimately show i: "keyed l_id (merged_linkages a b)" using k(1)
    by (simp add: merged_linkages_def keyed_def comp_def image_image Int_commute)
  have "keyed l_name ?new" using k(4) by (rule keyed_filter)
  then show n: "keyed l_name (merged_linkages a b)" using k(2) by (auto simp: merged_linkages_def keyed_def comp_def image_image) (metis imageI)
  show "merge_linkages a b (linkage_remap a b) = Inr (merged_linkages a b)"
    using i n k by (simp add: merge_linkages_def Let_def insert_into_def merged_linkages_def)
  show "\<exists>l\<in>set (merged_linkages a b). l_id l = remap_id (linkage_remap a b) (l_id r) \<and> l_name l = l_name r" if r: "r \<in> set (sl_linkages b)"
  proof (cases "l_name r \<in> l_name ` set (sl_linkages a)")
    case True
    then obtain x where "x \<in> set (sl_linkages a)" "l_name x = l_name r" by auto
    then show ?thesis using R(1) [OF r] by (intro bexI [of _ x]) (auto simp: merged_linkages_def)
  next
    case False
    let ?f = "\<lambda>r. r\<lparr>l_id := remap_id (linkage_remap a b) (l_id r), l_inverse := map_option (remap_id (linkage_remap a b)) (l_inverse r)\<rparr>"
    have "?f r \<in> set (merged_linkages a b)" using r False by (auto simp: merged_linkages_def)
    then show ?thesis by (intro bexI [of _ "?f r"]) simp_all
  qed
qed

section \<open>Tables by name\<close>

text \<open>What an id of a slot stands for, and the tables with their ids read so.\<close>

definition key_of :: "slot \<Rightarrow> nat \<Rightarrow> (nat \<times> string \<times> string) option" where
  "key_of s i = map_option entity_key (find (\<lambda>e. e_id e = i) (sl_entities s))"

definition lname_of :: "slot \<Rightarrow> nat \<Rightarrow> string option" where
  "lname_of s i = map_option l_name (find (\<lambda>l. l_id l = i) (sl_linkages s))"

definition link_of where
  "link_of s r = (key_of s (k_entity r), lname_of s (k_linkage r), key_of s (k_concept r))"

definition link_view where
  "link_view s = (\<lambda>r. (link_of s r, k_weight r)) ` set (sl_links s)"

definition evidence_view where
  "evidence_view s = (\<lambda>v. ((key_of s (v_entity v), lname_of s (v_linkage v), key_of s (v_concept v)),
     (v_file v, v_line v, v_span_end v, v_detail v))) ` set (sl_evidence s)"

definition body_view where
  "body_view s = (\<lambda>m. (key_of s (m_entity m), m\<lparr>m_entity := 0\<rparr>)) ` set (sl_memory s)"

definition linkage_view where
  "linkage_view s = (\<lambda>l. (l_name l, l_directed l, l_description l, map_option (lname_of s) (l_inverse l))) ` set (sl_linkages s)"

lemma key_of_iff: "keyed e_id (sl_entities s) \<Longrightarrow> e \<in> set (sl_entities s) \<Longrightarrow> e_id e = i \<Longrightarrow> key_of s i = Some (entity_key e)"
  using find_key_unique [of e_id "sl_entities s" e] by (simp add: key_of_def keyed_def)

lemma lname_of_iff: "keyed l_id (sl_linkages s) \<Longrightarrow> l \<in> set (sl_linkages s) \<Longrightarrow> l_id l = i \<Longrightarrow> lname_of s i = Some (l_name l)"
  using find_key_unique [of l_id "sl_linkages s" l] by (simp add: lname_of_def keyed_def)

lemma key_of_inj:
  assumes "ent_ok (sl_entities s)" "i \<in> e_id ` set (sl_entities s)" "j \<in> e_id ` set (sl_entities s)" "key_of s i = key_of s j"
  shows "i = j"
proof -
  obtain x y where "x \<in> set (sl_entities s)" "i = e_id x" "y \<in> set (sl_entities s)" "j = e_id y" using assms(2,3) by auto
  moreover have k: "keyed e_id (sl_entities s)" "keyed entity_key (sl_entities s)" using assms(1) by (auto simp: ent_ok_def)
  ultimately have "entity_key x = entity_key y" using assms(4) key_of_iff [OF k(1), of x i] key_of_iff [OF k(1), of y j] by simp
  with \<open>x \<in> _\<close> \<open>y \<in> _\<close> have "x = y" by (intro keyed_inj [OF k(2)])
  then show ?thesis using \<open>i = _\<close> \<open>j = _\<close> by simp
qed

lemma lname_of_inj:
  assumes k: "keyed l_id (sl_linkages s)" "keyed l_name (sl_linkages s)" and "i \<in> l_id ` set (sl_linkages s)" "j \<in> l_id ` set (sl_linkages s)" "lname_of s i = lname_of s j"
  shows "i = j"
proof -
  obtain x y where x: "x \<in> set (sl_linkages s)" "i = l_id x" "y \<in> set (sl_linkages s)" "j = l_id y" using assms(3,4) by auto
  have "l_name x = l_name y" using assms(5) lname_of_iff [OF k(1), of x i] lname_of_iff [OF k(1), of y j] x by simp
  then have "x = y" by (rule keyed_inj [OF k(2) x(1,3)])
  then show ?thesis using x by simp
qed

abbreviation link_in :: "slot \<Rightarrow> link_row \<Rightarrow> bool" where
  "link_in s r \<equiv> k_entity r \<in> e_id ` set (sl_entities s) \<and> k_concept r \<in> e_id ` set (sl_entities s) \<and> k_linkage r \<in> l_id ` set (sl_linkages s)"

lemma link_of_inj:
  assumes "ent_ok (sl_entities s)" "keyed l_id (sl_linkages s)" "keyed l_name (sl_linkages s)" "link_in s r" "link_in s r'"
  shows "link_of s r = link_of s r' \<longleftrightarrow> link_key r = link_key r'"
  using key_of_inj [OF assms(1)] lname_of_inj [OF assms(2,3)] assms(4,5)
  unfolding link_of_def link_key_def prod.inject by metis

section \<open>A slot inside the merged slot\<close>

text \<open>Every id of the slot is taken to an id of the merged slot that stands for the same thing.\<close>

definition embeds :: "slot \<Rightarrow> (nat \<times> nat) list \<Rightarrow> (nat \<times> nat) list \<Rightarrow> slot \<Rightarrow> bool" where
  "embeds s re rl m =
     ((\<forall>e\<in>set (sl_entities s). \<exists>x\<in>set (sl_entities m). e_id x = remap_id re (e_id e) \<and> entity_key x = entity_key e) \<and>
      (\<forall>l\<in>set (sl_linkages s). \<exists>x\<in>set (sl_linkages m). l_id x = remap_id rl (l_id l) \<and> l_name x = l_name l))"

lemma embeds_key:
  assumes "embeds s re rl m" "keyed e_id (sl_entities m)" "keyed e_id (sl_entities s)" "i \<in> e_id ` set (sl_entities s)"
  shows "key_of m (remap_id re i) = key_of s i" "remap_id re i \<in> e_id ` set (sl_entities m)"
proof -
  obtain e where e: "e \<in> set (sl_entities s)" "i = e_id e" using assms(4) by auto
  then obtain x where x: "x \<in> set (sl_entities m)" "e_id x = remap_id re i" "entity_key x = entity_key e" using assms(1) by (auto simp: embeds_def)
  show "key_of m (remap_id re i) = key_of s i" using key_of_iff [OF assms(2) x(1,2)] key_of_iff [OF assms(3) e(1), of i] e x by simp
  show "remap_id re i \<in> e_id ` set (sl_entities m)" using x(1) unfolding x(2) [symmetric] by simp
qed

lemma embeds_lname:
  assumes "embeds s re rl m" "keyed l_id (sl_linkages m)" "keyed l_id (sl_linkages s)" "i \<in> l_id ` set (sl_linkages s)"
  shows "lname_of m (remap_id rl i) = lname_of s i" "remap_id rl i \<in> l_id ` set (sl_linkages m)"
proof -
  obtain e where e: "e \<in> set (sl_linkages s)" "i = l_id e" using assms(4) by auto
  then obtain x where x: "x \<in> set (sl_linkages m)" "l_id x = remap_id rl i" "l_name x = l_name e" using assms(1) by (auto simp: embeds_def)
  show "lname_of m (remap_id rl i) = lname_of s i" using lname_of_iff [OF assms(2) x(1,2)] lname_of_iff [OF assms(3) e(1), of i] e x by simp
  show "remap_id rl i \<in> l_id ` set (sl_linkages m)" using x(1) unfolding x(2) [symmetric] by simp
qed

lemma embeds_rows:
  assumes "embeds s re rl m" "slot_ok s" "keyed e_id (sl_entities m)" "keyed l_id (sl_linkages m)"
  shows "r \<in> set (sl_links s) \<Longrightarrow> link_of m (remap_link re rl r) = link_of s r"
    "r \<in> set (sl_links s) \<Longrightarrow> k_entity (remap_link re rl r) \<in> e_id ` set (sl_entities m) \<and>
      k_concept (remap_link re rl r) \<in> e_id ` set (sl_entities m) \<and> k_linkage (remap_link re rl r) \<in> l_id ` set (sl_linkages m)"
    "v \<in> set (sl_evidence s) \<Longrightarrow> key_of m (v_entity (remap_evidence re rl v)) = key_of s (v_entity v) \<and>
      key_of m (v_concept (remap_evidence re rl v)) = key_of s (v_concept v) \<and>
      lname_of m (v_linkage (remap_evidence re rl v)) = lname_of s (v_linkage v)"
    "v \<in> set (sl_evidence s) \<Longrightarrow> v_entity (remap_evidence re rl v) \<in> e_id ` set (sl_entities m) \<and>
      v_concept (remap_evidence re rl v) \<in> e_id ` set (sl_entities m) \<and> v_linkage (remap_evidence re rl v) \<in> l_id ` set (sl_linkages m)"
proof -
  have ks: "keyed e_id (sl_entities s)" "keyed l_id (sl_linkages s)" and R: "refs_ok s" using assms(2) by (auto simp: slot_ok_def ent_ok_def)
  note E = embeds_key [OF assms(1,3) ks(1)] embeds_lname [OF assms(1,4) ks(2)]
  have r: "k_entity r \<in> e_id ` set (sl_entities s)" "k_concept r \<in> e_id ` set (sl_entities s)" "k_linkage r \<in> l_id ` set (sl_linkages s)"
    if "r \<in> set (sl_links s)" for r using R that by (auto simp: refs_ok_def)
  have v: "v_entity v \<in> e_id ` set (sl_entities s)" "v_concept v \<in> e_id ` set (sl_entities s)" "v_linkage v \<in> l_id ` set (sl_linkages s)"
    if "v \<in> set (sl_evidence s)" for v using R that by (auto simp: refs_ok_def)
  show "link_of m (remap_link re rl r) = link_of s r" if "r \<in> set (sl_links s)"
    using E(1) [OF r(1) [OF that]] E(1) [OF r(2) [OF that]] E(3) [OF r(3) [OF that]] by (simp add: link_of_def remap_link_def)
  show "k_entity (remap_link re rl r) \<in> e_id ` set (sl_entities m) \<and> k_concept (remap_link re rl r) \<in> e_id ` set (sl_entities m) \<and>
      k_linkage (remap_link re rl r) \<in> l_id ` set (sl_linkages m)" if "r \<in> set (sl_links s)"
    using E(2) [OF r(1) [OF that]] E(2) [OF r(2) [OF that]] E(4) [OF r(3) [OF that]] by (simp add: remap_link_def)
  show "key_of m (v_entity (remap_evidence re rl v)) = key_of s (v_entity v) \<and> key_of m (v_concept (remap_evidence re rl v)) = key_of s (v_concept v) \<and>
      lname_of m (v_linkage (remap_evidence re rl v)) = lname_of s (v_linkage v)" if "v \<in> set (sl_evidence s)"
    using E(1) [OF v(1) [OF that]] E(1) [OF v(2) [OF that]] E(3) [OF v(3) [OF that]] by (simp add: remap_evidence_def)
  show "v_entity (remap_evidence re rl v) \<in> e_id ` set (sl_entities m) \<and> v_concept (remap_evidence re rl v) \<in> e_id ` set (sl_entities m) \<and>
      v_linkage (remap_evidence re rl v) \<in> l_id ` set (sl_linkages m)" if "v \<in> set (sl_evidence s)"
    using E(2) [OF v(1) [OF that]] E(2) [OF v(2) [OF that]] E(4) [OF v(3) [OF that]] by (simp add: remap_evidence_def)
qed

text \<open>The links of two embedded slots.\<close>

lemma links_union:
  assumes a: "embeds a ra rla m" "slot_ok a" and b: "embeds b rb rlb m" "slot_ok b"
    and m: "ent_ok (sl_entities m)" "keyed l_id (sl_linkages m)" "keyed l_name (sl_linkages m)"
    and links: "sl_links m = insert_ignore link_key (map (remap_link rb rlb) (sl_links b)) (insert_ignore link_key (map (remap_link ra rla) (sl_links a)) [])"
  shows "link_view m = link_view a \<union> {v \<in> link_view b. fst v \<notin> fst ` link_view a}" (is ?view)
    "keyed link_key (sl_links m)" (is ?keyed)
    "\<forall>r\<in>set (sl_links m). link_in m r" (is ?sub)
proof -
  have me: "keyed e_id (sl_entities m)" using m(1) by (simp add: ent_ok_def)
  note A = embeds_rows [OF a me m(2)] note B = embeds_rows [OF b me m(2)]
  have k: "keyed link_key (map (remap_link re rl) (sl_links s))"
    if s: "embeds s re rl m" "slot_ok s" for s re rl
  proof -
    note S = embeds_rows [OF s me m(2)]
    have "r = r'" if r: "r \<in> set (sl_links s)" "r' \<in> set (sl_links s)" and "link_key (remap_link re rl r) = link_key (remap_link re rl r')" for r r'
    proof -
      have "link_of s r = link_of s r'" using that(3) link_of_inj [OF m S(2) [OF r(1)] S(2) [OF r(2)]] S(1) r by simp
      moreover have "link_in s r" "link_in s r'" using s(2) r by (auto simp: slot_ok_def refs_ok_def)
      ultimately have "link_key r = link_key r'" using link_of_inj [of s r r'] s(2) by (simp add: slot_ok_def)
      then show ?thesis using keyed_inj [of link_key "sl_links s"] s(2) r by (simp add: slot_ok_def)
    qed
    moreover have "distinct (sl_links s)" using s(2) by (simp add: slot_ok_def keyed_def distinct_map)
    ultimately show ?thesis by (auto simp: keyed_def distinct_map inj_on_def)
  qed
  let ?A = "map (remap_link ra rla) (sl_links a)" and ?B = "map (remap_link rb rlb) (sl_links b)"
  have eq: "sl_links m = ?A @ filter (\<lambda>r. link_key r \<notin> link_key ` set ?A) ?B"
    unfolding links insert_ignore_eq [OF k [OF a]] insert_ignore_eq [OF k [OF b]] by simp
  show ?keyed unfolding eq by (rule keyed_insert [OF k [OF a] k [OF b]])
  show ?sub unfolding eq using A(2) B(2) by auto
  have w: "k_weight (remap_link re rl r) = k_weight r" for re rl r by (simp add: remap_link_def)
  have va: "(\<lambda>r. (link_of m r, k_weight r)) ` set ?A = link_view a"
    unfolding link_view_def set_map image_image by (intro image_cong refl) (simp add: A(1) w)
  have "link_key (remap_link rb rlb y) \<in> link_key ` set ?A \<longleftrightarrow> link_of b y \<in> fst ` link_view a" if y: "y \<in> set (sl_links b)" for y
  proof -
    have "link_key (remap_link rb rlb y) = link_key (remap_link ra rla x) \<longleftrightarrow> link_of b y = link_of a x" if "x \<in> set (sl_links a)" for x
      using link_of_inj [OF m B(2) [OF y] A(2) [OF that]] B(1) [OF y] A(1) [OF that] by simp
    then show ?thesis by (auto simp: link_view_def image_image image_iff)
  qed
  then have "set (filter (\<lambda>r. link_key r \<notin> link_key ` set ?A) ?B) =
      remap_link rb rlb ` {y \<in> set (sl_links b). link_of b y \<notin> fst ` link_view a}" unfolding set_filter set_map by blast
  then have "(\<lambda>r. (link_of m r, k_weight r)) ` set (filter (\<lambda>r. link_key r \<notin> link_key ` set ?A) ?B) =
      (\<lambda>y. (link_of m (remap_link rb rlb y), k_weight (remap_link rb rlb y))) ` {y \<in> set (sl_links b). link_of b y \<notin> fst ` link_view a}"
    by (simp only: image_image)
  also have "\<dots> = (\<lambda>y. (link_of b y, k_weight y)) ` {y \<in> set (sl_links b). link_of b y \<notin> fst ` link_view a}"
    by (intro image_cong refl) (simp add: B(1) w)
  also have "\<dots> = {v \<in> link_view b. fst v \<notin> F}" if "F = fst ` link_view a" for F
    unfolding that [symmetric] link_view_def [of b] by auto
  finally show ?view unfolding link_view_def [of m] eq set_append image_Un va by simp
qed

lemma evidence_union:
  assumes a: "embeds a ra rla m" "slot_ok a" and b: "embeds b rb rlb m" "slot_ok b"
    and m: "ent_ok (sl_entities m)" "keyed l_id (sl_linkages m)"
    and ev: "sl_evidence m = dedup (map (remap_evidence ra rla) (sl_evidence a) @ map (remap_evidence rb rlb) (sl_evidence b))"
  shows "evidence_view m = evidence_view a \<union> evidence_view b" (is ?view)
    "\<forall>v\<in>set (sl_evidence m). v_entity v \<in> e_id ` set (sl_entities m) \<and> v_concept v \<in> e_id ` set (sl_entities m) \<and>
      v_linkage v \<in> l_id ` set (sl_linkages m)" (is ?sub)
proof -
  have me: "keyed e_id (sl_entities m)" using m(1) by (simp add: ent_ok_def)
  note A = embeds_rows [OF a me m(2)] note B = embeds_rows [OF b me m(2)]
  have f: "v_file (remap_evidence re rl v) = v_file v \<and> v_line (remap_evidence re rl v) = v_line v \<and>
      v_span_end (remap_evidence re rl v) = v_span_end v \<and> v_detail (remap_evidence re rl v) = v_detail v" for re rl v
    by (simp add: remap_evidence_def)
  show ?sub unfolding ev using A(4) B(4) by auto
  show ?view unfolding evidence_view_def [of m] ev set_dedup set_append set_map image_Un image_image
    unfolding evidence_view_def by (intro arg_cong2 [of _ _ _ _ "(\<union>)"] image_cong refl) (simp_all add: A(3) B(3) f)
qed

section \<open>Newer wins\<close>

text \<open>A table has a row of the key that is not older.\<close>

definition covers :: "('r \<Rightarrow> 'k) \<Rightarrow> ('r \<Rightarrow> time) \<Rightarrow> 'r list \<Rightarrow> 'r \<Rightarrow> bool" where
  "covers key upd t p = (\<exists>x\<in>set t. key x = key p \<and> upd p \<le> upd x)"

lemma coversI: "p \<in> set t \<Longrightarrow> covers key upd t p"
  by (auto simp: covers_def)

lemma covers_mono: "covers key upd t p \<Longrightarrow> (\<And>q. q \<in> set t \<Longrightarrow> covers key upd t' q) \<Longrightarrow> covers key upd t' p"
  unfolding covers_def by (metis (no_types, lifting) order_trans)

lemma update_newer_covers:
  fixes upd :: "'r \<Rightarrow> time"
  assumes "keyed key src" "keyed key t"
  defines "t' \<equiv> update_newer key upd src t"
  shows "y \<in> set t' \<Longrightarrow> y \<in> set t \<or> (y \<in> set src \<and> key y \<in> key ` set t)"
    "m \<in> set t \<Longrightarrow> covers key upd t' m"
    "x \<in> set src \<Longrightarrow> key x \<in> key ` set t \<Longrightarrow> covers key upd t' x"
proof -
  note U = update_newer_set [OF assms(1), of _ upd t, folded t'_def]
  show "y \<in> set t' \<Longrightarrow> y \<in> set t \<or> (y \<in> set src \<and> key y \<in> key ` set t)" unfolding U by blast
  have row: "\<exists>y\<in>set t'. key y = key m \<and> upd m \<le> upd y \<and> (\<forall>x\<in>set src. key x = key m \<longrightarrow> upd x \<le> upd y)" if m: "m \<in> set t" for m
  proof (cases "\<forall>x\<in>set src. key x = key m \<longrightarrow> upd x \<le> upd m")
    case True
    then have "m \<in> set t'" unfolding U using m by blast
    then show ?thesis using True by blast
  next
    case False
    then obtain x where x: "x \<in> set src" "key x = key m" "upd m < upd x" by (auto simp: not_le)
    then have "x \<in> set t'" unfolding U using m by blast
    moreover have "z = x" if "z \<in> set src" "key z = key m" for z using keyed_inj [OF assms(1) that(1) x(1)] that(2) x(2) by simp
    ultimately show ?thesis using x(2,3) by (metis order_less_imp_le order_refl)
  qed
  show "m \<in> set t \<Longrightarrow> covers key upd t' m" using row unfolding covers_def by meson
  show "covers key upd t' x" if x: "x \<in> set src" "key x \<in> key ` set t"
  proof -
    obtain m where m: "m \<in> set t" "key x = key m" using x(2) by auto
    then show ?thesis using row [OF m(1)] x(1) unfolding covers_def by metis
  qed
qed

lemma fold_memory_ok:
  assumes "keyed m_entity moved" "keyed m_entity t"
  obtains t' where "fold_memory moved t = Inr t'" "keyed m_entity t'" "set t' \<subseteq> set t \<union> set moved"
    "\<forall>p\<in>set t \<union> set moved. covers m_entity m_updated t' p"
proof -
  let ?t1 = "t @ filter (\<lambda>m. m_entity m \<notin> m_entity ` set t) moved"
  let ?t2 = "update_newer m_entity m_updated moved ?t1"
  have k: "keyed m_entity ?t1" by (rule keyed_insert [OF assms(2,1)])
  note C = update_newer_covers [OF assms(1) k, where upd = m_updated]
  have "fold_memory moved t = Inr ?t2" using k by (simp add: fold_memory_def insert_into_def)
  moreover have "keyed m_entity ?t2" using k by simp
  moreover have "set ?t2 \<subseteq> set t \<union> set moved" using C(1) by auto
  moreover have "covers m_entity m_updated ?t2 p" if "p \<in> set t \<union> set moved" for p
  proof (cases "p \<in> set ?t1")
    case False
    then have "p \<in> set moved" "m_entity p \<in> m_entity ` set ?t1" using that by auto
    then show ?thesis by (rule C(3))
  qed (rule C(2))
  ultimately show thesis by (intro that) blast+
qed

lemma moved_keyed:
  assumes "keyed m_entity rows" "\<forall>x\<in>set rows. \<forall>y\<in>set rows. remap_id re (m_entity x) = remap_id re (m_entity y) \<longrightarrow> m_entity x = m_entity y"
  shows "keyed m_entity (moved_memory re rows)"
  using assms by (auto simp: keyed_def moved_memory_def distinct_map inj_on_def comp_def)

text \<open>The memory table: rows of the slots under their new ids, none older than one of its entity.\<close>

definition moved_row :: "(nat \<times> nat) list \<Rightarrow> mem_row \<Rightarrow> mem_row" where
  "moved_row re m = m\<lparr>m_entity := remap_id re (m_entity m)\<rparr>"

lemma moved_row_id: "map_of re (m_entity m) = None \<Longrightarrow> moved_row re m = m"
  by (simp add: moved_row_def remap_id_def)

lemma set_moved: "set (moved_memory re rows) = moved_row re ` {m \<in> set rows. map_of re (m_entity m) \<noteq> None}"
  by (auto simp: moved_memory_def moved_row_def)

lemma merge_memory_ok:
  assumes k: "keyed m_entity (sl_memory a)" "keyed m_entity (sl_memory b)"
    and inj: "\<forall>x\<in>set (sl_memory a). \<forall>y\<in>set (sl_memory a). remap_id ra (m_entity x) = remap_id ra (m_entity y) \<longrightarrow> m_entity x = m_entity y"
      "\<forall>x\<in>set (sl_memory b). \<forall>y\<in>set (sl_memory b). remap_id rb (m_entity x) = remap_id rb (m_entity y) \<longrightarrow> m_entity x = m_entity y"
    and shared: "\<forall>x\<in>set (sl_memory a). \<forall>y\<in>set (sl_memory b). m_entity x = m_entity y \<longrightarrow> map_of rb (m_entity y) = None"
  obtains t where "merge_memory a b ra rb = Inr t" "keyed m_entity t"
    "set t \<subseteq> moved_row ra ` set (sl_memory a) \<union> moved_row rb ` set (sl_memory b)"
    "\<forall>p\<in>moved_row ra ` set (sl_memory a) \<union> moved_row rb ` set (sl_memory b). covers m_entity m_updated t p"
proof -
  let ?P = "moved_row ra ` set (sl_memory a)" and ?Q = "moved_row rb ` set (sl_memory b)"
  define t1 where "t1 = filter (\<lambda>m. map_of ra (m_entity m) = None) (sl_memory a)"
  define t2 where "t2 = t1 @ filter (\<lambda>m. map_of rb (m_entity m) = None \<and> m_entity m \<notin> m_entity ` set t1) (sl_memory b)"
  define t3 where "t3 = update_newer m_entity m_updated (sl_memory b) t2"
  have k1: "keyed m_entity t1" unfolding t1_def by (rule keyed_filter [OF k(1)])
  have k2: "keyed m_entity t2" unfolding t2_def by (rule keyed_insert_if [OF k1 k(2)])
  note C = update_newer_covers [OF k(2) k2, where upd = m_updated, folded t3_def]
  have k3: "keyed m_entity t3" using k2 by (simp add: t3_def)
  have unm: "map_of rb (m_entity x) = None" if xb: "x \<in> set (sl_memory b)" and m: "m_entity x \<in> m_entity ` set t2" for x
  proof -
    obtain z where z: "z \<in> set t2" "m_entity x = m_entity z" using m by auto
    show ?thesis
    proof (cases "z \<in> set t1")
      case True
      then have "z \<in> set (sl_memory a)" by (simp add: t1_def)
      then show ?thesis using shared xb z(2) by metis
    next
      case False then show ?thesis using z by (simp add: t2_def)
    qed
  qed
  have s2: "set t2 \<subseteq> ?P \<union> ?Q"
  proof
    fix x assume "x \<in> set t2"
    then have "(x \<in> set (sl_memory a) \<and> moved_row ra x = x) \<or> (x \<in> set (sl_memory b) \<and> moved_row rb x = x)"
      by (auto simp: t2_def t1_def moved_row_id)
    then show "x \<in> ?P \<union> ?Q" by (metis UnI1 UnI2 imageI)
  qed
  have s3: "set t3 \<subseteq> ?P \<union> ?Q" 
  proof
    fix y assume "y \<in> set t3"
    from C(1) [OF this] show "y \<in> ?P \<union> ?Q"
    proof
      assume y: "y \<in> set (sl_memory b) \<and> m_entity y \<in> m_entity ` set t2"
      then have "moved_row rb y = y" using unm by (simp add: moved_row_id)
      then show ?thesis using y by (metis UnI2 imageI)
    qed (use s2 in blast)
  qed
  have c3a: "covers m_entity m_updated t3 m" if "m \<in> set (sl_memory a)" "map_of ra (m_entity m) = None" for m
    by (rule C(2)) (use that in \<open>simp add: t2_def t1_def\<close>)
  have c3b: "covers m_entity m_updated t3 m" if "m \<in> set (sl_memory b)" "map_of rb (m_entity m) = None" for m
  proof (cases "m_entity m \<in> m_entity ` set t2")
    case True then show ?thesis by (rule C(3) [OF that(1)])
  next
    case False then have "m \<in> set t2" using that by (auto simp: t2_def)
    then show ?thesis by (rule C(2))
  qed
  obtain t4 where t4: "fold_memory (moved_memory ra (sl_memory a)) t3 = Inr t4" "keyed m_entity t4"
    "set t4 \<subseteq> set t3 \<union> set (moved_memory ra (sl_memory a))"
    "\<forall>p\<in>set t3 \<union> set (moved_memory ra (sl_memory a)). covers m_entity m_updated t4 p"
    by (rule fold_memory_ok [OF moved_keyed [OF k(1) inj(1)] k3])
  obtain t5 where t5: "fold_memory (moved_memory rb (sl_memory b)) t4 = Inr t5" "keyed m_entity t5"
    "set t5 \<subseteq> set t4 \<union> set (moved_memory rb (sl_memory b))"
    "\<forall>p\<in>set t4 \<union> set (moved_memory rb (sl_memory b)). covers m_entity m_updated t5 p"
    by (rule fold_memory_ok [OF moved_keyed [OF k(2) inj(2)] t4(2)])
  have up: "covers m_entity m_updated t5 p" if "covers m_entity m_updated t4 p" for p by (rule covers_mono [OF that]) (use t5(4) in blast)
  have up3: "covers m_entity m_updated t5 p" if "covers m_entity m_updated t3 p" for p
    by (rule up [OF covers_mono [OF that]]) (use t4(4) in blast)
  have "merge_memory a b ra rb = Inr t5"
    using k1 k2 t4(1) t5(1) by (simp add: merge_memory_def insert_into_def t1_def [symmetric] t2_def [symmetric] t3_def [symmetric])
  moreover have "set t5 \<subseteq> ?P \<union> ?Q" using t5(3) t4(3) s3 unfolding set_moved by blast
  moreover have "covers m_entity m_updated t5 p" if "p \<in> ?P \<union> ?Q" for p
    using that
  proof (elim UnE imageE)
    fix m assume m: "p = moved_row ra m" "m \<in> set (sl_memory a)"
    show ?thesis
    proof (cases "map_of ra (m_entity m) = None")
      case True then show ?thesis using up3 [OF c3a [OF m(2)]] m(1) by (simp add: moved_row_id)
    next
      case False then have "p \<in> set (moved_memory ra (sl_memory a))" using m unfolding set_moved by blast
      then show ?thesis using up t4(4) by blast
    qed
  next
    fix m assume m: "p = moved_row rb m" "m \<in> set (sl_memory b)"
    show ?thesis
    proof (cases "map_of rb (m_entity m) = None")
      case True then show ?thesis using up3 [OF c3b [OF m(2)]] m(1) by (simp add: moved_row_id)
    next
      case False then have "p \<in> set (moved_memory rb (sl_memory b))" using m unfolding set_moved by blast
      then show ?thesis using t5(4) by blast
    qed
  qed
  ultimately show thesis using t5(2) by (intro that) blast+
qed

section \<open>The merge refines its specification\<close>

lemma shared_unmapped:
  assumes "mergeable a b" "x \<in> set (sl_entities a)" "y \<in> set (sl_entities b)" "e_id x = e_id y"
  shows "map_of (snd (entity_remap a b)) (e_id y) = None"
proof -
  note D = mergeableD [OF assms(1)]
  have "\<not> lost_b a b y" using D(3) [OF assms(2-4)] D(4) [OF _ assms(2)] assms(4) unfolding lost_b_def by metis
  then show ?thesis using remap_lost(2) [OF assms(1,3)] by simp
qed

lemma embedsI:
  assumes "mergeable a b" "sl_entities m = merged a b" "sl_linkages m = merged_linkages a b"
  shows "embeds a (fst (entity_remap a b)) [] m" "embeds b (snd (entity_remap a b)) (linkage_remap a b) m"
proof -
  have ok: "slot_ok a" "slot_ok b" using assms(1) by (auto simp: mergeable_def)
  show "embeds a (fst (entity_remap a b)) [] m" unfolding embeds_def assms(2,3)
    using canon_a [OF assms(1)] by (auto simp: remap_id_def merged_linkages_def)
  show "embeds b (snd (entity_remap a b)) (linkage_remap a b) m" unfolding embeds_def assms(2,3)
    using canon_b [OF assms(1)] merged_linkages_ok(4) [OF ok] by blast
qed

lemma embeds_inj:
  assumes "embeds s re rl m" "slot_ok s" "keyed e_id (sl_entities m)" "i \<in> e_id ` set (sl_entities s)" "j \<in> e_id ` set (sl_entities s)"
    "remap_id re i = remap_id re j"
  shows "i = j"
proof -
  have e: "ent_ok (sl_entities s)" "keyed e_id (sl_entities s)" using assms(2) by (auto simp: slot_ok_def ent_ok_def)
  show ?thesis using key_of_inj [OF e(1) assms(4,5)] embeds_key(1) [OF assms(1,3) e(2)] assms(4-6) by metis
qed

lemma memory_in: "slot_ok s \<Longrightarrow> m \<in> set (sl_memory s) \<Longrightarrow> m_entity m \<in> e_id ` set (sl_entities s)"
  by (simp add: slot_ok_def refs_ok_def)

text \<open>The bodies of embedded slots.\<close>

lemma bodies_union:
  assumes a: "embeds a ra rla m" "slot_ok a" and b: "embeds b rb rlb m" "slot_ok b" and m: "ent_ok (sl_entities m)"
    and sub: "set (sl_memory m) \<subseteq> moved_row ra ` set (sl_memory a) \<union> moved_row rb ` set (sl_memory b)"
    and cov: "\<forall>p\<in>moved_row ra ` set (sl_memory a) \<union> moved_row rb ` set (sl_memory b). covers m_entity m_updated (sl_memory m) p"
  shows "body_view m \<subseteq> body_view a \<union> body_view b"
    "\<forall>v\<in>body_view a \<union> body_view b. \<exists>v'\<in>body_view m. fst v' = fst v \<and> m_updated (snd v) \<le> m_updated (snd v')"
    "\<forall>x\<in>set (sl_memory m). m_entity x \<in> e_id ` set (sl_entities m)"
proof -
  have me: "keyed e_id (sl_entities m)" using m by (simp add: ent_ok_def)
  have V: "key_of m (m_entity (moved_row re x)) = key_of s (m_entity x) \<and> (moved_row re x)\<lparr>m_entity := 0\<rparr> = x\<lparr>m_entity := 0\<rparr> \<and>
      m_entity (moved_row re x) \<in> e_id ` set (sl_entities m)"
    if "embeds s re rl m" "slot_ok s" "x \<in> set (sl_memory s)" for s re rl x
  proof -
    have "keyed e_id (sl_entities s)" using that(2) by (simp add: slot_ok_def ent_ok_def)
    from embeds_key [OF that(1) me this memory_in [OF that(2,3)]] show ?thesis by (simp add: moved_row_def)
  qed
  note A = V [OF a] and B = V [OF b]
  show "\<forall>x\<in>set (sl_memory m). m_entity x \<in> e_id ` set (sl_entities m)" using sub A B by blast
  show "body_view m \<subseteq> body_view a \<union> body_view b"
  proof
    fix v assume "v \<in> body_view m"
    then obtain x where x: "x \<in> set (sl_memory m)" "v = (key_of m (m_entity x), x\<lparr>m_entity := 0\<rparr>)" unfolding body_view_def by blast
    then consider y where "x = moved_row ra y" "y \<in> set (sl_memory a)" | y where "x = moved_row rb y" "y \<in> set (sl_memory b)" using sub by blast
    then show "v \<in> body_view a \<union> body_view b"
    proof cases
      case 1
      then have "v = (key_of a (m_entity y), y\<lparr>m_entity := 0\<rparr>)" using A x by simp
      then show ?thesis using 1 unfolding body_view_def by blast
    next
      case 2
      then have "v = (key_of b (m_entity y), y\<lparr>m_entity := 0\<rparr>)" using B x by simp
      then show ?thesis using 2 unfolding body_view_def by blast
    qed
  qed
  have C: "\<exists>v'\<in>body_view m. fst v' = key_of m (m_entity p) \<and> m_updated p \<le> m_updated (snd v')"
    if c: "covers m_entity m_updated (sl_memory m) p" for p
  proof -
    obtain x where "x \<in> set (sl_memory m)" "m_entity x = m_entity p" "m_updated p \<le> m_updated x"
      using c unfolding covers_def by (elim bexE conjE) (rule that)
    then show ?thesis unfolding body_view_def by (intro bexI [of _ "(key_of m (m_entity x), x\<lparr>m_entity := 0\<rparr>)"] conjI imageI) auto
  qed
  have u: "m_updated (moved_row re x) = m_updated x" for re x by (simp add: moved_row_def)
  show "\<forall>v\<in>body_view a \<union> body_view b. \<exists>v'\<in>body_view m. fst v' = fst v \<and> m_updated (snd v) \<le> m_updated (snd v')"
  proof
    fix v assume "v \<in> body_view a \<union> body_view b"
    then consider x where "x \<in> set (sl_memory a)" "v = (key_of a (m_entity x), x\<lparr>m_entity := 0\<rparr>)"
      | x where "x \<in> set (sl_memory b)" "v = (key_of b (m_entity x), x\<lparr>m_entity := 0\<rparr>)" unfolding body_view_def by blast
    then show "\<exists>v'\<in>body_view m. fst v' = fst v \<and> m_updated (snd v) \<le> m_updated (snd v')"
    proof cases
      case 1
      then have "covers m_entity m_updated (sl_memory m) (moved_row ra x)" using cov by blast
      from C [OF this] show ?thesis using A [OF 1(1)] 1(2) by (simp add: u)
    next
      case 2
      then have "covers m_entity m_updated (sl_memory m) (moved_row rb x)" using cov by blast
      from C [OF this] show ?thesis using B [OF 2(1)] 2(2) by (simp add: u)
    qed
  qed
qed

text \<open>What a merge promises: newer entities, the union of links, evidence, tracked files and saved
  queries with A's row kept where both have one, the newest memory body, and linkage types by name.\<close>

definition merge_spec :: "slot \<Rightarrow> slot \<Rightarrow> slot \<Rightarrow> bool" where
  "merge_spec a b m =
     ((\<forall>e. e \<in> set (sl_entities m) \<longleftrightarrow>
         (e \<in> set (sl_entities a) \<and> (\<forall>y\<in>set (sl_entities b). \<not> loses_to e y)) \<or>
         (e \<in> set (sl_entities b) \<and> (\<forall>x\<in>set (sl_entities a). entity_key x = entity_key e \<longrightarrow> e_updated x < e_updated e))) \<and>
      link_view m = link_view a \<union> {v \<in> link_view b. fst v \<notin> fst ` link_view a} \<and>
      evidence_view m = evidence_view a \<union> evidence_view b \<and>
      body_view m \<subseteq> body_view a \<union> body_view b \<and>
      (\<forall>v\<in>body_view a \<union> body_view b. \<exists>v'\<in>body_view m. fst v' = fst v \<and> m_updated (snd v) \<le> m_updated (snd v')) \<and>
      set (sl_tracked m) \<subseteq> set (sl_tracked a) \<union> set (sl_tracked b) \<and>
      (\<forall>t\<in>set (sl_tracked a) \<union> set (sl_tracked b). covers track_key t_synced (sl_tracked m) t) \<and>
      set (sl_saved m) = set (sl_saved a) \<union> {q \<in> set (sl_saved b). fst q \<notin> fst ` set (sl_saved a)} \<and>
      set (sl_partitions m) = set (sl_partitions a) \<union> {q \<in> set (sl_partitions b). p_id q \<notin> p_id ` set (sl_partitions a)} \<and>
      l_name ` set (sl_linkages m) = l_name ` set (sl_linkages a) \<union> l_name ` set (sl_linkages b))"

lemma tracked_union:
  assumes "keyed track_key (sl_tracked a)" "keyed track_key (sl_tracked b)"
  shows "keyed track_key (merge_tracked a b)" "set (merge_tracked a b) \<subseteq> set (sl_tracked a) \<union> set (sl_tracked b)"
    "t \<in> set (sl_tracked a) \<union> set (sl_tracked b) \<Longrightarrow> covers track_key t_synced (merge_tracked a b) t"
proof -
  let ?t = "sl_tracked a @ filter (\<lambda>r. track_key r \<notin> track_key ` set (sl_tracked a)) (sl_tracked b)"
  have eq: "merge_tracked a b = update_newer track_key t_synced (sl_tracked b) ?t"
    using assms by (simp add: merge_tracked_def insert_ignore_eq)
  have k: "keyed track_key ?t" by (rule keyed_insert [OF assms])
  note C = update_newer_covers [OF assms(2) k, where upd = t_synced, folded eq]
  show "keyed track_key (merge_tracked a b)" unfolding eq using k by simp
  show "set (merge_tracked a b) \<subseteq> set (sl_tracked a) \<union> set (sl_tracked b)" using C(1) by auto
  show "covers track_key t_synced (merge_tracked a b) t" if t: "t \<in> set (sl_tracked a) \<union> set (sl_tracked b)"
  proof (cases "t \<in> set ?t")
    case False
    then have "t \<in> set (sl_tracked b)" "track_key t \<in> track_key ` set ?t" using t by auto
    then show ?thesis by (rule C(3))
  qed (rule C(2))
qed

lemma saved_union:
  assumes "keyed fst (sl_saved a)" "keyed fst (sl_saved b)"
  shows "keyed fst (merge_saved a b)"
    "set (merge_saved a b) = set (sl_saved a) \<union> {q \<in> set (sl_saved b). fst q \<notin> fst ` set (sl_saved a)}"
  using assms keyed_insert [OF assms] by (auto simp: merge_saved_def insert_ignore_eq)

lemma partitions_union:
  assumes "mergeable a b"
  shows "merge_partitions a b = Inr (sl_partitions a @ filter (\<lambda>p. p_id p \<notin> p_id ` set (sl_partitions a)) (sl_partitions b))"
    "keyed p_id (sl_partitions a @ filter (\<lambda>p. p_id p \<notin> p_id ` set (sl_partitions a)) (sl_partitions b))"
    "keyed p_name (sl_partitions a @ filter (\<lambda>p. p_id p \<notin> p_id ` set (sl_partitions a)) (sl_partitions b))"
proof -
  have k: "keyed p_id (sl_partitions a)" "keyed p_name (sl_partitions a)" "keyed p_id (sl_partitions b)" "keyed p_name (sl_partitions b)"
    and ok: "slot_ok b" "partition_clashes a b = []"
    using assms by (auto simp: mergeable_def slot_ok_def)
  show i: "keyed p_id (sl_partitions a @ filter (\<lambda>p. p_id p \<notin> p_id ` set (sl_partitions a)) (sl_partitions b))"
    by (rule keyed_insert [OF k(1,3)])
  have "p_name p \<noteq> p_name q" if "p \<in> set (sl_partitions a)" "q \<in> set (sl_partitions b)" "p_id q \<notin> p_id ` set (sl_partitions a)" for p q
    using no_clashes [OF ok(2) that(1,2) ok(1)] that(1,3) by (metis imageI)
  then show n: "keyed p_name (sl_partitions a @ filter (\<lambda>p. p_id p \<notin> p_id ` set (sl_partitions a)) (sl_partitions b))"
    unfolding keyed_append using k(2) keyed_filter [OF k(4)] by auto
  show "merge_partitions a b = Inr (sl_partitions a @ filter (\<lambda>p. p_id p \<notin> p_id ` set (sl_partitions a)) (sl_partitions b))"
    using i n k by (simp add: merge_partitions_def insert_into_def Let_def)
qed

lemma concepts_union:
  assumes "keyed fst (sl_concepts a)" "keyed fst (sl_concepts b)"
  obtains cs where "merge_concepts a b ra rb = Inr cs" "keyed fst cs" "set cs \<subseteq> set (sl_concepts a) \<union> set (sl_concepts b)"
proof -
  let ?t = "filter (\<lambda>c. map_of ra (fst c) = None) (sl_concepts a)"
  let ?n = "filter (\<lambda>c. map_of rb (fst c) = None \<and> fst c \<notin> fst ` set ?t) (sl_concepts b)"
  have t: "keyed fst ?t" by (rule keyed_filter [OF assms(1)])
  moreover have "keyed fst (?t @ ?n)" by (rule keyed_insert_if [OF t assms(2)])
  ultimately have "merge_concepts a b ra rb = Inr (?t @ ?n)" by (simp add: merge_concepts_def insert_into_def)
  then show thesis using \<open>keyed fst (?t @ ?n)\<close> by (rule that) auto
qed

lemma merge_into_ok:
  assumes ok: "mergeable a b"
  obtains m where "merge_into a b = Inr m" "slot_ok m" "merge_spec a b m" "sl_entities m = merged a b"
    "sl_linkages m = merged_linkages a b" "sl_fragments m = merge_fragments a b"
    "sl_next_pid m = Suc (max_id p_id (sl_partitions a) (sl_partitions b))"
    "sl_next_eid m = Suc (max_id e_id (sl_entities a) (sl_entities b) + remap_headroom)"
    "sl_next_lid m = Suc (max_id l_id (sl_linkages a) (sl_linkages b) + remap_headroom)"
proof -
  have s: "slot_ok a" "slot_ok b" using ok by (auto simp: mergeable_def)
  have ea: "keyed e_id (sl_entities a)" and eb: "keyed e_id (sl_entities b)" using mergeableD(1,2) [OF ok] by (auto simp: ent_ok_def)
  obtain ra rb where r: "entity_remap a b = (ra, rb)" by (cases "entity_remap a b")
  let ?rl = "linkage_remap a b" and ?ps = "sl_partitions a @ filter (\<lambda>p. p_id p \<notin> p_id ` set (sl_partitions a)) (sl_partitions b)"
  note L = merged_linkages_ok [OF s] note E = kept_ok(3) [OF ok]
  have ek: "keyed e_id (merged a b)" using E by (simp add: ent_ok_def)
  obtain cs where cs: "merge_concepts a b ra rb = Inr cs" "keyed fst cs" "set cs \<subseteq> set (sl_concepts a) \<union> set (sl_concepts b)"
    by (rule concepts_union [of a b ra rb]) (use s in \<open>auto simp: slot_ok_def\<close>)
  define m0 where "m0 = a\<lparr>sl_entities := merged a b, sl_linkages := merged_linkages a b\<rparr>"
  have e0: "embeds a ra [] m0" "embeds b rb ?rl m0" using embedsI [OF ok, of m0] by (simp_all add: m0_def r)
  have k0: "keyed e_id (sl_entities m0)" using ek by (simp add: m0_def)
  have sh: "map_of rb (m_entity y) = None" if xy: "x \<in> set (sl_memory a)" "y \<in> set (sl_memory b)" "m_entity x = m_entity y" for x y
  proof -
    obtain p q where "p \<in> set (sl_entities a)" "e_id p = m_entity x" "q \<in> set (sl_entities b)" "e_id q = m_entity y"
      using memory_in [OF s(1) xy(1)] memory_in [OF s(2) xy(2)] by auto
    then show ?thesis using shared_unmapped [OF ok, of p q] xy(3) r by simp
  qed
  obtain ms where ms: "merge_memory a b ra rb = Inr ms" "keyed m_entity ms"
    "set ms \<subseteq> moved_row ra ` set (sl_memory a) \<union> moved_row rb ` set (sl_memory b)"
    "\<forall>p\<in>moved_row ra ` set (sl_memory a) \<union> moved_row rb ` set (sl_memory b). covers m_entity m_updated ms p"
  proof (rule merge_memory_ok)
    show "keyed m_entity (sl_memory a)" "keyed m_entity (sl_memory b)" using s by (auto simp: slot_ok_def)
    show "\<forall>x\<in>set (sl_memory a). \<forall>y\<in>set (sl_memory a). remap_id ra (m_entity x) = remap_id ra (m_entity y) \<longrightarrow> m_entity x = m_entity y"
      by (intro ballI impI, rule embeds_inj [OF e0(1) s(1) k0]) (simp_all add: memory_in [OF s(1)])
    show "\<forall>x\<in>set (sl_memory b). \<forall>y\<in>set (sl_memory b). remap_id rb (m_entity x) = remap_id rb (m_entity y) \<longrightarrow> m_entity x = m_entity y"
      by (intro ballI impI, rule embeds_inj [OF e0(2) s(2) k0]) (simp_all add: memory_in [OF s(2)])
    show "\<forall>x\<in>set (sl_memory a). \<forall>y\<in>set (sl_memory b). m_entity x = m_entity y \<longrightarrow> map_of rb (m_entity y) = None" using sh by blast
  qed
  define m where "m = \<lparr>sl_partitions = ?ps, sl_linkages = merged_linkages a b, sl_entities = merged a b, sl_concepts = cs, sl_memory = ms,
             sl_links = merge_links a b ra rb ?rl, sl_tracked = merge_tracked a b,
             sl_evidence = merge_evidence a b ra rb ?rl, sl_saved = merge_saved a b,
             sl_fragments = merge_fragments a b,
             sl_next_pid = Suc (max_id p_id (sl_partitions a) (sl_partitions b)),
             sl_next_eid = Suc (max_id e_id (sl_entities a) (sl_entities b) + remap_headroom),
             sl_next_lid = Suc (max_id l_id (sl_linkages a) (sl_linkages b) + remap_headroom)\<rparr>"
  have run: "merge_into a b = Inr m"
    using partitions_union(1) [OF ok] L(3) merge_entities_eq [OF ok] cs(1) ms(1) by (simp add: merge_into_def r Let_def m_def)
  have sel: "sl_entities m = merged a b" "sl_linkages m = merged_linkages a b" "sl_memory m = ms" "sl_tracked m = merge_tracked a b"
    "sl_saved m = merge_saved a b" "sl_partitions m = ?ps" "sl_concepts m = cs" "sl_fragments m = merge_fragments a b" by (simp_all add: m_def)
  have em: "embeds a ra [] m" "embeds b rb ?rl m" using embedsI [OF ok sel(1,2)] by (simp_all add: r)
  have mk: "ent_ok (sl_entities m)" "keyed l_id (sl_linkages m)" "keyed l_name (sl_linkages m)" using E L(1,2) by (simp_all add: sel)
  have links: "sl_links m = insert_ignore link_key (map (remap_link rb ?rl) (sl_links b)) (insert_ignore link_key (map (remap_link ra []) (sl_links a)) [])"
    by (simp add: m_def merge_links_def)
  note LU = links_union [OF em(1) s(1) em(2) s(2) mk links]
  have ev: "sl_evidence m = dedup (map (remap_evidence ra []) (sl_evidence a) @ map (remap_evidence rb ?rl) (sl_evidence b))"
    by (simp add: m_def merge_evidence_def)
  note EU = evidence_union [OF em(1) s(1) em(2) s(2) mk(1,2) ev]
  note BU = bodies_union [OF em(1) s(1) em(2) s(2) mk(1), unfolded sel(3), OF ms(3,4)]
  have tk: "keyed track_key (sl_tracked a)" "keyed track_key (sl_tracked b)" "keyed fst (sl_saved a)" "keyed fst (sl_saved b)"
    using s by (auto simp: slot_ok_def)
  note TU = tracked_union [OF tk(1,2)] note SU = saved_union [OF tk(3,4)]
  have fr: "keyed fst (merge_fragments a b)" unfolding merge_fragments_def by (rule keyed_insert) (use s in \<open>auto simp: slot_ok_def\<close>)
  have inv: "i \<in> l_id ` set (merged_linkages a b)" if l: "l \<in> set (merged_linkages a b)" "l_inverse l = Some i" for l i
  proof -
    have ia: "i \<in> l_id ` set (sl_linkages x)" if "slot_ok x" "l \<in> set (sl_linkages x)" "l_inverse l = Some i" for x l i
      using that by (auto simp: slot_ok_def refs_ok_def)
    have lb: "keyed l_id (sl_linkages b)" using s(2) by (simp add: slot_ok_def)
    from l(1) consider "l \<in> set (sl_linkages a)" | l' where "l' \<in> set (sl_linkages b)" "l_inverse l = map_option (remap_id ?rl) (l_inverse l')"
      unfolding merged_linkages_def by auto
    then show ?thesis
    proof cases
      case 1
      then show ?thesis using ia [OF s(1) 1 l(2)] by (auto simp: merged_linkages_def)
    next
      case 2
      then obtain i' where "l_inverse l' = Some i'" "i = remap_id ?rl i'" using l(2) by (cases "l_inverse l'") auto
      then show ?thesis using embeds_lname(2) [OF em(2) mk(2) lb ia [OF s(2) 2(1)]] by (simp add: sel)
    qed
  qed
  have refs: "refs_ok m" unfolding refs_ok_def using LU(3) EU(2) BU(3) inv by (simp add: sel)
  have "slot_ok m" unfolding slot_ok_def using mk LU(2) refs TU(1) SU(1) fr cs(2) ms(2) partitions_union(2,3) [OF ok] by (simp add: sel)
  moreover have names: "l_name ` set (merged_linkages a b) = l_name ` set (sl_linkages a) \<union> l_name ` set (sl_linkages b)"
  proof (intro equalityI subsetI)
    show "n \<in> l_name ` set (sl_linkages a) \<union> l_name ` set (sl_linkages b)" if "n \<in> l_name ` set (merged_linkages a b)" for n
      using that by (auto simp: merged_linkages_def)
    show "n \<in> l_name ` set (merged_linkages a b)" if "n \<in> l_name ` set (sl_linkages a) \<union> l_name ` set (sl_linkages b)" for n
      using that
    proof
      assume "n \<in> l_name ` set (sl_linkages a)"
      then show ?thesis by (simp add: merged_linkages_def image_Un)
    next
      assume "n \<in> l_name ` set (sl_linkages b)"
      then obtain r where r: "r \<in> set (sl_linkages b)" "n = l_name r" by auto
      then obtain l where "l \<in> set (merged_linkages a b)" "l_name l = l_name r" using L(4) by blast
      then show ?thesis using r(2) by (metis imageI)
    qed
  qed
  have "merge_spec a b m" unfolding merge_spec_def sel
  proof (intro conjI)
    show "\<forall>e. e \<in> set (merged a b) \<longleftrightarrow>
         (e \<in> set (sl_entities a) \<and> (\<forall>y\<in>set (sl_entities b). \<not> loses_to e y)) \<or>
         (e \<in> set (sl_entities b) \<and> (\<forall>x\<in>set (sl_entities a). entity_key x = entity_key e \<longrightarrow> e_updated x < e_updated e))"
      using merged_iff [OF ok] by blast
  qed (use LU(1) EU(1) BU(1,2) TU SU names in \<open>auto\<close>)
  ultimately show thesis using that run sel by (simp add: m_def)
qed

section \<open>The audit\<close>

lemma product_filter_flip: "length (filter (\<lambda>(x, y). P x y) (List.product xs ys)) = length (filter (\<lambda>(y, x). P x y) (List.product ys xs))"
proof -
  have "mset (List.product xs ys) = image_mset (\<lambda>(y, x). (x, y)) (mset (List.product ys xs))"
  proof (induction xs)
    case (Cons x xs)
    have "mset (List.product ys (x # xs)) = mset (map (\<lambda>y. (y, x)) ys) + mset (List.product ys xs)"
      by (induction ys) (auto simp: ac_simps)
    then show ?case using Cons by (simp add: image_mset_union multiset.map_comp comp_def)
  qed (induction ys; simp)
  then have "size (filter_mset (\<lambda>(x, y). P x y) (mset (List.product xs ys))) =
      size (filter_mset (\<lambda>(x, y). P x y) (image_mset (\<lambda>(y, x). (x, y)) (mset (List.product ys xs))))" by simp
  also have "\<dots> = size (filter_mset (\<lambda>(y, x). P x y) (mset (List.product ys xs)))"
    unfolding filter_mset_image_mset size_image_mset by (intro arg_cong [of _ _ size] filter_mset_cong) auto
  finally show ?thesis by (metis mset_filter size_mset)
qed

lemma audit_flip: "length (collisions a b) = length (collisions b a)" "same_id_differ a b = same_id_differ b a"
  unfolding collisions_def same_id_differ_def
  by (subst product_filter_flip, rule arg_cong [of _ _ length], rule filter_cong, auto)+

lemma same_ids_audit: "same_ids a b \<longleftrightarrow> same_id_differ a b = 0"
  by (auto simp: same_ids_def same_id_differ_def filter_empty_conv)

lemma place_bound:
  "snd ` set (place_linkages by_name n taken rs) \<subseteq> snd ` set by_name \<union> l_id ` set rs \<union> {n ..< n + length rs}"
proof (induction by_name n taken rs rule: place_linkages.induct)
  case (2 by_name n taken r rs)
  show ?case
  proof (cases "map_of by_name (l_name r)")
    case (Some j)
    then have "j \<in> snd ` set by_name" by (force dest: map_of_SomeD)
    then show ?thesis using 2(3) [OF Some] Some by auto
  next
    case None
    show ?thesis
    proof (cases "l_id r \<in> set taken")
      case True
      then show ?thesis using 2(2) [OF None] None True by auto
    next
      case False
      then show ?thesis using 2(1) [OF None False] None False by auto
    qed
  qed
qed simp

lemma remap_range:
  assumes "r \<in> set (sl_linkages b)"
  shows "remap_id (linkage_remap a b) (l_id r) < Suc (max_id l_id (sl_linkages a) (sl_linkages b)) + length (sl_linkages b)"
proof -
  let ?n = "Suc (max_id l_id (sl_linkages a) (sl_linkages b))" and ?i = "remap_id (linkage_remap a b) (l_id r)"
  have le: "i < ?n" if "i \<in> l_id ` set (sl_linkages a) \<union> l_id ` set (sl_linkages b)" for i
    using that max_id_ge [of _ "sl_linkages a" "sl_linkages b" l_id] by (auto simp: less_Suc_eq_le)
  consider "?i = l_id r" | "?i \<in> snd ` set (linkage_remap a b)"
  proof (cases "map_of (linkage_remap a b) (l_id r)")
    case (Some j)
    then have "j \<in> snd ` set (linkage_remap a b)" by (force dest: map_of_SomeD)
    then show thesis using that Some by (simp add: remap_id_def)
  qed (use that in \<open>simp add: remap_id_def\<close>)
  then show ?thesis
  proof cases
    case 1
    then show ?thesis using le [of "l_id r"] assms by simp
  next
    case 2
    have "snd ` set (linkage_remap a b) \<subseteq>
        l_id ` set (sl_linkages a) \<union> l_id ` set (sl_linkages b) \<union> {?n ..< ?n + length (sl_linkages b)}"
    proof -
      have sn: "snd ` set (map (\<lambda>r. (l_name r, l_id r)) (sl_linkages a)) = l_id ` set (sl_linkages a)" by (simp add: image_image)
      have "snd ` set (linkage_remap a b) \<subseteq> snd ` set (place_linkages (map (\<lambda>r. (l_name r, l_id r)) (sl_linkages a)) ?n
          (map l_id (sl_linkages a)) (sort_key l_id (sl_linkages b)))"
        unfolding linkage_remap_def by (rule image_mono) auto
      also have "\<dots> \<subseteq> l_id ` set (sl_linkages a) \<union> l_id ` set (sl_linkages b) \<union> {?n ..< ?n + length (sl_linkages b)}"
        using place_bound [of "map (\<lambda>r. (l_name r, l_id r)) (sl_linkages a)" ?n "map l_id (sl_linkages a)" "sort_key l_id (sl_linkages b)"]
        unfolding sn set_sort length_sort .
      finally show ?thesis .
    qed
    then have "?i \<in> l_id ` set (sl_linkages a) \<union> l_id ` set (sl_linkages b) \<union> {?n ..< ?n + length (sl_linkages b)}" using 2 by blast
    then show ?thesis
    proof (elim UnE)
      assume "?i \<in> {?n ..< ?n + length (sl_linkages b)}"
      then show ?thesis by simp
    qed (use le in fastforce)+
  qed
qed

lemma merge_spec_sub:
  assumes "merge_spec a b m"
  shows "set (sl_partitions m) \<subseteq> set (sl_partitions a) \<union> set (sl_partitions b)"
    "set (sl_entities m) \<subseteq> set (sl_entities a) \<union> set (sl_entities b)"
proof -
  note S = assms [unfolded merge_spec_def]
  have p: "set (sl_partitions m) = set (sl_partitions a) \<union> {q \<in> set (sl_partitions b). p_id q \<notin> p_id ` set (sl_partitions a)}"
    using S by (elim conjE)
  show "set (sl_partitions m) \<subseteq> set (sl_partitions a) \<union> set (sl_partitions b)" unfolding p by blast
  show "set (sl_entities m) \<subseteq> set (sl_entities a) \<union> set (sl_entities b)" using S [THEN conjunct1] by blast
qed

section \<open>Properties\<close>

text \<open>C12. Two well-formed slots whose audit shows no id used for two entities and no partition clash
  merge: the target is well-formed and is what the specification promises, and a dry run gives the
  same report and no target.\<close>

theorem merge_slots_refines:
  assumes "slot_ok a" "slot_ok b" "ar_same_id (audit_slots a b) = 0" "ar_clashes (audit_slots a b) = []"
  shows "\<exists>rep m. merge_slots False a b = Inr (rep, Some m) \<and> merge_slots True a b = Inr (rep, None) \<and>
    slot_ok m \<and> merge_spec a b m"
proof -
  have ok: "mergeable a b" using assms by (simp add: mergeable_def same_ids_audit audit_slots_def Let_def)
  obtain m where "merge_into a b = Inr m" "slot_ok m" "merge_spec a b m" by (rule merge_into_ok [OF ok])
  then show ?thesis using ok by (simp add: merge_slots_def mergeable_def)
qed

lemma bind_err: "bind_r x f = Inl e \<longleftrightarrow> x = Inl e \<or> (\<exists>v. x = Inr v \<and> f v = Inl e)"
  by (cases x) simp_all

lemma insert_err: "insert_into ok new t = Inl e \<Longrightarrow> e = RuntimeErr ''ConstraintException''"
  by (simp add: insert_into_def split: if_splits)

lemma merge_into_error:
  assumes "merge_into a b = Inl e"
  shows "e = RuntimeErr ''ConstraintException''"
proof -
  have ps: "x = RuntimeErr ''ConstraintException''" if "merge_partitions a b = Inl x" for x
    using that unfolding merge_partitions_def Let_def bind_err by (blast dest: insert_err)
  have ls: "x = RuntimeErr ''ConstraintException''" if "merge_linkages a b rl = Inl x" for x rl
    using that unfolding merge_linkages_def Let_def bind_err by (blast dest: insert_err)
  have es: "x = RuntimeErr ''ConstraintException''" if "merge_entities a b ra rb = Inl x" for x ra rb
    using that unfolding merge_entities_def Let_def bind_err by (elim disjE exE conjE) (auto dest: insert_err split: if_splits)
  have cs: "x = RuntimeErr ''ConstraintException''" if "merge_concepts a b ra rb = Inl x" for x ra rb
    using that unfolding merge_concepts_def bind_err by (blast dest: insert_err)
  have fm: "x = RuntimeErr ''ConstraintException''" if "fold_memory mv t = Inl x" for x mv t
    using that unfolding fold_memory_def bind_err by (auto dest: insert_err)
  have ms: "x = RuntimeErr ''ConstraintException''" if "merge_memory a b ra rb = Inl x" for x ra rb
    using that unfolding merge_memory_def bind_err by (blast dest: insert_err fm)
  show ?thesis using assms unfolding merge_into_def Let_def case_prod_beta bind_err
    by (elim disjE exE conjE) (auto dest: ps ls es cs ms)
qed

text \<open>C33. The merge is refused exactly when a partition name has different ids in the slots or an id
  different names, whether or not the run is dry.\<close>

theorem merge_refuses:
  assumes "slot_ok a" "slot_ok b"
  shows "merge_slots dry a b = Inl (RuntimeErr ''MergeRefused'') \<longleftrightarrow>
    (\<exists>p\<in>set (sl_partitions a). \<exists>q\<in>set (sl_partitions b). (p_name p = p_name q) \<noteq> (p_id p = p_id q))"
proof (cases "partition_clashes a b = []")
  case True
  have "merge_into a b \<noteq> Inl (RuntimeErr ''MergeRefused'')" using merge_into_error [of a b] by force
  then have "merge_slots dry a b \<noteq> Inl (RuntimeErr ''MergeRefused'')"
    using True by (auto simp: merge_slots_def bind_r_def split: sum.splits)
  then show ?thesis using no_clashes [OF True _ _ assms(2)] by blast
next
  case False
  have "\<exists>p\<in>set (sl_partitions a). \<exists>q\<in>set (sl_partitions b). (p_name p = p_name q) \<noteq> (p_id p = p_id q)"
  proof (rule ccontr)
    assume "\<not> ?thesis"
    then have n: "p_name p = p_name q \<longleftrightarrow> p_id p = p_id q" if "p \<in> set (sl_partitions a)" "q \<in> set (sl_partitions b)" for p q
      using that by blast
    have "partition_clashes a b = []"
      unfolding partition_clashes_def by (auto dest!: find_SomeD simp: n split: option.split) (metis n)+
    then show False using False by blast
  qed
  then show ?thesis using False by (simp add: merge_slots_def)
qed

text \<open>Every id of the target is below the next id of its sequence, as long as B has no more than
  the headroom's 1000 linkage types: inserts after a merge cannot reuse an id.\<close>

theorem merge_ids_fresh:
  assumes "slot_ok a" "slot_ok b" "ar_same_id (audit_slots a b) = 0" "length (sl_linkages b) \<le> remap_headroom"
    "merge_slots False a b = Inr (rep, Some m)"
  shows "(\<forall>p\<in>set (sl_partitions m). p_id p < sl_next_pid m) \<and> (\<forall>e\<in>set (sl_entities m). e_id e < sl_next_eid m) \<and>
    (\<forall>l\<in>set (sl_linkages m). l_id l < sl_next_lid m)"
proof -
  have "partition_clashes a b = []" using assms(5) by (simp add: merge_slots_def split: if_splits)
  then have ok: "mergeable a b" using assms by (simp add: mergeable_def same_ids_audit audit_slots_def Let_def)
  obtain m' where m: "merge_into a b = Inr m'" "merge_spec a b m'" "sl_linkages m' = merged_linkages a b"
    "sl_next_pid m' = Suc (max_id p_id (sl_partitions a) (sl_partitions b))"
    "sl_next_eid m' = Suc (max_id e_id (sl_entities a) (sl_entities b) + remap_headroom)"
    "sl_next_lid m' = Suc (max_id l_id (sl_linkages a) (sl_linkages b) + remap_headroom)"
    by (rule merge_into_ok [OF ok])
  have mm: "m' = m" using assms(5) m(1) by (simp add: merge_slots_def split: if_splits)
  have S: "set (sl_partitions m) \<subseteq> set (sl_partitions a) \<union> set (sl_partitions b)"
    "set (sl_entities m) \<subseteq> set (sl_entities a) \<union> set (sl_entities b)"
    using merge_spec_sub [OF m(2)] mm by simp_all
  have "p_id p < sl_next_pid m" if "p \<in> set (sl_partitions m)" for p
  proof -
    have "p \<in> set (sl_partitions a) \<union> set (sl_partitions b)" using that S(1) by blast
    then show ?thesis using max_id_ge m(4) mm by (simp add: less_Suc_eq_le)
  qed
  moreover have "e_id e < sl_next_eid m" if "e \<in> set (sl_entities m)" for e
  proof -
    have "e \<in> set (sl_entities a) \<union> set (sl_entities b)" using that S(2) by blast
    then show ?thesis using max_id_ge [of e _ _ e_id] m(5) mm by (simp add: less_Suc_eq_le trans_le_add1)
  qed
  moreover have "l_id l < sl_next_lid m" if "l \<in> set (sl_linkages m)" for l
  proof -
    from that consider "l \<in> set (sl_linkages a)" | r where "r \<in> set (sl_linkages b)" "l_id l = remap_id (linkage_remap a b) (l_id r)"
      using m(3) mm by (auto simp: merged_linkages_def)
    then show ?thesis
    proof cases
      case 1
      then show ?thesis using max_id_ge [of l "sl_linkages a" _ l_id] m(6) mm by (simp add: less_Suc_eq_le trans_le_add1)
    next
      case 2
      then show ?thesis using remap_range [OF 2(1), of a] assms(4) m(6) mm by simp
    qed
  qed
  ultimately show ?thesis by blast
qed

text \<open>The audit over the live writer connection reports what the audit of the two files does,
  whichever slot is the writer.\<close>

theorem audit_via_writer_same:
  "audit_via_writer ''A'' a b = audit_slots a b \<and> audit_via_writer ''B'' b a = audit_slots a b"
  unfolding audit_via_writer_def audit_slots_def Let_def using audit_flip [of b a] by simp

section \<open>Instances\<close>

text \<open>Two slots that grew apart: one linkage name under two ids, one concept under two ids, and a
  link in each; and a slot that gave A's first entity id to another entity.\<close>

definition ent_row :: "nat \<Rightarrow> string \<Rightarrow> string \<Rightarrow> time \<Rightarrow> entity" where
  "ent_row i k n u = \<lparr>e_id = i, e_pid = 1, e_kind = k, e_path = None, e_name = n, e_tldr = None, e_meta = None,
     e_created = 0, e_updated = u, e_protected = False, e_noise = False, e_canonical = None\<rparr>"

definition lk_of :: "nat \<Rightarrow> string \<Rightarrow> lk_inv" where
  "lk_of i n = \<lparr>l_id = i, l_name = n, l_directed = True, l_description = None, l_inverse = None\<rparr>"

definition empty_slot :: slot where
  "empty_slot = \<lparr>sl_partitions = [\<lparr>p_id = 1, p_name = ''core'', p_kind = ''code''\<rparr>], sl_linkages = [], sl_entities = [],
     sl_concepts = [], sl_memory = [], sl_links = [], sl_tracked = [], sl_evidence = [], sl_saved = [], sl_fragments = [],
     sl_next_pid = 2, sl_next_eid = 1, sl_next_lid = 1\<rparr>"

definition slot_a :: slot where
  "slot_a = empty_slot\<lparr>sl_linkages := [lk_of 1 ''uses''],
     sl_entities := [ent_row 1 ''file'' ''a.py'' 5, ent_row 2 ''concept'' ''x'' 3],
     sl_links := [\<lparr>k_entity = 1, k_linkage = 1, k_concept = 2, k_weight = None\<rparr>]\<rparr>"

definition slot_b :: slot where
  "slot_b = empty_slot\<lparr>sl_linkages := [lk_of 1 ''part-of'', lk_of 2 ''uses''],
     sl_entities := [ent_row 7 ''concept'' ''x'' 9, ent_row 8 ''file'' ''b.py'' 4],
     sl_links := [\<lparr>k_entity = 8, k_linkage = 2, k_concept = 7, k_weight = None\<rparr>]\<rparr>"

definition slot_c :: slot where
  "slot_c = empty_slot\<lparr>sl_entities := [ent_row 1 ''file'' ''c.py'' 3]\<rparr>"

lemma slots_ok: "slot_ok slot_a" "slot_ok slot_b"
  by code_simp+

lemma merge_slots_refines_witness:
  "\<exists>rep m. merge_slots False slot_a slot_b = Inr (rep, Some m) \<and> merge_slots True slot_a slot_b = Inr (rep, None) \<and>
    slot_ok m \<and> merge_spec slot_a slot_b m"
  by (rule merge_slots_refines [OF slots_ok]) code_simp+

lemma merge_refuses_witness:
  "merge_slots False slot_a slot_b \<noteq> Inl (RuntimeErr ''MergeRefused'')"
proof -
  have "\<not> (\<exists>p\<in>set (sl_partitions slot_a). \<exists>q\<in>set (sl_partitions slot_b). (p_name p = p_name q) \<noteq> (p_id p = p_id q))" by code_simp
  then show ?thesis using merge_refuses [OF slots_ok, of False] by blast
qed

lemma merge_ids_fresh_witness:
  "\<exists>rep m. merge_slots False slot_a slot_b = Inr (rep, Some m) \<and> (\<forall>l\<in>set (sl_linkages m). l_id l < sl_next_lid m)"
proof -
  have "case merge_slots False slot_a slot_b of Inr (rep, Some m) \<Rightarrow> True | _ \<Rightarrow> False" by code_simp
  then obtain rep m where m: "merge_slots False slot_a slot_b = Inr (rep, Some m)"
    by (auto split: sum.splits prod.splits option.splits)
  have "ar_same_id (audit_slots slot_a slot_b) = 0" "length (sl_linkages slot_b) \<le> remap_headroom" by code_simp+
  from merge_ids_fresh [OF slots_ok this m] m show ?thesis by blast
qed

text \<open>A fragment of A is copied as it is: the target has no bit of B's links in it, while
  \<open>merge_spec\<close> has their rows.\<close>

lemma merge_fragments_stale:
  assumes "merge_slots False a b = Inr (rep, Some m)" "k \<in> fst ` set (sl_fragments a)"
  shows "map_of (sl_fragments m) k = map_of (sl_fragments a) k"
proof -
  have "merge_into a b = Inr m" using assms(1) by (auto simp: merge_slots_def bind_r_Inr split: if_splits)
  then have "sl_fragments m = merge_fragments a b" by (auto simp: merge_into_def bind_r_Inr Let_def case_prod_beta)
  moreover obtain f where "map_of (sl_fragments a) k = Some f" using assms(2) by (metis map_of_eq_None_iff not_Some_eq)
  ultimately show ?thesis by (simp add: merge_fragments_def map_of_append)
qed

text \<open>Slots that use an id for different entities: the older entity is gone, without an error.\<close>

lemma merge_loses_entity:
  "\<exists>rep m. merge_slots False slot_a slot_c = Inr (rep, Some m) \<and> (1, ''file'', ''c.py'') \<notin> entity_key ` set (sl_entities m)"
proof -
  have "(case merge_slots False slot_a slot_c of Inr (rep, Some m) \<Rightarrow> (1, ''file'', ''c.py'') \<notin> entity_key ` set (sl_entities m)
    | _ \<Rightarrow> False)" by code_simp
  then show ?thesis by (auto split: sum.splits prod.splits option.splits)
qed

end
