(* ===== verification/Terms.thy ===== *)
theory Terms
  imports Prelude
begin

text \<open>
  The tokenizer and stop list of the read surfaces (\<open>src/src/refmatrix/terms.py\<close>): which words of a
  question are searched for.
\<close>

section \<open>The stop list\<close>

definition stopwords :: "string list" where
  "stopwords =
     [''a'', ''an'', ''the'', ''this'', ''that'', ''these'', ''those'',
      ''and'', ''or'', ''but'', ''nor'', ''if'', ''so'', ''yet'',
      ''of'', ''to'', ''in'', ''on'', ''at'', ''by'', ''for'', ''with'', ''from'', ''into'',
      ''onto'', ''off'', ''per'', ''via'', ''as'', ''about'',
      ''i'', ''we'', ''me'', ''my'', ''us'', ''our'', ''you'', ''your'', ''he'', ''she'', ''it'',
      ''they'', ''them'', ''their'',
      ''how'', ''why'', ''who'', ''whom'', ''whose'', ''what'', ''which'', ''when'', ''where'',
      ''while'',
      ''is'', ''am'', ''are'', ''was'', ''were'', ''be'', ''been'', ''being'',
      ''do'', ''does'', ''did'', ''doing'', ''done'',
      ''have'', ''has'', ''had'', ''can'', ''could'', ''will'', ''would'', ''should'',
      ''shall'', ''may'', ''might'', ''must'',
      ''not'', ''no'', ''yes'', ''than'', ''then'', ''such'',
      ''one'']"

section \<open>Terms\<close>

text \<open>The head of a \<open>kind:name\<close> reference is dropped unless it holds a space or a slash.\<close>

definition strip_kind :: "string \<Rightarrow> string" where
  "strip_kind text =
     (case split_once (CHR '':'') text of
        Some (h, rest) \<Rightarrow> if CHR '' '' \<notin> set h \<and> CHR ''/'' \<notin> set h then rest else text
      | None \<Rightarrow> text)"

fun first_terms :: "string list \<Rightarrow> string list \<Rightarrow> string list" where
  "first_terms seen [] = []"
| "first_terms seen (w # ws) =
     (let t = strip w in
      if length t < 2 \<or> str_lower t \<in> set seen then first_terms seen ws
      else t # first_terms (str_lower t # seen) ws)"

definition content_terms :: "string \<Rightarrow> bool \<Rightarrow> bool \<Rightarrow> string list" where
  "content_terms text strip_kind_prefix drop_stopwords =
     (let t = strip text;
          t' = (if strip_kind_prefix then strip_kind t else t);
          out = first_terms [] (split_runs is_space t');
          content = filter (\<lambda>w. str_lower w \<notin> set stopwords) out
      in if drop_stopwords \<and> 1 < length out \<and> content \<noteq> [] then content else out)"

section \<open>Facts\<close>

lemma first_terms_props:
  "(\<forall>t\<in>set (first_terms seen ws). 2 \<le> length t \<and> str_lower t \<notin> set seen \<and> t \<in> strip ` set ws) \<and>
   distinct (map str_lower (first_terms seen ws))"
proof (induction seen ws rule: first_terms.induct)
  case (2 seen v vs)
  show ?case
  proof (cases "length (strip v) < 2 \<or> str_lower (strip v) \<in> set seen")
    case True
    then have "first_terms seen (v # vs) = first_terms seen vs" by (auto simp: Let_def)
    then show ?thesis using 2(1) [OF refl True] by auto
  next
    case False
    then have "first_terms seen (v # vs) = strip v # first_terms (str_lower (strip v) # seen) vs" by (simp add: Let_def)
    then show ?thesis using 2(2) [OF refl False] False by fastforce
  qed
qed simp

lemma first_terms_cover:
  "w \<in> set ws \<Longrightarrow> 2 \<le> length (strip w) \<Longrightarrow> str_lower (strip w) \<notin> set seen \<Longrightarrow>
   str_lower (strip w) \<in> str_lower ` set (first_terms seen ws)"
proof (induction seen ws rule: first_terms.induct)
  case (2 seen v vs)
  let ?t = "strip v"
  show ?case
  proof (cases "length ?t < 2 \<or> str_lower ?t \<in> set seen")
    case True
    then have "w \<in> set vs" using 2(3-5) by auto
    then show ?thesis using 2(1) [OF refl True] 2(4,5) True by simp
  next
    case False
    then have eq: "first_terms seen (v # vs) = ?t # first_terms (str_lower ?t # seen) vs" by (simp add: Let_def)
    show ?thesis
    proof (cases "str_lower (strip w) = str_lower ?t")
      case True
      then show ?thesis unfolding eq by simp
    next
      case ne: False
      then have "w \<in> set vs" using 2(3) by auto
      then show ?thesis using 2(2) [OF refl False] 2(4,5) ne unfolding eq by simp
    qed
  qed
qed simp

lemma strip_no_space: "\<forall>c\<in>set w. \<not> is_space c \<Longrightarrow> strip w = w"
  by (induction w) (auto simp: strip_def lstrip_unchanged rstrip_unchanged)

lemma split_runs_no_space: "w \<in> set (split_runs p s) \<Longrightarrow> c \<in> set w \<Longrightarrow> \<not> p c"
  using split_words_props [of w p s] by (cases "w = []") (auto simp: split_words_def)

text \<open>The words a text has for a search: its space-separated words of two characters or more.\<close>

definition words_of :: "string \<Rightarrow> string list" where
  "words_of text = filter (\<lambda>w. 2 \<le> length w) (split_words is_space text)"

lemma words_of_runs: "set (words_of s) = {w \<in> set (split_runs is_space s). 2 \<le> length (strip w)}"
  using split_runs_no_space [of _ is_space s] strip_no_space
  by (auto simp: words_of_def split_words_def)

definition asked_words :: "bool \<Rightarrow> string \<Rightarrow> string set" where
  "asked_words k text = set (words_of (if k then strip_kind (strip text) else strip text))"

definition content_words :: "bool \<Rightarrow> string \<Rightarrow> string set" where
  "content_words k text = {w \<in> asked_words k text. str_lower w \<notin> set stopwords}"

text \<open>The terms of a text: no two are equal up to case, each is a word of the text, and up to case
  they are all words that are not stop words; the stop words are kept only when there is nothing
  else to search for, and a text of one word keeps it.\<close>

theorem content_terms_correct:
  "distinct (map str_lower (content_terms text k True)) \<and> set (content_terms text k True) \<subseteq> asked_words k text \<and>
    str_lower ` set (content_terms text k True) = str_lower ` (if content_words k text = {} then asked_words k text else content_words k text)"
proof -
  let ?b = "if k then strip_kind (strip text) else strip text"
  let ?out = "first_terms [] (split_runs is_space ?b)"
  let ?c = "filter (\<lambda>w. str_lower w \<notin> set stopwords) ?out"
  have sub: "t \<in> set (words_of ?b)" if "t \<in> set ?out" for t
  proof -
    from that obtain w where w: "w \<in> set (split_runs is_space ?b)" "t = strip w" "2 \<le> length t"
      using first_terms_props [of "[]" "split_runs is_space ?b"] by auto
    have "strip w = w" using split_runs_no_space [OF w(1)] by (intro strip_no_space) blast
    then show ?thesis using w unfolding words_of_runs by auto
  qed
  have cov: "str_lower w \<in> str_lower ` set ?out" if "w \<in> set (words_of ?b)" for w
  proof -
    have w: "w \<in> set (split_runs is_space ?b)" "2 \<le> length (strip w)" using that unfolding words_of_runs by auto
    have "strip w = w" using split_runs_no_space [OF w(1)] by (intro strip_no_space) blast
    then show ?thesis using first_terms_cover [OF w, of "[]"] by simp
  qed
  have d: "distinct (map str_lower ?out)" using first_terms_props by blast
  have low: "str_lower ` set ?out = str_lower ` set (words_of ?b)" using sub cov by blast
  have lowc: "str_lower ` set ?c = str_lower ` content_words k text"
  proof (intro equalityI subsetI)
    show "x \<in> str_lower ` content_words k text" if "x \<in> str_lower ` set ?c" for x using that sub by (auto simp: content_words_def asked_words_def)
    fix x assume "x \<in> str_lower ` content_words k text"
    then obtain w where w: "w \<in> set (words_of ?b)" "str_lower w \<notin> set stopwords" "x = str_lower w" unfolding content_words_def asked_words_def by blast
    obtain t where t: "t \<in> set ?out" "str_lower t = x" using cov [OF w(1)] w(3) by auto
    then have "t \<in> set ?c" using w by simp
    then show "x \<in> str_lower ` set ?c" using t(2) by (metis imageI)
  qed
  have one: "?c = ?out \<or> ?c = []" if "\<not> 1 < length ?out"
    using that by (cases ?out) auto
  have T: "content_terms text k True = (if ?c \<noteq> [] then ?c else ?out)"
    using one unfolding content_terms_def Let_def by auto
  have "content_words k text = {} \<longleftrightarrow> ?c = []" using lowc by (metis image_is_empty set_empty)
  then show ?thesis unfolding T asked_words_def using d low lowc sub by (auto simp: distinct_map_filter)
qed

end
