(* ===== verification/Focus.thy ===== *)
theory Focus
  imports Terms "HOL-Library.While_Combinator"
begin

text \<open>
  The short-term memory of a session (\<open>src/src/refmatrix/stm.py\<close>): its event log, the scored focus
  graph with bounded eviction, the task stack, the detour marks and the calls in flight.

  A partition is the files of one session and subject; a file that is missing reads as the empty
  value. Scores, weights and recencies are rationals where the code has floats; clock values are
  integers. Names hold no NUL character, so an edge key is the pair of its names. The eviction loop
  is \<open>while_option\<close>: \<open>None\<close> is a loop that does not end. The environment's overrides of the sizes are
  not set; the node budget is an argument.
\<close>

section \<open>Constants\<close>

definition default_node_budget :: nat where "default_node_budget = 200"
definition max_admit_per_turn :: nat where "max_admit_per_turn = 12"
definition decay :: rat where "decay = 85 / 100"
definition frontier_budget :: nat where "frontier_budget = max 8 (default_node_budget div 2)"
definition detail_max :: nat where "detail_max = 600"
definition inflight_budget :: nat where "inflight_budget = 64"
definition w_recency :: rat where "w_recency = 1"
definition w_freq :: rat where "w_freq = 1 / 2"
definition w_centrality :: rat where "w_centrality = 8 / 10"
definition w_pin :: rat where "w_pin = 10"

definition event_kinds :: "string list" where
  "event_kinds = [''input'', ''tool'', ''rmx'', ''result'', ''say'', ''git'', ''mark'', ''reason'']"

section \<open>References in a text\<close>

definition stm_stop :: "string list" where
  "stm_stop = stopwords @
     [''rmx'', ''true'', ''false'', ''none'', ''null'', ''self'', ''args'', ''kwargs'',
      ''here'', ''there'', ''now'', ''also'', ''because'', ''just'', ''very'', ''much'',
      ''more'', ''most'', ''some'', ''any'', ''all'', ''each'', ''every'', ''both'', ''either'',
      ''neither'', ''only'', ''even'', ''still'', ''again'', ''back'', ''over'', ''out'', ''up'',
      ''down'', ''too'', ''use'', ''used'', ''using'', ''uses'', ''try'', ''tried'', ''trying'',
      ''get'', ''got'', ''make'', ''made'', ''note'', ''noted'', ''like'', ''want'', ''need'',
      ''see'', ''seen'', ''test'', ''testing'', ''tested'',
      ''bash'', ''sh'', ''zsh'', ''echo'', ''grep'', ''rg'', ''cat'', ''sed'', ''awk'', ''ls'',
      ''cd'', ''cp'', ''mv'', ''head'', ''tail'', ''git'', ''python'', ''python3'', ''pip'',
      ''rtk'', ''tee'', ''xargs'', ''find'', ''sleep'', ''export'', ''sudo'', ''chmod'',
      ''mkdir'', ''touch'', ''curl'', ''wget'', ''tool'', ''read'', ''edit'',
      ''write'', ''glob'', ''bash_tool'',
      ''users'', ''home'', ''tmp'', ''var'', ''usr'', ''opt'', ''bin'', ''dev'',
      ''tholley'', ''claude_tools'', ''claude'']"

text \<open>\<open>re.findall\<close> for an expression that matches no empty text, given as the match at the head.\<close>

function find_all :: "(string \<Rightarrow> string option) \<Rightarrow> string \<Rightarrow> string list" where
  "find_all m [] = []"
| "find_all m (c # s) =
     (case m (c # s) of Some w \<Rightarrow> w # find_all m (drop (length w - 1) s) | None \<Rightarrow> find_all m s)"
  by pat_completeness auto
termination by (relation "measure (\<lambda>(m, s). length s)") auto

definition ident_start :: "char \<Rightarrow> bool" where
  "ident_start c = (is_alpha c \<or> c = CHR ''_'')"

function dotted :: "string \<Rightarrow> string" where
  "dotted s =
     (case s of
        d # c # r \<Rightarrow>
          (let w = takeWhile is_word r in
           if d = CHR ''.'' \<and> ident_start c \<and> w \<noteq> [] then d # c # w @ dotted (dropWhile is_word r) else [])
      | _ \<Rightarrow> [])"
  by pat_completeness auto
termination
  by (relation "measure length") (auto simp: less_Suc_eq_le length_dropWhile_le le_SucI)

declare dotted.simps [simp del]

definition ident_match :: "string \<Rightarrow> string option" where
  "ident_match s =
     (case s of [] \<Rightarrow> None
      | c # r \<Rightarrow>
          (let w = takeWhile is_word r in
           if ident_start c \<and> 2 \<le> length w then Some (c # w @ dotted (dropWhile is_word r)) else None))"

definition path_char :: "char \<Rightarrow> bool" where
  "path_char c = (is_word c \<or> c = CHR ''.'' \<or> c = CHR ''/'' \<or> c = CHR ''-'')"

text \<open>The last dot of the run of path characters that a letter follows; up to five letters of it.\<close>

definition path_match :: "string \<Rightarrow> string option" where
  "path_match s =
     (let run = takeWhile path_char s in
      case find (\<lambda>p. run ! p = CHR ''.'' \<and> is_alpha (run ! Suc p)) (rev [1..<length run - 1]) of
        None \<Rightarrow> None
      | Some p \<Rightarrow> Some (take (Suc p + min 5 (length (takeWhile is_alpha (drop (Suc p) run)))) run))"

definition extract_refs :: "string \<Rightarrow> string list" where
  "extract_refs text =
     take 12 (dedup
       (filter (\<lambda>m. CHR ''/'' \<in> set m \<or> CHR ''.'' \<in> set m) (find_all path_match text) @
        filter (\<lambda>m. str_lower m \<notin> set stm_stop \<and> \<not> list_all is_digit m) (find_all ident_match text)))"

text \<open>A \<open>$\<close> matches at the end and before a final newline.\<close>

definition at_end :: "(string \<Rightarrow> bool) \<Rightarrow> string \<Rightarrow> bool" where
  "at_end p s = (p s \<or> (s \<noteq> [] \<and> last s = CHR 0x0A \<and> p (butlast s)))"

definition ends_with :: "string \<Rightarrow> string \<Rightarrow> bool" where
  "ends_with t s = (length t \<le> length s \<and> drop (length s - length t) s = t)"

definition has_ext :: "string \<Rightarrow> bool" where
  "has_ext s = (let e = takeWhile is_alpha (rev s); r = dropWhile is_alpha (rev s)
     in 1 \<le> length e \<and> length e \<le> 5 \<and> r \<noteq> [] \<and> hd r = CHR ''.'')"

definition ref_kind :: "string \<Rightarrow> string" where
  "ref_kind ref =
     (if CHR ''/'' \<in> set ref \<or> at_end has_ext ref
      then if list_ex (\<lambda>e. at_end (ends_with (CHR ''.'' # e)) ref)
                [''py'', ''js'', ''ts'', ''go'', ''rs'', ''java'', ''c'', ''cpp'', ''h'']
           then ''code'' else ''doc''
      else ''concept'')"

definition is_hex :: "char \<Rightarrow> bool" where
  "is_hex c = (is_digit c \<or> lower_char c \<in> set ''abcdef'')"

definition uuid_at :: "string \<Rightarrow> bool" where
  "uuid_at s =
     (18 \<le> length s \<and> list_all is_hex (take 8 s) \<and> s ! 8 = CHR ''-'' \<and> list_all is_hex (take 4 (drop 9 s)) \<and>
      s ! 13 = CHR ''-'' \<and> list_all is_hex (take 4 (drop 14 s)))"

definition is_junk_ref :: "string \<Rightarrow> bool" where
  "is_junk_ref name =
     (let n = strip name in
      n = [] \<or> list_ex (\<lambda>p. starts_with p n) [''toolu_'', ''msg_'', ''call_'', ''run_'', ''req_'', ''wf_''] \<or>
      (4 \<le> length n \<and> list_all is_hex n \<and> list_ex is_digit n) \<or>
      list_ex (\<lambda>i. uuid_at (drop i n)) [0..<length n] \<or>
      (starts_with ''/'' n \<and> 4 \<le> length (filter (\<lambda>c. c = CHR ''/'') n)))"

definition is_ambient_text :: "string \<Rightarrow> bool" where
  "is_ambient_text text =
     (let t = lstrip text in
      starts_with ''<channel'' t \<or> starts_with ''<task-notification'' t \<or> starts_with ''[SYSTEM NOTIFICATION'' t)"

section \<open>The focus graph\<close>

record focus_node =
  nd_name :: string
  nd_kind :: string
  nd_recency :: rat
  nd_freq :: nat
  nd_pin :: nat
  nd_frontier :: bool
  nd_first :: nat
  nd_last :: nat
  nd_updated :: int

type_synonym edge = "string \<times> string"

record focus =
  fg_turn :: nat
  fg_nodes :: "(string \<times> focus_node) list"
  fg_edges :: "(edge \<times> rat) list"

definition empty_focus :: focus where
  "empty_focus = \<lparr>fg_turn = 0, fg_nodes = [], fg_edges = []\<rparr>"

definition pair_key :: "string \<Rightarrow> string \<Rightarrow> edge" where
  "pair_key a b = (if b < a then (b, a) else (a, b))"

definition count_end :: "string \<Rightarrow> (string \<times> nat) list \<Rightarrow> (string \<times> nat) list" where
  "count_end a deg = AList.update a (case map_of deg a of None \<Rightarrow> 1 | Some n \<Rightarrow> Suc n) deg"

definition graph_degree :: "focus \<Rightarrow> (string \<times> nat) list" where
  "graph_degree g = fold (\<lambda>((a, b), _) deg. count_end b (count_end a deg)) (fg_edges g) []"

text \<open>\<open>max(deg.values()) if deg else 1\<close>.\<close>

definition max_degree :: "(string \<times> nat) list \<Rightarrow> nat" where
  "max_degree deg = (if deg = [] then 1 else fold max (map snd deg) 0)"

definition node_score :: "nat \<Rightarrow> (string \<times> nat) list \<Rightarrow> nat \<Rightarrow> focus_node \<Rightarrow> rat" where
  "node_score maxfreq deg maxdeg nd =
     (let freq = (if maxfreq \<noteq> 0 then rat_of_nat (nd_freq nd) / rat_of_nat maxfreq else 0);
          cen = (if maxdeg \<noteq> 0
                 then rat_of_nat (case map_of deg (nd_name nd) of None \<Rightarrow> 0 | Some n \<Rightarrow> n) / rat_of_nat maxdeg else 0)
      in w_recency * nd_recency nd + w_freq * freq + w_centrality * cen + w_pin * rat_of_nat (nd_pin nd))"

definition neighbors_of :: "focus \<Rightarrow> string \<Rightarrow> string list" where
  "neighbors_of g n =
     List.concat (map (\<lambda>((a, b), _). if a = n then [b] else if b = n then [a] else []) (fg_edges g))"

definition drop_node :: "string \<Rightarrow> focus \<Rightarrow> focus" where
  "drop_node n g =
     g\<lparr>fg_nodes := AList.delete n (fg_nodes g),
       fg_edges := filter (\<lambda>((a, b), _). n \<noteq> a \<and> n \<noteq> b) (fg_edges g)\<rparr>"

section \<open>Eviction\<close>

definition live_nodes :: "focus \<Rightarrow> (string \<times> focus_node) list" where
  "live_nodes g = filter (\<lambda>(n, nd). \<not> nd_frontier nd) (fg_nodes g)"

definition unpinned :: "focus \<Rightarrow> (string \<times> focus_node) list" where
  "unpinned g = filter (\<lambda>(n, nd). nd_pin nd = 0) (live_nodes g)"

text \<open>\<open>max(..., default=1) or 1\<close>.\<close>

definition max_freq :: "(string \<times> focus_node) list \<Rightarrow> nat" where
  "max_freq nodes = (let m = fold max (map (nd_freq \<circ> snd) nodes) 0 in if m = 0 then 1 else m)"

definition victim :: "focus \<Rightarrow> string" where
  "victim g =
     fst (arg_min_list (\<lambda>(n, nd). node_score (max_freq (live_nodes g)) (graph_degree g) (max_degree (graph_degree g)) nd)
            (unpinned g))"

definition has_live_neighbor :: "focus \<Rightarrow> string \<Rightarrow> bool" where
  "has_live_neighbor g v =
     list_ex (\<lambda>x. (case map_of (fg_nodes g) x of Some nd \<Rightarrow> \<not> nd_frontier nd | None \<Rightarrow> False) \<and> x \<noteq> v) (neighbors_of g v)"

definition to_frontier :: "string \<Rightarrow> focus \<Rightarrow> focus" where
  "to_frontier v g =
     g\<lparr>fg_nodes := map (\<lambda>(n, nd). (n, if n = v then nd\<lparr>nd_frontier := True, nd_recency := 0\<rparr> else nd)) (fg_nodes g)\<rparr>"

definition evict_one :: "focus \<Rightarrow> focus" where
  "evict_one g =
     (let v = victim g in if has_live_neighbor g v then to_frontier v g else drop_node v g)"

definition evict_loop :: "nat \<Rightarrow> focus \<Rightarrow> focus option" where
  "evict_loop budget g = while_option (\<lambda>g. budget < length (live_nodes g) \<and> unpinned g \<noteq> []) evict_one g"

definition evict_frontier :: "focus \<Rightarrow> focus" where
  "evict_frontier g =
     (let front = filter (\<lambda>(n, nd). nd_frontier nd) (fg_nodes g) in
      if length front \<le> frontier_budget then g
      else fold (\<lambda>(n, nd) g. drop_node n g)
             (take (length front - frontier_budget) (sort_key (\<lambda>(n, nd). nd_last nd) front)) g)"

definition evict :: "nat \<Rightarrow> focus \<Rightarrow> focus option" where
  "evict budget g =
     (if length (live_nodes g) \<le> budget then Some (evict_frontier g) else map_option evict_frontier (evict_loop budget g))"

section \<open>A turn\<close>

definition admit_one :: "int \<Rightarrow> nat \<Rightarrow> string \<Rightarrow> focus \<Rightarrow> focus" where
  "admit_one now turn name g =
     (case map_of (fg_nodes g) name of
        None \<Rightarrow>
          g\<lparr>fg_nodes := AList.update name
              \<lparr>nd_name = name, nd_kind = ref_kind name, nd_recency = 1, nd_freq = 1, nd_pin = 0, nd_frontier = False,
               nd_first = turn, nd_last = turn, nd_updated = now\<rparr> (fg_nodes g)\<rparr>
      | Some nd \<Rightarrow>
          g\<lparr>fg_nodes := AList.update name
              (nd\<lparr>nd_recency := 1, nd_freq := nd_freq nd + 1, nd_frontier := False, nd_last := turn, nd_updated := now\<rparr>)
              (fg_nodes g)\<rparr>)"

definition admit :: "int \<Rightarrow> string list \<Rightarrow> nat \<Rightarrow> focus \<Rightarrow> string list \<times> focus" where
  "admit now refs turn g =
     (let names = filter (\<lambda>n. n \<noteq> []) refs in (names, fold (admit_one now turn) names g))"

fun all_pairs :: "'a list \<Rightarrow> ('a \<times> 'a) list" where
  "all_pairs [] = []"
| "all_pairs (x # xs) = map (Pair x) xs @ all_pairs xs"

definition bump_edge :: "string \<times> string \<Rightarrow> focus \<Rightarrow> focus" where
  "bump_edge ab g =
     (let k = pair_key (fst ab) (snd ab) in
      g\<lparr>fg_edges := AList.update k ((case map_of (fg_edges g) k of None \<Rightarrow> 0 | Some w \<Rightarrow> w) + 1) (fg_edges g)\<rparr>)"

definition new_turn_decay :: "focus \<Rightarrow> focus" where
  "new_turn_decay g =
     g\<lparr>fg_turn := fg_turn g + 1,
       fg_nodes := map (\<lambda>(n, nd). (n, if nd_frontier nd then nd else nd\<lparr>nd_recency := nd_recency nd * decay\<rparr>)) (fg_nodes g)\<rparr>"

definition apply_turn :: "nat \<Rightarrow> int \<Rightarrow> string list \<Rightarrow> bool \<Rightarrow> focus \<Rightarrow> focus option" where
  "apply_turn budget now refs new_turn g =
     (let g1 = (if new_turn then new_turn_decay g else g);
          (admitted, g2) = admit now (take max_admit_per_turn refs) (fg_turn g1) g1
      in evict budget (fold bump_edge (all_pairs admitted) g2))"

definition pin_node :: "string \<Rightarrow> bool \<Rightarrow> focus \<Rightarrow> bool \<times> focus" where
  "pin_node name value g =
     (case map_of (fg_nodes g) name of
        None \<Rightarrow> (False, g)
      | Some nd \<Rightarrow>
          (True, g\<lparr>fg_nodes := AList.update name
             (nd\<lparr>nd_pin := if value then 1 else 0, nd_frontier := if value then False else nd_frontier nd\<rparr>) (fg_nodes g)\<rparr>))"

section \<open>The ranked view\<close>

record view_node =
  vn_name :: string
  vn_kind :: string
  vn_weight :: rat
  vn_recency :: rat
  vn_count :: nat
  vn_degree :: nat
  vn_pin :: nat
  vn_last :: int
  vn_frontier :: bool

record view =
  vw_turn :: nat
  vw_nodes :: "view_node list"
  vw_edges :: "(string \<times> string \<times> rat) list"
  vw_focus :: "string list"

text \<open>\<open>round(x, n)\<close>: half to even.\<close>

definition round_to :: "nat \<Rightarrow> rat \<Rightarrow> rat" where
  "round_to n x =
     (let y = x * 10 ^ n; f = \<lfloor>y\<rfloor>; r = y - rat_of_int f;
          i = (if r < 1 / 2 then f else if 1 / 2 < r then f + 1 else if even f then f else f + 1)
      in rat_of_int i / 10 ^ n)"

definition frontier_node :: "focus_node \<Rightarrow> view_node" where
  "frontier_node nd = \<lparr>vn_name = nd_name nd, vn_kind = nd_kind nd, vn_weight = 0, vn_recency = 0, vn_count = 0,
     vn_degree = 0, vn_pin = 0, vn_last = 0, vn_frontier = True\<rparr>"

definition add_frontier :: "focus \<Rightarrow> string \<times> focus_node \<Rightarrow> view_node list \<times> string list \<Rightarrow> view_node list \<times> string list" where
  "add_frontier g n acc =
     (case acc of (out, keep) \<Rightarrow>
        if nd_frontier (snd n) \<and>
           nd_name (snd n) \<in> set (filter (\<lambda>x. x \<in> set keep) (List.concat (map (\<lambda>((a, b), _). [a, b]) (fg_edges g))))
        then (out @ [frontier_node (snd n)], nd_name (snd n) # keep)
        else (out, keep))"

definition focus_view :: "nat \<Rightarrow> bool \<Rightarrow> focus \<Rightarrow> view" where
  "focus_view k include_frontier g =
     (let deg = graph_degree g; maxdeg = max_degree deg; lv = map snd (live_nodes g);
          maxfreq = max_freq (live_nodes g);
          scored = sort_key (\<lambda>nd. - node_score maxfreq deg maxdeg nd) lv;
          out = map (\<lambda>nd. \<lparr>vn_name = nd_name nd, vn_kind = nd_kind nd,
                  vn_weight = round_to 3 (node_score maxfreq deg maxdeg nd), vn_recency = round_to 3 (nd_recency nd),
                  vn_count = nd_freq nd, vn_degree = (case map_of deg (nd_name nd) of None \<Rightarrow> 0 | Some n \<Rightarrow> n),
                  vn_pin = nd_pin nd, vn_last = nd_updated nd, vn_frontier = False\<rparr>) (take k scored);
          keep = map nd_name (take k scored);
          (out', keep') = (if include_frontier then fold (add_frontier g) (fg_nodes g) (out, keep) else (out, keep))
      in \<lparr>vw_turn = fg_turn g, vw_nodes = out',
          vw_edges = map (\<lambda>((a, b), w). (a, b, round_to 2 w))
                       (filter (\<lambda>((a, b), _). a \<in> set keep' \<and> b \<in> set keep') (fg_edges g)),
          vw_focus = map vn_name (filter (\<lambda>n. \<not> vn_frontier n) out')\<rparr>)"

section \<open>A partition\<close>

record stm_event =
  se_ts :: int
  se_kind :: string
  se_terse :: string
  se_refs :: "string list"
  se_task :: "string option"
  se_detail :: "string option"
  se_sha :: "string option"
  se_abandoned :: bool

record stash =
  sh_desc :: string
  sh_ts :: int
  sh_focus :: "string list"

record detour =
  dt_label :: string
  dt_ts :: int
  dt_line :: nat
  dt_focus :: "string list"

record parked =
  pk_t :: int
  pk_terse :: string
  pk_refs :: "string list"
  pk_detail :: "string option"

record part =
  pt_ring :: "stm_event list"
  pt_graph :: focus
  pt_tasks :: "stash list"
  pt_marks :: "detour list"
  pt_inflight :: "(string \<times> parked) list"

definition empty_part :: part where
  "empty_part = \<lparr>pt_ring = [], pt_graph = empty_focus, pt_tasks = [], pt_marks = [], pt_inflight = []\<rparr>"

definition ingest :: "nat \<Rightarrow> int \<Rightarrow> string list \<Rightarrow> bool \<Rightarrow> part \<Rightarrow> part option" where
  "ingest budget now refs new_turn p =
     (if refs = [] \<and> \<not> new_turn then Some p
      else map_option (\<lambda>g. p\<lparr>pt_graph := g\<rparr>) (apply_turn budget now refs new_turn (pt_graph p)))"

definition current_task_desc :: "part \<Rightarrow> string option" where
  "current_task_desc p = (if pt_tasks p = [] then None else Some (sh_desc (last (pt_tasks p))))"

text \<open>An event; \<open>sha\<close> is the digest of a prompt, \<open>abandoned\<close> and \<open>psha\<close> are what callers pass as extra
  fields.\<close>

definition make_event ::
  "(string \<Rightarrow> string) \<Rightarrow> int \<Rightarrow> string \<Rightarrow> string \<Rightarrow> string list \<Rightarrow> string option \<Rightarrow> bool \<Rightarrow> string option \<Rightarrow> part \<Rightarrow> stm_event" where
  "make_event sha now kind terse refs detail abandoned psha p =
     (let kind' = (if kind \<in> set event_kinds then kind else ''tool'') in
      \<lparr>se_ts = now, se_kind = kind', se_terse = take 500 terse, se_refs = refs, se_task = current_task_desc p,
       se_detail = (case detail of Some (c # d) \<Rightarrow> Some (take detail_max (c # d)) | _ \<Rightarrow> None),
       se_sha = (case psha of Some h \<Rightarrow> Some h | None \<Rightarrow> if kind' = ''input'' then Some (sha terse) else None),
       se_abandoned = abandoned\<rparr>)"

definition record_event ::
  "nat \<Rightarrow> (string \<Rightarrow> string) \<Rightarrow> int \<Rightarrow> string \<Rightarrow> string \<Rightarrow> string list option \<Rightarrow> string option \<Rightarrow> bool \<Rightarrow> string option \<Rightarrow>
   part \<Rightarrow> (stm_event \<times> part) option" where
  "record_event budget sha now kind terse refs detail abandoned psha p =
     (let rlist = (case refs of Some r \<Rightarrow> r | None \<Rightarrow> extract_refs terse);
          ev = make_event sha now kind terse rlist detail abandoned psha p
      in map_option (Pair ev)
           (ingest budget now rlist (se_kind ev = ''input'') (p\<lparr>pt_ring := pt_ring p @ [ev]\<rparr>)))"

definition tail_events :: "nat \<Rightarrow> part \<Rightarrow> stm_event list" where
  "tail_events n p = drop (length (pt_ring p) - n) (pt_ring p)"

definition event_count :: "part \<Rightarrow> nat" where
  "event_count p = length (pt_ring p)"

definition clear_part :: "part \<Rightarrow> part" where
  "clear_part p = p\<lparr>pt_ring := [], pt_graph := empty_focus, pt_tasks := [], pt_marks := []\<rparr>"

text \<open>The replay of the log into a fresh graph: the events and references dropped, and the graph.\<close>

fun replay_events :: "nat \<Rightarrow> int \<Rightarrow> bool \<Rightarrow> bool \<Rightarrow> stm_event list \<Rightarrow> nat \<times> nat \<times> focus \<Rightarrow> (nat \<times> nat \<times> focus) option" where
  "replay_events budget now drop_ambient drop_junk [] acc = Some acc"
| "replay_events budget now drop_ambient drop_junk (ev # evs) acc =
     (case acc of (de, dr, g) \<Rightarrow>
        if drop_ambient \<and> se_kind ev = ''input'' \<and> is_ambient_text (se_terse ev)
        then replay_events budget now drop_ambient drop_junk evs (de + 1, dr, g)
        else
          let refs = (if drop_junk then filter (\<lambda>r. \<not> is_junk_ref r) (se_refs ev) else se_refs ev) in
          (case apply_turn budget now refs (se_kind ev = ''input'') g of
             None \<Rightarrow> None
           | Some g' \<Rightarrow>
               replay_events budget now drop_ambient drop_junk evs (de, dr + (length (se_refs ev) - length refs), g')))"

definition rebuild_focus :: "nat \<Rightarrow> int \<Rightarrow> bool \<Rightarrow> bool \<Rightarrow> bool \<Rightarrow> part \<Rightarrow> ((nat \<times> nat \<times> nat \<times> nat \<times> nat) \<times> part) option" where
  "rebuild_focus budget now drop_ambient drop_junk dry_run p =
     map_option (\<lambda>(de, dr, g).
         ((length (pt_ring p), de, dr, length (fg_nodes g), length (fg_edges g)),
          if dry_run then p else p\<lparr>pt_graph := g\<rparr>))
       (replay_events budget now drop_ambient drop_junk (pt_ring p) (0, 0, empty_focus))"

section \<open>Tasks and detours\<close>

definition task_push :: "int \<Rightarrow> string \<Rightarrow> part \<Rightarrow> nat \<times> part" where
  "task_push now desc p =
     (let stack = pt_tasks p @ [\<lparr>sh_desc = desc, sh_ts = now, sh_focus = vw_focus (focus_view 12 False (pt_graph p))\<rparr>]
      in (length stack, p\<lparr>pt_tasks := stack\<rparr>))"

text \<open>Decimal digits.\<close>

definition digits_val :: "string \<Rightarrow> nat" where
  "digits_val s = fold (\<lambda>c n. 10 * n + (of_char c - 48)) s 0"

definition is_infix :: "string \<Rightarrow> string \<Rightarrow> bool" where
  "is_infix t s = (str_find t s \<noteq> None)"

text \<open>The index a selector names: the top, a 1-based index from the top, or the latest description
  that contains it. \<open>int\<close> refuses more than one sign.\<close>

definition find_selected :: "string list \<Rightarrow> string \<Rightarrow> nat option result" where
  "find_selected descs selector =
     (let s = strip selector; d = dropWhile (\<lambda>c. c = CHR ''+'') s; n = length descs in
      if s = [] then Inr (if descs = [] then None else Some (n - 1))
      else if d \<noteq> [] \<and> list_all is_digit d then
        (if length s - length d > 1 then Inl (ValueError ''invalid literal for int()'')
         else let k = digits_val d in Inr (if 1 \<le> k \<and> k \<le> n then Some (n - k) else None))
      else Inr (find (\<lambda>i. is_infix (str_lower s) (str_lower (descs ! i))) (rev [0..<n])))"

datatype popped =
    Empty
  | NoMatch nat
  | Popped string nat "string list"

definition remove_at :: "nat \<Rightarrow> 'a list \<Rightarrow> 'a list" where
  "remove_at i xs = take i xs @ drop (Suc i) xs"

definition task_pop :: "nat \<Rightarrow> int \<Rightarrow> string option \<Rightarrow> part \<Rightarrow> (popped \<times> part) option result" where
  "task_pop budget now selector p =
     (let stack = pt_tasks p in
      if stack = [] then Inr (Some (Empty, p))
      else bind_r (case selector of None \<Rightarrow> Inr (Some (length stack - 1)) | Some s \<Rightarrow> find_selected (map sh_desc stack) s)
        (\<lambda>idx. case idx of
            None \<Rightarrow> Inr (Some (NoMatch (length stack), p))
          | Some i \<Rightarrow>
              let t = stack ! i; rest = remove_at i stack in
              Inr (map_option (Pair (Popped (sh_desc t) (length rest) (sh_focus t)))
                     (ingest budget now (sh_focus t) False (p\<lparr>pt_tasks := rest\<rparr>)))))"

definition task_swap :: "part \<Rightarrow> (bool \<times> string option) \<times> part" where
  "task_swap p =
     (let s = pt_tasks p; n = length s in
      if n < 2 then ((False, current_task_desc p), p)
      else let p' = p\<lparr>pt_tasks := s[n - 1 := s ! (n - 2), n - 2 := s ! (n - 1)]\<rparr>
        in ((True, current_task_desc p'), p'))"

text \<open>Decimal text of a number, for the default labels.\<close>

fun nat_text :: "nat \<Rightarrow> string" where
  "nat_text n = (if n < 10 then [char_of (48 + n)] else nat_text (n div 10) @ [char_of (48 + n mod 10)])"

definition focus_mark :: "nat \<Rightarrow> (string \<Rightarrow> string) \<Rightarrow> int \<Rightarrow> string \<Rightarrow> string \<Rightarrow> part \<Rightarrow> (detour \<times> part) option" where
  "focus_mark budget sha now arrow label p =
     (let m = \<lparr>dt_label = (if label = [] then ''detour-'' @ nat_text (length (pt_marks p) + 1) else label), dt_ts = now,
                dt_line = event_count p + 1, dt_focus = vw_focus (focus_view 12 False (pt_graph p))\<rparr>
      in map_option (\<lambda>(_, p'). (m, p'))
           (record_event budget sha now ''mark'' (arrow @ '' detour: '' @ dt_label m) (Some []) None False None
              (p\<lparr>pt_marks := pt_marks p @ [m]\<rparr>)))"

definition focus_return ::
  "nat \<Rightarrow> (string \<Rightarrow> string) \<Rightarrow> int \<Rightarrow> string \<Rightarrow> string option \<Rightarrow> part \<Rightarrow> (popped \<times> part) option result" where
  "focus_return budget sha now arrow selector p =
     (let marks = pt_marks p in
      if marks = [] then Inr (Some (Empty, p))
      else bind_r (case selector of None \<Rightarrow> Inr (Some (length marks - 1)) | Some s \<Rightarrow> find_selected (map dt_label marks) s)
        (\<lambda>idx. case idx of
            None \<Rightarrow> Inr (Some (NoMatch (length marks), p))
          | Some i \<Rightarrow>
              let m = marks ! i; rest = remove_at i marks in
              Inr (Option.bind (ingest budget now (dt_focus m) False (p\<lparr>pt_marks := rest\<rparr>)) (\<lambda>p1.
                map_option (\<lambda>(_, p2). (Popped (dt_label m) (length rest) (dt_focus m), p2))
                  (record_event budget sha now ''mark'' (arrow @ '' return: '' @ dt_label m)
                     (Some (take 6 (dt_focus m))) None False None p1)))))"

section \<open>Calls in flight\<close>

definition inflight_begin :: "int \<Rightarrow> string \<Rightarrow> string \<Rightarrow> string list \<Rightarrow> string option \<Rightarrow> part \<Rightarrow> parked \<times> part" where
  "inflight_begin now key terse refs detail p =
     (let d = pt_inflight p;
          d' = (if inflight_budget < length d
                then fold AList.delete (take (length d div 2) (map fst (sort_key (\<lambda>(k, v). pk_t v) d))) d else d);
          r = \<lparr>pk_t = now, pk_terse = take 500 terse, pk_refs = refs,
               pk_detail = (case detail of Some (c # s) \<Rightarrow> Some (take detail_max (c # s)) | _ \<Rightarrow> None)\<rparr>
      in (r, p\<lparr>pt_inflight := AList.update key r d'\<rparr>))"

definition inflight_end :: "string \<Rightarrow> part \<Rightarrow> parked option \<times> part" where
  "inflight_end key p = (map_of (pt_inflight p) key, p\<lparr>pt_inflight := AList.delete key (pt_inflight p)\<rparr>)"

fun sweep_stale :: "nat \<Rightarrow> (string \<Rightarrow> string) \<Rightarrow> int \<Rightarrow> (string \<times> parked) list \<Rightarrow> part \<Rightarrow> (stm_event list \<times> part) option" where
  "sweep_stale budget sha now [] p = Some ([], p)"
| "sweep_stale budget sha now ((k, v) # stale) p =
     Option.bind (record_event budget sha now ''tool'' (if pk_terse v = [] then ''tool'' else pk_terse v)
           (Some (pk_refs v)) (pk_detail v) True None p) (\<lambda>(ev, p1).
       map_option (\<lambda>(evs, p2). (ev # evs, p2)) (sweep_stale budget sha now stale p1))"

definition inflight_sweep :: "nat \<Rightarrow> (string \<Rightarrow> string) \<Rightarrow> int \<Rightarrow> int \<Rightarrow> part \<Rightarrow> (stm_event list \<times> part) option" where
  "inflight_sweep budget sha now max_age p =
     (let d = pt_inflight p; stale = filter (\<lambda>(k, v). max_age < now - pk_t v) d in
      if stale = [] then Some ([], p)
      else map_option (\<lambda>(evs, p'). (evs, p'\<lparr>pt_inflight := fold AList.delete (map fst stale) d\<rparr>))
             (sweep_stale budget sha now stale p))"

section \<open>Topics\<close>

definition add_weight :: "string \<Rightarrow> string \<Rightarrow> rat \<Rightarrow> (string \<times> (string \<times> rat) list) list \<Rightarrow> (string \<times> (string \<times> rat) list) list" where
  "add_weight a b w adj =
     (case map_of adj a of None \<Rightarrow> adj
      | Some row \<Rightarrow> AList.update a (AList.update b ((case map_of row b of None \<Rightarrow> 0 | Some x \<Rightarrow> x) + w) row) adj)"

definition adjacency :: "view \<Rightarrow> (string \<times> (string \<times> rat) list) list" where
  "adjacency v =
     (let nodes = map vn_name (vw_nodes v) in
      fold (\<lambda>(a, b, w) adj. if a \<in> set nodes \<and> b \<in> set nodes then add_weight b a w (add_weight a b w adj) else adj)
        (vw_edges v) (map (\<lambda>n. (n, [])) (dedup nodes)))"

definition tally :: "(string \<times> nat) list \<Rightarrow> (string \<times> rat) list \<Rightarrow> (nat \<times> rat) list" where
  "tally label row =
     fold (\<lambda>(m, w) t. let l = the (map_of label m) in
        AList.update l ((case map_of t l of None \<Rightarrow> 0 | Some x \<Rightarrow> x) + w) t) row []"

text \<open>\<open>max(tally.items(), key=(weight, -label))\<close>.\<close>

definition best_label :: "(nat \<times> rat) list \<Rightarrow> nat" where
  "best_label t = fst (arg_min_list (\<lambda>(l, w). (- w, l)) t)"

definition relabel :: "(string \<times> (string \<times> rat) list) list \<Rightarrow> string \<Rightarrow> (string \<times> nat) list \<times> bool \<Rightarrow> (string \<times> nat) list \<times> bool" where
  "relabel adj n acc =
     (case acc of (label, changed) \<Rightarrow>
        case map_of adj n of
          None \<Rightarrow> acc
        | Some row \<Rightarrow>
            if row = [] then acc
            else let b = best_label (tally label row) in
              if map_of label n \<noteq> Some b then (AList.update n b label, True) else acc)"

fun propagate :: "nat \<Rightarrow> (string \<times> (string \<times> rat) list) list \<Rightarrow> string list \<Rightarrow> (string \<times> nat) list \<Rightarrow> (string \<times> nat) list" where
  "propagate 0 adj nodes label = label"
| "propagate (Suc k) adj nodes label =
     (case fold (relabel adj) nodes (label, False) of
        (label', changed) \<Rightarrow> if changed then propagate k adj nodes label' else label')"

definition group_by_label :: "(string \<times> nat) list \<Rightarrow> string list \<Rightarrow> (nat \<times> string list) list" where
  "group_by_label label nodes =
     fold (\<lambda>n gs. let l = the (map_of label n) in
        AList.update l ((case map_of gs l of None \<Rightarrow> [] | Some ms \<Rightarrow> ms) @ [n]) gs) nodes []"

definition initial_labels :: "string list \<Rightarrow> (string \<times> nat) list" where
  "initial_labels nodes = fold (\<lambda>(i, n) label. AList.update n i label) (enumerate 0 nodes) []"

definition cluster_focus :: "view \<Rightarrow> nat \<Rightarrow> string list list" where
  "cluster_focus v min_size =
     (let nodes = map vn_name (vw_nodes v);
          label = propagate 30 (adjacency v) nodes (initial_labels nodes)
      in sort_key (\<lambda>c. - int (length c)) (filter (\<lambda>c. min_size \<le> length c) (map snd (group_by_label label nodes))))"

record topic =
  tp_members :: "string list"
  tp_nodes :: "view_node list"
  tp_edges :: "(string \<times> string \<times> rat) list"

definition topic_composites :: "view \<Rightarrow> nat \<Rightarrow> nat \<Rightarrow> topic list" where
  "topic_composites v k min_size =
     (let nmap = fold (\<lambda>n m. AList.update (vn_name n) n m) (vw_nodes v) [] in
      List.concat (map (\<lambda>members.
          let nodes = sort_key (\<lambda>n. - vn_weight n) (List.map_filter (map_of nmap) members) in
          if nodes = [] then []
          else [\<lparr>tp_members = map vn_name nodes, tp_nodes = nodes,
                 tp_edges = filter (\<lambda>(a, b, _). a \<in> set members \<and> b \<in> set members) (vw_edges v)\<rparr>])
        (take k (cluster_focus v min_size))))"

section \<open>Subjects\<close>

text \<open>The partitions of a session: the bare one and one for each subject, by the slug of its label.\<close>

record session =
  ss_name :: string
  ss_pointer :: "(string \<times> string \<times> int) option"
  ss_subject :: "string option"
  ss_parts :: "string \<Rightarrow> part"

definition safe_name :: "string \<Rightarrow> string" where
  "safe_name s =
     (let r = join ''_'' (split_runs (\<lambda>c. \<not> (is_alnum c \<or> c \<in> set ''._-'')) s) in if r = [] then ''default'' else r)"

definition subject_slug :: "string \<Rightarrow> string" where
  "subject_slug label =
     (let s = join ''_'' (split_runs (\<lambda>c. \<not> (is_lower c \<or> is_digit c)) (str_lower label));
          s' = rev (dropWhile (\<lambda>c. c = CHR ''_'') (rev (dropWhile (\<lambda>c. c = CHR ''_'') s)))
      in if take 48 s' = [] then ''subject'' else take 48 s')"

definition partition_key :: "string \<Rightarrow> string option \<Rightarrow> string" where
  "partition_key session subject =
     (case subject of None \<Rightarrow> safe_name session | Some s \<Rightarrow> safe_name session @ ''__'' @ s)"

definition set_subject :: "int \<Rightarrow> string \<Rightarrow> session \<Rightarrow> session" where
  "set_subject now label s =
     s\<lparr>ss_pointer := Some (subject_slug label, label, now), ss_subject := Some (subject_slug label)\<rparr>"

definition clear_subject :: "session \<Rightarrow> bool \<times> session" where
  "clear_subject s = (ss_pointer s \<noteq> None, s\<lparr>ss_pointer := None, ss_subject := None\<rparr>)"

definition current_part :: "session \<Rightarrow> part" where
  "current_part s = ss_parts s (partition_key (ss_name s) (ss_subject s))"

definition on_part :: "part \<Rightarrow> session \<Rightarrow> session" where
  "on_part p s = s\<lparr>ss_parts := (ss_parts s)(partition_key (ss_name s) (ss_subject s) := p)\<rparr>"

end
