(* ===== verification/FocusFacts.thy ===== *)
theory FocusFacts
  imports Focus
begin

text \<open>
  What the short-term memory guarantees: eviction ends and keeps the focus graph within its bounds, a
  pinned node stays live, the graph stays well formed under every operation, a stash restores
  what it saved, the replay of the log gives the graph the live updates gave, and a topic holds only
  connected names.
\<close>

section \<open>Well-formed graphs\<close>

definition node_ok :: "nat \<Rightarrow> string \<times> focus_node \<Rightarrow> bool" where
  "node_ok turn n =
     (nd_name (snd n) = fst n \<and> fst n \<noteq> [] \<and> 0 \<le> nd_recency (snd n) \<and> nd_recency (snd n) \<le> 1 \<and> 1 \<le> nd_freq (snd n) \<and>
      nd_first (snd n) \<le> nd_last (snd n) \<and> nd_last (snd n) \<le> turn \<and>
      (nd_frontier (snd n) \<longrightarrow> nd_recency (snd n) = 0 \<and> nd_pin (snd n) = 0))"

definition edge_ok :: "string set \<Rightarrow> edge \<times> rat \<Rightarrow> bool" where
  "edge_ok names e = (fst (fst e) \<in> names \<and> snd (fst e) \<in> names \<and> fst (fst e) \<le> snd (fst e) \<and> 1 \<le> snd e)"

definition focus_ok :: "focus \<Rightarrow> bool" where
  "focus_ok g =
     (distinct (map fst (fg_nodes g)) \<and> distinct (map fst (fg_edges g)) \<and> list_all (node_ok (fg_turn g)) (fg_nodes g) \<and>
      list_all (edge_ok (fst ` set (fg_nodes g))) (fg_edges g))"

definition frontier :: "focus \<Rightarrow> (string \<times> focus_node) list" where
  "frontier g = filter (\<lambda>(n, nd). nd_frontier nd) (fg_nodes g)"

lemma focus_okD:
  assumes "focus_ok g"
  shows "distinct (map fst (fg_nodes g))" "distinct (map fst (fg_edges g))"
    "\<And>n nd. (n, nd) \<in> set (fg_nodes g) \<Longrightarrow> node_ok (fg_turn g) (n, nd)"
    "\<And>e. e \<in> set (fg_edges g) \<Longrightarrow> edge_ok (fst ` set (fg_nodes g)) e"
  using assms by (auto simp: focus_ok_def list_all_iff)

lemma focus_okI:
  assumes "distinct (map fst (fg_nodes g))" "distinct (map fst (fg_edges g))"
    "\<And>n nd. (n, nd) \<in> set (fg_nodes g) \<Longrightarrow> node_ok (fg_turn g) (n, nd)"
    "\<And>e. e \<in> set (fg_edges g) \<Longrightarrow> edge_ok (fst ` set (fg_nodes g)) e"
  shows "focus_ok g"
  using assms by (auto simp: focus_ok_def list_all_iff)

lemma edge_ok_mono: "edge_ok A e \<Longrightarrow> A \<subseteq> B \<Longrightarrow> edge_ok B e"
  by (auto simp: edge_ok_def)

lemma delete_filter: "AList.delete n xs = filter (\<lambda>p. fst p \<noteq> n) xs"
  by (induction xs) (auto simp: AList.delete_eq)

section \<open>Eviction\<close>

lemma victim_in: "unpinned g \<noteq> [] \<Longrightarrow> \<exists>nd. (victim g, nd) \<in> set (unpinned g)"
  unfolding victim_def by (metis arg_min_list_in prod.collapse)

lemma victim_live:
  assumes "unpinned g \<noteq> []"
  obtains nd where "(victim g, nd) \<in> set (fg_nodes g)" "\<not> nd_frontier nd" "nd_pin nd = 0"
  using victim_in [OF assms] by (auto simp: unpinned_def live_nodes_def)

lemma live_to_frontier: "live_nodes (to_frontier v g) = filter (\<lambda>p. fst p \<noteq> v) (live_nodes g)"
proof -
  have "filter (\<lambda>(n, nd). \<not> nd_frontier nd) (map (\<lambda>(n, nd). (n, if n = v then nd\<lparr>nd_frontier := True, nd_recency := 0\<rparr> else nd)) xs) =
    filter (\<lambda>p. fst p \<noteq> v) (filter (\<lambda>(n, nd). \<not> nd_frontier nd) xs)" for xs :: "(string \<times> focus_node) list"
    by (induction xs) auto
  then show ?thesis by (simp add: live_nodes_def to_frontier_def)
qed

lemma live_drop_node: "live_nodes (drop_node v g) = filter (\<lambda>p. fst p \<noteq> v) (live_nodes g)"
  unfolding live_nodes_def drop_node_def by (simp add: delete_filter conj_commute)

lemma live_evict_one: "live_nodes (evict_one g) = filter (\<lambda>p. fst p \<noteq> victim g) (live_nodes g)"
  by (simp add: evict_one_def Let_def live_to_frontier live_drop_node)

lemma evict_one_less:
  assumes "unpinned g \<noteq> []"
  shows "length (live_nodes (evict_one g)) < length (live_nodes g)"
proof -
  obtain nd where "(victim g, nd) \<in> set (unpinned g)" using victim_in [OF assms] by blast
  then have "(victim g, nd) \<in> set (live_nodes g)" by (simp add: unpinned_def)
  then show ?thesis unfolding live_evict_one by (intro length_filter_less) auto
qed

lemma evict_loop_returns: "\<exists>g'. evict_loop budget g = Some g'"
  unfolding evict_loop_def
  by (rule measure_while_option_Some [where P = "\<lambda>_. True" and f = "\<lambda>g. length (live_nodes g)"]) (use evict_one_less in blast)+

lemma evict_returns: "\<exists>g'. evict budget g = Some g'"
  using evict_loop_returns [of budget g] by (auto simp: evict_def)

lemma apply_turn_returns: "\<exists>g'. apply_turn budget now refs nt g = Some g'"
  by (simp add: apply_turn_def Let_def case_prod_beta evict_returns)

text \<open>What an eviction step keeps.\<close>

lemma drop_node_ok: "focus_ok g \<Longrightarrow> focus_ok (drop_node v g)"
proof (rule focus_okI)
  assume ok: "focus_ok g"
  note D = focus_okD [OF ok]
  show "distinct (map fst (fg_nodes (drop_node v g)))" using D(1) by (simp add: drop_node_def delete_filter distinct_map_filter)
  show "distinct (map fst (fg_edges (drop_node v g)))" using D(2) by (simp add: drop_node_def distinct_map_filter)
  show "node_ok (fg_turn (drop_node v g)) (n, nd)" if "(n, nd) \<in> set (fg_nodes (drop_node v g))" for n nd
    using that D(3) by (simp add: drop_node_def delete_filter)
  show "edge_ok (fst ` set (fg_nodes (drop_node v g))) e" if "e \<in> set (fg_edges (drop_node v g))" for e
  proof -
    have e: "e \<in> set (fg_edges g)" "fst (fst e) \<noteq> v" "snd (fst e) \<noteq> v" using that by (auto simp: drop_node_def)
    have "fst ` set (fg_nodes (drop_node v g)) = fst ` set (fg_nodes g) - {v}" by (auto simp: drop_node_def delete_filter)
    then show ?thesis using D(4) [OF e(1)] e(2,3) by (simp add: edge_ok_def)
  qed
qed

lemma to_frontier_ok:
  assumes "focus_ok g" "\<forall>nd. (v, nd) \<in> set (fg_nodes g) \<longrightarrow> nd_pin nd = 0"
  shows "focus_ok (to_frontier v g)"
proof (rule focus_okI)
  note D = focus_okD [OF assms(1)]
  have names: "map fst (fg_nodes (to_frontier v g)) = map fst (fg_nodes g)" by (auto simp: to_frontier_def)
  show "distinct (map fst (fg_nodes (to_frontier v g)))" using D(1) unfolding names .
  show "distinct (map fst (fg_edges (to_frontier v g)))" using D(2) by (simp add: to_frontier_def)
  show "node_ok (fg_turn (to_frontier v g)) (n, nd)" if "(n, nd) \<in> set (fg_nodes (to_frontier v g))" for n nd
  proof -
    from that obtain nd0 where n: "(n, nd0) \<in> set (fg_nodes g)" "nd = (if n = v then nd0\<lparr>nd_frontier := True, nd_recency := 0\<rparr> else nd0)"
      by (auto simp: to_frontier_def)
    then show ?thesis using D(3) [OF n(1)] assms(2) by (auto simp: node_ok_def to_frontier_def)
  qed
  have "fst ` set (fg_nodes (to_frontier v g)) = fst ` set (fg_nodes g)" using names by (metis set_map)
  then show "edge_ok (fst ` set (fg_nodes (to_frontier v g))) e" if "e \<in> set (fg_edges (to_frontier v g))" for e
    using that D(4) by (simp add: to_frontier_def)
qed

lemma distinct_fst: "distinct (map fst xs) \<Longrightarrow> (a, b) \<in> set xs \<Longrightarrow> (a, c) \<in> set xs \<Longrightarrow> b = c"
  by (meson eq_key_imp_eq_value)

lemma evict_one_ok:
  assumes "focus_ok g" "unpinned g \<noteq> []"
  shows "focus_ok (evict_one g)"
proof -
  obtain nd where "(victim g, nd) \<in> set (fg_nodes g)" "nd_pin nd = 0" by (rule victim_live [OF assms(2)])
  then have "\<forall>nd. (victim g, nd) \<in> set (fg_nodes g) \<longrightarrow> nd_pin nd = 0"
    using distinct_fst [OF focus_okD(1) [OF assms(1)]] by blast
  then show ?thesis using drop_node_ok [OF assms(1)] to_frontier_ok [OF assms(1)] by (simp add: evict_one_def Let_def)
qed

text \<open>A pinned node is never the victim.\<close>

definition pinned_in :: "focus \<Rightarrow> string \<Rightarrow> nat \<Rightarrow> bool" where
  "pinned_in g n k = (\<exists>nd. (n, nd) \<in> set (fg_nodes g) \<and> nd_pin nd = k \<and> k \<noteq> 0 \<and> \<not> nd_frontier nd)"

lemma evict_one_pinned:
  assumes "focus_ok g" "unpinned g \<noteq> []" "pinned_in g n k"
  shows "pinned_in (evict_one g) n k"
proof -
  obtain nd where nd: "(n, nd) \<in> set (fg_nodes g)" "nd_pin nd = k" "k \<noteq> 0" "\<not> nd_frontier nd" using assms(3) by (auto simp: pinned_in_def)
  obtain vd where "(victim g, vd) \<in> set (fg_nodes g)" "nd_pin vd = 0" by (rule victim_live [OF assms(2)])
  then have "n \<noteq> victim g" using nd(1-3) distinct_fst [OF focus_okD(1) [OF assms(1)], of n nd] by metis
  then have "(n, nd) \<in> set (fg_nodes (evict_one g))"
    using nd(1) by (force simp: evict_one_def Let_def drop_node_def to_frontier_def delete_filter)
  then show ?thesis using nd unfolding pinned_in_def by blast
qed

lemma evict_loop_rule:
  assumes "evict_loop budget g = Some g'" "P g" "\<And>g. P g \<Longrightarrow> unpinned g \<noteq> [] \<Longrightarrow> P (evict_one g)"
  shows "P g' \<and> \<not> (budget < length (live_nodes g') \<and> unpinned g' \<noteq> [])"
proof -
  note L = assms(1) [unfolded evict_loop_def]
  have "P g'" by (rule while_option_rule [where P = P, OF _ L assms(2)]) (simp add: assms(3))
  then show ?thesis using while_option_stop [OF L] by blast
qed

lemma fold_drop_ok: "focus_ok g \<Longrightarrow> focus_ok (fold (\<lambda>(n, nd) g. drop_node n g) vs g)"
  by (induction vs arbitrary: g) (auto intro: drop_node_ok)

lemma fold_drop_nodes:
  "fg_nodes (fold (\<lambda>(n, nd) g. drop_node n g) vs g) = filter (\<lambda>p. fst p \<notin> fst ` set vs) (fg_nodes g)"
  by (induction vs arbitrary: g) (auto simp: drop_node_def delete_filter case_prod_beta intro: filter_cong)

lemma length_filter_mset: "length (filter P xs) = size (filter_mset P (mset xs))"
  by (metis mset_filter size_mset)

lemma evict_frontier_nodes:
  assumes "focus_ok g"
  shows "live_nodes (evict_frontier g) = live_nodes g" "length (frontier (evict_frontier g)) \<le> frontier_budget" "focus_ok (evict_frontier g)"
    "length (frontier g) \<le> frontier_budget \<Longrightarrow> evict_frontier g = g"
proof -
  let ?F = "sort_key (\<lambda>(n, nd). nd_last nd) (frontier g)"
  let ?vs = "take (length (frontier g) - frontier_budget) ?F"
  have ef: "evict_frontier g = (if length (frontier g) \<le> frontier_budget then g else fold (\<lambda>(n, nd) g. drop_node n g) ?vs g)"
    by (simp add: evict_frontier_def Let_def frontier_def)
  show "length (frontier g) \<le> frontier_budget \<Longrightarrow> evict_frontier g = g" by (simp add: ef)
  show "focus_ok (evict_frontier g)" unfolding ef using assms fold_drop_ok [OF assms] by (auto simp: case_prod_beta')
  note D = focus_okD [OF assms]
  have sub: "set ?vs \<subseteq> set (frontier g)" using set_take_subset by fastforce
  have front: "p \<in> set (frontier g)" if p: "p \<in> set (fg_nodes g)" "fst p \<in> fst ` set ?vs" for p
  proof -
    obtain q where q: "q \<in> set (frontier g)" "fst p = fst q" using p(2) sub by blast
    then have "(fst p, snd q) \<in> set (fg_nodes g)" by (simp add: frontier_def)
    moreover have "(fst p, snd p) \<in> set (fg_nodes g)" using p(1) by (metis prod.collapse)
    ultimately have "snd p = snd q" using distinct_fst [OF D(1)] by blast
    then have "p = q" using q(2) by (simp add: prod_eq_iff)
    then show ?thesis using q(1) by simp
  qed
  show "live_nodes (evict_frontier g) = live_nodes g"
  proof (cases "length (frontier g) \<le> frontier_budget")
    case False
    then have "live_nodes (evict_frontier g) = filter (\<lambda>p. fst p \<notin> fst ` set ?vs) (live_nodes g)"
      by (simp add: ef live_nodes_def fold_drop_nodes conj_commute case_prod_beta)
    also have "\<dots> = live_nodes g" unfolding filter_id_conv
    proof
      fix p assume "p \<in> set (live_nodes g)"
      then have "p \<in> set (fg_nodes g)" "p \<notin> set (frontier g)" by (auto simp: live_nodes_def frontier_def)
      then show "fst p \<notin> fst ` set ?vs" using front by blast
    qed
    finally show ?thesis .
  qed (simp add: ef)
  show "length (frontier (evict_frontier g)) \<le> frontier_budget"
  proof (cases "length (frontier g) \<le> frontier_budget")
    case False
    then have f: "frontier (evict_frontier g) = filter (\<lambda>p. fst p \<notin> fst ` set ?vs) (frontier g)"
      by (simp add: ef frontier_def fold_drop_nodes conj_commute case_prod_beta)
    have d: "distinct (map fst (frontier g))" using D(1) by (simp add: frontier_def distinct_map_filter)
    have "mset ?F = mset (frontier g)" by simp
    then have df: "distinct (map fst ?F)" using d by (metis mset_eq_imp_distinct_iff mset_map)
    have "length (filter (\<lambda>p. fst p \<notin> fst ` set ?vs) (frontier g)) = length (filter (\<lambda>p. fst p \<notin> fst ` set ?vs) ?F)"
      by (simp only: length_filter_mset mset_sort)
    also have "\<dots> = length (drop (length (frontier g) - frontier_budget) ?F)"
    proof -
      let ?ws = "drop (length (frontier g) - frontier_budget) ?F"
      have F: "?F = ?vs @ ?ws" by simp
      have "distinct (map fst ?vs @ map fst ?ws)" using df by (metis append_take_drop_id map_append)
      then have "fst p \<notin> fst ` set ?vs" if "p \<in> set ?ws" for p using that by auto
      then have "filter (\<lambda>p. fst p \<notin> fst ` set ?vs) ?ws = ?ws" by (simp add: filter_id_conv)
      moreover have "filter (\<lambda>p. fst p \<notin> fst ` set ?vs) ?vs = []" by (auto simp: filter_empty_conv)
      ultimately have "filter (\<lambda>p. fst p \<notin> fst ` set ?vs) (?vs @ ?ws) = ?ws" unfolding filter_append by simp
      then show ?thesis using F by metis
    qed
    also have "\<dots> = frontier_budget" using False by simp
    finally show ?thesis unfolding f by simp
  qed (simp add: ef)
qed

text \<open>The contract of an eviction.\<close>

lemma evict_ok:
  assumes "focus_ok g" "evict budget g = Some g'"
  shows "focus_ok g'" "length (live_nodes g') \<le> budget \<or> unpinned g' = []" "length (frontier g') \<le> frontier_budget"
    "pinned_in g n k \<Longrightarrow> pinned_in g' n k"
proof -
  obtain g1 where g1: "focus_ok g1" "length (live_nodes g1) \<le> budget \<or> unpinned g1 = []" "g' = evict_frontier g1"
    "\<And>n k. pinned_in g n k \<Longrightarrow> pinned_in g1 n k"
  proof (cases "length (live_nodes g) \<le> budget")
    case True
    then show thesis using assms that [of g] by (simp add: evict_def)
  next
    case False
    then obtain g1 where g1: "evict_loop budget g = Some g1" "g' = evict_frontier g1" using assms(2) by (auto simp: evict_def)
      have "focus_ok g1 \<and> (\<forall>n k. pinned_in g n k \<longrightarrow> pinned_in g1 n k)" "\<not> (budget < length (live_nodes g1) \<and> unpinned g1 \<noteq> [])"
      using evict_loop_rule [OF g1(1), where P = "\<lambda>h. focus_ok h \<and> (\<forall>n k. pinned_in g n k \<longrightarrow> pinned_in h n k)"]
        assms(1) evict_one_ok evict_one_pinned by blast+
    then show thesis using g1(2) that [of g1] by (meson not_le)
  qed
  note E = evict_frontier_nodes [OF g1(1)]
  show "focus_ok g'" "length (frontier g') \<le> frontier_budget" using E g1(3) by simp_all
  show "length (live_nodes g') \<le> budget \<or> unpinned g' = []" using g1(2,3) E(1) by (simp add: unpinned_def)
  have "pinned_in h n k \<longleftrightarrow> (\<exists>nd. (n, nd) \<in> set (live_nodes h) \<and> nd_pin nd = k \<and> k \<noteq> 0)" for h n k
    by (auto simp: pinned_in_def live_nodes_def)
  then show "pinned_in g n k \<Longrightarrow> pinned_in g' n k" using g1(3,4) E(1) by simp
qed

section \<open>A turn\<close>

lemma map_of_node: "focus_ok g \<Longrightarrow> map_of (fg_nodes g) n = Some nd \<longleftrightarrow> (n, nd) \<in> set (fg_nodes g)"
  using focus_okD(1) by (simp add: map_of_eq_Some_iff)

lemma new_turn_decay_ok: "focus_ok g \<Longrightarrow> focus_ok (new_turn_decay g)"
proof (rule focus_okI)
  assume ok: "focus_ok g"
  note D = focus_okD [OF ok]
  have names: "map fst (fg_nodes (new_turn_decay g)) = map fst (fg_nodes g)" by (auto simp: new_turn_decay_def)
  show "distinct (map fst (fg_nodes (new_turn_decay g)))" using D(1) unfolding names .
  show "distinct (map fst (fg_edges (new_turn_decay g)))" using D(2) by (simp add: new_turn_decay_def)
  show "node_ok (fg_turn (new_turn_decay g)) (n, nd)" if "(n, nd) \<in> set (fg_nodes (new_turn_decay g))" for n nd
  proof -
    from that obtain nd0 where n: "(n, nd0) \<in> set (fg_nodes g)"
      "nd = (if nd_frontier nd0 then nd0 else nd0\<lparr>nd_recency := nd_recency nd0 * decay\<rparr>)"
      by (auto simp: new_turn_decay_def)
    have "0 \<le> nd_recency nd0 * decay \<and> nd_recency nd0 * decay \<le> 1" if "0 \<le> nd_recency nd0" "nd_recency nd0 \<le> 1"
      using that mult_mono [of "nd_recency nd0" 1 decay 1] by (simp add: decay_def)
    then show ?thesis using D(3) [OF n(1)] n(2) by (auto simp: node_ok_def new_turn_decay_def)
  qed
  have "fst ` set (fg_nodes (new_turn_decay g)) = fst ` set (fg_nodes g)" using names by (metis set_map)
  then show "edge_ok (fst ` set (fg_nodes (new_turn_decay g))) e" if "e \<in> set (fg_edges (new_turn_decay g))" for e
    using that D(4) by (simp add: new_turn_decay_def)
qed

lemma set_update_fst: "fst ` set (AList.update k v xs) = insert k (fst ` set xs)"
  by (simp add: dom_map_of_conv_image_fst [symmetric])

lemma in_update: "(n, nd) \<in> set (AList.update k v xs) \<Longrightarrow> distinct (map fst xs) \<Longrightarrow> (n = k \<and> nd = v) \<or> (n \<noteq> k \<and> (n, nd) \<in> set xs)"
  using distinct_update [of xs k v] map_of_eq_Some_iff [of "AList.update k v xs" n nd] map_of_eq_Some_iff [of xs n nd]
  by (auto split: if_splits)

text \<open>Updating one node.\<close>

lemma update_node_ok:
  assumes "focus_ok g" "node_ok (fg_turn g) (n, nd)"
  shows "focus_ok (g\<lparr>fg_nodes := AList.update n nd (fg_nodes g)\<rparr>)" (is "focus_ok ?h")
proof (rule focus_okI)
  note D = focus_okD [OF assms(1)]
  show "distinct (map fst (fg_nodes ?h))" using D(1) by (simp add: distinct_update)
  show "distinct (map fst (fg_edges ?h))" using D(2) by simp
  show "node_ok (fg_turn ?h) (m, md)" if "(m, md) \<in> set (fg_nodes ?h)" for m md
    using in_update [OF that [simplified] D(1)] D(3) assms(2) by auto
  show "edge_ok (fst ` set (fg_nodes ?h)) e" if "e \<in> set (fg_edges ?h)" for e
    using that edge_ok_mono [OF D(4)] by (simp add: set_update_fst subset_insertI)
qed

lemma admit_one_ok:
  assumes "focus_ok g" "n \<noteq> []"
  shows "focus_ok (admit_one now (fg_turn g) n g)" "n \<in> fst ` set (fg_nodes (admit_one now (fg_turn g) n g))"
    "fg_turn (admit_one now t n g) = fg_turn g" "fst ` set (fg_nodes g) \<subseteq> fst ` set (fg_nodes (admit_one now t n g))"
    "pinned_in g m k \<Longrightarrow> pinned_in (admit_one now t n g) m k"
proof -
  show "fg_turn (admit_one now t n g) = fg_turn g" by (simp add: admit_one_def split: option.split)
  show "fst ` set (fg_nodes g) \<subseteq> fst ` set (fg_nodes (admit_one now t n g))"
    by (auto simp: admit_one_def set_update_fst split: option.split)
  show "n \<in> fst ` set (fg_nodes (admit_one now (fg_turn g) n g))" by (auto simp: admit_one_def set_update_fst split: option.split)
  show "focus_ok (admit_one now (fg_turn g) n g)"
  proof (cases "map_of (fg_nodes g) n")
    case None
    then show ?thesis using assms unfolding admit_one_def by (simp add: update_node_ok node_ok_def)
  next
    case (Some nd)
    then have "node_ok (fg_turn g) (n, nd)" using focus_okD(3) [OF assms(1)] map_of_node [OF assms(1)] by blast
    then show ?thesis using assms(1) Some unfolding admit_one_def by (simp add: update_node_ok node_ok_def)
  qed
  have at: "pinned_in h m k \<longleftrightarrow> (\<exists>nd. map_of (fg_nodes h) m = Some nd \<and> nd_pin nd = k \<and> k \<noteq> 0 \<and> \<not> nd_frontier nd)"
    if "distinct (map fst (fg_nodes h))" for h using that by (auto simp: pinned_in_def map_of_eq_Some_iff)
  have d: "distinct (map fst (fg_nodes g))" by (rule focus_okD(1) [OF assms(1)])
  have d': "distinct (map fst (fg_nodes (admit_one now t n g)))" using d by (auto simp: admit_one_def distinct_update split: option.split)
  show "pinned_in g m k \<Longrightarrow> pinned_in (admit_one now t n g) m k"
    unfolding at [OF d] at [OF d'] by (auto simp: admit_one_def split: option.splits)
qed

lemma admit_fold_ok:
  fixes now :: int
  assumes "focus_ok g" "\<forall>n\<in>set names. n \<noteq> []"
  defines "h \<equiv> fold (admit_one now (fg_turn g)) names g"
  shows "focus_ok h \<and> fg_turn h = fg_turn g \<and> set names \<union> fst ` set (fg_nodes g) \<subseteq> fst ` set (fg_nodes h) \<and>
    (\<forall>m k. pinned_in g m k \<longrightarrow> pinned_in h m k)"
  using assms(1,2) unfolding h_def
proof (induction names arbitrary: g)
  case (Cons n names)
  let ?g = "admit_one now (fg_turn g) n g"
  note A = admit_one_ok [OF Cons.prems(1), where now = now and n = n]
  have n: "n \<noteq> []" "\<forall>n\<in>set names. n \<noteq> []" using Cons.prems(2) by auto
  have t: "fg_turn ?g = fg_turn g" by (rule A(3) [OF n(1)])
  have "focus_ok ?g" by (rule A(1) [OF n(1)])
  note I = Cons.IH [OF this n(2), unfolded t]
  let ?h = "fold (admit_one now (fg_turn g)) names ?g"
  have "set (n # names) \<union> fst ` set (fg_nodes g) \<subseteq> fst ` set (fg_nodes ?h)"
  proof -
    have "n \<in> fst ` set (fg_nodes ?h)" "set names \<subseteq> fst ` set (fg_nodes ?h)" "fst ` set (fg_nodes g) \<subseteq> fst ` set (fg_nodes ?h)"
      using I A(2,4) [OF n(1)] by (meson Un_subset_iff subsetD subset_trans)+
    then show ?thesis by simp
  qed
  moreover have "\<forall>m k. pinned_in g m k \<longrightarrow> pinned_in ?h m k" using I A(5) [OF n(1)] by meson
  ultimately show ?case using I by simp
qed auto

lemma bump_edge_ok:
  assumes "focus_ok g" "fst ab \<in> fst ` set (fg_nodes g)" "snd ab \<in> fst ` set (fg_nodes g)"
  shows "focus_ok (bump_edge ab g)"
proof (rule focus_okI)
  note D = focus_okD [OF assms(1)]
  let ?k = "pair_key (fst ab) (snd ab)"
  show "distinct (map fst (fg_nodes (bump_edge ab g)))" using D(1) by (simp add: bump_edge_def Let_def)
  show "distinct (map fst (fg_edges (bump_edge ab g)))" using D(2) by (simp add: bump_edge_def Let_def distinct_update)
  show "node_ok (fg_turn (bump_edge ab g)) (n, nd)" if "(n, nd) \<in> set (fg_nodes (bump_edge ab g))" for n nd
    using that D(3) by (simp add: bump_edge_def Let_def)
  show "edge_ok (fst ` set (fg_nodes (bump_edge ab g))) e" if "e \<in> set (fg_edges (bump_edge ab g))" for e
  proof -
    obtain k w where e: "e = (k, w)" by (cases e)
    from that have "(k, w) \<in> set (AList.update ?k ((case map_of (fg_edges g) ?k of None \<Rightarrow> 0 | Some w \<Rightarrow> w) + 1) (fg_edges g))"
      by (simp add: bump_edge_def Let_def e)
    from in_update [OF this D(2)] show ?thesis
    proof (elim disjE conjE)
      assume k: "k = ?k" "w = (case map_of (fg_edges g) ?k of None \<Rightarrow> 0 | Some w \<Rightarrow> w) + 1"
      have "0 \<le> (case map_of (fg_edges g) ?k of None \<Rightarrow> 0 | Some w \<Rightarrow> w)"
      proof (cases "map_of (fg_edges g) ?k")
        case (Some x)
        then have "1 \<le> x" using D(4) [OF map_of_SomeD [OF Some]] by (simp add: edge_ok_def)
        then show ?thesis using Some by simp
      qed simp
      then show ?thesis using assms(2,3) k by (auto simp: e edge_ok_def pair_key_def bump_edge_def Let_def)
    next
      assume "(k, w) \<in> set (fg_edges g)"
      then show ?thesis using D(4) by (simp add: e bump_edge_def Let_def)
    qed
  qed
qed

lemma set_all_pairs: "p \<in> set (all_pairs xs) \<Longrightarrow> fst p \<in> set xs \<and> snd p \<in> set xs"
  by (induction xs) auto

lemma bump_nodes [simp]: "fg_nodes (bump_edge ab g) = fg_nodes g" "fg_turn (bump_edge ab g) = fg_turn g"
  by (simp_all add: bump_edge_def Let_def)

lemma bump_fold_ok:
  assumes "focus_ok g" "\<forall>p\<in>set ps. fst p \<in> fst ` set (fg_nodes g) \<and> snd p \<in> fst ` set (fg_nodes g)"
  shows "focus_ok (fold bump_edge ps g) \<and> fg_nodes (fold bump_edge ps g) = fg_nodes g"
  using assms
proof (induction ps arbitrary: g)
  case (Cons p ps)
  then have "focus_ok (bump_edge p g)" by (intro bump_edge_ok) auto
  from Cons.IH [OF this] Cons.prems(2) show ?case by simp
qed simp

text \<open>What a turn does to a well-formed graph.\<close>

lemma apply_turn_ok:
  assumes "focus_ok g" "apply_turn budget now refs nt g = Some g'"
  shows "focus_ok g'" "length (live_nodes g') \<le> budget \<or> unpinned g' = []" "length (frontier g') \<le> frontier_budget"
    "pinned_in g n k \<Longrightarrow> pinned_in g' n k"
proof -
  let ?g1 = "if nt then new_turn_decay g else g"
  let ?names = "filter (\<lambda>n. n \<noteq> []) (take max_admit_per_turn refs)"
  let ?g2 = "fold (admit_one now (fg_turn ?g1)) ?names ?g1"
  let ?g3 = "fold bump_edge (all_pairs ?names) ?g2"
  have ok1: "focus_ok ?g1" using assms(1) new_turn_decay_ok by simp
  have A: "focus_ok ?g2" "set ?names \<subseteq> fst ` set (fg_nodes ?g2)" "\<forall>m k. pinned_in ?g1 m k \<longrightarrow> pinned_in ?g2 m k"
    using admit_fold_ok [OF ok1, of ?names now] by auto
  have "\<forall>p\<in>set (all_pairs ?names). fst p \<in> fst ` set (fg_nodes ?g2) \<and> snd p \<in> fst ` set (fg_nodes ?g2)"
    using A(2) set_all_pairs by blast
  note B = bump_fold_ok [OF A(1) this]
  have ev: "evict budget ?g3 = Some g'" using assms(2) by (simp add: apply_turn_def admit_def Let_def)
  note E = evict_ok [OF B [THEN conjunct1] ev]
  show "focus_ok g'" "length (live_nodes g') \<le> budget \<or> unpinned g' = []" "length (frontier g') \<le> frontier_budget" using E(1-3) by auto
  have "pinned_in ?g1 n k" if "pinned_in g n k"
    using that by (force simp: pinned_in_def new_turn_decay_def)
  then show "pinned_in g n k \<Longrightarrow> pinned_in g' n k" using A(3) B E(4) by (simp add: pinned_in_def)
qed

lemma pin_node_ok: "focus_ok g \<Longrightarrow> focus_ok (snd (pin_node n v g))"
proof (cases "map_of (fg_nodes g) n")
  case (Some nd)
  assume ok: "focus_ok g"
  have "node_ok (fg_turn g) (n, nd)" using focus_okD(3) [OF ok] map_of_node [OF ok] Some by blast
  then have "node_ok (fg_turn g) (n, nd\<lparr>nd_pin := if v then 1 else 0, nd_frontier := if v then False else nd_frontier nd\<rparr>)"
    by (simp add: node_ok_def)
  from update_node_ok [OF ok this] show ?thesis using Some by (simp only: pin_node_def option.case snd_conv)
qed (simp add: pin_node_def)

end
