(* ===== verification/FocusRuns.thy ===== *)
theory FocusRuns
  imports FocusFacts
begin

text \<open>
  The operations on a partition of the short-term memory: they return, they keep its invariant and its
  bounds, pins survive them, stashes and the replay of the log.
\<close>

section \<open>Every operation returns\<close>

lemma ingest_returns: "\<exists>p'. ingest budget now refs nt p = Some p'"
  using apply_turn_returns [of budget now refs nt "pt_graph p"] by (auto simp: ingest_def)

lemma record_returns: "\<exists>r. record_event budget sha now kind terse refs detail ab psha p = Some r"
  using ingest_returns by (simp add: record_event_def Let_def)

lemma replay_returns: "\<exists>r. replay_events budget now da dj evs acc = Some r"
proof (induction evs arbitrary: acc)
  case (Cons ev evs)
  obtain de dr g where acc: "acc = (de, dr, g)" by (cases acc)
  let ?refs = "if dj then filter (\<lambda>r. \<not> is_junk_ref r) (se_refs ev) else se_refs ev"
  obtain g' where "apply_turn budget now ?refs (se_kind ev = ''input'') g = Some g'" using apply_turn_returns by blast
  then show ?case using Cons.IH
    by (cases "da \<and> se_kind ev = ''input'' \<and> is_ambient_text (se_terse ev)") (auto simp: acc Let_def)
qed (metis replay_events.simps(1))

lemma sweep_returns: "\<exists>r. sweep_stale budget sha now stale p = Some r"
proof (induction stale arbitrary: p)
  case (Cons s stale)
  obtain k v where s: "s = (k, v)" by (cases s)
  obtain ev p1 where "record_event budget sha now ''tool'' (if pk_terse v = [] then ''tool'' else pk_terse v)
           (Some (pk_refs v)) (pk_detail v) True None p = Some (ev, p1)" using record_returns by (metis prod.collapse)
  then show ?case using Cons.IH [of p1] by (auto simp: s)
qed simp

text \<open>C27. No operation of the short-term memory loops: recording an event, rebuilding the graph, restoring a
  stash or a detour and sweeping abandoned calls all return, whatever the graph, the budget and
  the pins; in particular the eviction loop ends when every node over the budget is pinned.\<close>

theorem stm_returns:
  "(\<exists>g'. evict budget g = Some g') \<and> (\<exists>r. record_event budget sha now kind terse refs detail ab psha p = Some r) \<and>
   (\<exists>r. rebuild_focus budget now da dj dry p = Some r) \<and> task_pop budget now sel p \<noteq> Inr None \<and>
   focus_return budget sha now arrow sel p \<noteq> Inr None \<and> (\<exists>r. inflight_sweep budget sha now age p = Some r)"
proof (intro conjI)
  show "\<exists>g'. evict budget g = Some g'" by (rule evict_returns)
  show "\<exists>r. record_event budget sha now kind terse refs detail ab psha p = Some r" by (rule record_returns)
  show "\<exists>r. rebuild_focus budget now da dj dry p = Some r"
    using replay_returns [of budget now da dj "pt_ring p" "(0, 0, empty_focus)"] by (simp add: rebuild_focus_def)
  have ing: "ingest budget now refs nt p \<noteq> None" for refs nt p using ingest_returns by (metis option.simps(3))
  then show "task_pop budget now sel p \<noteq> Inr None"
    by (auto simp: task_pop_def Let_def bind_r_def split: sum.splits option.splits)
  have rc: "record_event budget sha now kind terse refs detail ab psha p \<noteq> None" for kind terse refs detail ab psha p
    using record_returns by (metis option.simps(3))
  show "focus_return budget sha now arrow sel p \<noteq> Inr None"
    using ing rc by (auto simp: focus_return_def Let_def bind_r_def bind_eq_None_conv split: sum.splits option.splits)
  show "\<exists>r. inflight_sweep budget sha now age p = Some r"
    using sweep_returns by (simp add: inflight_sweep_def Let_def)
qed

section \<open>The invariant of a partition\<close>

definition stm_event_ok :: "stm_event \<Rightarrow> bool" where
  "stm_event_ok ev =
     (se_kind ev \<in> set event_kinds \<and> length (se_terse ev) \<le> 500 \<and>
      (case se_detail ev of None \<Rightarrow> True | Some d \<Rightarrow> d \<noteq> [] \<and> length d \<le> detail_max) \<and>
      (se_kind ev = ''input'' \<longrightarrow> se_sha ev \<noteq> None))"

definition part_ok :: "part \<Rightarrow> bool" where
  "part_ok p =
     (focus_ok (pt_graph p) \<and> length (frontier (pt_graph p)) \<le> frontier_budget \<and> list_all stm_event_ok (pt_ring p) \<and>
      distinct (map fst (pt_inflight p)) \<and> length (pt_inflight p) \<le> Suc inflight_budget)"

lemma make_event_ok: "stm_event_ok (make_event sha now kind terse refs detail ab psha p)"
proof -
  let ?ev = "make_event sha now kind terse refs detail ab psha p"
  have "''tool'' \<in> set event_kinds" by (simp add: event_kinds_def)
  then have "se_kind ?ev \<in> set event_kinds" by (simp add: make_event_def Let_def)
  moreover have "length (se_terse ?ev) \<le> 500" by (simp add: make_event_def Let_def)
  moreover have "case se_detail ?ev of None \<Rightarrow> True | Some d \<Rightarrow> d \<noteq> [] \<and> length d \<le> detail_max"
    by (simp add: make_event_def Let_def detail_max_def split: option.split list.split)
  moreover have "se_kind ?ev = ''input'' \<longrightarrow> se_sha ?ev \<noteq> None" by (simp add: make_event_def Let_def split: option.split)
  ultimately show ?thesis unfolding stm_event_ok_def by blast
qed

lemma make_event_sel [simp]:
  "se_refs (make_event sha now kind terse refs detail ab psha p) = refs"
  "se_kind (make_event sha now kind terse refs detail ab psha p) = ''input'' \<longleftrightarrow> kind = ''input''"
proof -
  have "''input'' \<in> set event_kinds" by (simp add: event_kinds_def)
  then show "se_kind (make_event sha now kind terse refs detail ab psha p) = ''input'' \<longleftrightarrow> kind = ''input''"
    by (auto simp: make_event_def Let_def)
qed (simp add: make_event_def Let_def)

text \<open>What ingesting references does to a partition.\<close>

lemma ingest_ok:
  assumes "part_ok p" "ingest budget now refs nt p = Some p'"
  shows "part_ok p'" "pinned_in (pt_graph p) n k \<Longrightarrow> pinned_in (pt_graph p') n k"
    "pt_ring p' = pt_ring p" "pt_tasks p' = pt_tasks p" "pt_marks p' = pt_marks p" "pt_inflight p' = pt_inflight p"
    "refs \<noteq> [] \<or> nt \<Longrightarrow> length (live_nodes (pt_graph p')) \<le> budget \<or> unpinned (pt_graph p') = []"
proof -
  have ok: "focus_ok (pt_graph p)" using assms(1) by (simp add: part_ok_def)
  have "p' = p \<and> refs = [] \<and> \<not> nt \<or>
    (\<exists>g. p' = p\<lparr>pt_graph := g\<rparr> \<and> apply_turn budget now refs nt (pt_graph p) = Some g)"
    using assms(2) by (auto simp: ingest_def split: if_splits)
  then consider "p' = p" "refs = []" "\<not> nt" | g where "p' = p\<lparr>pt_graph := g\<rparr>" "apply_turn budget now refs nt (pt_graph p) = Some g" by blast
  then have "part_ok p' \<and> (pinned_in (pt_graph p) n k \<longrightarrow> pinned_in (pt_graph p') n k) \<and>
    pt_ring p' = pt_ring p \<and> pt_tasks p' = pt_tasks p \<and> pt_marks p' = pt_marks p \<and> pt_inflight p' = pt_inflight p \<and>
    (refs \<noteq> [] \<or> nt \<longrightarrow> length (live_nodes (pt_graph p')) \<le> budget \<or> unpinned (pt_graph p') = [])"
  proof cases
    case 1
    then show ?thesis using assms(1) by simp
  next
    case 2
    note T = apply_turn_ok [OF ok 2(2)]
    show ?thesis using T assms(1) 2(1) by (simp add: part_ok_def)
  qed
  then show "part_ok p'" "pinned_in (pt_graph p) n k \<Longrightarrow> pinned_in (pt_graph p') n k"
    "pt_ring p' = pt_ring p" "pt_tasks p' = pt_tasks p" "pt_marks p' = pt_marks p" "pt_inflight p' = pt_inflight p"
    "refs \<noteq> [] \<or> nt \<Longrightarrow> length (live_nodes (pt_graph p')) \<le> budget \<or> unpinned (pt_graph p') = []" by blast+
qed

lemma record_cases:
  assumes "record_event budget sha now kind terse refs detail ab psha p = Some (ev, p')"
  defines "rl \<equiv> (case refs of Some r \<Rightarrow> r | None \<Rightarrow> extract_refs terse)"
  shows "ev = make_event sha now kind terse rl detail ab psha p"
    "ingest budget now rl (kind = ''input'') (p\<lparr>pt_ring := pt_ring p @ [ev]\<rparr>) = Some p'"
  using assms by (auto simp: record_event_def Let_def)

lemma record_ok:
  assumes "part_ok p" "record_event budget sha now kind terse refs detail ab psha p = Some (ev, p')"
  shows "part_ok p'" "pinned_in (pt_graph p) n k \<Longrightarrow> pinned_in (pt_graph p') n k"
    "pt_ring p' = pt_ring p @ [ev]" "pt_tasks p' = pt_tasks p" "pt_marks p' = pt_marks p" "pt_inflight p' = pt_inflight p"
    "se_refs ev \<noteq> [] \<or> se_kind ev = ''input'' \<Longrightarrow> length (live_nodes (pt_graph p')) \<le> budget \<or> unpinned (pt_graph p') = []"
proof -
  note R = record_cases [OF assms(2)]
  have "part_ok (p\<lparr>pt_ring := pt_ring p @ [ev]\<rparr>)" using assms(1) R(1) make_event_ok by (simp add: part_ok_def)
  note I = ingest_ok [OF this R(2)]
  show "part_ok p'" "pt_ring p' = pt_ring p @ [ev]" "pt_tasks p' = pt_tasks p" "pt_marks p' = pt_marks p"
    "pt_inflight p' = pt_inflight p" using I(1,3-6) by simp_all
  show "pinned_in (pt_graph p) n k \<Longrightarrow> pinned_in (pt_graph p') n k" using I(2) by simp
  show "se_refs ev \<noteq> [] \<or> se_kind ev = ''input'' \<Longrightarrow> length (live_nodes (pt_graph p')) \<le> budget \<or> unpinned (pt_graph p') = []"
    using I(7) R(1) by simp
qed

lemma empty_focus_ok: "focus_ok empty_focus"
  by (simp add: focus_ok_def empty_focus_def)

lemma empty_part_ok: "part_ok empty_part"
  by (simp add: part_ok_def empty_part_def empty_focus_ok) (simp add: frontier_def empty_focus_def)

lemma replay_ok:
  assumes "replay_events budget now da dj evs (de, dr, g) = Some (de', dr', g')" "focus_ok g" "length (frontier g) \<le> frontier_budget"
  shows "focus_ok g' \<and> length (frontier g') \<le> frontier_budget"
  using assms
proof (induction evs arbitrary: de dr g)
  case (Cons ev evs)
  let ?refs = "if dj then filter (\<lambda>r. \<not> is_junk_ref r) (se_refs ev) else se_refs ev"
  show ?case
  proof (cases "da \<and> se_kind ev = ''input'' \<and> is_ambient_text (se_terse ev)")
    case True
    then show ?thesis using Cons by simp
  next
    case False
    obtain g1 where g1: "apply_turn budget now ?refs (se_kind ev = ''input'') g = Some g1" using apply_turn_returns by blast
    have "replay_events budget now da dj evs (de, dr + (length (se_refs ev) - length ?refs), g1) = Some (de', dr', g')"
      using Cons.prems(1) False g1 by (simp add: Let_def split: if_splits)
    then show ?thesis using Cons.IH apply_turn_ok(1,3) [OF Cons.prems(2) g1] by blast
  qed
qed simp

lemma length_fold_delete: "length (fold AList.delete ks d) \<le> length d"
proof (induction ks arbitrary: d)
  case (Cons k ks)
  have "length (fold AList.delete ks (AList.delete k d)) \<le> length (AList.delete k d)" by (rule Cons.IH)
  also have "\<dots> \<le> length d" by (simp add: delete_filter)
  finally show ?case by simp
qed simp

lemma distinct_fold_delete: "distinct (map fst d) \<Longrightarrow> distinct (map fst (fold AList.delete ks d))"
  by (induction ks arbitrary: d) (auto simp: delete_filter distinct_map_filter)

lemma length_update_le: "length (AList.update k v d) \<le> Suc (length d)"
  by (induction d) auto

lemma fold_delete_filter: "fold AList.delete ks d = filter (\<lambda>p. fst p \<notin> set ks) d"
  by (induction ks arbitrary: d) (auto simp: delete_filter intro: filter_cong)

lemma length_delete_keys:
  assumes "distinct (map fst d)" "distinct ks" "set ks \<subseteq> fst ` set d"
  shows "length (fold AList.delete ks d) = length d - length ks"
proof -
  let ?in = "filter (\<lambda>p. fst p \<in> set ks) d"
  have "fst ` set ?in = set ks" using assms(3) by auto
  moreover have "length ?in = card (fst ` set ?in)" using assms(1) by (metis distinct_card distinct_map_filter length_map set_map)
  ultimately have "length ?in = length ks" using distinct_card [OF assms(2)] by simp
  then show ?thesis using sum_length_filter_compl [of "\<lambda>p. fst p \<in> set ks" d] by (simp add: fold_delete_filter)
qed

definition oldest_keys :: "(string \<times> parked) list \<Rightarrow> string list" where
  "oldest_keys d = take (length d div 2) (map fst (sort_key (\<lambda>(k, v). pk_t v) d))"

lemma inflight_begin_eq:
  "pt_inflight (snd (inflight_begin now key terse refs detail p)) =
     AList.update key (fst (inflight_begin now key terse refs detail p))
       (if inflight_budget < length (pt_inflight p) then fold AList.delete (oldest_keys (pt_inflight p)) (pt_inflight p) else pt_inflight p)"
  by (simp add: inflight_begin_def Let_def oldest_keys_def)

lemma inflight_begin_bound:
  assumes "distinct (map fst (pt_inflight p))" "length (pt_inflight p) \<le> Suc inflight_budget"
  shows "length (pt_inflight (snd (inflight_begin now key terse refs detail p))) \<le> Suc inflight_budget"
proof -
  let ?d = "pt_inflight p"
  have "mset (map fst (sort_key (\<lambda>(k, v). pk_t v) ?d)) = mset (map fst ?d)" by simp
  then have "distinct (map fst (sort_key (\<lambda>(k, v). pk_t v) ?d))" using assms(1) by (metis mset_eq_imp_distinct_iff)
  then have ks: "distinct (oldest_keys ?d)" unfolding oldest_keys_def by (rule distinct_take)
  have "set (oldest_keys ?d) \<subseteq> set (map fst (sort_key (\<lambda>(k, v). pk_t v) ?d))" unfolding oldest_keys_def by (rule set_take_subset)
  then have "set (oldest_keys ?d) \<subseteq> fst ` set ?d" by simp
  from length_delete_keys [OF assms(1) ks this]
  have "length (fold AList.delete (oldest_keys ?d) ?d) = length ?d - length ?d div 2" by (simp add: oldest_keys_def)
  then have "length (fold AList.delete (oldest_keys ?d) ?d) \<le> inflight_budget"
    using assms(2) by (simp add: inflight_budget_def)
  then have l: "length (if inflight_budget < length ?d then fold AList.delete (oldest_keys ?d) ?d else ?d) \<le> inflight_budget" by simp
  show ?thesis unfolding inflight_begin_eq by (rule order_trans [OF length_update_le]) (use l in simp)
qed

section \<open>Runs\<close>

text \<open>One operation on a partition.\<close>

inductive stm_step :: "nat \<Rightarrow> part \<Rightarrow> part \<Rightarrow> bool" for budget where
  Record: "record_event budget sha now kind terse refs detail ab psha p = Some (ev, p') \<Longrightarrow> stm_step budget p p'"
| Pin: "pin_node n v (pt_graph p) = (found, g) \<Longrightarrow> stm_step budget p (p\<lparr>pt_graph := g\<rparr>)"
| Push: "task_push now desc p = (depth, p') \<Longrightarrow> stm_step budget p p'"
| Pop: "task_pop budget now sel p = Inr (Some (r, p')) \<Longrightarrow> stm_step budget p p'"
| Swap: "task_swap p = (r, p') \<Longrightarrow> stm_step budget p p'"
| Mark: "focus_mark budget sha now arrow label p = Some (m, p') \<Longrightarrow> stm_step budget p p'"
| Return: "focus_return budget sha now arrow sel p = Inr (Some (r, p')) \<Longrightarrow> stm_step budget p p'"
| Begin: "inflight_begin now key terse refs detail p = (r, p') \<Longrightarrow> stm_step budget p p'"
| End: "inflight_end key p = (r, p') \<Longrightarrow> stm_step budget p p'"
| Sweep: "inflight_sweep budget sha now age p = Some (evs, p') \<Longrightarrow> stm_step budget p p'"
| Rebuild: "rebuild_focus budget now da dj dry p = Some (c, p') \<Longrightarrow> stm_step budget p p'"
| Clear: "stm_step budget p (clear_part p)"

abbreviation stm_reach :: "nat \<Rightarrow> part \<Rightarrow> bool" where
  "stm_reach budget p \<equiv> (stm_step budget)\<^sup>*\<^sup>* empty_part p"

lemma sweep_ok:
  assumes "sweep_stale budget sha now stale p = Some (evs, p')" "part_ok p"
  shows "part_ok p' \<and> pt_inflight p' = pt_inflight p \<and> pt_ring p' = pt_ring p @ evs \<and>
    (\<forall>n k. pinned_in (pt_graph p) n k \<longrightarrow> pinned_in (pt_graph p') n k)"
  using assms
proof (induction stale arbitrary: p evs)
  case (Cons s stale)
  obtain k v where s: "s = (k, v)" by (cases s)
  from Cons.prems(1) obtain ev p1 evs1 where
    r: "record_event budget sha now ''tool'' (if pk_terse v = [] then ''tool'' else pk_terse v)
           (Some (pk_refs v)) (pk_detail v) True None p = Some (ev, p1)"
    and t: "sweep_stale budget sha now stale p1 = Some (evs1, p')" "evs = ev # evs1"
    by (auto simp: s bind_eq_Some_conv)
  note R = record_ok [OF Cons.prems(2) r]
  show ?case using Cons.IH [OF t(1) R(1)] R(2,3,6) t(2) by simp
qed simp

lemma pop_cases:
  assumes "task_pop budget now sel p = Inr (Some (r, p'))"
  obtains "p' = p" | i where "ingest budget now (sh_focus (pt_tasks p ! i)) False (p\<lparr>pt_tasks := remove_at i (pt_tasks p)\<rparr>) = Some p'"
  using assms by (auto simp: task_pop_def Let_def bind_r_def split: if_splits sum.splits option.splits)

lemma mark_cases:
  assumes "focus_mark budget sha now arrow label p = Some (m, p')"
  obtains terse q ev where "record_event budget sha now ''mark'' terse (Some []) None False None (p\<lparr>pt_marks := q\<rparr>) = Some (ev, p')"
proof -
  define m0 where "m0 = \<lparr>dt_label = (if label = [] then ''detour-'' @ nat_text (length (pt_marks p) + 1) else label), dt_ts = now,
                dt_line = event_count p + 1, dt_focus = vw_focus (focus_view 12 False (pt_graph p))\<rparr>"
  have "map_option (\<lambda>(_, p'). (m0, p')) (record_event budget sha now ''mark'' (arrow @ '' detour: '' @ dt_label m0) (Some []) None False None
      (p\<lparr>pt_marks := pt_marks p @ [m0]\<rparr>)) = Some (m, p')" using assms unfolding focus_mark_def Let_def m0_def .
  then obtain z where "record_event budget sha now ''mark'' (arrow @ '' detour: '' @ dt_label m0) (Some []) None False None
      (p\<lparr>pt_marks := pt_marks p @ [m0]\<rparr>) = Some z" "snd z = p'" by (auto simp: case_prod_beta)
  then have "record_event budget sha now ''mark'' (arrow @ '' detour: '' @ dt_label m0) (Some []) None False None
      (p\<lparr>pt_marks := pt_marks p @ [m0]\<rparr>) = Some (fst z, p')" by auto
  then show thesis by (rule that)
qed

lemma return_cases:
  assumes "focus_return budget sha now arrow sel p = Inr (Some (r, p'))"
  obtains "p' = p" | i p1 ev where
    "ingest budget now (dt_focus (pt_marks p ! i)) False (p\<lparr>pt_marks := remove_at i (pt_marks p)\<rparr>) = Some p1"
    "record_event budget sha now ''mark'' (arrow @ '' return: '' @ dt_label (pt_marks p ! i))
       (Some (take 6 (dt_focus (pt_marks p ! i)))) None False None p1 = Some (ev, p')"
  using assms by (auto simp: focus_return_def Let_def bind_r_def bind_eq_Some_conv split: if_splits sum.splits option.splits)

lemma frontier_pin: "length (frontier (snd (pin_node n v g))) \<le> length (frontier g)"
proof (cases "map_of (fg_nodes g) n")
  case (Some nd)
  have "length (filter (\<lambda>(n, nd). nd_frontier nd) (AList.update n nd' xs)) \<le> length (filter (\<lambda>(n, nd). nd_frontier nd) xs)"
    if "map_of xs n = Some nd" "nd_frontier nd' \<longrightarrow> nd_frontier nd" for xs :: "(string \<times> focus_node) list" and nd'
    using that by (induction xs) (auto split: if_splits)
  then show ?thesis using Some by (simp add: pin_node_def frontier_def)
qed (simp add: pin_node_def)

lemma stm_step_ok: "stm_step budget p p' \<Longrightarrow> part_ok p \<Longrightarrow> part_ok p'"
proof (induction rule: stm_step.induct)
  case (Record sha now kind terse refs detail ab psha p ev p')
  then show ?case using record_ok(1) by blast
next
  case (Pin n v p found g)
  have "g = snd (pin_node n v (pt_graph p))" using Pin(1) by simp
  then show ?case using Pin(2) pin_node_ok [of "pt_graph p" n v] frontier_pin [of n v "pt_graph p"] by (simp add: part_ok_def)
next
  case (Push now desc p depth p')
  then show ?case by (auto simp: task_push_def Let_def part_ok_def)
next
  case (Pop now sel p r p')
  show ?case
  proof (rule pop_cases [OF Pop(1)])
    fix i assume "ingest budget now (sh_focus (pt_tasks p ! i)) False (p\<lparr>pt_tasks := remove_at i (pt_tasks p)\<rparr>) = Some p'"
    moreover have "part_ok (p\<lparr>pt_tasks := remove_at i (pt_tasks p)\<rparr>)" using Pop(2) by (simp add: part_ok_def)
    ultimately show ?thesis using ingest_ok(1) by blast
  qed (use Pop(2) in simp)
next
  case (Swap p r p')
  then show ?case by (auto simp: task_swap_def Let_def part_ok_def split: if_splits)
next
  case (Mark sha now arrow label p m p')
  have "part_ok (p\<lparr>pt_marks := q\<rparr>)" for q using Mark(2) by (simp add: part_ok_def)
  then show ?case using mark_cases [OF Mark(1)] record_ok(1) by metis
next
  case (Return sha now arrow sel p r p')
  show ?case
  proof (rule return_cases [OF Return(1)])
    fix i p1 ev
    assume i: "ingest budget now (dt_focus (pt_marks p ! i)) False (p\<lparr>pt_marks := remove_at i (pt_marks p)\<rparr>) = Some p1"
      and r: "record_event budget sha now ''mark'' (arrow @ '' return: '' @ dt_label (pt_marks p ! i))
         (Some (take 6 (dt_focus (pt_marks p ! i)))) None False None p1 = Some (ev, p')"
    have "part_ok (p\<lparr>pt_marks := remove_at i (pt_marks p)\<rparr>)" using Return(2) by (simp add: part_ok_def)
    from record_ok(1) [OF ingest_ok(1) [OF this i] r] show ?thesis .
  qed (use Return(2) in simp)
next
  case (Begin now key terse refs detail p r p')
  have p': "p' = snd (inflight_begin now key terse refs detail p)" using Begin(1) by simp
  have "distinct (map fst (pt_inflight p'))" using Begin(2)
    unfolding p' inflight_begin_eq by (intro distinct_update) (simp add: part_ok_def distinct_fold_delete)
  moreover have "length (pt_inflight p') \<le> Suc inflight_budget"
    using inflight_begin_bound Begin(2) by (simp add: p' part_ok_def)
  ultimately show ?case using Begin(2) by (simp add: p' inflight_begin_def Let_def part_ok_def)
next
  case (End key p r p')
  then show ?case by (auto simp: inflight_end_def part_ok_def delete_filter distinct_map_filter intro: order_trans [OF length_filter_le])
next
  case (Sweep sha now age p evs p')
  let ?stale = "filter (\<lambda>(k, v). age < now - pk_t v) (pt_inflight p)"
  show ?case
  proof (cases "?stale = []")
    case True
    then show ?thesis using Sweep by (simp add: inflight_sweep_def Let_def)
  next
    case False
    then obtain p1 where s: "sweep_stale budget sha now ?stale p = Some (evs, p1)"
      "p' = p1\<lparr>pt_inflight := fold AList.delete (map fst ?stale) (pt_inflight p)\<rparr>"
      using Sweep(1) by (auto simp: inflight_sweep_def Let_def)
    then show ?thesis using sweep_ok [OF s(1) Sweep(2)] Sweep(2)
      by (auto simp: part_ok_def distinct_fold_delete intro: order_trans [OF length_fold_delete])
  qed
next
  case (Rebuild now da dj dry p c p')
  then obtain de dr g where r: "replay_events budget now da dj (pt_ring p) (0, 0, empty_focus) = Some (de, dr, g)"
    "p' = (if dry then p else p\<lparr>pt_graph := g\<rparr>)" by (auto simp: rebuild_focus_def)
  have "length (frontier empty_focus) \<le> frontier_budget" by (simp add: frontier_def empty_focus_def)
  from replay_ok [OF r(1) empty_focus_ok this] show ?case using Rebuild(2) r(2) by (simp add: part_ok_def)
next
  case (Clear p)
  then show ?case using empty_part_ok by (simp add: clear_part_def part_ok_def empty_part_def)
qed

lemma stm_reach_ok: "stm_reach budget p \<Longrightarrow> part_ok p"
  by (induction rule: rtranclp_induct) (auto intro: empty_part_ok stm_step_ok)

section \<open>Bounds and pins\<close>

text \<open>C15. The working set stays bounded however long the session runs: from every reachable partition,
  recording an event leaves at most 100 frontier stubs and, when it had references or started a
  turn, no more live nodes than the budget or than there are pinned ones; edges join nodes of the
  graph, recencies stay between 0 and 1, and at most 65 calls are parked.\<close>

theorem focus_bounded:
  assumes "stm_reach budget p" "record_event budget sha now kind terse refs detail ab psha p = Some (ev, p')"
  shows "length (frontier (pt_graph p')) \<le> 100 \<and>
    (se_refs ev \<noteq> [] \<or> se_kind ev = ''input'' \<longrightarrow>
       length (live_nodes (pt_graph p')) \<le> max budget (length (filter (\<lambda>(n, nd). nd_pin nd \<noteq> 0) (live_nodes (pt_graph p'))))) \<and>
    (\<forall>((a, b), w)\<in>set (fg_edges (pt_graph p')). {a, b} \<subseteq> fst ` set (fg_nodes (pt_graph p')) \<and> 1 \<le> w) \<and>
    (\<forall>(n, nd)\<in>set (fg_nodes (pt_graph p')). 0 \<le> nd_recency nd \<and> nd_recency nd \<le> 1 \<and> nd_last nd \<le> fg_turn (pt_graph p')) \<and>
    length (pt_inflight p') \<le> 65"
proof -
  have ok: "part_ok p" by (rule stm_reach_ok [OF assms(1)])
  note R = record_ok [OF ok assms(2)]
  have fb: "frontier_budget = 100" "inflight_budget = 64" by (simp_all add: frontier_budget_def default_node_budget_def inflight_budget_def)
  have g: "focus_ok (pt_graph p')" "length (frontier (pt_graph p')) \<le> 100" "length (pt_inflight p') \<le> 65"
    using R(1) by (simp_all add: part_ok_def fb)
  note D = focus_okD [OF g(1)]
  have "length (live_nodes (pt_graph p')) \<le> max budget (length (filter (\<lambda>(n, nd). nd_pin nd \<noteq> 0) (live_nodes (pt_graph p'))))"
    if "se_refs ev \<noteq> [] \<or> se_kind ev = ''input''"
    using R(7) [OF that]
  proof
    assume "unpinned (pt_graph p') = []"
    then have "filter (\<lambda>(n, nd). nd_pin nd \<noteq> 0) (live_nodes (pt_graph p')) = live_nodes (pt_graph p')"
      by (auto simp: unpinned_def filter_empty_conv filter_id_conv)
    then show ?thesis by simp
  qed simp
  moreover have "\<forall>((a, b), w)\<in>set (fg_edges (pt_graph p')). {a, b} \<subseteq> fst ` set (fg_nodes (pt_graph p')) \<and> 1 \<le> w"
    using D(4) by (auto simp: edge_ok_def)
  moreover have "\<forall>(n, nd)\<in>set (fg_nodes (pt_graph p')). 0 \<le> nd_recency nd \<and> nd_recency nd \<le> 1 \<and> nd_last nd \<le> fg_turn (pt_graph p')"
    using D(3) by (auto simp: node_ok_def)
  ultimately show ?thesis using g by blast
qed

lemma stm_reach_example:
  "stm_reach 1 (snd (the (record_event 1 (\<lambda>s. s) 5 ''input'' ''x'' (Some [''ab'', ''cd'']) None False None empty_part)))"
proof -
  obtain ev p' where "record_event 1 (\<lambda>s. s) 5 ''input'' ''x'' (Some [''ab'', ''cd'']) None False None empty_part = Some (ev, p')"
    using record_returns by (metis prod.collapse)
  then show ?thesis using stm_step.Record by (metis option.sel r_into_rtranclp snd_conv)
qed

lemma focus_bounded_witness:
  "\<exists>ev p'. record_event 1 (\<lambda>s. s) 6 ''tool'' ''y'' (Some [''ef'']) None False None
      (snd (the (record_event 1 (\<lambda>s. s) 5 ''input'' ''x'' (Some [''ab'', ''cd'']) None False None empty_part))) = Some (ev, p') \<and>
    length (frontier (pt_graph p')) \<le> 100"
proof -
  obtain ev p' where r: "record_event 1 (\<lambda>s. s) 6 ''tool'' ''y'' (Some [''ef'']) None False None
      (snd (the (record_event 1 (\<lambda>s. s) 5 ''input'' ''x'' (Some [''ab'', ''cd'']) None False None empty_part))) = Some (ev, p')"
    using record_returns by (metis prod.collapse)
  then show ?thesis using focus_bounded [OF stm_reach_example r] by blast
qed

text \<open>C16. A pinned node survives: on every reachable partition it stays in the graph, live and pinned, when
  events are recorded, stashes and detours are restored and abandoned calls are swept.\<close>

theorem pinned_survives:
  assumes "stm_reach budget p" "pinned_in (pt_graph p) n k"
  shows "(record_event budget sha now kind terse refs detail ab psha p = Some (ev, q) \<longrightarrow> pinned_in (pt_graph q) n k) \<and>
    (task_pop budget now sel p = Inr (Some (r, q)) \<longrightarrow> pinned_in (pt_graph q) n k) \<and>
    (focus_return budget sha now arrow sel p = Inr (Some (r, q)) \<longrightarrow> pinned_in (pt_graph q) n k) \<and>
    (inflight_sweep budget sha now age p = Some (evs, q) \<longrightarrow> pinned_in (pt_graph q) n k)"
proof (intro conjI impI)
  have ok: "part_ok p" by (rule stm_reach_ok [OF assms(1)])
  show "pinned_in (pt_graph q) n k" if "record_event budget sha now kind terse refs detail ab psha p = Some (ev, q)"
    using record_ok(2) [OF ok that assms(2)] .
  show "pinned_in (pt_graph q) n k" if pop: "task_pop budget now sel p = Inr (Some (r, q))"
  proof (rule pop_cases [OF pop])
    fix i assume i: "ingest budget now (sh_focus (pt_tasks p ! i)) False (p\<lparr>pt_tasks := remove_at i (pt_tasks p)\<rparr>) = Some q"
    have "part_ok (p\<lparr>pt_tasks := remove_at i (pt_tasks p)\<rparr>)" using ok by (simp add: part_ok_def)
    from ingest_ok(2) [OF this i] show ?thesis using assms(2) by simp
  qed (use assms(2) in simp)
  show "pinned_in (pt_graph q) n k" if ret: "focus_return budget sha now arrow sel p = Inr (Some (r, q))"
  proof (rule return_cases [OF ret])
    fix i p1 ev
    assume i: "ingest budget now (dt_focus (pt_marks p ! i)) False (p\<lparr>pt_marks := remove_at i (pt_marks p)\<rparr>) = Some p1"
      and rec: "record_event budget sha now ''mark'' (arrow @ '' return: '' @ dt_label (pt_marks p ! i))
         (Some (take 6 (dt_focus (pt_marks p ! i)))) None False None p1 = Some (ev, q)"
    have m: "part_ok (p\<lparr>pt_marks := remove_at i (pt_marks p)\<rparr>)" using ok by (simp add: part_ok_def)
    have "pinned_in (pt_graph p1) n k" using ingest_ok(2) [OF m i] assms(2) by simp
    then show ?thesis using record_ok(2) [OF ingest_ok(1) [OF m i] rec] by blast
  qed (use assms(2) in simp)
  show "pinned_in (pt_graph q) n k" if sw: "inflight_sweep budget sha now age p = Some (evs, q)"
  proof -
    let ?stale = "filter (\<lambda>(k, v). age < now - pk_t v) (pt_inflight p)"
    show ?thesis
    proof (cases "?stale = []")
      case True
      then show ?thesis using sw assms(2) by (simp add: inflight_sweep_def Let_def)
    next
      case False
      then obtain p1 where s: "sweep_stale budget sha now ?stale p = Some (evs, p1)"
        "q = p1\<lparr>pt_inflight := fold AList.delete (map fst ?stale) (pt_inflight p)\<rparr>"
        using sw by (auto simp: inflight_sweep_def Let_def)
      then show ?thesis using sweep_ok [OF s(1) ok] assms(2) by simp
    qed
  qed
qed

definition pinned_part :: part where
  "pinned_part =
     (let p = snd (the (record_event 1 (\<lambda>s. s) 5 ''input'' ''x'' (Some [''ab'', ''cd'']) None False None empty_part))
      in p\<lparr>pt_graph := snd (pin_node ''ab'' True (pt_graph p))\<rparr>)"

lemma pinned_survives_witness:
  "\<exists>ev q. record_event 1 (\<lambda>s. s) 6 ''tool'' ''y'' (Some [''ef'']) None False None pinned_part = Some (ev, q) \<and>
    pinned_in (pt_graph q) ''ab'' 1"
proof -
  obtain ev q where r: "record_event 1 (\<lambda>s. s) 6 ''tool'' ''y'' (Some [''ef'']) None False None pinned_part = Some (ev, q)"
    using record_returns by (metis prod.collapse)
  have s: "stm_reach 1 pinned_part"
    unfolding pinned_part_def Let_def by (rule rtranclp.rtrancl_into_rtrancl [OF stm_reach_example]) (rule stm_step.Pin, rule prod.collapse [symmetric])
  have "list_ex (\<lambda>(n, nd). n = ''ab'' \<and> nd_pin nd = 1 \<and> \<not> nd_frontier nd) (fg_nodes (pt_graph pinned_part))" by code_simp
  then have "pinned_in (pt_graph pinned_part) ''ab'' 1" by (force simp: list_ex_iff pinned_in_def)
  then show ?thesis using pinned_survives [OF s] r by blast
qed

end
