(* ===== verification/FocusReplay.thy ===== *)
theory FocusReplay
  imports FocusRuns
begin

text \<open>
  The replay of the event log (\<open>rebuild_focus\<close>) against the live_nodes graph, and stashes: what a push saves
  a pop restores.
\<close>

section \<open>Graphs up to the time stamps of their nodes\<close>

definition untimed_node :: "focus_node \<Rightarrow> focus_node" where
  "untimed_node nd = nd\<lparr>nd_updated := 0\<rparr>"

definition untimed :: "focus \<Rightarrow> focus" where
  "untimed g = g\<lparr>fg_nodes := map (\<lambda>(n, nd). (n, untimed_node nd)) (fg_nodes g)\<rparr>"

lemma untimed_node_sel [simp]:
  "nd_name (untimed_node nd) = nd_name nd" "nd_kind (untimed_node nd) = nd_kind nd"
  "nd_recency (untimed_node nd) = nd_recency nd" "nd_freq (untimed_node nd) = nd_freq nd"
  "nd_pin (untimed_node nd) = nd_pin nd" "nd_frontier (untimed_node nd) = nd_frontier nd"
  "nd_first (untimed_node nd) = nd_first nd" "nd_last (untimed_node nd) = nd_last nd" "nd_updated (untimed_node nd) = 0"
  by (simp_all add: untimed_node_def)

lemma untimed_sel [simp]:
  "fg_turn (untimed g) = fg_turn g" "fg_edges (untimed g) = fg_edges g"
  "fg_nodes (untimed g) = map (\<lambda>(n, nd). (n, untimed_node nd)) (fg_nodes g)"
  by (simp_all add: untimed_def)

lemma map_of_untimed: "map_of (fg_nodes (untimed g)) n = map_option untimed_node (map_of (fg_nodes g) n)"
  by (simp add: map_of_map)

lemma untimed_untimed [simp]: "untimed (untimed g) = untimed g"
  by (simp add: untimed_def untimed_node_def comp_def case_prod_beta)

lemma filter_timed: "filter (\<lambda>(n, nd). P nd) (map (\<lambda>(n, nd). (n, untimed_node nd)) xs) =
    map (\<lambda>(n, nd). (n, untimed_node nd)) (filter (\<lambda>(n, nd). P (untimed_node nd)) xs)"
  by (induction xs) auto

lemma live_untimed: "live_nodes (untimed g) = map (\<lambda>(n, nd). (n, untimed_node nd)) (live_nodes g)"
  by (simp add: live_nodes_def filter_timed)

lemma unpinned_untimed: "unpinned (untimed g) = map (\<lambda>(n, nd). (n, untimed_node nd)) (unpinned g)"
  by (simp add: unpinned_def live_untimed filter_timed)

lemma arg_min_list_map: "xs \<noteq> [] \<Longrightarrow> arg_min_list f (map h xs) = h (arg_min_list (f \<circ> h) xs)"
proof (induction xs rule: induct_list012)
  case (3 x y zs)
  then show ?case by (simp add: Let_def)
qed simp_all

lemma node_score_untimed [simp]: "node_score m deg d (untimed_node nd) = node_score m deg d nd"
  by (simp add: node_score_def)

lemma max_freq_untimed: "max_freq (map (\<lambda>(n, nd). (n, untimed_node nd)) xs) = max_freq xs"
  by (simp add: max_freq_def comp_def case_prod_beta)

lemma victim_untimed:
  assumes "unpinned g \<noteq> []"
  shows "victim (untimed g) = victim g"
proof -
  have deg: "graph_degree (untimed g) = graph_degree g" by (simp add: graph_degree_def)
  have "(\<lambda>(n, nd). node_score m deg d nd) \<circ> (\<lambda>(n, nd). (n, untimed_node nd)) = (\<lambda>(n, nd). node_score m deg d nd)" for m deg d
    by (auto simp: fun_eq_iff)
  note comp = this
  show ?thesis unfolding victim_def live_untimed unpinned_untimed max_freq_untimed deg arg_min_list_map [OF assms] comp
    by (simp add: case_prod_beta)
qed

lemma drop_untimed: "drop_node n (untimed g) = untimed (drop_node n g)"
  by (simp add: drop_node_def untimed_def delete_filter filter_map comp_def case_prod_beta)

lemma frontier_untimed_step: "to_frontier v (untimed g) = untimed (to_frontier v g)"
  by (simp add: to_frontier_def untimed_def untimed_node_def comp_def case_prod_beta)

lemma neighbor_untimed: "has_live_neighbor (untimed g) v = has_live_neighbor g v"
proof -
  have "(case map_of (fg_nodes (untimed g)) x of Some nd \<Rightarrow> \<not> nd_frontier nd | None \<Rightarrow> False) =
    (case map_of (fg_nodes g) x of Some nd \<Rightarrow> \<not> nd_frontier nd | None \<Rightarrow> False)" for x
    unfolding map_of_untimed by (simp split: option.split)
  then show ?thesis by (simp add: has_live_neighbor_def neighbors_of_def del: untimed_sel(3))
qed

lemma evict_one_untimed: "unpinned g \<noteq> [] \<Longrightarrow> evict_one (untimed g) = untimed (evict_one g)"
  by (simp add: evict_one_def Let_def victim_untimed neighbor_untimed drop_untimed frontier_untimed_step)

lemma evict_loop_untimed: "evict_loop budget (untimed g) = map_option untimed (evict_loop budget g)"
  unfolding evict_loop_def
  by (rule while_option_commute [symmetric]) (auto simp: live_untimed unpinned_untimed evict_one_untimed)

lemma insort_map: "insort_key f (h x) (map h xs) = map h (insort_key (f \<circ> h) x xs)"
  by (induction xs) auto

lemma sort_map: "sort_key f (map h xs) = map h (sort_key (f \<circ> h) xs)"
  by (induction xs) (simp_all add: insort_map comp_def)

lemma evict_frontier_untimed: "evict_frontier (untimed g) = untimed (evict_frontier g)"
proof -
  have f: "filter (\<lambda>(n, nd). nd_frontier nd) (fg_nodes (untimed g)) =
      map (\<lambda>(n, nd). (n, untimed_node nd)) (filter (\<lambda>(n, nd). nd_frontier nd) (fg_nodes g))"
    by (simp add: filter_timed)
  have k: "(\<lambda>(n, nd). nd_last nd) \<circ> (\<lambda>(n, nd). (n, untimed_node nd)) = (\<lambda>(n, nd). nd_last nd)" by (auto simp: fun_eq_iff)
  have d: "fold (\<lambda>(n, nd) g. drop_node n g) (map (\<lambda>(n, nd). (n, untimed_node nd)) vs) (untimed g) =
      untimed (fold (\<lambda>(n, nd) g. drop_node n g) vs g)" for vs g
    by (induction vs arbitrary: g) (auto simp: drop_untimed)
  show ?thesis unfolding evict_frontier_def Let_def f sort_map k by (simp add: take_map d del: untimed_sel(3))
qed

lemma evict_untimed: "evict budget (untimed g) = map_option untimed (evict budget g)"
  by (simp add: evict_def live_untimed evict_loop_untimed evict_frontier_untimed option.map_comp comp_def)

lemma update_untimed:
  "AList.update k (untimed_node v) (map (\<lambda>(n, nd). (n, untimed_node nd)) xs) = map (\<lambda>(n, nd). (n, untimed_node nd)) (AList.update k v xs)"
  by (induction xs) auto

lemma admit_one_untimed: "admit_one 0 t n (untimed g) = untimed (admit_one now t n g)"
proof (cases "map_of (fg_nodes g) n")
  case None
  let ?nd = "\<lparr>nd_name = n, nd_kind = ref_kind n, nd_recency = 1, nd_freq = 1, nd_pin = 0, nd_frontier = False,
               nd_first = t, nd_last = t, nd_updated = now\<rparr>"
  have "admit_one 0 t n (untimed g) = (untimed g)\<lparr>fg_nodes := AList.update n (untimed_node ?nd) (fg_nodes (untimed g))\<rparr>"
    using None by (simp add: admit_one_def map_of_untimed untimed_node_def del: untimed_sel(3))
  then show ?thesis using None by (simp add: admit_one_def update_untimed untimed_def)
next
  case (Some nd)
  let ?nd = "nd\<lparr>nd_recency := 1, nd_freq := nd_freq nd + 1, nd_frontier := False, nd_last := t, nd_updated := now\<rparr>"
  have "admit_one 0 t n (untimed g) = (untimed g)\<lparr>fg_nodes := AList.update n (untimed_node ?nd) (fg_nodes (untimed g))\<rparr>"
    using Some by (simp add: admit_one_def map_of_untimed untimed_node_def del: untimed_sel(3))
  then show ?thesis using Some by (simp add: admit_one_def update_untimed untimed_def)
qed

lemma admit_fold_untimed: "fold (admit_one 0 t) names (untimed g) = untimed (fold (admit_one now t) names g)"
  by (induction names arbitrary: g) (auto simp: admit_one_untimed [where now = now])

lemma bump_untimed: "bump_edge ab (untimed g) = untimed (bump_edge ab g)"
  by (simp add: bump_edge_def Let_def untimed_def)

lemma bump_fold_untimed: "fold bump_edge ps (untimed g) = untimed (fold bump_edge ps g)"
  by (induction ps arbitrary: g) (auto simp: bump_untimed)

lemma decay_untimed: "new_turn_decay (untimed g) = untimed (new_turn_decay g)"
  by (simp add: new_turn_decay_def untimed_def untimed_node_def comp_def case_prod_beta)

text \<open>A turn does not depend on the clock.\<close>

lemma apply_turn_untimed: "apply_turn budget 0 refs nt (untimed g) = map_option untimed (apply_turn budget now refs nt g)"
proof -
  have 1: "(if nt then new_turn_decay (untimed g) else untimed g) = untimed (if nt then new_turn_decay g else g)"
    by (simp add: decay_untimed)
  show ?thesis unfolding apply_turn_def Let_def admit_def 1
    by (simp add: admit_fold_untimed [where now = now] bump_fold_untimed evict_untimed del: untimed_sel(3))
qed

lemma apply_turn_clock:
  assumes "untimed g = untimed h" "apply_turn budget now refs nt g = Some g'" "apply_turn budget now' refs nt h = Some h'"
  shows "untimed g' = untimed h'"
  using apply_turn_untimed [of budget refs nt g now] apply_turn_untimed [of budget refs nt h now'] assms by simp

section \<open>The replay\<close>

lemma replay_append:
  "replay_events budget now da dj (xs @ ys) acc = Option.bind (replay_events budget now da dj xs acc) (replay_events budget now da dj ys)"
proof (induction xs arbitrary: acc)
  case (Cons x xs)
  obtain de dr g where acc: "acc = (de, dr, g)" by (cases acc)
  show ?case using Cons.IH by (auto simp: acc Let_def split: option.split)
qed simp

text \<open>The calls of \<open>record\<close> of a session, and those the replay keeps.\<close>

type_synonym call = "int \<times> string \<times> string \<times> string list option \<times> string option"

fun record_all :: "nat \<Rightarrow> (string \<Rightarrow> string) \<Rightarrow> call list \<Rightarrow> part \<Rightarrow> part option" where
  "record_all budget sha [] p = Some p"
| "record_all budget sha ((now, kind, terse, refs, detail) # calls) p =
     Option.bind (record_event budget sha now kind terse refs detail False None p) (\<lambda>(ev, p'). record_all budget sha calls p')"

definition call_refs :: "call \<Rightarrow> string list" where
  "call_refs c = (case c of (now, kind, terse, refs, detail) \<Rightarrow> (case refs of Some r \<Rightarrow> r | None \<Rightarrow> extract_refs terse))"

definition surviving :: "bool \<Rightarrow> bool \<Rightarrow> call list \<Rightarrow> call list" where
  "surviving da dj calls =
     map (\<lambda>(now, kind, terse, refs, detail).
         (now, kind, terse, Some (if dj then filter (\<lambda>r. \<not> is_junk_ref r) (call_refs (now, kind, terse, refs, detail))
                                  else call_refs (now, kind, terse, refs, detail)), detail))
       (filter (\<lambda>(now, kind, terse, refs, detail). \<not> (da \<and> kind = ''input'' \<and> is_ambient_text (take 500 terse))) calls)"

definition settled :: "nat \<Rightarrow> focus \<Rightarrow> bool" where
  "settled budget g = (focus_ok g \<and> (length (live_nodes g) \<le> budget \<or> unpinned g = []) \<and> length (frontier g) \<le> frontier_budget)"

lemma settled_evict: "settled budget g \<Longrightarrow> evict budget g = Some g"
proof -
  assume s: "settled budget g"
  then have f: "evict_frontier g = g" using evict_frontier_nodes(4) by (simp add: settled_def)
  show ?thesis
  proof (cases "length (live_nodes g) \<le> budget")
    case False
    then have "evict_loop budget g = Some g" using s unfolding evict_loop_def
      by (subst while_option_unfold) (auto simp: settled_def)
    then show ?thesis using f False by (simp add: evict_def)
  qed (simp add: evict_def f)
qed

lemma settled_untimed: "settled budget g \<Longrightarrow> untimed h = untimed g \<Longrightarrow> apply_turn budget now [] False h = Some h' \<Longrightarrow> untimed h' = untimed g"
proof -
  assume s: "settled budget g" and h: "untimed h = untimed g" "apply_turn budget now [] False h = Some h'"
  have "apply_turn budget now [] False g = Some g" using settled_evict [OF s] by (simp add: apply_turn_def admit_def)
  from apply_turn_clock [OF h(1) h(2) this] show ?thesis .
qed

text \<open>Recording in a partition whose graph is that of a replay, up to time stamps.\<close>

lemma surviving_Cons:
  "surviving da dj ((now, kind, terse, refs, detail) # calls) =
     (if da \<and> kind = ''input'' \<and> is_ambient_text (take 500 terse) then surviving da dj calls
      else (now, kind, terse, Some (if dj then filter (\<lambda>r. \<not> is_junk_ref r) (call_refs (now, kind, terse, refs, detail))
                                  else call_refs (now, kind, terse, refs, detail)), detail) # surviving da dj calls)"
  by (simp add: surviving_def)

lemma record_settled:
  assumes "settled budget (pt_graph q)" "record_event budget sha now kind terse (Some refs) detail False None q = Some (ev, q')"
  shows "settled budget (pt_graph q') \<and>
    (\<forall>h h'. untimed h = untimed (pt_graph q) \<longrightarrow> apply_turn budget now' refs (kind = ''input'') h = Some h' \<longrightarrow> untimed h' = untimed (pt_graph q'))"
proof -
  note R = record_cases [OF assms(2)]
  have I: "ingest budget now refs (kind = ''input'') (q\<lparr>pt_ring := pt_ring q @ [ev]\<rparr>) = Some q'" using R(2) by simp
  show ?thesis
  proof (cases "refs = [] \<and> kind \<noteq> ''input''")
    case True
    then have g: "pt_graph q' = pt_graph q" using I by (auto simp: ingest_def)
    have "untimed h' = untimed (pt_graph q)" if "untimed h = untimed (pt_graph q)" "apply_turn budget now' refs (kind = ''input'') h = Some h'" for h h'
      using settled_untimed [OF assms(1) that(1)] that(2) True by simp
    then show ?thesis using assms(1) unfolding g by blast
  next
    case False
    then obtain g where g: "apply_turn budget now refs (kind = ''input'') (pt_graph q) = Some g" "pt_graph q' = g"
      using I by (auto simp: ingest_def split: if_splits)
    have "focus_ok (pt_graph q)" using assms(1) by (simp add: settled_def)
    from apply_turn_ok(1-3) [OF this g(1)] have "settled budget (pt_graph q')" by (simp add: settled_def g(2))
    then show ?thesis using apply_turn_clock [OF _ _ g(1)] g(2) by blast
  qed
qed

lemma event_of_call:
  assumes "record_event budget sha now kind terse refs detail False None p = Some (ev, p')"
  shows "se_refs ev = call_refs (now, kind, terse, refs, detail)" "se_kind ev = ''input'' \<longleftrightarrow> kind = ''input''" "se_terse ev = take 500 terse"
    "pt_ring p' = pt_ring p @ [ev]"
proof -
  note R = record_cases [OF assms]
  show "se_refs ev = call_refs (now, kind, terse, refs, detail)" "se_kind ev = ''input'' \<longleftrightarrow> kind = ''input''" "se_terse ev = take 500 terse"
    using R(1) by (simp_all add: call_refs_def) (simp add: make_event_def Let_def)
  show "pt_ring p' = pt_ring p @ [ev]" using R(2) by (auto simp: ingest_def split: if_splits)
qed

lemma replay_matches:
  assumes "record_all budget sha calls p = Some p'" "settled budget (pt_graph q)" "untimed g = untimed (pt_graph q)"
    "replay_events budget now da dj (pt_ring p) (0, 0, empty_focus) = Some (de, dr, g)"
  shows "\<exists>q' de' dr' g'. record_all budget sha (surviving da dj calls) q = Some q' \<and>
    replay_events budget now da dj (pt_ring p') (0, 0, empty_focus) = Some (de', dr', g') \<and> untimed g' = untimed (pt_graph q')"
  using assms
proof (induction calls arbitrary: p q g de dr)
  case Nil
  then show ?case by (auto simp: surviving_def)
next
  case (Cons c calls)
  obtain t kind terse refs detail where c: "c = (t, kind, terse, refs, detail)" by (cases c)
  from Cons.prems(1) obtain ev p1 where r: "record_event budget sha t kind terse refs detail False None p = Some (ev, p1)"
    and rest: "record_all budget sha calls p1 = Some p'" by (auto simp: c bind_eq_Some_conv)
  note E = event_of_call [OF r]
  let ?rs = "if dj then filter (\<lambda>r. \<not> is_junk_ref r) (se_refs ev) else se_refs ev"
  have step: "replay_events budget now da dj (pt_ring p1) (0, 0, empty_focus) = replay_events budget now da dj [ev] (de, dr, g)"
    unfolding E(4) replay_append Cons.prems(4) by simp
  show ?case
  proof (cases "da \<and> kind = ''input'' \<and> is_ambient_text (take 500 terse)")
    case True
    then have "replay_events budget now da dj (pt_ring p1) (0, 0, empty_focus) = Some (de + 1, dr, g)"
      unfolding step using E(2,3) by simp
    from Cons.IH [OF rest Cons.prems(2,3) this] show ?thesis using True by (simp add: c surviving_Cons)
  next
    case False
    obtain h where h: "apply_turn budget now ?rs (kind = ''input'') g = Some h" using apply_turn_returns by blast
    obtain ev' q1 where q1: "record_event budget sha t kind terse (Some ?rs) detail False None q = Some (ev', q1)"
      using record_returns by (metis prod.collapse)
    note S = record_settled [OF Cons.prems(2) q1]
    have "replay_events budget now da dj (pt_ring p1) (0, 0, empty_focus) = Some (de, dr + (length (se_refs ev) - length ?rs), h)"
      unfolding step using E(2,3) False h by (auto simp: Let_def)
    moreover have "untimed h = untimed (pt_graph q1)" using S Cons.prems(3) h by blast
    ultimately obtain q' de' dr' g' where "record_all budget sha (surviving da dj calls) q1 = Some q'"
      "replay_events budget now da dj (pt_ring p') (0, 0, empty_focus) = Some (de', dr', g')" "untimed g' = untimed (pt_graph q')"
      using Cons.IH [OF rest S [THEN conjunct1]] by blast
    moreover have "surviving da dj (c # calls) = (t, kind, terse, Some ?rs, detail) # surviving da dj calls"
      unfolding c surviving_Cons using False by (simp add: E(1))
    ultimately show ?thesis using q1 by auto
  qed
qed

text \<open>C14. Rebuilding the focus graph from the log is as if the dropped noise had never been recorded: for a
  session that only recorded events, the graph it swaps in is, up to the time stamps of its nodes,
  the one the live updates give for the surviving events with their surviving references.\<close>

theorem rebuild_as_never_recorded:
  assumes "record_all budget sha calls empty_part = Some p"
  shows "\<exists>q c p'. record_all budget sha (surviving da dj calls) empty_part = Some q \<and>
    rebuild_focus budget now da dj False p = Some (c, p') \<and> pt_ring p' = pt_ring p \<and>
    untimed (pt_graph p') = untimed (pt_graph q)"
proof -
  have s: "settled budget (pt_graph empty_part)" "untimed empty_focus = untimed (pt_graph empty_part)"
    "replay_events budget now da dj (pt_ring empty_part) (0, 0, empty_focus) = Some (0, 0, empty_focus)"
    using empty_focus_ok by (simp_all add: settled_def empty_part_def) (simp_all add: live_nodes_def frontier_def empty_focus_def)
  from replay_matches [OF assms s] obtain q' de' dr' g' where "record_all budget sha (surviving da dj calls) empty_part = Some q'"
    "replay_events budget now da dj (pt_ring p) (0, 0, empty_focus) = Some (de', dr', g')" "untimed g' = untimed (pt_graph q')" by blast
  then show ?thesis by (simp add: rebuild_focus_def)
qed

definition noisy_calls :: "call list" where
  "noisy_calls =
     [(1, ''input'', ''fix it'', Some [''parse_url'', ''toolu_1''], None), (2, ''input'', ''<channel x>'', Some [''noise_word''], None),
      (3, ''tool'', ''edit'', Some [''parse_url'', ''a.py''], None)]"

lemma rebuild_as_never_recorded_witness:
  "\<exists>p q c p'. record_all 5 (\<lambda>s. s) noisy_calls empty_part = Some p \<and>
    record_all 5 (\<lambda>s. s) (surviving True True noisy_calls) empty_part = Some q \<and>
    rebuild_focus 5 9 True True False p = Some (c, p') \<and> untimed (pt_graph p') = untimed (pt_graph q) \<and> length (surviving True True noisy_calls) = 2"
proof -
  have n: "record_all budget sha calls p \<noteq> None" for budget sha calls p
  proof (induction calls arbitrary: p)
    case (Cons c calls)
    obtain t kind terse refs detail where c: "c = (t, kind, terse, refs, detail)" by (cases c)
    obtain ev p1 where "record_event budget sha t kind terse refs detail False None p = Some (ev, p1)"
      using record_returns by (metis prod.collapse)
    then show ?case using Cons.IH by (simp add: c)
  qed simp
  obtain p where p: "record_all 5 (\<lambda>s. s) noisy_calls empty_part = Some p" using n by blast
  have "length (surviving True True noisy_calls) = 2" by code_simp
  then show ?thesis using p rebuild_as_never_recorded [OF p, of True True 9] by blast
qed

text \<open>Pins are not part of the log, so a rebuild loses them.\<close>

lemma rebuild_unpins:
  assumes "rebuild_focus budget now da dj False p = Some (c, p')"
  shows "\<forall>(n, nd)\<in>set (fg_nodes (pt_graph p')). nd_pin nd = 0"
proof -
  define Z where "Z = (\<lambda>g :: focus. \<forall>(n, nd)\<in>set (fg_nodes g). nd_pin nd = 0)"
  have upd: "(n, nd) \<in> set (AList.update k v xs) \<Longrightarrow> nd = v \<or> (n, nd) \<in> set xs" for n nd k v and xs :: "(string \<times> focus_node) list"
    by (induction xs) (auto split: if_splits)
  have adm: "Z (admit_one now t n g)" if "Z g" for t n g
    using that unfolding Z_def by (auto simp: admit_one_def dest!: upd map_of_SomeD split: option.splits)
  have adms: "Z (fold (admit_one now t) names g)" if "Z g" for t names g using that by (induction names arbitrary: g) (simp_all add: adm)
  have bumps: "Z (fold bump_edge ps g) = Z g" for ps g by (induction ps arbitrary: g) (simp_all add: Z_def)
  have one: "Z (evict_one g)" if "Z g" for g
    using that unfolding Z_def by (auto simp: evict_one_def Let_def to_frontier_def drop_node_def delete_filter)
  have front: "Z (evict_frontier g)" if "Z g" for g
    using that unfolding Z_def by (auto simp: evict_frontier_def Let_def fold_drop_nodes)
  have ev: "Z g'" if e: "evict budget g = Some g'" and z: "Z g" for g g'
  proof (cases "length (live_nodes g) \<le> budget")
    case True
    then show ?thesis using e z front by (auto simp: evict_def)
  next
    case False
    then obtain g1 where g1: "evict_loop budget g = Some g1" "g' = evict_frontier g1" using e by (auto simp: evict_def)
    have "Z g1" using evict_loop_rule [OF g1(1), of Z] z one by blast
    then show ?thesis using front g1(2) by simp
  qed
  have turn: "Z g'" if "Z g" "apply_turn budget now refs nt g = Some g'" for refs nt g g'
  proof -
    have "Z (if nt then new_turn_decay g else g)" using that(1) by (auto simp: Z_def new_turn_decay_def)
    then show ?thesis using that(2) unfolding apply_turn_def admit_def Let_def prod.case
      by (elim ev) (simp only: bumps, rule adms)
  qed
  have "Z g'" if "replay_events budget now da dj evs (de, dr, g) = Some (de', dr', g')" "Z g" for evs de dr g de' dr' g'
    using that
  proof (induction evs arbitrary: de dr g)
    case (Cons ev evs)
    then show ?case by (auto simp: Let_def split: if_splits option.splits intro: Cons.IH turn)
  qed simp
  moreover have "Z empty_focus" by (simp add: Z_def empty_focus_def)
  ultimately have "Z (pt_graph p')" using assms by (auto simp: rebuild_focus_def)
  then show ?thesis by (simp add: Z_def)
qed

section \<open>Stashes\<close>

text \<open>C28. A stash is popped as it was pushed: whatever is recorded, pinned or rebuilt in between, popping the
  top returns the task's description and the focus at the time of the push, leaves the stack the
  push found, and re-ingests that focus; swapping the two top tasks twice changes nothing.\<close>

theorem push_pop:
  assumes "pt_tasks q = pt_tasks (snd (task_push t d p))"
  shows "\<exists>q'. task_pop budget now None q =
      Inr (Some (Popped d (length (pt_tasks p)) (vw_focus (focus_view 12 False (pt_graph p))), q')) \<and>
    pt_tasks q' = pt_tasks p \<and> pt_ring q' = pt_ring q \<and>
    ingest budget now (vw_focus (focus_view 12 False (pt_graph p))) False (q\<lparr>pt_tasks := pt_tasks p\<rparr>) = Some q' \<and>
    snd (task_swap (snd (task_swap q))) = q"
proof -
  let ?f = "vw_focus (focus_view 12 False (pt_graph p))"
  let ?t = "\<lparr>sh_desc = d, sh_ts = t, sh_focus = ?f\<rparr>"
  have tasks: "pt_tasks q = pt_tasks p @ [?t]" using assms by (simp add: task_push_def Let_def)
  obtain q' where q': "ingest budget now ?f False (q\<lparr>pt_tasks := pt_tasks p\<rparr>) = Some q'" using ingest_returns by blast
  have "remove_at (length (pt_tasks p)) (pt_tasks q) = pt_tasks p" by (simp add: remove_at_def tasks)
  then have "task_pop budget now None q = Inr (Some (Popped d (length (pt_tasks p)) ?f, q'))"
    using q' by (simp add: task_pop_def Let_def tasks)
  moreover have "pt_tasks q' = pt_tasks p" "pt_ring q' = pt_ring q" using q' by (auto simp: ingest_def split: if_splits)
  moreover have "snd (task_swap (snd (task_swap q))) = q"
  proof -
    have "(let s = xs[n - 1 := xs ! (n - 2), n - 2 := xs ! (n - 1)] in s[n - 1 := s ! (n - 2), n - 2 := s ! (n - 1)]) = xs"
      if "n = length xs" "\<not> n < 2" for xs :: "stash list" and n
      using that by (intro nth_equalityI) (auto simp: Let_def nth_list_update)
    then have "(let s = (pt_tasks q)[length (pt_tasks q) - 1 := pt_tasks q ! (length (pt_tasks q) - 2), length (pt_tasks q) - 2 := pt_tasks q ! (length (pt_tasks q) - 1)]
        in s[length (pt_tasks q) - 1 := s ! (length (pt_tasks q) - 2), length (pt_tasks q) - 2 := s ! (length (pt_tasks q) - 1)]) = pt_tasks q"
      if "\<not> length (pt_tasks q) < 2" using that by blast
    then show ?thesis by (cases "length (pt_tasks q) < 2") (simp_all add: task_swap_def Let_def)
  qed
  ultimately show ?thesis using q' by blast
qed

lemma push_pop_witness:
  "\<exists>q'. task_pop 5 9 None (snd (task_push 7 ''fix'' pinned_part)) =
      Inr (Some (Popped ''fix'' 0 [''ab'', ''cd''], q')) \<and> pt_tasks q' = []"
proof -
  have "vw_focus (focus_view 12 False (pt_graph pinned_part)) = [''ab'', ''cd'']" "pt_tasks pinned_part = []" by code_simp+
  then show ?thesis using push_pop [OF refl, where t = 7 and d = "''fix''" and p = pinned_part and budget = 5 and now = 9] by auto
qed

end
