(* ===== verification/Topics.thy ===== *)
theory Topics
  imports FocusFacts
begin

text \<open>
  The ranked view of the focus graph and its topics: what is shown is the best scored part of the
  graph, and label propagation partitions the shown names into connected groups.
\<close>

section \<open>The view\<close>

lemma live_names: "focus_ok g \<Longrightarrow> (n, nd) \<in> set (live_nodes g) \<Longrightarrow> nd_name nd = n"
  using focus_okD(3) by (auto simp: live_nodes_def node_ok_def)

text \<open>Frontier stubs are never shown, asked for or not: only names already shown are looked up.\<close>

lemma focus_view_frontier_inert:
  assumes "focus_ok g"
  shows "focus_view k True g = focus_view k False g"
proof -
  let ?lv = "map snd (live_nodes g)"
  let ?sc = "\<lambda>nd. - node_score (max_freq (live_nodes g)) (graph_degree g) (max_degree (graph_degree g)) nd"
  let ?keep = "map nd_name (take k (sort_key ?sc ?lv))"
  have no: "nd_name nd \<notin> set ?keep" if "(n, nd) \<in> set (fg_nodes g)" "nd_frontier nd" for n nd
  proof
    assume "nd_name nd \<in> set ?keep"
    then obtain x where "x \<in> set (take k (sort_key ?sc ?lv))" "nd_name x = nd_name nd" by auto
    then have "x \<in> set ?lv" using in_set_takeD by (metis set_sort)
    then obtain m where m: "(m, x) \<in> set (live_nodes g)" by auto
    then have "nd_name x = m" "(m, x) \<in> set (fg_nodes g)" "\<not> nd_frontier x" using live_names [OF assms] by (auto simp: live_nodes_def)
    moreover have "nd_name nd = n" using focus_okD(3) [OF assms that(1)] by (simp add: node_ok_def)
    ultimately show False using distinct_fst [OF focus_okD(1) [OF assms] that(1)] that(2) \<open>nd_name x = nd_name nd\<close> by metis
  qed
  have "fold (add_frontier g) ns (out, ?keep) = (out, ?keep)" if "set ns \<subseteq> set (fg_nodes g)" for ns out
    using that
  proof (induction ns)
    case (Cons n ns)
    obtain m nd where n: "n = (m, nd)" by (cases n)
    have "add_frontier g n (out, ?keep) = (out, ?keep)"
      using no [of m nd] Cons.prems by (auto simp: add_frontier_def n simp del: set_map)
    then show ?case using Cons by simp
  qed simp
  then show ?thesis unfolding focus_view_def Let_def by simp
qed

section \<open>Topics\<close>

definition shown :: "view \<Rightarrow> string list" where
  "shown v = map vn_name (vw_nodes v)"

text \<open>Names joined by an edge of the view, and names joined by a path.\<close>

definition co_occurs :: "view \<Rightarrow> (string \<times> string) set" where
  "co_occurs v = {(a, b). \<exists>w. (a, b, w) \<in> set (vw_edges v) \<or> (b, a, w) \<in> set (vw_edges v)}"

abbreviation linked :: "view \<Rightarrow> string \<Rightarrow> string \<Rightarrow> bool" where
  "linked v x y \<equiv> (x, y) \<in> (co_occurs v)\<^sup>*"

lemma co_occurs_sym: "(a, b) \<in> co_occurs v \<Longrightarrow> (b, a) \<in> co_occurs v"
  by (auto simp: co_occurs_def)

lemma linked_sym: "linked v x y \<Longrightarrow> linked v y x"
  by (metis co_occurs_sym symE symI sym_rtrancl)

definition adj_ok :: "view \<Rightarrow> (string \<times> (string \<times> rat) list) list \<Rightarrow> bool" where
  "adj_ok v adj =
     (fst ` set adj = set (shown v) \<and>
      (\<forall>n row m. map_of adj n = Some row \<longrightarrow> m \<in> fst ` set row \<longrightarrow> (n, m) \<in> co_occurs v \<and> m \<in> set (shown v)))"

lemma add_weight_ok:
  assumes "adj_ok v adj" "(a, b) \<in> co_occurs v" "b \<in> set (shown v)"
  shows "adj_ok v (add_weight a b w adj)"
proof (cases "map_of adj a")
  case (Some row)
  then have "a \<in> fst ` set adj" by (metis domI dom_map_of_conv_image_fst)
  then have "fst ` set (AList.update a r adj) = fst ` set adj" for r by (simp add: set_update_fst insert_absorb)
  then show ?thesis using assms Some unfolding adj_ok_def add_weight_def
    by (auto simp: set_update_fst split: if_splits)
qed (simp add: add_weight_def assms(1))

lemma adjacency_ok: "adj_ok v (adjacency v)"
proof -
  let ?nodes = "shown v"
  let ?f = "\<lambda>(a, b, w) adj. if a \<in> set ?nodes \<and> b \<in> set ?nodes then add_weight b a w (add_weight a b w adj) else adj"
  have "adj_ok v (fold ?f es adj)" if "adj_ok v adj" "set es \<subseteq> set (vw_edges v)" for es adj
    using that
  proof (induction es arbitrary: adj)
    case (Cons e es)
    obtain a b w where e: "e = (a, b, w)" by (cases e)
    have j: "(a, b) \<in> co_occurs v" "(b, a) \<in> co_occurs v" using Cons.prems(2) by (auto simp: e co_occurs_def)
    have "adj_ok v (?f e adj)"
      using add_weight_ok [OF add_weight_ok [OF Cons.prems(1) j(1)] j(2)] Cons.prems(1) by (simp add: e)
    then show ?case using Cons by simp
  qed simp
  moreover have "adj_ok v (map (\<lambda>n. (n, [])) (dedup ?nodes))"
    by (auto simp: adj_ok_def image_image map_of_map_restrict restrict_map_def split: if_splits)
  ultimately show ?thesis unfolding adjacency_def Let_def shown_def by blast
qed

text \<open>A label is the index of a name that is linked to the labelled one.\<close>

definition labels_ok :: "view \<Rightarrow> (string \<times> nat) list \<Rightarrow> bool" where
  "labels_ok v label =
     (let nodes = shown v in
      fst ` set label = set nodes \<and> (\<forall>n l. map_of label n = Some l \<longrightarrow> l < length nodes \<and> linked v n (nodes ! l)))"

lemma tally_keys: "fst ` set (tally label row) = (\<lambda>m. the (map_of label m)) ` fst ` set row"
proof -
  have "fst ` set (fold (\<lambda>(m, w) t. let l = the (map_of label m) in
        AList.update l ((case map_of t l of None \<Rightarrow> 0 | Some x \<Rightarrow> x) + w) t) row t) =
    fst ` set t \<union> (\<lambda>m. the (map_of label m)) ` fst ` set row" for t
    by (induction row arbitrary: t) (simp_all add: Let_def set_update_fst case_prod_beta)
  then show ?thesis by (simp add: tally_def)
qed

lemma best_label_in: "row \<noteq> [] \<Longrightarrow> \<exists>m\<in>fst ` set row. best_label (tally label row) = the (map_of label m)"
proof -
  assume r: "row \<noteq> []"
  then have "tally label row \<noteq> []" using tally_keys [of label row] by auto
  then have "best_label (tally label row) \<in> fst ` set (tally label row)" unfolding best_label_def by (intro imageI arg_min_list_in)
  then show ?thesis unfolding tally_keys by auto
qed

lemma relabel_ok:
  assumes "adj_ok v adj" "labels_ok v label"
  shows "labels_ok v (fst (relabel adj n (label, ch)))"
proof (cases "map_of adj n")
  case (Some row)
  show ?thesis
  proof (cases "row = []")
    case False
    then obtain m where m: "m \<in> fst ` set row" "best_label (tally label row) = the (map_of label m)" using best_label_in by blast
    then have j: "(n, m) \<in> co_occurs v" "m \<in> set (shown v)" using assms(1) Some unfolding adj_ok_def by blast+
    have nn: "n \<in> set (shown v)"
      using Some assms(1) unfolding adj_ok_def by (metis domI dom_map_of_conv_image_fst)
    have L: "fst ` set label = set (shown v)"
      "\<And>n l. map_of label n = Some l \<Longrightarrow> l < length (shown v) \<and> linked v n (shown v ! l)"
      using assms(2) by (auto simp: labels_ok_def Let_def)
    obtain l where l: "map_of label m = Some l" using j(2) L(1) by (metis domD dom_map_of_conv_image_fst)
    have "linked v n (shown v ! l)" using L(2) [OF l] j(1) by (meson converse_rtrancl_into_rtrancl)
    then have "labels_ok v (AList.update n l label)"
      using L nn L(2) [OF l] unfolding labels_ok_def Let_def by (simp add: set_update_fst insert_absorb)
    then show ?thesis using Some False m(2) l assms(2) by (simp add: relabel_def Let_def)
  qed (simp add: relabel_def Some assms(2))
qed (simp add: relabel_def assms(2))

lemma relabel_fold_ok:
  assumes "adj_ok v adj" "labels_ok v (fst acc)"
  shows "labels_ok v (fst (fold (relabel adj) ns acc))"
  using assms(2)
proof (induction ns arbitrary: acc)
  case (Cons n ns)
  have "labels_ok v (fst (relabel adj n acc))" using relabel_ok [OF assms(1), of "fst acc" n "snd acc"] Cons.prems by simp
  then show ?case using Cons.IH by simp
qed simp

lemma propagate_ok: "adj_ok v adj \<Longrightarrow> labels_ok v label \<Longrightarrow> labels_ok v (propagate k adj nodes label)"
proof (induction k arbitrary: label)
  case (Suc k)
  obtain label' ch where f: "fold (relabel adj) nodes (label, False) = (label', ch)" by (cases "fold (relabel adj) nodes (label, False)")
  then have "labels_ok v label'" using relabel_fold_ok [OF Suc.prems(1), of "(label, False)" nodes] Suc.prems(2) by simp
  then show ?case using Suc f by simp
qed simp

lemma initial_labels_ok: "labels_ok v (initial_labels (shown v))"
proof -
  let ?f = "\<lambda>ns k label. fold (\<lambda>(i, n) label. AList.update n i label) (enumerate k ns) label"
  have dom: "fst ` set (?f ns k label) = fst ` set label \<union> set ns" for ns :: "string list" and k label
    by (induction ns arbitrary: k label) (simp_all add: set_update_fst)
  have val: "map_of (?f ns k label) n = Some l \<Longrightarrow> map_of label n = Some l \<or> (k \<le> l \<and> l < k + length ns \<and> ns ! (l - k) = n)"
    for ns :: "string list" and k label n l
  proof (induction ns arbitrary: k label)
    case (Cons x ns)
    from Cons.prems have "map_of (?f ns (Suc k) (AList.update x k label)) n = Some l" by simp
    from Cons.IH [OF this] show ?case
    proof
      assume "map_of (AList.update x k label) n = Some l"
      then show ?thesis by (auto split: if_splits)
    next
      assume "Suc k \<le> l \<and> l < Suc k + length ns \<and> ns ! (l - Suc k) = n"
      moreover from this have "(x # ns) ! (l - k) = ns ! (l - Suc k)" by (simp add: nth_Cons' Suc_diff_Suc)
      ultimately show ?thesis by simp
    qed
  qed simp
  have "l < length (shown v) \<and> linked v n (shown v ! l)" if "map_of (initial_labels (shown v)) n = Some l" for n l
    using val [of 0 "shown v" "[]" n l] that by (auto simp: initial_labels_def)
  moreover have "fst ` set (initial_labels (shown v)) = set (shown v)" using dom [of 0 "shown v" "[]"] by (simp add: initial_labels_def)
  ultimately show ?thesis by (simp add: labels_ok_def Let_def)
qed

lemma group_by:
  "map_of (fold (\<lambda>n gs. let l = the (map_of label n) in
        AList.update l ((case map_of gs l of None \<Rightarrow> [] | Some ms \<Rightarrow> ms) @ [n]) gs) ns []) l =
   (if l \<in> (\<lambda>n. the (map_of label n)) ` set ns then Some (filter (\<lambda>n. the (map_of label n) = l) ns) else None)"
proof (induction ns arbitrary: l rule: rev_induct)
  case (snoc x ns)
  let ?L = "\<lambda>n. the (map_of label n)"
  let ?gs = "fold (\<lambda>n gs. let l = ?L n in AList.update l ((case map_of gs l of None \<Rightarrow> [] | Some ms \<Rightarrow> ms) @ [n]) gs) ns []"
  have e: "map_of (fold (\<lambda>n gs. let l = ?L n in AList.update l ((case map_of gs l of None \<Rightarrow> [] | Some ms \<Rightarrow> ms) @ [n]) gs) (ns @ [x]) []) l =
    (if l = ?L x then Some ((case map_of ?gs (?L x) of None \<Rightarrow> [] | Some ms \<Rightarrow> ms) @ [x]) else map_of ?gs l)"
    by (simp add: Let_def)
  have f: "(case map_of ?gs (?L x) of None \<Rightarrow> [] | Some ms \<Rightarrow> ms) = filter (\<lambda>n. ?L n = ?L x) ns"
  proof (cases "?L x \<in> ?L ` set ns")
    case False
    then have "filter (\<lambda>n. ?L n = ?L x) ns = []" unfolding filter_empty_conv by (metis imageI)
    then show ?thesis unfolding snoc.IH using False by simp
  qed (simp add: snoc.IH)
  show ?case unfolding e f unfolding snoc.IH by auto
qed simp

lemma group_distinct:
  "distinct (map fst (fold (\<lambda>n gs. let l = the (map_of label n) in
        AList.update l ((case map_of gs l of None \<Rightarrow> [] | Some ms \<Rightarrow> ms) @ [n]) gs) ns []))"
  by (induction ns rule: rev_induct) (auto simp: Let_def distinct_update)

section \<open>The labelling\<close>

text \<open>The labelling that the topics are defined by, without dictionaries: the edges between shown names
  that touch a name, with the other end; the weight they give a label; the label of the largest
  weight among the neighbours, the smallest one of equal weight; and the thirty rounds over the
  names in score order, each name from its own index.\<close>

definition touching :: "view \<Rightarrow> string \<Rightarrow> (string \<times> rat) list" where
  "touching v n =
     List.concat (map (\<lambda>(a, b, w).
       if a \<in> set (shown v) \<and> b \<in> set (shown v)
       then (if a = n then [(b, w)] else []) @ (if b = n then [(a, w)] else []) else []) (vw_edges v))"

definition vote :: "view \<Rightarrow> (string \<Rightarrow> nat) \<Rightarrow> string \<Rightarrow> nat \<Rightarrow> rat" where
  "vote v L n l = sum_list (map snd (filter (\<lambda>x. L (fst x) = l) (touching v n)))"

definition neighbour_labels :: "view \<Rightarrow> (string \<Rightarrow> nat) \<Rightarrow> string \<Rightarrow> nat set" where
  "neighbour_labels v L n = (\<lambda>x. L (fst x)) ` set (touching v n)"

definition heaviest :: "view \<Rightarrow> (string \<Rightarrow> nat) \<Rightarrow> string \<Rightarrow> nat" where
  "heaviest v L n =
     (if touching v n = [] then L n
      else Min {l \<in> neighbour_labels v L n. \<forall>k\<in>neighbour_labels v L n. vote v L n k \<le> vote v L n l})"

definition label_round :: "view \<Rightarrow> (string \<Rightarrow> nat) \<Rightarrow> string \<Rightarrow> nat" where
  "label_round v L = fold (\<lambda>n L. L(n := heaviest v L n)) (shown v) L"

definition topic_label :: "view \<Rightarrow> string \<Rightarrow> nat" where
  "topic_label v = (label_round v ^^ 30) (\<lambda>n. Max {i. i < length (shown v) \<and> shown v ! i = n})"

text \<open>A dictionary of weights that were added up.\<close>

definition sums_of :: "('k \<times> rat) list \<Rightarrow> ('k \<times> rat) list \<Rightarrow> bool" where
  "sums_of T d = (distinct (map fst d) \<and> fst ` set d = fst ` set T \<and>
     (\<forall>P. sum_list (map snd (filter (\<lambda>x. P (fst x)) d)) = sum_list (map snd (filter (\<lambda>x. P (fst x)) T))))"

lemma sum_update:
  assumes "distinct (map fst d)"
  shows "sum_list (map snd (filter (\<lambda>x. P (fst x)) (AList.update k ((case map_of d k of None \<Rightarrow> 0 | Some x \<Rightarrow> x) + w) d))) =
    sum_list (map snd (filter (\<lambda>x. P (fst x)) d)) + (if P k then w else (0 :: rat))"
  using assms
proof (induction d)
  case (Cons e d)
  obtain a x where e: "e = (a, x)" by (cases e)
  show ?case using Cons by (cases "a = k") (auto simp: e add.assoc)
qed simp

lemma sums_of_add:
  assumes "sums_of T d"
  shows "sums_of (T @ [(k, w)]) (AList.update k ((case map_of d k of None \<Rightarrow> 0 | Some x \<Rightarrow> x) + w) d)"
  using assms sum_update [of d _ k w] by (simp add: sums_of_def distinct_update set_update_fst)

lemma sums_of_Nil: "sums_of [] []"
  by (simp add: sums_of_def)

lemma adjacency_sums:
  "if n \<in> set (shown v) then \<exists>row. map_of (adjacency v) n = Some row \<and> sums_of (touching v n) row
   else map_of (adjacency v) n = None"
proof -
  let ?S = "set (shown v)"
  let ?T = "\<lambda>es n. List.concat (map (\<lambda>(a, b, w). if a \<in> ?S \<and> b \<in> ?S
      then (if a = n then [(b, w)] else []) @ (if b = n then [(a, w)] else []) else []) es)"
  let ?f = "\<lambda>(a, b, w) adj. if a \<in> ?S \<and> b \<in> ?S then add_weight b a w (add_weight a b w adj) else adj"
  define I where "I T adj = (\<forall>n. if n \<in> ?S then \<exists>row. map_of adj n = Some row \<and> sums_of (T n) row else map_of adj n = None)"
    for T :: "string \<Rightarrow> (string \<times> rat) list" and adj :: "(string \<times> (string \<times> rat) list) list"
  have add: "I (T(a := T a @ [(b, w)])) (add_weight a b w adj)" if inv: "I T adj" and a: "a \<in> ?S" for T adj a b w
  proof -
    obtain row where row: "map_of adj a = Some row" "sums_of (T a) row" using inv a unfolding I_def by metis
    then have "map_of (add_weight a b w adj) n = (if n = a
        then Some (AList.update b ((case map_of row b of None \<Rightarrow> 0 | Some x \<Rightarrow> x) + w) row) else map_of adj n)" for n
      by (simp add: add_weight_def update_conv')
    then show ?thesis using inv a sums_of_add [OF row(2)] by (auto simp: I_def)
  qed
  have "I (?T es) (fold ?f es (map (\<lambda>n. (n, [])) (dedup (shown v))))" for es
  proof (induction es rule: rev_induct)
    case Nil
    then show ?case by (auto simp: I_def map_of_map_restrict restrict_map_def sums_of_Nil)
  next
    case (snoc e es)
    obtain a b w where e: "e = (a, b, w)" by (cases e)
    let ?adj = "fold ?f es (map (\<lambda>n. (n, [])) (dedup (shown v)))"
    have f: "fold ?f (es @ [e]) (map (\<lambda>n. (n, [])) (dedup (shown v))) = ?f e ?adj" by simp
    show ?case
    proof (cases "a \<in> ?S \<and> b \<in> ?S")
      case True
      let ?T1 = "(?T es)(a := ?T es a @ [(b, w)])"
      have "I (?T1(b := ?T1 b @ [(a, w)])) (add_weight b a w (add_weight a b w ?adj))"
        by (rule add [OF add [OF snoc.IH]]) (use True in auto)
      moreover have "?T1(b := ?T1 b @ [(a, w)]) = ?T (es @ [e])" using True by (auto simp: e fun_eq_iff)
      moreover have "?f e ?adj = add_weight b a w (add_weight a b w ?adj)" using True by (simp add: e)
      ultimately show ?thesis unfolding f by (simp only:)
    next
      case False
      then have "?T (es @ [e]) = ?T es" "?f e ?adj = ?adj" by (auto simp: e fun_eq_iff)
      then show ?thesis unfolding f using snoc.IH by (simp only:)
    qed
  qed
  from this [of "vw_edges v"] show ?thesis
    unfolding adjacency_def touching_def Let_def shown_def [symmetric] I_def by blast
qed

text \<open>What a label dictionary and a labelling have in common.\<close>

definition labels_are :: "view \<Rightarrow> (string \<times> nat) list \<Rightarrow> (string \<Rightarrow> nat) \<Rightarrow> bool" where
  "labels_are v label L = (\<forall>n\<in>set (shown v). map_of label n = Some (L n))"

lemma touching_shown: "fst ` set (touching v n) \<subseteq> set (shown v)"
  by (auto simp: touching_def split: if_splits)

lemma tally_sums:
  assumes row: "sums_of (touching v n) row" and L: "labels_are v label L"
  shows "sums_of (map (\<lambda>(m, w). (L m, w)) row) (tally label row)"
proof -
  let ?f = "\<lambda>(m, w) t. let l = the (map_of label m) in AList.update l ((case map_of t l of None \<Rightarrow> 0 | Some x \<Rightarrow> x) + w) t"
  have "sums_of (map (\<lambda>(m, w). (L m, w)) xs) (fold ?f xs [])" if "fst ` set xs \<subseteq> set (shown v)" for xs
    using that
  proof (induction xs rule: rev_induct)
    case (snoc x xs)
    obtain m w where x: "x = (m, w)" by (cases x)
    have "the (map_of label m) = L m" using L snoc.prems x by (simp add: labels_are_def)
    moreover have "sums_of (map (\<lambda>(m, w). (L m, w)) xs) (fold ?f xs [])" using snoc by simp
    ultimately show ?case using sums_of_add [of "map (\<lambda>(m, w). (L m, w)) xs" "fold ?f xs []" "L m" w] by (simp add: x Let_def)
  qed (simp add: sums_of_Nil)
  moreover have "fst ` set row \<subseteq> set (shown v)" using row touching_shown [of v n] by (simp add: sums_of_def)
  ultimately show ?thesis unfolding tally_def by blast
qed

lemma filter_key: "distinct (map fst d) \<Longrightarrow> (l, w) \<in> set d \<Longrightarrow> filter (\<lambda>x. fst x = l) d = [(l, w)]"
proof (induction d)
  case (Cons e d)
  obtain k x where e: "e = (k, x)" by (cases e)
  show ?case
  proof (cases "k = l")
    case True
    then have "l \<notin> fst ` set d" using Cons.prems(1) e by simp
    then have "filter (\<lambda>x. fst x = l) d = []" "(l, w) \<notin> set d" unfolding filter_empty_conv by (metis fst_conv imageI)+
    then show ?thesis using Cons.prems(2) True e by simp
  qed (use Cons e in auto)
qed simp

lemma sums_ofD:
  "sums_of T d \<Longrightarrow> sum_list (map snd (filter (\<lambda>x. P (fst x)) d)) = sum_list (map snd (filter (\<lambda>x. P (fst x)) T))"
  by (simp add: sums_of_def)

lemma best_is_heaviest:
  assumes row: "sums_of (touching v n) row" and L: "labels_are v label L" and ne: "touching v n \<noteq> []"
  shows "best_label (tally label row) = heaviest v L n"
proof -
  let ?t = "tally label row" and ?C = "neighbour_labels v L n"
  note t = tally_sums [OF row L]
  have keys: "fst ` set ?t = ?C"
  proof -
    have "fst ` set ?t = (\<lambda>x. L (fst x)) ` set row" using t by (simp add: sums_of_def image_image case_prod_beta)
    also have "\<dots> = L ` fst ` set row" by (simp add: image_image)
    also have "\<dots> = ?C" using row by (simp add: sums_of_def neighbour_labels_def image_image)
    finally show ?thesis .
  qed
  have weight: "w = vote v L n l" if m: "(l, w) \<in> set ?t" for l w
  proof -
    have "distinct (map fst ?t)" using t by (simp add: sums_of_def)
    then have "filter (\<lambda>x. fst x = l) ?t = [(l, w)]" using m by (rule filter_key)
    then have "w = sum_list (map snd (filter (\<lambda>x. fst x = l) ?t))" by simp
    also have "\<dots> = sum_list (map snd (filter (\<lambda>x. fst x = l) (map (\<lambda>(m, w). (L m, w)) row)))"
      by (rule sums_ofD [OF t, of "\<lambda>k. k = l"])
    also have "\<dots> = sum_list (map snd (filter (\<lambda>x. L (fst x) = l) row))"
      by (simp add: filter_map comp_def case_prod_beta)
    also have "\<dots> = vote v L n l" unfolding vote_def by (rule sums_ofD [OF row, of "\<lambda>m. L m = l"])
    finally show ?thesis .
  qed
  have tn: "?t \<noteq> []" using keys ne by (auto simp: neighbour_labels_def)
  obtain l w where lw: "arg_min_list (\<lambda>(l, w). (- w, l)) ?t = (l, w)" by force
  have in_t: "(l, w) \<in> set ?t" using arg_min_list_in [OF tn, of "\<lambda>(l, w). (- w, l)"] lw by simp
  have least: "(- w, l) \<le> (- x, k)" if "(k, x) \<in> set ?t" for k x
  proof -
    have "(\<lambda>(l, w). (- w, l)) (arg_min_list (\<lambda>(l, w). (- w, l)) ?t) = Min ((\<lambda>(l, w). (- w, l)) ` set ?t)"
      using tn by (rule f_arg_min_list_f)
    then have "(- w, l) = Min ((\<lambda>(l, w). (- w, l)) ` set ?t)" using lw by simp
    moreover have "(- x, k) \<in> (\<lambda>(l, w). (- w, l)) ` set ?t" using that by force
    ultimately show ?thesis by simp
  qed
  have pairs: "(k, vote v L n k) \<in> set ?t" if "k \<in> ?C" for k
    using that weight unfolding keys [symmetric] by force
  have "heaviest v L n = l" unfolding heaviest_def using ne
  proof (simp, intro Min_eqI)
    show "finite {l \<in> ?C. \<forall>k\<in>?C. vote v L n k \<le> vote v L n l}" by (simp add: neighbour_labels_def)
    have "vote v L n k \<le> w" if "k \<in> ?C" for k using least [OF pairs [OF that]] by auto
    then show "l \<in> {l \<in> ?C. \<forall>k\<in>?C. vote v L n k \<le> vote v L n l}"
      using in_t weight [OF in_t] keys by force
    show "l \<le> k" if k: "k \<in> {l \<in> ?C. \<forall>k\<in>?C. vote v L n k \<le> vote v L n l}" for k
    proof -
      have "k \<in> ?C" "w \<le> vote v L n k" using k in_t weight [OF in_t] keys by force+
      then show ?thesis using least [OF pairs [of k]] by auto
    qed
  qed
  then show ?thesis by (simp add: best_label_def lw)
qed

lemma relabel_is:
  assumes L: "labels_are v label L" and n: "n \<in> set (shown v)"
  shows "labels_are v (fst (relabel (adjacency v) n (label, ch))) (L(n := heaviest v L n)) \<and>
    (snd (relabel (adjacency v) n (label, ch)) \<or> fst (relabel (adjacency v) n (label, ch)) = label \<and> \<not> ch)"
proof -
  obtain row where row: "map_of (adjacency v) n = Some row" "sums_of (touching v n) row"
    using adjacency_sums [of n v] n by auto
  have e: "row = [] \<longleftrightarrow> touching v n = []" using row(2) by (auto simp: sums_of_def)
  show ?thesis
  proof (cases "row = []")
    case True
    then have "heaviest v L n = L n" using e by (simp add: heaviest_def)
    then show ?thesis using L True by (simp add: relabel_def row(1))
  next
    case False
    then have "best_label (tally label row) = heaviest v L n" using best_is_heaviest [OF row(2) L] e by simp
    then show ?thesis using L False n by (auto simp: relabel_def row(1) Let_def labels_are_def update_conv')
  qed
qed

lemma relabel_fold_is:
  assumes "labels_are v label L" "set ns \<subseteq> set (shown v)"
  shows "labels_are v (fst (fold (relabel (adjacency v)) ns (label, ch))) (fold (\<lambda>n L. L(n := heaviest v L n)) ns L) \<and>
    (snd (fold (relabel (adjacency v)) ns (label, ch)) \<or> fst (fold (relabel (adjacency v)) ns (label, ch)) = label \<and> \<not> ch)"
  using assms
proof (induction ns arbitrary: label L ch)
  case (Cons n ns)
  obtain label1 ch1 where r: "relabel (adjacency v) n (label, ch) = (label1, ch1)" by force
  have "labels_are v label1 (L(n := heaviest v L n))" "ch1 \<or> label1 = label \<and> \<not> ch"
    using relabel_is [OF Cons.prems(1), of n ch] Cons.prems(2) r by auto
  note c = this(2) and ih = Cons.IH [OF this(1), of ch1]
  have e: "fold (relabel (adjacency v)) (n # ns) (label, ch) = fold (relabel (adjacency v)) ns (label1, ch1)" by (simp add: r)
  have e2: "fold (\<lambda>n L. L(n := heaviest v L n)) (n # ns) L = fold (\<lambda>n L. L(n := heaviest v L n)) ns (L(n := heaviest v L n))" by simp
  show ?case unfolding e e2 using ih c Cons.prems(2) by (metis (no_types, lifting) set_subset_Cons subset_trans)
qed auto

text \<open>A round depends on the labels of shown names only, so a round that changes none ends the changes.\<close>

lemma heaviest_cong: "\<forall>m\<in>set (shown v). L m = L' m \<Longrightarrow> n \<in> set (shown v) \<Longrightarrow> heaviest v L n = heaviest v L' n"
proof -
  assume L: "\<forall>m\<in>set (shown v). L m = L' m" and n: "n \<in> set (shown v)"
  have same: "\<forall>x\<in>set (touching v n). L (fst x) = L' (fst x)" using L touching_shown [of v n] by blast
  then have "neighbour_labels v L n = neighbour_labels v L' n" by (simp add: neighbour_labels_def)
  moreover have "vote v L n l = vote v L' n l" for l
    unfolding vote_def using same by (intro arg_cong [where f = "\<lambda>xs. sum_list (map snd xs)"] filter_cong) auto
  ultimately show ?thesis using L n by (simp add: heaviest_def)
qed

lemma label_round_cong:
  assumes "\<forall>m\<in>set (shown v). L m = L' m"
  shows "\<forall>m\<in>set (shown v). label_round v L m = label_round v L' m"
proof -
  have "\<forall>m\<in>set (shown v). fold (\<lambda>n L. L(n := heaviest v L n)) ns L m = fold (\<lambda>n L. L(n := heaviest v L n)) ns L' m"
    if "\<forall>m\<in>set (shown v). L m = L' m" "set ns \<subseteq> set (shown v)" for ns L L'
    using that
  proof (induction ns arbitrary: L L')
    case (Cons n ns)
    have "\<forall>m\<in>set (shown v). (L(n := heaviest v L n)) m = (L'(n := heaviest v L' n)) m"
      using Cons.prems heaviest_cong [OF Cons.prems(1), of n] by simp
    then show ?case using Cons.IH [of "L(n := heaviest v L n)" "L'(n := heaviest v L' n)"] Cons.prems(2) by simp
  qed simp
  then show ?thesis using assms by (simp add: label_round_def)
qed

lemma label_rounds_stable:
  assumes "\<forall>m\<in>set (shown v). label_round v L m = L m"
  shows "\<forall>m\<in>set (shown v). (label_round v ^^ k) L m = L m"
proof (induction k)
  case (Suc k)
  then have "\<forall>m\<in>set (shown v). label_round v ((label_round v ^^ k) L) m = label_round v L m"
    by (rule label_round_cong)
  then show ?case using assms by simp
qed simp

lemma propagate_is:
  "labels_are v label L \<Longrightarrow> labels_are v (propagate k (adjacency v) (shown v) label) ((label_round v ^^ k) L)"
proof (induction k arbitrary: label L)
  case (Suc k)
  obtain label1 ch where f: "fold (relabel (adjacency v)) (shown v) (label, False) = (label1, ch)" by force
  have r: "labels_are v label1 (label_round v L)" "ch \<or> label1 = label"
    using relabel_fold_is [OF Suc.prems subset_refl, of False] f by (auto simp: label_round_def)
  show ?case
  proof (cases ch)
    case True
    then show ?thesis using Suc.IH [OF r(1)] f by (simp add: funpow_swap1)
  next
    case False
    then have "\<forall>m\<in>set (shown v). label_round v L m = L m" using r Suc.prems by (simp add: labels_are_def)
    from label_rounds_stable [OF this, of "Suc k"] Suc.prems
    have "labels_are v label ((label_round v ^^ Suc k) L)" by (simp add: labels_are_def)
    then show ?thesis using False f r(2) by simp
  qed
qed simp

lemma initial_are: "labels_are v (initial_labels (shown v)) (\<lambda>n. Max {i. i < length (shown v) \<and> shown v ! i = n})"
proof -
  let ?f = "\<lambda>ns. fold (\<lambda>(i, n) label. AList.update n i label) (enumerate 0 ns) ([] :: (string \<times> nat) list)"
  have "\<forall>n\<in>set ns. map_of (?f ns) n = Some (Max {i. i < length ns \<and> ns ! i = n})" for ns :: "string list"
  proof (induction ns rule: rev_induct)
    case (snoc x ns)
    have u: "?f (ns @ [x]) = AList.update x (length ns) (?f ns)" by (simp add: enumerate_append_eq)
    show ?case
    proof
      fix n assume n: "n \<in> set (ns @ [x])"
      let ?I = "\<lambda>ns. {i. i < length ns \<and> ns ! i = n}"
      show "map_of (?f (ns @ [x])) n = Some (Max (?I (ns @ [x])))"
      proof (cases "n = x")
        case True
        have "Max (?I (ns @ [x])) = length ns" using True by (intro Max_eqI) auto
        then show ?thesis using True by (simp add: u update_conv')
      next
        case False
        then have "?I (ns @ [x]) = ?I ns" by (auto simp: nth_append less_Suc_eq)
        then show ?thesis using snoc.IH n False by (simp add: u update_conv')
      qed
    qed
  qed simp
  then show ?thesis by (simp add: labels_are_def initial_labels_def)
qed

text \<open>C29. The topics of a view are the classes of the labelling of weighted label propagation. Each shown
  name starts with its own label, and thirty times every name in score order takes the label that
  has the largest weight of edges among its neighbours, the smallest one of those with equal weight;
  stopping at the first round without a change gives the same. A topic is all names of one label, in
  score order; there is one for every label with enough names, and they come largest first. Names
  of one topic are joined by a path of co-occurrence edges.\<close>

theorem cluster_focus_correct:
  "set (cluster_focus v m) =
      {filter (\<lambda>n. topic_label v n = l) (shown v) |l.
         l \<in> topic_label v ` set (shown v) \<and> m \<le> length (filter (\<lambda>n. topic_label v n = l) (shown v))} \<and>
    sorted (rev (map length (cluster_focus v m))) \<and>
    (\<forall>x\<in>set (shown v). \<forall>y\<in>set (shown v). topic_label v x = topic_label v y \<longrightarrow> linked v x y)"
proof -
  let ?nodes = "shown v"
  define label where "label = propagate 30 (adjacency v) ?nodes (initial_labels ?nodes)"
  define L where "L = (\<lambda>n. the (map_of label n))"
  have "labels_are v label (topic_label v)"
    unfolding label_def topic_label_def by (rule propagate_is [OF initial_are])
  then have LT: "L n = topic_label v n" if "n \<in> set ?nodes" for n using that by (simp add: L_def labels_are_def)
  have ok: "labels_ok v label" unfolding label_def by (rule propagate_ok [OF adjacency_ok initial_labels_ok])
  have lab: "linked v n (?nodes ! L n)" if "n \<in> set ?nodes" for n
  proof -
    have "n \<in> fst ` set label" using ok that by (simp add: labels_ok_def Let_def)
    then obtain l where "map_of label n = Some l" by (metis domD dom_map_of_conv_image_fst)
    then show ?thesis using ok by (simp add: labels_ok_def Let_def L_def)
  qed
  have conn: "linked v x y" if "x \<in> set ?nodes" "y \<in> set ?nodes" "L x = L y" for x y
  proof -
    have "linked v x (?nodes ! L x)" "linked v (?nodes ! L x) y" using lab [OF that(1)] linked_sym [OF lab [OF that(2)]] that(3) by simp_all
    then show ?thesis by (rule rtrancl_trans)
  qed
  let ?gs = "group_by_label label ?nodes"
  have gs: "map_of ?gs l = (if l \<in> L ` set ?nodes then Some (filter (\<lambda>n. L n = l) ?nodes) else None)" for l
    unfolding group_by_label_def L_def by (rule group_by)
  have d: "distinct (map fst ?gs)" unfolding group_by_label_def by (rule group_distinct)
  have "set (map snd ?gs) = {filter (\<lambda>n. L n = l) ?nodes |l. l \<in> L ` set ?nodes}"
  proof (intro equalityI subsetI)
    fix C assume "C \<in> set (map snd ?gs)"
    then obtain l where "(l, C) \<in> set ?gs" by auto
    then have "map_of ?gs l = Some C" using d by simp
    then show "C \<in> {filter (\<lambda>n. L n = l) ?nodes |l. l \<in> L ` set ?nodes}" unfolding gs by (auto split: if_splits)
  next
    fix C assume "C \<in> {filter (\<lambda>n. L n = l) ?nodes |l. l \<in> L ` set ?nodes}"
    then obtain l where "l \<in> L ` set ?nodes" "C = filter (\<lambda>n. L n = l) ?nodes" by blast
    then have "map_of ?gs l = Some C" unfolding gs by simp
    then have "(l, C) \<in> set ?gs" by (rule map_of_SomeD)
    then show "C \<in> set (map snd ?gs)" by force
  qed
  moreover have cf: "cluster_focus v m = sort_key (\<lambda>c. - int (length c)) (filter (\<lambda>c. m \<le> length c) (map snd ?gs))"
    by (simp add: cluster_focus_def Let_def label_def shown_def)
  ultimately have "set (cluster_focus v m) =
      {filter (\<lambda>n. L n = l) ?nodes |l. l \<in> L ` set ?nodes \<and> m \<le> length (filter (\<lambda>n. L n = l) ?nodes)}"
    by (simp only: set_sort set_filter) blast
  moreover have "filter (\<lambda>n. L n = l) ?nodes = filter (\<lambda>n. topic_label v n = l) ?nodes" for l
    by (rule filter_cong) (simp_all add: LT)
  moreover have "L ` set ?nodes = topic_label v ` set ?nodes" by (simp add: LT)
  ultimately have "set (cluster_focus v m) = {filter (\<lambda>n. topic_label v n = l) ?nodes |l.
      l \<in> topic_label v ` set ?nodes \<and> m \<le> length (filter (\<lambda>n. topic_label v n = l) ?nodes)}" by simp
  moreover have "sorted (rev (map length (cluster_focus v m)))"
  proof -
    have "sorted (map (\<lambda>c. - int (length c)) (cluster_focus v m))" unfolding cf by (rule sorted_sort_key)
    then have "sorted_wrt (\<lambda>x y. length y \<le> length x) (cluster_focus v m)" by (simp add: sorted_map)
    then show ?thesis by (simp add: sorted_wrt_rev sorted_wrt_map)
  qed
  moreover have "\<forall>x\<in>set (shown v). \<forall>y\<in>set (shown v). topic_label v x = topic_label v y \<longrightarrow> linked v x y"
    using conn by (simp add: LT)
  ultimately show ?thesis by blast
qed

definition demo_node :: "string \<Rightarrow> view_node" where
  "demo_node n = \<lparr>vn_name = n, vn_kind = ''concept'', vn_weight = 1, vn_recency = 1, vn_count = 1, vn_degree = 1, vn_pin = 0,
     vn_last = 0, vn_frontier = False\<rparr>"

definition demo_view :: view where
  "demo_view = \<lparr>vw_turn = 1, vw_nodes = [demo_node ''a'', demo_node ''b'', demo_node ''c''], vw_edges = [(''a'', ''b'', 2)],
     vw_focus = [''a'', ''b'', ''c'']\<rparr>"

theorem cluster_focus_correct_witness:
  "cluster_focus demo_view 1 = [[''a'', ''b''], [''c'']] \<and> linked demo_view ''a'' ''b''"
proof
  note k = cluster_focus_correct [of demo_view 1]
  show c: "cluster_focus demo_view 1 = [[''a'', ''b''], [''c'']]" by code_simp
  then have "[''a'', ''b''] \<in> set (cluster_focus demo_view 1)" by simp
  then obtain l where "[''a'', ''b''] = filter (\<lambda>n. topic_label demo_view n = l) (shown demo_view)"
    unfolding conjunct1 [OF k] by blast
  then have f: "{''a'', ''b''} = {n \<in> set (shown demo_view). topic_label demo_view n = l}"
    by (metis set_filter list.set(1) list.set(2))
  then have "''a'' \<in> {n \<in> set (shown demo_view). topic_label demo_view n = l}"
    "''b'' \<in> {n \<in> set (shown demo_view). topic_label demo_view n = l}" by (simp_all flip: f)
  then show "linked demo_view ''a'' ''b''" using k by simp
qed

end
