(* ===== verification/LearnQueue.thy ===== *)
theory LearnQueue
  imports Prelude
begin

text \<open>
  The durable queue of teach records: \<open>learn_queue.py\<close>, the switch \<open>learn_switch.py\<close> that
  turns learning off, and \<open>_drain_learn_queue\<close> of \<open>daemon.py\<close>, the tick that applies the
  queue. The queue file is the list of its lines, a line being what \<open>json.loads\<close> makes of it;
  a rotated file that was not removed stays in \<^term>\<open>stranded\<close>. The proofs are in QueueFacts.
\<close>

section \<open>The switch\<close>

record verdict =
  dc_enabled :: bool
  dc_rule :: string
  dc_rejected :: "string option"
  dc_problems :: "string list"

text \<open>What \<open>os.stat\<close> says of a marker file: there, absent, or another error.\<close>

datatype marker = Present | Absent | Unreadable string

definition off_values :: "string list" where
  "off_values = [''0'', ''off'', ''false'', ''no'']"

definition on_values :: "string list" where
  "on_values = [''1'', ''on'', ''true'', ''yes'']"

definition env_value :: "string option \<Rightarrow> bool option \<times> string option" where
  "env_value raw =
     (case raw of None \<Rightarrow> (None, None)
      | Some r \<Rightarrow>
          let val = str_lower (strip r) in
          if val \<in> set off_values then (Some False, None)
          else if val \<in> set on_values then (Some True, None)
          else (None, Some r))"

text \<open>\<open>store\<close> is \<open>None\<close> when there is no root to look in.\<close>

definition decision :: "string option \<Rightarrow> marker option \<Rightarrow> marker \<Rightarrow> verdict" where
  "decision env store global =
     (let (enabled, rejected) = env_value env in
      case enabled of
        Some b \<Rightarrow> \<lparr>dc_enabled = b, dc_rule = ''env'', dc_rejected = rejected, dc_problems = []\<rparr>
      | None \<Rightarrow>
          let problems = (case store of Some (Unreadable e) \<Rightarrow> [e] | _ \<Rightarrow> []) in
          if store = Some Present
          then \<lparr>dc_enabled = False, dc_rule = ''store-marker'', dc_rejected = rejected, dc_problems = []\<rparr>
          else case global of
            Present \<Rightarrow> \<lparr>dc_enabled = False, dc_rule = ''global-marker'', dc_rejected = rejected, dc_problems = problems\<rparr>
          | Absent \<Rightarrow> \<lparr>dc_enabled = True, dc_rule = ''default'', dc_rejected = rejected, dc_problems = problems\<rparr>
          | Unreadable e \<Rightarrow>
              \<lparr>dc_enabled = True, dc_rule = ''default'', dc_rejected = rejected, dc_problems = problems @ [e]\<rparr>)"

definition learning_enabled :: "string option \<Rightarrow> marker option \<Rightarrow> marker \<Rightarrow> bool" where
  "learning_enabled env store global = dc_enabled (decision env store global)"

text \<open>\<open>set_enabled\<close> on the two markers; the root is present for the store scope or it is refused.\<close>

definition set_enabled :: "bool \<Rightarrow> bool \<Rightarrow> string \<Rightarrow> marker \<times> marker \<Rightarrow> (marker \<times> marker) result" where
  "set_enabled has_root on scope ms =
     (if scope \<noteq> ''store'' \<and> scope \<noteq> ''global'' then Inl (ValueError ''scope must be store or global'')
      else if scope = ''store'' \<and> \<not> has_root then Inl (ValueError ''store scope needs a store root'')
      else let m = (if on then Absent else Present) in
           Inr (if scope = ''store'' then (m, snd ms) else (fst ms, m)))"

section \<open>JSON values as Python objects\<close>

text \<open>The values \<open>json.loads\<close> returns; an object is its dictionary. The non-finite literals
  are left out.\<close>

datatype json =
    JNull
  | JBool bool
  | JInt int
  | JFloat rat
  | JStr string
  | JList "json list"
  | JObj "(string \<times> json) list"

fun truthy :: "json \<Rightarrow> bool" where
  "truthy JNull = False"
| "truthy (JBool b) = b"
| "truthy (JInt i) = (i \<noteq> 0)"
| "truthy (JFloat r) = (r \<noteq> 0)"
| "truthy (JStr s) = (s \<noteq> [])"
| "truthy (JList js) = (js \<noteq> [])"
| "truthy (JObj kv) = (kv \<noteq> [])"

text \<open>\<open>d[k]\<close> of a string key: an error (\<open>KeyError\<close>, or \<open>TypeError\<close> when \<open>d\<close> is no
  dictionary) is \<open>None\<close>.\<close>

fun field :: "string \<Rightarrow> json \<Rightarrow> json option" where
  "field k (JObj kv) = map_of kv k"
| "field k _ = None"

text \<open>A value as a dictionary key. Booleans, integers and floats with the same value are one
  key; lists and dictionaries are not hashable.\<close>

fun py_key :: "json \<Rightarrow> json option" where
  "py_key JNull = Some JNull"
| "py_key (JBool b) = Some (JFloat (if b then 1 else 0))"
| "py_key (JInt i) = Some (JFloat (of_int i))"
| "py_key (JFloat r) = Some (JFloat r)"
| "py_key (JStr s) = Some (JStr s)"
| "py_key (JList js) = None"
| "py_key (JObj kv) = None"

text \<open>\<open>int(s)\<close>: white space and a sign, then digits with single underscores between them; more
  than 4300 digits are refused.\<close>

fun digit_groups :: "string \<Rightarrow> bool" where
  "digit_groups [] = False"
| "digit_groups [c] = is_digit c"
| "digit_groups (c # d # s) = (is_digit c \<and> (if d = CHR ''_'' then digit_groups s else digit_groups (d # s)))"

definition digits_int :: "string \<Rightarrow> int" where
  "digits_int ds = foldl (\<lambda>n c. 10 * n + (of_char c - 48)) 0 ds"

definition parse_unsigned :: "string \<Rightarrow> int option" where
  "parse_unsigned s =
     (let ds = filter (\<lambda>c. c \<noteq> CHR ''_'') s in
      if digit_groups s \<and> length ds \<le> 4300 then Some (digits_int ds) else None)"

definition parse_int :: "string \<Rightarrow> int option" where
  "parse_int s =
     (case strip s of
        [] \<Rightarrow> None
      | c # r \<Rightarrow>
          if c = CHR ''-'' then map_option uminus (parse_unsigned r)
          else if c = CHR ''+'' then parse_unsigned r
          else parse_unsigned (c # r))"

fun py_int :: "json \<Rightarrow> int option" where
  "py_int JNull = None"
| "py_int (JBool b) = Some (if b then 1 else 0)"
| "py_int (JInt i) = Some i"
| "py_int (JFloat r) = Some (if 0 \<le> r then \<lfloor>r\<rfloor> else \<lceil>r\<rceil>)"
| "py_int (JStr s) = parse_int s"
| "py_int (JList js) = None"
| "py_int (JObj kv) = None"

section \<open>The queue file\<close>

text \<open>A line of the file: blank, not JSON, or a JSON value.\<close>

datatype qline = Blank | Torn | Rec json

type_synonym hit = "json \<times> int"

record batch =
  bt_entries :: "(json \<times> hit list) list"
  bt_malformed :: nat
  bt_overflow :: nat
  bt_lines :: nat

record queue =
  pending :: "qline list option"
  stranded :: "qline list list"

definition empty_batch :: batch where
  "empty_batch = \<lparr>bt_entries = [], bt_malformed = 0, bt_overflow = 0, bt_lines = 0\<rparr>"

definition teach_record :: "rat \<Rightarrow> json \<Rightarrow> json list \<Rightarrow> json" where
  "teach_record now pattern hits =
     JObj [(''ts'', JFloat now), (''pattern'', pattern), (''hits'', JList hits)]"

definition lines_of :: "queue \<Rightarrow> qline list" where
  "lines_of q = (case pending q of None \<Rightarrow> [] | Some ls \<Rightarrow> ls)"

definition enqueue :: "rat \<Rightarrow> json \<Rightarrow> json list \<Rightarrow> queue \<Rightarrow> nat \<times> queue" where
  "enqueue now pattern hits q =
     (if \<not> truthy pattern \<or> hits = [] then (0, q)
      else (1, q\<lparr>pending := Some (lines_of q @ [Rec (teach_record now pattern hits)])\<rparr>))"

definition rotate_queue :: "queue \<Rightarrow> qline list option \<times> queue" where
  "rotate_queue q = (pending q, q\<lparr>pending := None\<rparr>)"

text \<open>The first loop: the usable records in file order, with the lines and the rejects counted.\<close>

definition usable :: "qline \<Rightarrow> (json \<times> json list) option" where
  "usable l =
     (case l of
        Rec r \<Rightarrow>
          (case (field ''pattern'' r, field ''hits'' r) of
             (Some p, Some (JList hs)) \<Rightarrow> if truthy p then Some (p, hs) else None
           | _ \<Rightarrow> None)
      | _ \<Rightarrow> None)"

fun scan_lines :: "qline list \<Rightarrow> (json \<times> json list) list \<times> nat \<times> nat" where
  "scan_lines [] = ([], 0, 0)"
| "scan_lines (l # ls) =
     (case scan_lines ls of
        (raw, n, bad) \<Rightarrow>
          if l = Blank then (raw, n, bad)
          else case usable l of
            None \<Rightarrow> (raw, Suc n, Suc bad)
          | Some r \<Rightarrow> (r # raw, Suc n, bad))"

definition max_queue_lines :: int where
  "max_queue_lines = 5000"

text \<open>\<open>raw[-cap:]\<close>, a Python slice: \<open>-0\<close> is the whole list.\<close>

definition keep_newest :: "int \<Rightarrow> 'a list \<Rightarrow> nat \<times> 'a list" where
  "keep_newest cap raw =
     (if cap < int (length raw)
      then (nat (int (length raw) - cap),
            if cap \<le> 0 then drop (nat (- cap)) raw else drop (length raw - nat cap) raw)
      else (0, raw))"

text \<open>The hits of one pattern, a dictionary in insertion order. An unusable hit is counted;
  one whose file is not hashable raises.\<close>

fun add_hits :: "json list \<Rightarrow> ((json \<times> int) \<times> hit) list \<Rightarrow> (((json \<times> int) \<times> hit) list \<times> nat) option" where
  "add_hits [] m = Some (m, 0)"
| "add_hits (h # hs) m =
     (case (field ''file'' h, field ''line'' h) of
        (Some f, Some l) \<Rightarrow>
          (case py_int l of
             None \<Rightarrow> map_option (apsnd Suc) (add_hits hs m)
           | Some n \<Rightarrow>
               (case py_key f of
                  None \<Rightarrow> None
                | Some k \<Rightarrow>
                    add_hits hs (dict_setdefault (k, n) (f, n) m)))
      | _ \<Rightarrow> map_option (apsnd Suc) (add_hits hs m))"

text \<open>The dictionary of patterns, each with the value that came first and its hits, in
  first-seen order.\<close>

type_synonym merged_dict = "(json \<times> json \<times> ((json \<times> int) \<times> hit) list) list"

fun merge_raw :: "(json \<times> json list) list \<Rightarrow> merged_dict \<Rightarrow> (merged_dict \<times> nat) option" where
  "merge_raw [] m = Some (m, 0)"
| "merge_raw ((p, hs) # raw) m =
     (case py_key p of
        None \<Rightarrow> None
      | Some k \<Rightarrow>
          let (p0, old) = (case map_of m k of None \<Rightarrow> (p, []) | Some e \<Rightarrow> e) in
          case add_hits hs old of
            None \<Rightarrow> None
          | Some (new, bad) \<Rightarrow> map_option (apsnd ((+) bad)) (merge_raw raw (AList.update k (p0, new) m)))"

definition merged_entries :: "merged_dict \<Rightarrow> (json \<times> hit list) list" where
  "merged_entries m =
     map (\<lambda>(k, p, hs). (p, map snd hs)) (filter (\<lambda>(k, p, hs). hs \<noteq> []) m)"

text \<open>\<open>read_rotated\<close> on the lines of a rotated file: \<open>None\<close> when it raises.\<close>

definition read_lines :: "int \<Rightarrow> qline list \<Rightarrow> batch option" where
  "read_lines cap ls =
     (case scan_lines ls of
        (raw, n, bad) \<Rightarrow>
          case keep_newest cap raw of
            (over, raw') \<Rightarrow>
              map_option (\<lambda>(m, bad'). \<lparr>bt_entries = merged_entries m, bt_malformed = bad + bad',
                                       bt_overflow = over, bt_lines = n\<rparr>) (merge_raw raw' []))"

text \<open>\<open>drain\<close>: the rotated file is removed at the end of a read that did not raise.\<close>

definition drain :: "int \<Rightarrow> queue \<Rightarrow> batch result \<times> queue" where
  "drain cap q =
     (case rotate_queue q of
        (None, q1) \<Rightarrow> (Inr empty_batch, q1)
      | (Some ls, q1) \<Rightarrow>
          (case read_lines cap ls of
             None \<Rightarrow> (Inl (TypeErr ''unhashable''), q1\<lparr>stranded := stranded q1 @ [ls]\<rparr>)
           | Some b \<Rightarrow> (Inr b, q1)))"

definition hit_object :: "hit \<Rightarrow> json" where
  "hit_object h = JObj [(''file'', fst h), (''line'', JInt (snd h))]"

fun requeue :: "rat \<Rightarrow> (json \<times> hit list) list \<Rightarrow> queue \<Rightarrow> nat \<times> queue" where
  "requeue now [] q = (0, q)"
| "requeue now ((p, hs) # es) q =
     (case enqueue now p (map hit_object hs) q of
        (i, q1) \<Rightarrow> case requeue now es q1 of (n, q2) \<Rightarrow> (i + n, q2))"

definition pending_lines :: "queue \<Rightarrow> nat" where
  "pending_lines q = length (lines_of q)"

section \<open>The tick of the daemon\<close>

text \<open>What \<open>_learn_grep_hits\<close> ends with: the files it added, an error, or one that says the
  store is invalid.\<close>

datatype learned = Added nat | Failed | Invalid

record progress =
  pg_applied :: nat
  pg_failed :: nat
  pg_done :: nat
  pg_stopped :: string

record tick =
  tk_applied :: nat
  tk_patterns :: nat
  tk_failed :: nat
  tk_malformed :: nat
  tk_overflow :: nat
  tk_stopped :: string
  tk_pending :: nat
  tk_snapshot :: bool

text \<open>The loop over the entries. \<open>stop i\<close> is what the shutdown event and the clock say before
  entry \<open>i\<close>; the empty string is to go on.\<close>

fun apply_entries ::
  "(nat \<Rightarrow> string) \<Rightarrow> (json \<Rightarrow> hit list \<Rightarrow> 's \<Rightarrow> learned \<times> 's) \<Rightarrow> nat \<Rightarrow> (json \<times> hit list) list \<Rightarrow> 's \<Rightarrow>
     progress \<times> 's" where
  "apply_entries stop learn i [] s = (\<lparr>pg_applied = 0, pg_failed = 0, pg_done = 0, pg_stopped = []\<rparr>, s)"
| "apply_entries stop learn i ((p, hs) # es) s =
     (if stop i \<noteq> [] then (\<lparr>pg_applied = 0, pg_failed = 0, pg_done = 0, pg_stopped = stop i\<rparr>, s)
      else case learn p hs s of
        (Invalid, s1) \<Rightarrow> (\<lparr>pg_applied = 0, pg_failed = 0, pg_done = 0, pg_stopped = ''store-invalid''\<rparr>, s1)
      | (Failed, s1) \<Rightarrow>
          (case apply_entries stop learn (Suc i) es s1 of
             (g, s2) \<Rightarrow> (g\<lparr>pg_failed := Suc (pg_failed g), pg_done := Suc (pg_done g)\<rparr>, s2))
      | (Added n, s1) \<Rightarrow>
          (case apply_entries stop learn (Suc i) es s1 of
             (g, s2) \<Rightarrow> (g\<lparr>pg_applied := n + pg_applied g, pg_done := Suc (pg_done g)\<rparr>, s2)))"

definition empty_tick :: tick where
  "empty_tick = \<lparr>tk_applied = 0, tk_patterns = 0, tk_failed = 0, tk_malformed = 0, tk_overflow = 0,
     tk_stopped = [], tk_pending = 0, tk_snapshot = False\<rparr>"

definition drain_tick ::
  "bool \<Rightarrow> int \<Rightarrow> (nat \<Rightarrow> string) \<Rightarrow> (json \<Rightarrow> hit list \<Rightarrow> 's \<Rightarrow> learned \<times> 's) \<Rightarrow> rat \<Rightarrow>
     queue \<times> 's \<Rightarrow> tick result \<times> (queue \<times> 's)" where
  "drain_tick enabled cap stop learn now qs =
     (let (q, s) = qs in
      if \<not> enabled
      then (Inr (empty_tick\<lparr>tk_stopped := ''learning-disabled'', tk_pending := pending_lines q\<rparr>), (q, s))
      else case drain cap q of
        (Inl e, q1) \<Rightarrow> (Inl e, (q1, s))
      | (Inr b, q1) \<Rightarrow>
          if bt_entries b = [] \<and> bt_malformed b = 0 \<and> bt_overflow b = 0 then (Inr empty_tick, (q1, s))
          else case apply_entries stop learn 0 (bt_entries b) s of
            (g, s1) \<Rightarrow>
              let leftover = drop (pg_done g) (bt_entries b);
                  q2 = (if leftover = [] then q1 else snd (requeue now leftover q1))
              in (Inr (empty_tick\<lparr>tk_applied := pg_applied g, tk_patterns := length (bt_entries b),
                                  tk_failed := pg_failed g, tk_malformed := bt_malformed b,
                                  tk_overflow := bt_overflow b, tk_stopped := pg_stopped g,
                                  tk_snapshot := (0 < pg_applied g)\<rparr>), (q2, s1)))"
end
