(* ===== verification/QueueFacts.thy ===== *)
theory QueueFacts
  imports LearnQueue
begin

text \<open>
  What the learn queue guarantees: reading a queue file is the declarative coalescing of its
  usable records, draining a requeued rest returns that rest, and ticks that are cut off apply
  the entries that one uninterrupted drain applies.
\<close>

section \<open>First occurrences\<close>

fun first_by :: "('a \<Rightarrow> 'b) \<Rightarrow> 'a list \<Rightarrow> 'a list" where
  "first_by f [] = []"
| "first_by f (x # xs) = x # filter (\<lambda>y. f y \<noteq> f x) (first_by f xs)"

lemma first_by_image [simp]: "f ` set (first_by f xs) = f ` set xs"
proof (induction xs)
  case (Cons x xs)
  have "insert (f x) (f ` {y \<in> set (first_by f xs). f y \<noteq> f x}) = insert (f x) (f ` set (first_by f xs))"
    by auto
  then show ?case using Cons by simp
qed simp

lemma first_by_subset: "set (first_by f xs) \<subseteq> set xs"
  by (induction xs) auto

lemma first_by_eq_Nil [simp]: "first_by f xs = [] \<longleftrightarrow> xs = []"
  by (cases xs) simp_all

lemma distinct_first_by: "distinct (map f (first_by f xs))"
proof (induction xs)
  case (Cons x xs)
  then show ?case by (auto simp: distinct_map inj_on_def)
qed simp

lemma first_by_snoc: "first_by f (xs @ [x]) = first_by f xs @ (if f x \<in> f ` set xs then [] else [x])"
  by (induction xs) auto

lemma first_by_id: "distinct (map f xs) \<Longrightarrow> first_by f xs = xs"
proof (induction xs)
  case (Cons x xs)
  then have "filter (\<lambda>y. f y \<noteq> f x) xs = xs" by (intro filter_True) (auto simp: image_iff)
  then show ?case using Cons by simp
qed simp

lemma length_first_by: "length (first_by f xs) \<le> length xs"
proof (induction xs)
  case (Cons x xs)
  then show ?case using le_trans [OF length_filter_le [of "\<lambda>y. f y \<noteq> f x" "first_by f xs"]] by simp
qed simp

lemma update_tagged:
  assumes "distinct (map k rs)"
  shows "AList.update k0 v (map (\<lambda>r. (k r, f r)) rs) =
           map (\<lambda>r. (k r, if k r = k0 then v else f r)) rs @ (if k0 \<in> k ` set rs then [] else [(k0, v)])"
  using assms by (induction rs) (auto simp: image_iff intro!: map_cong)

section \<open>Reading is coalescing\<close>

text \<open>The specification: the usable hits of a record, the key a hit has, the records whose
  keys can be hashed, and one entry for each pattern.\<close>

definition hit_of :: "json \<Rightarrow> hit option" where
  "hit_of h =
     (case (field ''file'' h, field ''line'' h) of
        (Some f, Some l) \<Rightarrow> map_option (Pair f) (py_int l)
      | _ \<Rightarrow> None)"

definition good_hits :: "json list \<Rightarrow> hit list" where
  "good_hits hs = List.map_filter hit_of hs"

definition bad_hits :: "json list \<Rightarrow> nat" where
  "bad_hits hs = length (filter (\<lambda>h. hit_of h = None) hs)"

definition hit_key :: "hit \<Rightarrow> json \<times> int" where
  "hit_key h = (the (py_key (fst h)), snd h)"

definition record_key :: "json \<times> 'a \<Rightarrow> json option" where
  "record_key r = py_key (fst r)"

definition hashable_hits :: "hit list \<Rightarrow> bool" where
  "hashable_hits hs = list_all (\<lambda>h. py_key (fst h) \<noteq> None) hs"

definition hashable :: "json \<times> json list \<Rightarrow> bool" where
  "hashable r = (record_key r \<noteq> None \<and> hashable_hits (good_hits (snd r)))"

definition hits_for :: "json option \<Rightarrow> (json \<times> json list) list \<Rightarrow> hit list" where
  "hits_for k raw = List.concat (map (\<lambda>r. good_hits (snd r)) (filter (\<lambda>r. record_key r = k) raw))"

definition coalesced :: "(json \<times> json list) list \<Rightarrow> (json \<times> hit list) list" where
  "coalesced raw =
     filter (\<lambda>e. snd e \<noteq> [])
       (map (\<lambda>r. (fst r, first_by hit_key (hits_for (record_key r) raw))) (first_by record_key raw))"

definition tagged :: "hit list \<Rightarrow> ((json \<times> int) \<times> hit) list" where
  "tagged hs = map (\<lambda>h. (hit_key h, h)) hs"

lemma map_of_tagged: "map_of (tagged hs) k = None \<longleftrightarrow> k \<notin> hit_key ` set hs"
  by (auto simp: tagged_def map_of_eq_None_iff image_image)

lemma add_tagged:
  "dict_setdefault (hit_key h) h (tagged (first_by hit_key as)) = tagged (first_by hit_key (as @ [h]))"
  by (simp add: dict_setdefault_def map_of_tagged first_by_snoc) (simp add: tagged_def)

lemma good_hits_simps [simp]:
  "good_hits [] = []" "bad_hits [] = 0"
  "good_hits (h # hs) = (case hit_of h of None \<Rightarrow> good_hits hs | Some x \<Rightarrow> x # good_hits hs)"
  "bad_hits (h # hs) = (if hit_of h = None then Suc (bad_hits hs) else bad_hits hs)"
  by (simp_all add: good_hits_def bad_hits_def List.map_filter_simps split: option.split)

lemma add_hits_step:
  "add_hits (h # hs) m =
     (case hit_of h of
        None \<Rightarrow> map_option (apsnd Suc) (add_hits hs m)
      | Some (f, n) \<Rightarrow>
          (case py_key f of None \<Rightarrow> None | Some k \<Rightarrow> add_hits hs (dict_setdefault (k, n) (f, n) m)))"
  by (simp add: hit_of_def split: option.split)

lemma add_hits_tagged:
  "add_hits hs (tagged (first_by hit_key as)) =
     (if hashable_hits (good_hits hs)
      then Some (tagged (first_by hit_key (as @ good_hits hs)), bad_hits hs) else None)"
proof (induction hs arbitrary: as)
  case (Cons h hs)
  show ?case
  proof (cases "hit_of h")
    case None
    then show ?thesis by (simp add: add_hits_step Cons.IH del: add_hits.simps)
  next
    case (Some x)
    obtain f n where x: "x = (f, n)" by (cases x)
    show ?thesis
    proof (cases "py_key f")
      case None
      then show ?thesis using Some x by (simp add: add_hits_step hashable_hits_def del: add_hits.simps)
    next
      fix k assume k: "py_key f = Some k"
      then have "(k, n) = hit_key (f, n)" by (simp add: hit_key_def)
      then have "dict_setdefault (k, n) (f, n) (tagged (first_by hit_key as)) = tagged (first_by hit_key (as @ [(f, n)]))"
        using add_tagged by metis
      then show ?thesis using Some x k
        by (simp add: add_hits_step hashable_hits_def Cons.IH del: add_hits.simps)
    qed
  qed
qed (simp add: hashable_hits_def)

definition merged_of :: "(json \<times> json list) list \<Rightarrow> merged_dict" where
  "merged_of raw =
     map (\<lambda>r. (the (record_key r), fst r, tagged (first_by hit_key (hits_for (record_key r) raw))))
       (first_by record_key raw)"

lemma hits_for_snoc:
  "hits_for k (raw @ [r]) = hits_for k raw @ (if record_key r = k then good_hits (snd r) else [])"
  by (simp add: hits_for_def)

lemma hits_for_new: "k \<notin> record_key ` set raw \<Longrightarrow> hits_for k raw = []"
  by (auto simp: hits_for_def)

lemma the_keys:
  assumes "list_all hashable raw"
  shows "distinct (map (\<lambda>r. the (record_key r)) (first_by record_key raw))"
    "\<And>r k. r \<in> set (first_by record_key raw) \<Longrightarrow> the (record_key r) = k \<longleftrightarrow> record_key r = Some k"
    "\<And>k. k \<in> (\<lambda>r. the (record_key r)) ` set (first_by record_key raw) \<longleftrightarrow> Some k \<in> record_key ` set raw"
proof -
  have some: "record_key r \<noteq> None" if "r \<in> set raw" for r
    using assms that by (auto simp: list_all_iff hashable_def)
  have sub: "set (first_by record_key raw) \<subseteq> set raw" by (rule first_by_subset)
  have "inj_on the (record_key ` set (first_by record_key raw))"
    using some sub by (intro inj_onI) (auto dest!: some subsetD intro: option.expand)
  then have "distinct (map the (map record_key (first_by record_key raw)))"
    by (subst distinct_map) (simp add: distinct_first_by)
  then show "distinct (map (\<lambda>r. the (record_key r)) (first_by record_key raw))" by (simp add: comp_def)
  show key: "the (record_key r) = k \<longleftrightarrow> record_key r = Some k" if "r \<in> set (first_by record_key raw)" for r k
    using some [of r] sub that by auto
  have "k \<in> (\<lambda>r. the (record_key r)) ` set (first_by record_key raw) \<longleftrightarrow>
          (\<exists>r\<in>set (first_by record_key raw). record_key r = Some k)" for k
    unfolding image_iff using key by (intro bex_cong refl) (simp add: eq_commute [of k])
  moreover have "(\<exists>r\<in>set (first_by record_key raw). record_key r = Some k) \<longleftrightarrow>
          Some k \<in> record_key ` set (first_by record_key raw)" for k
    by (auto simp: image_iff eq_commute simp del: first_by_image)
  ultimately show "k \<in> (\<lambda>r. the (record_key r)) ` set (first_by record_key raw) \<longleftrightarrow> Some k \<in> record_key ` set raw" for k
    by (simp only: first_by_image)
qed

lemma merge_step:
  assumes raw: "list_all hashable raw" and k: "record_key (p, hs) = Some k"
  obtains p0 where
    "(case map_of (merged_of raw) k of None \<Rightarrow> (p, []) | Some e \<Rightarrow> e) =
       (p0, tagged (first_by hit_key (hits_for (Some k) raw)))"
    "AList.update k (p0, tagged (first_by hit_key (hits_for (Some k) raw @ good_hits hs))) (merged_of raw) =
       merged_of (raw @ [(p, hs)])"
proof -
  note keys = the_keys [OF raw]
  let ?rs = "first_by record_key raw" and ?h = "\<lambda>r. tagged (first_by hit_key (hits_for (record_key r) raw))"
  have dist: "distinct (map fst (merged_of raw))" using keys(1) by (simp add: merged_of_def comp_def)
  have upd: "AList.update k v (merged_of raw) =
      map (\<lambda>r. (the (record_key r), if record_key r = Some k then v else (fst r, ?h r))) ?rs @
      (if Some k \<in> record_key ` set raw then [] else [(k, v)])" for v
    unfolding merged_of_def by (subst update_tagged [OF keys(1)]) (auto simp: keys(2, 3) cong: if_cong)
  show thesis
  proof (cases "Some k \<in> record_key ` set raw")
    case True
    then have "Some k \<in> record_key ` set ?rs" by (subst first_by_image)
    then obtain r where r: "r \<in> set ?rs" "record_key r = Some k" by (metis imageE)
    have "(k, fst r, ?h r) \<in> set (merged_of raw)" using r by (force simp: merged_of_def)
    then have old: "map_of (merged_of raw) k = Some (fst r, ?h r)" using dist by simp
    have one: "r' = r" if "r' \<in> set ?rs" "record_key r' = Some k" for r'
      using distinct_first_by [of record_key raw] r that
      by (intro inj_onD [of record_key "set ?rs"]) (simp_all add: distinct_map)
    have "AList.update k (fst r, tagged (first_by hit_key (hits_for (Some k) raw @ good_hits hs))) (merged_of raw) =
            merged_of (raw @ [(p, hs)])"
      using True k one unfolding upd unfolding merged_of_def by (auto simp: first_by_snoc hits_for_snoc)
    then show thesis using that [of "fst r"] old r(2) by simp
  next
    case False
    then have "map_of (merged_of raw) k = None"
      using keys(3) by (simp add: merged_of_def map_of_eq_None_iff image_image)
    moreover have "AList.update k (p, tagged (first_by hit_key (hits_for (Some k) raw @ good_hits hs))) (merged_of raw) =
            merged_of (raw @ [(p, hs)])"
      using False k unfolding upd unfolding merged_of_def
      by (auto simp: first_by_snoc hits_for_snoc hits_for_new image_iff dest!: subsetD [OF first_by_subset])
    ultimately show thesis using that [of p] hits_for_new [OF False] by (simp add: tagged_def)
  qed
qed

lemma merge_raw_merged:
  "list_all hashable pre \<Longrightarrow>
   merge_raw raw (merged_of pre) =
     (if list_all hashable raw
      then Some (merged_of (pre @ raw), sum_list (map (\<lambda>r. bad_hits (snd r)) raw)) else None)"
proof (induction raw arbitrary: pre)
  case (Cons r raw)
  obtain p hs where r: "r = (p, hs)" by (cases r)
  show ?case
  proof (cases "py_key p")
    case None
    then show ?thesis using r by (simp add: hashable_def record_key_def)
  next
    fix k assume py: "py_key p = Some k"
    then have k: "record_key (p, hs) = Some k" by (simp add: record_key_def)
    obtain p0 where
      old: "(case map_of (merged_of pre) k of None \<Rightarrow> (p, []) | Some e \<Rightarrow> e) =
              (p0, tagged (first_by hit_key (hits_for (Some k) pre)))" and
      new: "AList.update k (p0, tagged (first_by hit_key (hits_for (Some k) pre @ good_hits hs))) (merged_of pre) =
              merged_of (pre @ [(p, hs)])"
      by (rule merge_step [OF Cons.prems k])
    show ?thesis
    proof (cases "hashable_hits (good_hits hs)")
      case True
      then have one: "hashable (p, hs)" using k by (simp add: hashable_def)
      then have "list_all hashable (pre @ [(p, hs)])" using Cons.prems by simp
      then show ?thesis using True one by (simp add: r py old new add_hits_tagged Cons.IH)
    next
      case False
      then show ?thesis by (simp add: r py old add_hits_tagged hashable_def)
    qed
  qed
qed (simp)

lemma merged_entries_coalesced: "merged_entries (merged_of raw) = coalesced raw"
  by (simp add: merged_entries_def merged_of_def coalesced_def tagged_def filter_map comp_def)

definition records :: "qline list \<Rightarrow> (json \<times> json list) list" where
  "records ls = List.map_filter usable ls"

lemma scan_lines_records:
  "scan_lines ls =
     (records ls, length (filter (\<lambda>l. l \<noteq> Blank) ls), length (filter (\<lambda>l. l \<noteq> Blank \<and> usable l = None) ls))"
proof (induction ls)
  case (Cons l ls)
  have "usable Blank = None" by (simp add: usable_def)
  then show ?case using Cons by (auto simp: records_def List.map_filter_simps split: option.split)
qed (simp add: records_def List.map_filter_simps)

lemma read_coalesced:
  "read_lines cap ls =
     (let raw = snd (keep_newest cap (records ls)) in
      if list_all hashable raw
      then Some \<lparr>bt_entries = coalesced raw,
                 bt_malformed = length (filter (\<lambda>l. l \<noteq> Blank \<and> usable l = None) ls)
                                + sum_list (map (\<lambda>r. bad_hits (snd r)) raw),
                 bt_overflow = fst (keep_newest cap (records ls)),
                 bt_lines = length (filter (\<lambda>l. l \<noteq> Blank) ls)\<rparr>
      else None)"
proof -
  have "merged_of [] = []" by (simp add: merged_of_def)
  then show ?thesis
    using merge_raw_merged [of "[]"]
    by (simp add: read_lines_def scan_lines_records Let_def merged_entries_coalesced split: prod.split)
qed

section \<open>What a batch is\<close>

definition entry_ok :: "json \<times> hit list \<Rightarrow> bool" where
  "entry_ok e = (truthy (fst e) \<and> record_key e \<noteq> None \<and> snd e \<noteq> [] \<and> distinct (map hit_key (snd e)) \<and>
     hashable_hits (snd e))"

definition entries_ok :: "(json \<times> hit list) list \<Rightarrow> bool" where
  "entries_ok es = (list_all entry_ok es \<and> distinct (map record_key es))"

lemma entries_ok_drop: "entries_ok es \<Longrightarrow> entries_ok (drop n es)"
  by (auto simp: entries_ok_def list_all_iff drop_map [symmetric] dest: in_set_dropD)

lemma records_truthy: "r \<in> set (records ls) \<Longrightarrow> truthy (fst r)"
proof (induction ls)
  case (Cons l ls)
  have "truthy (fst r')" if "usable l = Some r'" for r'
    using that by (auto simp: usable_def split: qline.splits option.splits json.splits if_splits)
  then show ?case using Cons by (auto simp: records_def List.map_filter_simps split: option.splits)
qed (simp add: records_def List.map_filter_simps)

lemma hits_for_mem: "h \<in> set (hits_for k raw) \<longleftrightarrow> (\<exists>r\<in>set raw. record_key r = k \<and> h \<in> set (good_hits (snd r)))"
  by (induction raw) (auto simp: hits_for_def)

lemma hashable_hits_for: "list_all hashable raw \<Longrightarrow> hashable_hits (hits_for k raw)"
  unfolding hashable_hits_def list_all_iff hashable_def Ball_def hits_for_mem by blast

lemma distinct_map_filtered: "distinct (map f xs) \<Longrightarrow> distinct (map f (filter P xs))"
  by (induction xs) auto

lemma coalesced_ok:
  assumes "list_all hashable raw" "\<forall>r\<in>set raw. truthy (fst r)"
  shows "entries_ok (coalesced raw)"
proof -
  let ?e = "\<lambda>r. (fst r, first_by hit_key (hits_for (record_key r) raw))"
  have key: "record_key (?e r) = record_key r" for r by (simp add: record_key_def)
  have "entry_ok (?e r)" if r: "r \<in> set (first_by record_key raw)" and ne: "snd (?e r) \<noteq> []" for r
  proof -
    have raw: "r \<in> set raw" using r first_by_subset [of record_key raw] by blast
    have "hashable_hits (snd (?e r))"
      using hashable_hits_for [OF assms(1), of "record_key r"]
        first_by_subset [of hit_key "hits_for (record_key r) raw"]
      unfolding hashable_hits_def list_all_iff snd_conv by blast
    moreover have "truthy (fst (?e r))" using assms(2) raw by simp
    moreover have "record_key (?e r) \<noteq> None"
      using assms(1) raw key [of r] by (simp add: list_all_iff hashable_def)
    ultimately show ?thesis using ne distinct_first_by by (simp add: entry_ok_def)
  qed
  then have "list_all entry_ok (coalesced raw)" by (auto simp: coalesced_def list_all_iff)
  moreover have "distinct (map record_key (map ?e (first_by record_key raw)))"
    by (simp add: comp_def key distinct_first_by)
  ultimately show ?thesis by (simp only: entries_ok_def coalesced_def distinct_map_filtered simp_thms)
qed

lemma length_coalesced: "length (coalesced raw) \<le> length raw"
proof -
  have "length (coalesced raw) \<le> length (first_by record_key raw)"
    unfolding coalesced_def by (rule le_trans [OF length_filter_le]) simp
  then show ?thesis using length_first_by le_trans by blast
qed

lemma keep_newest_props:
  "set (snd (keep_newest cap raw)) \<subseteq> set raw"
  "0 < cap \<Longrightarrow> int (length (snd (keep_newest cap raw))) \<le> cap"
  "int (length raw) \<le> cap \<Longrightarrow> keep_newest cap raw = (0, raw)"
  by (auto simp: keep_newest_def dest: in_set_dropD)

lemma read_entries:
  assumes "read_lines cap ls = Some b"
  shows "entries_ok (bt_entries b)" "0 < cap \<Longrightarrow> int (length (bt_entries b)) \<le> cap"
proof -
  let ?raw = "snd (keep_newest cap (records ls))"
  have b: "list_all hashable ?raw" "bt_entries b = coalesced ?raw"
    using assms by (auto simp: read_coalesced Let_def split: if_splits)
  have "truthy (fst r)" if "r \<in> set ?raw" for r
    by (rule records_truthy) (rule subsetD [OF keep_newest_props(1) that])
  then show "entries_ok (bt_entries b)" using b coalesced_ok by simp
  assume "0 < cap"
  then have "int (length ?raw) \<le> cap" by (rule keep_newest_props(2))
  then show "int (length (bt_entries b)) \<le> cap" using length_coalesced [of ?raw] b(2) by simp
qed

section \<open>Requeued work comes back\<close>

definition requeued :: "rat \<Rightarrow> (json \<times> hit list) list \<Rightarrow> qline list" where
  "requeued now es = map (\<lambda>e. Rec (teach_record now (fst e) (map hit_object (snd e)))) es"

lemma requeue_lines:
  "list_all entry_ok es \<Longrightarrow> es \<noteq> [] \<Longrightarrow>
     requeue now es q = (length es, q\<lparr>pending := Some (lines_of q @ requeued now es)\<rparr>)"
proof (induction es arbitrary: q)
  case (Cons e es)
  obtain p hs where e: "e = (p, hs)" by (cases e)
  then have ok: "truthy p" "hs \<noteq> []" using Cons.prems by (auto simp: entry_ok_def)
  show ?case
  proof (cases "es = []")
    case True
    then show ?thesis using e ok by (simp add: enqueue_def requeued_def)
  next
    case False
    then show ?thesis using e ok Cons by (simp add: enqueue_def requeued_def lines_of_def)
  qed
qed simp

lemma good_hit_objects: "good_hits (map hit_object hs) = hs \<and> bad_hits (map hit_object hs) = 0"
  by (induction hs) (auto simp: hit_of_def hit_object_def)

lemma records_requeued:
  "list_all entry_ok es \<Longrightarrow> records (requeued now es) = map (\<lambda>e. (fst e, map hit_object (snd e))) es"
  by (induction es)
    (auto simp: records_def requeued_def List.map_filter_simps usable_def teach_record_def entry_ok_def)

lemma hits_for_own:
  assumes "distinct (map record_key es)" "e \<in> set es"
  shows "hits_for (record_key e) (map (\<lambda>e. (fst e, map hit_object (snd e))) es) = snd e"
  using assms
proof (induction es)
  case (Cons x es)
  have key: "record_key (fst x', map hit_object (snd x')) = record_key x'" for x' by (simp add: record_key_def)
  have rest: "hits_for k (map (\<lambda>e. (fst e, map hit_object (snd e))) es) = []" if "k \<notin> record_key ` set es" for k
    using that by (intro hits_for_new) (force simp: record_key_def)
  show ?case
    using Cons rest [of "record_key x"] by (auto simp: hits_for_def key good_hit_objects image_iff)
qed simp

lemma coalesced_requeued:
  assumes "entries_ok es"
  shows "coalesced (map (\<lambda>e. (fst e, map hit_object (snd e))) es) = es"
    (is "coalesced ?raw = es")
proof -
  have key: "record_key (fst x, map hit_object (snd x)) = record_key x" for x by (simp add: record_key_def)
  have "first_by record_key ?raw = ?raw"
    using assms by (intro first_by_id) (simp add: comp_def key entries_ok_def)
  moreover have "first_by hit_key (hits_for (record_key e) ?raw) = snd e" "snd e \<noteq> []" if "e \<in> set es" for e
    using assms that by (simp_all add: hits_for_own entries_ok_def entry_ok_def list_all_iff first_by_id)
  then have "map (\<lambda>e. (fst e, first_by hit_key (hits_for (record_key e) ?raw))) es = es"
    "filter (\<lambda>e. snd e \<noteq> []) es = es"
    by (auto intro!: map_idI filter_True)
  ultimately show ?thesis by (simp add: coalesced_def key comp_def del: filter_map)
qed

lemma drain_requeued:
  assumes "entries_ok es" "int (length es) \<le> cap" "pending q = None"
  shows "drain cap (if es = [] then q else snd (requeue now es q)) =
           (Inr (empty_batch\<lparr>bt_entries := es, bt_lines := length es\<rparr>), q)"
proof (cases "es = []")
  case True
  then show ?thesis using assms(3) by (simp add: drain_def rotate_queue_def empty_batch_def)
next
  case False
  have ok: "list_all entry_ok es" using assms(1) by (simp add: entries_ok_def)
  let ?raw = "map (\<lambda>e. (fst e, map hit_object (snd e))) es"
  have "list_all hashable ?raw"
    using ok by (auto simp: hashable_def entry_ok_def list_all_iff good_hit_objects record_key_def)
  moreover have "keep_newest cap ?raw = (0, ?raw)" using assms(2) by (intro keep_newest_props(3)) simp
  moreover have "filter (\<lambda>l. l \<noteq> Blank) (requeued now es) = requeued now es"
    by (auto simp: requeued_def filter_map comp_def)
  moreover have "filter (\<lambda>l. l \<noteq> Blank \<and> usable l = None) (requeued now es) = []"
    using ok by (auto simp: requeued_def filter_empty_conv usable_def teach_record_def entry_ok_def list_all_iff)
  moreover have "length (requeued now es) = length es" by (simp add: requeued_def)
  ultimately have "read_lines cap (requeued now es) = Some (empty_batch\<lparr>bt_entries := es, bt_lines := length es\<rparr>)"
    using coalesced_requeued [OF assms(1)]
    by (simp add: read_coalesced records_requeued ok Let_def empty_batch_def good_hit_objects comp_def)
  then show ?thesis
    using requeue_lines [OF ok False, of now q] assms(3) False
    by (simp add: drain_def rotate_queue_def lines_of_def)
qed

section \<open>Ticks\<close>

definition learn_all :: "(json \<Rightarrow> hit list \<Rightarrow> 's \<Rightarrow> learned \<times> 's) \<Rightarrow> (json \<times> hit list) list \<Rightarrow> 's \<Rightarrow> 's" where
  "learn_all learn es s = fold (\<lambda>(p, hs) s. snd (learn p hs s)) es s"

lemma apply_entries_done: "pg_done (fst (apply_entries stop learn i es s)) \<le> length es"
  by (induction stop learn i es s rule: apply_entries.induct)
    (auto split: prod.splits learned.splits if_splits)

lemma apply_entries_store:
  assumes "\<And>p hs s. fst (learn p hs s) \<noteq> Invalid"
  shows "snd (apply_entries stop learn i es s) = learn_all learn (take (pg_done (fst (apply_entries stop learn i es s))) es) s"
  using assms
proof (induction stop learn i es s rule: apply_entries.induct)
  case (2 stop learn i p hs es s)
  obtain r s1 where l: "learn p hs s = (r, s1)" by (cases "learn p hs s")
  show ?case
    using 2 l 2(3) [of p hs s] by (cases r) (auto simp: learn_all_def split: prod.splits)
qed (simp add: learn_all_def)

lemma apply_entries_progress:
  assumes "\<And>p hs s. fst (learn p hs s) \<noteq> Invalid" "stop i = []" "es \<noteq> []"
  shows "0 < pg_done (fst (apply_entries stop learn i es s))"
proof -
  obtain p hs es' where es: "es = (p, hs) # es'" using assms(3) by (cases es) auto
  obtain r s1 where l: "learn p hs s = (r, s1)" by (cases "learn p hs s")
  show ?thesis using assms(1) [of p hs s] assms(2) l
    by (cases r) (auto simp: es split: prod.splits)
qed

lemma drain_Inr:
  assumes "drain cap q = (Inr b, q1)"
  shows "entries_ok (bt_entries b)" "0 < cap \<Longrightarrow> int (length (bt_entries b)) \<le> cap" "pending q1 = None"
  using assms read_entries
  by (auto simp: drain_def rotate_queue_def empty_batch_def entries_ok_def split: option.splits)

lemma drain_tick_queue:
  assumes "drain cap q = (Inr b, q1)"
  shows "fst (snd (drain_tick True cap stop learn now (q, s))) =
           (let rest = drop (pg_done (fst (apply_entries stop learn 0 (bt_entries b) s))) (bt_entries b)
            in if rest = [] then q1 else snd (requeue now rest q1))"
    "snd (snd (drain_tick True cap stop learn now (q, s))) = snd (apply_entries stop learn 0 (bt_entries b) s)"
  using assms by (auto simp: drain_tick_def Let_def split: prod.splits)

lemma tick_rest:
  assumes "drain cap q = (Inr b, q1)" "0 < cap"
    and "apply_entries stop learn 0 (bt_entries b) s = (g, s1)"
  shows "drain cap (fst (snd (drain_tick True cap stop learn now (q, s)))) =
           (Inr \<lparr>bt_entries = drop (pg_done g) (bt_entries b), bt_malformed = 0, bt_overflow = 0,
                 bt_lines = length (bt_entries b) - pg_done g\<rparr>, q1)"
proof -
  note b = drain_Inr [OF assms(1)]
  let ?rest = "drop (pg_done g) (bt_entries b)"
  have "int (length ?rest) \<le> cap" using b(2) [OF assms(2)] by simp
  then have "drain cap (if ?rest = [] then q1 else snd (requeue now ?rest q1)) =
               (Inr (empty_batch\<lparr>bt_entries := ?rest, bt_lines := length ?rest\<rparr>), q1)"
    using b by (intro drain_requeued entries_ok_drop) simp_all
  then show ?thesis by (simp add: drain_tick_queue(1) [OF assms(1)] assms(3) Let_def empty_batch_def)
qed

fun run_ticks ::
  "int \<Rightarrow> (json \<Rightarrow> hit list \<Rightarrow> 's \<Rightarrow> learned \<times> 's) \<Rightarrow> rat \<Rightarrow> (nat \<Rightarrow> string) list \<Rightarrow> queue \<times> 's \<Rightarrow> queue \<times> 's" where
  "run_ticks cap learn now [] qs = qs"
| "run_ticks cap learn now (stop # stops) qs =
     run_ticks cap learn now stops (snd (drain_tick True cap stop learn now qs))"

lemma run_ticks_drains:
  assumes learn: "\<And>p hs s. fst (learn p hs s) \<noteq> Invalid" and cap: "0 < cap"
  shows "\<lbrakk>list_all (\<lambda>stop. stop 0 = []) stops; drain cap q = (Inr b, q1); length (bt_entries b) < length stops\<rbrakk>
    \<Longrightarrow> run_ticks cap learn now stops (q, s) = (q1, learn_all learn (bt_entries b) s)"
proof (induction stops arbitrary: q b s)
  case (Cons stop stops)
  obtain g s1 where g: "apply_entries stop learn 0 (bt_entries b) s = (g, s1)" by fastforce
  let ?rest = "drop (pg_done g) (bt_entries b)"
  define qs where "qs = snd (drain_tick True cap stop learn now (q, s))"
  have s1: "snd qs = learn_all learn (take (pg_done g) (bt_entries b)) s"
    using drain_tick_queue(2) [OF Cons.prems(2), of stop learn now s] apply_entries_store [where learn = learn and stop = stop and i = 0 and es = "bt_entries b" and s = s, OF learn] g
    by (simp add: qs_def)
  have next_b: "drain cap (fst qs) = (Inr \<lparr>bt_entries = ?rest, bt_malformed = 0, bt_overflow = 0,
                 bt_lines = length (bt_entries b) - pg_done g\<rparr>, q1)"
    unfolding qs_def by (rule tick_rest [OF Cons.prems(2) cap g])
  show ?case
  proof (cases "bt_entries b = []")
    case True
    then have "fst qs = q1" using drain_tick_queue(1) [OF Cons.prems(2), of stop learn now s] by (simp add: qs_def Let_def)
    moreover have "stops = [] \<Longrightarrow> ?thesis"
      using True calculation s1 by (cases qs) (simp add: learn_all_def qs_def [symmetric])
    moreover have "?thesis" if "stops \<noteq> []"
      using Cons.IH [OF _ next_b, of "snd qs"] that Cons.prems(1) True s1
      by (cases qs) (simp add: learn_all_def qs_def [symmetric])
    ultimately show ?thesis by blast
  next
    case False
    have "0 < pg_done g" using apply_entries_progress [where learn = learn and stop = stop and i = 0 and es = "bt_entries b" and s = s, OF learn] False Cons.prems(1) g by simp
    moreover have "0 < length (bt_entries b)" using False by simp
    ultimately have "length (bt_entries b) - pg_done g < length stops"
      using Cons.prems(3) by (simp only: list.size)
    then have "run_ticks cap learn now stops (fst qs, snd qs) = (q1, learn_all learn ?rest (snd qs))"
      using Cons.IH [OF _ next_b, of "snd qs"] Cons.prems(1) by simp
    moreover have "learn_all learn ?rest (snd qs) = learn_all learn (bt_entries b) s"
      unfolding s1 learn_all_def by (metis append_take_drop_id comp_apply fold_append)
    ultimately show ?thesis by (simp add: qs_def)
  qed
qed simp

lemma uninterrupted_tick:
  assumes "\<And>p hs s. fst (learn p hs s) \<noteq> Invalid" "drain cap q = (Inr b, q1)"
  shows "snd (drain_tick True cap (\<lambda>_. []) learn now (q, s)) = (q1, learn_all learn (bt_entries b) s)"
proof -
  have "pg_done (fst (apply_entries (\<lambda>_. []) learn i es s)) = length es" for i es s
    using assms(1)
  proof (induction "\<lambda>_ :: nat. [] :: string" learn i es s rule: apply_entries.induct)
    case (2 learn i p hs es s)
    obtain r s1 where l: "learn p hs s = (r, s1)" by (cases "learn p hs s")
    show ?case using 2 l 2(3) [of p hs s] by (cases r) (auto split: prod.splits)
  qed simp
  then show ?thesis
    using drain_tick_queue [OF assms(2), of "\<lambda>_. []" learn now s] apply_entries_store [where learn = learn, OF assms(1)]
    by (intro prod_eqI) (simp_all add: Let_def)
qed

section \<open>Properties\<close>

text \<open>The records that teach: objects with a list of hits and a pattern that Python does not take for false.\<close>

definition false_values :: "json set" where
  "false_values = {JNull, JBool False, JInt 0, JFloat 0, JStr [], JList [], JObj []}"

definition teaching_of :: "qline \<Rightarrow> (json \<times> json list) list" where
  "teaching_of l =
     (case l of
        Rec (JObj kv) \<Rightarrow>
          (case (map_of kv ''pattern'', map_of kv ''hits'') of
             (Some p, Some (JList hs)) \<Rightarrow> if p \<in> false_values then [] else [(p, hs)]
           | _ \<Rightarrow> [])
      | _ \<Rightarrow> [])"

definition taught :: "qline list \<Rightarrow> (json \<times> json list) list" where
  "taught ls = List.concat (map teaching_of ls)"

lemma truthy_values: "truthy p \<longleftrightarrow> p \<notin> false_values"
  by (cases p) (auto simp: false_values_def)

lemma teaching_usable: "teaching_of l = (case usable l of None \<Rightarrow> [] | Some r \<Rightarrow> [r])"
  by (auto simp: usable_def teaching_of_def truthy_values split: qline.split json.split option.split)

lemma records_taught: "records ls = taught ls"
  by (induction ls) (simp_all add: records_def taught_def teaching_usable List.map_filter_simps split: option.split)

lemma unusable_lines:
  "length (filter (\<lambda>l. l \<noteq> Blank \<and> usable l = None) ls) + length (records ls) = length (filter (\<lambda>l. l \<noteq> Blank) ls)"
proof (induction ls)
  case (Cons l ls)
  have "usable Blank = None" by (simp add: usable_def)
  then show ?case using Cons by (auto simp: records_def List.map_filter_simps split: option.split)
qed (simp add: records_def List.map_filter_simps)

text \<open>C35. Reading a rotated queue file with a positive cap is coalescing. The records that teach are the
  objects with a pattern that is not false and a list of hits; the newest of them, as many as the cap
  allows, are grouped by pattern, patterns in the order of their first record and with the hits of all
  their records, each file and line once and in first-seen order, patterns without a usable hit left
  out. The counts are those of the non-blank lines, of the other lines and unusable hits, and of the
  older records over the cap. The read raises exactly when a pattern or the file of a usable hit of
  the newest records is not hashable.\<close>

theorem queue_read_coalesces:
  assumes "0 < cap"
  shows "read_lines cap ls =
     (let newest = drop (length (taught ls) - nat cap) (taught ls);
          lines = length (filter (\<lambda>l. l \<noteq> Blank) ls) in
      if list_all hashable newest
      then Some \<lparr>bt_entries = coalesced newest,
                 bt_malformed = lines - length (taught ls) + sum_list (map (\<lambda>r. bad_hits (snd r)) newest),
                 bt_overflow = length (taught ls) - nat cap,
                 bt_lines = lines\<rparr>
      else None)"
proof -
  have "length (filter (\<lambda>l. l \<noteq> Blank \<and> usable l = None) ls) = length (filter (\<lambda>l. l \<noteq> Blank) ls) - length (taught ls)"
    using unusable_lines [of ls] by (simp add: records_taught)
  moreover have "keep_newest cap (taught ls) =
      (length (taught ls) - nat cap, drop (length (taught ls) - nat cap) (taught ls))"
    using assms by (auto simp: keep_newest_def nat_diff_distrib')
  ultimately show ?thesis by (simp add: read_coalesced records_taught Let_def)
qed

definition three_teachings :: "qline list" where
  "three_teachings =
     [Rec (teach_record 1 (JStr ''a'') [hit_object (JStr ''f'', 1)]), Torn, Rec (teach_record 1 (JStr []) [JNull]), Blank,
      Rec (teach_record 2 (JStr ''b'') [hit_object (JStr ''g'', 7), JNull]),
      Rec (teach_record 3 (JStr ''a'') [hit_object (JStr ''f'', 2)]),
      Rec (teach_record 3 (JStr ''b'') [hit_object (JStr ''g'', 7), hit_object (JStr ''g'', 8)])]"

theorem queue_read_coalesces_witness:
  "read_lines 3 three_teachings =
     Some \<lparr>bt_entries = [(JStr ''b'', [(JStr ''g'', 7), (JStr ''g'', 8)]), (JStr ''a'', [(JStr ''f'', 2)])],
           bt_malformed = 3, bt_overflow = 1, bt_lines = 6\<rparr>"
proof -
  have c: "(0 :: int) < 3" by simp
  show ?thesis unfolding queue_read_coalesces [OF c] by code_simp
qed

text \<open>C36. Nothing is lost by a tick that stops early. Whatever the shutdown event, the time budget,
  failing entries or an invalid store do to one drain tick of the daemon, draining the queue it
  leaves behind returns exactly the entries of the batch that it did not handle, in their order,
  with nothing counted as malformed or dropped.\<close>

theorem tick_leaves_rest:
  assumes "drain cap q = (Inr b, q1)" "0 < cap"
    and "apply_entries stop learn 0 (bt_entries b) s = (g, s1)"
  shows "drain cap (fst (snd (drain_tick True cap stop learn now (q, s)))) =
           (Inr \<lparr>bt_entries = drop (pg_done g) (bt_entries b), bt_malformed = 0, bt_overflow = 0,
                 bt_lines = length (bt_entries b) - pg_done g\<rparr>, q1)"
  using assms by (rule tick_rest)

definition two_patterns :: queue where
  "two_patterns =
     \<lparr>pending = Some [Rec (teach_record 1 (JStr ''a'') [hit_object (JStr ''f'', 1), hit_object (JStr ''f'', 1)]),
                     Torn, Rec (teach_record 2 (JStr ''b'') [hit_object (JStr ''g'', 7)])],
      stranded = []\<rparr>"

definition count_learn :: "json \<Rightarrow> hit list \<Rightarrow> nat \<Rightarrow> learned \<times> nat" where
  "count_learn p hs n = (Added (length hs), n + length hs)"

lemma tick_leaves_rest_witness:
  "drain 5000 (fst (snd (drain_tick True 5000 (\<lambda>i. if i = 0 then [] else ''budget'') count_learn 3 (two_patterns, 0)))) =
     (Inr \<lparr>bt_entries = [(JStr ''b'', [(JStr ''g'', 7)])], bt_malformed = 0, bt_overflow = 0, bt_lines = 1\<rparr>,
      \<lparr>pending = None, stranded = []\<rparr>)"
proof -
  let ?b = "\<lparr>bt_entries = [(JStr ''a'', [(JStr ''f'', 1)]), (JStr ''b'', [(JStr ''g'', 7)])],
             bt_malformed = 1, bt_overflow = 0, bt_lines = 3\<rparr>"
  have b: "drain 5000 two_patterns = (Inr ?b, \<lparr>pending = None, stranded = []\<rparr>)" by code_simp
  have g: "apply_entries (\<lambda>i. if i = 0 then [] else ''budget'') count_learn 0 (bt_entries ?b) 0 =
             (\<lparr>pg_applied = 1, pg_failed = 0, pg_done = 1, pg_stopped = ''budget''\<rparr>, 1)" by code_simp
  show ?thesis using tick_leaves_rest [OF b _ g, of 3] by simp
qed

text \<open>C37. However the ticks of the daemon cut the work, the queue empties and the store ends as one
  uninterrupted drain leaves it: when each tick comes to at least one entry and the store stays
  valid, then after more ticks than the batch has entries nothing is pending and every entry was
  learned exactly once, in the order of the queue.\<close>

theorem ticks_apply_all:
  assumes "\<forall>p hs s. fst (learn p hs s) \<noteq> Invalid" "0 < cap" "list_all (\<lambda>stop. stop 0 = []) stops"
    and "drain cap q = (Inr b, q1)" "length (bt_entries b) < length stops"
  shows "run_ticks cap learn now stops (q, s) = (q1, learn_all learn (bt_entries b) s) \<and>
         run_ticks cap learn now stops (q, s) = snd (drain_tick True cap (\<lambda>_. []) learn now (q, s)) \<and>
         pending q1 = None"
  using run_ticks_drains [of learn cap stops q b q1 now s] uninterrupted_tick [of learn cap q b q1 now s]
    drain_Inr(3) [OF assms(4)] assms by simp_all

lemma ticks_apply_all_witness:
  "run_ticks 5000 count_learn 3 (replicate 3 (\<lambda>i. if i = 0 then [] else ''budget'')) (two_patterns, 0) =
     (\<lparr>pending = None, stranded = []\<rparr>, 2)"
proof -
  let ?b = "\<lparr>bt_entries = [(JStr ''a'', [(JStr ''f'', 1)]), (JStr ''b'', [(JStr ''g'', 7)])],
             bt_malformed = 1, bt_overflow = 0, bt_lines = 3\<rparr>"
  have b: "drain 5000 two_patterns = (Inr ?b, \<lparr>pending = None, stranded = []\<rparr>)" by code_simp
  show ?thesis
    using ticks_apply_all [OF _ _ _ b, of count_learn "replicate 3 (\<lambda>i. if i = 0 then [] else ''budget'')" 3 0]
    by (simp add: count_learn_def learn_all_def eval_nat_numeral)
qed

section \<open>Boundary behaviour\<close>

text \<open>A cap of 0 keeps every record and reports them all as dropped.\<close>

lemma cap_zero_keeps_all: "keep_newest 0 raw = (length raw, raw)"
  by (auto simp: keep_newest_def)

text \<open>A batch the read raised on is out of reach: the next drain finds nothing.\<close>

lemma raised_read_strands:
  assumes "drain cap q = (Inl e, q1)"
  shows "stranded q1 = stranded q @ [lines_of q]" "drain cap q1 = (Inr empty_batch, q1)"
  using assms by (auto simp: drain_def rotate_queue_def lines_of_def split: option.splits)

lemma raised_read_strands_witness:
  "fst (drain 5000 (snd (enqueue 2 (JStr ''b'') [hit_object (JList [JNull], 7)] two_patterns))) = Inl (TypeErr ''unhashable'')"
  by code_simp

text \<open>With learning switched off a tick changes neither the queue nor the store.\<close>

lemma disabled_tick: "snd (drain_tick False cap stop learn now qs) = qs"
  by (simp add: drain_tick_def split: prod.split)

text \<open>The switch: a readable off marker turns learning off unless the environment turns it on, and
  turning learning on for the store leaves a global marker in force.\<close>

lemma switch_precedence:
  "fst (env_value env) = Some b \<Longrightarrow> learning_enabled env store global = b"
  "fst (env_value env) = None \<Longrightarrow>
     learning_enabled env store global \<longleftrightarrow> store \<noteq> Some Present \<and> global \<noteq> Present"
  by (auto simp: learning_enabled_def decision_def Let_def split: prod.splits option.splits marker.splits)

lemma store_scope_keeps_global:
  "set_enabled True True ''store'' (st, Present) = Inr (st', g) \<Longrightarrow>
     fst (env_value env) = None \<Longrightarrow> \<not> learning_enabled env (Some st') g"
  by (auto simp: set_enabled_def switch_precedence)
end
