(* ===== verification/Scheduler.thy ===== *)
theory Scheduler
  imports Prelude
begin

text \<open>
  The scheduled maintenance of \<open>scheduler.py\<close>: the schedule file (a dictionary of store roots to
  dictionaries of operations and intervals), the editing of it, and the tick of the hub that
  runs what is due. The daemon probe and the launch of a command are parameters. The times of
  the code are floats; they are rationals here.
\<close>

section \<open>The schedule file\<close>

type_synonym schedule = "(string \<times> (string \<times> int) list) list"

text \<open>The file: missing, not readable as JSON, or the dictionary it holds.\<close>

datatype sched_file = Missing | Corrupt | Saved schedule

definition allowed_ops :: "string list" where
  "allowed_ops = [''sync'', ''embed'', ''vacuum'', ''checkpoint'', ''ingest'', ''curator-scan'']"

definition load_schedule :: "sched_file \<Rightarrow> schedule" where
  "load_schedule f = (case f of Saved d \<Rightarrow> d | _ \<Rightarrow> [])"

definition ops_of :: "string \<Rightarrow> schedule \<Rightarrow> (string \<times> int) list" where
  "ops_of rt d = (case map_of d rt of None \<Rightarrow> [] | Some ops \<Rightarrow> ops)"

text \<open>\<open>rt\<close> stands for the resolved path, the key of the dictionary.\<close>

definition add_job :: "string \<Rightarrow> string \<Rightarrow> int \<Rightarrow> sched_file \<Rightarrow> schedule result \<times> sched_file" where
  "add_job rt op interval f =
     (if op \<notin> set allowed_ops then (Inl (ValueError ''op must be one of the allowed ops''), f)
      else let d = load_schedule f;
               d1 = AList.update rt (AList.update op interval (ops_of rt d)) d
           in (Inr d1, Saved d1))"

definition remove_job :: "string \<Rightarrow> string \<Rightarrow> sched_file \<Rightarrow> bool \<times> sched_file" where
  "remove_job rt op f =
     (let d = load_schedule f in
      case map_of d rt of
        None \<Rightarrow> (False, f)
      | Some ops \<Rightarrow>
          if map_of ops op = None then (False, f)
          else let ops1 = AList.delete op ops;
                   d1 = (if ops1 = [] then AList.delete rt d else AList.update rt ops1 d)
               in (True, Saved d1))"

section \<open>Ticks\<close>

text \<open>When a job did last, by the key \<open>f"{rt}|{op}"\<close>.\<close>

type_synonym last_runs = "(string \<times> rat) list"

definition job_key :: "string \<Rightarrow> string \<Rightarrow> string" where
  "job_key rt op = rt @ ''|'' @ op"

definition jobs :: "schedule \<Rightarrow> (string \<times> string \<times> int) list" where
  "jobs d = List.concat (map (\<lambda>(rt, ops). map (\<lambda>(op, interval). (rt, op, interval)) ops) d)"

definition is_due :: "last_runs \<Rightarrow> rat \<Rightarrow> string \<times> string \<times> int \<Rightarrow> bool" where
  "is_due seen now j =
     (case map_of seen (job_key (fst j) (fst (snd j))) of
        None \<Rightarrow> True
      | Some t \<Rightarrow> of_int (snd (snd j)) \<le> now - t)"

definition due :: "sched_file \<Rightarrow> last_runs \<Rightarrow> rat \<Rightarrow> (string \<times> string \<times> int) list" where
  "due f seen now = filter (is_due seen now) (jobs (load_schedule f))"

text \<open>The loop of a tick: \<open>ping\<close> says whether the daemon of a root answers, \<open>launch\<close> whether
  the command could be started; a launch that raises ends the tick.\<close>

fun run_due ::
  "(string \<Rightarrow> bool) \<Rightarrow> (string \<Rightarrow> string \<Rightarrow> bool) \<Rightarrow> rat \<Rightarrow> (string \<times> string \<times> int) list \<Rightarrow> last_runs \<Rightarrow>
     (string \<times> string) list \<times> bool \<times> last_runs" where
  "run_due ping launch now [] seen = ([], True, seen)"
| "run_due ping launch now ((rt, op, interval) # js) seen =
     (if \<not> ping rt then run_due ping launch now js seen
      else if \<not> launch rt op then ([], False, seen)
      else case run_due ping launch now js (AList.update (job_key rt op) now seen) of
        (did, ok, last1) \<Rightarrow> ((rt, op) # did, ok, last1))"

definition tick_once ::
  "(string \<Rightarrow> bool) \<Rightarrow> (string \<Rightarrow> string \<Rightarrow> bool) \<Rightarrow> rat \<Rightarrow> sched_file \<Rightarrow> last_runs \<Rightarrow>
     (string \<times> string) list \<times> bool \<times> last_runs" where
  "tick_once ping launch now f seen = run_due ping launch now (due f seen now) seen"

text \<open>The command line of an operation.\<close>

definition cli_args :: "string \<Rightarrow> string list" where
  "cli_args op =
     (if op = ''curator-scan'' then [''curator'', ''scan'']
      else if op = ''ingest'' then [''ingest'', ''.'']
      else [op])"

text \<open>\<open>_loop\<close>: a tick at each of the times; what a tick raises is swallowed. The runs with
  their times.\<close>

fun sched_loop ::
  "(string \<Rightarrow> bool) \<Rightarrow> (string \<Rightarrow> string \<Rightarrow> bool) \<Rightarrow> rat list \<Rightarrow> sched_file \<Rightarrow> last_runs \<Rightarrow>
     (rat \<times> string \<times> string) list \<times> last_runs" where
  "sched_loop ping launch [] f seen = ([], seen)"
| "sched_loop ping launch (now # nows) f seen =
     (case tick_once ping launch now f seen of
        (did, ok, last1) \<Rightarrow>
          case sched_loop ping launch nows f last1 of
            (runs, last2) \<Rightarrow> (map (Pair now) did @ runs, last2))"

section \<open>Editing\<close>

text \<open>A schedule as the editing operations write it: one entry for each root, never an empty one,
  one interval for each operation, and operations of the allowed list only.\<close>

definition ops_ok :: "(string \<times> int) list \<Rightarrow> bool" where
  "ops_ok ops = (ops \<noteq> [] \<and> distinct (map fst ops) \<and> list_all (\<lambda>j. fst j \<in> set allowed_ops) ops)"

definition wf_schedule :: "schedule \<Rightarrow> bool" where
  "wf_schedule d = (distinct (map fst d) \<and> list_all (\<lambda>e. ops_ok (snd e)) d)"

definition interval_of :: "string \<Rightarrow> string \<Rightarrow> sched_file \<Rightarrow> int option" where
  "interval_of rt op f = map_of (ops_of rt (load_schedule f)) op"

lemma wf_ops: "wf_schedule d \<Longrightarrow> map_of d rt = Some ops \<Longrightarrow> ops_ok ops"
  by (auto simp: wf_schedule_def list_all_iff dest!: map_of_SomeD)

lemma alist_entries:
  assumes "distinct (map fst d)"
  shows "(k, v) \<in> set (AList.update k0 w d) \<longleftrightarrow> (if k = k0 then v = w else (k, v) \<in> set d)"
    "(k, v) \<in> set (AList.delete k0 d) \<longleftrightarrow> k \<noteq> k0 \<and> (k, v) \<in> set d"
proof -
  have "distinct (map fst (AList.update k0 w d))" using assms by (rule distinct_update)
  then have "(k, v) \<in> set (AList.update k0 w d) \<longleftrightarrow> map_of (AList.update k0 w d) k = Some v"
    by (rule map_of_eq_Some_iff [symmetric])
  also have "\<dots> \<longleftrightarrow> (if k = k0 then v = w else map_of d k = Some v)" by (auto simp: eq_commute)
  also have "map_of d k = Some v \<longleftrightarrow> (k, v) \<in> set d" by (rule map_of_eq_Some_iff [OF assms])
  finally show "(k, v) \<in> set (AList.update k0 w d) \<longleftrightarrow> (if k = k0 then v = w else (k, v) \<in> set d)" .
  show "(k, v) \<in> set (AList.delete k0 d) \<longleftrightarrow> k \<noteq> k0 \<and> (k, v) \<in> set d"
    by (auto simp: AList.delete_eq)
qed

lemma wf_update:
  assumes "wf_schedule d" "ops_ok ops"
  shows "wf_schedule (AList.update rt ops d)"
  using assms by (auto simp: wf_schedule_def list_all_iff distinct_update alist_entries split: if_splits)

lemma wf_delete: "wf_schedule d \<Longrightarrow> wf_schedule (AList.delete rt d)"
  by (auto simp: wf_schedule_def list_all_iff distinct_delete alist_entries)

lemma ops_ok_update:
  assumes "ops_ok ops \<or> ops = []" "op \<in> set allowed_ops"
  shows "ops_ok (AList.update op interval ops)"
proof -
  have d: "distinct (map fst ops)" using assms(1) by (auto simp: ops_ok_def)
  have "AList.update op interval ops \<noteq> []" by (cases ops) auto
  then show ?thesis using assms
    by (auto simp: ops_ok_def list_all_iff distinct_update [OF d] alist_entries [OF d] split: if_splits)
qed

lemma ops_ok_delete: "ops_ok ops \<Longrightarrow> AList.delete op ops \<noteq> [] \<Longrightarrow> ops_ok (AList.delete op ops)"
  by (auto simp: ops_ok_def list_all_iff distinct_delete alist_entries)

lemma add_job_effect:
  assumes "wf_schedule (load_schedule f)" "add_job rt op interval f = (Inr d, f')"
  shows "wf_schedule d" "f' = Saved d"
    "interval_of rt' op' f' = (if rt' = rt \<and> op' = op then Some interval else interval_of rt' op' f)"
proof -
  have op: "op \<in> set allowed_ops" and d: "d = AList.update rt (AList.update op interval (ops_of rt (load_schedule f))) (load_schedule f)"
    and f': "f' = Saved d" using assms(2) by (auto simp: add_job_def Let_def split: if_splits)
  have "ops_ok (ops_of rt (load_schedule f)) \<or> ops_of rt (load_schedule f) = []"
    using wf_ops [OF assms(1)] by (auto simp: ops_of_def split: option.split)
  then show "wf_schedule d" unfolding d using op assms(1) by (intro wf_update ops_ok_update)
  show "f' = Saved d" by (rule f')
  show "interval_of rt' op' f' = (if rt' = rt \<and> op' = op then Some interval else interval_of rt' op' f)"
    by (simp add: f' d interval_of_def load_schedule_def ops_of_def)
qed

lemma remove_job_effect:
  assumes "wf_schedule (load_schedule f)" "remove_job rt op f = (b, f')"
  shows "wf_schedule (load_schedule f')"
    "b \<longleftrightarrow> interval_of rt op f \<noteq> None"
    "interval_of rt' op' f' = (if rt' = rt \<and> op' = op then None else interval_of rt' op' f)"
proof -
  let ?d = "load_schedule f"
  consider (none) "map_of ?d rt = None \<or> (\<exists>ops. map_of ?d rt = Some ops \<and> map_of ops op = None)" "b = False" "f' = f"
    | (some) ops i where "map_of ?d rt = Some ops" "map_of ops op = Some i" "b = True"
        "f' = Saved (if AList.delete op ops = [] then AList.delete rt ?d else AList.update rt (AList.delete op ops) ?d)"
    using assms(2) by (auto simp: remove_job_def Let_def split: option.splits if_splits)
  then have "wf_schedule (load_schedule f') \<and> (b \<longleftrightarrow> interval_of rt op f \<noteq> None) \<and>
    interval_of rt' op' f' = (if rt' = rt \<and> op' = op then None else interval_of rt' op' f)"
  proof cases
    case none
    then show ?thesis using assms(1) by (auto simp: interval_of_def ops_of_def)
  next
    case some
    have ok: "ops_ok ops" by (rule wf_ops [OF assms(1) some(1)])
    have ops1: "map_of (AList.delete op ops) op' = (if op' = op then None else map_of ops op')" for op'
      by (simp add: delete_conv')
    show ?thesis
    proof (cases "AList.delete op ops = []")
      case True
      then have "map_of ops op' = None" if "op' \<noteq> op" using ops1 [of op'] that by simp
      then show ?thesis using some True wf_delete [OF assms(1)]
        by (auto simp: interval_of_def ops_of_def load_schedule_def delete_conv')
    next
      case False
      then show ?thesis using some wf_update [OF assms(1) ops_ok_delete [OF ok]] ops1
        by (auto simp: interval_of_def ops_of_def load_schedule_def)
    qed
  qed
  then show "wf_schedule (load_schedule f')" "b \<longleftrightarrow> interval_of rt op f \<noteq> None"
    "interval_of rt' op' f' = (if rt' = rt \<and> op' = op then None else interval_of rt' op' f)" by blast+
qed

section \<open>Facts of ticks\<close>

abbreviation run_key :: "string \<times> string \<Rightarrow> string" where
  "run_key j \<equiv> job_key (fst j) (snd j)"

lemma job_key_inj:
  assumes "op \<in> set allowed_ops" "op' \<in> set allowed_ops" "job_key rt op = job_key rt' op'"
  shows "rt = rt' \<and> op = op'"
proof -
  have tail: "takeWhile (\<lambda>c. c \<noteq> CHR ''|'') (rev (job_key r p)) = rev p" if "p \<in> set allowed_ops" for r p
    using that by (auto simp: job_key_def allowed_ops_def)
  have "rev op = rev op'" using tail [OF assms(1), of rt] tail [OF assms(2), of rt'] assms(3) by simp
  then show ?thesis using assms(3) by (simp add: job_key_def)
qed

lemma jobs_iff:
  assumes "wf_schedule (load_schedule f)"
  shows "(rt, op, i) \<in> set (jobs (load_schedule f)) \<longleftrightarrow> interval_of rt op f = Some i"
proof -
  let ?d = "load_schedule f"
  have d: "distinct (map fst ?d)" using assms by (simp add: wf_schedule_def)
  have ops: "distinct (map fst ops)" if "map_of ?d rt = Some ops" for ops
    using wf_ops [OF assms that] by (simp add: ops_ok_def)
  have "(rt, op, i) \<in> set (jobs ?d) \<longleftrightarrow> (\<exists>ops. map_of ?d rt = Some ops \<and> (op, i) \<in> set ops)"
    unfolding map_of_eq_Some_iff [OF d] by (auto simp: jobs_def)
  also have "\<dots> \<longleftrightarrow> interval_of rt op f = Some i"
  proof (cases "map_of ?d rt")
    case (Some v)
    then show ?thesis using ops [OF Some] by (simp add: interval_of_def ops_of_def)
  qed (simp add: interval_of_def ops_of_def)
  finally show ?thesis .
qed

lemma interval_allowed: "wf_schedule (load_schedule f) \<Longrightarrow> interval_of rt op f = Some i \<Longrightarrow> op \<in> set allowed_ops"
  using wf_ops [of "load_schedule f" rt]
  by (force simp: interval_of_def ops_of_def ops_ok_def list_all_iff dest!: map_of_SomeD split: option.splits)

lemma distinct_concat_rows:
  assumes "distinct (map fst d)" "\<And>k v. (k, v) \<in> set d \<Longrightarrow> distinct (map fst v)"
  shows "distinct (List.concat (map (\<lambda>(k, v). map (\<lambda>(x, y). (k, x)) v) d))"
  using assms
proof (induction d)
  case (Cons e d)
  obtain k v where e: "e = (k, v)" by (cases e)
  have "distinct (map fst v) \<Longrightarrow> distinct (map (\<lambda>(x, y). (k, x)) v)"
    by (induction v) (auto simp: image_iff)
  then have "distinct (map (\<lambda>(x, y). (k, x)) v)" using Cons.prems(2) [of k v] e by simp
  moreover have "distinct (List.concat (map (\<lambda>(k, v). map (\<lambda>(x, y). (k, x)) v) d))"
    using Cons.prems by (intro Cons.IH) auto
  ultimately show ?case using Cons.prems(1) e by force
qed simp

abbreviation jk :: "string \<times> string \<times> int \<Rightarrow> string" where
  "jk j \<equiv> job_key (fst j) (fst (snd j))"

lemma jobs_distinct:
  assumes "wf_schedule d"
  shows "distinct (map jk (jobs d))"
proof -
  have "map (\<lambda>j. (fst j, fst (snd j))) (jobs d) = List.concat (map (\<lambda>(k, v). map (\<lambda>(x, y). (k, x)) v) d)"
    by (auto simp: jobs_def map_concat comp_def intro!: arg_cong [of _ _ List.concat] map_cong)
  moreover have "distinct (List.concat (map (\<lambda>(k, v). map (\<lambda>(x, y). (k, x)) v) d))"
    using assms by (intro distinct_concat_rows) (auto simp: wf_schedule_def list_all_iff ops_ok_def)
  ultimately have "distinct (map (\<lambda>j. (fst j, fst (snd j))) (jobs d))" by simp
  moreover have "inj_on (\<lambda>p. job_key (fst p) (snd p)) (set (map (\<lambda>j. (fst j, fst (snd j))) (jobs d)))"
  proof (rule inj_onI)
    fix p q assume pq: "p \<in> set (map (\<lambda>j. (fst j, fst (snd j))) (jobs d))"
      "q \<in> set (map (\<lambda>j. (fst j, fst (snd j))) (jobs d))" "job_key (fst p) (snd p) = job_key (fst q) (snd q)"
    have "snd x \<in> set allowed_ops" if "x \<in> set (map (\<lambda>j. (fst j, fst (snd j))) (jobs d))" for x
      using that assms by (auto simp: jobs_def wf_schedule_def list_all_iff ops_ok_def) fastforce
    then show "p = q" using job_key_inj [of "snd p" "snd q" "fst p" "fst q"] pq by (simp add: prod_eq_iff)
  qed
  ultimately have "distinct (map (\<lambda>p. job_key (fst p) (snd p)) (map (\<lambda>j. (fst j, fst (snd j))) (jobs d)))"
    by (subst distinct_map) blast
  then show ?thesis by (simp add: comp_def)
qed

lemma run_due_spec:
  assumes "run_due ping launch now js seen = (did, ok, seen1)"
  shows "\<forall>j\<in>set did. ping (fst j) \<and> launch (fst j) (snd j) \<and> (\<exists>i. (fst j, snd j, i) \<in> set js)"
    "map_of seen1 = (\<lambda>k. if k \<in> run_key ` set did then Some now else map_of seen k)"
    "ok \<Longrightarrow> (rt, op, i) \<in> set js \<Longrightarrow> ping rt \<Longrightarrow> (rt, op) \<in> set did"
    "\<not> ok \<Longrightarrow> \<exists>j\<in>set js. ping (fst j) \<and> \<not> launch (fst j) (fst (snd j))"
    "distinct (map jk js) \<Longrightarrow> distinct (map run_key did)"
proof -
  have "(\<forall>j\<in>set did. ping (fst j) \<and> launch (fst j) (snd j) \<and> (\<exists>i. (fst j, snd j, i) \<in> set js)) \<and>
    map_of seen1 = (\<lambda>k. if k \<in> run_key ` set did then Some now else map_of seen k) \<and>
    (ok \<longrightarrow> (\<forall>rt op i. (rt, op, i) \<in> set js \<longrightarrow> ping rt \<longrightarrow> (rt, op) \<in> set did)) \<and>
    (\<not> ok \<longrightarrow> (\<exists>j\<in>set js. ping (fst j) \<and> \<not> launch (fst j) (fst (snd j)))) \<and>
    (distinct (map jk js) \<longrightarrow> distinct (map run_key did))"
    using assms
  proof (induction ping launch now js seen arbitrary: did ok seen1 rule: run_due.induct)
    case (2 ping launch now rt op interval js seen)
    show ?case
    proof (cases "ping rt \<and> launch rt op")
      case True
      obtain did' seen' where r: "run_due ping launch now js (AList.update (job_key rt op) now seen) = (did', ok, seen1)"
        "did = (rt, op) # did'" using 2(3) True by (auto split: prod.splits)
      note ih = 2(2) [OF _ _ r(1)]
      have "distinct (map run_key ((rt, op) # did'))" if d: "distinct (map jk ((rt, op, interval) # js))"
      proof -
        have "job_key (fst j) (snd j) \<in> jk ` set js" if "j \<in> set did'" for j
          using ih True that by force
        then show ?thesis using ih d True by auto
      qed
      then show ?thesis using ih True r(2) by (auto simp: fun_eq_iff)
    next
      case False
      then show ?thesis using 2 by (auto split: if_splits)
    qed
  qed simp
  then show "\<forall>j\<in>set did. ping (fst j) \<and> launch (fst j) (snd j) \<and> (\<exists>i. (fst j, snd j, i) \<in> set js)"
    "map_of seen1 = (\<lambda>k. if k \<in> run_key ` set did then Some now else map_of seen k)"
    "ok \<Longrightarrow> (rt, op, i) \<in> set js \<Longrightarrow> ping rt \<Longrightarrow> (rt, op) \<in> set did"
    "\<not> ok \<Longrightarrow> \<exists>j\<in>set js. ping (fst j) \<and> \<not> launch (fst j) (fst (snd j))"
    "distinct (map jk js) \<Longrightarrow> distinct (map run_key did)" by blast+
qed

lemma due_jobs:
  assumes "wf_schedule (load_schedule f)"
  shows "(rt, op, i) \<in> set (due f seen now) \<longleftrightarrow> interval_of rt op f = Some i \<and> is_due seen now (rt, op, i)"
    "distinct (map jk (due f seen now))"
  using jobs_iff [OF assms] jobs_distinct [OF assms]
  by (auto simp: due_def distinct_map intro: inj_on_subset)

lemma did_key:
  assumes wf: "wf_schedule (load_schedule f)" and t: "tick_once ping launch now f seen = (did, ok, seen1)"
    and iv: "interval_of rt op f = Some i"
  shows "job_key rt op \<in> run_key ` set did \<longleftrightarrow> (rt, op) \<in> set did"
    "(rt, op) \<in> set did \<Longrightarrow> is_due seen now (rt, op, i)"
    "map_of seen1 (job_key rt op) = (if (rt, op) \<in> set did then Some now else map_of seen (job_key rt op))"
proof -
  note spec = run_due_spec [OF t [unfolded tick_once_def]]
  have did: "\<exists>i. interval_of (fst j) (snd j) f = Some i \<and> is_due seen now (fst j, snd j, i)" if "j \<in> set did" for j
    using spec(1) that due_jobs(1) [OF wf] by blast
  show key: "job_key rt op \<in> run_key ` set did \<longleftrightarrow> (rt, op) \<in> set did"
  proof
    assume "job_key rt op \<in> run_key ` set did"
    then obtain j where j: "job_key rt op = run_key j" "j \<in> set did" by (rule imageE)
    obtain i' where "interval_of (fst j) (snd j) f = Some i'" using did [OF j(2)] by blast
    then have "rt = fst j \<and> op = snd j"
      using job_key_inj [OF interval_allowed [OF wf iv] interval_allowed [OF wf] j(1)] by blast
    then show "(rt, op) \<in> set did" using j(2) by simp
  qed force
  show "(rt, op) \<in> set did \<Longrightarrow> is_due seen now (rt, op, i)" using did [of "(rt, op)"] iv by auto
  show "map_of seen1 (job_key rt op) = (if (rt, op) \<in> set did then Some now else map_of seen (job_key rt op))"
    using spec(2) key by simp
qed

text \<open>A run at \<open>t\<close> of a job is spaced when its last run before was at least its interval ago.\<close>

definition spaced :: "sched_file \<Rightarrow> rat \<times> string \<times> string \<Rightarrow> rat \<times> string \<times> string \<Rightarrow> bool" where
  "spaced f r r' =
     (case interval_of (fst (snd r')) (snd (snd r')) f of
        Some i \<Rightarrow> snd r = snd r' \<longrightarrow> of_int i \<le> fst r' - fst r
      | None \<Rightarrow> False)"

definition rested :: "sched_file \<Rightarrow> last_runs \<Rightarrow> rat \<times> string \<times> string \<Rightarrow> bool" where
  "rested f seen r =
     (case interval_of (fst (snd r)) (snd (snd r)) f of
        Some i \<Rightarrow> is_due seen (fst r) (fst (snd r), snd (snd r), i)
      | None \<Rightarrow> False)"

lemma loop_spaced:
  assumes wf: "wf_schedule (load_schedule f)" and iv: "\<And>rt op i. interval_of rt op f = Some i \<Longrightarrow> 0 \<le> i"
  shows "sched_loop ping launch nows f seen = (runs, seen') \<Longrightarrow>
    sorted_wrt (spaced f) runs \<and> list_all (rested f seen) runs"
proof (induction nows arbitrary: seen runs seen')
  case (Cons now nows)
  obtain did ok seen1 where t: "tick_once ping launch now f seen = (did, ok, seen1)" by (metis prod_cases3)
  obtain more seen2 where m: "sched_loop ping launch nows f seen1 = (more, seen2)" by (metis surj_pair)
  have runs: "runs = map (Pair now) did @ more" using Cons.prems t m by simp
  note ih = Cons.IH [OF m]
  note spec = run_due_spec [OF t [unfolded tick_once_def]]
  have did: "\<exists>i. interval_of (fst j) (snd j) f = Some i \<and> is_due seen now (fst j, snd j, i)" if "j \<in> set did" for j
    using spec(1) that due_jobs(1) [OF wf] by blast
  have dist: "distinct (map run_key did)" using spec(5) due_jobs(2) [OF wf] by blast
  have later: "(\<forall>j\<in>set did. spaced f (now, j) r) \<and> rested f seen r" if r: "r \<in> set more" for r
  proof -
    obtain t' rt op where [simp]: "r = (t', rt, op)" by (cases r)
    have "rested f seen1 r" using ih r by (simp add: list_all_iff)
    then obtain i where i: "interval_of rt op f = Some i" "is_due seen1 t' (rt, op, i)"
      by (auto simp: rested_def split: option.splits)
    note key = did_key [OF wf t i(1)]
    show ?thesis
    proof (cases "(rt, op) \<in> set did")
      case True
      then have gap: "of_int i \<le> t' - now" using i(2) key(3) by (simp add: is_due_def)
      have "0 \<le> i" using iv i(1) by blast
      then have "now \<le> t'" using gap by (meson diff_ge_0_iff_ge of_int_0_le_iff order_trans)
      then have "rested f seen r" using key(2) [OF True] i(1) by (auto simp: rested_def is_due_def split: option.splits)
      then show ?thesis using gap i(1) by (auto simp: spaced_def)
    next
      case False
      then have "rested f seen r" using i key(3) by (auto simp: rested_def is_due_def)
      then show ?thesis using False i(1) by (auto simp: spaced_def)
    qed
  qed
  have "sorted_wrt (spaced f) (map (Pair now) did)"
    using dist did
  proof (induction did)
    case (Cons j did)
    have "spaced f (now, j) (now, j')" if j': "j' \<in> set did" for j'
    proof -
      have "j \<noteq> j'" using Cons.prems(1) j' by auto
      moreover obtain i where "interval_of (fst j') (snd j') f = Some i" using Cons.prems(2) [of j'] j' by auto
      ultimately show ?thesis by (simp add: spaced_def)
    qed
    then show ?case using Cons by simp
  qed simp
  moreover have "list_all (rested f seen) (map (Pair now) did)"
    using did by (force simp: list_all_iff rested_def)
  moreover have "list_all (rested f seen) more" using later by (simp add: list_all_iff)
  ultimately show ?case using ih later unfolding runs by (auto simp: sorted_wrt_append)
qed simp

section \<open>Properties\<close>

text \<open>C38. The scheduler never runs a job twice within its interval: along any sequence of ticks,
  whatever daemons answer and launches fail, two runs of the same job are at least its interval
  apart, and the first run of a job that ran before comes no sooner than its interval after that.\<close>

theorem scheduled_runs_spaced:
  assumes "wf_schedule (load_schedule f)" "\<forall>rt op i. interval_of rt op f = Some i \<longrightarrow> 0 \<le> i"
    and "sched_loop ping launch nows f seen = (runs, seen')"
  shows "sorted_wrt (spaced f) runs \<and> list_all (rested f seen) runs"
  using loop_spaced [OF assms(1) _ assms(3)] assms(2) by blast

definition two_jobs :: sched_file where
  "two_jobs = Saved [(''/p'', [(''sync'', 60), (''embed'', 600)])]"

lemma scheduled_runs_spaced_witness:
  "\<exists>runs seen'. sched_loop (\<lambda>_. True) (\<lambda>_ _. True) [0, 30, 60, 90, 120] two_jobs [] = (runs, seen') \<and>
     map fst (filter (\<lambda>r. snd (snd r) = ''sync'') runs) = [0, 60, 120] \<and> sorted_wrt (spaced two_jobs) runs"
proof -
  let ?runs = "[(0, ''/p'', ''sync''), (0, ''/p'', ''embed''), (60, ''/p'', ''sync''), (120, ''/p'', ''sync'')]"
  let ?seen = "[(''/p|sync'', 120), (''/p|embed'', 0)]"
  have run: "sched_loop (\<lambda>_. True) (\<lambda>_ _. True) [0, 30, 60, 90, 120] two_jobs [] = (?runs, ?seen)" by code_simp
  have wf: "wf_schedule (load_schedule two_jobs)" by code_simp
  have "\<forall>rt op i. interval_of rt op two_jobs = Some i \<longrightarrow> 0 \<le> i"
    by (auto simp: interval_of_def ops_of_def two_jobs_def load_schedule_def split: if_splits)
  then have "sorted_wrt (spaced two_jobs) ?runs" using scheduled_runs_spaced [OF wf _ run] by blast
  then show ?thesis using run by simp
qed

text \<open>Every scheduled job of an answering daemon runs in time: after a tick in which no launch
  failed, each such job has run less than its interval ago, or in this very tick.\<close>

theorem tick_runs_due_jobs:
  assumes "wf_schedule (load_schedule f)" "\<forall>rt op. launch rt op" "interval_of rt op f = Some i" "ping rt"
    and "tick_once ping launch now f seen = (did, ok, seen1)"
  shows "ok \<and> (\<exists>t. map_of seen1 (job_key rt op) = Some t \<and> (t = now \<and> (rt, op) \<in> set did \<or> now - t < of_int i))"
proof -
  note spec = run_due_spec [OF assms(5) [unfolded tick_once_def]]
  have ok: "ok" using spec(4) assms(2) by blast
  show ?thesis
  proof (cases "is_due seen now (rt, op, i)")
    case True
    then have "(rt, op) \<in> set did"
      using spec(3) [OF ok _ assms(4)] due_jobs(1) [OF assms(1)] assms(3) by blast
    then show ?thesis using ok did_key(3) [OF assms(1, 5, 3)] by simp
  next
    case False
    then show ?thesis using ok did_key(2, 3) [OF assms(1, 5, 3)] by (auto simp: is_due_def split: option.splits)
  qed
qed

lemma tick_runs_due_jobs_witness:
  "map_of (snd (snd (tick_once (\<lambda>_. True) (\<lambda>_ _. True) 5 two_jobs []))) (job_key ''/p'' ''embed'') = Some 5"
proof -
  have wf: "wf_schedule (load_schedule two_jobs)" by code_simp
  have iv: "interval_of ''/p'' ''embed'' two_jobs = Some 600" by code_simp
  have run: "tick_once (\<lambda>_. True) (\<lambda>_ _. True) 5 two_jobs [] =
      ([(''/p'', ''sync''), (''/p'', ''embed'')], True, [(''/p|sync'', 5), (''/p|embed'', 5)])" by code_simp
  have "\<exists>t. map_of [(''/p|sync'', 5), (''/p|embed'', 5)] (job_key ''/p'' ''embed'') = Some (t :: rat)"
    using tick_runs_due_jobs [OF wf _ iv _ run] by blast
  then show ?thesis by (simp add: run job_key_def)
qed

text \<open>A launch that raises ends its tick, so the jobs after it wait for as long as it raises.\<close>

lemma failing_job_starves:
  "fst (sched_loop (\<lambda>_. True) (\<lambda>rt op. op \<noteq> ''sync'') nows two_jobs []) = []"
proof -
  have "tick_once (\<lambda>_. True) (\<lambda>rt op. op \<noteq> ''sync'') now two_jobs [] = ([], False, [])" for now
    by (simp add: tick_once_def due_def two_jobs_def load_schedule_def jobs_def is_due_def)
  then show ?thesis by (induction nows) (simp_all split: prod.splits)
qed

text \<open>An unreadable schedule file reads as an empty one, and adding a job to it overwrites it.\<close>

lemma corrupt_schedule_lost:
  "op \<in> set allowed_ops \<Longrightarrow> add_job rt op i Corrupt = (Inr [(rt, [(op, i)])], Saved [(rt, [(op, i)])])"
  by (simp add: add_job_def load_schedule_def ops_of_def Let_def)
end
