(* ===== verification/PartitionMerge.thy ===== *)
theory PartitionMerge
  imports Repair Purge
begin

text \<open>
  \<open>Store.merge_partition\<close>: the entities of one partition move into another, those whose kind
  and name the target has already are folded into the target's entity, and the fragments are
  repaired under the id map of the folded ones. The saved queries, which no other modelled
  operation touches, are a list of their own; vector directories are not modelled. The proofs
  are in PartitionMergeFacts.
\<close>

record saved_query =
  q_pid :: nat
  q_name :: string
  q_body :: string
  q_created :: time

record pmerge_report =
  pm_reparented :: nat
  pm_merged :: nat
  pm_saved :: nat
  pm_tracked :: nat
  pm_dry :: bool
  pm_repair :: "repair_report option"

section \<open>Folding one entity into another\<close>

definition body_length :: "nat \<Rightarrow> store \<Rightarrow> nat" where
  "body_length i s = (case memory_row i s of None \<Rightarrow> 0 | Some m \<Rightarrow> length (m_content m))"

text \<open>The longer body wins; \<open>created_at\<close> of an existing target row stays.\<close>

definition fold_body :: "nat \<Rightarrow> nat \<Rightarrow> store \<Rightarrow> store" where
  "fold_body src dst s =
     (case memory_row src s of
        None \<Rightarrow> s
      | Some m \<Rightarrow>
          let rows =
            (if body_length dst s < length (m_content m) then
               (if memory_row dst s = None then memory_content s @ [m\<lparr>m_entity := dst\<rparr>]
                else map (\<lambda>r. if m_entity r = dst
                              then r\<lparr>m_content := m_content m, m_mtype := m_mtype m, m_tags := m_tags m,
                                     m_metadata := m_metadata m, m_updated := m_updated m\<rparr> else r)
                       (memory_content s))
             else memory_content s)
          in s\<lparr>memory_content := filter (\<lambda>r. m_entity r \<noteq> src) rows\<rparr>)"

text \<open>The links of the target entity to a concept the source entity links to are deleted, then
  the source's are re-pointed; then the same on the concept side.\<close>

definition fold_entity_side :: "nat \<Rightarrow> nat \<Rightarrow> link_row list \<Rightarrow> link_row list" where
  "fold_entity_side src dst rows =
     (let taken = map k_concept (filter (\<lambda>r. k_entity r = src) rows)
      in map (\<lambda>r. if k_entity r = src then r\<lparr>k_entity := dst\<rparr> else r)
           (filter (\<lambda>r. \<not> (k_entity r = dst \<and> k_concept r \<in> set taken)) rows))"

definition fold_concept_side :: "nat \<Rightarrow> nat \<Rightarrow> link_row list \<Rightarrow> link_row list" where
  "fold_concept_side src dst rows =
     (let taken = map k_entity (filter (\<lambda>r. k_concept r = src) rows)
      in map (\<lambda>r. if k_concept r = src then r\<lparr>k_concept := dst\<rparr> else r)
           (filter (\<lambda>r. \<not> (k_concept r = dst \<and> k_entity r \<in> set taken)) rows))"

definition fold_links :: "nat \<Rightarrow> nat \<Rightarrow> store \<Rightarrow> store" where
  "fold_links src dst s =
     s\<lparr>entity_links := fold_concept_side src dst (fold_entity_side src dst (entity_links s))\<rparr>"

definition fold_evidence :: "nat \<Rightarrow> nat \<Rightarrow> store \<Rightarrow> store" where
  "fold_evidence src dst s =
     s\<lparr>linkage_evidence :=
         map (\<lambda>v. if v_concept v = src then v\<lparr>v_concept := dst\<rparr> else v)
           (map (\<lambda>v. if v_entity v = src then v\<lparr>v_entity := dst\<rparr> else v) (linkage_evidence s))\<rparr>"

definition fold_concept_row :: "nat \<Rightarrow> nat \<Rightarrow> store \<Rightarrow> store" where
  "fold_concept_row src dst s =
     (let s1 = (case map_of (concepts s) src of None \<Rightarrow> s | Some descr \<Rightarrow> insert_concept_row dst descr s)
      in s1\<lparr>concepts := filter (\<lambda>c. fst c \<noteq> src) (concepts s1)\<rparr>)"

definition fold_entity :: "nat \<times> nat \<Rightarrow> store \<Rightarrow> store" where
  "fold_entity c s =
     (let (src, dst) = c;
          s1 = fold_concept_row src dst (fold_evidence src dst (fold_links src dst (fold_body src dst s)))
      in s1\<lparr>entities := filter (\<lambda>e. e_id e \<noteq> src) (entities s1)\<rparr>)"

section \<open>Moving the rest\<close>

definition reparent :: "nat \<Rightarrow> nat list \<Rightarrow> store \<Rightarrow> store" where
  "reparent pid ids s =
     s\<lparr>entities := map (\<lambda>e. if e_id e \<in> set ids then e\<lparr>e_pid := pid\<rparr> else e) (entities s)\<rparr>"

definition move_saved :: "nat \<Rightarrow> nat \<Rightarrow> saved_query list \<Rightarrow> saved_query list" where
  "move_saved src dst qs =
     filter (\<lambda>q. q_pid q \<noteq> src)
       (fold (\<lambda>q qs. if \<exists>x\<in>set qs. q_pid x = dst \<and> q_name x = q_name q then qs else qs @ [q\<lparr>q_pid := dst\<rparr>])
          (filter (\<lambda>q. q_pid q = src) qs) qs)"

text \<open>On a path both partitions track, the row with the newer synchronisation time is kept.\<close>

definition move_track_row :: "nat \<Rightarrow> track_row \<Rightarrow> track_row list \<Rightarrow> track_row list" where
  "move_track_row dst r rows =
     (case find (\<lambda>x. t_pid x = dst \<and> t_path x = t_path r) rows of
        None \<Rightarrow> rows @ [r\<lparr>t_pid := dst\<rparr>]
      | Some old \<Rightarrow>
          if t_synced old < t_synced r
          then map (\<lambda>x. if t_pid x = dst \<and> t_path x = t_path r
                        then x\<lparr>t_mtime := t_mtime r, t_synced := t_synced r\<rparr> else x) rows
          else rows)"

definition move_tracked :: "nat \<Rightarrow> nat \<Rightarrow> track_row list \<Rightarrow> track_row list" where
  "move_tracked src dst rows =
     filter (\<lambda>r. t_pid r \<noteq> src) (fold (move_track_row dst) (filter (\<lambda>r. t_pid r = src) rows) rows)"

section \<open>The merge\<close>

definition collisions_of :: "nat \<Rightarrow> nat \<Rightarrow> store \<Rightarrow> (nat \<times> nat) list" where
  "collisions_of src dst s =
     List.concat (map (\<lambda>e. case find_entity dst (e_kind e) (e_name e) s of
                             None \<Rightarrow> [] | Some d \<Rightarrow> [(e_id e, e_id d)])
                    (filter (\<lambda>e. e_pid e = src) (entities s)))"

definition movers :: "nat \<Rightarrow> nat \<Rightarrow> store \<Rightarrow> nat list" where
  "movers src dst s =
     map e_id (filter (\<lambda>e. e_pid e = src \<and> find_entity dst (e_kind e) (e_name e) s = None) (entities s))"

text \<open>The collisions and the survivors go in chunks.\<close>

definition merge_rows :: "nat \<Rightarrow> nat \<Rightarrow> nat \<Rightarrow> store \<times> saved_query list \<Rightarrow> store \<times> saved_query list" where
  "merge_rows chunk src dst ss =
     (let (s, saved) = ss;
          s1 = fold (\<lambda>cs. fold fold_entity cs) (chunks chunk (collisions_of src dst s)) s;
          s2 = fold (reparent dst) (chunks chunk (movers src dst s)) s1
      in (s2\<lparr>tracked_files := move_tracked src dst (tracked_files s2),
             partitions := filter (\<lambda>p. p_id p \<noteq> src) (partitions s2)\<rparr>,
          move_saved src dst saved))"

definition partition_report :: "nat \<Rightarrow> nat \<Rightarrow> bool \<Rightarrow> store \<times> saved_query list \<Rightarrow> pmerge_report" where
  "partition_report src dst dry ss =
     (let (s, saved) = ss in
      \<lparr>pm_reparented = length (movers src dst s), pm_merged = length (collisions_of src dst s),
       pm_saved = length (filter (\<lambda>q. q_pid q = src) saved),
       pm_tracked = length (filter (\<lambda>r. t_pid r = src) (tracked_files s)), pm_dry = dry, pm_repair = None\<rparr>)"

definition no_merge :: "bool \<Rightarrow> pmerge_report" where
  "no_merge dry = \<lparr>pm_reparented = 0, pm_merged = 0, pm_saved = 0, pm_tracked = 0, pm_dry = dry, pm_repair = None\<rparr>"

definition merge_partition ::
  "bool \<Rightarrow> nat \<Rightarrow> string \<Rightarrow> string \<Rightarrow> store \<times> saved_query list \<Rightarrow>
     pmerge_report result \<times> (store \<times> saved_query list)" where
  "merge_partition dry chunk src_name dst_name ss =
     (let s0 = (if dry then fst ss else clear_caches (flush_fragments (fst ss))); saved = snd ss in
      case (partition_id_of src_name s0, partition_id_of dst_name s0) of
        (None, _) \<Rightarrow> (Inl (ValueError (''no partition named '' @ src_name)), (s0, saved))
      | (_, None) \<Rightarrow> (Inl (ValueError (''no partition named '' @ dst_name)), (s0, saved))
      | (Some src, Some dst) \<Rightarrow>
          if src = dst then (Inr (no_merge dry), (s0, saved))
          else if dry then (Inr (partition_report src dst True (s0, saved)), (s0, saved))
          else
            let id_map = collisions_of src dst s0;
                (s1, saved1) = merge_rows chunk src dst (s0, saved);
                s2 = (if snd (bound s1) = src_name then s1\<lparr>bound := (dst, dst_name)\<rparr> else s1);
                (rep, s3) = repair_fragments False id_map (flush_fragments s2)
            in (Inr ((partition_report src dst False (s0, saved))\<lparr>pm_repair := Some rep\<rparr>), (s3, saved1)))"
end
