(* ===== verification/PartitionMergeFacts.thy ===== *)
theory PartitionMergeFacts
  imports PartitionMerge
begin

text \<open>
  What \<open>merge_partition\<close> does to the catalog and the graph: entities by name, links by the pairs
  they connect, fragments by the edges they hold; and what it loses.
\<close>

section \<open>Chunks do not matter\<close>

lemma fold_concat: "fold (\<lambda>cs. fold f cs) css s = fold f (List.concat css) s"
  by (induction css arbitrary: s) simp_all

lemma reparent_twice: "reparent p bs (reparent p as s) = reparent p (as @ bs) s"
proof -
  have "map (\<lambda>e. if e_id e \<in> set bs then e\<lparr>e_pid := p\<rparr> else e)
          (map (\<lambda>e. if e_id e \<in> set as then e\<lparr>e_pid := p\<rparr> else e) es) =
        map (\<lambda>e. if e_id e \<in> set (as @ bs) then e\<lparr>e_pid := p\<rparr> else e) es" for es
    by (induction es) auto
  then show ?thesis by (simp add: reparent_def)
qed

lemma reparent_all: "fold (reparent p) css s = reparent p (List.concat css) s"
proof (induction css arbitrary: s)
  case Nil
  then show ?case by (simp add: reparent_def)
qed (simp add: reparent_twice)

lemma merge_rows_eq:
  "merge_rows chunk src dst (s, saved) =
     (let s2 = reparent dst (movers src dst s) (fold fold_entity (collisions_of src dst s) s)
      in (s2\<lparr>tracked_files := move_tracked src dst (tracked_files s2),
             partitions := filter (\<lambda>p. p_id p \<noteq> src) (partitions s2)\<rparr>,
          move_saved src dst saved))"
  by (simp add: merge_rows_def fold_concat reparent_all Let_def)

section \<open>Links by the pairs they connect\<close>

definition link_pairs :: "link_row list \<Rightarrow> (nat \<times> nat) set" where
  "link_pairs rows = (\<lambda>r. (k_concept r, k_entity r)) ` set rows"

definition subst_id :: "nat \<times> nat \<Rightarrow> nat \<Rightarrow> nat" where
  "subst_id c x = (if x = fst c then snd c else x)"

definition subst_ids :: "(nat \<times> nat) list \<Rightarrow> nat \<Rightarrow> nat" where
  "subst_ids cs x = (case map_of cs x of None \<Rightarrow> x | Some y \<Rightarrow> y)"

lemma subst_ids_Cons:
  "b \<notin> fst ` set cs \<Longrightarrow> subst_ids ((a, b) # cs) x = subst_ids cs (subst_id (a, b) x)"
  by (auto simp: subst_ids_def subst_id_def map_of_eq_None_iff [THEN iffD2])

lemma mem_pairs: "(c, e) \<in> link_pairs rows \<longleftrightarrow> (\<exists>r\<in>set rows. k_concept r = c \<and> k_entity r = e)"
  by (auto simp: link_pairs_def)

lemma image_cover:
  "(\<And>r. r \<in> R \<Longrightarrow> d r \<Longrightarrow> \<exists>r'\<in>R. \<not> d r' \<and> g r' = g r) \<Longrightarrow> g ` {r \<in> R. \<not> d r} = g ` R"
  by (auto simp: image_iff) metis

definition shadowed_entity :: "nat \<Rightarrow> nat \<Rightarrow> link_row list \<Rightarrow> link_row \<Rightarrow> bool" where
  "shadowed_entity a b rows r = (k_entity r = b \<and> (\<exists>r'\<in>set rows. k_entity r' = a \<and> k_concept r' = k_concept r))"

definition shadowed_concept :: "nat \<Rightarrow> nat \<Rightarrow> link_row list \<Rightarrow> link_row \<Rightarrow> bool" where
  "shadowed_concept a b rows r = (k_concept r = b \<and> (\<exists>r'\<in>set rows. k_concept r' = a \<and> k_entity r' = k_entity r))"

lemma sides_filter:
  "fold_entity_side a b rows = map (\<lambda>r. r\<lparr>k_entity := subst_id (a, b) (k_entity r)\<rparr>) (filter (\<lambda>r. \<not> shadowed_entity a b rows r) rows)"
  "fold_concept_side a b rows = map (\<lambda>r. r\<lparr>k_concept := subst_id (a, b) (k_concept r)\<rparr>) (filter (\<lambda>r. \<not> shadowed_concept a b rows r) rows)"
  by (auto simp: fold_entity_side_def fold_concept_side_def shadowed_entity_def shadowed_concept_def subst_id_def
      image_iff eq_commute intro!: map_cong filter_cong)

lemma fold_entity_side_pairs:
  assumes "a \<noteq> b"
  shows "link_pairs (fold_entity_side a b rows) = map_prod id (subst_id (a, b)) ` link_pairs rows"
proof -
  let ?g = "\<lambda>r. (k_concept r, subst_id (a, b) (k_entity r))"
  have "\<exists>r'\<in>set rows. \<not> shadowed_entity a b rows r' \<and> ?g r' = ?g r" if "shadowed_entity a b rows r" for r
    using that assms unfolding shadowed_entity_def by (auto simp: subst_id_def)
  then have "?g ` {r \<in> set rows. \<not> shadowed_entity a b rows r} = ?g ` set rows" by (intro image_cover)
  then show ?thesis by (simp add: link_pairs_def sides_filter image_image)
qed

lemma fold_concept_side_pairs:
  assumes "a \<noteq> b"
  shows "link_pairs (fold_concept_side a b rows) = map_prod (subst_id (a, b)) id ` link_pairs rows"
proof -
  let ?g = "\<lambda>r. (subst_id (a, b) (k_concept r), k_entity r)"
  have "\<exists>r'\<in>set rows. \<not> shadowed_concept a b rows r' \<and> ?g r' = ?g r" if "shadowed_concept a b rows r" for r
    using that assms unfolding shadowed_concept_def by (auto simp: subst_id_def)
  then have "?g ` {r \<in> set rows. \<not> shadowed_concept a b rows r} = ?g ` set rows" by (intro image_cover)
  then show ?thesis by (simp add: link_pairs_def sides_filter image_image)
qed

lemma fold_sides_pairs:
  "a \<noteq> b \<Longrightarrow> link_pairs (fold_concept_side a b (fold_entity_side a b rows)) =
     map_prod (subst_id (a, b)) (subst_id (a, b)) ` link_pairs rows"
  by (simp add: fold_concept_side_pairs fold_entity_side_pairs image_image map_prod.compositionality prod.map_comp comp_def)

text \<open>No link is made up: each key of the folded rows is the image of an old key.\<close>

definition subst_key :: "(nat \<Rightarrow> nat) \<Rightarrow> nat \<times> nat \<times> nat \<Rightarrow> nat \<times> nat \<times> nat" where
  "subst_key f k = (case k of (e, l, c) \<Rightarrow> (f e, l, f c))"

lemma fold_sides_keys:
  "link_key ` set (fold_concept_side a b (fold_entity_side a b rows)) \<subseteq> subst_key (subst_id (a, b)) ` link_key ` set rows"
  unfolding image_image by (auto simp: sides_filter link_key_def subst_key_def)

lemma fold_sides_distinct:
  assumes "distinct (map link_key rows)"
  shows "distinct (map link_key (fold_concept_side a b (fold_entity_side a b rows)))"
proof -
  have e: "distinct (map link_key (fold_entity_side a b rows))" if d: "distinct (map link_key rows)" for rows
  proof -
    have inj: "inj_on link_key (set rows)" "distinct rows" using d by (simp_all add: distinct_map)
    have "inj_on (\<lambda>r. link_key (r\<lparr>k_entity := subst_id (a, b) (k_entity r)\<rparr>)) {r \<in> set rows. \<not> shadowed_entity a b rows r}"
    proof (rule inj_onI)
      fix x y assume xy: "x \<in> {r \<in> set rows. \<not> shadowed_entity a b rows r}" "y \<in> {r \<in> set rows. \<not> shadowed_entity a b rows r}"
        "link_key (x\<lparr>k_entity := subst_id (a, b) (k_entity x)\<rparr>) = link_key (y\<lparr>k_entity := subst_id (a, b) (k_entity y)\<rparr>)"
      then have "k_entity x = k_entity y" unfolding shadowed_entity_def
        by (auto simp: link_key_def subst_id_def split: if_splits)
      then have "link_key x = link_key y" using xy(3) by (simp add: link_key_def)
      then show "x = y" using xy(1,2) inj(1) by (auto dest: inj_onD)
    qed
    then show ?thesis using inj(2) by (simp add: sides_filter distinct_map comp_def)
  qed
  have c: "distinct (map link_key (fold_concept_side a b rows))" if d: "distinct (map link_key rows)" for rows
  proof -
    have inj: "inj_on link_key (set rows)" "distinct rows" using d by (simp_all add: distinct_map)
    have "inj_on (\<lambda>r. link_key (r\<lparr>k_concept := subst_id (a, b) (k_concept r)\<rparr>)) {r \<in> set rows. \<not> shadowed_concept a b rows r}"
    proof (rule inj_onI)
      fix x y assume xy: "x \<in> {r \<in> set rows. \<not> shadowed_concept a b rows r}" "y \<in> {r \<in> set rows. \<not> shadowed_concept a b rows r}"
        "link_key (x\<lparr>k_concept := subst_id (a, b) (k_concept x)\<rparr>) = link_key (y\<lparr>k_concept := subst_id (a, b) (k_concept y)\<rparr>)"
      then have "k_concept x = k_concept y" unfolding shadowed_concept_def
        by (auto simp: link_key_def subst_id_def split: if_splits)
      then have "link_key x = link_key y" using xy(3) by (simp add: link_key_def)
      then show "x = y" using xy(1,2) inj(1) by (auto dest: inj_onD)
    qed
    then show ?thesis using inj(2) by (simp add: sides_filter distinct_map comp_def)
  qed
  show ?thesis using assms e c by blast
qed

section \<open>All collisions\<close>

definition fold_rows :: "(nat \<times> nat) list \<Rightarrow> link_row list \<Rightarrow> link_row list" where
  "fold_rows cs rows = fold (\<lambda>(a, b) rows. fold_concept_side a b (fold_entity_side a b rows)) cs rows"

definition folds_ok :: "(nat \<times> nat) list \<Rightarrow> bool" where
  "folds_ok cs = (distinct (map fst cs) \<and> fst ` set cs \<inter> snd ` set cs = {})"

lemma folds_ok_Cons: "folds_ok ((a, b) # cs) \<Longrightarrow> folds_ok cs \<and> a \<noteq> b \<and> b \<notin> fst ` set cs"
  by (auto simp: folds_ok_def)

lemma fold_rows_pairs:
  "folds_ok cs \<Longrightarrow> link_pairs (fold_rows cs rows) = map_prod (subst_ids cs) (subst_ids cs) ` link_pairs rows"
proof (induction cs arbitrary: rows)
  case Nil
  have "subst_ids [] = id" by (simp add: fun_eq_iff subst_ids_def)
  then show ?case by (simp add: fold_rows_def map_prod.id)
next
  case (Cons c cs)
  obtain a b where c: "c = (a, b)" by (cases c)
  then have ok: "folds_ok cs" "a \<noteq> b" "b \<notin> fst ` set cs" using Cons.prems folds_ok_Cons by auto
  have "map_prod (subst_ids cs) (subst_ids cs) (map_prod (subst_id (a, b)) (subst_id (a, b)) x) =
        map_prod (subst_ids (c # cs)) (subst_ids (c # cs)) x" for x
    by (cases x) (simp add: c subst_ids_Cons [OF ok(3)])
  then show ?case
    using Cons.IH [OF ok(1), of "fold_concept_side a b (fold_entity_side a b rows)"]
    by (simp add: fold_rows_def c fold_sides_pairs [OF ok(2)] image_image)
qed

lemma fold_rows_keys:
  "folds_ok cs \<Longrightarrow> link_key ` set (fold_rows cs rows) \<subseteq> subst_key (subst_ids cs) ` link_key ` set rows"
proof (induction cs arbitrary: rows)
  case Nil
  have "subst_key (subst_ids []) = id" by (auto simp: fun_eq_iff subst_key_def subst_ids_def)
  then show ?case by (simp add: fold_rows_def)
next
  case (Cons c cs)
  obtain a b where c: "c = (a, b)" by (cases c)
  then have ok: "folds_ok cs" "a \<noteq> b" "b \<notin> fst ` set cs" using Cons.prems folds_ok_Cons by auto
  have k: "subst_key (subst_ids cs) (subst_key (subst_id (a, b)) x) = subst_key (subst_ids (c # cs)) x" for x
    by (cases x) (simp add: c subst_key_def subst_ids_Cons [OF ok(3)])
  have "link_key ` set (fold_rows (c # cs) rows) \<subseteq>
      subst_key (subst_ids cs) ` link_key ` set (fold_concept_side a b (fold_entity_side a b rows))"
    using Cons.IH [OF ok(1), of "fold_concept_side a b (fold_entity_side a b rows)"] by (simp add: fold_rows_def c)
  also have "\<dots> \<subseteq> subst_key (subst_ids cs) ` subst_key (subst_id (a, b)) ` link_key ` set rows"
    by (intro image_mono fold_sides_keys)
  finally show ?case by (simp add: image_image k)
qed

text \<open>A link is lost only to a link between other ends that the fold makes the same.\<close>

definition alone :: "(nat \<Rightarrow> nat) \<Rightarrow> link_row list \<Rightarrow> link_row \<Rightarrow> bool" where
  "alone f rows r = (\<forall>x\<in>set rows. f (k_entity x) = f (k_entity r) \<and> f (k_concept x) = f (k_concept r) \<longrightarrow>
     k_entity x = k_entity r \<and> k_concept x = k_concept r)"

lemma fold_sides_kept:
  assumes r: "r \<in> set rows" "alone (subst_id (a, b)) rows r" and ab: "a \<noteq> b"
  defines "f \<equiv> subst_id (a, b)"
  shows "r\<lparr>k_entity := f (k_entity r), k_concept := f (k_concept r)\<rparr> \<in> set (fold_concept_side a b (fold_entity_side a b rows))"
proof -
  let ?rows = "fold_entity_side a b rows" and ?r = "r\<lparr>k_entity := f (k_entity r)\<rparr>"
  have al: "k_entity x = k_entity r \<and> k_concept x = k_concept r"
    if "x \<in> set rows" "f (k_entity x) = f (k_entity r)" "f (k_concept x) = f (k_concept r)" for x
    using r(2) that unfolding alone_def f_def by blast
  have "\<not> shadowed_entity a b rows r"
  proof
    assume "shadowed_entity a b rows r"
    then obtain x where x: "x \<in> set rows" "k_entity x = a" "k_entity r = b" "k_concept x = k_concept r"
      unfolding shadowed_entity_def by blast
    then show False using al [OF x(1)] ab by (simp add: f_def subst_id_def)
  qed
  then have r1: "?r \<in> set ?rows" using r(1) by (simp add: sides_filter f_def)
  have "\<not> shadowed_concept a b ?rows ?r"
  proof
    assume "shadowed_concept a b ?rows ?r"
    then obtain x where x: "x \<in> set rows" "f (k_entity x) = f (k_entity r)" "k_concept x = a" "k_concept r = b"
      by (auto simp: shadowed_concept_def sides_filter f_def)
    then show False using al [OF x(1)] ab by (simp add: f_def subst_id_def)
  qed
  then have "?r\<lparr>k_concept := f (k_concept ?r)\<rparr> \<in> set (fold_concept_side a b ?rows)"
    using r1 unfolding sides_filter(2) f_def set_map set_filter by (intro imageI CollectI conjI)
  then show ?thesis by simp
qed

lemma fold_rows_kept:
  "folds_ok cs \<Longrightarrow> r \<in> set rows \<Longrightarrow> alone (subst_ids cs) rows r \<Longrightarrow>
     subst_key (subst_ids cs) (link_key r) \<in> link_key ` set (fold_rows cs rows)"
proof (induction cs arbitrary: rows r)
  case Nil
  then show ?case by (force simp: fold_rows_def subst_key_def subst_ids_def link_key_def)
next
  case (Cons c cs)
  obtain a b where c: "c = (a, b)" by (cases c)
  then have ok: "folds_ok cs" "a \<noteq> b" "b \<notin> fst ` set cs" using Cons.prems folds_ok_Cons by auto
  note two = subst_ids_Cons [OF ok(3), of a]
  let ?f = "subst_id (a, b)" and ?rows = "fold_concept_side a b (fold_entity_side a b rows)"
  let ?r = "r\<lparr>k_entity := ?f (k_entity r), k_concept := ?f (k_concept r)\<rparr>"
  have "alone ?f rows r" using Cons.prems(3) by (auto simp: alone_def c two)
  then have r: "?r \<in> set ?rows" by (rule fold_sides_kept [OF Cons.prems(2) _ ok(2)])
  have "alone (subst_ids cs) ?rows ?r"
    unfolding alone_def
  proof (intro ballI impI)
    fix x assume x: "x \<in> set ?rows" "subst_ids cs (k_entity x) = subst_ids cs (k_entity ?r) \<and>
      subst_ids cs (k_concept x) = subst_ids cs (k_concept ?r)"
    then have "link_key x \<in> subst_key ?f ` link_key ` set rows" using fold_sides_keys [of a b rows] by blast
    then obtain y where y: "y \<in> set rows" "k_entity x = ?f (k_entity y)" "k_concept x = ?f (k_concept y)"
      by (auto simp: link_key_def subst_key_def)
    then have "k_entity y = k_entity r \<and> k_concept y = k_concept r"
      using Cons.prems(3) x(2) unfolding alone_def by (auto simp: c two)
    then show "k_entity x = k_entity ?r \<and> k_concept x = k_concept ?r" using y by simp
  qed
  note ih = Cons.IH [OF ok(1) r this]
  have "subst_key (subst_ids cs) (link_key ?r) = subst_key (subst_ids (c # cs)) (link_key r)"
    by (simp add: subst_key_def link_key_def c two)
  then show ?case using ih by (simp add: fold_rows_def c)
qed

lemma fold_rows_distinct: "distinct (map link_key rows) \<Longrightarrow> distinct (map link_key (fold_rows cs rows))"
  by (induction cs arbitrary: rows) (auto simp: fold_rows_def fold_sides_distinct)

lemma fold_body_frame [simp]:
  "entities (fold_body a b s) = entities s" "entity_links (fold_body a b s) = entity_links s"
  "concepts (fold_body a b s) = concepts s" "linkage_types (fold_body a b s) = linkage_types s"
  "partitions (fold_body a b s) = partitions s" "disk (fold_body a b s) = disk s" "cache (fold_body a b s) = cache s"
  "dirty (fold_body a b s) = dirty s" "bound (fold_body a b s) = bound s" "next_pid (fold_body a b s) = next_pid s"
  "next_eid (fold_body a b s) = next_eid s" "next_lid (fold_body a b s) = next_lid s"
  "link_buffer (fold_body a b s) = link_buffer s"
  by (simp_all add: fold_body_def Let_def split: option.split)

lemma fold_concept_row_frame [simp]:
  "entities (fold_concept_row a b s) = entities s" "entity_links (fold_concept_row a b s) = entity_links s"
  "linkage_types (fold_concept_row a b s) = linkage_types s"
  "partitions (fold_concept_row a b s) = partitions s" "disk (fold_concept_row a b s) = disk s"
  "cache (fold_concept_row a b s) = cache s" "dirty (fold_concept_row a b s) = dirty s"
  "bound (fold_concept_row a b s) = bound s" "next_pid (fold_concept_row a b s) = next_pid s"
  "next_eid (fold_concept_row a b s) = next_eid s" "next_lid (fold_concept_row a b s) = next_lid s"
  "link_buffer (fold_concept_row a b s) = link_buffer s"
  by (simp_all add: fold_concept_row_def insert_concept_row_def Let_def split: option.split)

lemma fold_entity_frame [simp]:
  "linkage_types (fold_entity c s) = linkage_types s"
  "partitions (fold_entity c s) = partitions s" "disk (fold_entity c s) = disk s" "cache (fold_entity c s) = cache s"
  "dirty (fold_entity c s) = dirty s" "bound (fold_entity c s) = bound s" "next_pid (fold_entity c s) = next_pid s"
  "next_eid (fold_entity c s) = next_eid s" "next_lid (fold_entity c s) = next_lid s"
  "link_buffer (fold_entity c s) = link_buffer s"
  "entities (fold_entity c s) = filter (\<lambda>e. e_id e \<noteq> fst c) (entities s)"
  "entity_links (fold_entity c s) = fold_rows [c] (entity_links s)"
  by (simp_all add: fold_entity_def fold_links_def fold_evidence_def fold_rows_def Let_def split: prod.split)

lemma fold_entities_frame [simp]:
  "linkage_types (fold fold_entity cs s) = linkage_types s"
  "partitions (fold fold_entity cs s) = partitions s" "disk (fold fold_entity cs s) = disk s"
  "cache (fold fold_entity cs s) = cache s" "dirty (fold fold_entity cs s) = dirty s"
  "bound (fold fold_entity cs s) = bound s" "next_pid (fold fold_entity cs s) = next_pid s"
  "next_eid (fold fold_entity cs s) = next_eid s" "next_lid (fold fold_entity cs s) = next_lid s"
  "link_buffer (fold fold_entity cs s) = link_buffer s"
  "entities (fold fold_entity cs s) = filter (\<lambda>e. e_id e \<notin> fst ` set cs) (entities s)"
  "entity_links (fold fold_entity cs s) = fold_rows cs (entity_links s)"
  by (induction cs arbitrary: s) (simp_all add: fold_rows_def conj_commute del: fold_entity_def)

section \<open>Entities by name\<close>

definition collides :: "nat \<Rightarrow> nat \<Rightarrow> store \<Rightarrow> entity \<Rightarrow> bool" where
  "collides src dst s e = (e_pid e = src \<and> find_entity dst (e_kind e) (e_name e) s \<noteq> None)"

definition moved_to :: "nat \<Rightarrow> nat \<Rightarrow> entity \<Rightarrow> entity" where
  "moved_to src dst e = (if e_pid e = src then e\<lparr>e_pid := dst\<rparr> else e)"

lemma moved_to_fields [simp]:
  "e_id (moved_to src dst e) = e_id e" "e_kind (moved_to src dst e) = e_kind e" "e_name (moved_to src dst e) = e_name e"
  "e_pid (moved_to src dst e) = (if e_pid e = src then dst else e_pid e)"
  "entity_ok (moved_to src dst e) = entity_ok e"
  by (simp_all add: moved_to_def entity_ok_def)

lemma find_entity_iff:
  assumes "wf_entities s"
  shows "find_entity p k n s = Some e \<longleftrightarrow> e \<in> set (entities s) \<and> entity_key e = (p, k, n)"
  using assms find_key_unique [of entity_key "entities s" e] by (auto simp: find_entity_def wf_entities_def dest: find_SomeD)

lemma same_id: "wf_entities s \<Longrightarrow> e \<in> set (entities s) \<Longrightarrow> e' \<in> set (entities s) \<Longrightarrow> e_id e = e_id e' \<Longrightarrow> e = e'"
  by (auto simp: wf_entities_def distinct_map dest: inj_onD)

lemma collisions_iff:
  "(i, j) \<in> set (collisions_of src dst s) \<longleftrightarrow>
     (\<exists>e d. e \<in> set (entities s) \<and> e_pid e = src \<and> find_entity dst (e_kind e) (e_name e) s = Some d \<and> i = e_id e \<and> j = e_id d)"
  by (auto simp: collisions_of_def split: option.splits) force

lemma collision_srcs:
  assumes "wf_entities s" "e \<in> set (entities s)"
  shows "e_id e \<in> fst ` set (collisions_of src dst s) \<longleftrightarrow> collides src dst s e"
    "e_id e \<in> set (movers src dst s) \<longleftrightarrow> e_pid e = src \<and> \<not> collides src dst s e"
proof -
  have "e_id e \<in> fst ` set (collisions_of src dst s) \<longleftrightarrow> (\<exists>j. (e_id e, j) \<in> set (collisions_of src dst s))" by force
  also have "\<dots> \<longleftrightarrow> collides src dst s e"
    unfolding collisions_iff collides_def using same_id [OF assms(1)] assms(2) by blast
  finally show "e_id e \<in> fst ` set (collisions_of src dst s) \<longleftrightarrow> collides src dst s e" .
  show "e_id e \<in> set (movers src dst s) \<longleftrightarrow> e_pid e = src \<and> \<not> collides src dst s e"
    using same_id [OF assms(1)] assms(2) by (auto simp: movers_def collides_def)
qed

lemma collisions_ok:
  assumes "wf_entities s" "src \<noteq> dst"
  shows "folds_ok (collisions_of src dst s)"
    "\<And>i j. (i, j) \<in> set (collisions_of src dst s) \<Longrightarrow> i \<in> e_id ` set (entities s) \<and> j \<in> e_id ` set (entities s)"
proof -
  show mem: "i \<in> e_id ` set (entities s) \<and> j \<in> e_id ` set (entities s)"
    if "(i, j) \<in> set (collisions_of src dst s)" for i j
    using that unfolding collisions_iff find_entity_iff [OF assms(1)] by blast
  have "\<exists>e\<in>set (entities s). e_id e = i \<and> e_pid e = src" "\<exists>d\<in>set (entities s). e_id d = j \<and> e_pid d = dst"
    if "(i, j) \<in> set (collisions_of src dst s)" for i j
    using that unfolding collisions_iff find_entity_iff [OF assms(1)] by (auto simp: entity_key_def)
  then have "fst ` set (collisions_of src dst s) \<inter> snd ` set (collisions_of src dst s) = {}"
    using same_id [OF assms(1)] assms(2) by fastforce
  moreover have "distinct (map fst (collisions_of src dst s))"
  proof -
    let ?f = "\<lambda>e. case find_entity dst (e_kind e) (e_name e) s of None \<Rightarrow> [] | Some d \<Rightarrow> [(e_id e, e_id d)]"
    have srcs: "map fst (List.concat (map ?f es)) = map e_id (filter (\<lambda>e. find_entity dst (e_kind e) (e_name e) s \<noteq> None) es)" for es
      by (induction es) (auto split: option.split)
    show ?thesis
      using assms(1) unfolding collisions_of_def srcs by (simp add: wf_entities_def distinct_map_filter)
  qed
  ultimately show "folds_ok (collisions_of src dst s)" by (simp add: folds_ok_def)
qed

lemma merged_entities:
  assumes "wf_entities s"
  shows "entities (reparent dst (movers src dst s) (fold fold_entity (collisions_of src dst s) s)) =
           map (moved_to src dst) (filter (\<lambda>e. \<not> collides src dst s e) (entities s))"
proof -
  have "filter (\<lambda>e. e_id e \<notin> fst ` set (collisions_of src dst s)) (entities s) = filter (\<lambda>e. \<not> collides src dst s e) (entities s)"
    using collision_srcs(1) [OF assms] by (intro filter_cong) simp_all
  then show ?thesis
    using collision_srcs(2) [OF assms]
    by (simp add: reparent_def) (auto simp: moved_to_def intro!: map_cong)
qed

lemma merged_keys:
  assumes "wf_entities s" "src \<noteq> dst"
  shows "distinct (map entity_key (map (moved_to src dst) (filter (\<lambda>e. \<not> collides src dst s e) (entities s))))"
proof -
  have d: "distinct (entities s)" using assms(1) by (auto simp: wf_entities_def distinct_map)
  have "inj_on (\<lambda>e. entity_key (moved_to src dst e)) {e \<in> set (entities s). \<not> collides src dst s e}"
  proof (rule inj_onI)
    fix x y assume x: "x \<in> {e \<in> set (entities s). \<not> collides src dst s e}"
      and y: "y \<in> {e \<in> set (entities s). \<not> collides src dst s e}"
      and eq: "entity_key (moved_to src dst x) = entity_key (moved_to src dst y)"
    have no: "\<not> (e_pid a = src \<and> e_pid b = dst \<and> e_kind a = e_kind b \<and> e_name a = e_name b)"
      if "a \<in> set (entities s)" "b \<in> set (entities s)" "\<not> collides src dst s a" for a b
    proof
      assume h: "e_pid a = src \<and> e_pid b = dst \<and> e_kind a = e_kind b \<and> e_name a = e_name b"
      then have "find_entity dst (e_kind a) (e_name a) s = Some b"
        using that(2) unfolding find_entity_iff [OF assms(1)] by (simp add: entity_key_def)
      then show "False" using h that(3) by (simp add: collides_def)
    qed
    have "entity_key x = entity_key y"
      using eq no [of x y] no [of y x] x y
      by (cases "e_pid x = src"; cases "e_pid y = src") (simp_all add: entity_key_def)
    then show "x = y" using x y assms(1) by (auto simp: wf_entities_def distinct_map dest: inj_onD)
  qed
  then show ?thesis using d by (simp add: distinct_map comp_def)
qed

lemma merged_wf_entities:
  assumes "wf_entities s" "src \<noteq> dst"
    "entities t = map (moved_to src dst) (filter (\<lambda>e. \<not> collides src dst s e) (entities s))" "next_eid t = next_eid s"
  shows "wf_entities t"
proof -
  have "distinct (map e_id (entities t))"
    using assms(1) by (simp add: assms(3) comp_def wf_entities_def distinct_map_filter)
  then show ?thesis
    using assms merged_keys [OF assms(1,2)] by (auto simp: wf_entities_def)
qed

lemma merged_find:
  assumes "wf_entities s" "src \<noteq> dst"
    "entities t = map (moved_to src dst) (filter (\<lambda>e. \<not> collides src dst s e) (entities s))" "next_eid t = next_eid s"
  shows "find_entity p k n t =
           (if p = src then None
            else if p = dst then
              (case find_entity dst k n s of
                 Some e \<Rightarrow> Some e
               | None \<Rightarrow> map_option (\<lambda>e. e\<lparr>e_pid := dst\<rparr>) (find_entity src k n s))
            else find_entity p k n s)"
    (is "?l = ?r")
proof -
  have wf: "wf_entities t" by (rule merged_wf_entities [OF assms])
  have "?l = Some e \<longleftrightarrow> ?r = Some e" for e
  proof -
    have "?l = Some e \<longleftrightarrow> (\<exists>e0\<in>set (entities s). \<not> collides src dst s e0 \<and> e = moved_to src dst e0 \<and> entity_key e = (p, k, n))"
      unfolding find_entity_iff [OF wf] assms(3) by auto
    also have "\<dots> \<longleftrightarrow> ?r = Some e"
    proof (cases "p = dst")
      case True
      show ?thesis
      proof (cases "find_entity dst k n s")
        case None
        then have "\<not> (e0 \<in> set (entities s) \<and> entity_key e0 = (dst, k, n))" for e0
          using find_entity_iff [OF assms(1), of dst k n e0] by auto
        then have "(e0 \<in> set (entities s) \<and> \<not> collides src dst s e0 \<and> entity_key (moved_to src dst e0) = (dst, k, n)) \<longleftrightarrow>
            find_entity src k n s = Some e0" for e0
          using None assms(2) unfolding find_entity_iff [OF assms(1)] collides_def entity_key_def moved_to_fields
          by (cases "e_pid e0 = src") auto
        then have "(\<exists>e0\<in>set (entities s). \<not> collides src dst s e0 \<and> e = moved_to src dst e0 \<and> entity_key e = (dst, k, n)) \<longleftrightarrow>
            (\<exists>e0. find_entity src k n s = Some e0 \<and> e = moved_to src dst e0)" by blast
        also have "\<dots> \<longleftrightarrow> (\<exists>e0. find_entity src k n s = Some e0 \<and> e = e0\<lparr>e_pid := dst\<rparr>)"
          by (auto simp: find_entity_iff [OF assms(1)] moved_to_def entity_key_def)
        finally show ?thesis using True None assms(2) by auto
      next
        case (Some d)
        then have d: "d \<in> set (entities s)" "entity_key d = (dst, k, n)" using find_entity_iff [OF assms(1)] by auto
        have "e0 = d" if "e0 \<in> set (entities s)" "\<not> collides src dst s e0" "entity_key (moved_to src dst e0) = (dst, k, n)" for e0
        proof -
          have "entity_key e0 = (dst, k, n)"
            using that Some by (auto simp: entity_key_def collides_def split: if_splits)
          then show ?thesis using that(1) Some find_entity_iff [OF assms(1), of dst k n e0] by simp
        qed
        moreover have "\<not> collides src dst s d" "moved_to src dst d = d"
          using d(2) assms(2) by (auto simp: collides_def moved_to_def entity_key_def)
        ultimately have "(\<exists>e0\<in>set (entities s). \<not> collides src dst s e0 \<and> e = moved_to src dst e0 \<and> entity_key e = (dst, k, n)) \<longleftrightarrow> e = d"
          using d by metis
        then show ?thesis using True Some assms(2) by auto
      qed
    next
      case False
      then show ?thesis using assms(2)
        by (auto simp: find_entity_iff [OF assms(1)] collides_def moved_to_def entity_key_def split: if_splits)
    qed
    finally show ?thesis .
  qed
  then show ?thesis by (metis option.exhaust)
qed

section \<open>Repair under an id map\<close>

definition mapped_rows :: "(nat \<times> nat) list \<Rightarrow> store \<Rightarrow> frag_rows" where
  "mapped_rows m s = ra_new (classify_rows s (remap_rows m (disk s)) (ls_new (scan_links s)))"

definition mapped_bits :: "(nat \<times> nat) list \<Rightarrow> store \<Rightarrow> nat \<Rightarrow> string \<Rightarrow> bitmap" where
  "mapped_bits m s p l =
     link_bits s (p, l) \<union>
     {b. \<exists>p' l' v. v \<in> disk_value p' l' s \<and> b = remap_bit m v \<and> bit_home s l' b = Some (p, l)}"

lemma remap_bit_Nil: "remap_bit [] v = v"
  by (simp add: remap_bit_def)

lemma remap_rows_ex:
  "(\<exists>(key, f)\<in>set (remap_rows m rows). b \<in> f \<and> P key) \<longleftrightarrow> (\<exists>(key, f)\<in>set rows. \<exists>v\<in>f. b = remap_bit m v \<and> P key)"
  by (cases "m = []") (force simp: remap_rows_def remap_bit_Nil)+

lemma mapped_rows_bits:
  assumes "finite_frags s" "distinct_disk s"
  shows "row_bits (mapped_rows m s) (p, l) = mapped_bits m s p l" "distinct (map fst (mapped_rows m s))"
proof -
  have fin: "\<forall>kf\<in>set (remap_rows m (disk s)). finite (snd kf)"
    using assms(1) by (auto simp: finite_frags_def remap_rows_def)
  have "(\<exists>(key, f)\<in>set (remap_rows m (disk s)). b \<in> f \<and> bit_home s (snd key) b = Some (p, l)) \<longleftrightarrow>
      (\<exists>p' l' v. v \<in> disk_value p' l' s \<and> b = remap_bit m v \<and> bit_home s l' b = Some (p, l))" for b
  proof -
    have "(\<exists>(key, f)\<in>set (disk s). \<exists>v\<in>f. b = remap_bit m v \<and> bit_home s (snd key) b = Some (p, l)) \<longleftrightarrow>
        (\<exists>v. \<exists>(key, f)\<in>set (disk s). v \<in> f \<and> (b = remap_bit m v \<and> bit_home s (snd key) b = Some (p, l)))" by blast
    then show ?thesis
      unfolding remap_rows_ex [where P = "\<lambda>key. bit_home s (snd key) b = Some (p, l)"]
        disk_rows_ex [OF assms(2), where P = "\<lambda>key. b = remap_bit m _ \<and> bit_home s (snd key) b = Some (p, l)"]
      by (simp add: disk_rows_ex [OF assms(2), where P = "\<lambda>key. b = remap_bit m _ \<and> bit_home s (snd key) b = Some (p, l)"]) blast
  qed
  then show "row_bits (mapped_rows m s) (p, l) = mapped_bits m s p l"
    by (simp add: mapped_rows_def mapped_bits_def classify_rows_props(1) [OF scan_links_distinct fin] scan_links_bits)
  show "distinct (map fst (mapped_rows m s))"
    by (simp add: mapped_rows_def classify_rows_props(2) [OF scan_links_distinct fin])
qed

lemma repair_map_state:
  assumes "dirty s = []"
  shows "snd (repair_fragments False m (flush_fragments s)) =
     (if changed_keys (disk s) (mapped_rows m s) \<noteq> [] then clear_caches (write_all_rows (mapped_rows m s) s) else s)"
proof -
  have "s\<lparr>dirty := []\<rparr> = s" using assms by (cases s) simp
  then have "flush_fragments s = s" using assms by (simp add: flush_fragments_def)
  then show ?thesis by (simp add: repair_fragments_def mapped_rows_def Let_def)
qed

lemma repair_map_value:
  assumes "dirty s = []" "cache s = []" "finite_frags s" "distinct_disk s"
  shows "disk_value p l (snd (repair_fragments False m (flush_fragments s))) = mapped_bits m s p l"
    "cache (snd (repair_fragments False m (flush_fragments s))) = []"
    "dirty (snd (repair_fragments False m (flush_fragments s))) = []"
  using mapped_rows_bits [OF assms(3,4), of m] row_bits_sorted [of "mapped_rows m s" "(p, l)"] assms(1,2)
  by (auto simp: repair_map_state changed_keys_iff disk_value_row_bits write_all_rows_def clear_caches_def)

lemma repair_map_frame:
  assumes "dirty s = []"
  shows "entities (snd (repair_fragments False m (flush_fragments s))) = entities s"
    "next_eid (snd (repair_fragments False m (flush_fragments s))) = next_eid s"
    "linkage_types (snd (repair_fragments False m (flush_fragments s))) = linkage_types s"
    "next_lid (snd (repair_fragments False m (flush_fragments s))) = next_lid s"
    "partitions (snd (repair_fragments False m (flush_fragments s))) = partitions s"
    "next_pid (snd (repair_fragments False m (flush_fragments s))) = next_pid s"
    "bound (snd (repair_fragments False m (flush_fragments s))) = bound s"
    "entity_links (snd (repair_fragments False m (flush_fragments s))) = entity_links s"
  by (simp_all add: repair_map_state [OF assms] write_all_rows_def clear_caches_def)

section \<open>The graph as edges\<close>

definition edges :: "store \<Rightarrow> string \<Rightarrow> (nat \<times> nat) set" where
  "edges s l = (\<lambda>v. (bit_concept v, bit_entity v)) ` (\<Union>b\<in>bindings s. frag_value b l s)"

definition ids_of :: "store \<Rightarrow> nat set" where
  "ids_of s = e_id ` set (entities s)"

text \<open>Every bit lies under a canonical verb and connects two entities that exist; ids fit a half of
  a bit; every entity is in a partition that exists.\<close>

definition graph_live :: "store \<Rightarrow> bool" where
  "graph_live s =
     ((\<forall>l. edges s l \<noteq> {} \<longrightarrow> canonical_verb l = l) \<and>
      (\<forall>l c e. (c, e) \<in> edges s l \<longrightarrow> c \<in> ids_of s \<and> e \<in> ids_of s) \<and>
      (\<forall>i\<in>ids_of s. i < 2 ^ 32) \<and> e_pid ` set (entities s) \<subseteq> p_id ` set (partitions s))"

lemma mem_edges: "(c, e) \<in> edges s l \<longleftrightarrow> (\<exists>b\<in>bindings s. \<exists>v\<in>frag_value b l s. c = bit_concept v \<and> e = bit_entity v)"
  by (auto simp: edges_def)

lemma ent_part_Some: "wf_entities s \<Longrightarrow> ent_part s i = Some p \<longleftrightarrow> (\<exists>e\<in>set (entities s). e_id e = i \<and> e_pid e = p)"
  by (force simp: ent_part_def wf_entities_def map_of_eq_Some_iff comp_def)

lemma remap_subst: "remap_bit m v = pack (subst_ids m (bit_concept v)) (subst_ids m (bit_entity v))"
  by (simp add: remap_bit_def subst_ids_def Let_def)

lemma partition_without:
  assumes "distinct (map p_id (partitions s))" "distinct (map p_name (partitions s))"
    "partition_id_of src_name s = Some src"
    "partitions t = filter (\<lambda>p. p_id p \<noteq> src) (partitions s)"
  shows "partition_id_of n t = (if n = src_name then None else partition_id_of n s)"
proof -
  obtain q where q: "q \<in> set (partitions s)" "p_id q = src" "p_name q = src_name"
    using assms(3) by (auto simp: partition_id_of_def dest!: find_SomeD)
  have same: "p_id p = src \<longleftrightarrow> p_name p = src_name" if "p \<in> set (partitions s)" for p
    using q that assms(1,2) by (auto simp: distinct_map dest: inj_onD)
  have "filter (\<lambda>p. p_id p \<noteq> src) (partitions s) = filter (\<lambda>p. p_name p \<noteq> src_name) (partitions s)"
    using same by (intro filter_cong) auto
  moreover have "find (\<lambda>p. p_name p = n) (filter (\<lambda>p. p_name p \<noteq> src_name) ps) =
      (if n = src_name then None else find (\<lambda>p. p_name p = n) ps)" for ps :: "partition list"
    by (induction ps) auto
  ultimately show ?thesis using assms(4) by (simp add: partition_id_of_def)
qed

lemma linkage_found:
  assumes "wf_linkages s" "linkage_name s i = Some l"
  shows "lk_find l s = Some i"
proof -
  obtain r where r: "r \<in> set (linkage_types s)" "l_id r = i" "l = canonical_verb (l_name r)"
    using assms(2) by (auto simp: linkage_name_def dest!: map_of_SomeD)
  then have "l_name r = l" using assms(1) by (simp add: wf_linkages_def)
  then have "find (\<lambda>r'. l_name r' = l) (linkage_types s) = Some r"
    using assms(1) r(1) find_key_unique [of l_name "linkage_types s" r] by (simp add: wf_linkages_def)
  then show ?thesis using r(2) by (simp add: lk_find_def)
qed

lemma ids_merged:
  assumes "wf_entities s" "src \<noteq> dst"
    "entities t = map (moved_to src dst) (filter (\<lambda>e. \<not> collides src dst s e) (entities s))"
  shows "x \<in> ids_of s \<Longrightarrow> subst_ids (collisions_of src dst s) x \<in> ids_of t"
    "ids_of t \<subseteq> ids_of s" "subst_ids (collisions_of src dst s) x \<in> ids_of t \<Longrightarrow> x \<in> ids_of s"
proof -
  let ?m = "collisions_of src dst s"
  have dist: "distinct (map fst ?m)" using collisions_ok(1) [OF assms(1,2)] by (simp add: folds_ok_def)
  show sub: "ids_of t \<subseteq> ids_of s" by (auto simp: ids_of_def assms(3))
  show "subst_ids ?m x \<in> ids_of t \<Longrightarrow> x \<in> ids_of s"
    using sub collisions_ok(2) [OF assms(1,2), of x]
    by (auto simp: subst_ids_def ids_of_def split: option.splits dest: map_of_SomeD)
  assume "x \<in> ids_of s"
  then obtain e where e: "e \<in> set (entities s)" "e_id e = x" by (auto simp: ids_of_def)
  show "subst_ids ?m x \<in> ids_of t"
  proof (cases "collides src dst s e")
    case True
    then obtain d where d: "find_entity dst (e_kind e) (e_name e) s = Some d" "e_pid e = src" by (auto simp: collides_def)
    then have "(x, e_id d) \<in> set ?m" unfolding collisions_iff using e by blast
    then have "subst_ids ?m x = e_id d" using dist by (simp add: subst_ids_def)
    moreover have "d \<in> set (entities s)" "e_pid d = dst"
      using d(1) unfolding find_entity_iff [OF assms(1)] by (auto simp: entity_key_def)
    then have "e_id d \<in> ids_of t" using assms(2) by (force simp: ids_of_def assms(3) collides_def image_iff)
    ultimately show ?thesis by simp
  next
    case False
    then have "x \<notin> fst ` set ?m" using collision_srcs(1) [OF assms(1) e(1)] e(2) by simp
    then have "subst_ids ?m x = x" by (simp add: subst_ids_def map_of_eq_None_iff [THEN iffD2])
    then show ?thesis using e False by (force simp: ids_of_def assms(3) image_iff)
  qed
qed

lemma mapped_edges:
  fixes s t :: store and src dst :: nat
  defines "f \<equiv> subst_ids (collisions_of src dst s)"
  assumes wf: "wf_catalog s" "graph_inv s" "graph_live s" "src \<noteq> dst"
    and ents: "entities t = map (moved_to src dst) (filter (\<lambda>e. \<not> collides src dst s e) (entities s))"
      "next_eid t = next_eid s" "linkage_types t = linkage_types s" "next_lid t = next_lid s"
    and keys: "link_key ` set (entity_links t) \<subseteq> subst_key f ` link_key ` set (entity_links s)"
    and disk: "\<forall>b\<in>bindings s. \<forall>l. disk_value (fst b) l t = frag_value b l s"
      "\<forall>p l. disk_value p l t \<noteq> {} \<longrightarrow> p \<in> p_id ` set (partitions s)"
  shows "v \<in> mapped_bits (collisions_of src dst s) t p l \<Longrightarrow>
      p \<in> e_pid ` set (entities t) \<and> (bit_concept v, bit_entity v) \<in> map_prod f f ` edges s l"
    "(c, e) \<in> edges s l \<Longrightarrow>
      \<exists>p\<in>e_pid ` set (entities t). pack (f c) (f e) \<in> mapped_bits (collisions_of src dst s) t p l \<and> f e < 2 ^ 32"
proof -
  have we: "wf_entities s" and wp: "wf_partitions s" and wl: "wf_linkages s" using wf(1) by (auto simp: wf_catalog_def)
  have wt: "wf_entities t" by (rule merged_wf_entities [OF we wf(4) ents(1,2)])
  note ids = ids_merged [OF we wf(4) ents(1), folded f_def]
  have small: "i < 2 ^ 32" if "i \<in> ids_of s" for i using wf(3) that by (simp add: graph_live_def)
  have part: "ent_part t i \<noteq> None \<longleftrightarrow> i \<in> ids_of t" for i
    by (auto simp: ent_part_def ids_of_def map_of_eq_None_iff image_iff)
  have live: "x \<in> set (live_concepts t)" if "x \<in> ids_of t" for x
    using that by (simp add: live_concepts_def ids_of_def)
  have home: "p \<in> e_pid ` set (entities t)" if "ent_part t i = Some p" for i p
    using that unfolding ent_part_Some [OF wt] by blast
  have canon: "canonical_verb l = l" "c \<in> ids_of s" "e \<in> ids_of s" if "(c, e) \<in> edges s l" for c e l
    using wf(3) that by (auto simp: graph_live_def)
  {
    assume "v \<in> mapped_bits (collisions_of src dst s) t p l"
    then consider (row) r where "r \<in> set (entity_links t)" "link_bit t r = Some ((p, l), v)"
      | (bit) p' l' v0 where "v0 \<in> disk_value p' l' t" "v = remap_bit (collisions_of src dst s) v0" "bit_home t l' v = Some (p, l)"
      by (auto simp: mapped_bits_def link_bits_def)
    then show "p \<in> e_pid ` set (entities t) \<and> (bit_concept v, bit_entity v) \<in> map_prod f f ` edges s l"
    proof cases
      case row
      then have r: "ent_part t (k_entity r) = Some p" "linkage_name t (k_linkage r) = Some l"
        "v = pack (k_concept r) (k_entity r)"
        by (auto simp: link_bit_def split: option.splits if_splits)
      have "link_key r \<in> subst_key f ` link_key ` set (entity_links s)" using keys row(1) by blast
      then obtain r0 where r0: "r0 \<in> set (entity_links s)" "k_entity r = f (k_entity r0)" "k_linkage r = k_linkage r0"
        "k_concept r = f (k_concept r0)" by (auto simp: link_key_def subst_key_def)
      have e0: "k_entity r0 \<in> ids_of s" using part [of "k_entity r"] r(1) r0(2) ids(3) by auto
      have lk: "lk_find l s = Some (k_linkage r0)"
        using linkage_found [OF wl] r(2) r0(3) by (simp add: linkage_name_def ents(3))
      have "(k_entity r0, k_linkage r0, k_concept r0) \<in> link_key ` set (entity_links s)"
        using r0(1) by (force simp: link_key_def)
      then have "\<exists>n. k_entity r0 \<in> rows_of_store s n l (k_concept r0)"
        using wf(2) lk small [OF e0] unfolding graph_inv_def shadow_ok_def by blast
      then obtain b where "b \<in> bindings s" "pack (k_concept r0) (k_entity r0) \<in> frag_value b l s"
        using rows_ex [OF wp small [OF e0]] by blast
      then have "(k_concept r0, k_entity r0) \<in> edges s l"
        unfolding mem_edges using unpack_pack [OF small [OF e0]] by metis
      moreover have "k_entity r \<in> ids_of s" using part [of "k_entity r"] r(1) ids(2) by auto
      ultimately show ?thesis
        using home [OF r(1)] r(3) r0 small by (force simp: unpack_pack)
    next
      case bit
      then have "p' \<in> p_id ` set (partitions s)" using bit(1) disk(2) by blast
      then obtain b where b: "b \<in> bindings s" "fst b = p'" by (force simp: bindings_def)
      have "v0 \<in> frag_value b l' s" using disk(1) b bit(1) by blast
      then have ed: "(bit_concept v0, bit_entity v0) \<in> edges s l'" unfolding mem_edges using b(1) by blast
      have "ent_part t (bit_entity v) = Some p" "canonical_verb l' = l"
        using bit(3) by (auto simp: bit_home_def split: if_splits)
      moreover have "f (bit_entity v0) < 2 ^ 32" using ids(1,2) canon(3) [OF ed] small by blast
      then have "bit_concept v = f (bit_concept v0)" "bit_entity v = f (bit_entity v0)"
        by (simp_all add: bit(2) remap_subst f_def unpack_pack)
      ultimately show ?thesis using ed canon(1) [OF ed] home by force
    qed
  }
  assume ed: "(c, e) \<in> edges s l"
  then obtain b v0 where b: "b \<in> bindings s" "v0 \<in> frag_value b l s" "c = bit_concept v0" "e = bit_entity v0"
    unfolding mem_edges by blast
  have fe: "f e \<in> ids_of t" "f c \<in> ids_of t" using ids(1) canon [OF ed] by auto
  then have lt: "f e < 2 ^ 32" using ids(2) small by blast
  obtain p where p: "ent_part t (f e) = Some p" using part fe(1) by blast
  have "remap_bit (collisions_of src dst s) v0 = pack (f c) (f e)" by (simp add: remap_subst f_def b(3,4))
  moreover have "v0 \<in> disk_value (fst b) l t" using disk(1) b(1,2) by blast
  moreover have "bit_home t l (pack (f c) (f e)) = Some (p, l)"
    using p live [OF fe(2)] canon(1) [OF ed] by (simp add: bit_home_def live_bit_def unpack_pack [OF lt])
  ultimately have "pack (f c) (f e) \<in> mapped_bits (collisions_of src dst s) t p l"
    unfolding mapped_bits_def by (metis (mono_tags, lifting) UnI2 mem_Collect_eq)
  then show "\<exists>p\<in>e_pid ` set (entities t). pack (f c) (f e) \<in> mapped_bits (collisions_of src dst s) t p l \<and> f e < 2 ^ 32"
    using home [OF p] lt by blast
qed

lemma merge_base:
  fixes s :: store
  defines "s0 \<equiv> clear_caches (flush_fragments s)"
  assumes "wf_partitions s" "frag_ok s"
  shows "b \<in> bindings s \<Longrightarrow> disk_value (fst b) l s0 = frag_value b l s"
    "disk_value p l s0 \<noteq> {} \<Longrightarrow> p \<in> p_id ` set (partitions s)"
    "entities s0 = entities s" "partitions s0 = partitions s" "linkage_types s0 = linkage_types s"
    "entity_links s0 = entity_links s" "bound s0 = bound s" "next_pid s0 = next_pid s" "next_eid s0 = next_eid s"
    "next_lid s0 = next_lid s" "cache s0 = []" "dirty s0 = []"
proof -
  show "b \<in> bindings s \<Longrightarrow> disk_value (fst b) l s0 = frag_value b l s"
    using flush_lemma(2) [OF assms(2,3)] by (simp add: s0_def clear_caches_def disk_value_def)
  have "frag_ok (flush_fragments s)" using assms(2,3) by (intro frag_ok_flush) (simp add: frag_inv_def)
  then show "disk_value p l s0 \<noteq> {} \<Longrightarrow> p \<in> p_id ` set (partitions s)"
    using frag_okD(4) [of "flush_fragments s" p l] by (simp add: s0_def clear_caches_def disk_value_def)
  have fl: "next_eid (fold flush_entry D t) = next_eid t" "next_lid (fold flush_entry D t) = next_lid t" for D t
    by (induction D arbitrary: t) (simp_all add: flush_entry_def Let_def split: option.split)
  show "entities s0 = entities s" "partitions s0 = partitions s" "linkage_types s0 = linkage_types s"
    "entity_links s0 = entity_links s" "bound s0 = bound s" "next_pid s0 = next_pid s" "cache s0 = []" "dirty s0 = []"
    by (simp_all add: s0_def clear_caches_def)
  show "next_eid s0 = next_eid s" "next_lid s0 = next_lid s"
    by (simp_all add: s0_def clear_caches_def flush_fragments_def fl)
qed

lemma collisions_cong:
  assumes "entities s = entities t"
  shows "collisions_of src dst s = collisions_of src dst t" "movers src dst s = movers src dst t"
    "collides src dst s = collides src dst t"
  using find_entity_cong [OF assms] assms by (simp_all add: collisions_of_def movers_def collides_def fun_eq_iff)

text \<open>What a successful merge leaves, before the repair.\<close>

definition before_repair :: "nat \<Rightarrow> nat \<Rightarrow> string \<Rightarrow> string \<Rightarrow> store \<Rightarrow> store" where
  "before_repair src dst src_name dst_name s =
     (let s2 = reparent dst (movers src dst s) (fold fold_entity (collisions_of src dst s) s);
          s3 = s2\<lparr>tracked_files := move_tracked src dst (tracked_files s2),
                  partitions := filter (\<lambda>p. p_id p \<noteq> src) (partitions s2)\<rparr>
      in if snd (bound s3) = src_name then s3\<lparr>bound := (dst, dst_name)\<rparr> else s3)"

lemma before_repair_frame:
  "entities (before_repair src dst sn dn s) =
     entities (reparent dst (movers src dst s) (fold fold_entity (collisions_of src dst s) s))"
  "linkage_types (before_repair src dst sn dn s) = linkage_types s" "next_lid (before_repair src dst sn dn s) = next_lid s"
  "next_eid (before_repair src dst sn dn s) = next_eid s" "next_pid (before_repair src dst sn dn s) = next_pid s"
  "partitions (before_repair src dst sn dn s) = filter (\<lambda>p. p_id p \<noteq> src) (partitions s)"
  "bound (before_repair src dst sn dn s) = (if snd (bound s) = sn then (dst, dn) else bound s)"
  "entity_links (before_repair src dst sn dn s) = fold_rows (collisions_of src dst s) (entity_links s)"
  "disk (before_repair src dst sn dn s) = disk s" "cache (before_repair src dst sn dn s) = cache s"
  "dirty (before_repair src dst sn dn s) = dirty s"
  by (simp_all add: before_repair_def reparent_def Let_def)

lemma merge_partition_eq:
  assumes "partition_id_of src_name s = Some src" "partition_id_of dst_name s = Some dst" "src \<noteq> dst"
    "s0 = clear_caches (flush_fragments s)" "partitions s0 = partitions s"
  shows "\<exists>rep saved'. merge_partition False chunk src_name dst_name (s, saved) =
    (Inr rep, (snd (repair_fragments False (collisions_of src dst s0)
                     (flush_fragments (before_repair src dst src_name dst_name s0))), saved'))"
  using assms partition_id_cong [OF assms(5)]
  by (simp add: merge_partition_def merge_rows_eq before_repair_def Let_def split: prod.split)

lemma partition_ids_differ:
  assumes "wf_partitions s" "partition_id_of m s = Some i" "partition_id_of n s = Some j" "m \<noteq> n"
  shows "i \<noteq> j"
  using bindings_inj [OF assms(1) partition_id_in [OF assms(2)] partition_id_in [OF assms(3)]] assms(4) by auto

lemma edges_mapped:
  assumes part: "\<And>b l. b \<in> bindings t \<Longrightarrow> frag_value b l t = bits (fst b) l"
    and homes: "P \<subseteq> p_id ` set (partitions t)"
    and image: "\<And>p l v. v \<in> bits p l \<Longrightarrow> p \<in> P \<and> (bit_concept v, bit_entity v) \<in> map_prod f f ` edges s l"
    and cover: "\<And>c e l. (c, e) \<in> edges s l \<Longrightarrow> \<exists>p\<in>P. pack (f c) (f e) \<in> bits p l \<and> f e < 2 ^ 32"
  shows "edges t l = map_prod f f ` edges s l"
proof (intro equalityI subrelI)
  fix c e assume "(c, e) \<in> edges t l"
  then obtain b v where "b \<in> bindings t" "v \<in> frag_value b l t" "c = bit_concept v" "e = bit_entity v"
    unfolding mem_edges by blast
  then have v: "v \<in> bits (fst b) l" "(c, e) = (bit_concept v, bit_entity v)" using part [of b l] by simp_all
  show "(c, e) \<in> map_prod f f ` edges s l" unfolding v(2) by (rule image [OF v(1), THEN conjunct2])
next
  fix c e assume "(c, e) \<in> map_prod f f ` edges s l"
  then obtain c0 e0 where ce: "(c0, e0) \<in> edges s l" "c = f c0" "e = f e0" by auto
  then obtain p where p: "p \<in> P" "pack c e \<in> bits p l" "e < 2 ^ 32" using cover by blast
  have "p \<in> p_id ` set (partitions t)" using homes p(1) by (rule subsetD)
  then obtain b where b: "b \<in> bindings t" "fst b = p" by (force simp: bindings_def)
  then have "pack c e \<in> frag_value b l t" using part p(2) by simp
  then show "(c, e) \<in> edges t l" unfolding mem_edges using b(1) unpack_pack [OF p(3)] by metis
qed

text \<open>C20. Merging partition \<open>src\<close> into \<open>dst\<close> keeps every entity and every edge of the fragments. Afterwards
  the partition \<open>src\<close> is gone; a kind and name is found in \<open>dst\<close> when it was in either, as the entity
  of \<open>dst\<close> when both had it; under the map of the folded ids the fragments hold exactly the edges they
  held, under the same verbs, in the partitions of their entities. The forward index connects exactly
  the pairs it connected and has no row of a new verb, but a row may be lost: only where the map of the
  folded ids brings two rows with different ends together, whose verbs may differ. The catalog and the
  fragment invariant hold again; that the index is the shadow of the fragments need not.\<close>

theorem merge_partition_correct:
  assumes "wf_catalog s" "graph_inv s" "graph_live s" "finite_frags s" "distinct_disk s"
    "partition_id_of src_name s = Some src" "partition_id_of dst_name s = Some dst" "src_name \<noteq> dst_name"
  shows "\<exists>rep t saved' f. merge_partition False chunk src_name dst_name (s, saved) = (Inr rep, (t, saved')) \<and>
     f = subst_ids (collisions_of src dst s) \<and>
     wf_catalog t \<and> frag_inv t \<and> partition_id_of src_name t = None \<and>
     (\<forall>k n. find_entity dst k n t =
        (case find_entity dst k n s of
           Some e \<Rightarrow> Some e
         | None \<Rightarrow> map_option (\<lambda>e. e\<lparr>e_pid := dst\<rparr>) (find_entity src k n s))) \<and>
     (\<forall>l. edges t l = map_prod f f ` edges s l) \<and>
     link_pairs (entity_links t) = map_prod f f ` link_pairs (entity_links s) \<and>
     link_key ` set (entity_links t) \<subseteq> subst_key f ` link_key ` set (entity_links s) \<and>
     (\<forall>r\<in>set (entity_links s). alone f (entity_links s) r \<longrightarrow> subst_key f (link_key r) \<in> link_key ` set (entity_links t))"
proof -
  have we: "wf_entities s" and wp: "wf_partitions s" and wl: "wf_linkages s" using assms(1) by (auto simp: wf_catalog_def)
  have fo: "frag_ok s" using assms(2) by (simp add: graph_inv_def frag_inv_def)
  have ne: "src \<noteq> dst" by (rule partition_ids_differ [OF wp assms(6-8)])
  define s0 where "s0 = clear_caches (flush_fragments s)"
  note base = merge_base [OF wp fo, folded s0_def]
  note cong = collisions_cong [OF base(3)]
  let ?m = "collisions_of src dst s"
  define u where "u = before_repair src dst src_name dst_name s0"
  have ents: "entities u = map (moved_to src dst) (filter (\<lambda>e. \<not> collides src dst s e) (entities s))"
    using merged_entities [of s0 dst src] we wf_frame(1) [OF base(3,9)] by (simp add: u_def before_repair_frame cong base(3))
  have u: "next_eid u = next_eid s" "linkage_types u = linkage_types s" "next_lid u = next_lid s" "dirty u = []" "cache u = []"
    "disk u = disk s0" "partitions u = filter (\<lambda>p. p_id p \<noteq> src) (partitions s)" "next_pid u = next_pid s"
    "entity_links u = fold_rows ?m (entity_links s)" "bound u = (if snd (bound s) = src_name then (dst, dst_name) else bound s)"
    by (simp_all add: u_def before_repair_frame base cong)
  have disk: "disk_value p l u = disk_value p l s0" for p l by (simp add: disk_value_def u(6))
  have ok: "folds_ok ?m" by (rule collisions_ok(1) [OF we ne])
  have keys: "link_key ` set (entity_links u) \<subseteq> subst_key (subst_ids ?m) ` link_key ` set (entity_links s)"
    unfolding u(9) by (rule fold_rows_keys [OF ok])
  have d1: "\<forall>b\<in>bindings s. \<forall>l. disk_value (fst b) l u = frag_value b l s" using base(1) by (simp add: disk)
  have d2: "\<forall>p l. disk_value p l u \<noteq> {} \<longrightarrow> p \<in> p_id ` set (partitions s)" using base(2) by (simp add: disk)
  note me = mapped_edges [OF assms(1,2,3) ne ents u(1-3) keys d1 d2]
  have ff: "finite_frags u" "distinct_disk u"
    using flush_props [of s] assms(4,5)
    by (simp_all add: finite_frags_def distinct_disk_def u(5,6) s0_def clear_caches_def)
  define t where "t = snd (repair_fragments False ?m (flush_fragments u))"
  note rv = repair_map_value [OF u(4,5) ff, where m = ?m, folded t_def]
  note rf = repair_map_frame [OF u(4), where m = ?m, folded t_def]
  have fv: "frag_value b l t = mapped_bits ?m u (fst b) l" for b l by (simp add: frag_value_def rv)
  have pid: "partition_id_of n t = (if n = src_name then None else partition_id_of n s)" for n
    using wp assms(6) by (intro partition_without) (simp_all add: wf_partitions_def rf u(7))
  have wt: "wf_entities t" by (rule merged_wf_entities [OF we ne]) (simp_all add: rf ents u(1))
  have "distinct (map p_id (partitions t)) \<and> distinct (map p_name (partitions t)) \<and> (\<forall>p\<in>set (partitions t). p_id p < next_pid t)"
    using wp by (simp add: rf u(7,8) wf_partitions_def distinct_map_filter)
  moreover have "partition_id_of (snd (bound t)) t = Some (fst (bound t))"
    using wp assms(7,8) by (auto simp: pid rf u(10) wf_partitions_def)
  ultimately have wpt: "wf_partitions t" by (simp add: wf_partitions_def)
  have homes: "e_pid ` set (entities u) \<subseteq> p_id ` set (partitions t)"
  proof -
    have "dst \<in> p_id ` set (partitions s)" using partition_id_in [OF assms(7)] by (auto simp: bindings_def)
    moreover have "e_pid ` set (entities s) \<subseteq> p_id ` set (partitions s)" using assms(3) by (simp add: graph_live_def)
    ultimately have "e_pid (moved_to src dst e) \<in> p_id ` set (partitions s) - {src}" if "e \<in> set (entities s)" for e
      using ne that by auto
    moreover have "p_id ` set (partitions t) = p_id ` set (partitions s) - {src}" by (auto simp: rf u(7))
    ultimately show ?thesis unfolding ents by (simp add: image_subset_iff)
  qed
  have "frag_ok t"
  proof (rule frag_okI)
    fix p l assume "disk_value p l t \<noteq> {}"
    then obtain v where "v \<in> mapped_bits ?m u p l" unfolding rv(1) by auto
    then have "p \<in> e_pid ` set (entities u)" by (rule me(1) [THEN conjunct1])
    then show "p \<in> p_id ` set (partitions t)" using homes by (rule rev_subsetD)
  qed (simp_all add: rv)
  moreover have "edges t l = map_prod (subst_ids ?m) (subst_ids ?m) ` edges s l" for l
    by (rule edges_mapped [OF fv homes me])
  moreover have "link_pairs (entity_links t) = map_prod (subst_ids ?m) (subst_ids ?m) ` link_pairs (entity_links s)"
    unfolding rf u(9) by (rule fold_rows_pairs [OF ok])
  moreover have "link_key ` set (entity_links t) \<subseteq> subst_key (subst_ids ?m) ` link_key ` set (entity_links s)"
    using keys by (simp only: rf)
  moreover have "\<forall>r\<in>set (entity_links s). alone (subst_ids ?m) (entity_links s) r \<longrightarrow>
      subst_key (subst_ids ?m) (link_key r) \<in> link_key ` set (entity_links t)"
    unfolding rf u(9) using fold_rows_kept [OF ok] by blast
  moreover have "find_entity dst k n t = (case find_entity dst k n s of
           Some e \<Rightarrow> Some e | None \<Rightarrow> map_option (\<lambda>e. e\<lparr>e_pid := dst\<rparr>) (find_entity src k n s))" for k n
    using merged_find [OF we ne, of t dst k n] ne by (simp add: rf ents u(1))
  moreover have "wf_linkages t" using wl by (simp add: wf_linkages_def rf u(2,3))
  moreover obtain rep saved' where "merge_partition False chunk src_name dst_name (s, saved) = (Inr rep, (t, saved'))"
    using merge_partition_eq [OF assms(6,7) ne s0_def base(4), of chunk saved] by (auto simp: t_def u_def cong)
  ultimately show ?thesis
    using wt wpt pid [of src_name] unfolding wf_catalog_def frag_inv_def by (intro exI conjI allI) simp_all
qed

section \<open>A merge that folds\<close>

definition twin_entity :: "nat \<Rightarrow> nat \<Rightarrow> string \<Rightarrow> string \<Rightarrow> entity" where
  "twin_entity i pid kind name =
     \<lparr>e_id = i, e_pid = pid, e_kind = kind, e_path = None, e_name = name, e_tldr = None, e_meta = None,
      e_created = 0, e_updated = 0, e_protected = False, e_noise = False, e_canonical = canonical_for_kind kind name\<rparr>"

text \<open>The document \<open>d\<close> is in both partitions, and each copy is linked to the concept \<open>c\<close>, by
  another verb.\<close>

definition twin_store :: store where
  "twin_store = fresh_store\<lparr>
     partitions := [\<lparr>p_id = 1, p_name = ''a'', p_kind = ''repo''\<rparr>, \<lparr>p_id = 2, p_name = ''b'', p_kind = ''repo''\<rparr>],
     entities := [twin_entity 1 1 ''doc'' ''d'', twin_entity 2 2 ''doc'' ''d'', twin_entity 3 2 ''concept'' ''c''],
     linkage_types := [\<lparr>l_id = 1, l_name = ''mentions'', l_directed = True, l_description = None\<rparr>,
                       \<lparr>l_id = 2, l_name = ''defines'', l_directed = True, l_description = None\<rparr>],
     entity_links := [\<lparr>k_entity = 1, k_linkage = 2, k_concept = 3, k_weight = None\<rparr>,
                      \<lparr>k_entity = 2, k_linkage = 1, k_concept = 3, k_weight = None\<rparr>],
     disk := [((1, ''defines''), {pack 3 1}), ((2, ''mentions''), {pack 3 2})],
     next_pid := 3, next_eid := 4, next_lid := 3, bound := (1, ''a'')\<rparr>"

lemma twin_frag:
  "frag_value b l twin_store =
     (if (fst b, l) = (1, ''defines'') then {pack 3 1} else if (fst b, l) = (2, ''mentions'') then {pack 3 2} else {})"
  by (simp add: frag_value_def disk_value_def twin_store_def fresh_store_def)

lemma twin_bindings: "bindings twin_store = {(1, ''a''), (2, ''b'')}"
  by (simp add: bindings_def twin_store_def)

lemma twin_edges:
  "edges twin_store l = (if l = ''defines'' then {(3, 1)} else if l = ''mentions'' then {(3, 2)} else {})"
  by (auto simp: edges_def twin_bindings twin_frag)

lemma twin_verbs: "canonical_verb ''mentions'' = ''mentions''" "canonical_verb ''defines'' = ''defines''"
  by (simp_all add: canonical_verb_def verb_aliases_def)

lemma twin_wf: "wf_catalog twin_store"
  by (simp add: wf_catalog_def wf_entities_def wf_partitions_def wf_linkages_def twin_store_def twin_entity_def
      entity_key_def entity_ok_def kinds_def partition_id_of_def twin_verbs)

lemma twin_live: "graph_live twin_store"
  by (auto simp: graph_live_def twin_edges twin_verbs ids_of_def split: if_splits)
    (auto simp: twin_store_def twin_entity_def)

lemma twin_graph: "graph_inv twin_store"
proof -
  have wp: "wf_partitions twin_store" and wl: "wf_linkages twin_store" using twin_wf by (auto simp: wf_catalog_def)
  have "frag_ok twin_store"
    by (rule frag_okI) (auto simp: twin_store_def fresh_store_def disk_value_def split: if_splits)
  moreover have "shadow_ok twin_store"
    unfolding shadow_ok_def
  proof (intro allI impI, elim conjE)
    fix l lid c e assume l: "lk_find l twin_store = Some lid" and e: "e < (2::nat) ^ 32"
    have "l = ''mentions'' \<and> lid = 1 \<or> l = ''defines'' \<and> lid = 2"
      using l by (auto simp: lk_find_def twin_store_def split: if_splits)
    moreover have "link_key ` set (entity_links twin_store) = {(1, 2, 3), (2, 1, 3)}"
      by (simp add: twin_store_def link_key_def)
    moreover have "pack c e = pack 3 1 \<longleftrightarrow> c = 3 \<and> e = 1" "pack c e = pack 3 2 \<longleftrightarrow> c = 3 \<and> e = 2"
      by (rule pack_inj [OF e]; simp)+
    ultimately show "(e, lid, c) \<in> link_key ` set (entity_links twin_store) \<longleftrightarrow> (\<exists>n. e \<in> rows_of_store twin_store n l c)"
      unfolding rows_ex [OF wp e] twin_bindings twin_frag by auto
  qed
  ultimately show ?thesis using wp wl
    by (simp add: graph_inv_def frag_inv_def twin_store_def fresh_store_def)
qed

lemma twin_collisions: "collisions_of 1 2 twin_store = [(1, 2)]"
  by (simp add: collisions_of_def twin_store_def twin_entity_def find_entity_def entity_key_def)

theorem merge_partition_correct_witness:
  "\<exists>rep t saved'. merge_partition False 200 ''a'' ''b'' (twin_store, []) = (Inr rep, (t, saved')) \<and>
     edges t ''mentions'' = {(3, 2)} \<and> edges t ''defines'' = {(3, 2)} \<and> frag_inv t \<and> wf_catalog t"
proof -
  have names: "partition_id_of ''a'' twin_store = Some 1" "partition_id_of ''b'' twin_store = Some 2"
    by (simp_all add: partition_id_of_def twin_store_def)
  have "finite_frags twin_store" "distinct_disk twin_store"
    by (simp_all add: finite_frags_def distinct_disk_def twin_store_def fresh_store_def)
  then show ?thesis
    using merge_partition_correct [OF twin_wf twin_graph twin_live _ _ names, of 200 "[]"]
    by (auto simp: twin_edges twin_collisions [unfolded One_nat_def] subst_ids_def)
qed

text \<open>The forward index loses a link there: the row that says \<open>mentions\<close> is deleted because the
  folded document is linked to the same concept by \<open>defines\<close>.\<close>

lemma merge_drops_other_verb:
  "link_key ` set (fold_rows (collisions_of 1 2 twin_store) (entity_links twin_store)) = {(2, 2, 3)}"
  unfolding twin_collisions
  by (simp add: twin_store_def fold_rows_def sides_filter shadowed_entity_def shadowed_concept_def subst_id_def link_key_def)

text \<open>The body kept for a folded memory is the longer one.\<close>

lemma fold_body_longer:
  assumes "a \<noteq> b"
  shows "body_length b (fold_body a b s) = max (body_length a s) (body_length b s)"
    "memory_row a (fold_body a b s) = None"
proof -
  have other: "find (\<lambda>m. m_entity m = b) (filter (\<lambda>m. m_entity m \<noteq> a) ms) = find (\<lambda>m. m_entity m = b) ms" for ms :: "mem_row list"
    using assms by (induction ms) auto
  have gone: "find (\<lambda>m. m_entity m = a) (filter (\<lambda>m. m_entity m \<noteq> a) ms) = None" for ms :: "mem_row list"
    by (simp add: find_None_iff)
  show "memory_row a (fold_body a b s) = None"
    using gone by (cases "memory_row a s") (auto simp: fold_body_def memory_row_def Let_def)
  show "body_length b (fold_body a b s) = max (body_length a s) (body_length b s)"
  proof (cases "memory_row a s")
    case None
    then show ?thesis by (simp add: fold_body_def body_length_def)
  next
    case (Some m)
    let ?g = "\<lambda>r. if m_entity r = b then r\<lparr>m_content := m_content m, m_mtype := m_mtype m, m_tags := m_tags m,
                                     m_metadata := m_metadata m, m_updated := m_updated m\<rparr> else r"
    have upd: "find (\<lambda>r. m_entity r = b) (map ?g (memory_content s)) = map_option ?g (memory_row b s)"
      unfolding memory_row_def by (rule find_key_map) simp
    have mb: "m_entity r = b" if "memory_row b s = Some r" for r
      using that by (auto simp: memory_row_def dest: find_SomeD)
    show ?thesis
    proof (cases "memory_row b s")
      case None
      then show ?thesis using Some
        by (simp add: fold_body_def body_length_def memory_row_def other find_key_append)
    next
      fix r assume r: "memory_row b s = Some r"
      have "memory_row b (fold_body a b s) = (if length (m_content r) < length (m_content m) then Some (?g r) else Some r)"
        using Some r upd by (simp add: fold_body_def body_length_def memory_row_def other)
      then show ?thesis using Some r mb [OF r] by (simp add: body_length_def)
    qed
  qed
qed
end
