(* ===== verification/Memories.thy ===== *)
theory Memories
  imports Purge Focus
begin

text \<open>
  The memory layer of \<open>Store\<close>: reads of a memory by name or id, listings with tag filters,
  subjects and their leaves, and the edits of tags, types and whole memories. A memory is an
  entity of kind \<open>memory\<close> with a sidecar row in \<open>memory_content\<close>; \<open>add_memory\<close> is in Catalog. The
  proofs are in MemoryFacts.
\<close>

section \<open>Reading one memory\<close>

text \<open>The argument \<open>name_or_id\<close>: an integer or a string.\<close>

datatype mem_ref = ById nat | ByName string

record mem_view =
  mv_id :: nat
  mv_name :: string
  mv_pid :: nat
  mv_partition :: "string option"
  mv_content :: "string option"
  mv_mtype :: "string option"
  mv_tags :: "string list"
  mv_metadata :: meta
  mv_created :: "time option"
  mv_updated :: "time option"

text \<open>\<open>str.isdigit\<close> sends a name of digits to the id lookup.\<close>

definition digit_name :: "string \<Rightarrow> bool" where
  "digit_name n = (n \<noteq> [] \<and> list_all is_digit n)"

definition memory_entity :: "mem_ref \<Rightarrow> store \<Rightarrow> entity option" where
  "memory_entity r s =
     (case r of
        ById i \<Rightarrow> get_entity_by_id i s
      | ByName n \<Rightarrow>
          if digit_name n then get_entity_by_id (digits_val n) s
          else find_entity (fst (bound s)) ''memory'' n s)"

definition partition_name_of :: "nat \<Rightarrow> store \<Rightarrow> string option" where
  "partition_name_of pid s = map_option p_name (find (\<lambda>p. p_id p = pid) (partitions s))"

text \<open>The dictionary of a row joined with its sidecar.\<close>

definition view_row :: "string option \<Rightarrow> entity \<Rightarrow> store \<Rightarrow> mem_view" where
  "view_row part e s =
     (let row = memory_row (e_id e) s in
      \<lparr>mv_id = e_id e, mv_name = e_name e, mv_pid = e_pid e, mv_partition = part,
       mv_content = map_option m_content row, mv_mtype = map_option m_mtype row,
       mv_tags = (case row of None \<Rightarrow> [] | Some m \<Rightarrow> (case m_tags m of None \<Rightarrow> [] | Some ts \<Rightarrow> ts)),
       mv_metadata = (case row of None \<Rightarrow> [] | Some m \<Rightarrow> (case m_metadata m of None \<Rightarrow> [] | Some kv \<Rightarrow> kv)),
       mv_created = map_option m_created row, mv_updated = map_option m_updated row\<rparr>)"

definition get_memory :: "mem_ref \<Rightarrow> store \<Rightarrow> mem_view option" where
  "get_memory r s =
     (case memory_entity r s of
        None \<Rightarrow> None
      | Some e \<Rightarrow>
          if e_kind e \<noteq> ''memory'' then None
          else Some (view_row (partition_name_of (e_pid e) s) e s))"

text \<open>The rows of \<open>item_meta\<close>; an id without a partition row is absent, as in the join.\<close>

definition item_meta :: "nat list \<Rightarrow> store \<Rightarrow> (nat \<times> string \<times> string \<times> string \<times> string option) list" where
  "item_meta ids s =
     List.concat (map (\<lambda>e. case partition_name_of (e_pid e) s of
                        None \<Rightarrow> []
                      | Some p \<Rightarrow> [(e_id e, e_kind e, e_name e, p, map_option m_mtype (memory_row (e_id e) s))])
                    (filter (\<lambda>e. e_id e \<in> set ids) (entities s)))"

definition content_length :: "entity \<Rightarrow> store \<Rightarrow> nat" where
  "content_length e s = (case memory_row (e_id e) s of None \<Rightarrow> 0 | Some m \<Rightarrow> length (m_content m))"

definition find_memory_any_partition :: "string \<Rightarrow> store \<Rightarrow> mem_view option" where
  "find_memory_any_partition name s =
     (case sort_key (\<lambda>e. (- int (content_length e s), e_pid e))
             (filter (\<lambda>e. e_name e = name \<and> e_kind e = ''memory'') (entities s)) of
        [] \<Rightarrow> None
      | e # _ \<Rightarrow> get_memory (ById (e_id e)) s)"

section \<open>Tag filters\<close>

text \<open>The tags column holds \<open>json.dumps(tags)\<close>; the filter is a LIKE on that text.\<close>

definition hex_digit :: "nat \<Rightarrow> char" where
  "hex_digit d = ''0123456789abcdef'' ! d"

definition json_char :: "char \<Rightarrow> string" where
  "json_char c =
     (let n = (of_char c :: nat) in
      if n = 34 then [CHR 0x5C, CHR 0x22]
      else if n = 92 then [CHR 0x5C, CHR 0x5C]
      else if n = 10 then [CHR 0x5C, CHR ''n'']
      else if n = 13 then [CHR 0x5C, CHR ''r'']
      else if n = 9 then [CHR 0x5C, CHR ''t'']
      else if n = 8 then [CHR 0x5C, CHR ''b'']
      else if n = 12 then [CHR 0x5C, CHR ''f'']
      else if n < 32 \<or> 126 < n then [CHR 0x5C] @ ''u00'' @ [hex_digit (n div 16), hex_digit (n mod 16)]
      else [c])"

definition json_string :: "string \<Rightarrow> string" where
  "json_string s = [CHR 0x22] @ List.concat (map json_char s) @ [CHR 0x22]"

definition json_tags :: "string list \<Rightarrow> string" where
  "json_tags ts = ''['' @ join '', '' (map json_string ts) @ '']''"

definition tag_pattern :: "string \<Rightarrow> string" where
  "tag_pattern t = ''%'' @ [CHR 0x22] @ t @ [CHR 0x22] @ ''%''"

definition tags_filter :: "string list \<Rightarrow> string \<Rightarrow> string list option \<Rightarrow> bool" where
  "tags_filter tags mode column =
     (tags = [] \<or>
      (case column of
         None \<Rightarrow> False
       | Some ts \<Rightarrow>
           (if mode = ''all'' then list_all (\<lambda>t. like_match (tag_pattern t) (json_tags ts)) tags
            else list_ex (\<lambda>t. like_match (tag_pattern t) (json_tags ts)) tags)))"

section \<open>Listings\<close>

definition memory_entities :: "store \<Rightarrow> entity list" where
  "memory_entities s = filter (\<lambda>e. e_pid e = fst (bound s) \<and> e_kind e = ''memory'') (entities s)"

definition tags_col :: "entity \<Rightarrow> store \<Rightarrow> string list option" where
  "tags_col e s = (case memory_row (e_id e) s of None \<Rightarrow> None | Some m \<Rightarrow> m_tags m)"

text \<open>\<open>LIMIT\<close>; \<open>None\<close> is no limit.\<close>

definition sql_limit :: "nat option \<Rightarrow> 'a list \<Rightarrow> 'a list" where
  "sql_limit n xs = (case n of None \<Rightarrow> xs | Some k \<Rightarrow> take k xs)"

definition iter_memories :: "string option \<Rightarrow> nat option \<Rightarrow> string list \<Rightarrow> string \<Rightarrow> store \<Rightarrow> mem_view list" where
  "iter_memories mtype limit tags mode s =
     map (\<lambda>e. view_row None e s)
       (sql_limit limit
         (sort_key e_id
           (filter (\<lambda>e. (case mtype of None \<Rightarrow> True | Some t \<Rightarrow> map_option m_mtype (memory_row (e_id e) s) = Some t) \<and>
                        tags_filter tags mode (tags_col e s)) (memory_entities s))))"

definition contains_ci :: "string \<Rightarrow> string \<Rightarrow> bool" where
  "contains_ci query text = like_match (str_lower (''%'' @ query @ ''%'')) (str_lower text)"

text \<open>Newest first; a memory without a sidecar comes last.\<close>

definition newest_first :: "store \<Rightarrow> entity \<Rightarrow> nat \<times> time" where
  "newest_first s e = (case memory_row (e_id e) s of None \<Rightarrow> (1, 0) | Some m \<Rightarrow> (0, - m_updated m))"

definition search_memories :: "string \<Rightarrow> nat \<Rightarrow> string list \<Rightarrow> string \<Rightarrow> store \<Rightarrow> mem_view list" where
  "search_memories query limit tags mode s =
     map (\<lambda>e. view_row (Some (snd (bound s))) e s)
       (take limit
         (sort_key (newest_first s)
           (filter (\<lambda>e. (contains_ci query (e_name e) \<or>
                         (case memory_row (e_id e) s of None \<Rightarrow> False | Some m \<Rightarrow> contains_ci query (m_content m))) \<and>
                        tags_filter tags mode (tags_col e s)) (memory_entities s))))"

definition recent_memories :: "time \<Rightarrow> time option \<Rightarrow> nat \<Rightarrow> string list \<Rightarrow> string \<Rightarrow> store \<Rightarrow> mem_view list" where
  "recent_memories now since limit tags mode s =
     map (\<lambda>e. let v = view_row (Some (snd (bound s))) e s in
              if mv_created v = None \<or> mv_created v = Some 0 then v\<lparr>mv_created := Some (e_created e)\<rparr> else v)
       (take limit
         (sort_key (\<lambda>e. - e_created e)
           (filter (\<lambda>e. (case since of Some d \<Rightarrow> 0 < d \<longrightarrow> now - d \<le> e_created e | None \<Rightarrow> True) \<and>
                        tags_filter tags mode (tags_col e s)) (memory_entities s))))"

section \<open>Subjects\<close>

definition subject_meta :: "string \<Rightarrow> meta \<Rightarrow> meta" where
  "subject_meta label extra =
     fold (\<lambda>(k, v) d. AList.update k v d) extra [(''label'', label), (''slug'', subject_slug label)]"

definition upsert_subject :: "time \<Rightarrow> string \<Rightarrow> meta \<Rightarrow> store \<Rightarrow> ((nat \<times> string) \<times> store) result" where
  "upsert_subject now label extra s =
     (let name = ''subject_'' @ subject_slug label in
      bind_r (add_memory now name label ''subject'' None (Some (subject_meta label extra)) True s)
        (\<lambda>(i, s1). Inr ((i, name), s1)))"

definition link_part_of :: "time \<Rightarrow> nat \<Rightarrow> nat \<Rightarrow> store \<Rightarrow> (bool \<times> store) result" where
  "link_part_of now leaf subject s =
     link now ''part-of'' subject leaf None False
       (snd (add_linkage_type now ''part-of'' True (Some ''entity is part of a container'') s))"

definition list_subjects :: "store \<Rightarrow> (nat \<times> string \<times> string \<times> nat \<times> time \<times> meta) list" where
  "list_subjects s =
     (let lid = (case get_linkage_id ''part-of'' s of Inl _ \<Rightarrow> None | Inr i \<Rightarrow> Some i) in
      map (\<lambda>(e, m).
             let meta = (case m_metadata m of None \<Rightarrow> [] | Some kv \<Rightarrow> kv) in
             (e_id e, e_name e,
              (case map_of meta ''label'' of None \<Rightarrow> e_name e | Some [] \<Rightarrow> e_name e | Some l \<Rightarrow> l),
              (case lid of None \<Rightarrow> 0
               | Some i \<Rightarrow> length (filter (\<lambda>r. k_linkage r = i \<and> k_concept r = e_id e) (entity_links s))),
              m_updated m, meta))
        (sort_key (\<lambda>(e, m). - m_updated m)
          (List.concat (map (\<lambda>e. case memory_row (e_id e) s of
                              None \<Rightarrow> []
                            | Some m \<Rightarrow> if m_mtype m = ''subject'' then [(e, m)] else []) (memory_entities s)))))"

text \<open>\<open>str(name_or_id).isdigit()\<close> holds of every id.\<close>

definition ref_digits :: "mem_ref \<Rightarrow> bool" where
  "ref_digits r = (case r of ById _ \<Rightarrow> True | ByName n \<Rightarrow> digit_name n)"

definition find_subject :: "mem_ref \<Rightarrow> store \<Rightarrow> mem_view option" where
  "find_subject r s =
     (case get_memory r s of
        Some v \<Rightarrow> Some v
      | None \<Rightarrow>
          (case r of ById _ \<Rightarrow> None
           | ByName n \<Rightarrow> if ref_digits r then None else get_memory (ByName (''subject_'' @ subject_slug n)) s))"

definition subject_leaves :: "mem_ref \<Rightarrow> store \<Rightarrow> mem_view list" where
  "subject_leaves r s =
     (case find_subject r s of
        None \<Rightarrow> []
      | Some subj \<Rightarrow>
          (case get_linkage_id ''part-of'' s of
             Inl _ \<Rightarrow> []
           | Inr lid \<Rightarrow>
               List.concat (map (\<lambda>(i, m). case get_memory (ById i) s of None \<Rightarrow> [] | Some v \<Rightarrow> [v])
                 (sort_key (\<lambda>(i, m). - m_updated m)
                   (List.concat (map (\<lambda>l. case memory_row (k_entity l) s of None \<Rightarrow> [] | Some m \<Rightarrow> [(k_entity l, m)])
                     (filter (\<lambda>l. k_linkage l = lid \<and> k_concept l = mv_id subj) (entity_links s))))))))"

section \<open>Edits\<close>

definition forget_memory :: "time \<Rightarrow> mem_ref \<Rightarrow> store \<Rightarrow> bool \<times> store" where
  "forget_memory now r s =
     (case get_memory r s of None \<Rightarrow> (False, s) | Some v \<Rightarrow> (True, snd (purge_entity now (mv_id v) s)))"

definition set_row :: "nat \<Rightarrow> (mem_row \<Rightarrow> mem_row) \<Rightarrow> store \<Rightarrow> store" where
  "set_row i f s = s\<lparr>memory_content := map (\<lambda>m. if m_entity m = i then f m else m) (memory_content s)\<rparr>"

text \<open>The new tag list: a replacement, or the removals and then the additions.\<close>

definition edit_tags :: "string list \<Rightarrow> string list \<Rightarrow> string list option \<Rightarrow> string list \<Rightarrow> string list" where
  "edit_tags add remove replace tags =
     (case replace of
        Some ts \<Rightarrow> dedup ts
      | None \<Rightarrow> fold (\<lambda>t new. if t \<in> set new then new else new @ [t]) add (filter (\<lambda>t. t \<notin> set remove) tags))"

definition or_default :: "string option \<Rightarrow> string \<Rightarrow> string" where
  "or_default x d = (case x of None \<Rightarrow> d | Some [] \<Rightarrow> d | Some y \<Rightarrow> y)"

definition retag_memory ::
  "time \<Rightarrow> mem_ref \<Rightarrow> string list \<Rightarrow> string list \<Rightarrow> string list option \<Rightarrow> store \<Rightarrow> string list option \<times> store" where
  "retag_memory now r add remove replace s =
     (case get_memory r s of
        None \<Rightarrow> (None, s)
      | Some v \<Rightarrow>
          let new = edit_tags add remove replace (mv_tags v);
              s1 = set_row (mv_id v) (\<lambda>m. m\<lparr>m_tags := tags_column (Some new), m_updated := now\<rparr>) s
          in (Some new,
              log_event now (EvMemory (mv_name v) (or_default (mv_content v) []) (or_default (mv_mtype v) ''observation'')
                               (Some new) (meta_column (Some (mv_metadata v)))) s1))"

record mem_selection =
  sel_like :: "string option"
  sel_names :: "string list"
  sel_mtype :: "string option"

text \<open>\<open>like.replace("*", "%")\<close>; an empty pattern, list or type selects everything.\<close>

definition glob_pattern :: "string \<Rightarrow> string" where
  "glob_pattern g = map (\<lambda>c. if c = CHR ''*'' then CHR ''%'' else c) g"

definition mem_selected :: "mem_selection \<Rightarrow> string \<Rightarrow> string \<Rightarrow> bool" where
  "mem_selected sel name mtype =
     ((case sel_like sel of None \<Rightarrow> True | Some g \<Rightarrow> g \<noteq> [] \<longrightarrow> like_match (glob_pattern g) name) \<and>
      (sel_names sel \<noteq> [] \<longrightarrow> name \<in> set (sel_names sel)) \<and>
      (case sel_mtype sel of None \<Rightarrow> True | Some t \<Rightarrow> t \<noteq> [] \<longrightarrow> mtype = t))"

definition matched_memories :: "mem_selection \<Rightarrow> store \<Rightarrow> (nat \<times> string) list" where
  "matched_memories sel s =
     map (\<lambda>e. (e_id e, e_name e))
       (filter (\<lambda>e. case memory_row (e_id e) s of None \<Rightarrow> False | Some m \<Rightarrow> mem_selected sel (e_name e) (m_mtype m))
          (memory_entities s))"

fun log_reclassified :: "time \<Rightarrow> string \<Rightarrow> (nat \<times> string) list \<Rightarrow> store \<Rightarrow> store" where
  "log_reclassified now mtype [] s = s"
| "log_reclassified now mtype ((i, name) # rows) s =
     log_reclassified now mtype rows
       (case get_memory (ById i) s of
          None \<Rightarrow> s
        | Some v \<Rightarrow>
            log_event now (EvMemory name (or_default (mv_content v) []) mtype (tags_column (Some (mv_tags v)))
                             (meta_column (Some (mv_metadata v)))) s)"

definition reclassify_memories ::
  "time \<Rightarrow> string \<Rightarrow> mem_selection \<Rightarrow> bool \<Rightarrow> store \<Rightarrow> (string list \<times> nat) \<times> store" where
  "reclassify_memories now mtype sel dry s =
     (let rows = matched_memories sel s in
      if dry \<or> rows = [] then ((map snd rows, 0), s)
      else
        let s1 = fold (\<lambda>(i, _). set_row i (\<lambda>m. m\<lparr>m_mtype := mtype, m_updated := now\<rparr>)) rows s
        in ((map snd rows, length rows), log_reclassified now mtype rows s1))"

record forget_report =
  fr_forgotten :: nat
  fr_ids :: "nat list"
  fr_by_mtype :: "(string \<times> nat) list"

text \<open>The union of the ids given, the names and the types, in ascending order.\<close>

definition forget_ids :: "nat list \<Rightarrow> string list \<Rightarrow> string list \<Rightarrow> store \<Rightarrow> nat list" where
  "forget_ids ids names mtypes s =
     sort (dedup (ids @
       map e_id (filter (\<lambda>e. e_name e \<in> set names) (memory_entities s)) @
       map e_id (filter (\<lambda>e. case memory_row (e_id e) s of None \<Rightarrow> False | Some m \<Rightarrow> m_mtype m \<in> set mtypes)
                   (memory_entities s))))"

definition count_mtypes :: "nat list \<Rightarrow> store \<Rightarrow> (string \<times> nat) list" where
  "count_mtypes ids s =
     (let types = map (\<lambda>e. map_option m_mtype (memory_row (e_id e) s)) (filter (\<lambda>e. e_id e \<in> set ids) (entities s))
      in fold (\<lambda>t d. AList.update (or_default t ''(none)'') (length (filter (\<lambda>x. x = t) types)) d) (dedup types) [])"

definition bulk_forget_memories ::
  "time \<Rightarrow> nat list \<Rightarrow> string list \<Rightarrow> string list \<Rightarrow> bool \<Rightarrow> store \<Rightarrow> forget_report \<times> store" where
  "bulk_forget_memories now ids names mtypes dry s =
     (let all = forget_ids ids names mtypes s in
      if all = [] then (\<lparr>fr_forgotten = 0, fr_ids = [], fr_by_mtype = []\<rparr>, s)
      else let counts = count_mtypes all s in
        if dry then (\<lparr>fr_forgotten = 0, fr_ids = all, fr_by_mtype = counts\<rparr>, s)
        else (\<lparr>fr_forgotten = length all, fr_ids = all, fr_by_mtype = counts\<rparr>,
              fold (\<lambda>i s. snd (purge_entity now i s)) all s))"

section \<open>Facets\<close>

definition count_in :: "string list \<Rightarrow> (string \<times> nat) list" where
  "count_in xs = sort_key (\<lambda>(_, n). - int n) (map (\<lambda>x. (x, length (filter (\<lambda>y. y = x) xs))) (dedup xs))"

definition memory_facets :: "store \<Rightarrow> (string \<times> nat) list \<times> (string \<times> nat) list \<times> nat" where
  "memory_facets s =
     (let rows = List.concat (map (\<lambda>e. case memory_row (e_id e) s of None \<Rightarrow> [] | Some m \<Rightarrow> [m]) (memory_entities s))
      in (count_in (map (\<lambda>m. or_default (Some (m_mtype m)) ''?'') rows),
          count_in (List.concat (map (\<lambda>m. case m_tags m of None \<Rightarrow> [] | Some ts \<Rightarrow> ts) rows)),
          length rows))"
end
