(* ===== verification/Upkeep.thy ===== *)
theory Upkeep
  imports Memories
begin

text \<open>
  Upkeep of a partition: files that changed or disappeared on disk (\<open>stale_files\<close>), the removal of tracked
  paths with their entities (\<open>untrack_by_path\<close>), \<open>vacuum\<close>, the clearing of the stamps that gate a
  re-ingest (\<open>clear_tracked_stamps\<close>), and the queue of entities to embed (\<open>pending_embeddings\<close>).

  The disk is a parameter: \<open>disk_mtime p\<close> is the modification time of \<open>p\<close>, \<open>None\<close> when \<open>stat\<close> fails. The
  unit of time is the millisecond, the tolerance of \<open>stale_files\<close>.
\<close>

section \<open>Files on disk\<close>

record file_status =
  fs_path :: string
  fs_status :: string
  fs_mtime :: time
  fs_synced :: time

definition real_path :: "string \<Rightarrow> bool" where
  "real_path p = starts_with ''/'' p"

definition stale_files :: "(string \<Rightarrow> time option) \<Rightarrow> store \<Rightarrow> file_status list" where
  "stale_files disk_mtime s =
     List.concat (map (\<lambda>r.
       if \<not> real_path (t_path r) then []
       else case disk_mtime (t_path r) of
         None \<Rightarrow> [\<lparr>fs_path = t_path r, fs_status = ''missing'', fs_mtime = t_mtime r, fs_synced = t_synced r\<rparr>]
       | Some cur \<Rightarrow>
           if t_synced r + 1 < cur
           then [\<lparr>fs_path = t_path r, fs_status = ''stale'', fs_mtime = cur, fs_synced = t_synced r\<rparr>]
           else [])
       (filter (\<lambda>r. t_pid r = fst (bound s)) (tracked_files s)))"

section \<open>Removing paths\<close>

definition entities_for_paths :: "string list \<Rightarrow> store \<Rightarrow> (nat \<times> string \<times> string) list" where
  "entities_for_paths paths s =
     List.concat (map (\<lambda>ck.
       map (\<lambda>e. (e_id e, e_kind e, e_name e))
         (filter (\<lambda>e. e_pid e = fst (bound s) \<and> (\<exists>p\<in>set ck. e_path e = Some p)) (entities s)))
       (chunks 900 paths))"

definition sweep_paths :: "string list \<Rightarrow> store \<Rightarrow> store" where
  "sweep_paths ck s =
     s\<lparr>tracked_files := filter (\<lambda>r. \<not> (t_pid r = fst (bound s) \<and> t_path r \<in> set ck)) (tracked_files s)\<rparr>"

definition purge_paths :: "time \<Rightarrow> string list \<Rightarrow> (nat \<times> string \<times> string) list \<Rightarrow> store \<Rightarrow> store" where
  "purge_paths now paths info s =
     (let s1 = snd (bulk_purge_ids now info s);
          s2 = fold sweep_paths (chunks 900 paths) s1
      in fold (\<lambda>p. log_event now (EvUntrack p)) paths s2)"

record untrack_report =
  ur_paths :: "string list"
  ur_files :: nat
  ur_entities :: nat

definition paths_like :: "string \<Rightarrow> store \<Rightarrow> string list" where
  "paths_like g s = map t_path (filter (\<lambda>r. t_pid r = fst (bound s) \<and> like_match g (t_path r)) (tracked_files s))"

text \<open>The paths of the glob, then the listed ones it did not match, chunk by chunk.\<close>

definition matched_paths :: "string option \<Rightarrow> string list \<Rightarrow> store \<Rightarrow> string list" where
  "matched_paths like paths s =
     (let seen = (case like of None \<Rightarrow> [] | Some g \<Rightarrow> if g = [] then [] else paths_like g s)
      in seen @
         List.concat (map (\<lambda>ck.
           filter (\<lambda>p. p \<notin> set seen)
             (map t_path (filter (\<lambda>r. t_pid r = fst (bound s) \<and> t_path r \<in> set ck) (tracked_files s))))
           (chunks 900 paths)))"

definition untrack_by_path ::
  "time \<Rightarrow> string option \<Rightarrow> string list \<Rightarrow> bool \<Rightarrow> store \<Rightarrow> (untrack_report \<times> store) result" where
  "untrack_by_path now like paths dry s =
     (if like \<in> {None, Some []} \<and> paths = []
      then Inl (ValueError ''untrack_by_path requires `like` or `paths`'')
      else let matched = matched_paths like paths s in
        if matched = [] then Inr (\<lparr>ur_paths = [], ur_files = 0, ur_entities = 0\<rparr>, s)
        else let info = entities_for_paths matched s;
                 report = \<lparr>ur_paths = matched, ur_files = length matched, ur_entities = length info\<rparr>
             in Inr (report, if dry then s else purge_paths now matched info s))"

section \<open>Vacuum\<close>

definition empty_concepts :: "store \<Rightarrow> entity list" where
  "empty_concepts s =
     filter (\<lambda>e. e_pid e = fst (bound s) \<and> e_kind e = ''concept'' \<and>
                 \<not> list_ex (\<lambda>r. k_concept r = e_id e) (entity_links s) \<and> \<not> e_protected e) (entities s)"

definition gone_paths :: "(string \<Rightarrow> time option) \<Rightarrow> store \<Rightarrow> string list" where
  "gone_paths disk_mtime s =
     map t_path (filter (\<lambda>r. t_pid r = fst (bound s) \<and> disk_mtime (t_path r) = None) (tracked_files s))"

definition sweep_evidence :: "store \<Rightarrow> store" where
  "sweep_evidence s =
     s\<lparr>linkage_evidence := filter (\<lambda>v. list_ex (\<lambda>e. e_id e = v_entity v) (entities s)) (linkage_evidence s)\<rparr>"

definition drop_empty_concepts :: "time \<Rightarrow> store \<Rightarrow> store" where
  "drop_empty_concepts now s =
     snd (bulk_purge_ids now (map (\<lambda>e. (e_id e, ''concept'', e_name e)) (empty_concepts s)) s)"

definition vacuum :: "(string \<Rightarrow> time option) \<Rightarrow> time \<Rightarrow> store \<Rightarrow> (nat \<times> nat) \<times> store" where
  "vacuum disk_mtime now s =
     (let s1 = drop_empty_concepts now s;
          gone = gone_paths disk_mtime s1;
          s2 = (if gone = [] then s1 else purge_paths now gone (entities_for_paths gone s1) s1)
      in ((length (empty_concepts s), length gone), sweep_evidence s2))"

section \<open>Stamps\<close>

text \<open>\<open>meta LIKE '%gmd_content_hash%'\<close> on the JSON text: a key or a value holds the word.\<close>

definition has_gmd_hash :: "entity \<Rightarrow> bool" where
  "has_gmd_hash e =
     (case e_meta e of
        None \<Rightarrow> False
      | Some m \<Rightarrow> list_ex (\<lambda>(k, v). like_match ''%gmd_content_hash%'' (json_string k) \<or>
                                     like_match ''%gmd_content_hash%'' (json_string v)) m)"

definition gmd_stamped :: "store \<Rightarrow> entity \<Rightarrow> bool" where
  "gmd_stamped s e = (e_pid e = fst (bound s) \<and> e_kind e \<in> {''doc'', ''memory''} \<and> has_gmd_hash e)"

definition clear_gmd_content_hashes :: "store \<Rightarrow> nat \<times> store" where
  "clear_gmd_content_hashes s =
     (let ids = map e_id (filter (gmd_stamped s) (entities s)) in
      (length ids,
       s\<lparr>entities := map (\<lambda>e.
           if e_id e \<in> set ids
           then e\<lparr>e_meta := map_option (filter (\<lambda>(k, _). k \<noteq> ''gmd_content_hash'' \<and> k \<noteq> ''gmd_pass2_done'')) (e_meta e)\<rparr>
           else e) (entities s)\<rparr>))"

definition clear_tracked_stamps :: "string option \<Rightarrow> store \<Rightarrow> (nat \<times> nat) \<times> store" where
  "clear_tracked_stamps like s =
     (let hit = (\<lambda>r. t_pid r = fst (bound s) \<and>
                     (case like of None \<Rightarrow> True | Some g \<Rightarrow> g = [] \<or> like_match g (t_path r)));
          n = length (filter hit (tracked_files s));
          (g, s1) = clear_gmd_content_hashes (s\<lparr>tracked_files := filter (\<lambda>r. \<not> hit r) (tracked_files s)\<rparr>)
      in ((n, g), s1))"

section \<open>The embedding queue\<close>

text \<open>The columns \<open>vectors_updated_at\<close> and \<open>vectors_partition\<close> of an entity row.\<close>

record vec_mark =
  vm_updated :: "time option"
  vm_partition :: "string option"

definition no_mark :: vec_mark where
  "no_mark = \<lparr>vm_updated = None, vm_partition = None\<rparr>"

type_synonym vec_marks = "(nat \<times> vec_mark) list"

definition mark_of :: "vec_marks \<Rightarrow> nat \<Rightarrow> vec_mark" where
  "mark_of marks i = (case map_of marks i of None \<Rightarrow> no_mark | Some m \<Rightarrow> m)"

text \<open>\<open>upsert_vector\<close> with \<open>mark_embedded\<close>, after the vectors are written.\<close>

definition mark_embedded :: "time \<Rightarrow> nat list \<Rightarrow> store \<Rightarrow> vec_marks \<Rightarrow> vec_marks" where
  "mark_embedded now ids s marks =
     fold (\<lambda>i. AList.update i \<lparr>vm_updated = Some now, vm_partition = Some (snd (bound s))\<rparr>) ids marks"

definition needs_vector :: "store \<Rightarrow> vec_marks \<Rightarrow> entity \<Rightarrow> bool" where
  "needs_vector s marks e =
     (let m = mark_of marks (e_id e) in
      (case vm_updated m of None \<Rightarrow> True | Some t \<Rightarrow> t < e_updated e) \<or>
      (case vm_partition m of None \<Rightarrow> False | Some p \<Rightarrow> p \<noteq> snd (bound s)))"

definition pending_rows :: "string list \<Rightarrow> store \<Rightarrow> vec_marks \<Rightarrow> entity list" where
  "pending_rows knds s marks =
     filter (\<lambda>e. e_pid e = fst (bound s) \<and> needs_vector s marks e \<and> (knds = [] \<or> e_kind e \<in> set knds)) (entities s)"

definition pending_embeddings ::
  "string list \<Rightarrow> nat option \<Rightarrow> store \<Rightarrow> vec_marks \<Rightarrow> (nat \<times> string \<times> string) list" where
  "pending_embeddings knds limit s marks =
     map (\<lambda>e. (e_id e, e_kind e, e_name e)) (sql_limit limit (sort_key e_id (pending_rows knds s marks)))"

definition pending_embeddings_count :: "string list \<Rightarrow> store \<Rightarrow> vec_marks \<Rightarrow> nat" where
  "pending_embeddings_count knds s marks = length (pending_rows knds s marks)"

definition iter_entities :: "string option \<Rightarrow> store \<Rightarrow> entity list" where
  "iter_entities knd s =
     filter (\<lambda>e. e_pid e = fst (bound s) \<and> given knd (\<lambda>k. e_kind e = k)) (entities s)"
end
