(* ===== verification/MemoryFacts.thy ===== *)
theory MemoryFacts
  imports Memories
begin

text \<open>
  The memory layer against its contract: a map from names to bodies. Reads, edits, retypings and
  removals by name answer as the map does, tag filters are exact for tags without LIKE wildcards,
  and the cases in which the code departs from its documentation are stated as lemmas.
\<close>

section \<open>Frames\<close>

lemma clear_fragment_rows:
  "entities (snd (clear_fragment bits ids l s)) = entities s"
  "memory_content (snd (clear_fragment bits ids l s)) = memory_content s"
  "next_eid (snd (clear_fragment bits ids l s)) = next_eid s"
  by (auto simp: clear_fragment_def load_fragment_def mark_dirty_def mutate_fragment_def Let_def split_beta
      split: option.split)

lemma clear_fragments_rows:
  "entities (snd (clear_fragments bits ids ls s)) = entities s \<and>
   memory_content (snd (clear_fragments bits ids ls s)) = memory_content s \<and>
   next_eid (snd (clear_fragments bits ids ls s)) = next_eid s"
  by (induction ls arbitrary: s) (auto simp: split_beta clear_fragment_rows)

lemma clear_bindings_rows:
  "entities (snd (clear_bindings bits ids ls bs s)) = entities s \<and>
   memory_content (snd (clear_bindings bits ids ls bs s)) = memory_content s \<and>
   next_eid (snd (clear_bindings bits ids ls bs s)) = next_eid s"
  by (induction bs arbitrary: s) (auto simp: split_beta clear_fragments_rows)

lemma fold_log_rows:
  "entities (fold (log_event now) evs s) = entities s"
  "memory_content (fold (log_event now) evs s) = memory_content s"
  "next_eid (fold (log_event now) evs s) = next_eid s"
  "bound (fold (log_event now) evs s) = bound s"
  by (induction evs arbitrary: s) auto

lemma purge_rows:
  "entities (snd (purge_entity now i s)) = filter (\<lambda>e. e_id e \<noteq> i) (entities s)"
  "memory_content (snd (purge_entity now i s)) = filter (\<lambda>m. m_entity m \<noteq> i) (memory_content s)"
  "next_eid (snd (purge_entity now i s)) = next_eid s"
  "bound (snd (purge_entity now i s)) = bound s"
  by (simp_all add: purge_entity_def Let_def split_beta fold_log_rows untrack_paths_of_def delete_rows_def
      clear_purged_bits_def clear_bindings_rows)

lemma find_without_key:
  "find (\<lambda>x. key x = k) (filter (\<lambda>x. key x \<noteq> i) xs) = (if k = i then None else find (\<lambda>x. key x = k) xs)"
  by (induction xs) auto

lemma memory_row_purge:
  "memory_row j (snd (purge_entity now i s)) = (if j = i then None else memory_row j s)"
  by (simp add: memory_row_def purge_rows find_without_key)

lemma set_row_frame [simp]:
  "entities (set_row i f s) = entities s" "bound (set_row i f s) = bound s" "next_eid (set_row i f s) = next_eid s"
  "partitions (set_row i f s) = partitions s" "get_entity_by_id j (set_row i f s) = get_entity_by_id j s"
  "find_entity p k n (set_row i f s) = find_entity p k n s"
  by (simp_all add: set_row_def get_entity_by_id_def find_entity_def)

lemma memory_row_set:
  assumes "\<And>m. m_entity (f m) = m_entity m"
  shows "memory_row j (set_row i f s) = (if j = i then map_option f (memory_row j s) else memory_row j s)"
proof -
  have "memory_row j (set_row i f s) = map_option (\<lambda>m. if m_entity m = i then f m else m) (memory_row j s)"
    using assms unfolding memory_row_def set_row_def by (simp add: find_key_map)
  then show ?thesis by (cases "memory_row j s") (auto simp: memory_row_def dest: find_SomeD)
qed

lemma log_reclassified_frame:
  "entities (log_reclassified now t rows s) = entities s"
  "memory_content (log_reclassified now t rows s) = memory_content s"
  "bound (log_reclassified now t rows s) = bound s" "next_eid (log_reclassified now t rows s) = next_eid s"
  by (induction now t rows s rule: log_reclassified.induct) (auto split: option.split)

section \<open>The contract\<close>

record body =
  b_content :: string
  b_mtype :: string
  b_tags :: "string list option"
  b_metadata :: "meta option"

text \<open>A name is absent, present without a body (an entity row alone), or present with one.\<close>

type_synonym memory_map = "string \<Rightarrow> body option option"

datatype mem_op =
    Put time string string string "string list option" "meta option" bool
  | Retag time string "string list" "string list" "string list option"
  | Reclassify time string mem_selection
  | Forget time string
  | Read string
  | ListNames "string option" "string list" string

datatype mem_answer =
    Stored
  | Refused
  | Tags "string list option"
  | Names "string set"
  | Gone bool
  | Body "(string option \<times> string option \<times> string list \<times> meta) option"

definition mem_exec :: "mem_op \<Rightarrow> store \<Rightarrow> mem_answer \<times> store" where
  "mem_exec x s =
     (case x of
        Put now name c mt tg md prot \<Rightarrow>
          (case add_memory now name c mt tg md prot s of Inl _ \<Rightarrow> (Refused, s) | Inr (_, s1) \<Rightarrow> (Stored, s1))
      | Retag now name add remove repl \<Rightarrow>
          (case retag_memory now (ByName name) add remove repl s of (r, s1) \<Rightarrow> (Tags r, s1))
      | Reclassify now t sel \<Rightarrow>
          (case reclassify_memories now t sel False s of ((names, _), s1) \<Rightarrow> (Names (set names), s1))
      | Forget now name \<Rightarrow> (case forget_memory now (ByName name) s of (r, s1) \<Rightarrow> (Gone r, s1))
      | Read name \<Rightarrow>
          (Body (map_option (\<lambda>v. (mv_content v, mv_mtype v, mv_tags v, mv_metadata v)) (get_memory (ByName name) s)), s)
      | ListNames mt tags mode \<Rightarrow> (Names (mv_name ` set (iter_memories mt None tags mode s)), s))"

definition column_list :: "'a list option \<Rightarrow> 'a list" where
  "column_list x = (case x of None \<Rightarrow> [] | Some xs \<Rightarrow> xs)"

text \<open>The first occurrence of every element, and what an edit makes of a tag list.\<close>

fun firsts :: "'a list \<Rightarrow> 'a list" where
  "firsts [] = []"
| "firsts (x # xs) = x # filter (\<lambda>y. y \<noteq> x) (firsts xs)"

definition edited :: "string list \<Rightarrow> string list \<Rightarrow> string list option \<Rightarrow> string list \<Rightarrow> string list" where
  "edited add remove replace tags =
     (case replace of
        Some ts \<Rightarrow> firsts ts
      | None \<Rightarrow>
          let kept = filter (\<lambda>t. t \<notin> set remove) tags
          in kept @ filter (\<lambda>t. t \<notin> set kept) (firsts add))"

definition map_exec :: "mem_op \<Rightarrow> memory_map \<Rightarrow> mem_answer \<times> memory_map" where
  "map_exec x \<sigma> =
     (case x of
        Put now name c mt tg md prot \<Rightarrow>
          (Stored, \<sigma>(name \<mapsto> Some \<lparr>b_content = c, b_mtype = mt, b_tags = tags_column tg, b_metadata = meta_column md\<rparr>))
      | Retag now name add remove repl \<Rightarrow>
          (case \<sigma> name of
             None \<Rightarrow> (Tags None, \<sigma>)
           | Some None \<Rightarrow> (Tags (Some (edited add remove repl [])), \<sigma>)
           | Some (Some b) \<Rightarrow>
               let new = edited add remove repl (column_list (b_tags b))
               in (Tags (Some new), \<sigma>(name \<mapsto> Some (b\<lparr>b_tags := tags_column (Some new)\<rparr>))))
      | Reclassify now t sel \<Rightarrow>
          (Names {n. \<exists>b. \<sigma> n = Some (Some b) \<and> mem_selected sel n (b_mtype b)},
           \<lambda>n. map_option (map_option (\<lambda>b. if mem_selected sel n (b_mtype b) then b\<lparr>b_mtype := t\<rparr> else b)) (\<sigma> n))
      | Forget now name \<Rightarrow> (Gone (\<sigma> name \<noteq> None), \<sigma>(name := None))
      | Read name \<Rightarrow>
          (Body (map_option (\<lambda>v. (map_option b_content v, map_option b_mtype v,
                    (case v of None \<Rightarrow> [] | Some b \<Rightarrow> column_list (b_tags b)),
                    (case v of None \<Rightarrow> [] | Some b \<Rightarrow> column_list (b_metadata b)))) (\<sigma> name)), \<sigma>)
      | ListNames mt tags mode \<Rightarrow>
          (Names {n. \<exists>v. \<sigma> n = Some v \<and> (mt = None \<or> map_option b_mtype v = mt) \<and>
                      tags_filter tags mode (case v of None \<Rightarrow> None | Some b \<Rightarrow> b_tags b)}, \<sigma>))"

definition body_of :: "mem_row \<Rightarrow> body" where
  "body_of m = \<lparr>b_content = m_content m, b_mtype = m_mtype m, b_tags = m_tags m, b_metadata = m_metadata m\<rparr>"

definition memory_abs :: "store \<Rightarrow> memory_map" where
  "memory_abs s n =
     map_option (\<lambda>e. map_option body_of (memory_row (e_id e) s)) (find_entity (fst (bound s)) ''memory'' n s)"

text \<open>A memory addressed by name has a name that is not all digits.\<close>

definition addressable :: "mem_op \<Rightarrow> bool" where
  "addressable x =
     (case x of Retag _ n _ _ _ \<Rightarrow> \<not> digit_name n | Forget _ n \<Rightarrow> \<not> digit_name n | Read n \<Rightarrow> \<not> digit_name n | _ \<Rightarrow> True)"

section \<open>Tag edits\<close>

lemma dedup_acc_firsts: "dedup_acc seen xs = filter (\<lambda>x. x \<notin> set seen) (firsts xs)"
  by (induction seen xs rule: dedup_acc.induct) (auto intro: filter_cong)

lemma fold_add_firsts:
  "fold (\<lambda>t new. if t \<in> set new then new else new @ [t]) add kept = kept @ filter (\<lambda>t. t \<notin> set kept) (firsts add)"
proof (induction add arbitrary: kept)
  case (Cons t add)
  then show ?case by (auto intro: filter_cong)
qed simp

lemma edit_tags_edited: "edit_tags = edited"
  by (auto simp: fun_eq_iff edit_tags_def edited_def dedup_def dedup_acc_firsts fold_add_firsts Let_def split: option.split)

section \<open>Reads\<close>

lemma found_entity:
  "find_entity p k n s = Some e \<Longrightarrow> e \<in> set (entities s) \<and> e_pid e = p \<and> e_kind e = k \<and> e_name e = n"
  by (auto simp: find_entity_def entity_key_def dest: find_SomeD)

lemma get_by_name:
  "\<not> digit_name n \<Longrightarrow>
   get_memory (ByName n) s =
     map_option (\<lambda>e. view_row (partition_name_of (e_pid e) s) e s) (find_entity (fst (bound s)) ''memory'' n s)"
  by (auto simp: get_memory_def memory_entity_def dest: found_entity split: option.split)

lemma view_row_simps [simp]:
  "mv_id (view_row p e s) = e_id e" "mv_name (view_row p e s) = e_name e"
  "mv_content (view_row p e s) = map_option m_content (memory_row (e_id e) s)"
  "mv_mtype (view_row p e s) = map_option m_mtype (memory_row (e_id e) s)"
  "mv_tags (view_row p e s) = (case memory_row (e_id e) s of None \<Rightarrow> [] | Some m \<Rightarrow> column_list (m_tags m))"
  "mv_metadata (view_row p e s) = (case memory_row (e_id e) s of None \<Rightarrow> [] | Some m \<Rightarrow> column_list (m_metadata m))"
  by (simp_all add: view_row_def Let_def column_list_def split: option.split)

lemma memory_abs_Some:
  assumes "wf_entities s"
  shows "memory_abs s n = Some v \<longleftrightarrow>
    (\<exists>e\<in>set (memory_entities s). e_name e = n \<and> v = map_option body_of (memory_row (e_id e) s))"
proof -
  have "find_entity (fst (bound s)) ''memory'' n s = Some e \<longleftrightarrow> e \<in> set (memory_entities s) \<and> e_name e = n" for e
  proof
    assume "e \<in> set (memory_entities s) \<and> e_name e = n"
    then have e: "e \<in> set (entities s)" "entity_key e = (fst (bound s), ''memory'', n)"
      by (auto simp: memory_entities_def entity_key_def)
    then show "find_entity (fst (bound s)) ''memory'' n s = Some e"
      using find_key_unique [of entity_key "entities s" e] assms by (simp add: find_entity_def wf_entities_def)
  qed (auto simp: memory_entities_def dest: found_entity)
  then show ?thesis unfolding memory_abs_def by (auto simp: map_option_eq_Some)
qed

section \<open>Each operation simulates\<close>

lemma map_entities_wf:
  assumes "\<And>e. e_id (f e) = e_id e" "\<And>e. entity_key (f e) = entity_key e" "\<And>e. entity_ok (f e) = entity_ok e"
  shows "wf_entities (s\<lparr>entities := map f (entities s)\<rparr>) = wf_entities s"
  using assms by (simp add: wf_entities_def comp_def)

lemma wf_same:
  "wf_entities s \<Longrightarrow> entities t = entities s \<Longrightarrow> next_eid t = next_eid s \<Longrightarrow> wf_entities t"
  by (simp add: wf_entities_def)

lemma touch_wf: "wf_entities (touch_entity now i s) = wf_entities s"
  unfolding touch_entity_def by (rule map_entities_wf) (simp_all add: entity_key_def entity_ok_def)

lemma purge_wf: "wf_entities s \<Longrightarrow> wf_entities (snd (purge_entity now i s))"
  by (simp add: wf_entities_def purge_rows distinct_map inj_on_def)

lemma memory_abs_cong:
  "bound t = bound s \<Longrightarrow> entities t = entities s \<Longrightarrow> memory_content t = memory_content s \<Longrightarrow>
     memory_abs t = memory_abs s"
  by (simp add: memory_abs_def fun_eq_iff memory_row_def find_entity_def)

lemma other_name_id:
  assumes "wf_entities s" "find_entity p k n s = Some d" "find_entity p k n' s = Some e" "n \<noteq> n'"
  shows "e_id d \<noteq> e_id e"
  using find_entity_by_id [OF assms(1,2)] find_entity_by_id [OF assms(1,3)] found_entity [OF assms(2)]
    found_entity [OF assms(3)] assms(4) by (metis option.inject)

lemma add_memory_abs:
  assumes "wf_entities s"
  obtains i s1 where "add_memory now name c mt tg md prot s = Inr (i, s1)" "wf_entities s1"
    "memory_abs s1 = (memory_abs s)(name \<mapsto>
       Some \<lparr>b_content = c, b_mtype = mt, b_tags = tags_column tg, b_metadata = meta_column md\<rparr>)"
proof -
  let ?s0 = "snd (upsert_row now ''memory'' name None None None prot s)"
  let ?u = "upserted now ''memory'' name None None None prot s"
  let ?ch = "embed_changed (e_id ?u) c mt (tags_column tg) ?s0"
  let ?put = "put_memory now (e_id ?u) c mt (tags_column tg) (meta_column md)"
  obtain s1 where a: "add_memory now name c mt tg md prot s = Inr (e_id ?u, s1)"
    using add_memory_Inr by blast
  have wf0: "wf_entities ?s0" using assms by (rule upsert_row_wf) (simp add: kinds_def)
  have ent: "entities s1 = entities (if ?ch then touch_entity now (e_id ?u) ?s0 else ?s0)"
    and bd: "bound s1 = bound s" and eid: "next_eid s1 = next_eid ?s0"
    and row: "memory_row j s1 = memory_row j (?put ?s0)" for j
    using a by (auto simp: add_memory_def upsert_memory Let_def embed_changed_def memory_row_def touch_entity_def
        put_memory_def split: if_splits option.splits)
  have "wf_entities s1 = wf_entities (if ?ch then touch_entity now (e_id ?u) ?s0 else ?s0)"
    by (rule wf_frame(1) [OF ent]) (simp add: eid touch_entity_def)
  with wf0 have wf1: "wf_entities s1" by (simp add: touch_wf)
  have fe: "find_entity p k n s1 =
      map_option (\<lambda>e. if ?ch \<and> e_id e = e_id ?u then e\<lparr>e_updated := now\<rparr> else e) (find_entity p k n ?s0)" for p k n
    using find_entity_cong [OF ent] by (cases ?ch) (simp_all add: find_entity_touch option.map_ident)
  have at: "find_entity (fst (bound s)) ''memory'' name ?s0 = Some ?u" by (simp add: find_entity_upsert)
  have "memory_abs s1 n = ((memory_abs s)(name \<mapsto>
       Some \<lparr>b_content = c, b_mtype = mt, b_tags = tags_column tg, b_metadata = meta_column md\<rparr>)) n" for n
  proof (cases "n = name")
    case True
    then show ?thesis by (simp add: memory_abs_def bd fe at row memory_row_put body_of_def)
  next
    case False
    have "find_entity (fst (bound s)) ''memory'' n ?s0 = find_entity (fst (bound s)) ''memory'' n s"
      using False by (simp add: find_entity_upsert)
    moreover have "e_id e \<noteq> e_id ?u" if "find_entity (fst (bound s)) ''memory'' n ?s0 = Some e" for e
      by (rule other_name_id [OF wf0 that at False])
    moreover have "memory_row j ?s0 = memory_row j s" for j by (simp add: memory_row_def)
    ultimately show ?thesis
      using False by (cases "find_entity (fst (bound s)) ''memory'' n s")
        (auto simp: memory_abs_def bd fe row memory_row_put)
  qed
  then show thesis using that a wf1 by blast
qed

lemma set_row_abs:
  assumes "wf_entities s" "find_entity (fst (bound s)) ''memory'' name s = Some e" "\<And>m. m_entity (f m) = m_entity m"
  shows "memory_abs (set_row (e_id e) f s) =
    (memory_abs s)(name \<mapsto> map_option (\<lambda>m. body_of (f m)) (memory_row (e_id e) s))"
proof
  fix n
  have "e_id d \<noteq> e_id e" if "find_entity (fst (bound s)) ''memory'' n s = Some d" "n \<noteq> name" for d
    by (rule other_name_id [OF assms(1) that(1) assms(2) that(2)])
  then show "memory_abs (set_row (e_id e) f s) n =
      ((memory_abs s)(name \<mapsto> map_option (\<lambda>m. body_of (f m)) (memory_row (e_id e) s))) n"
    using assms(2) by (cases "find_entity (fst (bound s)) ''memory'' n s")
      (auto simp: memory_abs_def memory_row_set [OF assms(3)] option.map_comp comp_def)
qed

lemma option_eqI: "(\<And>v. x = Some v \<longleftrightarrow> y = Some v) \<Longrightarrow> x = y"
  by (cases x; cases y) auto

lemma purge_abs:
  assumes "wf_entities s" "find_entity (fst (bound s)) ''memory'' name s = Some e"
  shows "memory_abs (snd (purge_entity now (e_id e) s)) = (memory_abs s)(name := None)"
proof
  fix n
  let ?t = "snd (purge_entity now (e_id e) s)"
  have me: "set (memory_entities ?t) = {d \<in> set (memory_entities s). e_id d \<noteq> e_id e}"
    by (auto simp: memory_entities_def purge_rows)
  have one: "e_id d = e_id e \<longleftrightarrow> e_name d = name" if "d \<in> set (memory_entities s)" for d
  proof -
    have "d \<in> set (entities s)" "e \<in> set (entities s)" "entity_key d = (fst (bound s), ''memory'', e_name d)"
      "entity_key e = (fst (bound s), ''memory'', name)"
      using that found_entity [OF assms(2)] by (auto simp: memory_entities_def entity_key_def)
    then show ?thesis using assms(1) unfolding wf_entities_def distinct_map inj_on_def by (metis prod.inject)
  qed
  show "memory_abs ?t n = ((memory_abs s)(name := None)) n"
  proof (rule option_eqI)
    fix v
    show "memory_abs ?t n = Some v \<longleftrightarrow> ((memory_abs s)(name := None)) n = Some v"
      using one by (cases "n = name") (auto simp: memory_abs_Some purge_wf assms(1) me memory_row_purge)
  qed
qed

lemma fold_set_row:
  assumes "\<And>m. m_entity (f m) = m_entity m" "\<And>m. f (f m) = f m"
  shows "memory_row j (fold (\<lambda>(i, _). set_row i f) rows s) =
      (if j \<in> fst ` set rows then map_option f (memory_row j s) else memory_row j s)"
    "entities (fold (\<lambda>(i, _). set_row i f) rows s) = entities s"
    "bound (fold (\<lambda>(i, _). set_row i f) rows s) = bound s"
    "next_eid (fold (\<lambda>(i, _). set_row i f) rows s) = next_eid s"
proof (induction rows arbitrary: s)
  case (Cons r rows)
  { case 1 show ?case
      using Cons.IH(1) assms by (cases r) (auto simp: memory_row_set option.map_comp comp_def) }
  { case 2 show ?case using Cons.IH(2) by (simp add: split_beta) }
  { case 3 show ?case using Cons.IH(3) by (simp add: split_beta) }
  { case 4 show ?case using Cons.IH(4) by (simp add: split_beta) }
qed simp_all

lemma matched_memories_iff:
  "set (matched_memories sel s) = {(e_id e, e_name e) | e. e \<in> set (memory_entities s) \<and>
     (\<exists>m. memory_row (e_id e) s = Some m \<and> mem_selected sel (e_name e) (m_mtype m))}"
  by (auto simp: matched_memories_def split: option.splits)

lemma reclassify_abs:
  assumes "wf_entities s"
  shows "memory_abs (snd (reclassify_memories now t sel False s)) =
      (\<lambda>n. map_option (map_option (\<lambda>b. if mem_selected sel n (b_mtype b) then b\<lparr>b_mtype := t\<rparr> else b)) (memory_abs s n))"
    and "set (fst (fst (reclassify_memories now t sel False s))) =
      {n. \<exists>b. memory_abs s n = Some (Some b) \<and> mem_selected sel n (b_mtype b)}"
    and "wf_entities (snd (reclassify_memories now t sel False s))"
proof -
  let ?rows = "matched_memories sel s"
  let ?f = "\<lambda>m. m\<lparr>m_mtype := t, m_updated := now\<rparr>"
  let ?s1 = "fold (\<lambda>(i, _). set_row i ?f) ?rows s"
  have e: "reclassify_memories now t sel False s =
      ((map snd ?rows, length ?rows), log_reclassified now t ?rows ?s1)"
    by (cases "?rows = []") (simp_all add: reclassify_memories_def Let_def)
  note frame = log_reclassified_frame fold_set_row(2-4) [of ?f, simplified]
  have ids: "e_id d \<in> fst ` set ?rows \<longleftrightarrow> (\<exists>m. memory_row (e_id d) s = Some m \<and> mem_selected sel (e_name d) (m_mtype m))"
    if "find_entity (fst (bound s)) ''memory'' n s = Some d" for d n
  proof -
    have d: "d \<in> set (memory_entities s)" using found_entity [OF that] by (simp add: memory_entities_def)
    have "x = d" if "x \<in> set (memory_entities s)" "e_id x = e_id d" for x
      using assms d that unfolding wf_entities_def memory_entities_def distinct_map inj_on_def by simp
    then have one: "x \<in> set (memory_entities s) \<and> e_id x = e_id d \<longleftrightarrow> x = d" for x using d by blast
    have "e_id d \<in> fst ` set ?rows \<longleftrightarrow> (\<exists>x. (x \<in> set (memory_entities s) \<and> e_id x = e_id d) \<and>
        (\<exists>m. memory_row (e_id x) s = Some m \<and> mem_selected sel (e_name x) (m_mtype m)))"
      unfolding matched_memories_iff by (auto simp: image_iff) (metis prod.collapse)
    then show ?thesis unfolding one by simp
  qed
  have "memory_abs (log_reclassified now t ?rows ?s1) = memory_abs ?s1"
    by (rule memory_abs_cong) (simp_all add: log_reclassified_frame)
  moreover have "memory_abs ?s1 n =
      map_option (map_option (\<lambda>b. if mem_selected sel n (b_mtype b) then b\<lparr>b_mtype := t\<rparr> else b)) (memory_abs s n)" for n
  proof (cases "find_entity (fst (bound s)) ''memory'' n s")
    case None
    then show ?thesis
      by (simp add: memory_abs_def fold_set_row(3) find_entity_cong [OF fold_set_row(2)])
  next
    case (Some d)
    then show ?thesis
      using ids [OF Some] found_entity [OF Some]
      by (cases "memory_row (e_id d) s")
        (simp_all add: memory_abs_def fold_set_row(1,3) find_entity_cong [OF fold_set_row(2)] body_of_def)
  qed
  ultimately show "memory_abs (snd (reclassify_memories now t sel False s)) =
      (\<lambda>n. map_option (map_option (\<lambda>b. if mem_selected sel n (b_mtype b) then b\<lparr>b_mtype := t\<rparr> else b)) (memory_abs s n))"
    unfolding e by (simp add: fun_eq_iff)
  show "set (fst (fst (reclassify_memories now t sel False s))) =
      {n. \<exists>b. memory_abs s n = Some (Some b) \<and> mem_selected sel n (b_mtype b)}"
  proof -
    have "(\<exists>b. memory_abs s n = Some (Some b) \<and> mem_selected sel n (b_mtype b)) \<longleftrightarrow>
        (\<exists>e\<in>set (memory_entities s). e_name e = n \<and>
           (\<exists>m. memory_row (e_id e) s = Some m \<and> mem_selected sel n (m_mtype m)))" for n
    proof -
      have "(\<exists>b. memory_abs s n = Some (Some b) \<and> mem_selected sel n (b_mtype b)) \<longleftrightarrow>
          (\<exists>e\<in>set (memory_entities s). e_name e = n \<and>
             (\<exists>b. map_option body_of (memory_row (e_id e) s) = Some b \<and> mem_selected sel n (b_mtype b)))"
        unfolding memory_abs_Some [OF assms] by metis
      then show ?thesis by (simp add: body_of_def) (metis body.select_convs(2))
    qed
    then show ?thesis unfolding e by (auto simp: matched_memories_iff image_iff) blast+
  qed
  show "wf_entities (snd (reclassify_memories now t sel False s))"
    unfolding e by (rule wf_same [OF assms]) (simp_all add: frame)
qed

lemma retag_abs:
  assumes "wf_entities s" "\<not> digit_name name"
  shows "map_exec (Retag now name add remove repl) (memory_abs s) =
      (Tags (fst (retag_memory now (ByName name) add remove repl s)),
       memory_abs (snd (retag_memory now (ByName name) add remove repl s)))"
    and "wf_entities (snd (retag_memory now (ByName name) add remove repl s))"
proof -
  let ?f = "\<lambda>new m. m\<lparr>m_tags := new, m_updated := now\<rparr>"
  have log: "memory_abs (log_event now ev u) = memory_abs u" for ev u by (rule memory_abs_cong) simp_all
  show "map_exec (Retag now name add remove repl) (memory_abs s) =
      (Tags (fst (retag_memory now (ByName name) add remove repl s)),
       memory_abs (snd (retag_memory now (ByName name) add remove repl s)))"
  proof (cases "find_entity (fst (bound s)) ''memory'' name s")
    case None
    then show ?thesis using assms(2) by (simp add: map_exec_def retag_memory_def get_by_name memory_abs_def)
  next
    case (Some e)
    note set = set_row_abs [OF assms(1) Some, of "?f new" for new, simplified]
    show ?thesis
      using Some assms(2) by (cases "memory_row (e_id e) s")
        (auto simp: map_exec_def retag_memory_def edit_tags_edited get_by_name Let_def log set memory_abs_def body_of_def fun_eq_iff)
  qed
  show "wf_entities (snd (retag_memory now (ByName name) add remove repl s))"
    by (rule wf_same [OF assms(1)]) (simp_all add: retag_memory_def Let_def split: option.split)
qed

interpretation memories: refines mem_exec map_exec memory_abs wf_entities addressable
proof
  fix s x assume wf: "wf_entities s" and ok: "addressable x"
  have "wf_entities (snd (mem_exec x s)) \<and> map_exec x (memory_abs s) = (fst (mem_exec x s), memory_abs (snd (mem_exec x s)))"
  proof (cases x)
    case (Put now name c mt tg md prot)
    obtain i s1 where "add_memory now name c mt tg md prot s = Inr (i, s1)" "wf_entities s1"
      "memory_abs s1 = (memory_abs s)(name \<mapsto>
         Some \<lparr>b_content = c, b_mtype = mt, b_tags = tags_column tg, b_metadata = meta_column md\<rparr>)"
      using wf by (rule add_memory_abs)
    with Put show ?thesis by (simp add: mem_exec_def map_exec_def)
  next
    case (Retag now name add remove repl)
    then show ?thesis
      using ok retag_abs [OF wf] by (simp add: mem_exec_def addressable_def split_beta)
  next
    case (Reclassify now t sel)
    then show ?thesis
      using reclassify_abs [OF wf] by (simp add: mem_exec_def map_exec_def split_beta)
  next
    case (Forget now name)
    then show ?thesis
      using ok wf by (cases "find_entity (fst (bound s)) ''memory'' name s")
        (auto simp: mem_exec_def map_exec_def forget_memory_def addressable_def get_by_name purge_abs purge_wf,
         simp_all add: memory_abs_def fun_eq_iff)
  next
    case (Read name)
    then show ?thesis
      using ok wf by (cases "find_entity (fst (bound s)) ''memory'' name s")
        (auto simp: mem_exec_def map_exec_def addressable_def get_by_name memory_abs_def body_of_def split: option.split)
  next
    case (ListNames mt tags mode)
    have "mv_name ` set (iter_memories mt None tags mode s) =
        {n. \<exists>v. memory_abs s n = Some v \<and> (mt = None \<or> map_option b_mtype v = mt) \<and>
             tags_filter tags mode (case v of None \<Rightarrow> None | Some b \<Rightarrow> b_tags b)}"
    proof -
      have row: "map_option b_mtype (map_option body_of r) = map_option m_mtype r"
        "(case map_option body_of r of None \<Rightarrow> None | Some b \<Rightarrow> b_tags b) = (case r of None \<Rightarrow> None | Some m \<Rightarrow> m_tags m)"
        for r by (cases r; simp add: body_of_def)+
      have "mv_name ` set (iter_memories mt None tags mode s) = e_name ` {e \<in> set (memory_entities s).
          (case mt of None \<Rightarrow> True | Some t \<Rightarrow> map_option m_mtype (memory_row (e_id e) s) = Some t) \<and>
          tags_filter tags mode (tags_col e s)}"
        by (simp add: iter_memories_def sql_limit_def image_image)
      also have "\<dots> = {n. \<exists>v. memory_abs s n = Some v \<and> (mt = None \<or> map_option b_mtype v = mt) \<and>
             tags_filter tags mode (case v of None \<Rightarrow> None | Some b \<Rightarrow> b_tags b)}"
      proof (rule set_eqI)
        fix n
        have "n \<in> {n. \<exists>v. memory_abs s n = Some v \<and> (mt = None \<or> map_option b_mtype v = mt) \<and>
               tags_filter tags mode (case v of None \<Rightarrow> None | Some b \<Rightarrow> b_tags b)} \<longleftrightarrow>
            (\<exists>e\<in>set (memory_entities s). e_name e = n \<and>
               (mt = None \<or> map_option m_mtype (memory_row (e_id e) s) = mt) \<and> tags_filter tags mode (tags_col e s))"
          unfolding memory_abs_Some [OF wf] tags_col_def mem_Collect_eq row [symmetric] by metis
        also have "\<dots> \<longleftrightarrow> n \<in> e_name ` {e \<in> set (memory_entities s).
            (case mt of None \<Rightarrow> True | Some t \<Rightarrow> map_option m_mtype (memory_row (e_id e) s) = Some t) \<and>
            tags_filter tags mode (tags_col e s)}"
          by (cases mt) auto
        finally show "n \<in> e_name ` {e \<in> set (memory_entities s).
            (case mt of None \<Rightarrow> True | Some t \<Rightarrow> map_option m_mtype (memory_row (e_id e) s) = Some t) \<and>
            tags_filter tags mode (tags_col e s)} \<longleftrightarrow>
            n \<in> {n. \<exists>v. memory_abs s n = Some v \<and> (mt = None \<or> map_option b_mtype v = mt) \<and>
               tags_filter tags mode (case v of None \<Rightarrow> None | Some b \<Rightarrow> b_tags b)}" ..
      qed
      finally show ?thesis .
    qed
    then show ?thesis using ListNames wf by (simp add: mem_exec_def map_exec_def)
  qed
  then show "wf_entities (snd (mem_exec x s))"
    "map_exec x (memory_abs s) = (fst (mem_exec x s), memory_abs (snd (mem_exec x s)))" by simp_all
qed

text \<open>C21. The memory layer is a map. Any sequence of stores, tag edits, bulk retypings, removals, reads and
  listings through the memory operations of a partition gives the answers that the same sequence gives on
  a map from names to bodies, whatever other rows the catalog has, as long as a memory is not addressed
  by a name that is all digits.\<close>

theorem memories_refine_map:
  assumes "wf_entities s" "\<forall>x\<in>set xs. addressable x"
  shows "run_ops mem_exec xs s = run_ops map_exec xs (memory_abs s)"
  using assms by (rule memories.run_refines)

theorem memories_refine_map_witness:
  "run_ops mem_exec
     [Put 1 ''plan'' ''draft'' ''observation'' (Some [''a'']) None False, Retag 2 ''plan'' [''b''] [''a''] None,
      Reclassify 3 ''decision'' \<lparr>sel_like = None, sel_names = [''plan''], sel_mtype = None\<rparr>, Read ''plan'',
      Forget 4 ''plan'', Read ''plan''] (open_store ''main'') =
   [Stored, Tags (Some [''b'']), Names {''plan''},
    Body (Some (Some ''draft'', Some ''decision'', [''b''], [])), Gone True, Body None]"
proof -
  let ?xs = "[Put 1 ''plan'' ''draft'' ''observation'' (Some [''a'']) None False, Retag 2 ''plan'' [''b''] [''a''] None,
      Reclassify 3 ''decision'' \<lparr>sel_like = None, sel_names = [''plan''], sel_mtype = None\<rparr>, Read ''plan'',
      Forget 4 ''plan'', Read ''plan'']"
  have "wf_entities (open_store ''main'')" using open_store_wf by (simp add: wf_catalog_def)
  moreover have "\<forall>x\<in>set ?xs. addressable x" by (simp add: addressable_def digit_name_def is_digit_def)
  moreover have "memory_abs (open_store ''main'') = (\<lambda>_. None)"
    by (simp add: fun_eq_iff memory_abs_def find_entity_def)
  moreover have "{n. \<exists>b. (n = ''plan'' \<longrightarrow> b = c) \<and> n = ''plan''} = {''plan''}" for c :: body by auto
  ultimately show ?thesis
    using memories_refine_map [of "open_store ''main''" ?xs]
    by (auto simp: map_exec_def edited_def mem_selected_def tags_column_def meta_column_def column_list_def Let_def
        split: if_splits)
qed

section \<open>Tag filters\<close>

text \<open>A tag that \<open>json.dumps\<close> writes as it is.\<close>

definition plain_tag :: "string \<Rightarrow> bool" where
  "plain_tag t = list_all (\<lambda>c. json_char c = [c] \<and> c \<noteq> CHR 0x22) t"

definition no_wildcard :: "string \<Rightarrow> bool" where
  "no_wildcard t = (CHR ''%'' \<notin> set t \<and> CHR ''_'' \<notin> set t)"

lemma like_infix_step:
  assumes "no_wildcard p"
  shows "like_match (''%'' @ p @ ''%'') (c # s) \<longleftrightarrow>
    starts_with p (c # s) \<or> like_match (''%'' @ p @ ''%'') s"
  using like_prefix [of p "c # s"] assms by (simp add: no_wildcard_def)

lemma like_infix_Nil: "no_wildcard p \<Longrightarrow> p \<noteq> [] \<Longrightarrow> \<not> like_match (''%'' @ p @ ''%'') []"
  using like_prefix [of p "[]"] by (simp add: no_wildcard_def starts_with_def)

text \<open>The quoted tag occurs in the text.\<close>

abbreviation quoted_in :: "string \<Rightarrow> string \<Rightarrow> bool" where
  "quoted_in t s \<equiv> like_match (tag_pattern t) s"

lemma quoted_in_step:
  assumes "no_wildcard t"
  shows "quoted_in t (c # s) \<longleftrightarrow> c = CHR 0x22 \<and> starts_with (t @ [CHR 0x22]) s \<or> quoted_in t s"
    and "\<not> quoted_in t []"
proof -
  have n: "no_wildcard (CHR 0x22 # t @ [CHR 0x22])" using assms by (simp add: no_wildcard_def)
  have e: "tag_pattern t = ''%'' @ (CHR 0x22 # t @ [CHR 0x22]) @ ''%''" by (simp add: tag_pattern_def)
  show "quoted_in t (c # s) \<longleftrightarrow> c = CHR 0x22 \<and> starts_with (t @ [CHR 0x22]) s \<or> quoted_in t s"
    unfolding e like_infix_step [OF n] by (auto simp: starts_with_def)
  show "\<not> quoted_in t []" unfolding e by (rule like_infix_Nil [OF n]) simp
qed

lemma quoted_in_skip:
  "no_wildcard t \<Longrightarrow> CHR 0x22 \<notin> set u \<Longrightarrow> quoted_in t (u @ s) = quoted_in t s"
  by (induction u) (auto simp: quoted_in_step(1))

lemma starts_quoted:
  "CHR 0x22 \<notin> set t \<Longrightarrow> CHR 0x22 \<notin> set u \<Longrightarrow> starts_with (t @ [CHR 0x22]) (u @ CHR 0x22 # s) \<longleftrightarrow> t = u"
proof (induction t arbitrary: u)
  case Nil
  then show ?case by (cases u) (auto simp: starts_with_def)
next
  case (Cons c t)
  then show ?case by (cases u) (auto simp: starts_with_def)
qed

lemma plain_json: "plain_tag t \<Longrightarrow> json_string t = CHR 0x22 # t @ [CHR 0x22]"
  by (induction t) (auto simp: plain_tag_def json_string_def)

lemma plain_quote: "plain_tag t \<Longrightarrow> CHR 0x22 \<notin> set t"
  by (auto simp: plain_tag_def list_all_iff)

text \<open>Past the opening bracket: the stored tags, and the separators between two of them.\<close>

lemma quoted_in_join:
  assumes "no_wildcard t" "plain_tag t"
  shows "\<forall>u\<in>set ts. plain_tag u \<Longrightarrow> quoted_in t (join '', '' (map json_string ts) @ '']'') \<longleftrightarrow>
    t \<in> set ts \<or> (t = '', '' \<and> 2 \<le> length ts)"
proof (induction ts)
  case Nil
  then show ?case using quoted_in_step [OF assms(1)] by simp
next
  case (Cons u us)
  note q = plain_quote [OF assms(2)]
  have u: "CHR 0x22 \<notin> set u" "json_string u = CHR 0x22 # u @ [CHR 0x22]"
    using Cons.prems plain_quote [of u] plain_json [of u] by simp_all
  show ?case
  proof (cases us)
    case Nil
    have "quoted_in t (CHR 0x22 # u @ CHR 0x22 # '']'') \<longleftrightarrow> t = u"
      using q u(1) by (simp add: quoted_in_step [OF assms(1)] quoted_in_skip [OF assms(1)] starts_quoted)
        (auto simp: starts_with_def)
    then show ?thesis using Nil u by simp
  next
    case (Cons v vs)
    let ?rest = "join '', '' (map json_string us) @ '']''"
    obtain r where r: "?rest = CHR 0x22 # r"
      using Cons by (cases vs) (auto simp: json_string_def)
    have sep: "starts_with (t @ [CHR 0x22]) ('', '' @ CHR 0x22 # r) \<longleftrightarrow> t = '', ''"
      using starts_quoted [OF q, of "'', ''" r] by simp
    have "join '', '' (map json_string (u # us)) @ '']'' = CHR 0x22 # u @ CHR 0x22 # '', '' @ ?rest"
      using Cons u by simp
    then have "quoted_in t (join '', '' (map json_string (u # us)) @ '']'') \<longleftrightarrow>
        t = u \<or> starts_with (t @ [CHR 0x22]) ('', '' @ ?rest) \<or> quoted_in t ('', '' @ ?rest)"
      using q u(1) by (simp only: quoted_in_step(1) [OF assms(1)] quoted_in_skip [OF assms(1) u(1)] starts_quoted [OF q u(1)]) simp
    also have "\<dots> \<longleftrightarrow> t = u \<or> t = '', '' \<or> quoted_in t ?rest"
      using sep quoted_in_skip [OF assms(1), of "'', ''" ?rest] unfolding r by simp
    also have "\<dots> \<longleftrightarrow> t \<in> set (u # us) \<or> (t = '', '' \<and> 2 \<le> length (u # us))"
      using Cons.IH Cons.prems Cons by auto
    finally show ?thesis .
  qed
qed

lemma tag_found:
  assumes "no_wildcard t" "plain_tag t" "\<forall>u\<in>set ts. plain_tag u"
  shows "quoted_in t (json_tags ts) \<longleftrightarrow> t \<in> set ts \<or> (t = '', '' \<and> 2 \<le> length ts)"
  using quoted_in_join [OF assms] quoted_in_skip [OF assms(1), of "''[''"] by (simp add: json_tags_def)

text \<open>A string is found as part of another one, whatever wildcards it has.\<close>

lemma like_self: "like_match q s \<Longrightarrow> like_match (t @ q) (t @ s)"
  by (induction t) auto

lemma like_skip: "like_match q s \<Longrightarrow> like_match (''%'' @ q) (a @ s)"
  by (induction a) auto

lemma join_member:
  assumes "x \<in> set xs"
  obtains a b where "join sep xs = a @ x @ b"
proof -
  have "\<exists>a b. join sep xs = a @ x @ b" using assms
  proof (induction sep xs rule: join.induct)
    case (3 sep y z zs)
    show ?case
    proof (cases "x = y")
      case True
      then show ?thesis using append_Nil by (metis join.simps(3))
    next
      case False
      then obtain a b where "join sep (z # zs) = a @ x @ b" using 3 by auto
      then have "join sep (y # z # zs) = (y @ sep @ a) @ x @ b" by simp
      then show ?thesis by blast
    qed
  qed (auto intro: exI [of _ "[]"])
  then show thesis using that by blast
qed

lemma stored_tag_found:
  assumes "t \<in> set ts" "plain_tag t"
  shows "quoted_in t (json_tags ts)"
proof -
  obtain a b where "join '', '' (map json_string ts) = a @ json_string t @ b"
    using join_member assms(1) by (metis imageI set_map)
  then have "json_tags ts = (''['' @ a) @ (CHR 0x22 # t @ [CHR 0x22]) @ b @ '']''"
    using plain_json [OF assms(2)] by (simp add: json_tags_def)
  moreover have "like_match ((CHR 0x22 # t @ [CHR 0x22]) @ ''%'') ((CHR 0x22 # t @ [CHR 0x22]) @ b @ '']'')"
    by (intro like_self like_any)
  moreover have "tag_pattern t = ''%'' @ (CHR 0x22 # t @ [CHR 0x22]) @ ''%''" by (simp add: tag_pattern_def)
  ultimately show ?thesis using like_skip by (simp only:)
qed

text \<open>C39. What the tag filter of \<open>iter_memories\<close>, \<open>search_memories\<close> and \<open>recent_memories\<close> finds among memories
  whose tags are written to JSON as they are, for tags of that kind. It never misses: a memory that has
  all (or, in mode \<open>any\<close>, one) of the tags passes. When the tags of the filter have no LIKE wildcard it
  passes nothing else, with one exception: the separator of the JSON list counts as a tag of
  every memory that has two.\<close>

theorem tag_filter_exact:
  assumes "\<forall>t\<in>set tags. plain_tag t" "\<forall>u\<in>set (column_list column). plain_tag u"
  shows "((if mode = ''all'' then set tags \<subseteq> set (column_list column)
           else tags = [] \<or> set tags \<inter> set (column_list column) \<noteq> {}) \<longrightarrow> tags_filter tags mode column) \<and>
    ((\<forall>t\<in>set tags. no_wildcard t) \<longrightarrow>
     (tags_filter tags mode column \<longleftrightarrow>
      (let has = (\<lambda>t. t \<in> set (column_list column) \<or> t = '', '' \<and> 2 \<le> length (column_list column)) in
       if mode = ''all'' then \<forall>t\<in>set tags. has t else tags = [] \<or> (\<exists>t\<in>set tags. has t))))"
proof (cases column)
  case None
  then show ?thesis by (cases tags) (auto simp: tags_filter_def column_list_def)
next
  case (Some ts)
  have found: "t \<in> set ts \<Longrightarrow> t \<in> set tags \<Longrightarrow> quoted_in t (json_tags ts)" for t
    using stored_tag_found assms(1) by blast
  have exact: "quoted_in t (json_tags ts) \<longleftrightarrow> t \<in> set ts \<or> t = '', '' \<and> 2 \<le> length ts"
    if "no_wildcard t" "t \<in> set tags" for t
    using tag_found [OF that(1)] that(2) assms Some by (simp add: column_list_def)
  show ?thesis unfolding Let_def
  proof (intro conjI impI)
    assume "if mode = ''all'' then set tags \<subseteq> set (column_list column)
      else tags = [] \<or> set tags \<inter> set (column_list column) \<noteq> {}"
    then show "tags_filter tags mode column" using found Some
      by (auto simp: tags_filter_def column_list_def list_all_iff list_ex_iff split: if_splits)
  next
    assume "\<forall>t\<in>set tags. no_wildcard t"
    then have "\<forall>t\<in>set tags. quoted_in t (json_tags ts) \<longleftrightarrow> t \<in> set ts \<or> t = '', '' \<and> 2 \<le> length ts" using exact by blast
    then show "tags_filter tags mode column \<longleftrightarrow> (if mode = ''all''
        then \<forall>t\<in>set tags. t \<in> set (column_list column) \<or> t = '', '' \<and> 2 \<le> length (column_list column)
        else tags = [] \<or> (\<exists>t\<in>set tags. t \<in> set (column_list column) \<or> t = '', '' \<and> 2 \<le> length (column_list column)))"
      using Some by (cases "tags = []") (auto simp: tags_filter_def column_list_def list_all_iff list_ex_iff)
  qed
qed

theorem tag_filter_exact_witness:
  "tags_filter [''git''] ''all'' (Some [''ci'', ''git'']) \<and> \<not> tags_filter [''git''] ''all'' (Some [''github'']) \<and>
   tags_filter [''a_b''] ''any'' (Some [''a_b''])"
  using tag_filter_exact [of "[''git'']" "Some [''ci'', ''git'']" "''all''"]
    tag_filter_exact [of "[''git'']" "Some [''github'']" "''all''"]
    tag_filter_exact [of "[''a_b'']" "Some [''a_b'']" "''any''"]
  by (simp add: plain_tag_def no_wildcard_def column_list_def json_char_def Let_def)

text \<open>Outside those tags the filter is not one of whole tokens: \<open>_\<close> is a wildcard, the separator is found
  between any two tags, and a tag that JSON escapes is never found.\<close>

lemma tag_filter_wildcard: "tags_filter [''a_b''] ''all'' (Some [''axb''])"
  by (simp add: tags_filter_def tag_pattern_def json_tags_def json_string_def json_char_def Let_def)

lemma tag_filter_separator:
  "plain_tag a \<Longrightarrow> plain_tag b \<Longrightarrow> tags_filter ['', ''] ''all'' (Some [a, b])"
  using tag_found [of "'', ''" "[a, b]"] by (simp add: tags_filter_def no_wildcard_def plain_tag_def json_char_def Let_def)

lemma tag_filter_escaped: "\<not> tags_filter [[CHR 0x5C]] ''all'' (Some [[CHR 0x5C]])"
  by (simp add: tags_filter_def tag_pattern_def json_tags_def json_string_def json_char_def Let_def)

section \<open>What edits leave behind\<close>

text \<open>Neither edit moves the entity clock, which is what re-queues a memory for embedding.\<close>

lemma retag_keeps_clock: "entities (snd (retag_memory now r add remove replace s)) = entities s"
  by (simp add: retag_memory_def Let_def split: option.split)

lemma reclassify_keeps_clock: "entities (snd (reclassify_memories now t sel dry s)) = entities s"
proof -
  have "entities (fold (\<lambda>(i, _). set_row i f) rows s) = entities s" for f :: "mem_row \<Rightarrow> mem_row" and rows :: "(nat \<times> string) list"
    by (induction rows arbitrary: s) (auto simp: split_beta)
  then show ?thesis by (simp add: reclassify_memories_def Let_def log_reclassified_frame)
qed

text \<open>A name of digits is an id: the memory of that name is not read, and a removal takes another one.\<close>

lemma digit_name_is_id:
  assumes "digit_name n"
  shows "get_memory (ByName n) s = get_memory (ById (digits_val n)) s"
    and "forget_memory now (ByName n) s = forget_memory now (ById (digits_val n)) s"
  using assms by (simp_all add: get_memory_def memory_entity_def forget_memory_def)

text \<open>A memory without a sidecar row reports the tags of an edit and stores none.\<close>

lemma retag_without_body:
  assumes "get_memory r s = Some v" "memory_row (mv_id v) s = None"
  shows "fst (retag_memory now r [''x''] [] None s) \<noteq> None"
    "memory_row (mv_id v) (snd (retag_memory now r [''x''] [] None s)) = None"
  using assms by (simp_all add: retag_memory_def Let_def memory_row_set)

section \<open>Bulk removal\<close>

lemma fold_purge_rows:
  "entities (fold (\<lambda>i s. snd (purge_entity now i s)) ids s) = filter (\<lambda>e. e_id e \<notin> set ids) (entities s) \<and>
   memory_content (fold (\<lambda>i s. snd (purge_entity now i s)) ids s) = filter (\<lambda>m. m_entity m \<notin> set ids) (memory_content s) \<and>
   bound (fold (\<lambda>i s. snd (purge_entity now i s)) ids s) = bound s"
  by (induction ids arbitrary: s) (auto simp: purge_rows intro: filter_cong)

lemma set_forget_ids:
  "set (forget_ids ids names mtypes s) = set ids \<union> {e_id e | e. e \<in> set (memory_entities s) \<and>
     (e_name e \<in> set names \<or> (\<exists>m. memory_row (e_id e) s = Some m \<and> m_mtype m \<in> set mtypes))}"
  by (auto simp: forget_ids_def set_dedup split: option.splits)

text \<open>\<open>bulk_forget_memories\<close> removes the union of what is selected and nothing else: the named ids in
  any partition, and in the bound one the memories of a listed name or type; a dry run reports the
  same ids and counts and changes nothing.\<close>

theorem bulk_forget_union:
  "set (fr_ids (fst (bulk_forget_memories now ids names mtypes dry s))) =
     set ids \<union> {e_id e | e. e \<in> set (memory_entities s) \<and>
       (e_name e \<in> set names \<or> (\<exists>m. memory_row (e_id e) s = Some m \<and> m_mtype m \<in> set mtypes))} \<and>
   distinct (fr_ids (fst (bulk_forget_memories now ids names mtypes dry s))) \<and>
   entities (snd (bulk_forget_memories now ids names mtypes False s)) =
     filter (\<lambda>e. e_id e \<notin> set (fr_ids (fst (bulk_forget_memories now ids names mtypes dry s)))) (entities s) \<and>
   memory_content (snd (bulk_forget_memories now ids names mtypes False s)) =
     filter (\<lambda>m. m_entity m \<notin> set (fr_ids (fst (bulk_forget_memories now ids names mtypes dry s)))) (memory_content s) \<and>
   snd (bulk_forget_memories now ids names mtypes True s) = s \<and>
   fr_by_mtype (fst (bulk_forget_memories now ids names mtypes True s)) =
     fr_by_mtype (fst (bulk_forget_memories now ids names mtypes False s))"
proof -
  let ?all = "forget_ids ids names mtypes s"
  have r: "fr_ids (fst (bulk_forget_memories now ids names mtypes d s)) = ?all" for d
    by (simp add: bulk_forget_memories_def Let_def)
  have d: "distinct ?all" by (simp add: forget_ids_def distinct_dedup)
  have e: "snd (bulk_forget_memories now ids names mtypes False s) = fold (\<lambda>i s. snd (purge_entity now i s)) ?all s"
    by (simp add: bulk_forget_memories_def Let_def)
  have "snd (bulk_forget_memories now ids names mtypes True s) = s"
    "fr_by_mtype (fst (bulk_forget_memories now ids names mtypes True s)) =
     fr_by_mtype (fst (bulk_forget_memories now ids names mtypes False s))"
    by (simp_all add: bulk_forget_memories_def Let_def)
  then show ?thesis unfolding r e by (simp add: set_forget_ids d fold_purge_rows)
qed

text \<open>The count of the report is of ids, also of those no entity has.\<close>

lemma bulk_forget_counts_ids:
  "fr_forgotten (fst (bulk_forget_memories now [7] [] [] False (open_store p))) = 1"
  by (simp add: bulk_forget_memories_def forget_ids_def memory_entities_def Let_def dedup_def)
end
