(* ===== verification/UpkeepFacts.thy ===== *)
theory UpkeepFacts
  imports Upkeep MemoryFacts Curation
begin

text \<open>
  What the upkeep of a partition does: the removal of paths and \<open>vacuum\<close> delete exactly the rows, links and
  bits of what they select and keep the graph invariant; the queue of entities to embed follows the
  entity clock.
\<close>

section \<open>Frames of the batched purge\<close>

lemma clear_fragment_evidence:
  "linkage_evidence (snd (clear_fragment bits ids l s)) = linkage_evidence s"
  by (auto simp: clear_fragment_def load_fragment_def mark_dirty_def mutate_fragment_def Let_def split_beta
      split: option.split)

lemma clear_fragments_evidence: "linkage_evidence (snd (clear_fragments bits ids ls s)) = linkage_evidence s"
  by (induction ls arbitrary: s) (auto simp: split_beta clear_fragment_evidence)

lemma clear_bindings_evidence: "linkage_evidence (snd (clear_bindings bits ids ls bs s)) = linkage_evidence s"
  by (induction bs arbitrary: s) (auto simp: split_beta clear_fragments_evidence)

lemma fold_log_evidence:
  "linkage_evidence (fold (\<lambda>x. log_event now (f x)) xs s) = linkage_evidence s"
  "next_eid (fold (\<lambda>x. log_event now (f x)) xs s) = next_eid s"
  by (induction xs arbitrary: s) auto

lemma bulk_purge_evidence: "linkage_evidence (snd (bulk_purge_ids now info s)) = linkage_evidence s"
  by (simp add: bulk_purge_ids_def Let_def case_prod_unfold fold_log_evidence fold_purge_chunks purge_chunk_def delete_rows_def
      untrack_paths_of_def clear_purged_bits_def clear_bindings_evidence)

lemma bulk_purge_next: "next_eid (snd (bulk_purge_ids now info s)) = next_eid s"
  by (simp add: bulk_purge_ids_def Let_def case_prod_unfold fold_log_evidence fold_purge_chunks purge_chunk_def delete_rows_def
      untrack_paths_of_def clear_purged_bits_def clear_bindings_rows)

lemma purged_of_tracked:
  assumes "purged_of ids s t"
  shows "purged_of ids s (t\<lparr>tracked_files := x\<rparr>)" "purged_of ids s (t\<lparr>linkage_evidence := y\<rparr>)"
proof -
  have "frag_value b k (t\<lparr>tracked_files := x\<rparr>) = frag_value b k t" "frag_value b k (t\<lparr>linkage_evidence := y\<rparr>) = frag_value b k t"
    for b k by (simp_all add: frag_value_def disk_value_def split: option.split)
  moreover have "frag_inv (t\<lparr>tracked_files := x\<rparr>) = frag_inv t" "frag_inv (t\<lparr>linkage_evidence := y\<rparr>) = frag_inv t"
    by (rule frag_inv_cong; simp)+
  ultimately show "purged_of ids s (t\<lparr>tracked_files := x\<rparr>)" "purged_of ids s (t\<lparr>linkage_evidence := y\<rparr>)"
    using assms unfolding purged_of_def by simp_all
qed

lemma purged_of_same: "set ys = set xs \<Longrightarrow> purged_of ys s t = purged_of xs s t"
  unfolding purged_of_def by (simp only:)

section \<open>Removing paths\<close>

lemma set_entities_for_paths:
  "set (entities_for_paths paths s) =
     {(e_id e, e_kind e, e_name e) | e. e \<in> set (entities s) \<and> e_pid e = fst (bound s) \<and> (\<exists>p\<in>set paths. e_path e = Some p)}"
proof -
  have "set (entities_for_paths paths s) = (\<Union>ck\<in>set (chunks 900 paths).
      {(e_id e, e_kind e, e_name e) | e. e \<in> set (entities s) \<and> e_pid e = fst (bound s) \<and> (\<exists>p\<in>set ck. e_path e = Some p)})"
    unfolding entities_for_paths_def by auto
  also have "\<dots> = {(e_id e, e_kind e, e_name e) | e. e \<in> set (entities s) \<and> e_pid e = fst (bound s) \<and>
      (\<exists>p\<in>set (List.concat (chunks 900 paths)). e_path e = Some p)}"
    unfolding set_concat by blast
  finally show ?thesis by simp
qed

lemma wf_filter:
  assumes "wf_entities s" "entities t = filter P (entities s)" "next_eid t = next_eid s"
  shows "wf_entities t"
  using assms by (auto simp: wf_entities_def distinct_map inj_on_def)

lemma image_union_rest:
  "C \<subseteq> E \<Longrightarrow> f ` C \<union> f ` {e \<in> E. f e \<notin> f ` C \<and> Q e} = f ` {e \<in> E. e \<in> C \<or> Q e}"
  by blast

lemma chunked_select:
  "set (List.concat (map (\<lambda>ck. filter P (map f (filter (\<lambda>r. Q r \<and> f r \<in> set ck) rs))) (chunks n xs))) =
     {f r | r. r \<in> set rs \<and> Q r \<and> f r \<in> set xs \<and> P (f r)}"
proof -
  have listed: "p \<in> set xs \<longleftrightarrow> (\<exists>ck\<in>set (chunks n xs). p \<in> set ck)" for p
    by (metis UN_iff concat_chunks set_concat)
  show ?thesis unfolding listed by auto
qed

lemma id_unique:
  "wf_entities s \<Longrightarrow> d \<in> set (entities s) \<Longrightarrow> e \<in> set (entities s) \<Longrightarrow> e_id d = e_id e \<Longrightarrow> d = e"
  unfolding wf_entities_def distinct_map inj_on_def by blast

lemma fold_sweep_paths:
  "fold sweep_paths cks s = s\<lparr>tracked_files :=
     filter (\<lambda>r. \<not> (t_pid r = fst (bound s) \<and> t_path r \<in> set (List.concat cks))) (tracked_files s)\<rparr>"
proof (induction cks arbitrary: s)
  case (Cons ck cks)
  then show ?case by (simp add: sweep_paths_def) (rule arg_cong [where f = "\<lambda>x. s\<lparr>tracked_files := x\<rparr>"], rule filter_cong, auto)
qed simp

lemma purge_paths_effect:
  fixes now paths s
  defines "info \<equiv> entities_for_paths paths s"
  defines "t \<equiv> purge_paths now paths info s"
  assumes g: "graph_inv s" and wf: "wf_entities s" and ids: "\<forall>e\<in>set (entities s). e_id e < 2 ^ 32"
  shows "purged_of (map fst info) s t"
    "tracked_files t = filter (\<lambda>r. \<not> (t_pid r = fst (bound s) \<and> t_path r \<in> set paths)) (tracked_files s)"
    "linkage_evidence t = linkage_evidence s"
proof -
  let ?b = "snd (bulk_purge_ids now info s)"
  have i: "\<forall>x\<in>set info. fst x < 2 ^ 32" using ids unfolding info_def set_entities_for_paths by auto
  note b = bulk_purge_purged [OF g i, where now = now]
  have bd: "bound ?b = bound s" using purged_ofD(5) [OF b(1)] .
  let ?s2 = "fold sweep_paths (chunks 900 paths) ?b"
  have s2: "?s2 = ?b\<lparr>tracked_files := filter (\<lambda>r. \<not> (t_pid r = fst (bound s) \<and> t_path r \<in> set paths)) (tracked_files ?b)\<rparr>"
    by (simp only: fold_sweep_paths concat_chunks bd)
  have log: "log_only ?s2 t" unfolding t_def purge_paths_def Let_def by (rule log_only_fold)
  show "purged_of (map fst info) s t" by (rule purged_of_log [OF _ log]) (simp only: s2 purged_of_tracked(1) [OF b(1)])
  have sub: "(\<exists>e\<in>set (entities s). e_id e \<in> fst ` set info \<and> e_path e = Some (t_path r)) \<Longrightarrow> t_path r \<in> set paths" for r
    unfolding info_def set_entities_for_paths using id_unique [OF wf] by fastforce
  show "tracked_files t = filter (\<lambda>r. \<not> (t_pid r = fst (bound s) \<and> t_path r \<in> set paths)) (tracked_files s)"
    unfolding log_only_fields(12) [OF log] s2 by (simp add: b(2)) (rule filter_cong, use sub in auto)
  show "linkage_evidence t = linkage_evidence s"
    unfolding t_def purge_paths_def Let_def fold_log_evidence fold_sweep_paths by (simp add: bulk_purge_evidence)
qed

text \<open>\<open>untrack_by_path\<close> refuses a call without a selector; otherwise it removes the tracked paths of the
  bound partition that match, and with them every entity anchored at one of them, its rows, its edges in
  every partition's fragments and in the forward index, and nothing else; a dry run reports the same.\<close>

theorem untrack_by_path_correct:
  assumes "graph_inv s" "wf_entities s" "\<forall>e\<in>set (entities s). e_id e < 2 ^ 32"
  shows "case untrack_by_path now like paths dry s of
      Inl _ \<Rightarrow> (like = None \<or> like = Some []) \<and> paths = []
    | Inr (rep, t) \<Rightarrow>
        set (ur_paths rep) = {t_path r | r. r \<in> set (tracked_files s) \<and> t_pid r = fst (bound s) \<and>
          ((\<exists>g. like = Some g \<and> g \<noteq> [] \<and> like_match g (t_path r)) \<or> t_path r \<in> set paths)} \<and>
        (if dry then t = s
         else graph_inv t \<and>
           tracked_files t = filter (\<lambda>r. \<not> (t_pid r = fst (bound s) \<and> t_path r \<in> set (ur_paths rep))) (tracked_files s) \<and>
           entities t = filter (\<lambda>e. \<not> (e_pid e = fst (bound s) \<and> (\<exists>p\<in>set (ur_paths rep). e_path e = Some p))) (entities s) \<and>
           purged_of (map fst (entities_for_paths (ur_paths rep) s)) s t)"
proof (cases "untrack_by_path now like paths dry s")
  case (Inl e)
  then show ?thesis by (auto simp: untrack_by_path_def Let_def split: if_splits)
next
  case (Inr a)
  let ?m = "matched_paths like paths s"
  obtain rep t where a: "a = (rep, t)" by force
  have r: "ur_paths rep = ?m" "t = (if dry \<or> ?m = [] then s else purge_paths now ?m (entities_for_paths ?m s) s)"
    using Inr a by (auto simp: untrack_by_path_def Let_def split: if_splits)
  define seen where "seen = (case like of None \<Rightarrow> [] | Some g \<Rightarrow> if g = [] then [] else paths_like g s)"
  have "set seen = {t_path r | r. r \<in> set (tracked_files s) \<and> t_pid r = fst (bound s) \<and>
      (\<exists>g. like = Some g \<and> g \<noteq> [] \<and> like_match g (t_path r))}"
    unfolding seen_def by (cases like) (auto simp: paths_like_def)
  moreover have "set ?m = set seen \<union> {t_path r | r. r \<in> set (tracked_files s) \<and> t_pid r = fst (bound s) \<and>
      t_path r \<in> set paths \<and> t_path r \<notin> set seen}"
    unfolding matched_paths_def Let_def seen_def [symmetric] set_append chunked_select ..
  ultimately have m: "set ?m = {t_path r | r. r \<in> set (tracked_files s) \<and> t_pid r = fst (bound s) \<and>
          ((\<exists>g. like = Some g \<and> g \<noteq> [] \<and> like_match g (t_path r)) \<or> t_path r \<in> set paths)}"
    by blast
  show ?thesis
  proof (cases "dry")
    case True
    then show ?thesis using Inr a r m by simp
  next
    case False
    note e = purge_paths_effect [OF assms, where now = now and paths = ?m]
    have t: "t = purge_paths now ?m (entities_for_paths ?m s) s"
    proof (cases "?m = []")
      case True
      then show ?thesis using r
        by (simp add: purge_paths_def entities_for_paths_def bulk_purge_ids_def)
    next
      case False
      with \<open>\<not> dry\<close> show ?thesis using r by simp
    qed
    have "e_id x \<in> fst ` set (entities_for_paths ?m s) \<longleftrightarrow>
        e_pid x = fst (bound s) \<and> (\<exists>p\<in>set ?m. e_path x = Some p)" if "x \<in> set (entities s)" for x
      using id_unique [OF assms(2) that] that unfolding set_entities_for_paths by force
    then have ent: "entities t = filter (\<lambda>e. \<not> (e_pid e = fst (bound s) \<and> (\<exists>p\<in>set ?m. e_path e = Some p))) (entities s)"
      unfolding t purged_ofD(3) [OF e(1)] by (intro filter_cong) auto
    note e = e [folded t]
    show ?thesis
      unfolding Inr a sum.case prod.case r(1) if_not_P [OF False]
      by (intro conjI m e ent purged_of_graph [OF assms(1) e(1)])
  qed
qed

theorem untrack_by_path_correct_witness:
  "case untrack_by_path 1 None [''/a''] False (mark_tracked 0 ''/a'' 0 (open_store ''a'')) of
     Inl _ \<Rightarrow> False
   | Inr (rep, t) \<Rightarrow> ur_paths rep = [''/a''] \<and> tracked_files t = []"
proof -
  let ?s = "mark_tracked 0 ''/a'' 0 (open_store ''a'')"
  have log: "log_only ((open_store ''a'')\<lparr>tracked_files := tracked_files ?s\<rparr>) ?s"
    by (simp add: mark_tracked_def log_only_def log_event_def)
  have "purged_of [] (open_store ''a'') (open_store ''a'')"
    using open_store_graph by (simp add: purged_of_def graph_inv_def)
  then have "purged_of [] (open_store ''a'') ?s"
    by (rule purged_of_log [OF purged_of_tracked(1) log])
  then have "graph_inv ?s" by (rule purged_of_graph [OF open_store_graph])
  moreover have "wf_entities ?s" "entities ?s = []" by (simp_all add: mark_tracked_def wf_entities_def)
  moreover have tr: "tracked_files ?s = [\<lparr>t_pid = 1, t_path = ''/a'', t_mtime = 0, t_synced = 0\<rparr>]" "bound ?s = (1, ''a'')"
    by (simp_all add: mark_tracked_def mark_row_def)
  ultimately show ?thesis
    using untrack_by_path_correct [where s = ?s and now = 1 and like = None and paths = "[''/a'']" and dry = False]
    by (auto simp: untrack_by_path_def matched_paths_def Let_def split: if_splits)
qed

section \<open>Vacuum\<close>

text \<open>What one vacuum removes: a concept without an edge from it, and what is anchored at a gone path.\<close>

definition reaped :: "(string \<Rightarrow> time option) \<Rightarrow> store \<Rightarrow> entity \<Rightarrow> bool" where
  "reaped disk_mtime s e =
     (e_pid e = fst (bound s) \<and>
      (e_kind e = ''concept'' \<and> (\<forall>r\<in>set (entity_links s). k_concept r \<noteq> e_id e) \<and> \<not> e_protected e \<or>
       (\<exists>p. e_path e = Some p \<and> disk_mtime p = None \<and> (\<exists>r\<in>set (tracked_files s). t_pid r = fst (bound s) \<and> t_path r = p))))"

lemma vacuum_effect:
  fixes disk_mtime now s
  defines "t \<equiv> snd (vacuum disk_mtime now s)"
  assumes g: "graph_inv s" and wf: "wf_entities s" and ids: "\<forall>e\<in>set (entities s). e_id e < 2 ^ 32"
    and np: "\<forall>e\<in>set (entities s). e_kind e = ''concept'' \<longrightarrow> e_path e = None"
  shows "purged_of (map e_id (filter (reaped disk_mtime s) (entities s))) s t"
    "tracked_files t = filter (\<lambda>r. \<not> (t_pid r = fst (bound s) \<and> disk_mtime (t_path r) = None)) (tracked_files s)"
    "linkage_evidence t = filter (\<lambda>v. \<exists>e\<in>set (entities t). e_id e = v_entity v) (linkage_evidence s)"
proof -
  let ?info = "map (\<lambda>e. (e_id e, ''concept'', e_name e)) (empty_concepts s)"
  let ?s1 = "drop_empty_concepts now s"
  let ?gone = "gone_paths disk_mtime ?s1"
  let ?s2 = "purge_paths now ?gone (entities_for_paths ?gone ?s1) ?s1"
  have i1: "\<forall>x\<in>set ?info. fst x < 2 ^ 32" using ids by (auto simp: empty_concepts_def)
  note b = bulk_purge_purged [OF g i1, where now = now, folded drop_empty_concepts_def]
  have bd: "bound ?s1 = bound s" by (rule purged_ofD(5) [OF b(1)])
  have ec: "set (empty_concepts s) \<subseteq> {e \<in> set (entities s). e_kind e = ''concept''}" by (auto simp: empty_concepts_def)
  have "\<not> (\<exists>e\<in>set (entities s). e_id e \<in> fst ` set ?info \<and> e_path e = Some p)" for p
  proof
    assume "\<exists>e\<in>set (entities s). e_id e \<in> fst ` set ?info \<and> e_path e = Some p"
    then obtain e d where "e \<in> set (entities s)" "e_path e = Some p" "d \<in> set (empty_concepts s)" "e_id e = e_id d"
      by auto
    with id_unique [OF wf] ec np show False by force
  qed
  then have tr1: "tracked_files ?s1 = tracked_files s" by (simp add: b(2))
  have g1: "graph_inv ?s1" by (rule purged_of_graph [OF g b(1)])
  have ent1: "entities ?s1 = filter (\<lambda>e. e_id e \<notin> e_id ` set (empty_concepts s)) (entities s)"
    using purged_ofD(3) [OF b(1)] by (simp add: image_image)
  have wf1: "wf_entities ?s1"
    by (rule wf_filter [OF wf ent1]) (simp add: drop_empty_concepts_def bulk_purge_next)
  have "\<forall>e\<in>set (entities ?s1). e_id e < 2 ^ 32" using ids ent1 by simp
  note e = purge_paths_effect [OF g1 wf1 this, where now = now and paths = ?gone]
  have gone: "set ?gone = {t_path r | r. r \<in> set (tracked_files s) \<and> t_pid r = fst (bound s) \<and> disk_mtime (t_path r) = None}"
    by (auto simp: gone_paths_def tr1 bd)
  have s2: "?s2 = (if ?gone = [] then ?s1 else ?s2)"
    by (simp add: purge_paths_def entities_for_paths_def bulk_purge_ids_def)
  have t: "t = ?s2\<lparr>linkage_evidence := linkage_evidence t\<rparr>"
    unfolding t_def vacuum_def Let_def sweep_evidence_def snd_conv s2 [symmetric] by simp
  have p: "purged_of (map fst ?info @ map fst (entities_for_paths ?gone ?s1)) s ?s2" by (rule purged_of_trans [OF b(1) e(1)])
  have set_ids: "set (map fst ?info @ map fst (entities_for_paths ?gone ?s1)) = e_id ` {e \<in> set (entities s). reaped disk_mtime s e}"
  proof -
    have paths: "set (map fst (entities_for_paths ?gone ?s1)) = e_id ` {e \<in> set (entities ?s1). e_pid e = fst (bound s) \<and>
        (\<exists>p. e_path e = Some p \<and> disk_mtime p = None \<and> (\<exists>r\<in>set (tracked_files s). t_pid r = fst (bound s) \<and> t_path r = p))}"
      unfolding set_map set_entities_for_paths gone bd by (auto simp: image_iff) blast+
    have concepts: "set (map fst ?info) = e_id ` set (empty_concepts s)" by (simp add: image_image)
    have reap: "reaped disk_mtime s e \<longleftrightarrow> e \<in> set (empty_concepts s) \<or> e_pid e = fst (bound s) \<and>
        (\<exists>p. e_path e = Some p \<and> disk_mtime p = None \<and> (\<exists>r\<in>set (tracked_files s). t_pid r = fst (bound s) \<and> t_path r = p))"
      if "e \<in> set (entities s)" for e
      using that by (auto simp: reaped_def empty_concepts_def list_ex_iff)
    have E: "{e \<in> set (entities s). reaped disk_mtime s e} = {e \<in> set (entities s). e \<in> set (empty_concepts s) \<or> e_pid e = fst (bound s) \<and>
        (\<exists>p. e_path e = Some p \<and> disk_mtime p = None \<and> (\<exists>r\<in>set (tracked_files s). t_pid r = fst (bound s) \<and> t_path r = p))}"
      by (rule Collect_cong) (use reap in blast)
    have "set (empty_concepts s) \<subseteq> set (entities s)" using ec by blast
    note u = image_union_rest [OF this, of e_id "\<lambda>e. e_pid e = fst (bound s) \<and>
        (\<exists>p. e_path e = Some p \<and> disk_mtime p = None \<and> (\<exists>r\<in>set (tracked_files s). t_pid r = fst (bound s) \<and> t_path r = p))"]
    show ?thesis unfolding set_append paths concepts ent1 E u [symmetric] set_filter mem_Collect_eq by (simp only: conj_assoc)
  qed
  show "purged_of (map e_id (filter (reaped disk_mtime s) (entities s))) s t"
    by (subst t, rule purged_of_tracked(2), rule iffD2 [OF purged_of_same p]) (simp only: set_ids set_map set_filter)
  show "tracked_files t = filter (\<lambda>r. \<not> (t_pid r = fst (bound s) \<and> disk_mtime (t_path r) = None)) (tracked_files s)"
    by (subst t) (auto simp: e(2) gone tr1 bd intro!: filter_cong)
  show "linkage_evidence t = filter (\<lambda>v. \<exists>e\<in>set (entities t). e_id e = v_entity v) (linkage_evidence s)"
  proof -
    have "t = sweep_evidence ?s2" unfolding t_def vacuum_def Let_def snd_conv s2 [symmetric] ..
    moreover have "linkage_evidence ?s2 = linkage_evidence s"
      unfolding e(3) unfolding drop_empty_concepts_def by (rule bulk_purge_evidence)
    ultimately show ?thesis by (simp add: sweep_evidence_def list_ex_iff)
  qed
qed

lemma vacuum_rows:
  assumes "graph_inv s" "wf_entities s" "\<forall>e\<in>set (entities s). e_id e < 2 ^ 32"
    "\<forall>e\<in>set (entities s). e_kind e = ''concept'' \<longrightarrow> e_path e = None"
  shows "entities (snd (vacuum disk_mtime now s)) = filter (\<lambda>e. \<not> reaped disk_mtime s e) (entities s)"
    "tracked_files (snd (vacuum disk_mtime now s)) =
       filter (\<lambda>r. \<not> (t_pid r = fst (bound s) \<and> disk_mtime (t_path r) = None)) (tracked_files s)"
proof -
  note v = vacuum_effect [OF assms, where now = now and disk_mtime = disk_mtime]
  have "e_id e \<in> set (map e_id (filter (reaped disk_mtime s) (entities s))) \<longleftrightarrow> reaped disk_mtime s e"
    if "e \<in> set (entities s)" for e using id_unique [OF assms(2) that] that by auto
  then show "entities (snd (vacuum disk_mtime now s)) = filter (\<lambda>e. \<not> reaped disk_mtime s e) (entities s)"
    unfolding purged_ofD(3) [OF v(1)] by (intro filter_cong) auto
qed (rule vacuum_effect(2) [OF assms])

text \<open>The identifiers of the reaped rows.\<close>

definition reaped_id :: "(string \<Rightarrow> time option) \<Rightarrow> store \<Rightarrow> nat \<Rightarrow> bool" where
  "reaped_id disk_mtime s i = (\<exists>e\<in>set (entities s). reaped disk_mtime s e \<and> e_id e = i)"

lemma reaped_ids: "i \<in> set (map e_id (filter (reaped disk_mtime s) (entities s))) \<longleftrightarrow> reaped_id disk_mtime s i"
  by (auto simp: reaped_id_def)


text \<open>An unlinked concept beside a document whose file is gone.\<close>

definition attic :: store where
  "attic = (open_store ''a'')\<lparr>
     entities := [\<lparr>e_id = 1, e_pid = 1, e_kind = ''doc'', e_path = Some ''/gone'', e_name = ''d'', e_tldr = None, e_meta = None,
                   e_created = 0, e_updated = 0, e_protected = False, e_noise = False, e_canonical = None\<rparr>,
                  \<lparr>e_id = 2, e_pid = 1, e_kind = ''concept'', e_path = None, e_name = ''c'', e_tldr = None, e_meta = None,
                   e_created = 0, e_updated = 0, e_protected = True, e_noise = False, e_canonical = canonical_for_kind ''concept'' ''c''\<rparr>],
     next_eid := 3,
     tracked_files := [\<lparr>t_pid = 1, t_path = ''/gone'', t_mtime = 0, t_synced = 0\<rparr>,
                       \<lparr>t_pid = 1, t_path = ''pysem:/kept'', t_mtime = 0, t_synced = 0\<rparr>]\<rparr>"

lemma attic_ok:
  "graph_inv attic" "wf_entities attic" "\<forall>e\<in>set (entities attic). e_id e < 2 ^ 32"
  "\<forall>e\<in>set (entities attic). e_kind e = ''concept'' \<longrightarrow> e_path e = None"
proof -
  have f: "frag_value b k attic = frag_value b k (open_store ''a'')" for b k
    by (simp add: attic_def frag_value_def disk_value_def split: option.split)
  have "frag_inv attic = frag_inv (open_store ''a'')" by (rule frag_inv_cong) (simp_all add: attic_def)
  moreover have "shadow_ok attic = shadow_ok (open_store ''a'')"
    by (simp add: shadow_ok_def f attic_def lk_find_def bindings_def)
  ultimately show "graph_inv attic"
    using open_store_graph by (simp add: graph_inv_def attic_def wf_linkages_def)
  show "wf_entities attic"
    by (simp add: attic_def wf_entities_def entity_key_def entity_ok_def kinds_def, simp add: canonical_for_kind_def)
qed (simp_all add: attic_def)


text \<open>A gate marker such as \<open>pysem:/a.py\<close> is no path: \<open>stale_files\<close> leaves it out, and \<open>vacuum\<close> takes it for
  a gone file, so the pass it gates reads every file again.\<close>

lemma markers_not_stale:
  "\<not> real_path p \<Longrightarrow> p \<notin> fs_path ` set (stale_files disk_mtime s)"
  by (auto simp: stale_files_def split: option.splits if_splits)

lemma vacuum_drops_markers:
  assumes "graph_inv s" "wf_entities s" "\<forall>e\<in>set (entities s). e_id e < 2 ^ 32"
    "\<forall>e\<in>set (entities s). e_kind e = ''concept'' \<longrightarrow> e_path e = None"
    and "\<forall>p. \<not> real_path p \<longrightarrow> disk_mtime p = None"
    and "r \<in> set (tracked_files (snd (vacuum disk_mtime now s)))" "t_pid r = fst (bound s)"
  shows "real_path (t_path r)"
  using vacuum_rows [OF assms(1-4)] assms(5-7) by auto

text \<open>A concept that is only the object of edges, as the canonical name is of its aliases, is removed.\<close>

lemma vacuum_drops_alias_target:
  assumes "graph_inv s" "wf_entities s" "\<forall>e\<in>set (entities s). e_id e < 2 ^ 32"
    "\<forall>e\<in>set (entities s). e_kind e = ''concept'' \<longrightarrow> e_path e = None"
    and "e \<in> set (entities s)" "e_kind e = ''concept''" "e_pid e = fst (bound s)" "\<not> e_protected e"
    and "\<forall>r\<in>set (entity_links s). k_concept r \<noteq> e_id e"
  shows "e \<notin> set (entities (snd (vacuum disk_mtime now s)))"
  using vacuum_rows [OF assms(1-4)] assms(5-9) by (auto simp: reaped_def)

section \<open>The embedding queue\<close>

text \<open>A memory whose content, type or tags a write changes is queued for embedding, in every state of its
  vector: the entity clock is then later than the mark, or the mark is of another partition.\<close>

theorem edited_memory_pending:
  assumes "add_memory now name c mt tg md prot s = Inr (i, s1)"
    and "\<forall>m. memory_row i s = Some m \<longrightarrow> m_content m \<noteq> c \<or> m_mtype m \<noteq> mt \<or> m_tags m \<noteq> tags_column tg"
    and "\<forall>t. vm_updated (mark_of marks i) = Some t \<longrightarrow> t < now"
  shows "(i, ''memory'', name) \<in> set (pending_embeddings [] None s1 marks)"
proof -
  let ?e = "upserted now ''memory'' name None None None prot s"
  have i: "e_id ?e = i" and b: "bound s1 = bound s"
    and f: "find_entity (fst (bound s)) ''memory'' name s1 = Some (?e\<lparr>e_updated := now\<rparr>)"
    using add_memory_Inr [of now name c mt tg md prot s] assms(1,2) by (auto simp: Let_def split: if_splits)
  have "?e\<lparr>e_updated := now\<rparr> \<in> set (pending_rows [] s1 marks)"
    using found_entity [OF f] assms(3) by (auto simp: pending_rows_def needs_vector_def Let_def b i split: option.split)
  then show ?thesis
    unfolding pending_embeddings_def sql_limit_def option.case set_map set_sort
    by (rule rev_image_eqI) (use found_entity [OF f] i in simp)
qed

theorem edited_memory_pending_witness:
  "\<exists>i s1. add_memory 5 ''m'' ''body'' ''note'' None None False (open_store ''a'') = Inr (i, s1) \<and>
     (i, ''memory'', ''m'') \<in> set (pending_embeddings [] None s1 [])"
proof -
  obtain i s1 where a: "add_memory 5 ''m'' ''body'' ''note'' None None False (open_store ''a'') = Inr (i, s1)"
    using add_memory_Inr by blast
  with edited_memory_pending [OF a, of "[]"] show ?thesis by (simp add: memory_row_def mark_of_def no_mark_def)
qed

text \<open>The other edits of those fields leave the queue as it is, and an embedded row leaves it.\<close>

lemma retag_not_pending:
  "pending_rows knds (snd (retag_memory now r add remove replace s)) marks = pending_rows knds s marks"
proof -
  have b: "bound (snd (retag_memory now r add remove replace s)) = bound s"
    by (simp add: retag_memory_def Let_def split: option.split)
  show ?thesis by (simp only: pending_rows_def needs_vector_def retag_keeps_clock b)
qed

lemma mark_of_embedded:
  "mark_of (mark_embedded now ids s marks) i =
     (if i \<in> set ids then \<lparr>vm_updated = Some now, vm_partition = Some (snd (bound s))\<rparr> else mark_of marks i)"
proof -
  have "map_of (fold (\<lambda>i. AList.update i m) ids marks) i = (if i \<in> set ids then Some m else map_of marks i)" for m :: vec_mark
    by (induction ids arbitrary: marks) (auto simp: update_conv')
  then show ?thesis by (simp add: mark_of_def mark_embedded_def)
qed

lemma embedded_not_pending:
  assumes "\<forall>e\<in>set (entities s). e_updated e \<le> now"
  shows "pending_rows knds s (mark_embedded now ids s marks) = filter (\<lambda>e. e_id e \<notin> set ids) (pending_rows knds s marks)"
  using assms unfolding pending_rows_def filter_filter
  by (intro filter_cong) (auto simp: needs_vector_def mark_of_embedded Let_def)
end
