(* ===== verification/Spec2Isabelle.thy ===== *)
theory Spec2Isabelle
  imports Roundtrip Bus MergeFacts FocusReplay Topics QueueFacts Scheduler PartitionMergeFacts UpkeepFacts
begin

text \<open>
  refmatrix keeps, per project, a catalog of entities (documents, code, concepts, memories) with
  typed links between them, and answers set queries over it from bitmaps. This development models
  the core of that program as HOL functions over explicit states, and proves what makes each part
  correct. Paths below are relative to \<open>src/src/refmatrix/\<close>.

  \<^bold>\<open>Parts of the program and their theories.\<close>

  \<^item> \<open>Prelude\<close>: Python strings, dictionaries (association lists in insertion order), errors as a
    sum type (\<open>error + 'a\<close>, with \<open>bind_r\<close>), SQL LIKE, and the contract \<open>refines\<close> between an operation
    on a concrete state and one on an abstract state.
  \<^item> \<open>Identifier\<close>: \<open>identifier.py\<close> and the verb aliases and concept variants of \<open>store.py\<close>.
  \<^item> \<open>Catalog\<close>: the record \<open>store\<close> with one field per table of the DDL (lists of row records in
    insertion order), the fragment cache, the link buffer and the fact log; entity upserts,
    partitions, linkage types, concepts, memory bodies, tracked files (\<open>store.py\<close>).
  \<^item> \<open>Entities\<close>: the locale \<open>id_table\<close>, the contract of tables that allocate ids, interpreted for
    entities and linkage types; batch upserts against single ones, concept lookups, memory bodies.
  \<^item> \<open>Fragments\<close>: the bitmap of each partition and linkage, packed as concept id and entity id, its
    cache, dirty set and flush (\<open>load_fragment\<close>, \<open>load_bitmap\<close>, \<open>flush_fragments\<close>).
  \<^item> \<open>Repair\<close>: \<open>repair_fragments\<close> and \<open>merge_verb_alias\<close>.
  \<^item> \<open>Links\<close>, \<open>Batches\<close>: \<open>link\<close>, \<open>unlink\<close>, \<open>bulk_link\<close>, \<open>link_many\<close>, \<open>deferred_links\<close>,
    \<open>derive_called_by\<close> and the forward index \<open>entity_links\<close>, whose invariant is \<open>graph_inv\<close>: a row
    exists exactly when some partition's fragment has the bit.
  \<^item> \<open>Purge\<close>, \<open>Curation\<close>: deletion of entities one by one and in bulk, flags, selectors, folding of
    concept twins, noise pruning, renaming of partitions.
  \<^item> \<open>QueryParse\<close>, \<open>Query\<close>, \<open>Pql\<close>: the two query languages of \<open>query.py\<close>, the neighbourhood and
    ranking operations.
  \<^item> \<open>Replay\<close>, \<open>Rebuild\<close>, \<open>RebuildFacts\<close>, \<open>Roundtrip\<close>: the fact log: replay of a window
    (\<open>apply_log_delta\<close>), the dump of a catalog as a log, the rebuild of a catalog from a log, and
    the round trip of the two.
  \<^item> \<open>Bus\<close>: the agents' message bus of \<open>bus.py\<close>: publish, read with cursors, status changes, purge,
    and the queue of refinements.
  \<^item> \<open>ReplicaMerge\<close>, \<open>MergeFacts\<close>: the merge of two replica slots of \<open>replica_merge.py\<close>, its audit,
    and the specification \<open>merge_spec\<close> of a merge by names instead of ids.
  \<^item> \<open>Terms\<close>: the tokenizer and stop list of \<open>terms.py\<close>.
  \<^item> \<open>Focus\<close>: the short-term memory of \<open>stm.py\<close>: event log, focus graph and its eviction, ranked view,
    topics, task stack, detours, calls in flight. \<open>FocusFacts\<close> and \<open>FocusRuns\<close> hold its invariants over the
    step relation \<open>stm_step\<close>, \<open>FocusReplay\<close> the replay of the log and the stashes, \<open>Topics\<close> the view and
    the topics.
  \<^item> \<open>LearnQueue\<close>, \<open>QueueFacts\<close>: the queue of grep teach records (\<open>learn_queue.py\<close>, \<open>learn_switch.py\<close>) and
    the daemon's drain tick (\<open>_drain_learn_queue\<close>); what an entry teaches is a parameter of the tick.
  \<^item> \<open>Scheduler\<close>: the scheduled maintenance of \<open>scheduler.py\<close>.
  \<^item> \<open>PartitionMerge\<close>, \<open>PartitionMergeFacts\<close>: \<open>merge_partition\<close>, one partition of a catalog folded into
    another, with the graph read as the edges its fragments hold.
  \<^item> \<open>Memories\<close>, \<open>MemoryFacts\<close>: the memory layer of \<open>store.py\<close>: reads, listings with tag filters, subjects,
    edits and removals of memories, refining a map from names to bodies.
  \<^item> \<open>Upkeep\<close>, \<open>UpkeepFacts\<close>: stale files, untracking, \<open>vacuum\<close>, the stamps that gate a re-ingest and the
    queue of entities to embed, over a disk given as a function from paths to modification times.

  \<^bold>\<open>How state and effects are modelled.\<close> A table is the list of its rows, a SQL statement the
  list function it denotes (a filter, a map, an append, an update of the row with the key). A
  method that changes the state takes it and returns it changed; a raised exception is the left
  side of a sum. Times are integers that are compared and copied; link weights are rationals. A
  bitmap is the set of its members. The clock is an argument. Definitions compute, so that the
  witnesses evaluate them on concrete stores.

  \<^bold>\<open>What the lemmas show.\<close> Each operation has a lemma on its effect, error branches included, and
  keeps the invariants of its component (\<open>wf_catalog\<close>: unique ids and keys; \<open>frag_inv\<close>: a clean cached
  fragment is the persisted one; \<open>graph_inv\<close>). Batched operations are compared with the
  sequence of single ones they stand for; the fragments refine a map from partition, linkage and
  concept to entity sets; the query engine refines set algebra; the rebuild refines the collapsed
  log. Where the code and its documentation differ, a theorem states what the code does.

  \<^bold>\<open>Bounds and termination.\<close> Recursion follows lists, except for the parsers, whose measures are the
  number of remaining tokens or characters, and the loops named in their theories: the eviction of the
  focus graph is a \<open>while_option\<close> proved to return, label propagation runs the code's 30 rounds, the walk of
  the view its budget of 100 entries. The code's own bounds are kept: the queue of 5000 lines, the head
  room of 1000 ids of a replica merge. Ids are natural numbers below \<open>2 ^ 32\<close> where packing needs it.

  \<^bold>\<open>Not modelled.\<close> Commits, WAL and concurrent readers (a definition is a call that runs to its
  end); files, sockets and threads of the daemon, hub and command line; the parsers of ingested
  sources; floating-point ranking, embeddings and rerankers; the DDL and its migrations. JSON text
  is modelled by the values it encodes, except for the tag column, which filters search as text. Characters are ASCII.
\<close>

end
